(* ===== verification/Prelude.thy ===== *)
theory Prelude
  imports Main "HOL-Library.Word" "HOL-Library.List_Lexorder"
begin

text \<open>
  What every component shares: the machine types, the engine's error type and the
  \<open>Result\<close> plumbing, Rust's three-way comparison of byte slices, the binary searches the
  readers use, and the development's collections of facts.

  Byte strings are lists of 8-bit words; \<open>List_Lexorder\<close> makes \<open>(<)\<close> on them the
  lexicographic order of Rust's \<open>[u8]\<close>.
\<close>

unbundle bit_operations_syntax

type_synonym u8 = "8 word"
type_synonym u32 = "32 word"
type_synonym u64 = "64 word"
type_synonym bytes = "u8 list"
type_synonym seqno = u64

named_theorems codec_simps \<open>how the encoders unfold\<close>
named_theorems key_simps \<open>accessors of internal keys on well-formed keys\<close>

section \<open>Errors and results\<close>

text \<open>
  \<open>crate::error::Error\<close>. Messages are the literal text of the source; where the source
  formats arguments into it, the placeholders are left as they stand. \<open>Panic\<close> is no variant
  of the enum: it is the branch in which an assertion of the code stops the program.
\<close>

datatype error =
    Io string
  | Corruption string
  | InvalidArgument string
  | Conflict
  | Closed
  | Background string
  | Wasm string
  | GuestFailed int bytes
  | ProvenanceMismatch string
  | Gone string
  | JournalGap string
  | Panic string

type_synonym 'a res = "error + 'a"

abbreviation Err :: "error \<Rightarrow> 'a res" where "Err \<equiv> Inl"
abbreviation Ok :: "'a \<Rightarrow> 'a res" where "Ok \<equiv> Inr"

text \<open>The \<open>?\<close> operator: an error returns early, a value is passed on.\<close>

definition rbind :: "'a res \<Rightarrow> ('a \<Rightarrow> 'b res) \<Rightarrow> 'b res" where
  "rbind m f = (case m of Inl e \<Rightarrow> Inl e | Inr x \<Rightarrow> f x)"

lemma rbind_simps [simp]:
  "rbind (Inl e) f = Inl e"
  "rbind (Inr x) f = f x"
  by (simp_all add: rbind_def)

lemma rbind_Inr_conv: "rbind m f = Inr y \<longleftrightarrow> (\<exists>x. m = Inr x \<and> f x = Inr y)"
  by (cases m) auto

lemma rbind_Inl_conv: "rbind m f = Inl e \<longleftrightarrow> m = Inl e \<or> (\<exists>x. m = Inr x \<and> f x = Inl e)"
  by (cases m) auto

lemma rbind_assoc: "rbind (rbind m f) g = rbind m (\<lambda>x. rbind (f x) g)"
  by (cases m) auto

lemma rbind_Inr_right [simp]: "rbind m Inr = m"
  by (cases m) auto

lemma rbind_cong [fundef_cong]:
  assumes "m = m'" and "\<And>x. m' = Inr x \<Longrightarrow> f x = f' x"
  shows "rbind m f = rbind m' f'"
  using assms by (cases m') auto

definition corrupt :: "string \<Rightarrow> error" where
  "corrupt msg = Corruption msg"

definition is_corruption :: "'a res \<Rightarrow> bool" where
  "is_corruption r = (case r of Inl (Corruption _) \<Rightarrow> True | _ \<Rightarrow> False)"

lemma is_corruption_simps [simp]:
  "is_corruption (Inl (corrupt msg))"
  "is_corruption (Inl (Corruption msg))"
  "\<not> is_corruption (Inr x)"
  by (simp_all add: is_corruption_def corrupt_def)

lemma is_corruption_rbind [intro]: "is_corruption m \<Longrightarrow> is_corruption (rbind m f)"
  by (cases m) (auto simp: is_corruption_def split: error.splits)

section \<open>Ordering of byte strings\<close>

datatype ordering = Less | Equal | Greater

definition cmp_of :: "'a::linorder \<Rightarrow> 'a \<Rightarrow> ordering" where
  "cmp_of a b = (if a < b then Less else if a = b then Equal else Greater)"

definition then_with :: "ordering \<Rightarrow> ordering \<Rightarrow> ordering" where
  "then_with a b = (if a = Equal then b else a)"

lemma cmp_of_simps [simp]:
  "cmp_of a b = Less \<longleftrightarrow> a < b"
  "cmp_of a b = Equal \<longleftrightarrow> a = b"
  "cmp_of a b = Greater \<longleftrightarrow> b < a"
  by (auto simp: cmp_of_def)

text \<open>Lexicographic order of lists over a common prefix, as the key arguments need it.\<close>

lemma list_less_append_left [simp]:
  "(xs @ ys < xs @ zs) = (ys < (zs :: 'a::linorder list))"
  by (induction xs) auto

lemma list_le_append_left [simp]:
  "(xs @ ys \<le> xs @ zs) = (ys \<le> (zs :: 'a::linorder list))"
  by (induction xs) auto

lemma list_Nil_least [simp]: "[] \<le> (xs :: 'a::linorder list)"
  by (cases xs) auto

lemma append_split_longer:
  assumes "length xs < length as" and "as @ bs = xs @ ys"
  obtains us where "as = xs @ us" and "us \<noteq> []"
proof
  show "as = xs @ drop (length xs) as"
    using assms by (metis append_eq_append_conv_if append_take_drop_id less_imp_le_nat)
  show "drop (length xs) as \<noteq> []" using assms(1) by simp
qed

lemma append_split_prefix:
  assumes "\<not> length xs < length as" and "as @ bs = xs @ ys"
  obtains us where "xs = as @ us"
proof
  show "xs = as @ drop (length as) xs"
    using assms by (metis append_eq_append_conv_if append_take_drop_id not_less)
qed

section \<open>Bounds and conversions of words\<close>

lemma unat_u8_less: "unat (b :: u8) < 256"
  by (rule less_le_trans [OF unsigned_less]) simp

lemma unat_u32_less: "unat (w :: u32) < 4294967296"
  by (rule less_le_trans [OF unsigned_less]) simp

lemma unat_u64_less: "unat (w :: u64) < 2 ^ 64"
  by (rule less_le_trans [OF unsigned_less]) simp

lemma unat_ucast_u8_u64 [simp]: "unat (ucast (b :: u8) :: u64) = unat b"
  using unat_u8_less [of b] by (simp add: unsigned_ucast_eq take_bit_nat_eq_self)

lemma unat_ucast_u32_u64 [simp]: "unat (ucast (w :: u32) :: u64) = unat w"
  using unat_u32_less [of w] by (simp add: unsigned_ucast_eq take_bit_nat_eq_self)

lemma ucast_u32_u64_u32 [simp]: "(ucast (ucast (w :: u32) :: u64) :: u32) = w"
  by (rule bit_word_eqI) (auto simp: bit_simps)

lemma ucast_u32_u64_le: "(ucast (w :: u32) :: u64) \<le> 0xFFFFFFFF"
  using unat_u32_less [of w] by (simp add: word_le_nat_alt)

section \<open>Binary search\<close>

text \<open>
  The loop of \<open>Block::lower_bound\<close> and \<open>TableIndex::lower_bound\<close>, and what
  \<open>slice::partition_point\<close> documents: on a predicate that is true on a prefix of the
  indices and false afterwards, the search returns the length of that prefix.
\<close>

definition prefix_pred :: "(nat \<Rightarrow> bool) \<Rightarrow> nat \<Rightarrow> bool" where
  "prefix_pred p n \<longleftrightarrow> (\<forall>i j. i \<le> j \<and> j < n \<and> p j \<longrightarrow> p i)"

function bsearch :: "(nat \<Rightarrow> bool) \<Rightarrow> nat \<Rightarrow> nat \<Rightarrow> nat" where
  "bsearch p lo hi =
     (if lo < hi
      then let mid = (lo + hi) div 2
           in if p mid then bsearch p (mid + 1) hi else bsearch p lo mid
      else lo)"
  by pat_completeness auto
termination
  by (relation "measure (\<lambda>(p, lo, hi). hi - lo)") auto

declare bsearch.simps [simp del]

definition is_partition_point :: "(nat \<Rightarrow> bool) \<Rightarrow> nat \<Rightarrow> nat \<Rightarrow> bool" where
  "is_partition_point p n k \<longleftrightarrow> k \<le> n \<and> (\<forall>i < k. p i) \<and> (\<forall>i. k \<le> i \<and> i < n \<longrightarrow> \<not> p i)"

lemma partition_point_unique:
  "is_partition_point p n k \<Longrightarrow> is_partition_point p n k' \<Longrightarrow> k = k'"
  unfolding is_partition_point_def by (metis le_neq_implies_less linorder_le_cases order.strict_trans2)

lemma bsearch_invariant:
  assumes "prefix_pred p n" "lo \<le> hi" "hi \<le> n"
    and "\<forall>i < lo. p i" and "\<forall>i. hi \<le> i \<and> i < n \<longrightarrow> \<not> p i"
  shows "is_partition_point p n (bsearch p lo hi)"
  using assms
proof (induction p lo hi rule: bsearch.induct)
  case (1 p lo hi)
  show ?case
  proof (cases "lo < hi")
    case False
    with 1 show ?thesis
      by (subst bsearch.simps) (auto simp: is_partition_point_def)
  next
    case True
    define mid where "mid = (lo + hi) div 2"
    have mid: "lo \<le> mid" "mid < hi" using True by (auto simp: mid_def)
    show ?thesis
    proof (cases "p mid")
      case pm: True
      have "\<forall>i < mid + 1. p i"
      proof (intro allI impI)
        fix i assume "i < mid + 1"
        then have "i \<le> mid" "mid < n" using mid(2) "1.prems"(3) by auto
        then show "p i"
          using "1.prems"(1) pm unfolding prefix_pred_def by blast
      qed
      then show ?thesis
        using "1.IH"(1)[OF True mid_def pm "1.prems"(1)] 1(4-7) mid True pm
        by (subst bsearch.simps) (auto simp: Let_def mid_def)
    next
      case pm: False
      have "\<forall>i. mid \<le> i \<and> i < n \<longrightarrow> \<not> p i"
        using "1.prems"(1) pm unfolding prefix_pred_def by blast
      then show ?thesis
        using "1.IH"(2)[OF True mid_def pm "1.prems"(1)] 1(4-7) mid True pm
        by (subst bsearch.simps) (auto simp: Let_def mid_def)
    qed
  qed
qed

lemma bsearch_partition_point:
  "prefix_pred p n \<Longrightarrow> is_partition_point p n (bsearch p 0 n)"
  by (rule bsearch_invariant) auto

text \<open>\<open>slice::partition_point\<close> of the standard library, on a list.\<close>

fun partition_point :: "('a \<Rightarrow> bool) \<Rightarrow> 'a list \<Rightarrow> nat" where
  "partition_point p [] = 0"
| "partition_point p (x # xs) = (if p x then Suc (partition_point p xs) else 0)"

lemma partition_point_takeWhile: "partition_point p xs = length (takeWhile p xs)"
  by (induction xs) auto

lemma drop_partition_point: "drop (partition_point p xs) xs = dropWhile p xs"
  by (induction xs) auto

lemma take_partition_point: "take (partition_point p xs) xs = takeWhile p xs"
  by (induction xs) auto

lemma partition_point_le: "partition_point p xs \<le> length xs"
  by (induction xs) auto

text \<open>A predicate that is monotone along a list: the search agrees with \<open>takeWhile\<close>.\<close>

definition prefix_on :: "('a \<Rightarrow> bool) \<Rightarrow> 'a list \<Rightarrow> bool" where
  "prefix_on p xs \<longleftrightarrow> sorted_wrt (\<lambda>x y. p y \<longrightarrow> p x) xs"

lemma takeWhile_partition_point:
  "prefix_on p xs \<Longrightarrow> is_partition_point (\<lambda>i. p (xs ! i)) (length xs) (length (takeWhile p xs))"
proof (induction xs)
  case (Cons x xs)
  show ?case
  proof (cases "p x")
    case True
    have "is_partition_point (\<lambda>i. p (xs ! i)) (length xs) (length (takeWhile p xs))"
      using Cons by (simp add: prefix_on_def)
    with True show ?thesis
      by (auto simp: is_partition_point_def nth_Cons split: nat.splits)
  next
    case False
    with Cons.prems have "\<forall>y \<in> set xs. \<not> p y" by (auto simp: prefix_on_def)
    with False show ?thesis
      by (auto simp: is_partition_point_def nth_Cons split: nat.splits)
  qed
qed (simp add: is_partition_point_def)

lemma prefix_on_prefix_pred: "prefix_on p xs \<Longrightarrow> prefix_pred (\<lambda>i. p (xs ! i)) (length xs)"
  unfolding prefix_on_def prefix_pred_def sorted_wrt_iff_nth_less by (metis le_neq_implies_less)

lemma bsearch_takeWhile:
  "prefix_on p xs \<Longrightarrow> bsearch (\<lambda>i. p (xs ! i)) 0 (length xs) = length (takeWhile p xs)"
  by (rule partition_point_unique [OF bsearch_partition_point [OF prefix_on_prefix_pred]
        takeWhile_partition_point])

section \<open>Bounded for loops over fallible readers\<close>

fun foldM :: "('s \<Rightarrow> 'a \<Rightarrow> 's res) \<Rightarrow> 's \<Rightarrow> 'a list \<Rightarrow> 's res" where
  "foldM f s [] = Inr s"
| "foldM f s (x # xs) = rbind (f s x) (\<lambda>s'. foldM f s' xs)"

lemma foldM_append: "foldM f s (xs @ ys) = rbind (foldM f s xs) (\<lambda>s'. foldM f s' ys)"
  by (induction xs arbitrary: s) (auto simp: rbind_assoc)

end
