(* ===== verification/Coding.thy ===== *)
theory Coding
  imports Prelude
begin

text \<open>
  \<open>crates/fluent31/src/coding.rs\<close>: the little-endian and LEB128 primitives every on-disk
  format is built from, and the checked cursor \<open>Reader\<close>. The interface the decoders of the
  other theories rely on is the locale \<open>codec\<close>: decoding what was encoded returns the value
  and moves the cursor past exactly the encoded bytes, and a buffer that ends inside the
  encoding is reported as corruption.
\<close>

section \<open>Fixed-width integers as bytes\<close>

fun le_bytes :: "nat \<Rightarrow> 'a::len word \<Rightarrow> bytes" where
  "le_bytes 0 v = []"
| "le_bytes (Suc n) v = ucast v # le_bytes n (drop_bit 8 v)"

fun from_le_bytes :: "bytes \<Rightarrow> 'a::len word" where
  "from_le_bytes [] = 0"
| "from_le_bytes (b # bs) = ucast b OR push_bit 8 (from_le_bytes bs)"

definition be_bytes :: "nat \<Rightarrow> 'a::len word \<Rightarrow> bytes" where
  "be_bytes n v = rev (le_bytes n v)"

definition from_be_bytes :: "bytes \<Rightarrow> 'a::len word" where
  "from_be_bytes bs = from_le_bytes (rev bs)"

lemma length_le_bytes [simp]: "length (le_bytes n v) = n"
  by (induction n arbitrary: v) auto

lemma length_be_bytes [simp]: "length (be_bytes n v) = n"
  by (simp add: be_bytes_def)

lemma word_split_low:
  fixes v :: "'a::len word"
  shows "v = take_bit n v OR push_bit n (drop_bit n v)"
proof (rule bit_word_eqI)
  fix i assume "i < LENGTH('a)"
  then show "bit v i \<longleftrightarrow> bit (take_bit n v OR push_bit n (drop_bit n v)) i"
    by (cases "i < n") (auto simp: bit_simps)
qed

lemma unat_drop_bit [simp]: "unat (drop_bit n (v :: 'a::len word)) = unat v div 2 ^ n"
  by (rule trans [OF unat_drop_bit_eq drop_bit_eq_div])

lemma from_le_bytes_le_bytes:
  fixes v :: "'a::len word"
  shows "from_le_bytes (le_bytes n v) = take_bit (8 * n) v"
proof (induction n arbitrary: v)
  case 0
  show ?case by simp
next
  case (Suc n)
  have "ucast (ucast v :: u8) OR push_bit 8 (take_bit (8 * n) (drop_bit 8 v))
      = take_bit (8 * Suc n) v"
    by (rule bit_word_eqI) (auto simp: bit_simps)
  then show ?case by (simp add: Suc.IH)
qed

lemma from_le_bytes_u32 [simp]: "from_le_bytes (le_bytes 4 (v :: u32)) = v"
  using from_le_bytes_le_bytes [of 4 v] by (simp add: take_bit_word_eq_self)

lemma from_le_bytes_u64 [simp]: "from_le_bytes (le_bytes 8 (v :: u64)) = v"
  using from_le_bytes_le_bytes [of 8 v] by (simp add: take_bit_word_eq_self)

lemma from_be_bytes_u64 [simp]: "from_be_bytes (be_bytes 8 (v :: u64)) = v"
  by (simp add: from_be_bytes_def be_bytes_def)

lemma le_bytes_take_bit:
  fixes v :: "'a::len word"
  shows "8 * n \<le> m \<Longrightarrow> le_bytes n (take_bit m v) = le_bytes n v"
proof (induction n arbitrary: m v)
  case (Suc n)
  have "drop_bit 8 (take_bit m v) = take_bit (m - 8) (drop_bit 8 v)"
    by (rule bit_word_eqI) (auto simp: bit_simps)
  moreover have "(ucast (take_bit m v) :: u8) = ucast v"
    using Suc.prems by (intro bit_word_eqI) (auto simp: bit_simps)
  moreover have "le_bytes n (take_bit (m - 8) (drop_bit 8 v)) = le_bytes n (drop_bit 8 v)"
    using Suc.prems by (intro Suc.IH) simp
  ultimately show ?case by (simp only: le_bytes.simps)
qed simp

lemma le_bytes_from_le_bytes:
  "8 * length bs \<le> LENGTH('a) \<Longrightarrow> le_bytes (length bs) (from_le_bytes bs :: 'a::len word) = bs"
proof (induction bs)
  case (Cons b bs)
  let ?w = "from_le_bytes bs :: 'a word"
  have d: "drop_bit 8 (ucast b OR push_bit 8 ?w) = take_bit (LENGTH('a) - 8) ?w"
    by (rule bit_word_eqI) (auto simp: bit_simps dest: bit_imp_le_length)
  have l: "(ucast (ucast b OR push_bit 8 ?w :: 'a word) :: u8) = b"
    using Cons.prems by (intro bit_word_eqI) (auto simp: bit_simps)
  have "le_bytes (length bs) (take_bit (LENGTH('a) - 8) ?w) = le_bytes (length bs) ?w"
    using Cons.prems by (intro le_bytes_take_bit) simp
  with d l Cons show ?case by (simp only: from_le_bytes.simps le_bytes.simps list.size) simp
qed simp

lemma from_be_bytes_u64_inj:
  assumes "length xs = 8" "length ys = 8" "(from_be_bytes xs :: u64) = from_be_bytes ys"
  shows "xs = ys"
proof -
  have "rev xs = rev ys"
    using assms le_bytes_from_le_bytes [of "rev xs", where 'a = 64]
      le_bytes_from_le_bytes [of "rev ys", where 'a = 64]
    by (simp add: from_be_bytes_def)
  then show ?thesis by simp
qed

section \<open>Encoders\<close>

definition put_u32 :: "bytes \<Rightarrow> u32 \<Rightarrow> bytes" where
  "put_u32 dst v = dst @ le_bytes 4 v"

definition put_u64 :: "bytes \<Rightarrow> u64 \<Rightarrow> bytes" where
  "put_u64 dst v = dst @ le_bytes 8 v"

text \<open>\<open>uvarint v\<close> is what the loop of \<open>put_uvarint\<close> appends.\<close>

function uvarint :: "u64 \<Rightarrow> bytes" where
  "uvarint v =
     (if 0x80 \<le> v then (ucast v OR 0x80) # uvarint (drop_bit 7 v) else [ucast v])"
  by pat_completeness auto
termination
proof (relation "measure unat")
  fix v :: u64
  assume "0x80 \<le> v"
  then have "128 \<le> unat v" by (simp add: word_le_nat_alt)
  then have "unat (drop_bit 7 v) < unat v" by (simp only: unat_drop_bit) simp
  then show "(drop_bit 7 v, v) \<in> measure unat" by (simp only: in_measure)
qed simp

declare uvarint.simps [simp del]

definition put_uvarint :: "bytes \<Rightarrow> u64 \<Rightarrow> bytes" where
  "put_uvarint dst v = dst @ uvarint v"

definition put_len_prefixed :: "bytes \<Rightarrow> bytes \<Rightarrow> bytes" where
  "put_len_prefixed dst bs = put_uvarint dst (of_nat (length bs)) @ bs"

text \<open>The bytes each encoder appends, without the destination.\<close>

definition enc_u32 :: "u32 \<Rightarrow> bytes" where "enc_u32 v = le_bytes 4 v"
definition enc_u64 :: "u64 \<Rightarrow> bytes" where "enc_u64 v = le_bytes 8 v"
definition enc_u8 :: "u8 \<Rightarrow> bytes" where "enc_u8 b = [b]"
definition enc_len_prefixed :: "bytes \<Rightarrow> bytes" where
  "enc_len_prefixed bs = uvarint (of_nat (length bs)) @ bs"

lemma put_eqs [codec_simps]:
  "put_u32 dst v32 = dst @ enc_u32 v32"
  "put_u64 dst v64 = dst @ enc_u64 v64"
  "put_uvarint dst v64 = dst @ uvarint v64"
  "put_len_prefixed dst bs = dst @ enc_len_prefixed bs"
  by (simp_all add: put_u32_def put_u64_def put_uvarint_def put_len_prefixed_def
      enc_u32_def enc_u64_def enc_len_prefixed_def)

lemma length_enc [simp]:
  "length (enc_u32 v32) = 4" "length (enc_u64 v64) = 8" "length (enc_u8 b) = 1"
  by (simp_all add: enc_u32_def enc_u64_def enc_u8_def)

lemma uvarint_not_Nil [simp]: "uvarint v \<noteq> []"
  by (subst uvarint.simps) simp

lemma length_uvarint_bound: "unat v < 2 ^ (7 * k) \<Longrightarrow> 0 < k \<Longrightarrow> length (uvarint v) \<le> k"
proof (induction v arbitrary: k rule: uvarint.induct)
  case (1 v)
  show ?case
  proof (cases "0x80 \<le> v")
    case False
    then show ?thesis using 1 by (subst uvarint.simps) simp
  next
    case True
    then have v: "128 \<le> unat v" by (simp add: word_le_nat_alt)
    obtain j where j: "k = Suc j" using "1.prems"(2) by (cases k) auto
    with "1.prems"(1) v have "0 < j" by (cases j) auto
    moreover have "unat (drop_bit 7 v) < 2 ^ (7 * j)"
    proof -
      have "unat v < 2 ^ (7 * j) * 128" using "1.prems"(1) j by (simp add: power_add mult.commute)
      then show ?thesis by (simp only: unat_drop_bit) (simp add: less_mult_imp_div_less)
    qed
    ultimately have "length (uvarint (drop_bit 7 v)) \<le> j" using "1.IH" True by blast
    then show ?thesis using True j by (subst uvarint.simps) simp
  qed
qed

lemma length_uvarint_le_10: "length (uvarint v) \<le> 10"
proof (rule length_uvarint_bound)
  have "unat v < 2 ^ 64" using unsigned_less [of v] by simp
  then show "unat v < 2 ^ (7 * 10)" by (rule less_le_trans) simp
qed simp

section \<open>The checked reader\<close>

record reader =
  rbuf :: bytes
  rpos :: nat

definition reader_new :: "bytes \<Rightarrow> reader" where
  "reader_new buf = \<lparr>rbuf = buf, rpos = 0\<rparr>"

definition reader_remaining :: "reader \<Rightarrow> nat" where
  "reader_remaining r = length (rbuf r) - rpos r"

definition reader_is_empty :: "reader \<Rightarrow> bool" where
  "reader_is_empty r \<longleftrightarrow> reader_remaining r = 0"

definition reader_bytes :: "nat \<Rightarrow> reader \<Rightarrow> (bytes \<times> reader) res" where
  "reader_bytes n r =
     (if reader_remaining r < n then Err (corrupt ''short read while decoding'')
      else Ok (take n (drop (rpos r) (rbuf r)), r\<lparr>rpos := rpos r + n\<rparr>))"

definition reader_u32 :: "reader \<Rightarrow> (u32 \<times> reader) res" where
  "reader_u32 r = rbind (reader_bytes 4 r) (\<lambda>(bs, r). Ok (from_le_bytes bs, r))"

definition reader_u64 :: "reader \<Rightarrow> (u64 \<times> reader) res" where
  "reader_u64 r = rbind (reader_bytes 8 r) (\<lambda>(bs, r). Ok (from_le_bytes bs, r))"

definition reader_u8 :: "reader \<Rightarrow> (u8 \<times> reader) res" where
  "reader_u8 r = rbind (reader_bytes 1 r) (\<lambda>(bs, r). Ok (bs ! 0, r))"

function uvarint_loop :: "u64 \<Rightarrow> nat \<Rightarrow> reader \<Rightarrow> (u64 \<times> reader) res" where
  "uvarint_loop v shift r =
     rbind (reader_u8 r) (\<lambda>(b, r').
       if shift = 63 \<and> 1 < b then Err (corrupt ''uvarint overflow'')
       else let v' = v OR push_bit shift (ucast (b AND 0x7f))
            in if b < 0x80 then Ok (v', r')
               else if 63 < shift + 7 then Err (corrupt ''uvarint too long'')
               else uvarint_loop v' (shift + 7) r')"
  by pat_completeness auto
termination
  by (relation "measure (\<lambda>(v, shift, r). 64 - shift)") auto

declare uvarint_loop.simps [simp del]

definition reader_uvarint :: "reader \<Rightarrow> (u64 \<times> reader) res" where
  "reader_uvarint r = uvarint_loop 0 0 r"

definition reader_len_prefixed :: "reader \<Rightarrow> (bytes \<times> reader) res" where
  "reader_len_prefixed r =
     rbind (reader_uvarint r) (\<lambda>(n, r).
       if reader_remaining r < unat n then Err (corrupt ''length prefix beyond buffer'')
       else reader_bytes (unat n) r)"

section \<open>The contract of an encoder and its decoder\<close>

definition reader_wf :: "reader \<Rightarrow> bool" where
  "reader_wf r \<longleftrightarrow> rpos r \<le> length (rbuf r)"

definition reader_rest :: "reader \<Rightarrow> bytes" where
  "reader_rest r = drop (rpos r) (rbuf r)"

definition advance :: "nat \<Rightarrow> reader \<Rightarrow> reader" where
  "advance n r = r\<lparr>rpos := rpos r + n\<rparr>"

lemma advance_advance [simp]: "advance m (advance n r) = advance (n + m) r"
  by (simp add: advance_def add.assoc)

lemma advance_0 [simp]: "advance 0 r = r"
  by (simp add: advance_def)

lemma reader_rest_advance: "reader_rest (advance n r) = drop n (reader_rest r)"
  by (simp add: reader_rest_def advance_def add.commute)

lemma reader_wf_advance: "n \<le> length (reader_rest r) \<Longrightarrow> reader_wf r \<Longrightarrow> reader_wf (advance n r)"
  by (auto simp: reader_rest_def advance_def reader_wf_def)

lemma rbuf_advance [simp]: "rbuf (advance n r) = rbuf r"
  by (simp add: advance_def)

lemma reader_new_wf [simp]: "reader_wf (reader_new bs)"
  by (simp add: reader_wf_def reader_new_def)

lemma reader_new_rest [simp]: "reader_rest (reader_new bs) = bs"
  by (simp add: reader_rest_def reader_new_def)

lemma reader_remaining_rest: "reader_remaining r = length (reader_rest r)"
  by (simp add: reader_remaining_def reader_rest_def)

lemma reader_is_empty_rest: "reader_is_empty r \<longleftrightarrow> reader_rest r = []"
  by (simp add: reader_is_empty_def reader_remaining_rest)

lemma reader_bytes_rest:
  "reader_bytes n r =
     (if length (reader_rest r) < n then Err (corrupt ''short read while decoding'')
      else Ok (take n (reader_rest r), advance n r))"
  by (simp add: reader_bytes_def reader_remaining_rest reader_rest_def advance_def)

text \<open>
  The interface: \<open>enc\<close> and \<open>dec\<close> agree on the values \<open>ok\<close> accepts, wherever the cursor
  stands and whatever follows, and a buffer that stops inside an encoding is an error.
\<close>

locale codec =
  fixes enc :: "'a \<Rightarrow> bytes"
    and dec :: "reader \<Rightarrow> ('a \<times> reader) res"
    and ok :: "'a \<Rightarrow> bool"
  assumes dec_enc: "ok x \<Longrightarrow> reader_rest r = enc x @ us \<Longrightarrow>
      dec r = Ok (x, advance (length (enc x)) r)"
    and dec_short: "ok x \<Longrightarrow> enc x = reader_rest r @ zs \<Longrightarrow> zs \<noteq> [] \<Longrightarrow>
      is_corruption (dec r)"
begin

lemma dec_enc_rest:
  assumes "ok x" and "reader_rest r = enc x @ us"
  shows "\<exists>r'. dec r = Ok (x, r') \<and> reader_rest r' = us \<and> rbuf r' = rbuf r"
  using assms dec_enc [of x r us] by (auto simp: reader_rest_advance)

lemma dec_new: "ok x \<Longrightarrow> dec (reader_new (enc x)) = Ok (x, advance (length (enc x)) (reader_new (enc x)))"
  by (rule dec_enc [where us = "[]"]) auto

text \<open>An encoding determines its value, and no encoding is a proper prefix of another's.\<close>

lemma enc_inj: "ok x \<Longrightarrow> ok y \<Longrightarrow> enc x @ us = enc y @ vs \<Longrightarrow> x = y"
  using dec_enc [of x "reader_new (enc x @ us)" us] dec_enc [of y "reader_new (enc x @ us)" vs]
  by auto

lemma enc_prefix_free: "ok x \<Longrightarrow> ok y \<Longrightarrow> enc x = enc y @ zs \<Longrightarrow> zs = []"
  using enc_inj [of x y "[]" zs] by auto

end

text \<open>The bounded \<open>for\<close> loop that decodes \<open>n\<close> items in a row.\<close>

fun read_n :: "(reader \<Rightarrow> ('a \<times> reader) res) \<Rightarrow> nat \<Rightarrow> reader \<Rightarrow> ('a list \<times> reader) res" where
  "read_n dec 0 r = Ok ([], r)"
| "read_n dec (Suc n) r =
     rbind (dec r) (\<lambda>(x, r). rbind (read_n dec n r) (\<lambda>(xs, r). Ok (x # xs, r)))"

context codec
begin

lemma read_n_enc:
  "list_all ok xs \<Longrightarrow> reader_rest r = concat (map enc xs) @ us \<Longrightarrow>
   read_n dec (length xs) r = Ok (xs, advance (length (concat (map enc xs))) r)"
proof (induction xs arbitrary: r)
  case Nil
  show ?case by simp
next
  case (Cons x xs)
  let ?r = "advance (length (enc x)) r"
  have "dec r = Ok (x, ?r)"
    using Cons.prems by (intro dec_enc [where us = "concat (map enc xs) @ us"]) auto
  moreover have "read_n dec (length xs) ?r = Ok (xs, advance (length (concat (map enc xs))) ?r)"
    using Cons.prems by (intro Cons.IH) (auto simp: reader_rest_advance)
  ultimately show ?case by simp
qed

lemma read_n_short:
  "list_all ok xs \<Longrightarrow> concat (map enc xs) = reader_rest r @ zs \<Longrightarrow> zs \<noteq> [] \<Longrightarrow>
   is_corruption (read_n dec (length xs) r)"
proof (induction xs arbitrary: r)
  case Nil
  then show ?case by simp
next
  case (Cons x xs)
  show ?case
  proof (cases "length (reader_rest r) < length (enc x)")
    case True
    have "enc x @ concat (map enc xs) = reader_rest r @ zs" using Cons.prems(2) by simp
    with True obtain us where "enc x = reader_rest r @ us" "us \<noteq> []"
      by (rule append_split_longer)
    with Cons.prems(1) have "is_corruption (dec r)" by (auto intro: dec_short)
    then show ?thesis by auto
  next
    case False
    have "enc x @ concat (map enc xs) = reader_rest r @ zs" using Cons.prems(2) by simp
    with False obtain us where us: "reader_rest r = enc x @ us"
      by (rule append_split_prefix)
    let ?r = "advance (length (enc x)) r"
    have "dec r = Ok (x, ?r)" using Cons.prems(1) us by (auto intro: dec_enc)
    moreover have "is_corruption (read_n dec (length xs) ?r)"
      using Cons.prems us by (intro Cons.IH) (auto simp: reader_rest_advance)
    ultimately show ?thesis by auto
  qed
qed

end


section \<open>The primitives are codecs\<close>

interpretation u8c: codec enc_u8 reader_u8 "\<lambda>_. True"
  by unfold_locales
    (auto simp: reader_u8_def reader_bytes_rest enc_u8_def Cons_eq_append_conv)

interpretation u32c: codec enc_u32 reader_u32 "\<lambda>_. True"
proof
  fix x r us
  assume "reader_rest r = enc_u32 x @ us"
  then show "reader_u32 r = Ok (x, advance (length (enc_u32 x)) r)"
    by (simp add: reader_u32_def reader_bytes_rest enc_u32_def)
next
  fix x r zs
  assume "enc_u32 x = reader_rest r @ zs" and "zs \<noteq> ([] :: bytes)"
  then have "length (reader_rest r) < 4"
    by (metis append_eq_conv_conj length_enc(1) length_drop length_append length_greater_0_conv less_add_same_cancel1)
  then show "is_corruption (reader_u32 r)" by (simp add: reader_u32_def reader_bytes_rest)
qed

interpretation u64c: codec enc_u64 reader_u64 "\<lambda>_. True"
proof
  fix x r us
  assume "reader_rest r = enc_u64 x @ us"
  then show "reader_u64 r = Ok (x, advance (length (enc_u64 x)) r)"
    by (simp add: reader_u64_def reader_bytes_rest enc_u64_def)
next
  fix x r zs
  assume "enc_u64 x = reader_rest r @ zs" and "zs \<noteq> ([] :: bytes)"
  then have "length (reader_rest r) < 8"
    by (metis append_eq_conv_conj length_enc(2) length_drop length_append length_greater_0_conv less_add_same_cancel1)
  then show "is_corruption (reader_u64 r)" by (simp add: reader_u64_def reader_bytes_rest)
qed

subsection \<open>LEB128\<close>

lemma reader_u8_Cons: "reader_rest r = b # us \<Longrightarrow> reader_u8 r = Ok (b, advance 1 r)"
  using u8c.dec_enc [of r b us] by (simp add: enc_u8_def)

lemma reader_u8_Nil: "reader_rest r = [] \<Longrightarrow> is_corruption (reader_u8 r)"
  by (simp add: reader_u8_def reader_bytes_rest)

lemma uvarint_byte_bits:
  fixes v :: u64
  shows "(ucast ((ucast v OR 0x80 :: u8) AND 0x7f) :: u64) = take_bit 7 v"
    and "\<not> (ucast v OR 0x80 :: u8) < 0x80"
    and "v < 0x80 \<Longrightarrow> (ucast ((ucast v :: u8) AND 0x7f) :: u64) = v"
    and "v < 0x80 \<Longrightarrow> (ucast v :: u8) < 0x80"
proof -
  have m: "(0x7f :: u8) = mask 7" by (simp add: mask_eq_exp_minus_1)
  have e: "(0x80 :: u8) = 2 ^ 7" by simp
  have h: "bit (0x80 :: u8) n \<longleftrightarrow> n = 7" for n
    unfolding e bit_exp_iff by auto
  have g: "(ucast ((ucast v OR c :: u8) AND mask 7) :: u64) = take_bit 7 v"
    if "\<forall>n < 7. \<not> bit c n" for c :: u8
    using that by (intro bit_word_eqI) (auto simp: bit_simps)
  show "(ucast ((ucast v OR 0x80 :: u8) AND 0x7f) :: u64) = take_bit 7 v"
    unfolding m by (rule g) (simp only: h, simp)
  have "(0x80 :: u8) \<le> ucast v OR 0x80" by (simp only: or.commute [of "ucast v"] le_word_or2)
  then show "\<not> (ucast v OR 0x80 :: u8) < 0x80" by (simp only: not_less)
  assume "v < 0x80"
  then have u: "unat v < 128" by (simp add: word_less_nat_alt)
  then have t: "take_bit 7 v = v"
    by (simp add: word_unat_eq_iff take_bit_eq_mod unat_mod_distrib)
  have "(ucast ((ucast v :: u8) AND 0x7f) :: u64) = take_bit 7 v"
    unfolding m by (rule bit_word_eqI) (auto simp: bit_simps)
  then show "(ucast ((ucast v :: u8) AND 0x7f) :: u64) = v" using t by simp
  show "(ucast v :: u8) < 0x80" using u by (simp add: word_less_nat_alt unsigned_ucast_eq take_bit_eq_mod)
qed

lemma uvarint_loop_uvarint:
  "unat x < 2 ^ (64 - shift) \<Longrightarrow> shift \<le> 63 \<Longrightarrow> reader_rest r = uvarint x @ us \<Longrightarrow>
   uvarint_loop v shift r = Ok (v OR push_bit shift x, advance (length (uvarint x)) r)"
proof (induction x arbitrary: v shift r rule: uvarint.induct)
  case (1 x)
  show ?case
  proof (cases "0x80 \<le> x")
    case False
    then have x: "x < 0x80" by simp
    have b: "shift = 63 \<Longrightarrow> \<not> 1 < (ucast x :: u8)"
    proof -
      assume "shift = 63"
      with "1.prems"(1) have "unat x < 2" by simp
      then show ?thesis by (simp add: word_less_nat_alt unsigned_ucast_eq take_bit_eq_mod)
    qed
    from False have "uvarint x = [ucast x]" by (subst uvarint.simps) simp
    with "1.prems"(3) have "reader_u8 r = Ok (ucast x, advance 1 r)"
      by (intro reader_u8_Cons) auto
    with b x \<open>uvarint x = [ucast x]\<close> show ?thesis
      by (subst uvarint_loop.simps) (simp add: Let_def uvarint_byte_bits)
  next
    case True
    then have x: "128 \<le> unat x" by (simp add: word_le_nat_alt)
    have u: "uvarint x = (ucast x OR 0x80) # uvarint (drop_bit 7 x)"
      using True by (subst uvarint.simps) simp
    have "shift \<le> 56"
    proof (rule ccontr)
      assume "\<not> shift \<le> 56"
      then have "64 - shift \<le> 7" by simp
      then have "(2::nat) ^ (64 - shift) \<le> 2 ^ 7" by (rule power_increasing) simp
      with "1.prems"(1) x show False by simp
    qed
    have d: "unat (drop_bit 7 x) < 2 ^ (64 - (shift + 7))"
    proof -
      have "64 - shift = (64 - (shift + 7)) + 7" using \<open>shift \<le> 56\<close> by simp
      then have "(2::nat) ^ (64 - shift) = 2 ^ (64 - (shift + 7)) * 2 ^ 7"
        by (metis power_add)
      with "1.prems"(1) have "unat x < 2 ^ (64 - (shift + 7)) * 2 ^ 7" by simp
      then show ?thesis by (simp only: unat_drop_bit less_mult_imp_div_less)
    qed
    have r1: "reader_u8 r = Ok (ucast x OR 0x80, advance 1 r)"
      using "1.prems"(3) u by (intro reader_u8_Cons) auto
    have "reader_rest (advance 1 r) = uvarint (drop_bit 7 x) @ us"
      using "1.prems"(3) u by (simp add: reader_rest_advance)
    with "1.IH" [OF True d, of "advance 1 r" "v OR push_bit shift (take_bit 7 x)"] \<open>shift \<le> 56\<close>
    have ih: "uvarint_loop (v OR push_bit shift (take_bit 7 x)) (shift + 7) (advance 1 r)
      = Ok ((v OR push_bit shift (take_bit 7 x)) OR push_bit (shift + 7) (drop_bit 7 x),
            advance (length (uvarint (drop_bit 7 x))) (advance 1 r))"
      by simp
    have "push_bit shift x = push_bit shift (take_bit 7 x OR push_bit 7 (drop_bit 7 x))"
      by (simp only: word_split_low [symmetric])
    then have "(v OR push_bit shift (take_bit 7 x)) OR push_bit (shift + 7) (drop_bit 7 x)
        = v OR push_bit shift x"
      by (simp only: push_bit_or push_bit_push_bit or.assoc)
    with ih r1 \<open>shift \<le> 56\<close> u show ?thesis
      by (subst uvarint_loop.simps) (simp add: Let_def uvarint_byte_bits)
  qed
qed

lemma uvarint_loop_short:
  "uvarint x = reader_rest r @ zs \<Longrightarrow> zs \<noteq> [] \<Longrightarrow> is_corruption (uvarint_loop v shift r)"
proof (induction x arbitrary: v shift r rule: uvarint.induct)
  case (1 x)
  show ?case
  proof (cases "reader_rest r")
    case Nil
    then have "is_corruption (reader_u8 r)" by (rule reader_u8_Nil)
    then show ?thesis by (subst uvarint_loop.simps) auto
  next
    case (Cons b bs)
    show ?thesis
    proof (cases "0x80 \<le> x")
      case False
      then have "uvarint x = [ucast x]" by (subst uvarint.simps) simp
      with "1.prems" Cons show ?thesis by simp
    next
      case True
      then have u: "uvarint x = (ucast x OR 0x80) # uvarint (drop_bit 7 x)"
        by (subst uvarint.simps) simp
      with "1.prems" Cons have b: "b = ucast x OR 0x80" "uvarint (drop_bit 7 x) = bs @ zs" by auto
      have "reader_rest (advance 1 r) = bs" using Cons by (simp add: reader_rest_advance)
      then have "is_corruption (uvarint_loop v' s (advance 1 r))" for v' s
        using "1.IH" [OF True, of "advance 1 r"] b(2) "1.prems"(2) by simp
      then show ?thesis using reader_u8_Cons [OF Cons] b(1)
        by (subst uvarint_loop.simps) (simp add: Let_def uvarint_byte_bits)
    qed
  qed
qed

interpretation uvarintc: codec uvarint reader_uvarint "\<lambda>_. True"
proof
  fix x r us
  assume "reader_rest r = uvarint x @ us"
  moreover have "unat x < 2 ^ (64 - 0)" using unsigned_less [of x] by simp
  ultimately show "reader_uvarint r = Ok (x, advance (length (uvarint x)) r)"
    unfolding reader_uvarint_def by (subst uvarint_loop_uvarint) auto
next
  fix x r and zs :: bytes
  assume "uvarint x = reader_rest r @ zs" and "zs \<noteq> []"
  then show "is_corruption (reader_uvarint r)"
    unfolding reader_uvarint_def by (rule uvarint_loop_short)
qed

text \<open>A Rust slice never holds \<open>2 ^ 64\<close> bytes; a list of the model might.\<close>

definition slice_len_ok :: "'a list \<Rightarrow> bool" where
  "slice_len_ok xs \<longleftrightarrow> length xs < 2 ^ 64"

lemma unat_of_nat_slice [simp]: "slice_len_ok xs \<Longrightarrow> unat (of_nat (length xs) :: u64) = length xs"
  by (simp add: slice_len_ok_def unat_of_nat)

interpretation lenc: codec enc_len_prefixed reader_len_prefixed slice_len_ok
proof
  fix x us :: bytes and r
  assume "slice_len_ok x" and "reader_rest r = enc_len_prefixed x @ us"
  then show "reader_len_prefixed r = Ok (x, advance (length (enc_len_prefixed x)) r)"
    using uvarintc.dec_enc [of r "of_nat (length x)" "x @ us"]
    by (simp add: reader_len_prefixed_def enc_len_prefixed_def reader_remaining_rest
        reader_rest_advance reader_bytes_rest)
next
  fix x zs :: bytes and r
  let ?n = "of_nat (length x) :: u64"
  assume ok: "slice_len_ok x" and e: "enc_len_prefixed x = reader_rest r @ zs" and "zs \<noteq> []"
  show "is_corruption (reader_len_prefixed r)"
  proof (cases "length (reader_rest r) < length (uvarint ?n)")
    case True
    from e have "uvarint ?n @ x = reader_rest r @ zs" by (simp add: enc_len_prefixed_def)
    with True obtain us where "uvarint ?n = reader_rest r @ us" "us \<noteq> []"
      by (rule append_split_longer)
    then have "is_corruption (reader_uvarint r)" by (auto intro: uvarintc.dec_short)
    then show ?thesis by (auto simp: reader_len_prefixed_def)
  next
    case False
    from e have "uvarint ?n @ x = reader_rest r @ zs" by (simp add: enc_len_prefixed_def)
    with False obtain us where us: "reader_rest r = uvarint ?n @ us"
      by (rule append_split_prefix)
    with e \<open>zs \<noteq> []\<close> have "length us < length x" by (auto simp: enc_len_prefixed_def)
    with us ok uvarintc.dec_enc [of r ?n us] show ?thesis
      by (simp add: reader_len_prefixed_def reader_remaining_rest reader_rest_advance)
  qed
qed

section \<open>Readers make progress\<close>

lemma reader_bytes_remaining:
  "reader_bytes n r = Ok (bs, r') \<Longrightarrow> reader_remaining r = n + reader_remaining r'"
  by (auto simp: reader_bytes_def reader_remaining_def split: if_splits)

lemma reader_u8_remaining: "reader_u8 r = Ok (b, r') \<Longrightarrow> reader_remaining r = 1 + reader_remaining r'"
  by (auto simp: reader_u8_def rbind_Inr_conv dest: reader_bytes_remaining)

lemma uvarint_loop_remaining:
  "uvarint_loop v shift r = Ok (x, r') \<Longrightarrow> reader_remaining r' < reader_remaining r"
proof (induction v shift r rule: uvarint_loop.induct)
  case (1 v shift r)
  from "1.prems" obtain b r1 where r1: "reader_u8 r = Ok (b, r1)"
    by (subst (asm) uvarint_loop.simps) (auto simp: rbind_Inr_conv)
  then have "reader_remaining r = 1 + reader_remaining r1" by (rule reader_u8_remaining)
  moreover have "r' = r1 \<or> reader_remaining r' < reader_remaining r1"
    using 1 r1 by (subst (asm) (2) uvarint_loop.simps) (auto simp: Let_def split: if_splits)
  ultimately show ?case by auto
qed

lemma reader_len_prefixed_remaining:
  "reader_len_prefixed r = Ok (x, r') \<Longrightarrow> reader_remaining r' < reader_remaining r"
  by (auto simp: reader_len_prefixed_def rbind_Inr_conv reader_uvarint_def split: if_splits
      dest!: uvarint_loop_remaining reader_bytes_remaining)

section \<open>Composing codecs\<close>

text \<open>
  Decoders read their fields one after the other. A field whose decoder depends on what was
  read before it (a count, a format number, a tag) is the general case.
\<close>

lemma codec_bind:
  assumes c1: "codec enc1 dec1 ok1"
    and c2: "\<And>x. ok1 x \<Longrightarrow> codec (enc2 x) (dec2 x) (ok2 x)"
  shows "codec (\<lambda>(x, y). enc1 x @ enc2 x y)
    (\<lambda>r. rbind (dec1 r) (\<lambda>(x, r). rbind (dec2 x r) (\<lambda>(y, r). Ok ((x, y), r))))
    (\<lambda>(x, y). ok1 x \<and> ok2 x y)"
proof (unfold_locales, goal_cases)
  case (1 p r us)
  obtain x y where p: "p = (x, y)" by (cases p)
  let ?r = "advance (length (enc1 x)) r"
  have "dec1 r = Ok (x, ?r)"
    using 1 p by (intro codec.dec_enc [OF c1, where us = "enc2 x y @ us"]) auto
  moreover have "dec2 x ?r = Ok (y, advance (length (enc2 x y)) ?r)"
    using 1 p by (intro codec.dec_enc [OF c2, where us = us]) (auto simp: reader_rest_advance)
  ultimately show ?case using p by simp
next
  case (2 p r zs)
  obtain x y where p: "p = (x, y)" by (cases p)
  have e: "enc1 x @ enc2 x y = reader_rest r @ zs" using 2 p by simp
  show ?case
  proof (cases "length (reader_rest r) < length (enc1 x)")
    case True
    obtain us where "enc1 x = reader_rest r @ us" "us \<noteq> []"
      using append_split_longer [OF True e] .
    then have "is_corruption (dec1 r)" using 2 p by (auto intro: codec.dec_short [OF c1])
    then show ?thesis by auto
  next
    case False
    obtain us where us: "reader_rest r = enc1 x @ us"
      using append_split_prefix [OF False e] .
    let ?r = "advance (length (enc1 x)) r"
    have "dec1 r = Ok (x, ?r)" using 2 p us by (auto intro: codec.dec_enc [OF c1])
    moreover have "is_corruption (dec2 x ?r)"
      using 2 p us e by (intro codec.dec_short [OF c2, where zs = zs]) (auto simp: reader_rest_advance)
    ultimately show ?thesis by auto
  qed
qed

lemma codec_iso:
  assumes c: "codec enc dec ok"
    and ok: "\<And>y. ok' y \<Longrightarrow> ok (f y) \<and> g (f y) = Ok y"
  shows "codec (\<lambda>y. enc (f y)) (\<lambda>r. rbind (dec r) (\<lambda>(x, r). rbind (g x) (\<lambda>y. Ok (y, r)))) ok'"
proof (unfold_locales, goal_cases)
  case (1 y r us)
  then show ?case using codec.dec_enc [OF c, of "f y" r us] ok [of y] by simp
next
  case (2 y r zs)
  then have "is_corruption (dec r)" using ok by (intro codec.dec_short [OF c]) auto
  then show ?case by auto
qed

lemma codec_read_n:
  assumes c: "codec enc dec ok"
  shows "codec (\<lambda>xs. concat (map enc xs)) (read_n dec n) (\<lambda>xs. list_all ok xs \<and> length xs = n)"
proof (unfold_locales, goal_cases)
  case (1 xs r us)
  then show ?case using codec.read_n_enc [OF c, of xs r us] by simp
next
  case (2 xs r zs)
  then show ?case using codec.read_n_short [OF c, of xs r zs] by simp
qed

lemma codec_Nil: "codec (\<lambda>_. []) (\<lambda>r. Ok (x, r)) (\<lambda>y. y = x)"
  by unfold_locales auto

lemma codec_ext:
  assumes "codec enc dec ok" and "\<And>x. ok' x \<Longrightarrow> ok x \<and> enc' x = enc x" and "\<And>r. dec' r = dec r"
  shows "codec enc' dec' ok'"
proof (unfold_locales, goal_cases)
  case (1 x r us)
  then show ?case using assms codec.dec_enc [OF assms(1), of x r us] by simp
next
  case (2 x r zs)
  then show ?case using assms codec.dec_short [OF assms(1), of x r zs] by simp
qed

text \<open>A list behind its length, as a varint or as a \<open>u32\<close>.\<close>

definition enc_vec :: "('a \<Rightarrow> bytes) \<Rightarrow> 'a list \<Rightarrow> bytes" where
  "enc_vec enc xs = uvarint (of_nat (length xs)) @ concat (map enc xs)"

definition read_vec :: "(reader \<Rightarrow> ('a \<times> reader) res) \<Rightarrow> reader \<Rightarrow> ('a list \<times> reader) res" where
  "read_vec dec r = rbind (reader_uvarint r) (\<lambda>(n, r). read_n dec (unat n) r)"

lemma codec_counted:
  assumes cn: "codec encn decn (\<lambda>_. True)" and c: "codec enc dec ok"
    and n: "\<And>xs. okn xs \<Longrightarrow> val (cnt (length xs)) = length (xs :: 'a list)"
  shows "codec (\<lambda>xs. encn (cnt (length xs)) @ concat (map enc xs))
    (\<lambda>r. rbind (decn r) (\<lambda>(n, r). read_n dec (val n) r)) (\<lambda>xs. list_all ok xs \<and> okn xs)"
proof -
  have b: "codec (\<lambda>(k, xs). encn k @ concat (map enc xs))
    (\<lambda>r. rbind (decn r) (\<lambda>(k, r). rbind (read_n dec (val k) r) (\<lambda>(xs, r). Ok ((k, xs), r))))
    (\<lambda>(k, xs). True \<and> list_all ok xs \<and> length xs = val k)"
    by (rule codec_bind [OF cn codec_read_n [OF c]])
  have i: "codec (\<lambda>xs. (\<lambda>(k, xs). encn k @ concat (map enc xs)) (cnt (length xs), xs))
    (\<lambda>r. rbind (rbind (decn r) (\<lambda>(k, r). rbind (read_n dec (val k) r) (\<lambda>(xs, r). Ok ((k, xs), r))))
       (\<lambda>(p, r). rbind (Ok (snd p)) (\<lambda>y. Ok (y, r)))) (\<lambda>xs. list_all ok xs \<and> okn xs)"
    by (rule codec_iso [OF b, where f = "\<lambda>xs. (cnt (length xs), xs)"]) (simp add: n)
  show ?thesis
    by (rule codec_ext [OF i]) (auto simp: rbind_assoc split_def)
qed

lemma codec_vec:
  assumes "codec enc dec ok"
  shows "codec (enc_vec enc) (read_vec dec) (\<lambda>xs. list_all ok xs \<and> slice_len_ok xs)"
  unfolding enc_vec_def [abs_def] read_vec_def [abs_def]
  by (rule codec_counted [OF uvarintc.codec_axioms assms]) simp

section \<open>Properties\<close>

text \<open>
  every 64-bit value survives the LEB128 encoding, wherever the cursor stands and
  whatever follows it; the encoding takes one to ten bytes, and the decoder stops exactly
  at its end.
\<close>

theorem uvarint_roundtrip:
  "reader_uvarint \<lparr>rbuf = put_uvarint dst v @ us, rpos = length dst\<rparr>
     = Ok (v, \<lparr>rbuf = put_uvarint dst v @ us, rpos = length (put_uvarint dst v)\<rparr>)
   \<and> length dst < length (put_uvarint dst v) \<and> length (put_uvarint dst v) \<le> length dst + 10"
proof -
  let ?r = "\<lparr>rbuf = put_uvarint dst v @ us, rpos = length dst\<rparr>"
  have "reader_rest ?r = uvarint v @ us" by (simp add: reader_rest_def codec_simps)
  then have "reader_uvarint ?r = Ok (v, advance (length (uvarint v)) ?r)" by (auto intro: uvarintc.dec_enc)
  then show ?thesis using length_uvarint_le_10 [of v] by (simp add: advance_def codec_simps)
qed

text \<open>
  a buffer that ends inside an encoded length-prefixed field is reported as corruption,
  never as a shorter value and never as a panic.
\<close>

theorem len_prefixed_truncated_is_corruption:
  assumes "slice_len_ok bs" and "n < length (put_len_prefixed [] bs)"
  shows "is_corruption (reader_len_prefixed (reader_new (take n (put_len_prefixed [] bs))))"
proof (rule lenc.dec_short [OF assms(1)])
  show "enc_len_prefixed bs =
      reader_rest (reader_new (take n (put_len_prefixed [] bs))) @ drop n (put_len_prefixed [] bs)"
    by (simp add: codec_simps)
  show "drop n (put_len_prefixed [] bs) \<noteq> []" using assms(2) by simp
qed

theorem len_prefixed_truncated_is_corruption_witness:
  "is_corruption (reader_len_prefixed (reader_new (take 3 (put_len_prefixed [] [104, 101, 108]))))"
  by (rule len_prefixed_truncated_is_corruption)
    (simp_all add: slice_len_ok_def codec_simps enc_len_prefixed_def)

end
