(* ===== verification/Types.thy ===== *)
theory Types
  imports Coding
begin

text \<open>
  \<open>crates/fluent31/src/types.rs\<close>: internal keys (user key plus an 8-byte big-endian
  trailer), their comparator, the representation of values, and the reserved keyspace.
  The comparator on encoded keys is shown to be the order \<open>vkey\<close>: user key ascending,
  seqno descending, kind descending. Then the read primitive of the whole engine: seeking
  \<open>(k, s)\<close> in a sorted run lands on the newest version of \<open>k\<close> with seqno at most \<open>s\<close>.
\<close>

section \<open>Value kinds\<close>

datatype value_kind = Delete | Put

fun kind_u8 :: "value_kind \<Rightarrow> u8" where
  "kind_u8 Delete = 0"
| "kind_u8 Put = 1"

definition value_kind_from_u8 :: "u8 \<Rightarrow> value_kind res" where
  "value_kind_from_u8 b =
     (if b = 0 then Ok Delete else if b = 1 then Ok Put
      else Err (corrupt ''bad value kind {other}''))"

lemma value_kind_from_u8_kind [simp]: "value_kind_from_u8 (kind_u8 k) = Ok k"
  by (cases k) (auto simp: value_kind_from_u8_def)

text \<open>The order of the discriminants, as the derived trailer order sees it.\<close>

instantiation value_kind :: linorder
begin

definition less_eq_value_kind :: "value_kind \<Rightarrow> value_kind \<Rightarrow> bool" where
  "less_eq_value_kind a b \<longleftrightarrow> a = Delete \<or> b = Put"

definition less_value_kind :: "value_kind \<Rightarrow> value_kind \<Rightarrow> bool" where
  "less_value_kind a b \<longleftrightarrow> a = Delete \<and> b = Put"

instance
proof
  fix a b c :: value_kind
  show "(a < b) = (a \<le> b \<and> \<not> b \<le> a)"
    by (cases a; cases b) (auto simp: less_eq_value_kind_def less_value_kind_def)
  show "a \<le> a" by (cases a) (auto simp: less_eq_value_kind_def)
  show "a \<le> b \<Longrightarrow> b \<le> c \<Longrightarrow> a \<le> c" by (auto simp: less_eq_value_kind_def)
  show "a \<le> b \<Longrightarrow> b \<le> a \<Longrightarrow> a = b" by (auto simp: less_eq_value_kind_def)
  show "a \<le> b \<or> b \<le> a" by (cases a; cases b) (auto simp: less_eq_value_kind_def)
qed

end

lemma kind_u8_mono: "kind_u8 a \<le> kind_u8 b \<longleftrightarrow> a \<le> b"
  by (cases a; cases b) (auto simp: less_eq_value_kind_def)

section \<open>Internal keys\<close>

definition max_seqno :: seqno where "max_seqno = push_bit 56 1 - 1"

definition trailer_len :: nat where "trailer_len = 8"

definition seek_kind :: u8 where "seek_kind = 0xff"

definition pack_trailer :: "seqno \<Rightarrow> u8 \<Rightarrow> u64" where
  "pack_trailer seq kind = push_bit 8 seq OR ucast kind"

definition make_ikey :: "bytes \<Rightarrow> seqno \<Rightarrow> value_kind \<Rightarrow> bytes" where
  "make_ikey user_key seq kind = user_key @ be_bytes 8 (pack_trailer seq (kind_u8 kind))"

definition make_seek_ikey :: "bytes \<Rightarrow> seqno \<Rightarrow> bytes" where
  "make_seek_ikey user_key seq = user_key @ be_bytes 8 (pack_trailer seq seek_kind)"

definition ikey_ukey :: "bytes \<Rightarrow> bytes" where
  "ikey_ukey ikey = take (length ikey - trailer_len) ikey"

definition ikey_trailer :: "bytes \<Rightarrow> u64" where
  "ikey_trailer ikey = from_be_bytes (drop (length ikey - trailer_len) ikey)"

definition ikey_seqno :: "bytes \<Rightarrow> seqno" where
  "ikey_seqno ikey = drop_bit 8 (ikey_trailer ikey)"

definition ikey_kind :: "bytes \<Rightarrow> value_kind res" where
  "ikey_kind ikey = value_kind_from_u8 (ucast (ikey_trailer ikey AND 0xff))"

definition cmp_ikey :: "bytes \<Rightarrow> bytes \<Rightarrow> ordering" where
  "cmp_ikey a b =
     then_with (cmp_of (ikey_ukey a) (ikey_ukey b)) (cmp_of (ikey_trailer b) (ikey_trailer a))"

text \<open>
  The slices of \<open>ikey_ukey\<close> and \<open>ikey_trailer\<close> are in range exactly on keys that carry a
  trailer; readers of files check this before they let a key in.
\<close>

definition ikey_wf :: "bytes \<Rightarrow> bool" where
  "ikey_wf ikey \<longleftrightarrow> trailer_len \<le> length ikey"

definition ikey_tag :: "bytes \<Rightarrow> u8" where
  "ikey_tag ikey = ucast (ikey_trailer ikey AND 0xff)"

lemma max_seqno_val: "max_seqno = 0xFFFFFFFFFFFFFF"
  by (simp add: max_seqno_def)

lemma seqno_bound: "seq \<le> max_seqno \<Longrightarrow> unat seq < 2 ^ 56"
  by (simp add: max_seqno_val word_le_nat_alt)

lemma low_byte_mask: "(w :: u64) AND 0xff = take_bit 8 w"
proof -
  have "(0xff :: u64) = mask 8" by (simp add: mask_eq_exp_minus_1)
  then show ?thesis by (simp only: take_bit_eq_mask)
qed

lemma unpack_trailer:
  assumes "seq \<le> max_seqno"
  shows "drop_bit 8 (pack_trailer seq kind) = seq"
    and "ucast (pack_trailer seq kind AND 0xff) = kind"
proof -
  have u: "take_bit 56 seq = seq"
    using seqno_bound [OF assms] by (simp add: word_unat_eq_iff unsigned_take_bit_eq take_bit_nat_eq_self)
  have "drop_bit 8 (pack_trailer seq kind) = take_bit 56 seq"
    unfolding pack_trailer_def
    by (rule bit_word_eqI) (auto simp: bit_simps dest: bit_imp_le_length)
  with u show "drop_bit 8 (pack_trailer seq kind) = seq" by simp
  show "ucast (pack_trailer seq kind AND 0xff) = kind"
    unfolding pack_trailer_def low_byte_mask
    by (rule bit_word_eqI) (auto simp: bit_simps)
qed

lemma trailer_append [key_simps]: "length t = 8 \<Longrightarrow> ikey_ukey (u @ t) = u"
  "length t = 8 \<Longrightarrow> ikey_trailer (u @ t) = from_be_bytes t"
  "length t = 8 \<Longrightarrow> ikey_wf (u @ t)"
  by (simp_all add: ikey_ukey_def ikey_trailer_def ikey_wf_def trailer_len_def)

lemma make_ikey_ukey [key_simps]:
  "ikey_ukey (make_ikey u s k) = u" "ikey_ukey (make_seek_ikey u s) = u"
  by (simp_all add: make_ikey_def make_seek_ikey_def key_simps)

lemma make_ikey_wf [key_simps]: "ikey_wf (make_ikey u s k)" "ikey_wf (make_seek_ikey u s)"
  by (simp_all add: make_ikey_def make_seek_ikey_def key_simps)

lemma make_ikey_seqno [key_simps]:
  "s \<le> max_seqno \<Longrightarrow> ikey_seqno (make_ikey u s k) = s"
  "s \<le> max_seqno \<Longrightarrow> ikey_seqno (make_seek_ikey u s) = s"
  by (simp_all add: make_ikey_def make_seek_ikey_def key_simps ikey_seqno_def unpack_trailer)

lemma make_ikey_kind [key_simps]: "s \<le> max_seqno \<Longrightarrow> ikey_kind (make_ikey u s k) = Ok k"
  by (simp add: make_ikey_def key_simps ikey_kind_def unpack_trailer)

lemma make_ikey_tag [key_simps]:
  "s \<le> max_seqno \<Longrightarrow> ikey_tag (make_ikey u s k) = kind_u8 k"
  "s \<le> max_seqno \<Longrightarrow> ikey_tag (make_seek_ikey u s) = seek_kind"
  by (simp_all add: make_ikey_def make_seek_ikey_def key_simps ikey_tag_def unpack_trailer)

lemma ikey_kind_tag: "ikey_kind ik = value_kind_from_u8 (ikey_tag ik)"
  by (simp add: ikey_kind_def ikey_tag_def)

section \<open>The order of internal keys\<close>

text \<open>
  The order the comments promise: user key ascending, then seqno descending, then kind
  descending. It is a linear order, so the library's facts about \<open>(<)\<close> apply to it.
\<close>

datatype vkey = VKey (vk_ukey: bytes) (vk_seq: seqno) (vk_tag: u8)

instantiation vkey :: linorder
begin

definition less_vkey :: "vkey \<Rightarrow> vkey \<Rightarrow> bool" where
  "less_vkey a b \<longleftrightarrow> vk_ukey a < vk_ukey b \<or>
     vk_ukey a = vk_ukey b \<and> (vk_seq b < vk_seq a \<or> vk_seq a = vk_seq b \<and> vk_tag b < vk_tag a)"

definition less_eq_vkey :: "vkey \<Rightarrow> vkey \<Rightarrow> bool" where
  "less_eq_vkey a b \<longleftrightarrow> a < b \<or> a = (b :: vkey)"

instance
proof
  fix a b c :: vkey
  show "(a < b) = (a \<le> b \<and> \<not> b \<le> a)"
    by (cases a; cases b) (auto simp: less_eq_vkey_def less_vkey_def)
  show "a \<le> a" by (simp add: less_eq_vkey_def)
  show "a \<le> b \<Longrightarrow> b \<le> c \<Longrightarrow> a \<le> c"
    by (cases a; cases b; cases c) (auto simp: less_eq_vkey_def less_vkey_def)
  show "a \<le> b \<Longrightarrow> b \<le> a \<Longrightarrow> a = b"
    by (cases a; cases b) (auto simp: less_eq_vkey_def less_vkey_def)
  show "a \<le> b \<or> b \<le> a"
    by (cases a; cases b) (auto simp: less_eq_vkey_def less_vkey_def)
qed

end

definition vkey_of :: "bytes \<Rightarrow> vkey" where
  "vkey_of ik = VKey (ikey_ukey ik) (ikey_seqno ik) (ikey_tag ik)"

lemma vkey_of_sel [simp]:
  "vk_ukey (vkey_of ik) = ikey_ukey ik" "vk_seq (vkey_of ik) = ikey_seqno ik"
  "vk_tag (vkey_of ik) = ikey_tag ik"
  by (simp_all add: vkey_of_def)

lemma trailer_split: "unat t = unat (drop_bit 8 (t :: u64)) * 256 + unat (ucast (t AND 0xff) :: u8)"
proof -
  have "unat (ucast (t AND 0xff) :: u8) = unat t mod 256"
    unfolding low_byte_mask
    by (simp only: unsigned_ucast_eq unsigned_take_bit_eq) (simp add: take_bit_eq_mod)
  then show ?thesis by (simp only: unat_drop_bit) simp
qed

lemma trailer_less_iff:
  "(s :: u64) < t \<longleftrightarrow> drop_bit 8 s < drop_bit 8 t \<or>
     drop_bit 8 s = drop_bit 8 t \<and> (ucast (s AND 0xff) :: u8) < ucast (t AND 0xff)"
proof -
  define a b c d where "a = unat (drop_bit 8 s)" and "b = unat (ucast (s AND 0xff) :: u8)"
    and "c = unat (drop_bit 8 t)" and "d = unat (ucast (t AND 0xff) :: u8)"
  have "b < 256" "d < 256" unfolding b_def d_def
    using unsigned_less [of "ucast (s AND 0xff) :: u8"] unsigned_less [of "ucast (t AND 0xff) :: u8"]
    by simp_all
  then have "a * 256 + b < c * 256 + d \<longleftrightarrow> a < c \<or> a = c \<and> b < d" by arith
  then show ?thesis
    unfolding word_less_nat_alt trailer_split [of s] trailer_split [of t] word_unat_eq_iff [of "drop_bit 8 s"]
    by (simp only: a_def b_def c_def d_def)
qed

lemma trailer_eq_iff:
  "(s :: u64) = t \<longleftrightarrow> drop_bit 8 s = drop_bit 8 t \<and> (ucast (s AND 0xff) :: u8) = ucast (t AND 0xff)"
  by (metis trailer_split word_unat_eq_iff)

lemma cmp_ikey_vkey: "cmp_ikey a b = cmp_of (vkey_of a) (vkey_of b)"
proof -
  have "ikey_trailer b < ikey_trailer a \<longleftrightarrow>
      ikey_seqno b < ikey_seqno a \<or> ikey_seqno b = ikey_seqno a \<and> ikey_tag b < ikey_tag a"
    unfolding ikey_seqno_def ikey_tag_def by (rule trailer_less_iff)
  moreover have "ikey_trailer b = ikey_trailer a \<longleftrightarrow>
      ikey_seqno b = ikey_seqno a \<and> ikey_tag b = ikey_tag a"
    unfolding ikey_seqno_def ikey_tag_def by (rule trailer_eq_iff)
  ultimately show ?thesis
    by (auto simp: cmp_ikey_def then_with_def cmp_of_def less_vkey_def vkey_of_def)
qed

lemma cmp_ikey_simps [simp]:
  "cmp_ikey a b = Less \<longleftrightarrow> vkey_of a < vkey_of b"
  "cmp_ikey a b = Equal \<longleftrightarrow> vkey_of a = vkey_of b"
  "cmp_ikey a b = Greater \<longleftrightarrow> vkey_of b < vkey_of a"
  by (simp_all add: cmp_ikey_vkey)

lemma vkey_of_inj: "ikey_wf a \<Longrightarrow> ikey_wf b \<Longrightarrow> vkey_of a = vkey_of b \<longleftrightarrow> a = b"
proof
  assume wf: "ikey_wf a" "ikey_wf b" and eq: "vkey_of a = vkey_of b"
  from eq have u: "ikey_ukey a = ikey_ukey b" and t: "ikey_trailer a = ikey_trailer b"
    by (auto simp: vkey_of_def ikey_seqno_def ikey_tag_def trailer_eq_iff [of "ikey_trailer a"])
  from t wf have "drop (length a - 8) a = drop (length b - 8) b"
    unfolding ikey_trailer_def trailer_len_def ikey_wf_def
    by (intro from_be_bytes_u64_inj) auto
  with u show "a = b" unfolding ikey_ukey_def trailer_len_def by (metis append_take_drop_id)
qed simp

section \<open>Runs of entries and the read primitive\<close>

text \<open>An entry is an internal key with the representation of its value.\<close>

type_synonym entry = "bytes \<times> bytes"

definition entries_sorted :: "entry list \<Rightarrow> bool" where
  "entries_sorted es \<longleftrightarrow> sorted_wrt (\<lambda>a b. cmp_ikey (fst a) (fst b) = Less) es"

text \<open>
  The specification of a read: the first entry of the run that is a version of \<open>k\<close> no
  newer than \<open>s\<close>. In a sorted run it is the newest such version.
\<close>

definition is_version :: "bytes \<Rightarrow> seqno \<Rightarrow> entry \<Rightarrow> bool" where
  "is_version k s e \<longleftrightarrow> ikey_ukey (fst e) = k \<and> ikey_seqno (fst e) \<le> s"

definition lookup_at :: "entry list \<Rightarrow> bytes \<Rightarrow> seqno \<Rightarrow> entry option" where
  "lookup_at es k s = find (is_version k s) es"

text \<open>The code's way: the first entry at or after the seek key, kept if it is of that key.\<close>

definition seek_first :: "entry list \<Rightarrow> bytes \<Rightarrow> entry option" where
  "seek_first es target =
     (case dropWhile (\<lambda>e. cmp_ikey (fst e) target = Less) es of [] \<Rightarrow> None | e # _ \<Rightarrow> Some e)"

definition seek_get :: "entry list \<Rightarrow> bytes \<Rightarrow> seqno \<Rightarrow> entry option" where
  "seek_get es k s =
     (case seek_first es (make_seek_ikey k s) of
        None \<Rightarrow> None
      | Some e \<Rightarrow> if ikey_ukey (fst e) \<noteq> k then None else Some e)"

lemma tag_le_seek_kind: "(t :: u8) \<le> seek_kind"
  using unat_u8_less [of t] by (simp add: seek_kind_def word_le_nat_alt)

lemma before_seek_iff:
  assumes "s \<le> max_seqno"
  shows "vkey_of ik < vkey_of (make_seek_ikey k s) \<longleftrightarrow>
    ikey_ukey ik < k \<or> ikey_ukey ik = k \<and> s < ikey_seqno ik"
  using assms tag_le_seek_kind [of "ikey_tag ik"]
  by (auto simp: less_vkey_def key_simps)

lemma entries_sorted_simps [simp]:
  "entries_sorted []"
  "entries_sorted (e # es) \<longleftrightarrow>
     (\<forall>x \<in> set es. vkey_of (fst e) < vkey_of (fst x)) \<and> entries_sorted es"
  by (simp_all add: entries_sorted_def)

lemma entries_sorted_append:
  "entries_sorted (xs @ ys) \<longleftrightarrow> entries_sorted xs \<and> entries_sorted ys \<and>
     (\<forall>x \<in> set xs. \<forall>y \<in> set ys. vkey_of (fst x) < vkey_of (fst y))"
  by (auto simp: entries_sorted_def sorted_wrt_append)

lemma entries_sorted_sublist: "entries_sorted xs \<Longrightarrow> entries_sorted (filter p xs)"
  by (induction xs) auto

lemma lookup_at_None_iff: "lookup_at es k s = None \<longleftrightarrow> (\<forall>e \<in> set es. \<not> is_version k s e)"
  by (auto simp: lookup_at_def find_None_iff)

lemma lookup_at_append:
  "lookup_at (xs @ ys) k s = (case lookup_at xs k s of None \<Rightarrow> lookup_at ys k s | Some e \<Rightarrow> Some e)"
  unfolding lookup_at_def by (induction xs) auto

lemma lookup_at_Cons:
  "lookup_at (e # es) k s = (if is_version k s e then Some e else lookup_at es k s)"
  by (simp add: lookup_at_def)

lemma lookup_at_Nil [simp]: "lookup_at [] k s = None"
  by (simp add: lookup_at_def)

lemma lookup_at_SomeD:
  "lookup_at es k s = Some e \<Longrightarrow> e \<in> set es \<and> is_version k s e"
  by (auto simp: lookup_at_def find_Some_iff)

lemma lookup_at_newest:
  assumes "entries_sorted es"
  shows "lookup_at es k s = Some e \<longleftrightarrow>
    e \<in> set es \<and> is_version k s e \<and> (\<forall>x \<in> set es. is_version k s x \<longrightarrow> vkey_of (fst e) \<le> vkey_of (fst x))"
  using assms
proof (induction es)
  case (Cons x es)
  then show ?case by (auto simp: lookup_at_Cons not_less [symmetric])
qed simp

lemma seek_get_lookup_at:
  assumes "entries_sorted es" and "s \<le> max_seqno"
  shows "seek_get es k s = lookup_at es k s"
  using assms(1)
proof (induction es)
  case Nil
  show ?case by (simp add: seek_get_def seek_first_def)
next
  case (Cons e es)
  show ?case
  proof (cases "vkey_of (fst e) < vkey_of (make_seek_ikey k s)")
    case True
    then have "\<not> is_version k s e"
      by (auto simp: before_seek_iff [OF assms(2)] is_version_def)
    then show ?thesis
      using True Cons by (simp add: seek_get_def seek_first_def lookup_at_Cons)
  next
    case False
    then have ge: "k < ikey_ukey (fst e) \<or> ikey_ukey (fst e) = k \<and> ikey_seqno (fst e) \<le> s"
      using before_seek_iff [OF assms(2), of "fst e" k] by auto
    have "\<not> is_version k s x" if "k < ikey_ukey (fst e)" "x \<in> set es" for x
      using that Cons.prems by (fastforce simp: is_version_def less_vkey_def)
    then have "k < ikey_ukey (fst e) \<Longrightarrow> lookup_at es k s = None"
      by (simp add: lookup_at_None_iff)
    with False ge show ?thesis
      by (auto simp: seek_get_def seek_first_def lookup_at_Cons is_version_def)
  qed
qed

text \<open>What a hit of \<open>get\<close> carries: kind, seqno and representation.\<close>

definition hit_of :: "entry \<Rightarrow> (value_kind \<times> seqno \<times> bytes) res" where
  "hit_of e = rbind (ikey_kind (fst e)) (\<lambda>kind. Ok (kind, ikey_seqno (fst e), snd e))"

section \<open>Value representation\<close>

record value_ptr =
  vp_file :: u64
  vp_offset :: u64
  vp_len :: u32

datatype repr_ref = Inline bytes | Ptr value_ptr

definition repr_inline :: u8 where "repr_inline = 0"
definition repr_ptr :: u8 where "repr_ptr = 1"

definition encode_inline :: "bytes \<Rightarrow> bytes" where
  "encode_inline value = repr_inline # value"

definition encode_ptr :: "value_ptr \<Rightarrow> bytes" where
  "encode_ptr ptr =
     put_uvarint (put_uvarint (put_uvarint [repr_ptr] (vp_file ptr)) (vp_offset ptr)) (ucast (vp_len ptr))"

definition decode_repr :: "bytes \<Rightarrow> repr_ref res" where
  "decode_repr repr =
     rbind (reader_u8 (reader_new repr)) (\<lambda>(tag, r).
       if tag = repr_inline then Ok (Inline (drop 1 repr))
       else if tag = repr_ptr then
         rbind (reader_uvarint r) (\<lambda>(file, r).
         rbind (reader_uvarint r) (\<lambda>(offset, r).
         rbind (reader_uvarint r) (\<lambda>(len, r).
           if 0xFFFFFFFF < len then Err (corrupt ''vlog pointer length overflow'')
           else Ok (Ptr \<lparr>vp_file = file, vp_offset = offset, vp_len = ucast len\<rparr>))))
       else Err (corrupt ''bad value repr tag {other}''))"

lemma decode_encode_inline: "decode_repr (encode_inline v) = Ok (Inline v)"
  using reader_u8_Cons [of "reader_new (encode_inline v)" repr_inline v]
  by (simp add: decode_repr_def encode_inline_def)

lemma decode_encode_ptr: "decode_repr (encode_ptr p) = Ok (Ptr p)"
proof -
  let ?l = "ucast (vp_len p) :: u64"
  let ?r = "reader_new (encode_ptr p)"
  have e: "encode_ptr p = repr_ptr # uvarint (vp_file p) @ uvarint (vp_offset p) @ uvarint ?l"
    by (simp add: encode_ptr_def codec_simps)
  obtain r1 where r1: "reader_u8 ?r = Ok (repr_ptr, r1)"
    "reader_rest r1 = uvarint (vp_file p) @ uvarint (vp_offset p) @ uvarint ?l @ []"
    using reader_u8_Cons [of ?r] e by (auto simp: reader_rest_advance)
  obtain r2 where r2: "reader_uvarint r1 = Ok (vp_file p, r2)"
    "reader_rest r2 = uvarint (vp_offset p) @ uvarint ?l @ []"
    using uvarintc.dec_enc_rest [OF _ r1(2)] by auto
  obtain r3 where r3: "reader_uvarint r2 = Ok (vp_offset p, r3)" "reader_rest r3 = uvarint ?l @ []"
    using uvarintc.dec_enc_rest [OF _ r2(2)] by auto
  obtain r4 where r4: "reader_uvarint r3 = Ok (?l, r4)"
    using uvarintc.dec_enc_rest [OF _ r3(2)] by auto
  show ?thesis using r1(1) r2(1) r3(1) r4 ucast_u32_u64_le [of "vp_len p"]
    by (simp add: decode_repr_def repr_ptr_def repr_inline_def not_less [symmetric])
qed

section \<open>Reserved keyspace\<close>

definition ascii :: "string \<Rightarrow> bytes" where
  "ascii s = map of_char s"

definition sys_prefix :: u8 where "sys_prefix = 0"

definition user_keyspace_start :: bytes where "user_keyspace_start = [1]"

definition validate_user_key :: "bytes \<Rightarrow> unit res" where
  "validate_user_key key =
     (if key = [] then Err (InvalidArgument ''empty keys are not allowed'')
      else if key ! 0 = sys_prefix
      then Err (InvalidArgument ''keys starting with 0x00 are reserved for the engine'')
      else Ok ())"

definition sys_wasm_key :: "bytes \<Rightarrow> bytes" where
  "sys_wasm_key name = [sys_prefix] @ ascii ''wasm'' @ [0] @ name"

definition sys_trigger_key :: "bytes \<Rightarrow> bytes" where
  "sys_trigger_key name = [sys_prefix] @ ascii ''trg'' @ [0] @ name"

definition sys_trigger_event_key :: "bytes \<Rightarrow> bytes \<Rightarrow> bytes" where
  "sys_trigger_event_key name user_key = [sys_prefix] @ ascii ''trgq'' @ [0] @ name @ [0] @ user_key"

definition sys_trigger_change_key :: "bytes \<Rightarrow> seqno \<Rightarrow> bytes" where
  "sys_trigger_change_key name seq = [sys_prefix] @ ascii ''trgq'' @ [0] @ name @ [0] @ be_bytes 8 seq"

lemma validate_user_key_Ok_iff:
  "validate_user_key key = Ok () \<longleftrightarrow> user_keyspace_start \<le> key"
proof (cases key)
  case Nil
  then show ?thesis by (simp add: validate_user_key_def user_keyspace_start_def)
next
  case (Cons b bs)
  have "b \<noteq> 0 \<longleftrightarrow> 1 \<le> b" by (simp add: word_le_nat_alt unat_gt_0 Suc_le_eq)
  then show ?thesis
    using Cons by (auto simp: validate_user_key_def user_keyspace_start_def sys_prefix_def)
qed

section \<open>Properties\<close>

text \<open>
  C24: the comparator of internal keys is the documented order: user key ascending, then
  seqno descending, then kind descending; two keys compare equal only if they are the same.
\<close>

theorem cmp_ikey_orders_versions:
  assumes "s \<le> max_seqno" and "s' \<le> max_seqno"
  shows "cmp_ikey (make_ikey u s k) (make_ikey u' s' k') =
    (if u < u' then Less else if u' < u then Greater
     else if s' < s then Less else if s < s' then Greater
     else if k' < k then Less else if k < k' then Greater else Equal)"
proof -
  have k: "kind_u8 k < kind_u8 k' \<longleftrightarrow> k < k'" "kind_u8 k = kind_u8 k' \<longleftrightarrow> k = k'"
    for k k' by (cases k; cases k'; simp add: less_value_kind_def)+
  have e: "cmp_ikey (make_ikey u s k) (make_ikey u' s' k')
      = cmp_of (VKey u s (kind_u8 k)) (VKey u' s' (kind_u8 k'))"
    using assms by (simp add: cmp_ikey_vkey vkey_of_def key_simps)
  show ?thesis
    unfolding e cmp_of_def less_vkey_def vkey.sel vkey.inject k
    by (cases u u' rule: linorder_cases; cases s s' rule: linorder_cases;
        cases k k' rule: linorder_cases) auto
qed

theorem cmp_ikey_orders_versions_witness:
  "cmp_ikey (make_ikey [97] 9 Put) (make_ikey [97] 5 Delete) = Less"
  using cmp_ikey_orders_versions [of 9 5 "[97]" Put "[97]" Delete]
  by (simp add: max_seqno_val)

text \<open>
  C23: seeking \<open>(k, s)\<close> in a sorted run and keeping the entry only if it is of \<open>k\<close> yields
  exactly the newest version of \<open>k\<close> with seqno at most \<open>s\<close>, and nothing if there is none.
\<close>

theorem seek_lands_on_newest:
  assumes "entries_sorted es" and "s \<le> max_seqno"
  shows "(seek_get es k s = None \<longleftrightarrow> (\<forall>e \<in> set es. \<not> is_version k s e))
    \<and> (\<forall>e. seek_get es k s = Some e \<longleftrightarrow>
         e \<in> set es \<and> is_version k s e \<and>
         (\<forall>x \<in> set es. is_version k s x \<longrightarrow> vkey_of (fst e) \<le> vkey_of (fst x)))"
  using lookup_at_newest [OF assms(1)] by (simp add: seek_get_lookup_at [OF assms] lookup_at_None_iff)

theorem seek_lands_on_newest_witness:
  "seek_get [(make_ikey [107] 9 Put, [1]), (make_ikey [107] 5 Delete, []), (make_ikey [107] 3 Put, [2])] [107] 7
     = Some (make_ikey [107] 5 Delete, [])"
proof -
  let ?es = "[(make_ikey [107] 9 Put, [1]), (make_ikey [107] 5 Delete, []), (make_ikey [107] 3 Put, [2 :: u8])]"
  have "entries_sorted ?es" and "(7 :: seqno) \<le> max_seqno"
    by (simp_all add: less_vkey_def key_simps max_seqno_val)
  from seek_lands_on_newest [OF this, of "[107]"] show ?thesis
    by (simp add: is_version_def key_simps max_seqno_val less_eq_vkey_def less_vkey_def)
qed

text \<open>
  an encoded value representation, inline or pointer, decodes to what was encoded.
\<close>

theorem repr_roundtrip:
  "decode_repr (encode_inline v) = Ok (Inline v) \<and> decode_repr (encode_ptr p) = Ok (Ptr p)"
  by (simp add: decode_encode_inline decode_encode_ptr)

end
