(* ===== verification/Batch.thy ===== *)
theory Batch
  imports Types
begin

text \<open>
  \<open>crates/fluent31/src/batch.rs\<close>: write batches and the payload of a WAL record,
  \<open>[base_seqno u64][count u32]\<close> and per entry \<open>[kind u8][key][repr]\<close>.
\<close>

datatype batch_op = OpPut (op_put_key: bytes) (op_put_value: bytes) | OpDelete (op_del_key: bytes)

record write_batch =
  wb_ops :: "batch_op list"
  wb_bytes :: nat

definition batch_new :: write_batch where
  "batch_new = \<lparr>wb_ops = [], wb_bytes = 0\<rparr>"

definition batch_put :: "bytes \<Rightarrow> bytes \<Rightarrow> write_batch \<Rightarrow> write_batch" where
  "batch_put key val b = b\<lparr>wb_ops := wb_ops b @ [OpPut key val],
     wb_bytes := wb_bytes b + (length key + length val)\<rparr>"

definition batch_delete :: "bytes \<Rightarrow> write_batch \<Rightarrow> write_batch" where
  "batch_delete key b = b\<lparr>wb_bytes := wb_bytes b + length key, wb_ops := wb_ops b @ [OpDelete key]\<rparr>"

definition batch_len :: "write_batch \<Rightarrow> nat" where "batch_len b = length (wb_ops b)"
definition batch_is_empty :: "write_batch \<Rightarrow> bool" where "batch_is_empty b \<longleftrightarrow> wb_ops b = []"
definition batch_byte_size :: "write_batch \<Rightarrow> nat" where "batch_byte_size b = wb_bytes b"

fun op_key :: "batch_op \<Rightarrow> bytes" where
  "op_key (OpPut key _) = key"
| "op_key (OpDelete key) = key"

text \<open>The byte count is the sum over the operations: what stall accounting relies on.\<close>

fun op_bytes :: "batch_op \<Rightarrow> nat" where
  "op_bytes (OpPut key val) = length key + length val"
| "op_bytes (OpDelete key) = length key"

definition batch_wf :: "write_batch \<Rightarrow> bool" where
  "batch_wf b \<longleftrightarrow> wb_bytes b = sum_list (map op_bytes (wb_ops b))"

lemma batch_wf_ops [simp]:
  "batch_wf batch_new"
  "batch_wf b \<Longrightarrow> batch_wf (batch_put key val b)"
  "batch_wf b \<Longrightarrow> batch_wf (batch_delete key b)"
  by (simp_all add: batch_wf_def batch_new_def batch_put_def batch_delete_def)

section \<open>Entries after value placement\<close>

record enc_entry =
  ee_kind :: value_kind
  ee_key :: bytes
  ee_repr :: bytes

fun encode_entries :: "bytes \<Rightarrow> enc_entry list \<Rightarrow> bytes" where
  "encode_entries out [] = out"
| "encode_entries out (e # es) =
     encode_entries (put_len_prefixed (put_len_prefixed (out @ [kind_u8 (ee_kind e)]) (ee_key e)) (ee_repr e)) es"

definition encode_batch :: "seqno \<Rightarrow> enc_entry list \<Rightarrow> bytes" where
  "encode_batch base_seqno entries =
     (let out = put_u64 [] base_seqno;
          out = put_u32 out (of_nat (length entries))
      in encode_entries out entries)"

definition decode_entry :: "reader \<Rightarrow> (enc_entry \<times> reader) res" where
  "decode_entry r =
     rbind (reader_u8 r) (\<lambda>(b, r).
     rbind (value_kind_from_u8 b) (\<lambda>kind.
     rbind (reader_len_prefixed r) (\<lambda>(key, r).
     rbind (reader_len_prefixed r) (\<lambda>(repr, r).
       Ok (\<lparr>ee_kind = kind, ee_key = key, ee_repr = repr\<rparr>, r)))))"

definition decode_batch :: "bytes \<Rightarrow> (seqno \<times> enc_entry list) res" where
  "decode_batch payload =
     (let r = reader_new payload in
      rbind (reader_u64 r) (\<lambda>(base, r).
      rbind (reader_u32 r) (\<lambda>(count, r).
      rbind (read_n decode_entry (unat count) r) (\<lambda>(entries, r).
        Ok (base, entries)))))"

section \<open>The payload is a codec\<close>

definition enc_entry_bytes :: "enc_entry \<Rightarrow> bytes" where
  "enc_entry_bytes e =
     enc_u8 (kind_u8 (ee_kind e)) @ enc_len_prefixed (ee_key e) @ enc_len_prefixed (ee_repr e)"

definition enc_entry_ok :: "enc_entry \<Rightarrow> bool" where
  "enc_entry_ok e \<longleftrightarrow> slice_len_ok (ee_key e) \<and> slice_len_ok (ee_repr e)"

definition batch_ok :: "seqno \<times> enc_entry list \<Rightarrow> bool" where
  "batch_ok p \<longleftrightarrow> list_all enc_entry_ok (snd p) \<and> length (snd p) < 2 ^ 32"

lemma encode_entries_concat: "encode_entries out es = out @ concat (map enc_entry_bytes es)"
  by (induction es arbitrary: out) (auto simp: enc_entry_bytes_def codec_simps enc_u8_def)

lemma codec_kind: "codec (\<lambda>k. enc_u8 (kind_u8 k))
    (\<lambda>r. rbind (reader_u8 r) (\<lambda>(b, r). rbind (value_kind_from_u8 b) (\<lambda>k. Ok (k, r)))) (\<lambda>_. True)"
  by (rule codec_iso [OF u8c.codec_axioms]) simp

interpretation entryc: codec enc_entry_bytes decode_entry enc_entry_ok
proof -
  note kr = codec_bind [OF lenc.codec_axioms lenc.codec_axioms]
  note k = codec_bind [OF codec_kind kr]
  note i = codec_iso [OF k, where g = "\<lambda>(kind, key, repr). Ok \<lparr>ee_kind = kind, ee_key = key, ee_repr = repr\<rparr>"
      and f = "\<lambda>e. (ee_kind e, ee_key e, ee_repr e)" and ok' = enc_entry_ok]
  show "codec enc_entry_bytes decode_entry enc_entry_ok"
    by (rule codec_ext [OF i])
      (auto simp: enc_entry_ok_def enc_entry_bytes_def decode_entry_def rbind_assoc split_def)
qed

definition read_batch :: "reader \<Rightarrow> ((seqno \<times> enc_entry list) \<times> reader) res" where
  "read_batch r =
     rbind (reader_u64 r) (\<lambda>(base, r). rbind (reader_u32 r) (\<lambda>(count, r).
       rbind (read_n decode_entry (unat count) r) (\<lambda>(es, r). Ok ((base, es), r))))"

lemma codec_batch: "codec (\<lambda>(base, es). encode_batch base es) read_batch batch_ok"
proof -
  have "codec (\<lambda>xs. enc_u32 (of_nat (length xs)) @ concat (map enc_entry_bytes xs))
    (\<lambda>r. rbind (reader_u32 r) (\<lambda>(n, r). read_n decode_entry (unat n) r))
    (\<lambda>xs. list_all enc_entry_ok xs \<and> length xs < 2 ^ 32)"
    by (rule codec_counted [OF u32c.codec_axioms entryc.codec_axioms]) (simp add: unat_of_nat)
  note b = codec_bind [OF u64c.codec_axioms this]
  show ?thesis
    by (rule codec_ext [OF b])
      (auto simp: batch_ok_def encode_batch_def encode_entries_concat codec_simps read_batch_def rbind_assoc split_def)
qed

lemma decode_batch_eq: "decode_batch payload = rbind (read_batch (reader_new payload)) (\<lambda>(p, r). Ok p)"
  by (simp add: decode_batch_def read_batch_def rbind_assoc split_def)

section \<open>Properties\<close>

text \<open>
  C26: a batch read back from its WAL payload has the base seqno and the entries, in order,
  that were encoded.
\<close>

theorem batch_roundtrip:
  assumes "list_all enc_entry_ok es" and "length es < 2 ^ 32"
  shows "decode_batch (encode_batch base es) = Ok (base, es)"
  using codec.dec_new [OF codec_batch, of "(base, es)"] assms
  by (simp add: decode_batch_eq batch_ok_def)

theorem batch_roundtrip_witness:
  "decode_batch (encode_batch 42
     [\<lparr>ee_kind = Put, ee_key = [97], ee_repr = encode_inline [49]\<rparr>,
      \<lparr>ee_kind = Delete, ee_key = [98], ee_repr = []\<rparr>])
   = Ok (42, [\<lparr>ee_kind = Put, ee_key = [97], ee_repr = encode_inline [49]\<rparr>,
      \<lparr>ee_kind = Delete, ee_key = [98], ee_repr = []\<rparr>])"
  by (rule batch_roundtrip) (simp_all add: enc_entry_ok_def slice_len_ok_def encode_inline_def)

text \<open>
  C27: a WAL payload cut short at any byte does not decode: it is corruption, never a
  shorter batch.
\<close>

theorem batch_truncated_is_corruption:
  assumes "list_all enc_entry_ok es" and "length es < 2 ^ 32" and "n < length (encode_batch base es)"
  shows "is_corruption (decode_batch (take n (encode_batch base es)))"
proof -
  let ?r = "reader_new (take n (encode_batch base es))"
  have e: "(\<lambda>(base, es). encode_batch base es) (base, es) = reader_rest ?r @ drop n (encode_batch base es)"
    by simp
  show ?thesis
    using codec.dec_short [OF codec_batch _ e] assms
    unfolding decode_batch_eq by (intro is_corruption_rbind) (simp add: batch_ok_def)
qed

theorem batch_truncated_is_corruption_witness:
  "is_corruption (decode_batch (take 12 (encode_batch 1
     [\<lparr>ee_kind = Put, ee_key = [107], ee_repr = encode_inline [118]\<rparr>])))"
  by (rule batch_truncated_is_corruption)
    (simp_all add: enc_entry_ok_def slice_len_ok_def encode_inline_def encode_batch_def
      encode_entries_concat enc_entry_bytes_def codec_simps)

end
