(* ===== verification/FileIo.thy ===== *)
theory FileIo
  imports Prelude
begin

text \<open>
  \<open>crates/fluent31/src/io/mod.rs\<close> and \<open>io/std_io.rs\<close>: the portable file backend. A file is
  the bytes the operating system holds, the offset the next append writes at, how much a
  successful \<open>fdatasync\<close> has covered, and the answers the operating system will give to the
  coming writes and syncs, so that every error path is a branch of the model.
\<close>

text \<open>\<open>None\<close>: the call succeeds; \<open>Some n\<close>: it fails, a write after \<open>n\<close> of its bytes.\<close>

record std_file =
  sf_data :: bytes
  sf_append_off :: nat
  sf_synced :: nat
  sf_faults :: "nat option list"

definition std_file_new :: "bytes \<Rightarrow> std_file" where
  "std_file_new data = \<lparr>sf_data = data, sf_append_off = length data, sf_synced = 0, sf_faults = []\<rparr>"

definition next_fault :: "std_file \<Rightarrow> nat option \<times> std_file" where
  "next_fault f = (case sf_faults f of [] \<Rightarrow> (None, f) | x # xs \<Rightarrow> (x, f\<lparr>sf_faults := xs\<rparr>))"

text \<open>\<open>pwrite\<close>: past the end the gap reads as zeros.\<close>

definition write_at :: "bytes \<Rightarrow> nat \<Rightarrow> bytes \<Rightarrow> bytes" where
  "write_at data off new =
     take off data @ replicate (off - length data) 0 @ new @ drop (off + length new) data"

lemma length_write_at [simp]: "length (write_at d off new) = max (length d) (off + length new)"
  by (simp add: write_at_def)

definition file_append :: "bytes \<Rightarrow> std_file \<Rightarrow> nat res \<times> std_file" where
  "file_append data f =
     (let off = sf_append_off f;
          (fault, f) = next_fault f
      in case fault of
           None \<Rightarrow> (Ok off, f\<lparr>sf_data := write_at (sf_data f) off data, sf_append_off := off + length data\<rparr>)
         | Some n \<Rightarrow> (Err (Io ''write''), f\<lparr>sf_data := write_at (sf_data f) off (take n data)\<rparr>))"

definition file_sync_data :: "std_file \<Rightarrow> unit res \<times> std_file" where
  "file_sync_data f =
     (let (fault, f) = next_fault f
      in case fault of
           None \<Rightarrow> (Ok (), f\<lparr>sf_synced := length (sf_data f)\<rparr>)
         | Some _ \<Rightarrow> (Err (Io ''sync''), f))"

definition file_read_exact_at :: "nat \<Rightarrow> nat \<Rightarrow> std_file \<Rightarrow> bytes res" where
  "file_read_exact_at off n f =
     (if off + n \<le> length (sf_data f) then Ok (take n (drop off (sf_data f)))
      else Err (Io ''short read''))"

text \<open>\<open>read_many\<close>: the requests in order, the first failure ends the call.\<close>

fun file_read_many :: "(nat \<times> nat) list \<Rightarrow> std_file \<Rightarrow> bytes list res" where
  "file_read_many [] f = Ok []"
| "file_read_many ((off, n) # reqs) f =
     rbind (file_read_exact_at off n f) (\<lambda>buf. rbind (file_read_many reqs f) (\<lambda>bufs. Ok (buf # bufs)))"

definition file_len :: "std_file \<Rightarrow> nat" where
  "file_len f = length (sf_data f)"

text \<open>The bytes below the append offset are the successful appends, in order.\<close>

definition file_wf :: "std_file \<Rightarrow> bool" where
  "file_wf f \<longleftrightarrow> sf_append_off f \<le> length (sf_data f)"

definition file_committed :: "std_file \<Rightarrow> bytes" where
  "file_committed f = take (sf_append_off f) (sf_data f)"

lemma file_new_wf [simp]: "file_wf (std_file_new data)" "file_committed (std_file_new data) = data"
  by (simp_all add: file_wf_def file_committed_def std_file_new_def)

lemma next_fault_fields [simp]:
  "next_fault f = (x, f') \<Longrightarrow> sf_data f' = sf_data f \<and> sf_append_off f' = sf_append_off f \<and> sf_synced f' = sf_synced f"
  by (auto simp: next_fault_def split: list.splits)

lemma file_append_committed:
  assumes "file_wf f" and "file_append data f = (r, f')"
  shows "file_wf f' \<and> ((\<exists>e. r = Err e) \<and> file_committed f' = file_committed f
      \<or> r = Ok (length (file_committed f)) \<and> file_committed f' = file_committed f @ data)"
proof -
  obtain x g where g: "next_fault f = (x, g)" by (cases "next_fault f")
  from next_fault_fields [OF g] show ?thesis
    using assms g
    by (auto simp: file_append_def file_wf_def file_committed_def write_at_def Let_def split: option.splits)
qed

text \<open>A file with no fault ahead and nothing written past its append offset.\<close>

definition file_clean :: "std_file \<Rightarrow> bool" where
  "file_clean f \<longleftrightarrow> sf_faults f = [] \<and> sf_append_off f = length (sf_data f)"

lemma file_append_clean:
  "file_clean f \<Longrightarrow> file_append data f
     = (Ok (length (sf_data f)), f\<lparr>sf_data := sf_data f @ data, sf_append_off := length (sf_data f) + length data\<rparr>)"
  by (simp add: file_append_def file_clean_def next_fault_def write_at_def Let_def)

lemma file_sync_clean: "file_clean f \<Longrightarrow> file_sync_data f = (Ok (), f\<lparr>sf_synced := length (sf_data f)\<rparr>)"
  by (simp add: file_sync_data_def file_clean_def next_fault_def)

lemma file_new_clean [simp]: "file_clean (std_file_new data)"
  by (simp add: file_clean_def std_file_new_def)

end
