(* ===== verification/Wal.thy ===== *)
theory Wal
  imports Coding FileIo
begin

text \<open>
  \<open>crates/fluent31/src/wal.rs\<close>: the length-and-CRC framed log. The checksum is the external \<open>crc32fast\<close>
  crate: a parameter \<open>crc\<close>, of which nothing is assumed here.
\<close>

section \<open>Framing\<close>

definition wal_header_len :: nat where "wal_header_len = 8"

definition wal_max_record :: u32 where "wal_max_record = push_bit 30 1"

definition wal_frame :: "(bytes \<Rightarrow> u32) \<Rightarrow> bytes \<Rightarrow> bytes" where
  "wal_frame crc payload =
     le_bytes 4 (of_nat (length payload) :: u32) @ le_bytes 4 (crc payload) @ payload"

definition wal_append_record :: "(bytes \<Rightarrow> u32) \<Rightarrow> bytes \<Rightarrow> std_file \<Rightarrow> unit res \<times> std_file" where
  "wal_append_record crc payload f =
     (let (r, f) = file_append (wal_frame crc payload) f
      in (rbind r (\<lambda>_. Ok ()), f))"

definition wal_sync :: "std_file \<Rightarrow> unit res \<times> std_file" where
  "wal_sync f = file_sync_data f"

datatype wal_tail = Clean | Torn nat

function read_wal_loop :: "(bytes \<Rightarrow> u32) \<Rightarrow> bytes \<Rightarrow> nat \<Rightarrow> bytes list \<times> wal_tail" where
  "read_wal_loop crc buf pos =
     (if length buf - pos = 0 then ([], Clean)
      else if length buf - pos < wal_header_len then ([], Torn pos)
      else
        let rec_len = (from_le_bytes (take 4 (drop pos buf)) :: u32);
            c = (from_le_bytes (take 4 (drop (pos + 4) buf)) :: u32)
        in if rec_len = 0 \<and> c = 0 then ([], Torn pos)
           else if wal_max_record < rec_len \<or> length buf - pos - wal_header_len < unat rec_len
           then ([], Torn pos)
           else
             let payload = take (unat rec_len) (drop (pos + wal_header_len) buf)
             in if crc payload \<noteq> c then ([], Torn pos)
                else let (records, tail) = read_wal_loop crc buf (pos + wal_header_len + unat rec_len)
                     in (payload # records, tail))"
  by pat_completeness auto
termination
  by (relation "measure (\<lambda>(crc, buf, pos). length buf - pos)") (auto simp: wal_header_len_def)

declare read_wal_loop.simps [simp del]

definition read_wal :: "(bytes \<Rightarrow> u32) \<Rightarrow> std_file \<Rightarrow> (bytes list \<times> wal_tail) res" where
  "read_wal crc f =
     rbind (file_read_exact_at 0 (file_len f) f) (\<lambda>buf. Ok (read_wal_loop crc buf 0))"

lemma read_wal_eq: "read_wal crc f = Ok (read_wal_loop crc (sf_data f) 0)"
  by (simp add: read_wal_def file_read_exact_at_def file_len_def)

section \<open>What the reader makes of framed records\<close>

definition wal_payload_ok :: "bytes \<Rightarrow> bool" where
  "wal_payload_ok p \<longleftrightarrow> p \<noteq> [] \<and> length p \<le> 2 ^ 30"

abbreviation wal_frames :: "(bytes \<Rightarrow> u32) \<Rightarrow> bytes list \<Rightarrow> bytes" where
  "wal_frames crc ps \<equiv> concat (map (wal_frame crc) ps)"

lemma length_wal_frame [simp]: "length (wal_frame crc p) = 8 + length p"
  by (simp add: wal_frame_def)

lemma wal_payload_len:
  "wal_payload_ok p \<Longrightarrow> unat (of_nat (length p) :: u32) = length p"
  "wal_payload_ok p \<Longrightarrow> (of_nat (length p) :: u32) \<noteq> 0"
  "wal_payload_ok p \<Longrightarrow> \<not> wal_max_record < (of_nat (length p) :: u32)"
proof -
  assume ok: "wal_payload_ok p"
  then show u: "unat (of_nat (length p) :: u32) = length p"
    by (simp add: wal_payload_ok_def unat_of_nat)
  with ok show "(of_nat (length p) :: u32) \<noteq> 0"
    by (metis length_0_conv unsigned_0 wal_payload_ok_def)
  show "\<not> wal_max_record < (of_nat (length p) :: u32)"
    using ok u by (simp add: word_less_nat_alt wal_payload_ok_def wal_max_record_def)
qed

lemma read_wal_step:
  assumes ok: "wal_payload_ok p" and pre: "length pre = pos" and buf: "buf = pre @ wal_frame crc p @ us"
  shows "read_wal_loop crc buf pos =
    (let (rs, t) = read_wal_loop crc buf (pos + length (wal_frame crc p)) in (p # rs, t))"
proof -
  have "take 4 (drop pos buf) = le_bytes 4 (of_nat (length p) :: u32)"
    and "take 4 (drop (pos + 4) buf) = le_bytes 4 (crc p)"
    and "take (length p) (drop (pos + 8) buf) = p"
    and "length buf = pos + 8 + length p + length us"
    using pre unfolding buf wal_frame_def by simp_all
  then show ?thesis
    using wal_payload_len [OF ok]
    by (subst read_wal_loop.simps) (simp add: wal_header_len_def Let_def add.assoc)
qed

lemma read_wal_frames:
  "list_all wal_payload_ok ps \<Longrightarrow> length pre = pos \<Longrightarrow> buf = pre @ wal_frames crc ps @ us \<Longrightarrow>
   read_wal_loop crc buf pos =
     (let (rs, t) = read_wal_loop crc buf (pos + length (wal_frames crc ps)) in (ps @ rs, t))"
proof (induction ps arbitrary: pre pos)
  case Nil
  show ?case by simp
next
  case (Cons p ps)
  have "read_wal_loop crc buf pos =
      (let (rs, t) = read_wal_loop crc buf (pos + length (wal_frame crc p)) in (p # rs, t))"
    using Cons.prems by (intro read_wal_step [where pre = pre and us = "wal_frames crc ps @ us"]) auto
  also have "read_wal_loop crc buf (pos + length (wal_frame crc p)) =
      (let (rs, t) = read_wal_loop crc buf (pos + length (wal_frame crc p) + length (wal_frames crc ps))
       in (ps @ rs, t))"
    using Cons.prems by (intro Cons.IH [where pre = "pre @ wal_frame crc p"]) auto
  finally show ?case by (simp add: split_def Let_def add.assoc)
qed

lemma read_wal_cut_frame:
  assumes ok: "wal_payload_ok p" and m: "0 < m" "m < length (wal_frame crc p)"
    and pre: "length pre = pos" and buf: "buf = pre @ take m (wal_frame crc p)"
  shows "read_wal_loop crc buf pos = ([], Torn pos)"
proof (cases "m < 8")
  case True
  with m pre buf show ?thesis
    by (subst read_wal_loop.simps) (simp add: wal_header_len_def)
next
  case False
  then have "take m (wal_frame crc p) =
      le_bytes 4 (of_nat (length p) :: u32) @ le_bytes 4 (crc p) @ take (m - 8) p"
    by (simp add: wal_frame_def)
  then have "take 4 (drop pos buf) = le_bytes 4 (of_nat (length p) :: u32)"
    using pre buf by simp
  moreover have "length buf = pos + m" using pre buf m by simp
  moreover have "m - 8 < length p" using False m by simp
  ultimately show ?thesis
    using False wal_payload_len [OF ok]
    by (subst read_wal_loop.simps) (simp add: wal_header_len_def Let_def)
qed

lemma read_wal_end: "read_wal_loop crc buf (length buf) = ([], Clean)"
  by (subst read_wal_loop.simps) simp

text \<open>A log cut anywhere.\<close>

lemma read_wal_cut:
  assumes "list_all wal_payload_ok ps" and "n \<le> length (wal_frames crc ps)"
  shows "\<exists>k \<le> length ps.
    (let valid = length (wal_frames crc (take k ps)) in
     valid \<le> n \<and> (k < length ps \<longrightarrow> n < length (wal_frames crc (take (Suc k) ps))) \<and>
     read_wal crc (std_file_new (take n (wal_frames crc ps))) =
       Ok (take k ps, if n = valid then Clean else Torn valid))"
proof -
  let ?len = "\<lambda>k. length (wal_frames crc (take k ps))"
  define k where "k = (GREATEST k. k \<le> length ps \<and> ?len k \<le> n)"
  have ex: "0 \<le> length ps \<and> ?len 0 \<le> n" by simp
  have bd: "\<And>j. j \<le> length ps \<and> ?len j \<le> n \<Longrightarrow> j \<le> length ps" by simp
  have k: "k \<le> length ps \<and> ?len k \<le> n"
    unfolding k_def
    by (rule GreatestI_nat [where P = "\<lambda>k. k \<le> length ps \<and> ?len k \<le> n", OF ex bd])
  have next_out: "k < length ps \<Longrightarrow> n < ?len (Suc k)"
    using Greatest_le_nat [of "\<lambda>k. k \<le> length ps \<and> ?len k \<le> n" "Suc k" "length ps"]
    unfolding k_def by fastforce
  have ok: "list_all wal_payload_ok (take k ps)"
    using assms(1) by (auto simp: list_all_iff dest: in_set_takeD)
  have "wal_frames crc ps = wal_frames crc (take k ps) @ wal_frames crc (drop k ps)"
    by (metis append_take_drop_id concat_append map_append)
  then have buf: "take n (wal_frames crc ps)
      = wal_frames crc (take k ps) @ take (n - ?len k) (wal_frames crc (drop k ps))"
    using k by simp
  have "read_wal_loop crc (take n (wal_frames crc ps)) 0 =
      (let (rs, t) = read_wal_loop crc (take n (wal_frames crc ps)) (?len k) in (take k ps @ rs, t))"
    using read_wal_frames [OF ok, of "[]" 0 _ crc] buf by simp
  moreover have "read_wal_loop crc (take n (wal_frames crc ps)) (?len k) =
      ([], if n = ?len k then Clean else Torn (?len k))"
  proof (cases "n = ?len k")
    case True
    then have "take n (wal_frames crc ps) = wal_frames crc (take k ps)" using buf by simp
    then show ?thesis using read_wal_end [of crc "wal_frames crc (take k ps)"] True by simp
  next
    case False
    have "k < length ps"
    proof (rule ccontr)
      assume "\<not> k < length ps"
      with k have "take k ps = ps" by simp
      with k assms(2) False show False by simp
    qed
    then have d: "drop k ps = ps ! k # drop (Suc k) ps" "take (Suc k) ps = take k ps @ [ps ! k]"
      by (simp_all add: Cons_nth_drop_Suc take_Suc_conv_app_nth)
    have m: "n - ?len k < length (wal_frame crc (ps ! k))"
      using next_out [OF \<open>k < length ps\<close>] k d(2) by simp
    have "wal_payload_ok (ps ! k)" using assms(1) \<open>k < length ps\<close> by (simp add: list_all_length)
    then have "read_wal_loop crc (take n (wal_frames crc ps)) (?len k) = ([], Torn (?len k))"
      using k False m d(1) buf
      by (intro read_wal_cut_frame [where p = "ps ! k" and m = "n - ?len k"]) auto
    with False show ?thesis by simp
  qed
  ultimately show ?thesis
    using k next_out by (intro exI [of _ k]) (simp add: Let_def read_wal_eq std_file_new_def)
qed

section \<open>Properties\<close>

text \<open>
  The records appended to a log, all of them successful, are read back in order and the
  log ends cleanly on a record boundary.
\<close>

theorem wal_roundtrip:
  assumes "list_all wal_payload_ok ps"
  shows "read_wal crc (std_file_new (wal_frames crc ps)) = Ok (ps, Clean)"
proof -
  have "read_wal_loop crc (wal_frames crc ps) 0 = (ps, Clean)"
    using read_wal_frames [OF assms, of "[]" 0 _ crc "[]"] read_wal_end [of crc "wal_frames crc ps"] by simp
  then show ?thesis by (simp add: read_wal_eq std_file_new_def)
qed

theorem wal_roundtrip_witness:
  "read_wal (\<lambda>_. 7) (std_file_new (wal_frames (\<lambda>_. 7) [[1, 2], [3]])) = Ok ([[1, 2], [3]], Clean)"
  by (rule wal_roundtrip) (simp add: wal_payload_ok_def)

text \<open>
  C25: a log cut at an arbitrary byte reads back exactly the records that fit before the cut;
  the tail is clean when the cut is a record boundary and otherwise torn, with the length of
  the valid prefix.
\<close>

theorem wal_cut_reads_prefix:
  assumes "list_all wal_payload_ok ps" and "n \<le> length (wal_frames crc ps)"
  shows "\<exists>k \<le> length ps.
    (let valid = length (wal_frames crc (take k ps)) in
     valid \<le> n \<and> (k < length ps \<longrightarrow> n < length (wal_frames crc (take (Suc k) ps))) \<and>
     read_wal crc (std_file_new (take n (wal_frames crc ps))) =
       Ok (take k ps, if n = valid then Clean else Torn valid))"
  using assms by (rule read_wal_cut)

theorem wal_cut_reads_prefix_witness:
  "\<exists>k \<le> length [[1, 2], [3 :: u8]]. (let valid = length (wal_frames (\<lambda>_. 7) (take k [[1, 2], [3]])) in
     valid \<le> 12 \<and>
     (k < length [[1, 2], [3 :: u8]] \<longrightarrow> 12 < length (wal_frames (\<lambda>_. 7) (take (Suc k) [[1, 2], [3]]))) \<and>
     read_wal (\<lambda>_. 7) (std_file_new (take 12 (wal_frames (\<lambda>_. 7) [[1, 2], [3]]))) =
       Ok (take k [[1, 2], [3]], if 12 = valid then Clean else Torn valid))"
  by (rule wal_cut_reads_prefix) (simp_all add: wal_payload_ok_def)

text \<open>
  whatever bytes a crash leaves behind the records that were written, those records are
  read back: damage after the valid prefix never hides or changes it.
\<close>

theorem wal_prefix_survives_garbage:
  assumes "list_all wal_payload_ok ps"
  shows "\<exists>rs t. read_wal crc (std_file_new (wal_frames crc ps @ garbage)) = Ok (ps @ rs, t)"
  using read_wal_frames [OF assms, of "[]" 0 _ crc garbage]
  by (simp add: read_wal_eq std_file_new_def split_def Let_def)

theorem wal_prefix_survives_garbage_witness:
  "\<exists>rs t. read_wal (\<lambda>_. 7) (std_file_new (wal_frames (\<lambda>_. 7) [[1, 2]] @ [9, 9, 9])) = Ok ([[1, 2]] @ rs, t)"
  by (rule wal_prefix_survives_garbage) (simp add: wal_payload_ok_def)

text \<open>Appending a list of payloads, whatever the outcome of each write.\<close>

fun wal_append_all :: "(bytes \<Rightarrow> u32) \<Rightarrow> bytes list \<Rightarrow> std_file \<Rightarrow> bytes list \<times> std_file" where
  "wal_append_all crc [] f = ([], f)"
| "wal_append_all crc (p # ps) f =
     (let (r, f) = wal_append_record crc p f;
          (acked, f) = wal_append_all crc ps f
      in (case r of Inr _ \<Rightarrow> p # acked | Inl _ \<Rightarrow> acked, f))"

lemma wal_append_all_committed:
  "file_wf f \<Longrightarrow> wal_append_all crc ps f = (acked, f') \<Longrightarrow>
   file_wf f' \<and> file_committed f' = file_committed f @ wal_frames crc acked \<and> set acked \<subseteq> set ps"
proof (induction ps arbitrary: f f' acked)
  case (Cons p ps)
  obtain r g where g: "file_append (wal_frame crc p) f = (r, g)" by (cases "file_append (wal_frame crc p) f")
  obtain acked' f2 where rest: "wal_append_all crc ps g = (acked', f2)" by (cases "wal_append_all crc ps g")
  note c = file_append_committed [OF Cons.prems(1) g]
  from Cons.IH [OF _ rest] c have ih: "file_wf f2"
    "file_committed f2 = file_committed g @ wal_frames crc acked'" "set acked' \<subseteq> set ps" by blast+
  show ?case using Cons.prems(2) c ih
    by (cases r) (auto simp: wal_append_record_def g rest)
qed simp



end
