(* ===== verification/InternalIter.thy ===== *)
theory InternalIter
  imports Types
begin

text \<open>
  The trait \<open>InternalIterator\<close> of \<open>crates/fluent31/src/iter.rs\<close>, the cursor every source of
  entries speaks: a record of operations, and the contract its users rely on, as one locale
  per direction (an instance is used in one direction only). The abstraction of a cursor is
  the list of entries it has still to deliver in its direction.
\<close>

section \<open>The operations\<close>

record 's iter_ops =
  it_seek_to_first :: "'s \<Rightarrow> 's res"
  it_seek_to_last :: "'s \<Rightarrow> 's res"
  it_seek :: "bytes \<Rightarrow> 's \<Rightarrow> 's res"
  it_seek_for_prev :: "bytes \<Rightarrow> 's \<Rightarrow> 's res"
  it_valid :: "'s \<Rightarrow> bool"
  it_next :: "'s \<Rightarrow> 's res"
  it_prev :: "'s \<Rightarrow> 's res"
  it_ikey :: "'s \<Rightarrow> bytes"
  it_value :: "'s \<Rightarrow> bytes"

section \<open>What a position means\<close>

definition from_key :: "bytes \<Rightarrow> entry list \<Rightarrow> entry list" where
  "from_key ik es = dropWhile (\<lambda>e. cmp_ikey (fst e) ik = Less) es"

definition upto_key :: "bytes \<Rightarrow> entry list \<Rightarrow> entry list" where
  "upto_key ik es = rev (takeWhile (\<lambda>e. cmp_ikey (fst e) ik \<noteq> Greater) es)"

text \<open>An operation succeeds and leaves a cursor with the same contents, positioned as said.\<close>

definition moves ::
    "('s \<Rightarrow> bool) \<Rightarrow> ('s \<Rightarrow> entry list) \<Rightarrow> ('s \<Rightarrow> entry list) \<Rightarrow> 's res \<Rightarrow> entry list \<Rightarrow> entry list \<Rightarrow> bool" where
  "moves good contents pend r es rest \<longleftrightarrow>
     (case r of Inl _ \<Rightarrow> False | Inr s \<Rightarrow> good s \<and> contents s = es \<and> pend s = rest)"

lemma moves_Inr [simp]: "moves good contents pend (Inr s) es rest \<longleftrightarrow> good s \<and> contents s = es \<and> pend s = rest"
  by (simp add: moves_def)

lemma moves_Inl [simp]: "\<not> moves good contents pend (Inl e) es rest"
  by (simp add: moves_def)

lemma movesE:
  assumes "moves good contents pend r es rest"
  obtains s where "r = Inr s" "good s" "contents s = es" "pend s = rest"
  using assms by (auto simp: moves_def split: sum.splits)

text \<open>What both directions share: \<open>step\<close> is \<open>next\<close> or \<open>prev\<close>.\<close>

locale entry_cursor =
  fixes ops :: "'s iter_ops"
    and step :: "'s \<Rightarrow> 's res"
    and good :: "'s \<Rightarrow> bool"
    and contents :: "'s \<Rightarrow> entry list"
    and pend :: "'s \<Rightarrow> entry list"
  assumes sorted: "good s \<Longrightarrow> entries_sorted (contents s)"
    and valid: "good s \<Longrightarrow> it_valid ops s \<longleftrightarrow> pend s \<noteq> []"
    and key_value: "good s \<Longrightarrow> pend s = e # es \<Longrightarrow> (it_ikey ops s, it_value ops s) = e"
    and step: "good s \<Longrightarrow> pend s = e # es \<Longrightarrow> moves good contents pend (step s) (contents s) es"

locale forward_iterator = entry_cursor ops "it_next ops" good contents pend
  for ops :: "'s iter_ops" and good contents pend +
  assumes seek_to_first: "good s \<Longrightarrow>
      moves good contents pend (it_seek_to_first ops s) (contents s) (contents s)"
    and seek: "good s \<Longrightarrow>
      moves good contents pend (it_seek ops ik s) (contents s) (from_key ik (contents s))"

locale reverse_iterator = entry_cursor ops "it_prev ops" good contents pend
  for ops :: "'s iter_ops" and good contents pend +
  assumes seek_to_last: "good s \<Longrightarrow>
      moves good contents pend (it_seek_to_last ops s) (contents s) (rev (contents s))"
    and seek_for_prev: "good s \<Longrightarrow>
      moves good contents pend (it_seek_for_prev ops ik s) (contents s) (upto_key ik (contents s))"

section \<open>Positions in sorted lists\<close>

lemma from_key_filter:
  "entries_sorted es \<Longrightarrow> from_key ik es = filter (\<lambda>e. \<not> vkey_of (fst e) < vkey_of ik) es"
proof (induction es)
  case (Cons e es)
  then show ?case
    by (cases "vkey_of (fst e) < vkey_of ik") (auto simp: from_key_def intro!: filter_id_conv [THEN iffD2, symmetric])
qed (simp add: from_key_def)

lemma upto_key_filter:
  "entries_sorted es \<Longrightarrow> upto_key ik es = rev (filter (\<lambda>e. \<not> vkey_of ik < vkey_of (fst e)) es)"
proof (induction es)
  case (Cons e es)
  have "filter (\<lambda>e. \<not> vkey_of ik < vkey_of (fst e)) es = []" if "vkey_of ik < vkey_of (fst e)"
    using that Cons.prems by (fastforce simp: filter_empty_conv)
  then show ?case using Cons by (auto simp: upto_key_def)
qed (simp add: upto_key_def)

lemma from_key_append_Less:
  "(\<And>e. e \<in> set xs \<Longrightarrow> vkey_of (fst e) < vkey_of ik) \<Longrightarrow> from_key ik (xs @ ys) = from_key ik ys"
  by (induction xs) (auto simp: from_key_def)

lemma from_key_append:
  "from_key ik xs \<noteq> [] \<Longrightarrow> from_key ik (xs @ ys) = from_key ik xs @ ys"
  by (induction xs) (auto simp: from_key_def)

lemma upto_key_append_le:
  "(\<And>e. e \<in> set xs \<Longrightarrow> \<not> vkey_of ik < vkey_of (fst e)) \<Longrightarrow> upto_key ik (xs @ ys) = upto_key ik ys @ rev xs"
  by (induction xs) (auto simp: upto_key_def)

lemma upto_key_append_gt:
  "e \<in> set xs \<Longrightarrow> vkey_of ik < vkey_of (fst e) \<Longrightarrow> upto_key ik (xs @ ys) = upto_key ik xs"
  by (simp add: upto_key_def takeWhile_append1)

lemma upto_key_Nil_ys:
  "ys = [] \<or> vkey_of ik < vkey_of (fst (hd ys)) \<Longrightarrow> upto_key ik ys = []"
  by (cases ys) (auto simp: upto_key_def)

section \<open>Parts laid end to end\<close>

text \<open>
  A table is a list of blocks and a run a list of tables: non-empty parts whose concatenation
  is sorted. A seek picks the first part whose last key is not below the target.
\<close>

definition parts_sorted :: "entry list list \<Rightarrow> bool" where
  "parts_sorted ess \<longleftrightarrow> entries_sorted (concat ess) \<and> [] \<notin> set ess"

definition part_for :: "bytes \<Rightarrow> entry list list \<Rightarrow> nat" where
  "part_for ik ess = length (takeWhile (\<lambda>es. cmp_ikey (fst (last es)) ik = Less) ess)"

lemma part_for_le: "part_for ik ess \<le> length ess"
  by (simp add: part_for_def length_takeWhile_le)

lemma entries_sorted_last:
  "entries_sorted es \<Longrightarrow> e \<in> set es \<Longrightarrow> vkey_of (fst e) \<le> vkey_of (fst (last es))"
  by (cases es rule: rev_cases) (auto simp: entries_sorted_append)

lemma parts_sorted_in: "parts_sorted ess \<Longrightarrow> es \<in> set ess \<Longrightarrow> entries_sorted es \<and> es \<noteq> []"
  by (induction ess) (auto simp: parts_sorted_def entries_sorted_append)

lemma parts_sorted_prefix_on:
  "parts_sorted ess \<Longrightarrow> prefix_on (\<lambda>es. cmp_ikey (fst (last es)) ik = Less) ess"
proof (induction ess)
  case (Cons es ess)
  have "vkey_of (fst (last es)) < vkey_of (fst (last fs))" if "fs \<in> set ess" for fs
    using Cons.prems that by (auto simp: parts_sorted_def entries_sorted_append) (metis last_in_set)
  then show ?case using Cons by (fastforce simp: parts_sorted_def prefix_on_def entries_sorted_append)
qed (simp add: prefix_on_def)

lemma parts_split:
  assumes "parts_sorted ess" and "part_for ik ess < length ess"
  defines "i \<equiv> part_for ik ess"
  shows "concat ess = concat (take i ess) @ (ess ! i) @ concat (drop (Suc i) ess)"
    and "\<forall>e \<in> set (concat (take i ess)). vkey_of (fst e) < vkey_of ik"
    and "\<not> vkey_of (fst (last (ess ! i))) < vkey_of ik"
proof -
  show "concat ess = concat (take i ess) @ (ess ! i) @ concat (drop (Suc i) ess)"
    using assms(2) unfolding i_def by (metis concat.simps(2) concat_append id_take_nth_drop)
  have "take i ess = takeWhile (\<lambda>es. cmp_ikey (fst (last es)) ik = Less) ess"
    by (simp add: i_def part_for_def takeWhile_eq_take [symmetric])
  then have "\<forall>es \<in> set (take i ess). vkey_of (fst (last es)) < vkey_of ik"
    by (auto dest: set_takeWhileD)
  then show "\<forall>e \<in> set (concat (take i ess)). vkey_of (fst e) < vkey_of ik"
    using parts_sorted_in [OF assms(1)] by (fastforce dest: in_set_takeD entries_sorted_last)
  show "\<not> vkey_of (fst (last (ess ! i))) < vkey_of ik"
    using nth_length_takeWhile [of "\<lambda>es. cmp_ikey (fst (last es)) ik = Less" ess] assms(2)
    by (simp add: i_def part_for_def)
qed

lemma parts_none:
  assumes "parts_sorted ess" and "part_for ik ess = length ess"
  shows "\<forall>e \<in> set (concat ess). vkey_of (fst e) < vkey_of ik"
proof -
  have "takeWhile (\<lambda>es. cmp_ikey (fst (last es)) ik = Less) ess = ess"
    using assms(2) by (metis part_for_def takeWhile_eq_take take_all_iff order_refl)
  then have "\<forall>es \<in> set ess. vkey_of (fst (last es)) < vkey_of ik"
    by (metis (mono_tags, lifting) cmp_ikey_simps(1) set_takeWhileD)
  then show ?thesis using parts_sorted_in [OF assms(1)] by (fastforce dest: entries_sorted_last)
qed

lemma seek_parts:
  assumes "parts_sorted ess" and "part_for ik ess < length ess"
  defines "i \<equiv> part_for ik ess"
  shows "from_key ik (concat ess) = from_key ik (ess ! i) @ concat (drop (Suc i) ess)"
    and "from_key ik (ess ! i) \<noteq> []"
    and "upto_key ik (concat ess) = upto_key ik (ess ! i) @ rev (concat (take i ess))"
proof -
  note sp = parts_split [OF assms(1,2), folded i_def]
  have ne: "ess ! i \<noteq> []" and srt: "entries_sorted (ess ! i)"
    using parts_sorted_in [OF assms(1), of "ess ! i"] assms(2) by (simp_all add: i_def)
  show f: "from_key ik (ess ! i) \<noteq> []"
    using ne sp(3) by (auto simp: from_key_def dropWhile_eq_Nil_conv)
  show "from_key ik (concat ess) = from_key ik (ess ! i) @ concat (drop (Suc i) ess)"
    unfolding sp(1) using sp(2) f by (subst from_key_append_Less) (auto simp: from_key_append)
  have "upto_key ik (concat ess)
      = upto_key ik ((ess ! i) @ concat (drop (Suc i) ess)) @ rev (concat (take i ess))"
    unfolding sp(1) using sp(2) by (intro upto_key_append_le) (auto simp: not_less_iff_gr_or_eq)
  also have "upto_key ik ((ess ! i) @ concat (drop (Suc i) ess)) = upto_key ik (ess ! i)"
  proof (cases "vkey_of ik < vkey_of (fst (last (ess ! i)))")
    case True
    then show ?thesis using ne by (intro upto_key_append_gt [where e = "last (ess ! i)"]) auto
  next
    case False
    then have eq: "vkey_of (fst (last (ess ! i))) = vkey_of ik" using sp(3) by auto
    have "entries_sorted ((ess ! i) @ concat (drop (Suc i) ess))"
      using assms(1) sp(1) by (simp add: parts_sorted_def entries_sorted_append)
    then have gt: "\<forall>e \<in> set (concat (drop (Suc i) ess)). vkey_of ik < vkey_of (fst e)"
      using ne eq by (metis entries_sorted_append last_in_set)
    have le: "\<forall>e \<in> set (ess ! i). \<not> vkey_of ik < vkey_of (fst e)"
      using entries_sorted_last [OF srt] eq by (auto simp: not_less)
    have "upto_key ik (concat (drop (Suc i) ess)) = []"
      using gt by (intro upto_key_Nil_ys) (metis list.set_sel(1))
    moreover have "upto_key ik ((ess ! i) @ concat (drop (Suc i) ess))
        = upto_key ik (concat (drop (Suc i) ess)) @ rev (ess ! i)"
      using le by (intro upto_key_append_le) auto
    moreover have "upto_key ik (ess ! i) = rev (ess ! i)"
      using le upto_key_append_le [of "ess ! i" ik "[]"] by (auto simp: upto_key_def)
    ultimately show ?thesis by simp
  qed
  finally show "upto_key ik (concat ess) = upto_key ik (ess ! i) @ rev (concat (take i ess))" .
qed

lemma seek_parts_none:
  assumes "parts_sorted ess" and "part_for ik ess = length ess"
  shows "from_key ik (concat ess) = []" and "upto_key ik (concat ess) = rev (concat ess)"
proof -
  note lt = parts_none [OF assms]
  show "from_key ik (concat ess) = []"
    using lt by (auto simp: from_key_def dropWhile_eq_Nil_conv)
  have "takeWhile (\<lambda>e. cmp_ikey (fst e) ik \<noteq> Greater) (concat ess) = concat ess"
    using lt by (intro takeWhile_eq_all_conv [THEN iffD2]) (auto simp: not_less_iff_gr_or_eq)
  then show "upto_key ik (concat ess) = rev (concat ess)" by (simp add: upto_key_def)
qed

end
