(* ===== verification/Memtable.thy ===== *)
theory Memtable
  imports InternalIter
begin

text \<open>
  \<open>crates/fluent31/src/memtable.rs\<close>: the write buffer. The concurrent skip list is the
  external crate \<open>crossbeam_skiplist\<close>: a record of its operations on a state \<open>'m\<close>, with what
  its documentation promises (an ordered map) as the hypothesis \<open>skip_ok\<close>.
\<close>

section \<open>The external ordered map\<close>

record 'm skip_ops =
  sk_insert :: "bytes \<Rightarrow> bytes \<Rightarrow> 'm \<Rightarrow> 'm"
  sk_lower_bound :: "bytes \<Rightarrow> 'm \<Rightarrow> entry option"
  sk_upper_bound :: "bytes \<Rightarrow> 'm \<Rightarrow> entry option"
  sk_front :: "'m \<Rightarrow> entry option"
  sk_back :: "'m \<Rightarrow> entry option"
  sk_next :: "bytes \<Rightarrow> 'm \<Rightarrow> entry option"
  sk_prev :: "bytes \<Rightarrow> 'm \<Rightarrow> entry option"
  sk_is_empty :: "'m \<Rightarrow> bool"

definition hd_opt :: "'a list \<Rightarrow> 'a option" where
  "hd_opt xs = (case xs of [] \<Rightarrow> None | x # _ \<Rightarrow> Some x)"

lemma hd_opt_simps [simp]: "hd_opt [] = None" "hd_opt (x # xs) = Some x"
  by (simp_all add: hd_opt_def)

text \<open>The entries after and before a key, and insertion into an ordered map.\<close>

definition after_key :: "bytes \<Rightarrow> entry list \<Rightarrow> entry list" where
  "after_key ik es = dropWhile (\<lambda>e. cmp_ikey (fst e) ik \<noteq> Greater) es"

definition before_key :: "bytes \<Rightarrow> entry list \<Rightarrow> entry list" where
  "before_key ik es = rev (takeWhile (\<lambda>e. cmp_ikey (fst e) ik = Less) es)"

definition put_entry :: "bytes \<Rightarrow> bytes \<Rightarrow> entry list \<Rightarrow> entry list" where
  "put_entry ik v es = takeWhile (\<lambda>e. cmp_ikey (fst e) ik = Less) es @ (ik, v) # after_key ik es"

definition skip_ok :: "'m skip_ops \<Rightarrow> ('m \<Rightarrow> entry list) \<Rightarrow> bool" where
  "skip_ok sk ents \<longleftrightarrow>
     (\<forall>m. entries_sorted (ents m)) \<and>
     (\<forall>m ik v. ents (sk_insert sk ik v m) = put_entry ik v (ents m)) \<and>
     (\<forall>m ik. sk_lower_bound sk ik m = hd_opt (from_key ik (ents m))) \<and>
     (\<forall>m ik. sk_upper_bound sk ik m = hd_opt (upto_key ik (ents m))) \<and>
     (\<forall>m. sk_front sk m = hd_opt (ents m)) \<and> (\<forall>m. sk_back sk m = hd_opt (rev (ents m))) \<and>
     (\<forall>m ik. sk_next sk ik m = hd_opt (after_key ik (ents m))) \<and>
     (\<forall>m ik. sk_prev sk ik m = hd_opt (before_key ik (ents m))) \<and>
     (\<forall>m. sk_is_empty sk m = (ents m = []))"

section \<open>The memtable\<close>

definition entry_overhead :: nat where "entry_overhead = 64"

record 'm memtable =
  mt_map :: 'm
  mt_bytes :: nat
  mt_wal_id :: u64

definition memtable_new :: "'m \<Rightarrow> u64 \<Rightarrow> 'm memtable" where
  "memtable_new m wal_id = \<lparr>mt_map = m, mt_bytes = 0, mt_wal_id = wal_id\<rparr>"

definition memtable_insert :: "'m skip_ops \<Rightarrow> bytes \<Rightarrow> bytes \<Rightarrow> 'm memtable \<Rightarrow> 'm memtable" where
  "memtable_insert sk ikey repr mt =
     (let sz = length ikey + length repr + entry_overhead
      in mt\<lparr>mt_map := sk_insert sk ikey repr (mt_map mt), mt_bytes := mt_bytes mt + sz\<rparr>)"

definition memtable_approximate_bytes :: "'m memtable \<Rightarrow> nat" where
  "memtable_approximate_bytes mt = mt_bytes mt"

definition memtable_is_empty :: "'m skip_ops \<Rightarrow> 'm memtable \<Rightarrow> bool" where
  "memtable_is_empty sk mt = sk_is_empty sk (mt_map mt)"

definition memtable_get :: "'m skip_ops \<Rightarrow> bytes \<Rightarrow> seqno \<Rightarrow> 'm memtable \<Rightarrow> (value_kind \<times> seqno \<times> bytes) option" where
  "memtable_get sk ukey seq mt =
     (case sk_lower_bound sk (make_seek_ikey ukey seq) (mt_map mt) of
        None \<Rightarrow> None
      | Some (ik, v) \<Rightarrow>
          if ikey_ukey ik \<noteq> ukey then None
          else (case ikey_kind ik of Inl _ \<Rightarrow> None | Inr kind \<Rightarrow> Some (kind, ikey_seqno ik, v)))"

section \<open>Its cursor\<close>

record 'm mem_iter =
  mi_cur :: "entry option"
  mi_mt :: "'m memtable"

definition memtable_iter :: "'m memtable \<Rightarrow> 'm mem_iter" where
  "memtable_iter mt = \<lparr>mi_cur = None, mi_mt = mt\<rparr>"

definition mi_seek_to_first :: "'m skip_ops \<Rightarrow> 'm mem_iter \<Rightarrow> 'm mem_iter res" where
  "mi_seek_to_first sk s = Ok (s\<lparr>mi_cur := sk_front sk (mt_map (mi_mt s))\<rparr>)"

definition mi_seek_to_last :: "'m skip_ops \<Rightarrow> 'm mem_iter \<Rightarrow> 'm mem_iter res" where
  "mi_seek_to_last sk s = Ok (s\<lparr>mi_cur := sk_back sk (mt_map (mi_mt s))\<rparr>)"

definition mi_seek :: "'m skip_ops \<Rightarrow> bytes \<Rightarrow> 'm mem_iter \<Rightarrow> 'm mem_iter res" where
  "mi_seek sk ikey s = Ok (s\<lparr>mi_cur := sk_lower_bound sk ikey (mt_map (mi_mt s))\<rparr>)"

definition mi_seek_for_prev :: "'m skip_ops \<Rightarrow> bytes \<Rightarrow> 'm mem_iter \<Rightarrow> 'm mem_iter res" where
  "mi_seek_for_prev sk ikey s = Ok (s\<lparr>mi_cur := sk_upper_bound sk ikey (mt_map (mi_mt s))\<rparr>)"

definition mi_valid :: "'m mem_iter \<Rightarrow> bool" where
  "mi_valid s \<longleftrightarrow> mi_cur s \<noteq> None"

definition mi_next :: "'m skip_ops \<Rightarrow> 'm mem_iter \<Rightarrow> 'm mem_iter res" where
  "mi_next sk s = Ok (s\<lparr>mi_cur :=
     (case mi_cur s of None \<Rightarrow> None | Some c \<Rightarrow> sk_next sk (fst c) (mt_map (mi_mt s)))\<rparr>)"

definition mi_prev :: "'m skip_ops \<Rightarrow> 'm mem_iter \<Rightarrow> 'm mem_iter res" where
  "mi_prev sk s = Ok (s\<lparr>mi_cur :=
     (case mi_cur s of None \<Rightarrow> None | Some c \<Rightarrow> sk_prev sk (fst c) (mt_map (mi_mt s)))\<rparr>)"

definition mi_ikey :: "'m mem_iter \<Rightarrow> bytes" where "mi_ikey s = fst (the (mi_cur s))"
definition mi_value :: "'m mem_iter \<Rightarrow> bytes" where "mi_value s = snd (the (mi_cur s))"

definition mem_iter_ops :: "'m skip_ops \<Rightarrow> 'm mem_iter iter_ops" where
  "mem_iter_ops sk = \<lparr>it_seek_to_first = mi_seek_to_first sk, it_seek_to_last = mi_seek_to_last sk,
     it_seek = mi_seek sk, it_seek_for_prev = mi_seek_for_prev sk, it_valid = mi_valid,
     it_next = mi_next sk, it_prev = mi_prev sk, it_ikey = mi_ikey, it_value = mi_value\<rparr>"

section \<open>Ordered insertion\<close>

lemma entries_sorted_from_key:
  assumes "entries_sorted es"
  shows "after_key ik es = filter (\<lambda>e. vkey_of ik < vkey_of (fst e)) es"
    and "before_key ik es = rev (filter (\<lambda>e. vkey_of (fst e) < vkey_of ik) es)"
proof -
  show "after_key ik es = filter (\<lambda>e. vkey_of ik < vkey_of (fst e)) es"
    using assms
  proof (induction es)
    case (Cons e es)
    then show ?case
      by (cases "vkey_of ik < vkey_of (fst e)") (fastforce simp: after_key_def intro!: filter_True [symmetric])+
  qed (simp add: after_key_def)
  have "takeWhile (\<lambda>e. cmp_ikey (fst e) ik = Less) es = filter (\<lambda>e. vkey_of (fst e) < vkey_of ik) es"
    using assms
  proof (induction es)
    case (Cons e es)
    have "filter (\<lambda>e. vkey_of (fst e) < vkey_of ik) es = []" if "\<not> vkey_of (fst e) < vkey_of ik"
      using that Cons.prems by (fastforce simp: filter_empty_conv)
    then show ?case using Cons by auto
  qed simp
  then show "before_key ik es = rev (filter (\<lambda>e. vkey_of (fst e) < vkey_of ik) es)"
    by (simp add: before_key_def)
qed

lemma put_entry_filter:
  "entries_sorted es \<Longrightarrow> put_entry ik v es =
     filter (\<lambda>e. vkey_of (fst e) < vkey_of ik) es @ (ik, v) # filter (\<lambda>e. vkey_of ik < vkey_of (fst e)) es"
  using entries_sorted_from_key [of es ik] by (simp add: put_entry_def before_key_def)

lemma put_entry_sorted: "entries_sorted es \<Longrightarrow> entries_sorted (put_entry ik v es)"
  by (auto simp: put_entry_filter entries_sorted_append entries_sorted_sublist intro: less_trans)

lemma set_put_entry:
  "entries_sorted es \<Longrightarrow> set (put_entry ik v es) = insert (ik, v) {e \<in> set es. vkey_of (fst e) \<noteq> vkey_of ik}"
  by (auto simp: put_entry_filter)

section \<open>The cursor meets the contract\<close>

definition mi_good :: "'m mem_iter \<Rightarrow> ('m \<Rightarrow> entry list) \<Rightarrow> bool" where
  "mi_good s ents \<longleftrightarrow> (\<forall>e. mi_cur s = Some e \<longrightarrow> e \<in> set (ents (mt_map (mi_mt s))))"

definition mi_contents :: "('m \<Rightarrow> entry list) \<Rightarrow> 'm mem_iter \<Rightarrow> entry list" where
  "mi_contents ents s = ents (mt_map (mi_mt s))"

definition mi_forward :: "('m \<Rightarrow> entry list) \<Rightarrow> 'm mem_iter \<Rightarrow> entry list" where
  "mi_forward ents s = (case mi_cur s of None \<Rightarrow> [] | Some e \<Rightarrow> from_key (fst e) (mi_contents ents s))"

definition mi_backward :: "('m \<Rightarrow> entry list) \<Rightarrow> 'm mem_iter \<Rightarrow> entry list" where
  "mi_backward ents s = (case mi_cur s of None \<Rightarrow> [] | Some e \<Rightarrow> upto_key (fst e) (mi_contents ents s))"

lemma sorted_suffix_from_key:
  assumes "entries_sorted (xs @ e # ys)"
  shows "from_key (fst e) (xs @ e # ys) = e # ys" and "after_key (fst e) (xs @ e # ys) = ys"
    and "upto_key (fst e) (xs @ e # ys) = e # rev xs" and "before_key (fst e) (xs @ e # ys) = rev xs"
proof -
  have o: "\<forall>x \<in> set xs. vkey_of (fst x) < vkey_of (fst e)" "\<forall>y \<in> set ys. vkey_of (fst e) < vkey_of (fst y)"
    using assms by (auto simp: entries_sorted_append)
  then have "filter (\<lambda>x. \<not> vkey_of (fst x) < vkey_of (fst e)) xs = []"
    "filter (\<lambda>x. \<not> vkey_of (fst x) < vkey_of (fst e)) ys = ys"
    "filter (\<lambda>x. vkey_of (fst e) < vkey_of (fst x)) xs = []"
    "filter (\<lambda>x. vkey_of (fst e) < vkey_of (fst x)) ys = ys"
    "filter (\<lambda>x. \<not> vkey_of (fst e) < vkey_of (fst x)) xs = xs"
    "filter (\<lambda>x. \<not> vkey_of (fst e) < vkey_of (fst x)) ys = []"
    "filter (\<lambda>x. vkey_of (fst x) < vkey_of (fst e)) xs = xs"
    "filter (\<lambda>x. vkey_of (fst x) < vkey_of (fst e)) ys = []"
    by (auto simp: filter_empty_conv filter_id_conv dest: less_asym)
  then show "from_key (fst e) (xs @ e # ys) = e # ys" "after_key (fst e) (xs @ e # ys) = ys"
    "upto_key (fst e) (xs @ e # ys) = e # rev xs" "before_key (fst e) (xs @ e # ys) = rev xs"
    using assms by (simp_all add: from_key_filter upto_key_filter entries_sorted_from_key)
qed

text \<open>A position that is the head of a suffix delivers that suffix, and of a prefix that prefix.\<close>

lemma from_key_hd: "entries_sorted (xs @ zs) \<Longrightarrow>
    (case hd_opt zs of None \<Rightarrow> [] | Some e \<Rightarrow> from_key (fst e) (xs @ zs)) = zs"
  by (cases zs) (simp_all add: sorted_suffix_from_key)

lemma upto_key_hd: "entries_sorted (rev zs @ xs) \<Longrightarrow>
    (case hd_opt zs of None \<Rightarrow> [] | Some e \<Rightarrow> upto_key (fst e) (rev zs @ xs)) = zs"
  by (cases zs) (simp_all add: sorted_suffix_from_key)

lemma from_key_split: "\<exists>xs. es = xs @ from_key ik es"
  unfolding from_key_def by (metis takeWhile_dropWhile_id)

lemma upto_key_split: "\<exists>xs. es = rev (upto_key ik es) @ xs"
  unfolding upto_key_def by (metis rev_rev_ident takeWhile_dropWhile_id)

lemma hd_opt_in: "hd_opt zs = Some e \<Longrightarrow> e \<in> set zs"
  by (cases zs) auto

lemma mi_at_forward:
  assumes "skip_ok sk ents" and "mi_contents ents s = xs @ zs"
  shows "moves (\<lambda>s. mi_good s ents) (mi_contents ents) (mi_forward ents) (Ok (s\<lparr>mi_cur := hd_opt zs\<rparr>)) (mi_contents ents s) zs"
proof -
  have "entries_sorted (xs @ zs)" using assms by (metis mi_contents_def skip_ok_def)
  then show ?thesis
    using from_key_hd [of xs zs] assms(2)
    by (auto simp: mi_good_def mi_contents_def mi_forward_def dest: hd_opt_in split: option.splits)
qed

lemma mi_at_backward:
  assumes "skip_ok sk ents" and "mi_contents ents s = rev zs @ xs"
  shows "moves (\<lambda>s. mi_good s ents) (mi_contents ents) (mi_backward ents) (Ok (s\<lparr>mi_cur := hd_opt zs\<rparr>)) (mi_contents ents s) zs"
proof -
  have "entries_sorted (rev zs @ xs)" using assms by (metis mi_contents_def skip_ok_def)
  then show ?thesis
    using upto_key_hd [of zs xs] assms(2)
    by (auto simp: mi_good_def mi_contents_def mi_backward_def dest: hd_opt_in split: option.splits)
qed

lemma mi_cur_split:
  assumes "mi_good s ents" and "mi_cur s = Some e"
  obtains xs ys where "mi_contents ents s = xs @ e # ys"
  using assms by (auto simp: mi_good_def mi_contents_def in_set_conv_decomp)

lemma mem_forward:
  assumes ok: "skip_ok sk ents"
  shows "forward_iterator (mem_iter_ops sk) (\<lambda>s. mi_good s ents) (mi_contents ents) (mi_forward ents)"
proof
  fix s e es ik
  assume s: "mi_good s ents"
  have srt: "entries_sorted (mi_contents ents s)" using ok by (simp add: skip_ok_def mi_contents_def)
  then show "entries_sorted (mi_contents ents s)" .
  show "it_valid (mem_iter_ops sk) s = (mi_forward ents s \<noteq> [])"
  proof (cases "mi_cur s")
    case (Some e)
    obtain xs ys where xs: "mi_contents ents s = xs @ e # ys" by (rule mi_cur_split [OF s Some])
    then have "mi_forward ents s = e # ys"
      using Some srt by (simp add: mi_forward_def sorted_suffix_from_key)
    with Some show ?thesis by (simp add: mem_iter_ops_def mi_valid_def)
  qed (simp add: mem_iter_ops_def mi_valid_def mi_forward_def)
  show "moves (\<lambda>s. mi_good s ents) (mi_contents ents) (mi_forward ents) (it_seek_to_first (mem_iter_ops sk) s)
      (mi_contents ents s) (mi_contents ents s)"
    using mi_at_forward [OF ok, of s "[]"] ok by (simp add: mem_iter_ops_def mi_seek_to_first_def skip_ok_def mi_contents_def)
  show "moves (\<lambda>s. mi_good s ents) (mi_contents ents) (mi_forward ents) (it_seek (mem_iter_ops sk) ik s)
      (mi_contents ents s) (from_key ik (mi_contents ents s))"
    using mi_at_forward [OF ok, of s] from_key_split [of "mi_contents ents s" ik] ok
    by (auto simp: mem_iter_ops_def mi_seek_def skip_ok_def mi_contents_def)
  assume f: "mi_forward ents s = e # es"
  then obtain e' where e': "mi_cur s = Some e'" by (auto simp: mi_forward_def split: option.splits)
  obtain xs ys where xs: "mi_contents ents s = xs @ e' # ys" by (rule mi_cur_split [OF s e'])
  then have "mi_forward ents s = e' # ys"
    using e' srt by (simp add: mi_forward_def sorted_suffix_from_key)
  with f have eq: "e' = e" "ys = es" by simp_all
  then show "(it_ikey (mem_iter_ops sk) s, it_value (mem_iter_ops sk) s) = e"
    using e' by (simp add: mem_iter_ops_def mi_ikey_def mi_value_def)
  have "sk_next sk (fst e) (mt_map (mi_mt s)) = hd_opt es"
    using ok xs srt eq sorted_suffix_from_key(2) [of xs e es] by (simp add: skip_ok_def mi_contents_def)
  then show "moves (\<lambda>s. mi_good s ents) (mi_contents ents) (mi_forward ents) (it_next (mem_iter_ops sk) s) (mi_contents ents s) es"
    using mi_at_forward [OF ok, of s "xs @ [e]" es] xs e' eq by (simp add: mem_iter_ops_def mi_next_def)
qed

lemma mem_reverse:
  assumes ok: "skip_ok sk ents"
  shows "reverse_iterator (mem_iter_ops sk) (\<lambda>s. mi_good s ents) (mi_contents ents) (mi_backward ents)"
proof
  fix s e es ik
  assume s: "mi_good s ents"
  have srt: "entries_sorted (mi_contents ents s)" using ok by (simp add: skip_ok_def mi_contents_def)
  then show "entries_sorted (mi_contents ents s)" .
  show "it_valid (mem_iter_ops sk) s = (mi_backward ents s \<noteq> [])"
  proof (cases "mi_cur s")
    case (Some e)
    obtain xs ys where xs: "mi_contents ents s = xs @ e # ys" by (rule mi_cur_split [OF s Some])
    then have "mi_backward ents s = e # rev xs"
      using Some srt by (simp add: mi_backward_def sorted_suffix_from_key)
    with Some show ?thesis by (simp add: mem_iter_ops_def mi_valid_def)
  qed (simp add: mem_iter_ops_def mi_valid_def mi_backward_def)
  show "moves (\<lambda>s. mi_good s ents) (mi_contents ents) (mi_backward ents) (it_seek_to_last (mem_iter_ops sk) s)
      (mi_contents ents s) (rev (mi_contents ents s))"
    using mi_at_backward [OF ok, of s "rev (mi_contents ents s)" "[]"] ok
    by (simp add: mem_iter_ops_def mi_seek_to_last_def skip_ok_def mi_contents_def)
  show "moves (\<lambda>s. mi_good s ents) (mi_contents ents) (mi_backward ents) (it_seek_for_prev (mem_iter_ops sk) ik s)
      (mi_contents ents s) (upto_key ik (mi_contents ents s))"
    using mi_at_backward [OF ok, of s "upto_key ik (mi_contents ents s)"] upto_key_split [of "mi_contents ents s" ik] ok
    by (auto simp: mem_iter_ops_def mi_seek_for_prev_def skip_ok_def mi_contents_def)
  assume f: "mi_backward ents s = e # es"
  then obtain e' where e': "mi_cur s = Some e'" by (auto simp: mi_backward_def split: option.splits)
  obtain xs ys where xs: "mi_contents ents s = xs @ e' # ys" by (rule mi_cur_split [OF s e'])
  then have "mi_backward ents s = e' # rev xs"
    using e' srt by (simp add: mi_backward_def sorted_suffix_from_key)
  with f have eq: "e' = e" "rev xs = es" by simp_all
  then show "(it_ikey (mem_iter_ops sk) s, it_value (mem_iter_ops sk) s) = e"
    using e' by (simp add: mem_iter_ops_def mi_ikey_def mi_value_def)
  have "sk_prev sk (fst e) (mt_map (mi_mt s)) = hd_opt es"
    using ok xs srt eq sorted_suffix_from_key(4) [of xs e ys] by (simp add: skip_ok_def mi_contents_def)
  then show "moves (\<lambda>s. mi_good s ents) (mi_contents ents) (mi_backward ents) (it_prev (mem_iter_ops sk) s) (mi_contents ents s) es"
    using mi_at_backward [OF ok, of s es "e # ys"] xs e' eq by (auto simp: mem_iter_ops_def mi_prev_def)
qed

section \<open>Lookups\<close>

lemma seek_get_hd: "seek_get es k s =
    (case hd_opt (from_key (make_seek_ikey k s) es) of None \<Rightarrow> None | Some e \<Rightarrow> if ikey_ukey (fst e) \<noteq> k then None else Some e)"
  by (simp add: seek_get_def seek_first_def from_key_def hd_opt_def split: list.split)

definition hit_opt :: "entry option \<Rightarrow> (value_kind \<times> seqno \<times> bytes) option" where
  "hit_opt x = (case x of None \<Rightarrow> None
     | Some e \<Rightarrow> (case hit_of e of Inl _ \<Rightarrow> None | Inr h \<Rightarrow> Some h))"

lemma memtable_get_eq:
  "skip_ok sk ents \<Longrightarrow> s \<le> max_seqno \<Longrightarrow>
   memtable_get sk u s mt = hit_opt (lookup_at (ents (mt_map mt)) u s)"
  by (simp add: memtable_get_def skip_ok_def seek_get_lookup_at [symmetric] seek_get_hd hit_opt_def hit_of_def
      split: option.splits sum.splits prod.splits)

definition no_newer :: "entry list \<Rightarrow> bytes \<Rightarrow> seqno \<Rightarrow> bytes \<Rightarrow> bool" where
  "no_newer es k s ik \<longleftrightarrow> (\<forall>e \<in> set es. is_version k s e \<longrightarrow> vkey_of ik \<le> vkey_of (fst e))"

lemma lookup_at_put_entry:
  assumes "entries_sorted es" and "q \<le> max_seqno"
  shows "lookup_at (put_entry (make_ikey u q kd) v es) k s =
    (if k = u \<and> q \<le> s \<and> no_newer es k s (make_ikey u q kd)
     then Some (make_ikey u q kd, v) else lookup_at es k s)"
proof -
  let ?ik = "make_ikey u q kd"
  have iv: "is_version k s (?ik, v) \<longleftrightarrow> u = k \<and> q \<le> s" using assms(2) by (simp add: is_version_def key_simps)
  have srt: "entries_sorted (put_entry ?ik v es)" by (rule put_entry_sorted [OF assms(1)])
  show ?thesis
  proof (cases "k = u \<and> q \<le> s \<and> no_newer es k s ?ik")
    case True
    then have "lookup_at (put_entry ?ik v es) k s = Some (?ik, v)"
      using iv by (subst lookup_at_newest [OF srt]) (auto simp: no_newer_def set_put_entry [OF assms(1)])
    with True show ?thesis by auto
  next
    case False
    have "lookup_at (put_entry ?ik v es) k s = lookup_at es k s"
    proof (cases "lookup_at es k s")
      case None
      then have "\<forall>e \<in> set (put_entry ?ik v es). \<not> is_version k s e"
        using False iv by (auto simp: no_newer_def lookup_at_None_iff set_put_entry [OF assms(1)])
      with None show ?thesis by (simp add: lookup_at_None_iff [THEN iffD2])
    next
      case (Some e)
      then have e: "e \<in> set es" "is_version k s e" "\<forall>x \<in> set es. is_version k s x \<longrightarrow> vkey_of (fst e) \<le> vkey_of (fst x)"
        using lookup_at_newest [OF assms(1)] by auto
      have lt: "u = k \<and> q \<le> s \<longrightarrow> vkey_of (fst e) < vkey_of ?ik"
        using False e unfolding no_newer_def by (meson not_le order.strict_trans1)
      have ne: "vkey_of (fst e) \<noteq> vkey_of ?ik"
        using lt e(2) assms(2) by (auto simp: is_version_def vkey_of_def key_simps)
      have "lookup_at (put_entry ?ik v es) k s = Some e"
        using e lt ne iv by (subst lookup_at_newest [OF srt]) (auto simp: set_put_entry [OF assms(1)])
      with Some show ?thesis by simp
    qed
    with False show ?thesis by auto
  qed
qed

section \<open>Properties\<close>

text \<open>
  C18: a lookup in the write buffer returns the newest version of the key visible at the
  seqno, and an insertion changes exactly the lookups that should see it: those of its user
  key at or above its seqno with no newer version in between.
\<close>

theorem memtable_get_after_insert:
  assumes "skip_ok sk ents" and "q \<le> max_seqno" and "s \<le> max_seqno"
  shows "memtable_get sk k s (memtable_insert sk (make_ikey u q kd) v mt) =
    (if k = u \<and> q \<le> s \<and> no_newer (ents (mt_map mt)) k s (make_ikey u q kd)
     then Some (kd, q, v) else memtable_get sk k s mt)"
proof -
  have srt: "entries_sorted (ents (mt_map mt))" using assms(1) by (simp add: skip_ok_def)
  have "ents (sk_insert sk (make_ikey u q kd) v (mt_map mt)) = put_entry (make_ikey u q kd) v (ents (mt_map mt))"
    using assms(1) by (simp add: skip_ok_def)
  then show ?thesis
    using lookup_at_put_entry [OF srt assms(2), of u kd v k s] assms(2)
    by (cases "k = u \<and> q \<le> s \<and> no_newer (ents (mt_map mt)) k s (make_ikey u q kd)")
      (auto simp: memtable_get_eq [OF assms(1,3)] memtable_insert_def Let_def hit_opt_def hit_of_def key_simps)
qed

text \<open>An ordered map on lists, to see that what is asked of the external one can be had.\<close>

typedef sorted_entries = "{es. entries_sorted es}"
  by (rule exI [of _ "[]"]) simp

definition se_insert :: "bytes \<Rightarrow> bytes \<Rightarrow> sorted_entries \<Rightarrow> sorted_entries" where
  "se_insert ik v m = Abs_sorted_entries (put_entry ik v (Rep_sorted_entries m))"

definition se_empty :: sorted_entries where "se_empty = Abs_sorted_entries []"

definition list_skip_ops :: "sorted_entries skip_ops" where
  "list_skip_ops = \<lparr>sk_insert = se_insert, sk_lower_bound = (\<lambda>ik m. hd_opt (from_key ik (Rep_sorted_entries m))),
     sk_upper_bound = (\<lambda>ik m. hd_opt (upto_key ik (Rep_sorted_entries m))), sk_front = (\<lambda>m. hd_opt (Rep_sorted_entries m)),
     sk_back = (\<lambda>m. hd_opt (rev (Rep_sorted_entries m))), sk_next = (\<lambda>ik m. hd_opt (after_key ik (Rep_sorted_entries m))),
     sk_prev = (\<lambda>ik m. hd_opt (before_key ik (Rep_sorted_entries m))), sk_is_empty = (\<lambda>m. Rep_sorted_entries m = [])\<rparr>"

lemma list_skip_ok: "skip_ok list_skip_ops Rep_sorted_entries"
  unfolding skip_ok_def list_skip_ops_def using Rep_sorted_entries
  by (auto simp: se_insert_def Abs_sorted_entries_inverse put_entry_sorted)

theorem memtable_get_after_insert_witness:
  "memtable_get list_skip_ops [107] 20 (memtable_insert list_skip_ops (make_ikey [107] 9 Put) [1] (memtable_new se_empty 1))
     = Some (Put, 9, [1])"
  using memtable_get_after_insert [OF list_skip_ok, of 9 20 "[107]" "[107]" Put "[1]" "memtable_new se_empty 1"]
  by (simp add: no_newer_def max_seqno_val memtable_new_def se_empty_def Abs_sorted_entries_inverse)

end
