(* ===== verification/Block.thy ===== *)
theory Block
  imports InternalIter
begin

text \<open>
  \<open>crates/fluent31/src/block.rs\<close>: the payload of a data block, its binary search and its
  cursor. \<open>usize\<close> is 64 bits wide.
\<close>

section \<open>Building\<close>

record block_builder =
  bb_buf :: bytes
  bb_offsets :: "u32 list"

definition block_builder_default :: block_builder where
  "block_builder_default = \<lparr>bb_buf = [], bb_offsets = []\<rparr>"

definition block_add :: "bytes \<Rightarrow> bytes \<Rightarrow> block_builder \<Rightarrow> block_builder" where
  "block_add ikey repr b =
     (let offsets = bb_offsets b @ [of_nat (length (bb_buf b))];
          buf = put_uvarint (bb_buf b) (of_nat (length ikey));
          buf = put_uvarint buf (of_nat (length repr));
          buf = buf @ ikey;
          buf = buf @ repr
      in \<lparr>bb_buf = buf, bb_offsets = offsets\<rparr>)"

definition block_builder_is_empty :: "block_builder \<Rightarrow> bool" where
  "block_builder_is_empty b \<longleftrightarrow> bb_offsets b = []"

definition block_size_estimate :: "block_builder \<Rightarrow> nat" where
  "block_size_estimate b = length (bb_buf b) + length (bb_offsets b) * 4 + 4"

definition block_finish :: "block_builder \<Rightarrow> bytes \<times> block_builder" where
  "block_finish b =
     (let out = foldl put_u32 (bb_buf b) (bb_offsets b);
          out = put_u32 out (of_nat (length (bb_offsets b)))
      in (out, \<lparr>bb_buf = [], bb_offsets = []\<rparr>))"

section \<open>Reading\<close>

record block =
  bk_data :: bytes
  bk_entries_end :: nat
  bk_count :: nat

definition block_new :: "bytes \<Rightarrow> block res" where
  "block_new data =
     (if length data < 4 then Err (corrupt ''block too small'')
      else
        let count = unat (from_le_bytes (drop (length data - 4) data) :: u32);
            array_len = count * 4 + 4
        in if 2 ^ 64 \<le> array_len then Err (corrupt ''block count overflow'')
           else if length data < array_len
           then Err (corrupt ''block offset array beyond payload'')
           else Ok \<lparr>bk_data = data, bk_entries_end = length data - array_len, bk_count = count\<rparr>)"

definition block_entry_off :: "block \<Rightarrow> nat \<Rightarrow> nat" where
  "block_entry_off b i =
     (let at = bk_entries_end b + i * 4
      in unat (from_le_bytes (take 4 (drop at (bk_data b))) :: u32))"

definition block_entry :: "block \<Rightarrow> nat \<Rightarrow> (bytes \<times> bytes) res" where
  "block_entry b i =
     (let off = block_entry_off b i
      in if bk_entries_end b \<le> off then Err (corrupt ''entry offset beyond entry region'')
         else
           rbind (reader_uvarint (reader_new (take (bk_entries_end b - off) (drop off (bk_data b)))))
             (\<lambda>(iklen, r).
           rbind (reader_uvarint r) (\<lambda>(rlen, r).
             if unat iklen < trailer_len then Err (corrupt ''internal key shorter than trailer'')
             else rbind (reader_bytes (unat iklen) r) (\<lambda>(ikey, r).
                  rbind (reader_bytes (unat rlen) r) (\<lambda>(repr, r). Ok (ikey, repr))))))"

function block_lower_bound_loop :: "block \<Rightarrow> bytes \<Rightarrow> nat \<Rightarrow> nat \<Rightarrow> nat res" where
  "block_lower_bound_loop b target lo hi =
     (if lo < hi
      then let mid = (lo + hi) div 2
           in rbind (block_entry b mid) (\<lambda>(k, _).
                if cmp_ikey k target = Less then block_lower_bound_loop b target (mid + 1) hi
                else block_lower_bound_loop b target lo mid)
      else Ok lo)"
  by pat_completeness auto
termination
  by (relation "measure (\<lambda>(b, target, lo, hi). hi - lo)") auto

declare block_lower_bound_loop.simps [simp del]

definition block_lower_bound :: "block \<Rightarrow> bytes \<Rightarrow> nat res" where
  "block_lower_bound b target = block_lower_bound_loop b target 0 (bk_count b)"

section \<open>The cursor over a block\<close>

record block_iter =
  bi_block :: block
  bi_pos :: nat

definition block_iter_new :: "block \<Rightarrow> block_iter" where
  "block_iter_new b = \<lparr>bi_block = b, bi_pos = bk_count b\<rparr>"

definition bi_seek_to_first :: "block_iter \<Rightarrow> block_iter res" where
  "bi_seek_to_first s = Ok (s\<lparr>bi_pos := 0\<rparr>)"

definition bi_seek_to_last :: "block_iter \<Rightarrow> block_iter res" where
  "bi_seek_to_last s =
     Ok (s\<lparr>bi_pos := if bk_count (bi_block s) = 0 then 0 else bk_count (bi_block s) - 1\<rparr>)"

definition bi_seek :: "bytes \<Rightarrow> block_iter \<Rightarrow> block_iter res" where
  "bi_seek ikey s = rbind (block_lower_bound (bi_block s) ikey) (\<lambda>lb. Ok (s\<lparr>bi_pos := lb\<rparr>))"

definition bi_step_back :: "nat \<Rightarrow> block_iter \<Rightarrow> block_iter" where
  "bi_step_back pos s = s\<lparr>bi_pos := if pos = 0 then bk_count (bi_block s) else pos - 1\<rparr>"

definition bi_seek_for_prev :: "bytes \<Rightarrow> block_iter \<Rightarrow> block_iter res" where
  "bi_seek_for_prev ikey s =
     rbind (block_lower_bound (bi_block s) ikey) (\<lambda>lb.
       if lb < bk_count (bi_block s)
       then rbind (block_entry (bi_block s) lb) (\<lambda>(k, _).
              if cmp_ikey k ikey = Equal then Ok (s\<lparr>bi_pos := lb\<rparr>)
              else Ok (bi_step_back lb s))
       else Ok (bi_step_back lb s))"

definition bi_valid :: "block_iter \<Rightarrow> bool" where
  "bi_valid s \<longleftrightarrow> bi_pos s < bk_count (bi_block s)"

definition bi_next :: "block_iter \<Rightarrow> block_iter res" where
  "bi_next s = Ok (s\<lparr>bi_pos := bi_pos s + 1\<rparr>)"

definition bi_prev :: "block_iter \<Rightarrow> block_iter res" where
  "bi_prev s = Ok (bi_step_back (bi_pos s) s)"

text \<open>\<open>ikey\<close> and \<open>value\<close> panic where the entry does not decode.\<close>

definition bi_entry :: "block_iter \<Rightarrow> bytes \<times> bytes" where
  "bi_entry s = (case block_entry (bi_block s) (bi_pos s) of Inr e \<Rightarrow> e | Inl _ \<Rightarrow> undefined)"

definition bi_ikey :: "block_iter \<Rightarrow> bytes" where "bi_ikey s = fst (bi_entry s)"
definition bi_value :: "block_iter \<Rightarrow> bytes" where "bi_value s = snd (bi_entry s)"

definition block_iter_ops :: "block_iter iter_ops" where
  "block_iter_ops = \<lparr>it_seek_to_first = bi_seek_to_first, it_seek_to_last = bi_seek_to_last,
     it_seek = bi_seek, it_seek_for_prev = bi_seek_for_prev, it_valid = bi_valid,
     it_next = bi_next, it_prev = bi_prev, it_ikey = bi_ikey, it_value = bi_value\<rparr>"

section \<open>What a block holds\<close>

text \<open>A sound block decodes at every index, to entries in order.\<close>

definition block_holds :: "block \<Rightarrow> entry list \<Rightarrow> bool" where
  "block_holds b es \<longleftrightarrow> bk_count b = length es \<and> (\<forall>i < length es. block_entry b i = Ok (es ! i))"

definition block_entries :: "block \<Rightarrow> entry list" where
  "block_entries b = map (\<lambda>i. case block_entry b i of Inr e \<Rightarrow> e | Inl _ \<Rightarrow> ([], [])) [0..<bk_count b]"

lemma block_holds_entries: "block_holds b es \<Longrightarrow> block_entries b = es"
  by (auto simp: block_holds_def block_entries_def intro!: nth_equalityI)

lemma block_lower_bound_loop_bsearch:
  "block_holds b es \<Longrightarrow> hi \<le> length es \<Longrightarrow>
   block_lower_bound_loop b target lo hi = Ok (bsearch (\<lambda>i. cmp_ikey (fst (es ! i)) target = Less) lo hi)"
proof (induction b target lo hi rule: block_lower_bound_loop.induct)
  case (1 b target lo hi)
  show ?case
  proof (cases "lo < hi")
    case False
    then show ?thesis
      by (subst block_lower_bound_loop.simps, subst bsearch.simps) simp
  next
    case True
    define mid where "mid = (lo + hi) div 2"
    have mid: "mid < hi" "mid < length es" using True "1.prems"(2) by (auto simp: mid_def)
    then have e: "block_entry b mid = Ok (es ! mid)" using "1.prems"(1) by (simp add: block_holds_def)
    obtain k v where kv: "es ! mid = (k, v)" by (cases "es ! mid")
    show ?thesis
    proof (cases "cmp_ikey k target = Less")
      case c: True
      have "block_lower_bound_loop b target (mid + 1) hi
          = Ok (bsearch (\<lambda>i. cmp_ikey (fst (es ! i)) target = Less) (mid + 1) hi)"
        using 1(1) [OF True mid_def e [unfolded kv] refl c] "1.prems" by blast
      then show ?thesis using True c e kv
        by (subst block_lower_bound_loop.simps, subst bsearch.simps)
          (simp add: Let_def mid_def [symmetric] del: cmp_ikey_simps)
    next
      case c: False
      have "block_lower_bound_loop b target lo mid
          = Ok (bsearch (\<lambda>i. cmp_ikey (fst (es ! i)) target = Less) lo mid)"
        using 1(2) [OF True mid_def e [unfolded kv] refl c] "1.prems" mid by simp
      then show ?thesis using True c e kv
        by (subst block_lower_bound_loop.simps, subst bsearch.simps)
          (simp add: Let_def mid_def [symmetric] del: cmp_ikey_simps)
    qed
  qed
qed

lemma entries_sorted_prefix_on:
  "entries_sorted es \<Longrightarrow> prefix_on (\<lambda>e. cmp_ikey (fst e) target = Less) es"
  unfolding entries_sorted_def prefix_on_def
  by (rule sorted_wrt_mono_rel) (auto elim: less_trans)

lemma block_lower_bound_holds:
  assumes "block_holds b es" and "entries_sorted es"
  shows "block_lower_bound b target = Ok (length (takeWhile (\<lambda>e. cmp_ikey (fst e) target = Less) es))"
  using assms bsearch_takeWhile [OF entries_sorted_prefix_on [OF assms(2), of target]]
  by (simp add: block_lower_bound_def block_lower_bound_loop_bsearch [OF assms(1)] block_holds_def
      del: cmp_ikey_simps)

section \<open>The cursor meets the contract\<close>

definition bi_inv :: "block_iter \<Rightarrow> bool" where
  "bi_inv s \<longleftrightarrow> (let es = block_entries (bi_block s) in block_holds (bi_block s) es \<and> entries_sorted es)"

definition bi_contents :: "block_iter \<Rightarrow> entry list" where
  "bi_contents s = block_entries (bi_block s)"

definition bi_forward :: "block_iter \<Rightarrow> entry list" where
  "bi_forward s = drop (bi_pos s) (bi_contents s)"

definition bi_backward :: "block_iter \<Rightarrow> entry list" where
  "bi_backward s = (if bi_valid s then rev (take (bi_pos s + 1) (bi_contents s)) else [])"

lemmas bi_defs = bi_inv_def bi_contents_def bi_valid_def block_iter_ops_def Let_def

lemma bi_inv_pos [simp]: "bi_inv (s\<lparr>bi_pos := i\<rparr>) = bi_inv s"
  "bi_contents (s\<lparr>bi_pos := i\<rparr>) = bi_contents s"
  by (simp_all add: bi_defs)

lemma bi_inv_count: "bi_inv s \<Longrightarrow> bk_count (bi_block s) = length (bi_contents s)"
  by (simp add: bi_defs block_holds_def)

lemma bi_inv_sorted: "bi_inv s \<Longrightarrow> entries_sorted (bi_contents s)"
  by (simp add: bi_defs)

lemma bi_inv_entry: "bi_inv s \<Longrightarrow> i < length (bi_contents s) \<Longrightarrow> block_entry (bi_block s) i = Ok (bi_contents s ! i)"
  by (simp add: bi_defs block_holds_def)

lemma bi_inv_lower_bound: "bi_inv s \<Longrightarrow> block_lower_bound (bi_block s) target
    = Ok (length (takeWhile (\<lambda>e. cmp_ikey (fst e) target = Less) (bi_contents s)))"
  unfolding bi_contents_def by (rule block_lower_bound_holds) (simp_all add: bi_defs)

lemma bi_entry_inv: "bi_inv s \<Longrightarrow> bi_pos s < length (bi_contents s) \<Longrightarrow> (bi_ikey s, bi_value s) = bi_contents s ! bi_pos s"
  by (simp add: bi_ikey_def bi_value_def bi_entry_def bi_inv_entry)

interpretation bif: forward_iterator block_iter_ops bi_inv bi_contents bi_forward
proof
  fix s e es ik
  assume s: "bi_inv s"
  show "entries_sorted (bi_contents s)" using s by (rule bi_inv_sorted)
  show "it_valid block_iter_ops s = (bi_forward s \<noteq> [])"
    using s bi_inv_count by (auto simp: block_iter_ops_def bi_valid_def bi_forward_def)
  show "moves bi_inv bi_contents bi_forward (it_seek_to_first block_iter_ops s) (bi_contents s) (bi_contents s)"
    using s by (simp add: block_iter_ops_def bi_seek_to_first_def bi_forward_def)
  show "moves bi_inv bi_contents bi_forward (it_seek block_iter_ops ik s) (bi_contents s) (from_key ik (bi_contents s))"
    using s by (simp add: block_iter_ops_def bi_seek_def bi_inv_lower_bound bi_forward_def from_key_def
        dropWhile_eq_drop)
  assume f: "bi_forward s = e # es"
  then have i: "bi_pos s < length (bi_contents s)" by (cases "bi_pos s < length (bi_contents s)") (simp_all add: bi_forward_def)
  with f have e: "e = bi_contents s ! bi_pos s" "es = drop (Suc (bi_pos s)) (bi_contents s)"
    by (simp_all add: bi_forward_def Cons_nth_drop_Suc [symmetric])
  show "(it_ikey block_iter_ops s, it_value block_iter_ops s) = e"
    using s i e by (simp add: block_iter_ops_def bi_entry_inv)
  show "moves bi_inv bi_contents bi_forward (it_next block_iter_ops s) (bi_contents s) es"
    using s e by (simp add: block_iter_ops_def bi_next_def bi_forward_def)
qed

lemma bi_step_back_moves:
  "bi_inv s \<Longrightarrow> i \<le> length (bi_contents s) \<Longrightarrow>
   moves bi_inv bi_contents bi_backward (Ok (bi_step_back i s)) (bi_contents s) (rev (take i (bi_contents s)))"
  using bi_inv_count [of s]
  by (auto simp: bi_step_back_def bi_backward_def bi_valid_def)

lemma takeWhile_le_sorted:
  assumes "entries_sorted es"
  shows "takeWhile (\<lambda>e. cmp_ikey (fst e) ik \<noteq> Greater) es =
    (let lb = length (takeWhile (\<lambda>e. cmp_ikey (fst e) ik = Less) es)
     in if lb < length es \<and> cmp_ikey (fst (es ! lb)) ik = Equal then take (Suc lb) es else take lb es)"
  using assms
proof (induction es)
  case (Cons e es)
  consider "vkey_of (fst e) < vkey_of ik" | "vkey_of (fst e) = vkey_of ik" | "vkey_of ik < vkey_of (fst e)"
    by (rule linorder_cases)
  then show ?case
  proof cases
    case 1
    then show ?thesis using Cons by (auto simp: Let_def)
  next
    case 2
    then have "takeWhile (\<lambda>e. cmp_ikey (fst e) ik \<noteq> Greater) es = []"
      using Cons.prems by (cases es) auto
    with 2 show ?thesis by (simp add: Let_def)
  next
    case 3
    then have "\<not> vkey_of (fst e) < vkey_of ik" "vkey_of (fst e) \<noteq> vkey_of ik" by auto
    with 3 show ?thesis by (simp add: Let_def)
  qed
qed simp

interpretation bir: reverse_iterator block_iter_ops bi_inv bi_contents bi_backward
proof
  fix s e es ik
  assume s: "bi_inv s"
  note c = bi_inv_count [OF s]
  show "entries_sorted (bi_contents s)" using s by (rule bi_inv_sorted)
  show "it_valid block_iter_ops s = (bi_backward s \<noteq> [])"
    using c by (auto simp: block_iter_ops_def bi_valid_def bi_backward_def)
  show "moves bi_inv bi_contents bi_backward (it_seek_to_last block_iter_ops s) (bi_contents s) (rev (bi_contents s))"
    using s c by (auto simp: block_iter_ops_def bi_seek_to_last_def bi_backward_def bi_valid_def)
  let ?lb = "length (takeWhile (\<lambda>e. cmp_ikey (fst e) ik = Less) (bi_contents s))"
  have lb: "?lb \<le> length (bi_contents s)" by (rule length_takeWhile_le)
  show "moves bi_inv bi_contents bi_backward (it_seek_for_prev block_iter_ops ik s) (bi_contents s) (upto_key ik (bi_contents s))"
  proof (cases "?lb < length (bi_contents s) \<and> cmp_ikey (fst (bi_contents s ! ?lb)) ik = Equal")
    case True
    then show ?thesis using s c
      by (simp add: block_iter_ops_def bi_seek_for_prev_def bi_inv_lower_bound bi_inv_entry split_def
          upto_key_def takeWhile_le_sorted [OF bi_inv_sorted [OF s]] bi_backward_def bi_valid_def Let_def
          del: cmp_ikey_simps)
  next
    case False
    then have "it_seek_for_prev block_iter_ops ik s = Ok (bi_step_back ?lb s)"
      using s c by (auto simp: block_iter_ops_def bi_seek_for_prev_def bi_inv_lower_bound bi_inv_entry split_def
          simp del: cmp_ikey_simps)
    moreover have "upto_key ik (bi_contents s) = rev (take ?lb (bi_contents s))"
      unfolding upto_key_def takeWhile_le_sorted [OF bi_inv_sorted [OF s]] Let_def using False by auto
    ultimately show ?thesis using bi_step_back_moves [OF s lb] by simp
  qed
  assume f: "bi_backward s = e # es"
  then have v: "bi_valid s" and i: "bi_pos s < length (bi_contents s)"
    using c by (auto simp: bi_backward_def bi_valid_def split: if_splits)
  have t: "take (bi_pos s + 1) (bi_contents s) = take (bi_pos s) (bi_contents s) @ [bi_contents s ! bi_pos s]"
    using i by (simp add: take_Suc_conv_app_nth)
  then have e: "e = bi_contents s ! bi_pos s" "es = rev (take (bi_pos s) (bi_contents s))"
    using f v by (simp_all add: bi_backward_def)
  show "(it_ikey block_iter_ops s, it_value block_iter_ops s) = e"
    using s i e by (simp add: block_iter_ops_def bi_entry_inv)
  show "moves bi_inv bi_contents bi_backward (it_prev block_iter_ops s) (bi_contents s) es"
    using bi_step_back_moves [OF s, of "bi_pos s"] i e by (simp add: block_iter_ops_def bi_prev_def)
qed

section \<open>What a builder wrote is what a block holds\<close>

definition enc_block_entry :: "entry \<Rightarrow> bytes" where
  "enc_block_entry e = uvarint (of_nat (length (fst e))) @ uvarint (of_nat (length (snd e))) @ fst e @ snd e"

abbreviation enc_block_entries :: "entry list \<Rightarrow> bytes" where
  "enc_block_entries es \<equiv> concat (map enc_block_entry es)"

abbreviation block_offsets :: "entry list \<Rightarrow> u32 list" where
  "block_offsets es \<equiv> map (\<lambda>i. of_nat (length (enc_block_entries (take i es)))) [0..<length es]"

definition block_add_all :: "entry list \<Rightarrow> block_builder \<Rightarrow> block_builder" where
  "block_add_all es b = fold (\<lambda>e. block_add (fst e) (snd e)) es b"

text \<open>The writer keeps blocks far below the 4 GiB its \<open>u32\<close> offsets can address.\<close>

definition block_ok :: "entry list \<Rightarrow> bool" where
  "block_ok es \<longleftrightarrow> list_all (\<lambda>e. ikey_wf (fst e)) es \<and> length (enc_block_entries es) < 2 ^ 32"

lemma block_add_all_default:
  "block_add_all es block_builder_default = \<lparr>bb_buf = enc_block_entries es, bb_offsets = block_offsets es\<rparr>"
proof (induction es rule: rev_induct)
  case Nil
  show ?case by (simp add: block_add_all_def block_builder_default_def)
next
  case (snoc e es)
  have "block_add_all (es @ [e]) block_builder_default
      = block_add (fst e) (snd e) (block_add_all es block_builder_default)"
    by (simp add: block_add_all_def)
  then show ?case
    by (simp add: snoc block_add_def enc_block_entry_def codec_simps Let_def)
qed

lemma foldl_put_u32: "foldl put_u32 out ws = out @ concat (map (le_bytes 4) ws)"
  by (induction ws arbitrary: out) (simp_all add: put_u32_def)

lemma nth_concat_u32:
  "i < length ws \<Longrightarrow> take 4 (drop (i * 4) (concat (map (le_bytes 4) ws) @ us)) = le_bytes 4 (ws ! i)"
proof (induction ws arbitrary: i)
  case (Cons w ws)
  then show ?case by (cases i) simp_all
qed simp

lemma length_concat_u32: "length (concat (map (le_bytes 4) ws)) = length ws * 4"
  by (induction ws) simp_all

lemma enc_block_entries_split:
  assumes "i < length es"
  shows "enc_block_entries es
    = enc_block_entries (take i es) @ enc_block_entry (es ! i) @ enc_block_entries (drop (Suc i) es)"
  using assms by (subst id_take_nth_drop [OF assms]) simp

lemma length_enc_block_entry: "2 + length (fst e) + length (snd e) \<le> length (enc_block_entry e)"
proof -
  have "1 \<le> length (uvarint v)" for v by (cases "uvarint v") auto
  from add_mono [OF this [of "of_nat (length (fst e))"] this [of "of_nat (length (snd e))"]]
  show ?thesis by (simp add: enc_block_entry_def)
qed

lemma length_le_enc_block_entries: "length es * 2 \<le> length (enc_block_entries es)"
proof (induction es)
  case (Cons e es)
  then show ?case using length_enc_block_entry [of e] by simp
qed simp

lemma take_drop_suffix: "xs = as @ bs \<Longrightarrow> take (length xs - length as) (drop (length as) (xs @ ys)) = bs"
  by simp

lemma read_block_entry:
  assumes e: "ikey_wf (fst e)" "length (enc_block_entry e) < 2 ^ 32"
    and r: "reader_rest r = enc_block_entry e @ us"
  shows "rbind (reader_uvarint r) (\<lambda>(iklen, r). rbind (reader_uvarint r) (\<lambda>(rlen, r).
      if unat iklen < trailer_len then Err (corrupt ''internal key shorter than trailer'')
      else rbind (reader_bytes (unat iklen) r) (\<lambda>(ikey, r).
           rbind (reader_bytes (unat rlen) r) (\<lambda>(repr, r). Ok (ikey, repr))))) = Ok e"
proof -
  let ?k = "of_nat (length (fst e)) :: u64" and ?v = "of_nat (length (snd e)) :: u64"
  have "length (fst e) < 2 ^ 32" "length (snd e) < 2 ^ 32"
    using e(2) length_enc_block_entry [of e] by linarith+
  then have k: "unat ?k = length (fst e)" "unat ?v = length (snd e)"
    by (simp_all add: unat_of_nat)
  have "reader_rest r = uvarint ?k @ uvarint ?v @ fst e @ snd e @ us"
    using r by (simp add: enc_block_entry_def)
  then obtain r1 where r1: "reader_uvarint r = Ok (?k, r1)" "reader_rest r1 = uvarint ?v @ fst e @ snd e @ us"
    using uvarintc.dec_enc_rest by blast
  then obtain r2 where r2: "reader_uvarint r1 = Ok (?v, r2)" "reader_rest r2 = fst e @ snd e @ us"
    using uvarintc.dec_enc_rest by blast
  show ?thesis using r1(1) r2 k e(1)
    by (simp add: reader_bytes_rest reader_rest_advance ikey_wf_def)
qed

lemma block_of_payload:
  assumes ok: "block_ok es"
  defines "payload \<equiv> enc_block_entries es @ concat (map (le_bytes 4) (block_offsets es))
      @ le_bytes 4 (of_nat (length es) :: u32)"
  shows "\<exists>b. block_new payload = Ok b \<and> block_holds b es"
proof -
  let ?ee = "length (enc_block_entries es)"
  let ?b = "\<lparr>bk_data = payload, bk_entries_end = ?ee, bk_count = length es\<rparr>"
  have small: "?ee < 2 ^ 32" using ok by (simp add: block_ok_def)
  then have n: "length es < 2 ^ 32" using length_le_enc_block_entries [of es] by linarith
  then have cnt: "unat (of_nat (length es) :: u32) = length es" by (simp add: unat_of_nat)
  have len: "length payload = ?ee + length es * 4 + 4"
    by (simp add: payload_def length_concat_u32 del: map_map)
  have "drop (length payload - 4) payload = le_bytes 4 (of_nat (length es) :: u32)"
    unfolding len by (simp add: payload_def length_concat_u32 del: map_map)
  with cnt n len have new: "block_new payload = Ok ?b"
    by (simp add: block_new_def Let_def)
  have "block_entry ?b i = Ok (es ! i)" if i: "i < length es" for i
  proof -
    let ?off = "length (enc_block_entries (take i es))"
    note split = enc_block_entries_split [OF i]
    have "0 < length (enc_block_entry (es ! i))" using length_enc_block_entry [of "es ! i"] by linarith
    with arg_cong [OF split, of length] have off_lt: "?off < ?ee"
      by (simp only: length_append)
    have "take 4 (drop (?ee + i * 4) payload) = le_bytes 4 (block_offsets es ! i)"
      using nth_concat_u32 [of i "block_offsets es" "le_bytes 4 (of_nat (length es) :: u32)"] i
      by (simp add: payload_def)
    then have off: "block_entry_off ?b i = ?off"
      using i off_lt small by (simp add: block_entry_off_def Let_def unat_of_nat)
    have rest: "take (?ee - ?off) (drop ?off payload)
        = enc_block_entry (es ! i) @ enc_block_entries (drop (Suc i) es)"
      unfolding payload_def by (rule take_drop_suffix [OF split])
    have "length (enc_block_entry (es ! i)) < 2 ^ 32"
      using arg_cong [OF split, of length] small by simp
    moreover have "ikey_wf (fst (es ! i))" using ok i by (simp add: block_ok_def list_all_length)
    ultimately show ?thesis
      using read_block_entry [of "es ! i" "reader_new (take (?ee - ?off) (drop ?off payload))"] off off_lt rest
      by (simp add: block_entry_def)
  qed
  then have "block_holds ?b es" by (simp add: block_holds_def)
  with new show ?thesis by blast
qed

lemma block_finish_payload:
  "fst (block_finish (block_add_all es block_builder_default))
    = enc_block_entries es @ concat (map (le_bytes 4) (block_offsets es)) @ le_bytes 4 (of_nat (length es) :: u32)"
  unfolding block_add_all_default by (simp add: block_finish_def foldl_put_u32 put_u32_def Let_def)

lemma block_ok_sample: "block_ok [(make_ikey [107] 9 Put, [1]), (make_ikey [108] 5 Delete, [])]"
proof -
  have "length (enc_block_entry e) \<le> 20 + length (fst e) + length (snd e)" for e
    using add_mono [OF length_uvarint_le_10 [of "of_nat (length (fst e))"]
        length_uvarint_le_10 [of "of_nat (length (snd e))"]]
    by (simp add: enc_block_entry_def)
  from add_mono [OF this [of "(make_ikey [107] 9 Put, [1])"] this [of "(make_ikey [108] 5 Delete, [])"]]
  show ?thesis by (simp add: block_ok_def key_simps) (simp add: make_ikey_def)
qed

section \<open>Properties\<close>

text \<open>
  the block built from entries parses, and decodes at every index to the entry that was
  added there.
\<close>

theorem block_roundtrip:
  assumes "block_ok es"
  shows "\<exists>b. block_new (fst (block_finish (block_add_all es block_builder_default))) = Ok b
    \<and> bk_count b = length es \<and> (\<forall>i < length es. block_entry b i = Ok (es ! i))"
  using block_of_payload [OF assms] by (auto simp: block_finish_payload block_holds_def)

theorem block_roundtrip_witness:
  "\<exists>b. block_new (fst (block_finish (block_add_all
        [(make_ikey [107] 9 Put, [1]), (make_ikey [108] 5 Delete, [])] block_builder_default))) = Ok b
    \<and> bk_count b = length [(make_ikey [107] 9 Put, [1 :: u8]), (make_ikey [108] 5 Delete, [])]
    \<and> (\<forall>i < length [(make_ikey [107] 9 Put, [1 :: u8]), (make_ikey [108] 5 Delete, [])].
         block_entry b i = Ok ([(make_ikey [107] 9 Put, [1]), (make_ikey [108] 5 Delete, [])] ! i))"
  by (rule block_roundtrip) (rule block_ok_sample)

text \<open>
  C29: the binary search of a sorted block finds the first entry at or after the target, for
  every target, the end included.
\<close>

theorem block_lower_bound_first:
  assumes "block_holds b es" and "entries_sorted es"
  shows "\<exists>i \<le> length es. block_lower_bound b target = Ok i
    \<and> (\<forall>j < i. cmp_ikey (fst (es ! j)) target = Less)
    \<and> (\<forall>j. i \<le> j \<and> j < length es \<longrightarrow> cmp_ikey (fst (es ! j)) target \<noteq> Less)"
  using takeWhile_partition_point [OF entries_sorted_prefix_on [OF assms(2), of target]]
  by (auto simp: block_lower_bound_holds [OF assms] is_partition_point_def simp del: cmp_ikey_simps)

theorem block_lower_bound_first_witness:
  "\<exists>b. \<exists>i \<le> length [(make_ikey [107] 9 Put, [1 :: u8]), (make_ikey [108] 5 Delete, [])].
    block_lower_bound b (make_seek_ikey [108] 7) = Ok i
    \<and> (\<forall>j < i. cmp_ikey (fst ([(make_ikey [107] 9 Put, [1 :: u8]), (make_ikey [108] 5 Delete, [])] ! j))
          (make_seek_ikey [108] 7) = Less)
    \<and> (\<forall>j. i \<le> j \<and> j < length [(make_ikey [107] 9 Put, [1 :: u8]), (make_ikey [108] 5 Delete, [])]
          \<longrightarrow> cmp_ikey (fst ([(make_ikey [107] 9 Put, [1 :: u8]), (make_ikey [108] 5 Delete, [])] ! j))
            (make_seek_ikey [108] 7) \<noteq> Less)"
proof -
  let ?es = "[(make_ikey [107] 9 Put, [1]), (make_ikey [108] 5 Delete, [])]"
  obtain b where "block_holds b ?es" using block_of_payload [OF block_ok_sample] by blast
  moreover have "entries_sorted ?es" by (simp add: less_vkey_def key_simps max_seqno_val)
  ultimately show ?thesis by (intro exI [of _ b]) (rule block_lower_bound_first)
qed

end
