(* ===== verification/Bloom.thy ===== *)
theory Bloom
  imports Prelude
begin

text \<open>
  \<open>crates/fluent31/src/bloom.rs\<close>: the per-table filter over user keys, \<open>[k u8][bitmap]\<close>,
  probed by double hashing.
\<close>

definition fnv_step :: "u64 \<Rightarrow> u8 \<Rightarrow> u64" where
  "fnv_step h b = (h XOR ucast b) * 0x100000001b3"

definition hash64 :: "bytes \<Rightarrow> u64" where
  "hash64 key =
     (let h = foldl fnv_step 0xcbf29ce484222325 key;
          h = h XOR drop_bit 33 h;
          h = h * 0xff51afd7ed558ccd;
          h = h XOR drop_bit 33 h;
          h = h * 0xc4ceb9fe1a85ec53;
          h = h XOR drop_bit 33 h
      in h)"

text \<open>
  \<open>((bits_per_key as f64) * 0.69) as usize\<close> clamped to 1..30: below 44 the double product
  never reaches an integer, so truncating it is the integer quotient; from 44 on both clamp
  to 30.
\<close>

definition bloom_k :: "nat \<Rightarrow> nat" where
  "bloom_k bits_per_key = max 1 (min 30 (bits_per_key * 69 div 100))"

definition bloom_nbytes :: "nat \<Rightarrow> nat \<Rightarrow> nat" where
  "bloom_nbytes n_hashes bits_per_key = (max (max n_hashes 1 * bits_per_key) 64 + 7) div 8"

definition bloom_delta :: "u64 \<Rightarrow> u64" where
  "bloom_delta h = drop_bit 33 h OR 1"

definition bloom_bit :: "u64 \<Rightarrow> nat \<Rightarrow> nat" where
  "bloom_bit g nbits = unat (g mod (of_nat nbits :: u64))"

fun bloom_set :: "nat \<Rightarrow> u64 \<Rightarrow> u64 \<Rightarrow> nat \<Rightarrow> bytes \<Rightarrow> bytes" where
  "bloom_set 0 g delta nbits out = out"
| "bloom_set (Suc k) g delta nbits out =
     (let i = bloom_bit g nbits;
          out = out[1 + i div 8 := out ! (1 + i div 8) OR push_bit (i mod 8) 1]
      in bloom_set k (g + delta) delta nbits out)"

definition bloom_build :: "u64 list \<Rightarrow> nat \<Rightarrow> bytes" where
  "bloom_build hashes bits_per_key =
     (let nbytes = bloom_nbytes (length hashes) bits_per_key;
          nbits = nbytes * 8;
          k = bloom_k bits_per_key;
          out = of_nat k # replicate nbytes 0
      in foldl (\<lambda>out h. bloom_set k h (bloom_delta h) nbits out) out hashes)"

fun bloom_probe :: "nat \<Rightarrow> u64 \<Rightarrow> u64 \<Rightarrow> nat \<Rightarrow> bytes \<Rightarrow> bool" where
  "bloom_probe 0 g delta nbits bitmap = True"
| "bloom_probe (Suc k) g delta nbits bitmap =
     (let i = bloom_bit g nbits
      in if bitmap ! (i div 8) AND push_bit (i mod 8) 1 = 0 then False
         else bloom_probe k (g + delta) delta nbits bitmap)"

definition may_contain :: "bytes \<Rightarrow> u64 \<Rightarrow> bool" where
  "may_contain filt h =
     (if length filt < 2 then True
      else let k = unat (filt ! 0)
           in if 30 < k then True
              else let bitmap = drop 1 filt;
                       nbits = length bitmap * 8
                   in bloom_probe k h (bloom_delta h) nbits bitmap)"

section \<open>Bits are only ever set\<close>

definition bit_in :: "bytes \<Rightarrow> nat \<Rightarrow> bool" where
  "bit_in out i \<longleftrightarrow> bit (out ! (1 + i div 8)) (i mod 8)"

definition grows :: "bytes \<Rightarrow> bytes \<Rightarrow> bool" where
  "grows out out' \<longleftrightarrow> length out' = length out \<and> out' ! 0 = out ! 0 \<and> (\<forall>i. bit_in out i \<longrightarrow> bit_in out' i)"

lemma grows_refl [simp]: "grows out out"
  by (simp add: grows_def)

lemma grows_trans: "grows a b \<Longrightarrow> grows b c \<Longrightarrow> grows a c"
  by (simp add: grows_def)

lemma grows_set: "j \<noteq> 0 \<Longrightarrow> grows out (out[j := out ! j OR m])"
  by (cases "j < length out")
    (auto simp: grows_def bit_in_def nth_list_update bit_simps list_update_beyond)

lemma bloom_set_grows: "grows out (bloom_set k g delta nbits out)"
proof (induction k arbitrary: g out)
  case (Suc k)
  show ?case
    unfolding bloom_set.simps Let_def by (rule grows_trans [OF grows_set Suc.IH]) simp
qed simp

text \<open>The positions a probe sequence visits.\<close>

fun probes :: "nat \<Rightarrow> u64 \<Rightarrow> u64 \<Rightarrow> nat \<Rightarrow> nat list" where
  "probes 0 g delta nbits = []"
| "probes (Suc k) g delta nbits = bloom_bit g nbits # probes k (g + delta) delta nbits"

lemma bloom_probe_probes:
  "bloom_probe k g delta nbits (drop 1 out) \<longleftrightarrow> (\<forall>i \<in> set (probes k g delta nbits). bit_in out i)"
  if "length out = 1 + nbits div 8" "0 < nbits" "nbits < 2 ^ 64" "8 dvd nbits"
  by (induction k arbitrary: g) (use that in \<open>auto simp: Let_def and_exp_eq_0_iff_not_bit bit_in_def\<close>)

lemma bloom_bit_less: "0 < nbits \<Longrightarrow> nbits < 2 ^ 64 \<Longrightarrow> bloom_bit g nbits < nbits"
proof -
  assume a: "0 < nbits" "nbits < 2 ^ 64"
  then have u: "unat (of_nat nbits :: u64) = nbits" by (simp add: unat_of_nat)
  with a show ?thesis unfolding bloom_bit_def by (simp add: unat_mod_distrib)
qed

lemma bloom_set_sets:
  assumes "length out = 1 + nbits div 8" "0 < nbits" "nbits < 2 ^ 64" "8 dvd nbits"
    and "i \<in> set (probes k g delta nbits)"
  shows "bit_in (bloom_set k g delta nbits out) i"
  using assms
proof (induction k arbitrary: g out)
  case (Suc k)
  let ?i = "bloom_bit g nbits"
  let ?out = "out[1 + ?i div 8 := out ! (1 + ?i div 8) OR push_bit (?i mod 8) 1]"
  show ?case
  proof (cases "i \<in> set (probes k (g + delta) delta nbits)")
    case True
    with Suc show ?thesis by (simp add: Let_def)
  next
    case False
    with Suc.prems have i: "i = ?i" by simp
    have "?i div 8 < nbits div 8"
      using bloom_bit_less [of nbits g] Suc.prems by (simp add: less_mult_imp_div_less)
    then have "bit_in ?out i" using Suc.prems by (simp add: i bit_in_def bit_simps)
    then show ?thesis
      using bloom_set_grows [of ?out k "g + delta" delta nbits] by (simp add: Let_def grows_def)
  qed
qed simp

lemma foldl_grows:
  "(\<And>out h. grows out (f out h)) \<Longrightarrow> grows out (foldl f out hs)"
  by (induction hs arbitrary: out) (auto intro: grows_trans)

lemma bloom_fold_sets:
  assumes "length out = 1 + nbits div 8" "0 < nbits" "nbits < 2 ^ 64" "8 dvd nbits"
    and "h \<in> set hs" and "i \<in> set (probes k h (bloom_delta h) nbits)"
  shows "bit_in (foldl (\<lambda>out h. bloom_set k h (bloom_delta h) nbits out) out hs) i"
  using assms
proof (induction hs arbitrary: out)
  case (Cons x hs)
  let ?out = "bloom_set k x (bloom_delta x) nbits out"
  have len: "length ?out = 1 + nbits div 8"
    using bloom_set_grows [of out k x "bloom_delta x" nbits] Cons.prems by (simp add: grows_def)
  show ?case
  proof (cases "h \<in> set hs")
    case True
    with Cons len show ?thesis by simp
  next
    case False
    with Cons.prems have "bit_in ?out i" using bloom_set_sets [of out nbits i k x] by auto
    then show ?thesis
      using foldl_grows [of "\<lambda>out h. bloom_set k h (bloom_delta h) nbits out" ?out hs, OF bloom_set_grows]
      by (simp add: grows_def)
  qed
qed simp

lemma bloom_nbytes_mono: "n \<le> m \<Longrightarrow> bloom_nbytes n bits \<le> bloom_nbytes m bits"
proof -
  assume "n \<le> m"
  then have "max n 1 * bits \<le> max m 1 * bits" by (intro mult_le_mono1) simp
  from max.mono [OF this order_refl, of 64] show ?thesis
    unfolding bloom_nbytes_def by (intro div_le_mono add_right_mono)
qed

section \<open>Properties\<close>

lemma length_bloom_build: "length (bloom_build hs bits) = 1 + bloom_nbytes (length hs) bits"
proof -
  have "grows out (foldl (\<lambda>out h. bloom_set k h (bloom_delta h) nb out) out hs)" for out k nb
    by (rule foldl_grows) (rule bloom_set_grows)
  then show ?thesis by (simp add: bloom_build_def Let_def grows_def)
qed

lemma bloom_no_false_negative:
  assumes "h \<in> set hashes" and size: "bloom_nbytes (length hashes) bits_per_key * 8 < 2 ^ 64"
  shows "may_contain (bloom_build hashes bits_per_key) h"
proof -
  define nbytes nbits k where d: "nbytes = bloom_nbytes (length hashes) bits_per_key"
    "nbits = nbytes * 8" "k = bloom_k bits_per_key"
  let ?step = "\<lambda>out h. bloom_set k h (bloom_delta h) nbits out"
  let ?init = "of_nat k # replicate nbytes 0"
  let ?out = "foldl ?step ?init hashes"
  have nb: "8 \<le> nbytes" by (simp add: d bloom_nbytes_def)
  have k: "k \<le> 30" by (simp add: d bloom_k_def)
  have g: "grows ?init ?out" by (rule foldl_grows) (rule bloom_set_grows)
  then have len: "length ?out = 1 + nbytes" and k0: "?out ! 0 = of_nat k" by (simp_all add: grows_def)
  from k have uk: "unat (of_nat k :: u8) = k" by (simp add: unat_of_nat)
  have "bit_in ?out i" if "i \<in> set (probes k h (bloom_delta h) nbits)" for i
    using that assms nb by (intro bloom_fold_sets) (auto simp: d)
  then have "bloom_probe k h (bloom_delta h) nbits (drop 1 ?out)"
    using size nb len by (subst bloom_probe_probes) (auto simp: d)
  moreover have "bloom_build hashes bits_per_key = ?out" by (simp add: bloom_build_def d Let_def)
  ultimately show ?thesis
    using nb len k k0 uk by (simp add: may_contain_def d Let_def mult.commute)
qed

text \<open>
  C22: the filter has no false negatives: every key that was hashed into it may be contained,
  whatever the probe count and the number of keys.
\<close>

theorem bloom_complete:
  assumes "key \<in> set keys" and "bloom_nbytes (length keys) bits_per_key * 8 < 2 ^ 64"
  shows "may_contain (bloom_build (map hash64 keys) bits_per_key) (hash64 key)"
  using assms by (intro bloom_no_false_negative) auto

theorem bloom_complete_witness:
  "may_contain (bloom_build (map hash64 [[1, 2], [3]]) 10) (hash64 [3])"
  by (rule bloom_complete) (simp_all add: bloom_nbytes_def)

end
