(* ===== verification/Cache.thy ===== *)
theory Cache
  imports Prelude
begin

text \<open>
  \<open>crates/fluent31/src/cache.rs\<close>: the sharded LRU block cache. A shard threads a doubly
  linked list through a vector of nodes; it is shown to implement the list specification of
  an LRU cache, and the interface the readers use is the locale \<open>value_cache\<close>.
  \<open>NIL\<close> (\<open>usize::MAX\<close>, which is never an index of a vector) is \<open>None\<close>.
\<close>

type_synonym cache_key = "u64 \<times> u64"

record cache_node =
  cn_key :: cache_key
  cn_val :: bytes
  cn_prev :: "nat option"
  cn_next :: "nat option"

record shard =
  sh_map :: "cache_key \<Rightarrow> nat option"
  sh_nodes :: "cache_node list"
  sh_free :: "nat list"
  sh_head :: "nat option"
  sh_tail :: "nat option"
  sh_bytes :: nat
  sh_cap :: nat

definition shard_new :: "nat \<Rightarrow> shard" where
  "shard_new cap = \<lparr>sh_map = (\<lambda>_. None), sh_nodes = [], sh_free = [], sh_head = None,
     sh_tail = None, sh_bytes = 0, sh_cap = cap\<rparr>"

definition set_prev :: "nat \<Rightarrow> nat option \<Rightarrow> cache_node list \<Rightarrow> cache_node list" where
  "set_prev i p ns = ns[i := (ns ! i)\<lparr>cn_prev := p\<rparr>]"

definition set_next :: "nat \<Rightarrow> nat option \<Rightarrow> cache_node list \<Rightarrow> cache_node list" where
  "set_next i n ns = ns[i := (ns ! i)\<lparr>cn_next := n\<rparr>]"

definition set_val :: "nat \<Rightarrow> bytes \<Rightarrow> cache_node list \<Rightarrow> cache_node list" where
  "set_val i v ns = ns[i := (ns ! i)\<lparr>cn_val := v\<rparr>]"

definition shard_unlink :: "nat \<Rightarrow> shard \<Rightarrow> shard" where
  "shard_unlink i s =
     (let p = cn_prev (sh_nodes s ! i);
          n = cn_next (sh_nodes s ! i);
          s = (case p of Some p \<Rightarrow> s\<lparr>sh_nodes := set_next p n (sh_nodes s)\<rparr> | None \<Rightarrow> s\<lparr>sh_head := n\<rparr>);
          s = (case n of Some n \<Rightarrow> s\<lparr>sh_nodes := set_prev n p (sh_nodes s)\<rparr> | None \<Rightarrow> s\<lparr>sh_tail := p\<rparr>)
      in s\<lparr>sh_nodes := set_next i None (set_prev i None (sh_nodes s))\<rparr>)"

definition shard_push_front :: "nat \<Rightarrow> shard \<Rightarrow> shard" where
  "shard_push_front i s =
     (let s = s\<lparr>sh_nodes := set_next i (sh_head s) (set_prev i None (sh_nodes s))\<rparr>;
          s = (case sh_head s of Some h \<Rightarrow> s\<lparr>sh_nodes := set_prev h (Some i) (sh_nodes s)\<rparr> | None \<Rightarrow> s);
          s = s\<lparr>sh_head := Some i\<rparr>
      in if sh_tail s = None then s\<lparr>sh_tail := Some i\<rparr> else s)"

definition shard_get :: "cache_key \<Rightarrow> shard \<Rightarrow> bytes option \<times> shard" where
  "shard_get key s =
     (case sh_map s key of
        None \<Rightarrow> (None, s)
      | Some i \<Rightarrow>
          let s = shard_push_front i (shard_unlink i s)
          in (Some (cn_val (sh_nodes s ! i)), s))"

definition shard_evict_one :: "nat \<Rightarrow> shard \<Rightarrow> shard" where
  "shard_evict_one victim s =
     (let s = s\<lparr>sh_bytes := sh_bytes s - length (cn_val (sh_nodes s ! victim))\<rparr>;
          s = s\<lparr>sh_map := (sh_map s)(cn_key (sh_nodes s ! victim) := None)\<rparr>;
          s = shard_unlink victim s;
          s = s\<lparr>sh_nodes := set_val victim [] (sh_nodes s)\<rparr>
      in s\<lparr>sh_free := sh_free s @ [victim]\<rparr>)"

text \<open>The eviction loop; every round takes a node off the list, so as many rounds as there
  are nodes are enough.\<close>

fun shard_evict :: "nat \<Rightarrow> shard \<Rightarrow> shard" where
  "shard_evict 0 s = s"
| "shard_evict (Suc fuel) s =
     (case sh_tail s of
        None \<Rightarrow> s
      | Some victim \<Rightarrow>
          if sh_cap s < sh_bytes s
          then if Some victim = sh_head s then s else shard_evict fuel (shard_evict_one victim s)
          else s)"

text \<open>A node for a new entry: a freed slot if there is one.\<close>

definition shard_alloc :: "cache_node \<Rightarrow> shard \<Rightarrow> nat \<times> shard" where
  "shard_alloc node s =
     (if sh_free s \<noteq> []
      then (last (sh_free s), s\<lparr>sh_free := butlast (sh_free s), sh_nodes := (sh_nodes s)[last (sh_free s) := node]\<rparr>)
      else (length (sh_nodes s), s\<lparr>sh_nodes := sh_nodes s @ [node]\<rparr>))"

definition shard_insert :: "cache_key \<Rightarrow> bytes \<Rightarrow> shard \<Rightarrow> shard" where
  "shard_insert key val s =
     (let s = (case sh_map s key of
          Some i \<Rightarrow>
            let s = s\<lparr>sh_bytes := sh_bytes s - length (cn_val (sh_nodes s ! i)) + length val\<rparr>;
                s = s\<lparr>sh_nodes := set_val i val (sh_nodes s)\<rparr>
            in shard_push_front i (shard_unlink i s)
        | None \<Rightarrow>
            let (i, s) = shard_alloc \<lparr>cn_key = key, cn_val = val, cn_prev = None, cn_next = None\<rparr> s;
                s = s\<lparr>sh_bytes := sh_bytes s + length (cn_val (sh_nodes s ! i))\<rparr>;
                s = s\<lparr>sh_map := (sh_map s)(key \<mapsto> i)\<rparr>
            in shard_push_front i s)
      in shard_evict (length (sh_nodes s)) s)"

record block_cache =
  bc_shards :: "shard list"
  bc_hits :: u64
  bc_misses :: u64

definition cache_new :: "nat \<Rightarrow> block_cache" where
  "cache_new capacity =
     \<lparr>bc_shards = replicate 16 (shard_new (max (capacity div 16) 1024)), bc_hits = 0, bc_misses = 0\<rparr>"

definition shard_of :: "cache_key \<Rightarrow> nat" where
  "shard_of key = unat ((fst key * 0x9e3779b97f4a7c15) XOR snd key) mod 16"

definition cache_get :: "u64 \<Rightarrow> u64 \<Rightarrow> block_cache \<Rightarrow> bytes option \<times> block_cache" where
  "cache_get file off c =
     (let key = (file, off);
          (got, s) = shard_get key (bc_shards c ! shard_of key);
          c = c\<lparr>bc_shards := (bc_shards c)[shard_of key := s]\<rparr>
      in (got, case got of Some _ \<Rightarrow> c\<lparr>bc_hits := bc_hits c + 1\<rparr> | None \<Rightarrow> c\<lparr>bc_misses := bc_misses c + 1\<rparr>))"

definition cache_insert :: "u64 \<Rightarrow> u64 \<Rightarrow> bytes \<Rightarrow> block_cache \<Rightarrow> block_cache" where
  "cache_insert file off val c =
     (let key = (file, off)
      in c\<lparr>bc_shards := (bc_shards c)[shard_of key := shard_insert key val (bc_shards c ! shard_of key)]\<rparr>)"

definition cache_hit_rate :: "block_cache \<Rightarrow> u64 \<times> u64" where
  "cache_hit_rate c = (bc_hits c, bc_misses c)"

section \<open>The specification: a list, most recently used first\<close>

type_synonym lru = "(cache_key \<times> bytes) list"

definition lru_bytes :: "lru \<Rightarrow> nat" where
  "lru_bytes es = sum_list (map (length \<circ> snd) es)"

definition lru_touch :: "cache_key \<Rightarrow> bytes \<Rightarrow> lru \<Rightarrow> lru" where
  "lru_touch k v es = (k, v) # filter (\<lambda>e. fst e \<noteq> k) es"

definition lru_get :: "cache_key \<Rightarrow> lru \<Rightarrow> bytes option \<times> lru" where
  "lru_get k es = (case map_of es k of None \<Rightarrow> (None, es) | Some v \<Rightarrow> (Some v, lru_touch k v es))"

text \<open>Evict from the back until the budget is met, never the front entry.\<close>

function lru_evict :: "nat \<Rightarrow> lru \<Rightarrow> lru" where
  "lru_evict cap es =
     (if cap < lru_bytes es \<and> 1 < length es then lru_evict cap (butlast es) else es)"
  by pat_completeness auto
termination by (relation "measure (\<lambda>(cap, es). length es)") auto

declare lru_evict.simps [simp del]

definition lru_insert :: "nat \<Rightarrow> cache_key \<Rightarrow> bytes \<Rightarrow> lru \<Rightarrow> lru" where
  "lru_insert cap k v es = lru_evict cap (lru_touch k v es)"

lemma lru_evict_prefix: "\<exists>zs. es = lru_evict cap es @ zs"
proof (induction cap es rule: lru_evict.induct)
  case (1 cap es)
  show ?case
  proof (cases "cap < lru_bytes es \<and> 1 < length es")
    case True
    with 1 obtain zs where "butlast es = lru_evict cap (butlast es) @ zs" by blast
    moreover have "es = butlast es @ [last es]" using True by (cases es rule: rev_cases) auto
    ultimately have "es = lru_evict cap es @ zs @ [last es]"
      using True by (subst lru_evict.simps) (simp, metis append_assoc)
    then show ?thesis by blast
  next
    case False
    then show ?thesis by (subst lru_evict.simps) auto
  qed
qed

lemma lru_evict_nonempty: "es \<noteq> [] \<Longrightarrow> lru_evict cap es \<noteq> []"
proof (induction cap es rule: lru_evict.induct)
  case (1 cap es)
  show ?case
  proof (cases "cap < lru_bytes es \<and> 1 < length es")
    case True
    then have "butlast es \<noteq> []" by (cases es rule: rev_cases) auto
    with True 1 show ?thesis by (subst lru_evict.simps) simp
  next
    case False
    with 1 show ?thesis by (subst lru_evict.simps) auto
  qed
qed

lemma lru_evict_bound: "lru_bytes (lru_evict cap es) \<le> cap \<or> length (lru_evict cap es) \<le> 1"
  by (induction cap es rule: lru_evict.induct) (subst (1 2) lru_evict.simps, auto)

section \<open>The linked list\<close>

definition hd_or :: "nat option \<Rightarrow> nat list \<Rightarrow> nat option" where
  "hd_or n xs = (case xs of [] \<Rightarrow> n | x # _ \<Rightarrow> Some x)"

definition last_or :: "nat option \<Rightarrow> nat list \<Rightarrow> nat option" where
  "last_or p xs = (if xs = [] then p else Some (last xs))"

fun chain :: "cache_node list \<Rightarrow> nat option \<Rightarrow> nat list \<Rightarrow> nat option \<Rightarrow> bool" where
  "chain ns p [] n = True"
| "chain ns p (x # xs) n =
     (x < length ns \<and> cn_prev (ns ! x) = p \<and> cn_next (ns ! x) = hd_or n xs \<and> chain ns (Some x) xs n)"

lemma hd_or_simps [simp]: "hd_or n [] = n" "hd_or n (x # xs) = Some x"
  "hd_or n (xs @ ys) = hd_or (hd_or n ys) xs"
  by (auto simp: hd_or_def split: list.splits)

lemma last_or_simps [simp]: "last_or p [] = p" "last_or p (xs @ [x]) = Some x"
  "last_or p (x # xs) = last_or (Some x) xs" "last_or p (xs @ ys) = last_or (last_or p xs) ys"
  by (auto simp: last_or_def)

lemma chain_append: "chain ns p (xs @ ys) n \<longleftrightarrow> chain ns p xs (hd_or n ys) \<and> chain ns (last_or p xs) ys n"
  by (induction xs arbitrary: p) auto

lemma upd_fields [simp]:
  "cn_key (set_prev i p ns ! j) = cn_key (ns ! j)" "cn_val (set_prev i p ns ! j) = cn_val (ns ! j)"
  "cn_next (set_prev i p ns ! j) = cn_next (ns ! j)"
  "cn_key (set_next i p ns ! j) = cn_key (ns ! j)" "cn_val (set_next i p ns ! j) = cn_val (ns ! j)"
  "cn_prev (set_next i p ns ! j) = cn_prev (ns ! j)"
  "cn_key (set_val i v ns ! j) = cn_key (ns ! j)" "cn_prev (set_val i v ns ! j) = cn_prev (ns ! j)"
  "cn_next (set_val i v ns ! j) = cn_next (ns ! j)"
  by (cases "i = j"; cases "j < length ns"; simp add: set_prev_def set_next_def set_val_def list_update_beyond)+

lemma upd_length [simp]:
  "length (set_prev i p ns) = length ns" "length (set_next i p ns) = length ns"
  "length (set_val i v ns) = length ns"
  by (simp_all add: set_prev_def set_next_def set_val_def)

lemma upd_same [simp]:
  "i < length ns \<Longrightarrow> cn_prev (set_prev i p ns ! i) = p" "i < length ns \<Longrightarrow> cn_next (set_next i p ns ! i) = p"
  "i < length ns \<Longrightarrow> cn_val (set_val i v ns ! i) = v"
  "i \<noteq> j \<Longrightarrow> cn_prev (set_prev i p ns ! j) = cn_prev (ns ! j)"
  "i \<noteq> j \<Longrightarrow> cn_next (set_next i p ns ! j) = cn_next (ns ! j)"
  "i \<noteq> j \<Longrightarrow> cn_val (set_val i v ns ! j) = cn_val (ns ! j)"
  by (simp_all add: set_prev_def set_next_def set_val_def)

lemma chain_cong:
  assumes "length ns' = length ns"
    and "\<And>x. x \<in> set xs \<Longrightarrow> cn_prev (ns' ! x) = cn_prev (ns ! x) \<and> cn_next (ns' ! x) = cn_next (ns ! x)"
  shows "chain ns' p xs n = chain ns p xs n"
  using assms(2) by (induction xs arbitrary: p) (simp_all add: assms(1))

lemma chain_other [simp]:
  "i \<notin> set xs \<Longrightarrow> chain (set_prev i q ns) p xs n = chain ns p xs n"
  "i \<notin> set xs \<Longrightarrow> chain (set_next i q ns) p xs n = chain ns p xs n"
  "chain (set_val i v ns) p xs n = chain ns p xs n"
  by (auto intro!: chain_cong upd_same(4,5))

lemma chain_less: "chain ns p xs n \<Longrightarrow> x \<in> set xs \<Longrightarrow> x < length ns"
  by (induction xs arbitrary: p) auto

lemma chain_set_last_next:
  "chain ns p (xs @ [x]) n \<Longrightarrow> x \<notin> set xs \<Longrightarrow> chain (set_next x n' ns) p (xs @ [x]) n'"
  by (auto simp: chain_append)

lemma chain_set_first_prev:
  "chain ns p (x # xs) n \<Longrightarrow> x \<notin> set xs \<Longrightarrow> chain (set_prev x p' ns) p' (x # xs) n"
  by auto

text \<open>The links of a shard thread exactly the nodes \<open>xs\<close>, in this order.\<close>

definition linked :: "shard \<Rightarrow> nat list \<Rightarrow> bool" where
  "linked s xs \<longleftrightarrow> chain (sh_nodes s) None xs None \<and> sh_head s = hd_or None xs \<and>
     sh_tail s = last_or None xs \<and> distinct xs"

text \<open>Linking and unlinking touch nothing but the links.\<close>

definition same_data :: "shard \<Rightarrow> shard \<Rightarrow> bool" where
  "same_data s s' \<longleftrightarrow> sh_map s' = sh_map s \<and> sh_free s' = sh_free s \<and> sh_bytes s' = sh_bytes s \<and>
     sh_cap s' = sh_cap s \<and> length (sh_nodes s') = length (sh_nodes s) \<and>
     (\<forall>j. cn_key (sh_nodes s' ! j) = cn_key (sh_nodes s ! j) \<and> cn_val (sh_nodes s' ! j) = cn_val (sh_nodes s ! j))"

lemma unlink_same_data: "same_data s (shard_unlink i s)"
  by (simp add: same_data_def shard_unlink_def Let_def split: option.splits)

lemma push_front_same_data: "same_data s (shard_push_front i s)"
  by (simp add: same_data_def shard_push_front_def Let_def split: option.splits)

lemma same_data_trans: "same_data a b \<Longrightarrow> same_data b c \<Longrightarrow> same_data a c"
  by (simp add: same_data_def)

lemma unlink_linked:
  assumes "linked s (ys @ i # zs)"
  shows "linked (shard_unlink i s) (ys @ zs)"
proof -
  let ?ns = "sh_nodes s" and ?p = "last_or None ys" and ?n = "hd_or None zs"
  have d: "i \<notin> set ys" "i \<notin> set zs" "distinct ys" "distinct zs" "set ys \<inter> set zs = {}"
    using assms by (auto simp: linked_def)
  have c: "chain ?ns None ys (Some i)" "cn_prev (?ns ! i) = ?p" "cn_next (?ns ! i) = ?n"
    "chain ?ns (Some i) zs None"
    using assms by (auto simp: linked_def chain_append)
  define ns1 where "ns1 = (case ?p of Some p \<Rightarrow> set_next p ?n ?ns | None \<Rightarrow> ?ns)"
  define ns2 where "ns2 = (case ?n of Some n \<Rightarrow> set_prev n ?p ns1 | None \<Rightarrow> ns1)"
  have y1: "chain ns1 None ys ?n"
    using c(1) d by (cases ys rule: rev_cases) (auto simp: ns1_def chain_append)
  have z1: "chain ns1 (Some i) zs None"
    using c(4) d by (cases ys rule: rev_cases) (auto simp: ns1_def)
  have y2: "chain ns2 None ys ?n"
    using y1 d by (cases zs) (auto simp: ns2_def)
  have z2: "chain ns2 ?p zs None"
    using z1 d by (cases zs) (auto simp: ns2_def)
  have n: "sh_nodes (shard_unlink i s) = set_next i None (set_prev i None ns2)"
    by (simp add: shard_unlink_def c(2,3) Let_def ns1_def ns2_def split: option.splits)
  have "chain (sh_nodes (shard_unlink i s)) None (ys @ zs) None"
    unfolding n using y2 z2 d by (simp add: chain_append)
  moreover have "sh_head (shard_unlink i s) = (case ?p of Some _ \<Rightarrow> sh_head s | None \<Rightarrow> ?n)"
    "sh_tail (shard_unlink i s) = (case ?n of Some _ \<Rightarrow> sh_tail s | None \<Rightarrow> ?p)"
    by (simp_all add: shard_unlink_def c(2,3) Let_def split: option.splits)
  then have "sh_head (shard_unlink i s) = hd_or None (ys @ zs)"
    "sh_tail (shard_unlink i s) = last_or None (ys @ zs)"
    using assms by (cases ys; cases zs; simp add: linked_def last_or_def)+
  ultimately show ?thesis using d by (auto simp: linked_def)
qed

lemma push_front_linked:
  assumes "linked s xs" and "i \<notin> set xs" and "i < length (sh_nodes s)"
  shows "linked (shard_push_front i s) (i # xs)"
proof (cases xs)
  case Nil
  with assms show ?thesis by (simp add: linked_def shard_push_front_def Let_def)
next
  case (Cons x ys)
  have "x \<noteq> i" "x \<notin> set ys" "i \<notin> set ys" using assms Cons by (auto simp: linked_def)
  with assms Cons show ?thesis
    by (auto simp: linked_def shard_push_front_def Let_def last_or_def)
qed

section \<open>A shard implements the list\<close>

definition map_ok :: "shard \<Rightarrow> nat list \<Rightarrow> bool" where
  "map_ok s xs \<longleftrightarrow> (\<forall>k i. sh_map s k = Some i \<longleftrightarrow> i \<in> set xs \<and> cn_key (sh_nodes s ! i) = k)"

lemma map_okD: "map_ok s xs \<Longrightarrow> sh_map s k = Some i \<longleftrightarrow> i \<in> set xs \<and> cn_key (sh_nodes s ! i) = k"
  unfolding map_ok_def by blast

lemma map_okI: "(\<And>k i. sh_map s k = Some i \<longleftrightarrow> i \<in> set xs \<and> cn_key (sh_nodes s ! i) = k) \<Longrightarrow> map_ok s xs"
  unfolding map_ok_def by blast

definition shard_idx :: "shard \<Rightarrow> nat list \<Rightarrow> bool" where
  "shard_idx s xs \<longleftrightarrow> linked s xs \<and> distinct (xs @ sh_free s) \<and>
     set (sh_free s) \<subseteq> {..<length (sh_nodes s)} \<and> map_ok s xs \<and>
     sh_bytes s = sum_list (map (\<lambda>i. length (cn_val (sh_nodes s ! i))) xs)"

lemma shard_idx_map:
  "shard_idx s xs \<Longrightarrow> sh_map s k = Some i \<longleftrightarrow> i \<in> set xs \<and> cn_key (sh_nodes s ! i) = k"
  by (rule map_okD) (simp add: shard_idx_def)

lemma shard_idx_unique_key:
  "shard_idx s xs \<Longrightarrow> i \<in> set xs \<Longrightarrow> j \<in> set xs \<Longrightarrow> cn_key (sh_nodes s ! i) = cn_key (sh_nodes s ! j) \<Longrightarrow> i = j"
  by (metis option.inject shard_idx_map)

definition entries_of :: "shard \<Rightarrow> nat list \<Rightarrow> lru" where
  "entries_of s xs = map (\<lambda>i. (cn_key (sh_nodes s ! i), cn_val (sh_nodes s ! i))) xs"

definition shard_rep :: "shard \<Rightarrow> lru \<Rightarrow> bool" where
  "shard_rep s es \<longleftrightarrow> (\<exists>xs. shard_idx s xs \<and> es = entries_of s xs)"

lemma shard_idx_less: "shard_idx s xs \<Longrightarrow> i \<in> set xs \<Longrightarrow> i < length (sh_nodes s)"
  by (auto simp: shard_idx_def linked_def dest: chain_less)

lemma shard_idx_bytes: "shard_idx s xs \<Longrightarrow> lru_bytes (entries_of s xs) = sh_bytes s"
  by (simp add: shard_idx_def lru_bytes_def entries_of_def comp_def)

lemma map_of_map_unique:
  "i \<in> set xs \<Longrightarrow> f i = k \<Longrightarrow> (\<forall>j \<in> set xs. f j = k \<longrightarrow> j = i) \<Longrightarrow> map_of (map (\<lambda>i. (f i, g i)) xs) k = Some (g i)"
proof (induction xs)
  case (Cons x xs)
  show ?case
  proof (cases "f x = k")
    case True
    with Cons.prems have "x = i" by simp
    with True show ?thesis by simp
  next
    case False
    then have "i \<in> set xs" using Cons.prems(1,2) by auto
    moreover have "\<forall>j \<in> set xs. f j = k \<longrightarrow> j = i" using Cons.prems(3) by simp
    ultimately have "map_of (map (\<lambda>i. (f i, g i)) xs) k = Some (g i)" by (rule Cons.IH [OF _ Cons.prems(2)])
    with False show ?thesis by simp
  qed
qed simp

lemma shard_idx_lookup:
  assumes "shard_idx s xs"
  shows "map_of (entries_of s xs) k = map_option (\<lambda>i. cn_val (sh_nodes s ! i)) (sh_map s k)"
proof (cases "sh_map s k")
  case None
  have "k \<notin> (\<lambda>i. cn_key (sh_nodes s ! i)) ` set xs"
  proof
    assume "k \<in> (\<lambda>i. cn_key (sh_nodes s ! i)) ` set xs"
    then obtain i where "i \<in> set xs" "cn_key (sh_nodes s ! i) = k" by blast
    then have "sh_map s k = Some i" by (simp add: shard_idx_map [OF assms])
    with None show False by simp
  qed
  then have "k \<notin> fst ` set (entries_of s xs)" by (simp add: entries_of_def image_image)
  with None show ?thesis by (simp add: map_of_eq_None_iff)
next
  case (Some i)
  then have i: "i \<in> set xs" "cn_key (sh_nodes s ! i) = k" by (simp_all add: shard_idx_map [OF assms])
  then have "\<forall>j \<in> set xs. cn_key (sh_nodes s ! j) = k \<longrightarrow> j = i"
    using shard_idx_unique_key [OF assms] by blast
  from map_of_map_unique [where f = "\<lambda>i. cn_key (sh_nodes s ! i)", OF i this]
  have "map_of (entries_of s xs) k = Some (cn_val (sh_nodes s ! i))" unfolding entries_of_def .
  with Some show ?thesis by simp
qed

lemma entries_of_same_data: "same_data s s' \<Longrightarrow> entries_of s' xs = entries_of s xs"
  by (simp add: entries_of_def same_data_def)

lemma shard_idx_same_data:
  "shard_idx s xs \<Longrightarrow> same_data s s' \<Longrightarrow> linked s' ys \<Longrightarrow> set ys = set xs \<Longrightarrow>
   sum_list (map f ys) = sum_list (map f xs) \<Longrightarrow> f = (\<lambda>i. length (cn_val (sh_nodes s ! i))) \<Longrightarrow> shard_idx s' ys"
  by (auto simp: shard_idx_def same_data_def linked_def map_ok_def)

lemma shard_touch:
  assumes s: "shard_idx s xs" and i: "sh_map s k = Some i"
  defines "s' \<equiv> shard_push_front i (shard_unlink i s)"
  shows "shard_idx s' (i # remove1 i xs)" and "same_data s s'"
    and "entries_of s (i # remove1 i xs) = lru_touch k (cn_val (sh_nodes s ! i)) (entries_of s xs)"
proof -
  have ik: "i \<in> set xs" "cn_key (sh_nodes s ! i) = k" using i by (simp_all add: shard_idx_map [OF s])
  then have other: "\<forall>j \<in> set xs. cn_key (sh_nodes s ! j) = k \<longrightarrow> j = i"
    using shard_idx_unique_key [OF s] by blast
  have d: "distinct xs" using s by (simp add: shard_idx_def)
  obtain ys zs where xs: "xs = ys @ i # zs" using ik(1) by (auto simp: in_set_conv_decomp)
  then have rm: "remove1 i xs = ys @ zs" using d by (simp add: remove1_append)
  have "linked (shard_unlink i s) (ys @ zs)" using s xs unlink_linked by (simp add: shard_idx_def)
  moreover have "i < length (sh_nodes (shard_unlink i s))"
    using shard_idx_less [OF s ik(1)] unlink_same_data [of s i] by (simp add: same_data_def)
  ultimately have "linked s' (i # ys @ zs)" unfolding s'_def using d xs by (intro push_front_linked) auto
  moreover show sd: "same_data s s'"
    unfolding s'_def by (rule same_data_trans [OF unlink_same_data push_front_same_data])
  ultimately show "shard_idx s' (i # remove1 i xs)" unfolding rm
    by (intro shard_idx_same_data [OF s, where f = "\<lambda>i. length (cn_val (sh_nodes s ! i))"]) (auto simp: xs)
  have "filter (\<lambda>e. fst e \<noteq> k) (entries_of s xs) = entries_of s (remove1 i xs)"
  proof -
    have "filter (\<lambda>j. cn_key (sh_nodes s ! j) \<noteq> k) (ys @ i # zs) = ys @ zs"
    proof -
      have "\<forall>j \<in> set ys \<union> set zs. cn_key (sh_nodes s ! j) \<noteq> k" using other d by (auto simp: xs)
      then have "filter (\<lambda>j. cn_key (sh_nodes s ! j) \<noteq> k) ys = ys" "filter (\<lambda>j. cn_key (sh_nodes s ! j) \<noteq> k) zs = zs"
        by (simp_all add: filter_id_conv)
      then show ?thesis using ik(2) by simp
    qed
    moreover have "filter (\<lambda>e. fst e \<noteq> k) (entries_of s xs)
        = entries_of s (filter (\<lambda>j. cn_key (sh_nodes s ! j) \<noteq> k) xs)"
      by (simp add: entries_of_def filter_map comp_def)
    ultimately show ?thesis unfolding rm by (simp only: xs)
  qed
  then show "entries_of s (i # remove1 i xs) = lru_touch k (cn_val (sh_nodes s ! i)) (entries_of s xs)"
    using ik by (simp add: lru_touch_def entries_of_def)
qed

lemma shard_get_refines:
  assumes "shard_rep s es"
  shows "fst (shard_get k s) = fst (lru_get k es) \<and> shard_rep (snd (shard_get k s)) (snd (lru_get k es))
    \<and> sh_cap (snd (shard_get k s)) = sh_cap s"
proof -
  obtain xs where xs: "shard_idx s xs" "es = entries_of s xs" using assms by (auto simp: shard_rep_def)
  show ?thesis
  proof (cases "sh_map s k")
    case None
    then show ?thesis using assms shard_idx_lookup [OF xs(1), of k] xs(2)
      by (simp add: shard_get_def lru_get_def)
  next
    case (Some i)
    let ?s = "shard_push_front i (shard_unlink i s)"
    note t = shard_touch [OF xs(1) Some]
    have "shard_rep ?s (lru_touch k (cn_val (sh_nodes s ! i)) es)"
      unfolding shard_rep_def using t(1) t(3) entries_of_same_data [OF t(2)] xs(2) by metis
    moreover have "cn_val (sh_nodes ?s ! i) = cn_val (sh_nodes s ! i)" "sh_cap ?s = sh_cap s"
      using t(2) by (simp_all add: same_data_def)
    ultimately show ?thesis using Some shard_idx_lookup [OF xs(1), of k] xs(2)
      by (simp add: shard_get_def lru_get_def Let_def)
  qed
qed

lemma shard_evict_one_idx:
  assumes s: "shard_idx s (xs @ [i])"
  shows "shard_idx (shard_evict_one i s) xs" and "entries_of (shard_evict_one i s) xs = entries_of s xs"
    and "sh_cap (shard_evict_one i s) = sh_cap s"
    and "length (sh_nodes (shard_evict_one i s)) = length (sh_nodes s)"
proof -
  let ?k = "cn_key (sh_nodes s ! i)"
  define s1 where "s1 = s\<lparr>sh_bytes := sh_bytes s - length (cn_val (sh_nodes s ! i)), sh_map := (sh_map s)(?k := None)\<rparr>"
  have e: "shard_evict_one i s = (shard_unlink i s1)\<lparr>sh_nodes := set_val i [] (sh_nodes (shard_unlink i s1)),
      sh_free := sh_free (shard_unlink i s1) @ [i]\<rparr>"
    by (simp add: shard_evict_one_def s1_def Let_def)
  have d: "i \<notin> set xs" "i \<notin> set (sh_free s)" "distinct (xs @ sh_free s)" using s by (auto simp: shard_idx_def)
  have "linked s1 (xs @ i # [])" using s by (simp add: shard_idx_def linked_def s1_def)
  from unlink_linked [OF this] have l: "linked (shard_unlink i s1) xs" by simp
  note sd = unlink_same_data [of s1 i]
  have "cn_key (sh_nodes s ! j) \<noteq> ?k" if "j \<in> set xs" for j
    using shard_idx_unique_key [OF s, of j i] that d(1) by auto
  then have "map_ok (shard_evict_one i s) xs"
    using sd shard_idx_map [OF s] unfolding e by (intro map_okI) (auto simp: same_data_def s1_def)
  moreover have val: "cn_val (set_val i [] (sh_nodes (shard_unlink i s1)) ! j) = cn_val (sh_nodes s ! j)"
    if "j \<in> set xs" for j
    using that d(1) sd by (cases "i = j") (auto simp: same_data_def s1_def)
  moreover have "sum_list (map (\<lambda>j. length (cn_val (set_val i [] (sh_nodes (shard_unlink i s1)) ! j))) xs)
      = sum_list (map (\<lambda>j. length (cn_val (sh_nodes s ! j))) xs)"
    using val by (intro arg_cong [where f = sum_list] map_cong) auto
  moreover have "i < length (sh_nodes s)" using s by (auto intro: shard_idx_less)
  ultimately show "shard_idx (shard_evict_one i s) xs"
    using s l d sd unfolding e by (auto simp: shard_idx_def linked_def same_data_def s1_def)
  show "entries_of (shard_evict_one i s) xs = entries_of s xs"
    using d(1) sd val unfolding e by (auto simp: entries_of_def same_data_def s1_def)
  show "sh_cap (shard_evict_one i s) = sh_cap s"
    "length (sh_nodes (shard_evict_one i s)) = length (sh_nodes s)"
    using sd unfolding e by (simp_all add: same_data_def s1_def)
qed

lemma shard_evict_refines:
  "shard_idx s xs \<Longrightarrow> length xs \<le> Suc fuel \<Longrightarrow>
   \<exists>ys. shard_idx (shard_evict fuel s) ys \<and> sh_cap (shard_evict fuel s) = sh_cap s
      \<and> entries_of (shard_evict fuel s) ys = lru_evict (sh_cap s) (entries_of s xs)"
proof (induction fuel arbitrary: s xs)
  case 0
  then have "lru_evict (sh_cap s) (entries_of s xs) = entries_of s xs"
    by (subst lru_evict.simps) (simp add: entries_of_def)
  with 0 show ?case by auto
next
  case (Suc fuel)
  show ?case
  proof (cases "sh_cap s < sh_bytes s \<and> 1 < length xs")
    case False
    then have "lru_evict (sh_cap s) (entries_of s xs) = entries_of s xs"
      using shard_idx_bytes [OF Suc.prems(1)] by (subst lru_evict.simps) (auto simp: entries_of_def)
    moreover have "shard_evict (Suc fuel) s = s"
    proof (cases xs)
      case Nil
      with Suc.prems(1) show ?thesis by (simp add: shard_idx_def linked_def)
    next
      case (Cons x zs)
      with False Suc.prems(1) show ?thesis by (cases zs) (auto simp: shard_idx_def linked_def split: option.split)
    qed
    ultimately show ?thesis using Suc.prems(1) by auto
  next
    case True
    then obtain ys i where xs: "xs = ys @ [i]" "ys \<noteq> []" by (cases xs rule: rev_cases) auto
    note one = shard_evict_one_idx [OF Suc.prems(1) [unfolded xs(1)]]
    have "sh_tail s = Some i" "sh_head s = Some (hd ys)" "hd ys \<noteq> i"
      using Suc.prems(1) xs by (cases ys; auto simp: shard_idx_def linked_def)+
    then have "shard_evict (Suc fuel) s = shard_evict fuel (shard_evict_one i s)" using True by simp
    moreover have "lru_evict (sh_cap s) (entries_of s xs) = lru_evict (sh_cap s) (entries_of s ys)"
      using True shard_idx_bytes [OF Suc.prems(1)] xs
      by (subst lru_evict.simps) (simp add: entries_of_def)
    ultimately show ?thesis using Suc.IH [OF one(1)] one Suc.prems(2) xs by simp
  qed
qed

section \<open>Insertion\<close>

lemma shard_fresh:
  assumes s: "shard_idx s xs" and i: "i \<notin> set xs" "i \<notin> set (sh_free s)" "i < length (sh_nodes s)"
    and k: "cn_key (sh_nodes s ! i) = k" "sh_map s k = None"
  defines "s' \<equiv> shard_push_front i (s\<lparr>sh_bytes := sh_bytes s + length (cn_val (sh_nodes s ! i)),
      sh_map := (sh_map s)(k \<mapsto> i)\<rparr>)"
  shows "shard_idx s' (i # xs)"
    and "entries_of s' (i # xs) = lru_touch k (cn_val (sh_nodes s ! i)) (entries_of s xs)"
    and "sh_cap s' = sh_cap s" and "length (sh_nodes s') = length (sh_nodes s)"
proof -
  let ?s1 = "s\<lparr>sh_bytes := sh_bytes s + length (cn_val (sh_nodes s ! i)), sh_map := (sh_map s)(k \<mapsto> i)\<rparr>"
  have l: "linked s' (i # xs)"
    unfolding s'_def using s i by (intro push_front_linked) (simp_all add: shard_idx_def linked_def)
  have sd: "same_data ?s1 s'" unfolding s'_def by (rule push_front_same_data)
  have other: "cn_key (sh_nodes s ! j) \<noteq> k" if "j \<in> set xs" for j
    using shard_idx_map [OF s, of k j] k that by auto
  then have "map_ok s' (i # xs)"
    using sd shard_idx_map [OF s] k by (intro map_okI) (auto simp: same_data_def)
  with s l i sd show "shard_idx s' (i # xs)" by (auto simp: shard_idx_def same_data_def)
  have "filter (\<lambda>e. fst e \<noteq> k) (entries_of s xs) = entries_of s xs"
    using other by (auto simp: entries_of_def filter_id_conv)
  with sd k show "entries_of s' (i # xs) = lru_touch k (cn_val (sh_nodes s ! i)) (entries_of s xs)"
    by (simp add: lru_touch_def entries_of_def same_data_def)
  show "sh_cap s' = sh_cap s" "length (sh_nodes s') = length (sh_nodes s)"
    using sd by (simp_all add: same_data_def)
qed

lemma shard_idx_length: "shard_idx s xs \<Longrightarrow> length xs \<le> length (sh_nodes s)"
proof -
  assume s: "shard_idx s xs"
  then have "set xs \<subseteq> {..<length (sh_nodes s)}" by (auto dest: shard_idx_less)
  then have "card (set xs) \<le> length (sh_nodes s)" using card_mono [of "{..<length (sh_nodes s)}"] by simp
  then show ?thesis using s by (simp add: shard_idx_def distinct_card)
qed

lemma shard_alloc_fresh:
  fixes v :: bytes
  assumes s: "shard_idx s xs" and k: "sh_map s k = None"
  defines "node \<equiv> \<lparr>cn_key = k, cn_val = v, cn_prev = None, cn_next = None\<rparr>"
  defines "p \<equiv> shard_alloc node s"
  shows "shard_idx (snd p) xs" and "fst p \<notin> set xs" and "fst p \<notin> set (sh_free (snd p))"
    and "fst p < length (sh_nodes (snd p))" and "sh_nodes (snd p) ! fst p = node"
    and "entries_of (snd p) xs = entries_of s xs" and "sh_map (snd p) = sh_map s" and "sh_cap (snd p) = sh_cap s"
proof -
  have less: "i < length (sh_nodes s)" if "i \<in> set xs" for i using s that by (rule shard_idx_less)
  have other: "sh_nodes (snd p) ! i = sh_nodes s ! i \<and> fst p \<noteq> i" if i: "i \<in> set xs" for i
  proof (cases "sh_free s = []")
    case True
    then show ?thesis using less [OF i] by (simp add: p_def shard_alloc_def nth_append)
  next
    case False
    then have "last (sh_free s) \<noteq> i" using s i last_in_set by (auto simp: shard_idx_def)
    with False show ?thesis by (simp add: p_def shard_alloc_def)
  qed
  then show "fst p \<notin> set xs" by blast
  show "sh_map (snd p) = sh_map s" "sh_cap (snd p) = sh_cap s" by (simp_all add: p_def shard_alloc_def)
  show "entries_of (snd p) xs = entries_of s xs" using other by (simp add: entries_of_def)
  have fl: "last (sh_free s) < length (sh_nodes s)" if "sh_free s \<noteq> []"
    using s last_in_set [OF that] by (auto simp: shard_idx_def)
  then show "fst p < length (sh_nodes (snd p))" "sh_nodes (snd p) ! fst p = node"
    by (simp_all add: p_def shard_alloc_def)
  have free: "sh_free s = butlast (sh_free s) @ [last (sh_free s)]" if "sh_free s \<noteq> []" using that by simp
  have df: "distinct (xs @ sh_free s)" "set (sh_free s) \<subseteq> {..<length (sh_nodes s)}"
    using s by (simp_all add: shard_idx_def)
  then show "fst p \<notin> set (sh_free (snd p))"
    using distinct_butlast free by (cases "sh_free s" rule: rev_cases) (auto simp: p_def shard_alloc_def)
  have "linked (snd p) xs"
  proof -
    have "chain (sh_nodes (snd p)) q ys n" if "chain (sh_nodes s) q ys n" "set ys \<subseteq> set xs" for q ys n
    proof -
      have "length (sh_nodes s) \<le> length (sh_nodes (snd p))" by (simp add: p_def shard_alloc_def)
      then show ?thesis using that by (induction ys arbitrary: q) (auto simp: other)
    qed
    then show ?thesis using s by (auto simp: shard_idx_def linked_def p_def shard_alloc_def)
  qed
  moreover have "map_ok (snd p) xs"
    using shard_idx_map [OF s] other by (intro map_okI) (auto simp: \<open>sh_map (snd p) = sh_map s\<close>)
  moreover have "distinct (xs @ sh_free (snd p)) \<and> set (sh_free (snd p)) \<subseteq> {..<length (sh_nodes (snd p))}"
    using df by (cases "sh_free s" rule: rev_cases) (auto simp: p_def shard_alloc_def)
  moreover have "sum_list (map (\<lambda>i. length (cn_val (sh_nodes (snd p) ! i))) xs)
      = sum_list (map (\<lambda>i. length (cn_val (sh_nodes s ! i))) xs)"
    using other by (intro arg_cong [where f = sum_list] map_cong) auto
  ultimately show "shard_idx (snd p) xs"
    using s by (simp add: shard_idx_def p_def shard_alloc_def)
qed

lemma shard_overwrite:
  fixes v :: bytes
  assumes s: "shard_idx s xs" and i: "sh_map s k = Some i"
  defines "s1 \<equiv> s\<lparr>sh_bytes := sh_bytes s - length (cn_val (sh_nodes s ! i)) + length v,
      sh_nodes := set_val i v (sh_nodes s)\<rparr>"
  shows "shard_idx s1 xs" and "lru_touch k v (entries_of s1 xs) = lru_touch k v (entries_of s xs)"
proof -
  have ik: "i \<in> set xs" "cn_key (sh_nodes s ! i) = k" using i by (simp_all add: shard_idx_map [OF s])
  have len: "i < length (sh_nodes s)" using s ik(1) by (rule shard_idx_less)
  have d: "distinct xs" using s by (simp add: shard_idx_def)
  let ?f = "\<lambda>j. length (cn_val (sh_nodes s ! j))" and ?g = "\<lambda>j. length (cn_val (set_val i v (sh_nodes s) ! j))"
  have "sum_list (map ?g (remove1 i xs)) = sum_list (map ?f (remove1 i xs))"
    using d by (intro arg_cong [where f = sum_list] map_cong) (auto simp: upd_same(6))
  then have "sum_list (map ?g xs) = sum_list (map ?f xs) - ?f i + length v"
    using sum_list_map_remove1 [OF ik(1), of ?f] sum_list_map_remove1 [OF ik(1), of ?g] len by simp
  moreover have "map_ok s1 xs" using shard_idx_map [OF s] by (intro map_okI) (simp add: s1_def)
  ultimately show "shard_idx s1 xs" using s by (simp add: shard_idx_def s1_def linked_def)
  have "cn_val (set_val i v (sh_nodes s) ! j) = cn_val (sh_nodes s ! j)" if "cn_key (sh_nodes s ! j) \<noteq> k" for j
    using that ik by (cases "i = j") auto
  then have "filter (\<lambda>e. fst e \<noteq> k) (entries_of s1 ys) = filter (\<lambda>e. fst e \<noteq> k) (entries_of s ys)" for ys
    using ik(2) by (induction ys) (auto simp: entries_of_def s1_def)
  then show "lru_touch k v (entries_of s1 xs) = lru_touch k v (entries_of s xs)" by (simp add: lru_touch_def)
qed

lemma shard_insert_refines:
  assumes "shard_rep s es"
  shows "shard_rep (shard_insert k v s) (lru_insert (sh_cap s) k v es) \<and> sh_cap (shard_insert k v s) = sh_cap s"
proof -
  obtain xs where xs: "shard_idx s xs" "es = entries_of s xs" using assms by (auto simp: shard_rep_def)
  have "\<exists>s' ys. shard_insert k v s = shard_evict (length (sh_nodes s')) s' \<and> shard_idx s' ys
      \<and> entries_of s' ys = lru_touch k v es \<and> sh_cap s' = sh_cap s"
  proof (cases "sh_map s k")
    case (Some i)
    let ?s1 = "s\<lparr>sh_bytes := sh_bytes s - length (cn_val (sh_nodes s ! i)) + length v,
        sh_nodes := set_val i v (sh_nodes s)\<rparr>"
    let ?s2 = "shard_push_front i (shard_unlink i ?s1)"
    note o = shard_overwrite [OF xs(1) Some, of v]
    have i: "sh_map ?s1 k = Some i" using Some by simp
    note t = shard_touch [OF o(1) i]
    have "i < length (sh_nodes s)" using Some xs(1) shard_idx_less [OF xs(1)] by (simp add: shard_idx_map)
    then have "entries_of ?s2 (i # remove1 i xs) = lru_touch k v es"
      using t(3) o(2) entries_of_same_data [OF t(2)] xs(2) by simp
    moreover have "sh_cap ?s2 = sh_cap s" using t(2) by (simp add: same_data_def)
    ultimately show ?thesis using t(1) Some by (intro exI [of _ ?s2]) (auto simp: shard_insert_def Let_def)
  next
    case None
    define node where "node = \<lparr>cn_key = k, cn_val = v, cn_prev = None, cn_next = None\<rparr>"
    note al = shard_alloc_fresh [OF xs(1) None, of v, folded node_def]
    obtain i s1 where ps: "shard_alloc node s = (i, s1)" by (cases "shard_alloc node s")
    note al = al [unfolded ps fst_conv snd_conv]
    let ?s2 = "shard_push_front i (s1\<lparr>sh_bytes := sh_bytes s1 + length (cn_val (sh_nodes s1 ! i)),
        sh_map := (sh_map s1)(k \<mapsto> i)\<rparr>)"
    have key: "cn_key (sh_nodes s1 ! i) = k" "cn_val (sh_nodes s1 ! i) = v" using al(5) by (simp_all add: node_def)
    have none: "sh_map s1 k = None" using None al(7) by simp
    note f = shard_fresh [OF al(1-4) key(1) none]
    have "shard_insert k v s = shard_evict (length (sh_nodes ?s2)) ?s2"
      using None ps by (simp add: shard_insert_def Let_def node_def)
    then show ?thesis using f key(2) al(6,8) xs(2) by (intro exI [of _ ?s2]) auto
  qed
  then obtain s' ys where s': "shard_insert k v s = shard_evict (length (sh_nodes s')) s'" "shard_idx s' ys"
    "entries_of s' ys = lru_touch k v es" "sh_cap s' = sh_cap s" by blast
  have "length ys \<le> Suc (length (sh_nodes s'))" using shard_idx_length [OF s'(2)] by simp
  from shard_evict_refines [OF s'(2) this] s' show ?thesis
    by (auto simp: shard_rep_def lru_insert_def)
qed

lemma shard_new_rep: "shard_rep (shard_new cap) []"
  by (auto simp: shard_rep_def shard_idx_def linked_def shard_new_def entries_of_def map_ok_def intro!: exI [of _ "[]"])

section \<open>The cache as the readers see it\<close>

text \<open>The bytes a shard holds for a key, and the invariant of the whole cache.\<close>

definition cache_content :: "block_cache \<Rightarrow> cache_key \<Rightarrow> bytes option" where
  "cache_content c k =
     (let s = bc_shards c ! shard_of k in map_option (\<lambda>i. cn_val (sh_nodes s ! i)) (sh_map s k))"

definition cache_ok :: "block_cache \<Rightarrow> bool" where
  "cache_ok c \<longleftrightarrow> length (bc_shards c) = 16 \<and> (\<forall>s \<in> set (bc_shards c). \<exists>es. shard_rep s es)"

text \<open>
  What a reader may rely on: a hit returns bytes that were inserted under that key and not
  overwritten since; insertions and lookups may drop entries but never change them.
\<close>

lemma map_leD: "m \<subseteq>\<^sub>m m' \<Longrightarrow> m k = Some v \<Longrightarrow> m' k = Some v"
  by (metis domI map_le_def)

lemma map_leI: "(\<And>k v. m k = Some v \<Longrightarrow> m' k = Some v) \<Longrightarrow> m \<subseteq>\<^sub>m m'"
  by (auto simp: map_le_def)

locale value_cache =
  fixes get :: "u64 \<Rightarrow> u64 \<Rightarrow> 'c \<Rightarrow> bytes option \<times> 'c"
    and insert :: "u64 \<Rightarrow> u64 \<Rightarrow> bytes \<Rightarrow> 'c \<Rightarrow> 'c"
    and content :: "'c \<Rightarrow> cache_key \<Rightarrow> bytes option"
    and good :: "'c \<Rightarrow> bool"
  assumes get: "good c \<Longrightarrow> get f off c = (r, c') \<Longrightarrow>
      good c' \<and> r = content c (f, off) \<and> content c' \<subseteq>\<^sub>m content c"
    and insert: "good c \<Longrightarrow> good (insert f off v c) \<and>
      content (insert f off v c) \<subseteq>\<^sub>m (content c)((f, off) \<mapsto> v)"
begin

text \<open>A property of every cached value is kept by lookups, and by insertions that have it.\<close>

definition all_cached :: "(cache_key \<Rightarrow> bytes \<Rightarrow> bool) \<Rightarrow> 'c \<Rightarrow> bool" where
  "all_cached P c \<longleftrightarrow> good c \<and> (\<forall>k v. content c k = Some v \<longrightarrow> P k v)"

lemma all_cached_get:
  "all_cached P c \<Longrightarrow> get f off c = (r, c') \<Longrightarrow> all_cached P c' \<and> (\<forall>v. r = Some v \<longrightarrow> P (f, off) v)"
  using get [of c f off r c'] by (auto simp: all_cached_def dest: map_leD)

lemma all_cached_insert:
  "all_cached P c \<Longrightarrow> P (f, off) v \<Longrightarrow> all_cached P (insert f off v c)"
  using insert [of c f off v] by (auto simp: all_cached_def dest!: map_leD split: if_splits)

end

lemma shard_content:
  "shard_rep s es \<Longrightarrow> map_option (\<lambda>i. cn_val (sh_nodes s ! i)) (sh_map s k) = map_of es k"
  by (auto simp: shard_rep_def shard_idx_lookup)

lemma shard_of_less [simp]: "shard_of k < 16"
  by (simp add: shard_of_def)

lemma map_of_touch: "map_of (lru_touch k v es) = (map_of es)(k \<mapsto> v)"
proof -
  have "map_of (filter (\<lambda>e. fst e \<noteq> k) es) k' = (if k' = k then None else map_of es k')" for k'
    by (induction es) auto
  then show ?thesis by (auto simp: lru_touch_def)
qed

lemma map_of_insert_le: "map_of (lru_insert cap k v es) \<subseteq>\<^sub>m (map_of es)(k \<mapsto> v)"
proof -
  obtain zs where "lru_touch k v es = lru_evict cap (lru_touch k v es) @ zs"
    using lru_evict_prefix by blast
  then have "map_of (lru_touch k v es) = map_of zs ++ map_of (lru_insert cap k v es)"
    unfolding lru_insert_def by (metis map_of_append)
  then show ?thesis by (metis map_le_map_add map_of_touch)
qed

lemma map_of_get_le: "map_of (snd (lru_get k es)) = map_of es"
  by (auto simp: lru_get_def map_of_touch split: option.split)

lemma cache_update_shard:
  assumes c: "cache_ok c" and s: "shard_rep s es"
  shows "cache_ok (c\<lparr>bc_shards := (bc_shards c)[j := s]\<rparr>)"
    and "j < 16 \<Longrightarrow> cache_content (c\<lparr>bc_shards := (bc_shards c)[j := s]\<rparr>) k
      = (if shard_of k = j then map_of es k else cache_content c k)"
proof -
  show "cache_ok (c\<lparr>bc_shards := (bc_shards c)[j := s]\<rparr>)"
    using c s set_update_subset_insert [of "bc_shards c" j s] unfolding cache_ok_def by fastforce
  show "cache_content (c\<lparr>bc_shards := (bc_shards c)[j := s]\<rparr>) k
      = (if shard_of k = j then map_of es k else cache_content c k)" if "j < 16"
    using c that shard_content [OF s, of k] by (simp add: cache_content_def cache_ok_def Let_def)
qed

interpretation blocks: value_cache cache_get cache_insert cache_content cache_ok
proof
  fix c f off r c' v
  assume c: "cache_ok c"
  let ?k = "(f, off)" and ?j = "shard_of (f, off)"
  let ?s = "bc_shards c ! ?j"
  have "?s \<in> set (bc_shards c)" using c by (simp add: cache_ok_def)
  then obtain es where es: "shard_rep ?s es" using c unfolding cache_ok_def by blast
  have old: "cache_content c k = map_of es k" if "shard_of k = ?j" for k
    using that shard_content [OF es, of k] by (simp add: cache_content_def Let_def)
  {
    assume "cache_get f off c = (r, c')"
    moreover obtain r' s' where rs: "shard_get ?k ?s = (r', s')" by (cases "shard_get ?k ?s")
    ultimately have c': "r = r'" "bc_shards c' = (bc_shards c)[?j := s']"
      by (auto simp: cache_get_def Let_def split: option.splits)
    note ref = shard_get_refines [OF es, of ?k, unfolded rs fst_conv snd_conv]
    have r: "r' = map_of es ?k" using ref by (auto simp: lru_get_def split: option.splits)
    have s': "shard_rep s' (snd (lru_get ?k es))" using ref by blast
    have "cache_ok c'" "cache_content c' = cache_content (c\<lparr>bc_shards := (bc_shards c)[?j := s']\<rparr>)"
      using cache_update_shard(1) [OF c s', of ?j] c'(2) by (simp_all add: cache_ok_def cache_content_def fun_eq_iff)
    moreover have "cache_content (c\<lparr>bc_shards := (bc_shards c)[?j := s']\<rparr>) = cache_content c"
      using cache_update_shard(2) [OF c s'] old by (auto simp: map_of_get_le)
    ultimately show "cache_ok c' \<and> r = cache_content c (f, off) \<and> cache_content c' \<subseteq>\<^sub>m cache_content c"
      using r c'(1) old [of ?k] by simp
  }
  note ins = shard_insert_refines [OF es, of ?k v]
  let ?c = "cache_insert f off v c"
  have ok: "cache_ok ?c"
    using cache_update_shard(1) [OF c conjunct1 [OF ins], of ?j] by (simp add: cache_insert_def Let_def)
  have new: "cache_content ?c k' = (if shard_of k' = ?j then map_of (lru_insert (sh_cap ?s) ?k v es) k' else cache_content c k')" for k'
    using cache_update_shard(2) [OF c conjunct1 [OF ins], of ?j k'] by (simp add: cache_insert_def Let_def)
  have "cache_content ?c k' = Some x \<Longrightarrow> ((cache_content c)(?k \<mapsto> v)) k' = Some x" for k' x
    using new [of k'] old [of k'] map_leD [OF map_of_insert_le [of "sh_cap ?s" ?k v es], of k' x]
    by (cases "k' = ?k"; cases "shard_of k' = ?j"; simp)
  then have "cache_content ?c \<subseteq>\<^sub>m (cache_content c)(?k \<mapsto> v)" by (rule map_leI)
  with ok show "cache_ok ?c \<and> cache_content ?c \<subseteq>\<^sub>m (cache_content c)(?k \<mapsto> v)" by blast
qed

section \<open>Properties\<close>

text \<open>
  C20: a shard, with its linked list threaded through a vector, implements the LRU list: a
  lookup returns the stored bytes and moves the entry to the front, an insertion puts the
  entry in front and evicts from the back until the byte budget is met.
\<close>

theorem shard_refines_lru:
  assumes "shard_rep s es"
  shows "fst (shard_get k s) = fst (lru_get k es) \<and> shard_rep (snd (shard_get k s)) (snd (lru_get k es))
    \<and> shard_rep (shard_insert k v s) (lru_insert (sh_cap s) k v es)"
  using shard_get_refines [OF assms] shard_insert_refines [OF assms] by blast

theorem shard_refines_lru_witness:
  "fst (shard_get (1, 2) (shard_new 0)) = fst (lru_get (1, 2) [])
    \<and> shard_rep (snd (shard_get (1, 2) (shard_new 0))) (snd (lru_get (1, 2) []))
    \<and> shard_rep (shard_insert (1, 2) [7] (shard_new 0)) (lru_insert (sh_cap (shard_new 0)) (1, 2) [7] [])"
  by (rule shard_refines_lru [OF shard_new_rep])

text \<open>
  C21: after an insertion a shard is within its byte budget or holds nothing but the entry
  just inserted, and it holds that entry.
\<close>

theorem shard_insert_bounded:
  assumes "shard_rep s es"
  shows "(sh_bytes (shard_insert k v s) \<le> sh_cap s \<or> card (dom (sh_map (shard_insert k v s))) \<le> 1)
    \<and> fst (shard_get k (shard_insert k v s)) = Some v"
proof -
  let ?s = "shard_insert k v s" and ?es = "lru_insert (sh_cap s) k v es"
  have rep: "shard_rep ?s ?es" using shard_insert_refines [OF assms] by blast
  then obtain xs where xs: "shard_idx ?s xs" "?es = entries_of ?s xs" by (auto simp: shard_rep_def)
  have "dom (sh_map ?s) \<subseteq> (\<lambda>i. cn_key (sh_nodes ?s ! i)) ` set xs"
  proof
    fix k' assume "k' \<in> dom (sh_map ?s)"
    then obtain i where "sh_map ?s k' = Some i" by blast
    then show "k' \<in> (\<lambda>i. cn_key (sh_nodes ?s ! i)) ` set xs" by (simp add: shard_idx_map [OF xs(1)] image_iff) blast
  qed
  then have "card (dom (sh_map ?s)) \<le> card ((\<lambda>i. cn_key (sh_nodes ?s ! i)) ` set xs)" by (rule card_mono [rotated]) simp
  also have "\<dots> \<le> length xs" by (rule order_trans [OF card_image_le card_length]) simp
  finally have "card (dom (sh_map ?s)) \<le> length ?es"
    unfolding xs(2) by (simp add: entries_of_def)
  moreover have "sh_bytes ?s = lru_bytes ?es" using shard_idx_bytes [OF xs(1)] xs(2) by simp
  moreover have "map_of ?es k = Some v"
  proof -
    obtain zs where z: "lru_touch k v es = ?es @ zs" using lru_evict_prefix unfolding lru_insert_def by blast
    have "?es \<noteq> []" unfolding lru_insert_def by (rule lru_evict_nonempty) (simp add: lru_touch_def)
    with z show ?thesis by (cases ?es) (auto simp: lru_touch_def)
  qed
  ultimately show ?thesis
    using lru_evict_bound [of "sh_cap s" "lru_touch k v es"] shard_get_refines [OF rep, of k]
    by (auto simp: lru_insert_def lru_get_def)
qed

theorem shard_insert_bounded_witness:
  "(sh_bytes (shard_insert (1, 2) [7, 8] (shard_new 1)) \<le> sh_cap (shard_new 1)
      \<or> card (dom (sh_map (shard_insert (1, 2) [7, 8] (shard_new 1)))) \<le> 1)
    \<and> fst (shard_get (1, 2) (shard_insert (1, 2) [7, 8] (shard_new 1))) = Some [7, 8]"
  by (rule shard_insert_bounded [OF shard_new_rep])

end
