(* ===== verification/Table.thy ===== *)
theory Table
  imports Block Bloom Cache FileIo
begin

text \<open>
  \<open>crates/fluent31/src/table/{mod,builder,reader}.rs\<close>: table files, their writer, and the
  reader with its pinned index and its cursor. The checksum and the LZ4 codec are external
  crates: a record \<open>codecs\<close> of functions.
\<close>

record codecs =
  ex_crc :: "bytes \<Rightarrow> u32"
  ex_compress :: "bytes \<Rightarrow> bytes"
  ex_decompress :: "bytes \<Rightarrow> bytes option"

text \<open>What \<open>lz4_flex\<close> documents: decompressing what it compressed returns it.\<close>

definition lz4_ok :: "codecs \<Rightarrow> bool" where
  "lz4_ok ex \<longleftrightarrow> (\<forall>p. ex_decompress ex (ex_compress ex p) = Some p)"

datatype compression = NoCompression | Lz4

section \<open>Footer, statistics and blocks\<close>

definition table_magic :: u64 where "table_magic = 0xf115e731ab1e0001"
definition table_format :: u32 where "table_format = 1"
definition table_format_compressed :: u32 where "table_format_compressed = 2"
definition footer_len :: nat where "footer_len = 48"
definition block_trailer_len :: nat where "block_trailer_len = 5"
definition codec_none :: u8 where "codec_none = 0"
definition codec_lz4 :: u8 where "codec_lz4 = 1"

record block_ref =
  br_off :: u64
  br_len :: u32

record footer =
  fo_filter :: block_ref
  fo_index :: block_ref
  fo_stats :: block_ref
  fo_format :: u32

definition footer_encode :: "footer \<Rightarrow> bytes" where
  "footer_encode f =
     le_bytes 8 (br_off (fo_filter f)) @ le_bytes 4 (br_len (fo_filter f)) @
     le_bytes 8 (br_off (fo_index f)) @ le_bytes 4 (br_len (fo_index f)) @
     le_bytes 8 (br_off (fo_stats f)) @ le_bytes 4 (br_len (fo_stats f)) @
     le_bytes 4 (fo_format f) @ le_bytes 8 table_magic"

definition footer_decode :: "bytes \<Rightarrow> footer res" where
  "footer_decode buf =
     (let r = reader_new buf in
      rbind (reader_u64 r) (\<lambda>(foff, r). rbind (reader_u32 r) (\<lambda>(flen, r).
      rbind (reader_u64 r) (\<lambda>(ioff, r). rbind (reader_u32 r) (\<lambda>(ilen, r).
      rbind (reader_u64 r) (\<lambda>(soff, r). rbind (reader_u32 r) (\<lambda>(slen, r).
      rbind (reader_u32 r) (\<lambda>(format, r). rbind (reader_u64 r) (\<lambda>(magic, r).
        if magic \<noteq> table_magic then Err (corrupt ''bad table magic'')
        else if \<not> (table_format \<le> format \<and> format \<le> table_format_compressed)
        then Err (corrupt ''unsupported table format {format}'')
        else Ok \<lparr>fo_filter = \<lparr>br_off = foff, br_len = flen\<rparr>, fo_index = \<lparr>br_off = ioff, br_len = ilen\<rparr>,
                 fo_stats = \<lparr>br_off = soff, br_len = slen\<rparr>, fo_format = format\<rparr>)))))))))"

definition read_block_verified :: "codecs \<Rightarrow> std_file \<Rightarrow> block_ref \<Rightarrow> bytes res" where
  "read_block_verified ex file r =
     (if unat (br_len r) < block_trailer_len then Err (corrupt ''block shorter than trailer'')
      else rbind (file_read_exact_at (unat (br_off r)) (unat (br_len r)) file) (\<lambda>buf.
        let payload_end = length buf - 4;
            stored_crc = (from_le_bytes (drop payload_end buf) :: u32)
        in if ex_crc ex (take payload_end buf) \<noteq> stored_crc then Err (corrupt ''block crc mismatch'')
           else let codec = buf ! (payload_end - 1);
                    payload = take (payload_end - 1) buf
                in if codec = codec_none then Ok payload
                   else if codec = codec_lz4
                   then (case ex_decompress ex payload of
                           Some p \<Rightarrow> Ok p | None \<Rightarrow> Err (corrupt ''lz4 block decode: {e}''))
                   else Err (corrupt ''unsupported compression {codec}'')))"

record table_stats =
  ts_entries :: u64
  ts_tombstones :: u64
  ts_min_seq :: u64
  ts_max_seq :: u64
  ts_first_ikey :: bytes
  ts_last_ikey :: bytes

definition stats_encode :: "table_stats \<Rightarrow> bytes" where
  "stats_encode s =
     put_len_prefixed (put_len_prefixed
       (put_u64 (put_u64 (put_u64 (put_u64 [] (ts_entries s)) (ts_tombstones s)) (ts_min_seq s)) (ts_max_seq s))
       (ts_first_ikey s)) (ts_last_ikey s)"

definition stats_decode :: "bytes \<Rightarrow> table_stats res" where
  "stats_decode buf =
     (let r = reader_new buf in
      rbind (reader_u64 r) (\<lambda>(entries, r). rbind (reader_u64 r) (\<lambda>(tombstones, r).
      rbind (reader_u64 r) (\<lambda>(min_seq, r). rbind (reader_u64 r) (\<lambda>(max_seq, r).
      rbind (reader_len_prefixed r) (\<lambda>(first, r). rbind (reader_len_prefixed r) (\<lambda>(last, r).
        if length first < trailer_len \<or> length last < trailer_len
        then Err (corrupt ''stats keys shorter than trailer'')
        else Ok \<lparr>ts_entries = entries, ts_tombstones = tombstones, ts_min_seq = min_seq,
                 ts_max_seq = max_seq, ts_first_ikey = first, ts_last_ikey = last\<rparr>)))))))"

definition stats_min_ukey :: "table_stats \<Rightarrow> bytes" where "stats_min_ukey s = ikey_ukey (ts_first_ikey s)"
definition stats_max_ukey :: "table_stats \<Rightarrow> bytes" where "stats_max_ukey s = ikey_ukey (ts_last_ikey s)"

section \<open>The writer\<close>

record table_builder =
  tb_file :: std_file
  tb_block_size :: nat
  tb_bloom_bits :: nat
  tb_compression :: compression
  tb_block :: block_builder
  tb_index :: "(bytes \<times> block_ref) list"
  tb_offset :: u64
  tb_wrote_compressed :: bool
  tb_key_hashes :: "u64 list"
  tb_last_hashed :: bytes
  tb_stats :: table_stats
  tb_started :: bool

definition table_builder_new :: "std_file \<Rightarrow> nat \<Rightarrow> nat \<Rightarrow> compression \<Rightarrow> table_builder" where
  "table_builder_new file block_size bloom_bits compression =
     \<lparr>tb_file = file, tb_block_size = block_size, tb_bloom_bits = bloom_bits, tb_compression = compression,
      tb_block = block_builder_default, tb_index = [], tb_offset = 0, tb_wrote_compressed = False,
      tb_key_hashes = [], tb_last_hashed = [],
      tb_stats = \<lparr>ts_entries = 0, ts_tombstones = 0, ts_min_seq = - 1, ts_max_seq = 0,
                  ts_first_ikey = [], ts_last_ikey = []\<rparr>,
      tb_started = False\<rparr>"

definition tb_estimated_size :: "table_builder \<Rightarrow> u64" where
  "tb_estimated_size b = tb_offset b + of_nat (block_size_estimate (tb_block b))"

definition tb_last_ukey :: "table_builder \<Rightarrow> bytes" where
  "tb_last_ukey b = (if tb_started b then ikey_ukey (ts_last_ikey (tb_stats b)) else [])"

definition tb_write_block :: "codecs \<Rightarrow> bytes \<Rightarrow> compression \<Rightarrow> table_builder \<Rightarrow> (block_ref \<times> table_builder) res" where
  "tb_write_block ex payload compression b =
     (let (codec, buf) = (case compression of
            Lz4 \<Rightarrow> let compressed = ex_compress ex payload
                   in if length compressed < length payload then (codec_lz4, compressed)
                      else (codec_none, payload)
          | NoCompression \<Rightarrow> (codec_none, payload));
          b = b\<lparr>tb_wrote_compressed := tb_wrote_compressed b \<or> codec \<noteq> codec_none\<rparr>;
          buf = buf @ [codec];
          buf = buf @ le_bytes 4 (ex_crc ex buf);
          (r, file) = file_append buf (tb_file b);
          b = b\<lparr>tb_file := file\<rparr>
      in rbind r (\<lambda>off. Ok (\<lparr>br_off = of_nat off, br_len = of_nat (length buf)\<rparr>,
           b\<lparr>tb_offset := tb_offset b + of_nat (length buf)\<rparr>)))"

definition tb_flush_block :: "codecs \<Rightarrow> table_builder \<Rightarrow> table_builder res" where
  "tb_flush_block ex b =
     (if block_builder_is_empty (tb_block b) then Ok b
      else let last_ikey = ts_last_ikey (tb_stats b);
               (payload, blk) = block_finish (tb_block b);
               b = b\<lparr>tb_block := blk\<rparr>
           in rbind (tb_write_block ex payload (tb_compression b) b) (\<lambda>(r, b).
                Ok (b\<lparr>tb_index := tb_index b @ [(last_ikey, r)]\<rparr>)))"

definition tb_add :: "codecs \<Rightarrow> bytes \<Rightarrow> bytes \<Rightarrow> table_builder \<Rightarrow> table_builder res" where
  "tb_add ex ikey repr b =
     (let b = (if \<not> tb_started b
               then b\<lparr>tb_stats := (tb_stats b)\<lparr>ts_first_ikey := ikey\<rparr>, tb_started := True\<rparr> else b);
          b = b\<lparr>tb_stats := (tb_stats b)\<lparr>ts_last_ikey := ikey, ts_entries := ts_entries (tb_stats b) + 1\<rparr>\<rparr>
      in rbind (ikey_kind ikey) (\<lambda>kind.
        let b = (if kind = Delete
                 then b\<lparr>tb_stats := (tb_stats b)\<lparr>ts_tombstones := ts_tombstones (tb_stats b) + 1\<rparr>\<rparr> else b);
            seq = ikey_seqno ikey;
            b = b\<lparr>tb_stats := (tb_stats b)\<lparr>ts_min_seq := min (ts_min_seq (tb_stats b)) seq,
                                         ts_max_seq := max (ts_max_seq (tb_stats b)) seq\<rparr>\<rparr>;
            ukey = ikey_ukey ikey;
            b = (if tb_key_hashes b = [] \<or> tb_last_hashed b \<noteq> ukey
                 then b\<lparr>tb_key_hashes := tb_key_hashes b @ [hash64 ukey], tb_last_hashed := ukey\<rparr> else b);
            b = b\<lparr>tb_block := block_add ikey repr (tb_block b)\<rparr>
        in if tb_block_size b \<le> block_size_estimate (tb_block b) then tb_flush_block ex b else Ok b))"

definition tb_index_payload :: "(bytes \<times> block_ref) list \<Rightarrow> bytes" where
  "tb_index_payload index =
     foldl (\<lambda>out (last_ikey, r).
       put_uvarint (put_uvarint (put_len_prefixed out last_ikey) (br_off r)) (ucast (br_len r))) [] index"

definition tb_finish :: "codecs \<Rightarrow> table_builder \<Rightarrow> (table_stats \<times> u64 \<times> std_file) res" where
  "tb_finish ex b =
     (if \<not> tb_started b then Err (Panic ''cannot finish an empty table'')
      else
      rbind (tb_flush_block ex b) (\<lambda>b.
      rbind (tb_write_block ex (bloom_build (tb_key_hashes b) (tb_bloom_bits b)) NoCompression b) (\<lambda>(filter_ref, b).
      rbind (tb_write_block ex (tb_index_payload (tb_index b)) (tb_compression b) b) (\<lambda>(index_ref, b).
      rbind (tb_write_block ex (stats_encode (tb_stats b)) NoCompression b) (\<lambda>(stats_ref, b).
        let footer = \<lparr>fo_filter = filter_ref, fo_index = index_ref, fo_stats = stats_ref,
              fo_format = if tb_wrote_compressed b then table_format_compressed else table_format\<rparr>;
            (r, file) = file_append (footer_encode footer) (tb_file b)
        in rbind r (\<lambda>_.
          let offset = tb_offset b + of_nat footer_len;
              (r, file) = file_sync_data file
          in rbind r (\<lambda>_. Ok (tb_stats b, offset, file))))))))"

section \<open>Opening a table\<close>

record table_index =
  ti_keys :: bytes
  ti_ends :: "u32 list"
  ti_blocks :: "block_ref list"

definition ti_len :: "table_index \<Rightarrow> nat" where "ti_len ix = length (ti_blocks ix)"

definition ti_key :: "table_index \<Rightarrow> nat \<Rightarrow> bytes" where
  "ti_key ix i =
     (let start = (if i = 0 then 0 else unat (ti_ends ix ! (i - 1)))
      in take (unat (ti_ends ix ! i) - start) (drop start (ti_keys ix)))"

definition ti_block :: "table_index \<Rightarrow> nat \<Rightarrow> block_ref" where
  "ti_block ix i = ti_blocks ix ! i"

definition ti_lower_bound :: "table_index \<Rightarrow> bytes \<Rightarrow> nat" where
  "ti_lower_bound ix target = bsearch (\<lambda>mid. cmp_ikey (ti_key ix mid) target = Less) 0 (ti_len ix)"

record table =
  ta_id :: u64
  ta_file :: std_file
  ta_index :: table_index
  ta_filter :: block_ref
  ta_stats :: table_stats

function read_index :: "reader \<Rightarrow> table_index \<Rightarrow> table_index res" where
  "read_index r ix =
     (if reader_is_empty r then Ok ix
      else
      rbind (reader_len_prefixed r) (\<lambda>(last_ikey, r1).
        if length last_ikey < trailer_len then Err (corrupt ''index key shorter than trailer'')
        else
        rbind (reader_uvarint r1) (\<lambda>(off, r2).
        rbind (reader_uvarint r2) (\<lambda>(len, r3).
          let keys = ti_keys ix @ last_ikey
          in if 2 ^ 32 \<le> length keys then Err (corrupt ''index keys exceed u32 arena'')
             else read_index r3 \<lparr>ti_keys = keys, ti_ends = ti_ends ix @ [of_nat (length keys)],
                    ti_blocks = ti_blocks ix @ [\<lparr>br_off = off, br_len = ucast len\<rparr>]\<rparr>))))"
  by pat_completeness auto
termination
  by (relation "measure (\<lambda>(r, ix). reader_remaining r)")
    (auto simp: reader_uvarint_def dest!: uvarint_loop_remaining reader_len_prefixed_remaining)

declare read_index.simps [simp del]

definition table_open :: "codecs \<Rightarrow> std_file \<Rightarrow> u64 \<Rightarrow> table res" where
  "table_open ex file tid =
     (let flen = file_len file
      in if flen < footer_len then Err (corrupt ''table smaller than footer'')
         else
         rbind (file_read_exact_at (flen - footer_len) footer_len file) (\<lambda>fbuf.
         rbind (footer_decode fbuf) (\<lambda>footer.
         rbind (read_block_verified ex file (fo_filter footer)) (\<lambda>_.
         rbind (read_block_verified ex file (fo_stats footer)) (\<lambda>sbuf.
         rbind (stats_decode sbuf) (\<lambda>stats.
         rbind (read_block_verified ex file (fo_index footer)) (\<lambda>index_payload.
         rbind (read_index (reader_new index_payload) \<lparr>ti_keys = [], ti_ends = [], ti_blocks = []\<rparr>) (\<lambda>index.
           if ti_blocks index = [] then Err (corrupt ''table has no data blocks'')
           else Ok \<lparr>ta_id = tid, ta_file = file, ta_index = index, ta_filter = fo_filter footer,
                    ta_stats = stats\<rparr>))))))))"

definition table_read_chunk :: "table \<Rightarrow> nat \<Rightarrow> nat \<Rightarrow> bytes res" where
  "table_read_chunk t off len =
     (let flen = file_len (ta_file t)
      in if flen \<le> off then Err (corrupt ''chunk offset {off} beyond table end {flen}'')
         else file_read_exact_at off (min len (flen - off)) (ta_file t))"

section \<open>Reading through the cache\<close>

text \<open>Operations that thread the shared cache; an error keeps what the cache has become.\<close>

definition cbind :: "('c \<Rightarrow> 'a res \<times> 'c) \<Rightarrow> ('a \<Rightarrow> 'c \<Rightarrow> 'b res \<times> 'c) \<Rightarrow> 'c \<Rightarrow> 'b res \<times> 'c" where
  "cbind m f c = (let (r, c) = m c in case r of Inl e \<Rightarrow> (Inl e, c) | Inr x \<Rightarrow> f x c)"

definition cres :: "'a res \<Rightarrow> 'c \<Rightarrow> 'a res \<times> 'c" where
  "cres r c = (r, c)"

definition table_cached :: "codecs \<Rightarrow> table \<Rightarrow> block_ref \<Rightarrow> block_cache \<Rightarrow> bytes res \<times> block_cache" where
  "table_cached ex t r c =
     (let (got, c) = cache_get (ta_id t) (br_off r) c
      in case got of
           Some payload \<Rightarrow> (Ok payload, c)
         | None \<Rightarrow>
             (case read_block_verified ex (ta_file t) r of
                Inl e \<Rightarrow> (Err e, c)
              | Inr payload \<Rightarrow> (Ok payload, cache_insert (ta_id t) (br_off r) payload c)))"

definition table_load_block :: "codecs \<Rightarrow> table \<Rightarrow> nat \<Rightarrow> block_cache \<Rightarrow> block res \<times> block_cache" where
  "table_load_block ex t idx =
     cbind (table_cached ex t (ti_block (ta_index t) idx)) (\<lambda>payload. cres (block_new payload))"

definition table_may_contain :: "codecs \<Rightarrow> table \<Rightarrow> bytes \<Rightarrow> block_cache \<Rightarrow> bool res \<times> block_cache" where
  "table_may_contain ex t ukey =
     (if ukey < stats_min_ukey (ta_stats t) \<or> stats_max_ukey (ta_stats t) < ukey then cres (Ok False)
      else cbind (table_cached ex t (ta_filter t)) (\<lambda>filt. cres (Ok (may_contain filt (hash64 ukey)))))"

definition table_get ::
    "codecs \<Rightarrow> table \<Rightarrow> bytes \<Rightarrow> seqno \<Rightarrow> block_cache \<Rightarrow> (value_kind \<times> seqno \<times> bytes) option res \<times> block_cache" where
  "table_get ex t ukey seq =
     cbind (table_may_contain ex t ukey) (\<lambda>maybe.
       if \<not> maybe then cres (Ok None)
       else
         let target = make_seek_ikey ukey seq;
             bi = ti_lower_bound (ta_index t) target
         in if ti_len (ta_index t) \<le> bi then cres (Ok None)
            else cbind (table_load_block ex t bi) (\<lambda>block. cres (
              rbind (block_lower_bound block target) (\<lambda>i.
                if bk_count block \<le> i then Ok None
                else rbind (block_entry block i) (\<lambda>(ik, repr).
                  if ikey_ukey ik \<noteq> ukey then Ok None
                  else rbind (ikey_kind ik) (\<lambda>kind. Ok (Some (kind, ikey_seqno ik, repr))))))))"

section \<open>The cursor over a table\<close>

record table_iter =
  tit_t :: table
  tit_idx :: nat
  tit_bi :: "block_iter option"
  tit_cache :: block_cache

definition table_iter_of :: "table \<Rightarrow> block_cache \<Rightarrow> table_iter" where
  "table_iter_of t c = \<lparr>tit_t = t, tit_idx = 0, tit_bi = None, tit_cache = c\<rparr>"

definition tit_load :: "codecs \<Rightarrow> nat \<Rightarrow> table_iter \<Rightarrow> table_iter res" where
  "tit_load ex idx s =
     (let s = s\<lparr>tit_idx := idx\<rparr>;
          (r, c) = table_load_block ex (tit_t s) idx (tit_cache s);
          s = s\<lparr>tit_cache := c\<rparr>
      in rbind r (\<lambda>b. Ok (s\<lparr>tit_bi := Some (block_iter_new b)\<rparr>)))"

text \<open>An operation of the block cursor; \<open>unwrap\<close> and \<open>expect\<close> on none.\<close>

definition tit_with :: "(block_iter \<Rightarrow> block_iter res) \<Rightarrow> table_iter \<Rightarrow> table_iter res" where
  "tit_with f s =
     (case tit_bi s of None \<Rightarrow> Err (Panic ''valid'') | Some b \<Rightarrow> rbind (f b) (\<lambda>b. Ok (s\<lparr>tit_bi := Some b\<rparr>)))"

definition tit_invalidate :: "table_iter \<Rightarrow> table_iter" where
  "tit_invalidate s = s\<lparr>tit_bi := None\<rparr>"

definition tit_valid :: "table_iter \<Rightarrow> bool" where
  "tit_valid s = (case tit_bi s of None \<Rightarrow> False | Some b \<Rightarrow> bi_valid b)"

definition tit_seek_to_first :: "codecs \<Rightarrow> table_iter \<Rightarrow> table_iter res" where
  "tit_seek_to_first ex s = rbind (tit_load ex 0 s) (tit_with bi_seek_to_first)"

definition tit_seek_to_last :: "codecs \<Rightarrow> table_iter \<Rightarrow> table_iter res" where
  "tit_seek_to_last ex s =
     rbind (tit_load ex (ti_len (ta_index (tit_t s)) - 1) s) (tit_with bi_seek_to_last)"

definition tit_seek :: "codecs \<Rightarrow> bytes \<Rightarrow> table_iter \<Rightarrow> table_iter res" where
  "tit_seek ex ikey s =
     (let ix = ta_index (tit_t s); bi = ti_lower_bound ix ikey
      in if ti_len ix \<le> bi then Ok (tit_invalidate s)
         else rbind (tit_load ex bi s) (\<lambda>s.
              rbind (tit_with (bi_seek ikey) s) (\<lambda>s.
                if \<not> tit_valid s
                then if bi + 1 < ti_len ix
                     then rbind (tit_load ex (bi + 1) s) (tit_with bi_seek_to_first)
                     else Ok (tit_invalidate s)
                else Ok s)))"

definition tit_seek_for_prev :: "codecs \<Rightarrow> bytes \<Rightarrow> table_iter \<Rightarrow> table_iter res" where
  "tit_seek_for_prev ex ikey s =
     (let ix = ta_index (tit_t s); bi = ti_lower_bound ix ikey
      in if ti_len ix \<le> bi then tit_seek_to_last ex s
         else rbind (tit_load ex bi s) (\<lambda>s.
              rbind (tit_with (bi_seek_for_prev ikey) s) (\<lambda>s.
                if \<not> tit_valid s
                then if bi = 0 then Ok (tit_invalidate s)
                     else rbind (tit_load ex (bi - 1) s) (tit_with bi_seek_to_last)
                else Ok s)))"

definition tit_next :: "codecs \<Rightarrow> table_iter \<Rightarrow> table_iter res" where
  "tit_next ex s =
     rbind (tit_with bi_next s) (\<lambda>s.
       if \<not> tit_valid s
       then if tit_idx s + 1 < ti_len (ta_index (tit_t s))
            then rbind (tit_load ex (tit_idx s + 1) s) (tit_with bi_seek_to_first)
            else Ok (tit_invalidate s)
       else Ok s)"

definition tit_prev :: "codecs \<Rightarrow> table_iter \<Rightarrow> table_iter res" where
  "tit_prev ex s =
     rbind (tit_with bi_prev s) (\<lambda>s.
       if \<not> tit_valid s
       then if 0 < tit_idx s
            then rbind (tit_load ex (tit_idx s - 1) s) (tit_with bi_seek_to_last)
            else Ok (tit_invalidate s)
       else Ok s)"

definition tit_ikey :: "table_iter \<Rightarrow> bytes" where
  "tit_ikey s = (case tit_bi s of Some b \<Rightarrow> bi_ikey b | None \<Rightarrow> undefined)"

definition tit_value :: "table_iter \<Rightarrow> bytes" where
  "tit_value s = (case tit_bi s of Some b \<Rightarrow> bi_value b | None \<Rightarrow> undefined)"

definition table_iter_ops :: "codecs \<Rightarrow> table_iter iter_ops" where
  "table_iter_ops ex = \<lparr>it_seek_to_first = tit_seek_to_first ex, it_seek_to_last = tit_seek_to_last ex,
     it_seek = tit_seek ex, it_seek_for_prev = tit_seek_for_prev ex, it_valid = tit_valid,
     it_next = tit_next ex, it_prev = tit_prev ex, it_ikey = tit_ikey, it_value = tit_value\<rparr>"

section \<open>What a sound table holds\<close>

definition table_refs :: "table \<Rightarrow> block_ref list" where
  "table_refs t = ta_filter t # ti_blocks (ta_index t)"

definition table_parts :: "codecs \<Rightarrow> table \<Rightarrow> entry list list" where
  "table_parts ex t = map (\<lambda>r. case read_block_verified ex (ta_file t) r of
       Inl _ \<Rightarrow> [] | Inr p \<Rightarrow> (case block_new p of Inl _ \<Rightarrow> [] | Inr b \<Rightarrow> block_entries b)) (ti_blocks (ta_index t))"

definition table_entries :: "codecs \<Rightarrow> table \<Rightarrow> entry list" where
  "table_entries ex t = concat (table_parts ex t)"

definition table_block_at :: "codecs \<Rightarrow> table \<Rightarrow> nat \<Rightarrow> entry list \<Rightarrow> bool" where
  "table_block_at ex t i es \<longleftrightarrow> (\<exists>p b. read_block_verified ex (ta_file t) (ti_block (ta_index t) i) = Ok p \<and>
     block_new p = Ok b \<and> block_holds b es)"

definition table_filter_ok :: "codecs \<Rightarrow> table \<Rightarrow> bool" where
  "table_filter_ok ex t \<longleftrightarrow> (\<exists>p. read_block_verified ex (ta_file t) (ta_filter t) = Ok p \<and>
     (\<forall>e \<in> set (table_entries ex t). may_contain p (hash64 (ikey_ukey (fst e)))))"

definition table_range_ok :: "codecs \<Rightarrow> table \<Rightarrow> bool" where
  "table_range_ok ex t \<longleftrightarrow> (\<forall>e \<in> set (table_entries ex t).
     stats_min_ukey (ta_stats t) \<le> ikey_ukey (fst e) \<and> ikey_ukey (fst e) \<le> stats_max_ukey (ta_stats t))"

definition table_sound :: "codecs \<Rightarrow> table \<Rightarrow> bool" where
  "table_sound ex t \<longleftrightarrow>
     parts_sorted (table_parts ex t) \<and> ti_blocks (ta_index t) \<noteq> [] \<and>
     (\<forall>i < ti_len (ta_index t). table_block_at ex t i (table_parts ex t ! i) \<and>
        ti_key (ta_index t) i = fst (last (table_parts ex t ! i))) \<and>
     distinct (map br_off (table_refs t)) \<and> table_filter_ok ex t \<and> table_range_ok ex t"

text \<open>
  The cache is shared by everything that reads files. \<open>P k v\<close> says that \<open>v\<close> is what the files hold
  under the cache key \<open>k\<close>: a table whose blocks agree with \<open>P\<close> may use any cache that satisfies it.
\<close>

abbreviation cache_holds :: "(cache_key \<Rightarrow> bytes \<Rightarrow> bool) \<Rightarrow> block_cache \<Rightarrow> bool" where
  "cache_holds \<equiv> blocks.all_cached"

definition table_on :: "codecs \<Rightarrow> (cache_key \<Rightarrow> bytes \<Rightarrow> bool) \<Rightarrow> table \<Rightarrow> bool" where
  "table_on ex P t \<longleftrightarrow> (\<forall>r \<in> set (table_refs t). \<forall>v.
     P (ta_id t, br_off r) v \<longleftrightarrow> read_block_verified ex (ta_file t) r = Ok v)"

text \<open>Tables with different ids, and sound tables on their own, always agree with some \<open>P\<close>.\<close>

definition tables_hold :: "codecs \<Rightarrow> table list \<Rightarrow> cache_key \<Rightarrow> bytes \<Rightarrow> bool" where
  "tables_hold ex ts k v \<longleftrightarrow> (\<forall>t \<in> set ts. \<forall>r \<in> set (table_refs t).
     (ta_id t, br_off r) = k \<longrightarrow> read_block_verified ex (ta_file t) r = Ok v)"

lemma table_refs_unique:
  "table_sound ex t \<Longrightarrow> r \<in> set (table_refs t) \<Longrightarrow> r' \<in> set (table_refs t) \<Longrightarrow> br_off r = br_off r' \<Longrightarrow> r = r'"
  unfolding table_sound_def distinct_map by (meson inj_onD)

lemma tables_hold_on:
  assumes "distinct (map ta_id ts)" and "t \<in> set ts" and "table_sound ex t"
  shows "table_on ex (tables_hold ex ts) t"
proof -
  have "t' = t" if "t' \<in> set ts" "ta_id t' = ta_id t" for t'
    using that assms(1,2) by (simp add: distinct_map inj_on_def)
  then show ?thesis
    using assms(2) table_refs_unique [OF assms(3)] unfolding table_on_def tables_hold_def by (metis prod.inject)
qed

lemma length_table_parts [simp]: "length (table_parts ex t) = ti_len (ta_index t)"
  by (simp add: table_parts_def ti_len_def)

lemma table_cached_fits:
  assumes t: "table_on ex P t" and r: "r \<in> set (table_refs t)"
    and p: "read_block_verified ex (ta_file t) r = Ok p" and c: "cache_holds P c"
  shows "\<exists>c'. table_cached ex t r c = (Ok p, c') \<and> cache_holds P c'"
proof -
  obtain got c1 where g: "cache_get (ta_id t) (br_off r) c = (got, c1)" by fastforce
  note gg = blocks.all_cached_get [OF c g]
  have P: "P (ta_id t, br_off r) v \<longleftrightarrow> v = p" for v using t r p by (auto simp: table_on_def)
  show ?thesis
  proof (cases got)
    case (Some v)
    then show ?thesis using gg g P by (auto simp: table_cached_def)
  next
    case None
    have "cache_holds P (cache_insert (ta_id t) (br_off r) p c1)"
      using gg P by (intro blocks.all_cached_insert) simp_all
    then show ?thesis using g None p by (simp add: table_cached_def)
  qed
qed

lemma table_load_fits:
  assumes t: "table_sound ex t" and on: "table_on ex P t" and i: "i < ti_len (ta_index t)" and c: "cache_holds P c"
  shows "\<exists>b c'. table_load_block ex t i c = (Ok b, c') \<and> cache_holds P c' \<and> block_holds b (table_parts ex t ! i)"
proof -
  obtain p b where pb: "read_block_verified ex (ta_file t) (ti_block (ta_index t) i) = Ok p"
      "block_new p = Ok b" "block_holds b (table_parts ex t ! i)"
    using t i by (auto simp: table_sound_def table_block_at_def)
  have "ti_block (ta_index t) i \<in> set (table_refs t)" using i by (simp add: table_refs_def ti_block_def ti_len_def)
  from table_cached_fits [OF on this pb(1) c] pb(2,3) show ?thesis
    by (auto simp: table_load_block_def cbind_def cres_def)
qed

lemma ti_lower_bound_part_for:
  assumes "table_sound ex t"
  shows "ti_lower_bound (ta_index t) ik = part_for ik (table_parts ex t)"
proof -
  let ?ix = "ta_index t" and ?ess = "table_parts ex t"
  let ?p = "\<lambda>es. cmp_ikey (fst (last es)) ik = Less"
  have pp: "prefix_on ?p ?ess" using assms by (intro parts_sorted_prefix_on) (simp add: table_sound_def)
  have eq: "cmp_ikey (ti_key ?ix i) ik = Less \<longleftrightarrow> ?p (?ess ! i)" if "i < ti_len ?ix" for i
    using assms that by (simp add: table_sound_def)
  have "is_partition_point (\<lambda>i. ?p (?ess ! i)) (ti_len ?ix) (part_for ik ?ess)"
    using takeWhile_partition_point [OF pp] by (simp add: part_for_def)
  then have "is_partition_point (\<lambda>i. cmp_ikey (ti_key ?ix i) ik = Less) (ti_len ?ix) (part_for ik ?ess)"
    using eq unfolding is_partition_point_def by (metis order_less_le_trans)
  moreover have "prefix_pred (\<lambda>i. cmp_ikey (ti_key ?ix i) ik = Less) (ti_len ?ix)"
    using prefix_on_prefix_pred [OF pp] eq unfolding prefix_pred_def length_table_parts
    by (meson order_le_less_trans)
  ultimately show ?thesis
    unfolding ti_lower_bound_def by (intro partition_point_unique [OF bsearch_partition_point])
qed

section \<open>Lookups\<close>

definition opt_hit :: "entry option \<Rightarrow> (value_kind \<times> seqno \<times> bytes) option res" where
  "opt_hit x = (case x of None \<Rightarrow> Ok None | Some e \<Rightarrow> rbind (hit_of e) (\<lambda>h. Ok (Some h)))"

lemma table_may_contain_fits:
  assumes t: "table_sound ex t" and on: "table_on ex P t" and c: "cache_holds P c"
  shows "\<exists>m c'. table_may_contain ex t u c = (Ok m, c') \<and> cache_holds P c'
    \<and> (\<not> m \<longrightarrow> (\<forall>e \<in> set (table_entries ex t). ikey_ukey (fst e) \<noteq> u))"
proof (cases "u < stats_min_ukey (ta_stats t) \<or> stats_max_ukey (ta_stats t) < u")
  case True
  then have "ikey_ukey (fst e) \<noteq> u" if "e \<in> set (table_entries ex t)" for e
    using t that by (auto simp: table_sound_def table_range_ok_def)
  with True c show ?thesis by (intro exI [of _ False] exI [of _ c]) (simp add: table_may_contain_def cres_def)
next
  case False
  obtain p where p: "read_block_verified ex (ta_file t) (ta_filter t) = Ok p"
    "\<forall>e \<in> set (table_entries ex t). may_contain p (hash64 (ikey_ukey (fst e)))"
    using t by (auto simp: table_sound_def table_filter_ok_def)
  have "ta_filter t \<in> set (table_refs t)" by (simp add: table_refs_def)
  from table_cached_fits [OF on this p(1) c] p(2) False show ?thesis
    by (auto simp: table_may_contain_def cbind_def cres_def)
qed

lemma seek_first_from_key: "seek_first es ik = (case from_key ik es of [] \<Rightarrow> None | e # _ \<Rightarrow> Some e)"
  by (simp add: seek_first_def from_key_def)

lemma table_get_lookup:
  assumes t: "table_sound ex t" and on: "table_on ex P t" and c: "cache_holds P c" and s: "s \<le> max_seqno"
  shows "\<exists>c'. table_get ex t u s c = (opt_hit (lookup_at (table_entries ex t) u s), c') \<and> cache_holds P c'"
proof -
  let ?ess = "table_parts ex t" and ?target = "make_seek_ikey u s"
  have srt: "parts_sorted ?ess" using t by (simp add: table_sound_def)
  obtain m c1 where m: "table_may_contain ex t u c = (Ok m, c1)" "cache_holds P c1"
    "\<not> m \<longrightarrow> (\<forall>e \<in> set (table_entries ex t). ikey_ukey (fst e) \<noteq> u)"
    using table_may_contain_fits [OF t on c] by blast
  have look: "lookup_at (table_entries ex t) u s = seek_get (concat ?ess) u s"
    using srt s by (simp add: seek_get_lookup_at table_entries_def parts_sorted_def)
  show ?thesis
  proof (cases m)
    case False
    then have "lookup_at (table_entries ex t) u s = None"
      using m(3) by (auto simp: lookup_at_None_iff is_version_def)
    then show ?thesis using m False by (simp add: table_get_def cbind_def cres_def opt_hit_def)
  next
    case True
    define i where "i = part_for ?target ?ess"
    have lb: "ti_lower_bound (ta_index t) ?target = i"
      unfolding i_def by (rule ti_lower_bound_part_for [OF t])
    show ?thesis
    proof (cases "i < ti_len (ta_index t)")
      case False
      then have "i = length ?ess" using part_for_le [of ?target ?ess] by (simp add: i_def)
      then have "lookup_at (table_entries ex t) u s = None"
        unfolding look seek_get_def seek_first_from_key using seek_parts_none [OF srt] by (simp add: i_def)
      then show ?thesis using m True False lb by (simp add: table_get_def cbind_def cres_def opt_hit_def)
    next
      case i: True
      obtain b c2 where b: "table_load_block ex t i c1 = (Ok b, c2)" "cache_holds P c2" "block_holds b (?ess ! i)"
        using table_load_fits [OF t on i m(2)] by blast
      have es: "entries_sorted (?ess ! i)" using parts_sorted_in [OF srt, of "?ess ! i"] i by simp
      let ?j = "length (takeWhile (\<lambda>e. cmp_ikey (fst e) ?target = Less) (?ess ! i))"
      have j: "block_lower_bound b ?target = Ok ?j" by (rule block_lower_bound_holds [OF b(3) es])
      have i': "part_for ?target ?ess < length ?ess" using i by (simp add: i_def)
      note sp = seek_parts [OF srt i', folded i_def]
      have fk: "from_key ?target (?ess ! i) = drop ?j (?ess ! i)" by (simp add: from_key_def dropWhile_eq_drop)
      then have jl: "?j < length (?ess ! i)" using sp(2) by (metis drop_all leI)
      then have e: "block_entry b ?j = Ok (?ess ! i ! ?j)" "bk_count b = length (?ess ! i)"
        using b(3) by (auto simp: block_holds_def)
      have "seek_first (concat ?ess) ?target = Some (?ess ! i ! ?j)"
        using sp(1) fk jl by (simp add: seek_first_from_key Cons_nth_drop_Suc [symmetric])
      then show ?thesis unfolding look seek_get_def
        using m True i lb b j jl e
        by (auto simp: table_get_def cbind_def cres_def opt_hit_def hit_of_def split_def rbind_assoc
            Let_def not_le simp del: cmp_ikey_simps)
    qed
  qed
qed

section \<open>The cursor meets the contract\<close>

definition tit_core :: "codecs \<Rightarrow> (cache_key \<Rightarrow> bytes \<Rightarrow> bool) \<Rightarrow> table_iter \<Rightarrow> bool" where
  "tit_core ex P s \<longleftrightarrow> table_sound ex (tit_t s) \<and> table_on ex P (tit_t s) \<and> cache_holds P (tit_cache s)"

definition tit_good :: "codecs \<Rightarrow> (cache_key \<Rightarrow> bytes \<Rightarrow> bool) \<Rightarrow> table_iter \<Rightarrow> bool" where
  "tit_good ex P s \<longleftrightarrow> tit_core ex P s \<and> (case tit_bi s of None \<Rightarrow> True | Some b \<Rightarrow>
     bi_inv b \<and> tit_idx s < ti_len (ta_index (tit_t s)) \<and> bi_contents b = table_parts ex (tit_t s) ! tit_idx s)"

definition tit_contents :: "codecs \<Rightarrow> table_iter \<Rightarrow> entry list" where
  "tit_contents ex s = table_entries ex (tit_t s)"

definition tit_forward :: "codecs \<Rightarrow> table_iter \<Rightarrow> entry list" where
  "tit_forward ex s = (case tit_bi s of None \<Rightarrow> [] | Some b \<Rightarrow>
     if bi_valid b then bi_forward b @ concat (drop (Suc (tit_idx s)) (table_parts ex (tit_t s))) else [])"

definition tit_backward :: "codecs \<Rightarrow> table_iter \<Rightarrow> entry list" where
  "tit_backward ex s = (case tit_bi s of None \<Rightarrow> [] | Some b \<Rightarrow>
     if bi_valid b then bi_backward b @ rev (concat (take (tit_idx s) (table_parts ex (tit_t s)))) else [])"

lemma bi_valid_forward: "bi_inv b \<Longrightarrow> bi_valid b \<longleftrightarrow> bi_forward b \<noteq> []"
  using bif.valid [of b] by (simp add: block_iter_ops_def)

lemma bi_valid_backward: "bi_inv b \<Longrightarrow> bi_valid b \<longleftrightarrow> bi_backward b \<noteq> []"
  using bir.valid [of b] by (simp add: block_iter_ops_def)

lemma tit_with_moves:
  assumes s: "tit_good ex P s" "tit_bi s = Some b"
    and f: "moves bi_inv bi_contents pend (f b) (bi_contents b) rest"
  shows "\<exists>s' b'. tit_with f s = Ok s' \<and> tit_good ex P s' \<and> tit_t s' = tit_t s \<and> tit_idx s' = tit_idx s
    \<and> tit_bi s' = Some b' \<and> bi_inv b' \<and> pend b' = rest"
  using assms by (elim movesE) (auto simp: tit_with_def tit_good_def tit_core_def)

lemma tit_load_good:
  assumes s: "tit_core ex P s" and i: "i < ti_len (ta_index (tit_t s))"
  shows "\<exists>s' b'. tit_load ex i s = Ok s' \<and> tit_good ex P s' \<and> tit_t s' = tit_t s \<and> tit_idx s' = i
    \<and> tit_bi s' = Some b' \<and> bi_inv b' \<and> bi_contents b' = table_parts ex (tit_t s) ! i"
proof -
  have t: "table_sound ex (tit_t s)" "table_on ex P (tit_t s)" "cache_holds P (tit_cache s)" using s by (simp_all add: tit_core_def)
  obtain b c where b: "table_load_block ex (tit_t s) i (tit_cache s) = (Ok b, c)" "cache_holds P c"
    "block_holds b (table_parts ex (tit_t s) ! i)"
    using table_load_fits [OF t(1,2) i t(3)] by blast
  have "entries_sorted (table_parts ex (tit_t s) ! i)"
    using t(1) parts_sorted_in [of "table_parts ex (tit_t s)"] i by (simp add: table_sound_def)
  then have "bi_inv (block_iter_new b)" "bi_contents (block_iter_new b) = table_parts ex (tit_t s) ! i"
    using b(3) block_holds_entries [OF b(3)] by (simp_all add: bi_defs block_iter_new_def)
  then show ?thesis using b t i by (auto simp: tit_load_def tit_good_def tit_core_def)
qed

lemma tit_load_with:
  assumes s: "tit_core ex P s" and i: "i < ti_len (ta_index (tit_t s))"
    and f: "\<And>b. bi_inv b \<Longrightarrow> bi_contents b = table_parts ex (tit_t s) ! i \<Longrightarrow>
      moves bi_inv bi_contents pend (f b) (bi_contents b) rest"
  shows "\<exists>s' b'. rbind (tit_load ex i s) (tit_with f) = Ok s' \<and> tit_good ex P s' \<and> tit_t s' = tit_t s \<and> tit_idx s' = i
    \<and> tit_bi s' = Some b' \<and> bi_inv b' \<and> pend b' = rest"
proof -
  obtain s1 b1 where s1: "tit_load ex i s = Ok s1" "tit_good ex P s1" "tit_t s1 = tit_t s" "tit_idx s1 = i"
    "tit_bi s1 = Some b1" "bi_inv b1" "bi_contents b1 = table_parts ex (tit_t s) ! i"
    using tit_load_good [OF s i] by blast
  from tit_with_moves [where f = f and pend = pend and rest = rest, OF s1(2,5) f [OF s1(6,7)]] s1
  show ?thesis by auto
qed

lemma tit_good_core: "tit_good ex P s \<Longrightarrow> tit_core ex P s"
  by (simp add: tit_good_def)

lemma tit_part: "tit_core ex P s \<Longrightarrow> i < ti_len (ta_index (tit_t s)) \<Longrightarrow> table_parts ex (tit_t s) ! i \<noteq> []"
  using parts_sorted_in [of "table_parts ex (tit_t s)"] by (simp add: tit_core_def table_sound_def)

lemma tit_first_moves:
  assumes s: "tit_core ex P s" and i: "i < ti_len (ta_index (tit_t s))"
  shows "moves (tit_good ex P) (tit_contents ex) (tit_forward ex) (rbind (tit_load ex i s) (tit_with bi_seek_to_first))
    (tit_contents ex s) (concat (drop i (table_parts ex (tit_t s))))"
proof -
  have "\<exists>s' b'. rbind (tit_load ex i s) (tit_with bi_seek_to_first) = Ok s' \<and> tit_good ex P s' \<and> tit_t s' = tit_t s
      \<and> tit_idx s' = i \<and> tit_bi s' = Some b' \<and> bi_inv b' \<and> bi_forward b' = table_parts ex (tit_t s) ! i"
    by (rule tit_load_with [OF s i]) (use bif.seek_to_first in \<open>fastforce simp: block_iter_ops_def\<close>)
  then show ?thesis using tit_part [OF s i] i
    by (auto simp: tit_contents_def tit_forward_def bi_valid_forward Cons_nth_drop_Suc [symmetric])
qed

lemma tit_last_moves:
  assumes s: "tit_core ex P s" and i: "i < ti_len (ta_index (tit_t s))"
  shows "moves (tit_good ex P) (tit_contents ex) (tit_backward ex) (rbind (tit_load ex i s) (tit_with bi_seek_to_last))
    (tit_contents ex s) (rev (concat (take (Suc i) (table_parts ex (tit_t s)))))"
proof -
  have "\<exists>s' b'. rbind (tit_load ex i s) (tit_with bi_seek_to_last) = Ok s' \<and> tit_good ex P s' \<and> tit_t s' = tit_t s
      \<and> tit_idx s' = i \<and> tit_bi s' = Some b' \<and> bi_inv b' \<and> bi_backward b' = rev (table_parts ex (tit_t s) ! i)"
    by (rule tit_load_with [OF s i]) (use bir.seek_to_last in \<open>fastforce simp: block_iter_ops_def\<close>)
  then show ?thesis using tit_part [OF s i] i
    by (auto simp: tit_contents_def tit_backward_def bi_valid_backward take_Suc_conv_app_nth)
qed

lemma tit_invalidate_good:
  "tit_core ex P s \<Longrightarrow> tit_good ex P (tit_invalidate s) \<and> tit_contents ex (tit_invalidate s) = tit_contents ex s
     \<and> tit_forward ex (tit_invalidate s) = [] \<and> tit_backward ex (tit_invalidate s) = []"
  by (simp add: tit_invalidate_def tit_good_def tit_core_def tit_contents_def tit_forward_def tit_backward_def)

lemma tit_valid_bi: "tit_bi s = Some b \<Longrightarrow> tit_valid s = bi_valid b"
  by (simp add: tit_valid_def)

lemma tit_pos:
  assumes "tit_core ex P s"
  shows "0 < ti_len (ta_index (tit_t s))"
    and "parts_sorted (table_parts ex (tit_t s))" and "ti_lower_bound (ta_index (tit_t s)) ik = part_for ik (table_parts ex (tit_t s))"
  using assms ti_lower_bound_part_for by (simp_all add: tit_core_def table_sound_def ti_len_def)

lemma tit_seek_moves:
  assumes s: "tit_good ex P s"
  shows "moves (tit_good ex P) (tit_contents ex) (tit_forward ex) (tit_seek ex ik s) (tit_contents ex s)
    (from_key ik (tit_contents ex s))"
proof -
  let ?ess = "table_parts ex (tit_t s)" and ?i = "part_for ik (table_parts ex (tit_t s))"
  note core = tit_good_core [OF s]
  note pos = tit_pos [OF core]
  show ?thesis
  proof (cases "?i < ti_len (ta_index (tit_t s))")
    case False
    then have i: "?i = length ?ess" using part_for_le [of ik ?ess] by simp
    with False show ?thesis using tit_invalidate_good [OF core] seek_parts_none [OF pos(2) i]
      by (simp add: tit_seek_def pos(3) Let_def tit_contents_def table_entries_def)
  next
    case True
    then have i: "?i < length ?ess" by simp
    note sp = seek_parts [OF pos(2) i]
    obtain s1 b1 where s1: "tit_load ex ?i s = Ok s1" "tit_good ex P s1" "tit_t s1 = tit_t s" "tit_idx s1 = ?i"
      "tit_bi s1 = Some b1" "bi_inv b1" "bi_contents b1 = ?ess ! ?i"
      using tit_load_good [OF core True] by blast
    obtain s2 b2 where s2: "tit_with (bi_seek ik) s1 = Ok s2" "tit_good ex P s2" "tit_t s2 = tit_t s1"
      "tit_idx s2 = tit_idx s1" "tit_bi s2 = Some b2" "bi_inv b2" "bi_forward b2 = from_key ik (bi_contents b1)"
      using tit_with_moves [OF s1(2,5), of bi_forward "bi_seek ik"] bif.seek [OF s1(6)]
      by (fastforce simp: block_iter_ops_def)
    have "bi_valid b2" using s2(6,7) s1(7) sp(2) by (simp add: bi_valid_forward)
    then show ?thesis using s1 s2 True sp(1)
      by (simp add: tit_seek_def pos(3) Let_def tit_valid_bi tit_contents_def tit_forward_def table_entries_def)
  qed
qed

lemma tit_seek_to_last_moves:
  assumes "tit_good ex P s"
  shows "moves (tit_good ex P) (tit_contents ex) (tit_backward ex) (tit_seek_to_last ex s) (tit_contents ex s)
    (rev (tit_contents ex s))"
  using tit_last_moves [OF tit_good_core [OF assms], of "ti_len (ta_index (tit_t s)) - 1"] tit_pos [OF tit_good_core [OF assms]]
  by (simp add: tit_seek_to_last_def tit_contents_def table_entries_def)

lemma tit_seek_for_prev_moves:
  assumes s: "tit_good ex P s"
  shows "moves (tit_good ex P) (tit_contents ex) (tit_backward ex) (tit_seek_for_prev ex ik s) (tit_contents ex s)
    (upto_key ik (tit_contents ex s))"
proof -
  let ?ess = "table_parts ex (tit_t s)" and ?i = "part_for ik (table_parts ex (tit_t s))"
  note core = tit_good_core [OF s]
  note pos = tit_pos [OF core]
  show ?thesis
  proof (cases "?i < ti_len (ta_index (tit_t s))")
    case False
    then have i: "?i = length ?ess" using part_for_le [of ik ?ess] by simp
    with False show ?thesis using tit_seek_to_last_moves [OF s] seek_parts_none [OF pos(2) i]
      by (simp add: tit_seek_for_prev_def pos(3) Let_def tit_contents_def table_entries_def)
  next
    case True
    then have i: "?i < length ?ess" by simp
    note sp = seek_parts [OF pos(2) i]
    obtain s1 b1 where s1: "tit_load ex ?i s = Ok s1" "tit_good ex P s1" "tit_t s1 = tit_t s" "tit_idx s1 = ?i"
      "tit_bi s1 = Some b1" "bi_inv b1" "bi_contents b1 = ?ess ! ?i"
      using tit_load_good [OF core True] by blast
    obtain s2 b2 where s2: "tit_with (bi_seek_for_prev ik) s1 = Ok s2" "tit_good ex P s2" "tit_t s2 = tit_t s1"
      "tit_idx s2 = tit_idx s1" "tit_bi s2 = Some b2" "bi_inv b2" "bi_backward b2 = upto_key ik (bi_contents b1)"
      using tit_with_moves [OF s1(2,5), of bi_backward "bi_seek_for_prev ik"] bir.seek_for_prev [OF s1(6)]
      by (fastforce simp: block_iter_ops_def)
    have full: "upto_key ik (tit_contents ex s) = upto_key ik (?ess ! ?i) @ rev (concat (take ?i ?ess))"
      using sp(3) by (simp add: tit_contents_def table_entries_def)
    show ?thesis
    proof (cases "bi_valid b2")
      case v: True
      then show ?thesis using s1 s2 True full
        by (simp add: tit_seek_for_prev_def pos(3) Let_def tit_valid_bi tit_backward_def)
          (simp add: tit_contents_def)
    next
      case v: False
      then have e: "upto_key ik (?ess ! ?i) = []" using s2(6,7) s1(7) by (simp add: bi_valid_backward)
      show ?thesis
      proof (cases "?i = 0")
        case True
        then show ?thesis using s1 s2 v e full pos(1) tit_invalidate_good [OF tit_good_core [OF s2(2)]]
          by (simp add: tit_seek_for_prev_def pos(3) Let_def tit_valid_bi) (simp add: tit_contents_def)
      next
        case False
        have "?i - 1 < ti_len (ta_index (tit_t s2))" using True s1(3) s2(3) by simp
        from tit_last_moves [OF tit_good_core [OF s2(2)] this] show ?thesis
          using s1 s2 v e full True False
          by (simp add: tit_seek_for_prev_def pos(3) Let_def tit_valid_bi) (simp add: tit_contents_def)
      qed
    qed
  qed
qed

lemma tit_next_moves:
  assumes s: "tit_good ex P s" and f: "tit_forward ex s = e # es"
  shows "moves (tit_good ex P) (tit_contents ex) (tit_forward ex) (tit_next ex s) (tit_contents ex s) es"
proof -
  let ?ess = "table_parts ex (tit_t s)"
  obtain b where b: "tit_bi s = Some b" "bi_valid b" "e # es = bi_forward b @ concat (drop (Suc (tit_idx s)) ?ess)"
    using f by (auto simp: tit_forward_def split: option.splits if_splits)
  have bi: "bi_inv b" using s b(1) by (simp add: tit_good_def)
  then obtain fs where fs: "bi_forward b = e # fs" "es = fs @ concat (drop (Suc (tit_idx s)) ?ess)"
    using b(2,3) by (cases "bi_forward b") (auto simp: bi_valid_forward)
  obtain s1 b1 where s1: "tit_with bi_next s = Ok s1" "tit_good ex P s1" "tit_t s1 = tit_t s" "tit_idx s1 = tit_idx s"
      "tit_bi s1 = Some b1" "bi_inv b1" "bi_forward b1 = fs"
    using tit_with_moves [OF s b(1), of bi_forward bi_next] bif.step [OF bi fs(1)]
    by (fastforce simp: block_iter_ops_def)
  have c: "tit_contents ex s1 = tit_contents ex s" using s1(3) by (simp add: tit_contents_def)
  show ?thesis
  proof (cases "bi_valid b1")
    case True
    then show ?thesis using s1 fs c by (simp add: tit_next_def tit_valid_bi tit_forward_def)
  next
    case False
    then have nil: "fs = []" using s1(6,7) by (simp add: bi_valid_forward)
    show ?thesis
    proof (cases "tit_idx s + 1 < ti_len (ta_index (tit_t s))")
      case True
      then have "tit_idx s + 1 < ti_len (ta_index (tit_t s1))" using s1(3) by simp
      from tit_first_moves [OF tit_good_core [OF s1(2)] this] show ?thesis
        using True False nil s1 fs c by (simp add: tit_next_def tit_valid_bi)
    next
      case f: False
      then show ?thesis using False nil s1 fs c tit_invalidate_good [OF tit_good_core [OF s1(2)]]
        by (simp add: tit_next_def tit_valid_bi)
    qed
  qed
qed

lemma tit_prev_moves:
  assumes s: "tit_good ex P s" and f: "tit_backward ex s = e # es"
  shows "moves (tit_good ex P) (tit_contents ex) (tit_backward ex) (tit_prev ex s) (tit_contents ex s) es"
proof -
  let ?ess = "table_parts ex (tit_t s)"
  obtain b where b: "tit_bi s = Some b" "bi_valid b" "e # es = bi_backward b @ rev (concat (take (tit_idx s) ?ess))"
    using f by (auto simp: tit_backward_def split: option.splits if_splits)
  have bi: "bi_inv b" and idx: "tit_idx s < ti_len (ta_index (tit_t s))" using s b(1) by (simp_all add: tit_good_def)
  then obtain fs where fs: "bi_backward b = e # fs" "es = fs @ rev (concat (take (tit_idx s) ?ess))"
    using b(2,3) by (cases "bi_backward b") (auto simp: bi_valid_backward)
  obtain s1 b1 where s1: "tit_with bi_prev s = Ok s1" "tit_good ex P s1" "tit_t s1 = tit_t s" "tit_idx s1 = tit_idx s"
      "tit_bi s1 = Some b1" "bi_inv b1" "bi_backward b1 = fs"
    using tit_with_moves [OF s b(1), of bi_backward bi_prev] bir.step [OF bi fs(1)]
    by (fastforce simp: block_iter_ops_def)
  have c: "tit_contents ex s1 = tit_contents ex s" using s1(3) by (simp add: tit_contents_def)
  show ?thesis
  proof (cases "bi_valid b1")
    case True
    then show ?thesis using s1 fs c by (simp add: tit_prev_def tit_valid_bi tit_backward_def)
  next
    case False
    then have nil: "fs = []" using s1(6,7) by (simp add: bi_valid_backward)
    show ?thesis
    proof (cases "tit_idx s")
      case 0
      then show ?thesis using False nil s1 fs c tit_invalidate_good [OF tit_good_core [OF s1(2)]]
        by (simp add: tit_prev_def tit_valid_bi)
    next
      case (Suc i)
      then have "i < ti_len (ta_index (tit_t s1))" using idx s1(3) by simp
      from tit_last_moves [OF tit_good_core [OF s1(2)] this] show ?thesis
        using Suc False nil s1 fs c by (simp add: tit_prev_def tit_valid_bi)
    qed
  qed
qed

lemma tit_key_value:
  assumes s: "tit_good ex P s"
  shows "tit_forward ex s = e # es \<Longrightarrow> (tit_ikey s, tit_value s) = e"
    and "tit_backward ex s = e # es \<Longrightarrow> (tit_ikey s, tit_value s) = e"
proof -
  { fix b assume b: "tit_bi s = Some b" "bi_valid b"
    then have bi: "bi_inv b" using s by (simp add: tit_good_def)
    then have "bi_forward b \<noteq> []" "bi_backward b \<noteq> []" using b by (simp_all add: bi_valid_forward [symmetric] bi_valid_backward [symmetric])
    then have "(tit_ikey s, tit_value s) = hd (bi_forward b)" "(tit_ikey s, tit_value s) = hd (bi_backward b)"
      using bif.key_value [OF bi] bir.key_value [OF bi] b(1)
      by (auto simp: tit_ikey_def tit_value_def block_iter_ops_def neq_Nil_conv)
    note this \<open>bi_forward b \<noteq> []\<close> \<open>bi_backward b \<noteq> []\<close> }
  note * = this
  show "tit_forward ex s = e # es \<Longrightarrow> (tit_ikey s, tit_value s) = e"
    using * by (auto simp: tit_forward_def append_eq_Cons_conv split: option.splits if_splits)
  show "tit_backward ex s = e # es \<Longrightarrow> (tit_ikey s, tit_value s) = e"
    using * by (auto simp: tit_backward_def append_eq_Cons_conv split: option.splits if_splits)
qed

lemma tit_sorted: "tit_good ex P s \<Longrightarrow> entries_sorted (tit_contents ex s)"
  by (simp add: tit_good_def tit_core_def table_sound_def parts_sorted_def tit_contents_def table_entries_def)

lemma tit_valid_iff:
  "tit_good ex P s \<Longrightarrow> tit_valid s \<longleftrightarrow> tit_forward ex s \<noteq> []"
  "tit_good ex P s \<Longrightarrow> tit_valid s \<longleftrightarrow> tit_backward ex s \<noteq> []"
  by (auto simp: tit_good_def tit_valid_def tit_forward_def tit_backward_def bi_valid_forward split: option.splits)
    (auto simp: bi_valid_forward [symmetric] bi_valid_backward)

interpretation titf: forward_iterator "table_iter_ops ex" "tit_good ex P" "tit_contents ex" "tit_forward ex" for ex P
proof
  fix s assume s: "tit_good ex P s"
  show "moves (tit_good ex P) (tit_contents ex) (tit_forward ex) (it_seek_to_first (table_iter_ops ex) s)
      (tit_contents ex s) (tit_contents ex s)"
    using tit_first_moves [OF tit_good_core [OF s], of 0] tit_pos [OF tit_good_core [OF s]]
    by (simp add: table_iter_ops_def tit_seek_to_first_def) (simp add: tit_contents_def table_entries_def)
qed (auto simp: table_iter_ops_def tit_sorted tit_valid_iff(1) tit_key_value tit_next_moves tit_seek_moves)

interpretation titr: reverse_iterator "table_iter_ops ex" "tit_good ex P" "tit_contents ex" "tit_backward ex" for ex P
  by unfold_locales
    (auto simp: table_iter_ops_def tit_sorted tit_valid_iff(2) tit_key_value tit_prev_moves
      tit_seek_to_last_moves tit_seek_for_prev_moves)

end
