(* ===== verification/Vlog.thy ===== *)
theory Vlog
  imports Types FileIo Cache
begin

text \<open>
  \<open>crates/fluent31/src/vlog.rs\<close>: the value log. A record embeds its key, every dereference
  checks it; the file is scanned up to its first invalid record. The checksum is external: a
  parameter \<open>crc\<close>.
\<close>

section \<open>Records\<close>

definition encode_record :: "(bytes \<Rightarrow> u32) \<Rightarrow> bytes \<Rightarrow> bytes \<Rightarrow> bytes" where
  "encode_record crc key val =
     (let body = put_uvarint [] (of_nat (length key));
          body = put_uvarint body (of_nat (length val));
          body = body @ key;
          body = body @ val
      in le_bytes 4 (crc body) @ body)"

definition parse_record :: "(bytes \<Rightarrow> u32) \<Rightarrow> bytes \<Rightarrow> (bytes \<times> bytes) res" where
  "parse_record crc bs =
     rbind (reader_u32 (reader_new bs)) (\<lambda>(c, r).
       if crc (drop 4 bs) \<noteq> c then Err (corrupt ''vlog record crc mismatch'')
       else
       rbind (reader_uvarint r) (\<lambda>(klen, r).
       rbind (reader_uvarint r) (\<lambda>(vlen, r).
       rbind (reader_bytes (unat klen) r) (\<lambda>(key, r).
       rbind (reader_bytes (unat vlen) r) (\<lambda>(val, r).
         if \<not> reader_is_empty r then Err (corrupt ''vlog record trailing bytes'')
         else Ok (key, val))))))"

definition record_value_for :: "(bytes \<Rightarrow> u32) \<Rightarrow> bytes \<Rightarrow> bytes \<Rightarrow> bytes res" where
  "record_value_for crc bs expect_key =
     rbind (parse_record crc bs) (\<lambda>(key, val).
       if key \<noteq> expect_key then Err (corrupt ''vlog record key mismatch (dangling pointer)'')
       else Ok val)"

record vlog_handle =
  vh_id :: u64
  vh_file :: std_file
  vh_obsolete :: bool

definition vlog_handle_new :: "u64 \<Rightarrow> std_file \<Rightarrow> vlog_handle" where
  "vlog_handle_new i f = \<lparr>vh_id = i, vh_file = f, vh_obsolete = False\<rparr>"

definition vlog_mark_obsolete :: "vlog_handle \<Rightarrow> vlog_handle" where
  "vlog_mark_obsolete h = h\<lparr>vh_obsolete := True\<rparr>"

section \<open>Reading values\<close>

text \<open>The cache is optional: the callers that scan pass none.\<close>

definition read_value ::
    "(bytes \<Rightarrow> u32) \<Rightarrow> vlog_handle \<Rightarrow> value_ptr \<Rightarrow> bytes \<Rightarrow> block_cache option \<Rightarrow> bytes res \<times> block_cache option" where
  "read_value crc h ptr expect_key cache =
     (let (hit, cache) = (case cache of
            None \<Rightarrow> (None, None)
          | Some c \<Rightarrow> let (hit, c) = cache_get (vh_id h) (vp_offset ptr) c in (hit, Some c))
      in case hit of
           Some bs \<Rightarrow> (record_value_for crc bs expect_key, cache)
         | None \<Rightarrow>
             (case file_read_exact_at (unat (vp_offset ptr)) (unat (vp_len ptr)) (vh_file h) of
                Inl e \<Rightarrow> (Err e, cache)
              | Inr buf \<Rightarrow>
                  (case record_value_for crc buf expect_key of
                     Inl e \<Rightarrow> (Err e, cache)
                   | Inr val \<Rightarrow>
                       (Ok val,
                        case cache of
                          None \<Rightarrow> None
                        | Some c \<Rightarrow> Some (if length buf \<le> push_bit 10 64
                             then cache_insert (vh_id h) (vp_offset ptr) buf c else c)))))"

fun collect_values :: "(bytes \<Rightarrow> u32) \<Rightarrow> ((value_ptr \<times> bytes) \<times> bytes) list \<Rightarrow> bytes list res" where
  "collect_values crc [] = Ok []"
| "collect_values crc (((_, key), buf) # rest) =
     rbind (record_value_for crc buf key) (\<lambda>v. rbind (collect_values crc rest) (\<lambda>vs. Ok (v # vs)))"

definition read_values_batch :: "(bytes \<Rightarrow> u32) \<Rightarrow> vlog_handle \<Rightarrow> (value_ptr \<times> bytes) list \<Rightarrow> bytes list res" where
  "read_values_batch crc h items =
     rbind (file_read_many (map (\<lambda>(p, _). (unat (vp_offset p), unat (vp_len p))) items) (vh_file h)) (\<lambda>bufs.
       collect_values crc (zip items bufs))"

section \<open>Scanning\<close>

type_synonym scanned_record = "u64 \<times> u32 \<times> bytes \<times> u32"

text \<open>
  One round of the loop: the checksum, the key length, the header length and the checked
  tot, or nothing where the loop breaks.
\<close>

definition scan_header :: "bytes \<Rightarrow> (u32 \<times> nat \<times> nat \<times> u64 \<times> nat) option" where
  "scan_header rest =
     (case reader_u32 (reader_new rest) of Inl _ \<Rightarrow> None | Inr (c, r) \<Rightarrow>
     (case reader_uvarint r of Inl _ \<Rightarrow> None | Inr (klen, r) \<Rightarrow>
     (case reader_uvarint r of Inl _ \<Rightarrow> None | Inr (vlen, r) \<Rightarrow>
       let header = length rest - reader_remaining r;
           tot = header + unat klen + unat vlen
       in if 2 ^ 64 \<le> header + unat klen \<or> 2 ^ 64 \<le> tot then None
          else if tot \<le> length rest \<and> tot \<le> 0xFFFFFFFF then Some (c, header, unat klen, vlen, tot)
          else None)))"

lemma scan_header_total:
  assumes "scan_header rest = Some (c, header, klen, vlen, tot)"
  shows "4 \<le> tot" and "tot \<le> length rest"
proof -
  from assms obtain k where c: "tot = header + k" "tot \<le> length rest"
    by (auto simp: scan_header_def Let_def split: sum.splits prod.splits if_splits)
  from assms obtain r1 r2 r3 a b where r: "reader_u32 (reader_new rest) = Ok (c, r1)"
    "reader_uvarint r1 = Ok (a, r2)" "reader_uvarint r2 = Ok (b, r3)" "header = length rest - reader_remaining r3"
    by (auto simp: scan_header_def Let_def split: sum.splits prod.splits if_splits)
  have "reader_remaining (reader_new rest) = 4 + reader_remaining r1"
    using r(1) by (auto simp: reader_u32_def reader_bytes_def reader_remaining_def reader_new_def split: if_splits)
  moreover have "reader_remaining r2 \<le> reader_remaining r1" "reader_remaining r3 \<le> reader_remaining r2"
    using r(2,3) by (auto simp: reader_uvarint_def dest!: uvarint_loop_remaining)
  moreover have "reader_remaining (reader_new rest) = length rest" by (simp add: reader_remaining_rest)
  ultimately show "4 \<le> tot" using r(4) c(1) by linarith
  show "tot \<le> length rest" by (rule c(2))
qed

function parse_records_loop :: "(bytes \<Rightarrow> u32) \<Rightarrow> bytes \<Rightarrow> nat \<Rightarrow> scanned_record list \<times> nat" where
  "parse_records_loop crc buf pos =
     (if pos < length buf
      then let rest = drop pos buf
           in case scan_header rest of
                None \<Rightarrow> ([], pos)
              | Some (c, header, klen, vlen, tot) \<Rightarrow>
                  if crc (drop 4 (take tot rest)) \<noteq> c then ([], pos)
                  else let key = take klen (drop header rest);
                           (out, fin) = parse_records_loop crc buf (pos + tot)
                       in ((of_nat pos, of_nat tot, key, ucast vlen) # out, fin)
      else ([], pos))"
  by pat_completeness auto
termination
proof (relation "measure (\<lambda>(crc, buf, pos). length buf - pos)", goal_cases)
  case (2 crc buf pos rest x2 c x header y klen z vlen tot)
  then have "4 \<le> tot" using scan_header_total [of rest c header klen vlen tot] by simp
  with 2 show ?case by auto
qed simp

declare parse_records_loop.simps [simp del]

definition parse_records :: "(bytes \<Rightarrow> u32) \<Rightarrow> bytes \<Rightarrow> (scanned_record list \<times> u64) res" where
  "parse_records crc buf = (let (out, pos) = parse_records_loop crc buf 0 in Ok (out, of_nat pos))"

definition sample_records :: "(bytes \<Rightarrow> u32) \<Rightarrow> std_file \<Rightarrow> nat \<Rightarrow> (scanned_record list \<times> u64) res" where
  "sample_records crc f max_bytes =
     (let len = min (file_len f) max_bytes
      in if 0 < len then rbind (file_read_exact_at 0 len f) (parse_records crc) else parse_records crc [])"

definition scan_records :: "(bytes \<Rightarrow> u32) \<Rightarrow> std_file \<Rightarrow> (scanned_record list \<times> u64) res" where
  "scan_records crc f =
     (let len = file_len f
      in if 0 < len then rbind (file_read_exact_at 0 len f) (parse_records crc) else parse_records crc [])"

section \<open>The append side\<close>

record vlog =
  vl_handle :: vlog_handle
  vl_written :: nat
  vl_synced :: nat

definition vlog_new :: "vlog_handle \<Rightarrow> nat \<Rightarrow> vlog" where
  "vlog_new h written = \<lparr>vl_handle = h, vl_written = written, vl_synced = written\<rparr>"

definition vlog_append :: "(bytes \<Rightarrow> u32) \<Rightarrow> bytes \<Rightarrow> bytes \<Rightarrow> vlog \<Rightarrow> value_ptr res \<times> vlog" where
  "vlog_append crc key val v =
     (let rcd = encode_record crc key val
      in if 0xFFFFFFFF < length rcd
         then (Err (InvalidArgument ''vlog record exceeds 4 GiB pointer limit''), v)
         else
           let (r, f) = file_append rcd (vh_file (vl_handle v));
               v = v\<lparr>vl_handle := (vl_handle v)\<lparr>vh_file := f\<rparr>\<rparr>
           in case r of
                Inl e \<Rightarrow> (Err e, v)
              | Inr off \<Rightarrow>
                  (Ok \<lparr>vp_file = vh_id (vl_handle v), vp_offset = of_nat off, vp_len = of_nat (length rcd)\<rparr>,
                   v\<lparr>vl_written := off + length rcd\<rparr>))"

definition vlog_sync_head :: "vlog \<Rightarrow> nat res \<times> vlog" where
  "vlog_sync_head v =
     (if vl_synced v < vl_written v
      then let (r, f) = file_sync_data (vh_file (vl_handle v));
               v = v\<lparr>vl_handle := (vl_handle v)\<lparr>vh_file := f\<rparr>\<rparr>
           in case r of
                Inl e \<Rightarrow> (Err e, v)
              | Inr _ \<Rightarrow> (Ok (vl_written v), v\<lparr>vl_synced := vl_written v\<rparr>)
      else (Ok (vl_synced v), v))"

definition vlog_head_state :: "vlog \<Rightarrow> u64 \<times> nat \<times> nat" where
  "vlog_head_state v = (vh_id (vl_handle v), vl_written v, vl_synced v)"

text \<open>\<open>create_new\<close> may fail; the result is the sealed handle and the new head.\<close>

definition vlog_rotate :: "std_file res \<Rightarrow> u64 \<Rightarrow> vlog \<Rightarrow> (vlog_handle \<times> vlog_handle) res \<times> vlog" where
  "vlog_rotate created new_id v =
     (case created of
        Inl e \<Rightarrow> (Err e, v)
      | Inr f \<Rightarrow>
          let new_handle = vlog_handle_new new_id f;
              (r, v) = (if vl_synced v < vl_written v
                 then let (r, g) = file_sync_data (vh_file (vl_handle v))
                      in (r, v\<lparr>vl_handle := (vl_handle v)\<lparr>vh_file := g\<rparr>\<rparr>)
                 else (Ok (), v))
          in case r of
               Inl e \<Rightarrow> (Err e, v)
             | Inr _ \<Rightarrow> (Ok (vl_handle v, new_handle), \<lparr>vl_handle = new_handle, vl_written = 0, vl_synced = 0\<rparr>))"

section \<open>Records parse back\<close>

definition record_body :: "bytes \<Rightarrow> bytes \<Rightarrow> bytes" where
  "record_body key val = uvarint (of_nat (length key)) @ uvarint (of_nat (length val)) @ key @ val"

lemma encode_record_body: "encode_record crc key val = enc_u32 (crc (record_body key val)) @ record_body key val"
  by (simp add: encode_record_def record_body_def codec_simps enc_u32_def Let_def)

lemma length_encode_record: "length key + length val \<le> length (encode_record crc key val)"
  "4 < length (encode_record crc key val)"
  by (simp_all add: encode_record_body record_body_def)

lemma read_record_header:
  assumes "slice_len_ok key" and "slice_len_ok val"
  obtains r1 r2 r3 where "reader_u32 (reader_new (encode_record crc key val @ us)) = Ok (crc (record_body key val), r1)"
    and "reader_uvarint r1 = Ok (of_nat (length key), r2)" and "reader_uvarint r2 = Ok (of_nat (length val), r3)"
    and "reader_rest r3 = key @ val @ us"
proof -
  let ?r = "reader_new (encode_record crc key val @ us)"
  have "reader_rest ?r = enc_u32 (crc (record_body key val)) @ uvarint (of_nat (length key)) @ uvarint (of_nat (length val)) @ key @ val @ us"
    by (simp add: encode_record_body record_body_def)
  then obtain r1 where r1: "reader_u32 ?r = Ok (crc (record_body key val), r1)"
    "reader_rest r1 = uvarint (of_nat (length key)) @ uvarint (of_nat (length val)) @ key @ val @ us"
    using u32c.dec_enc_rest by blast
  then obtain r2 where r2: "reader_uvarint r1 = Ok (of_nat (length key), r2)"
    "reader_rest r2 = uvarint (of_nat (length val)) @ key @ val @ us"
    using uvarintc.dec_enc_rest by blast
  then obtain r3 where "reader_uvarint r2 = Ok (of_nat (length val), r3)" "reader_rest r3 = key @ val @ us"
    using uvarintc.dec_enc_rest by blast
  with r1(1) r2(1) show ?thesis by (rule that)
qed

lemma drop_encode_record: "drop 4 (encode_record crc key val) = record_body key val"
  by (simp add: encode_record_body)

lemma parse_encode_record:
  assumes "slice_len_ok key" and "slice_len_ok val"
  shows "parse_record crc (encode_record crc key val) = Ok (key, val)"
  by (rule read_record_header [OF assms, of crc "[]"])
    (use assms in \<open>simp add: parse_record_def drop_encode_record reader_bytes_rest reader_rest_advance
      reader_is_empty_rest\<close>)

lemma record_value_for_encode:
  assumes "slice_len_ok key" and "slice_len_ok val"
  shows "record_value_for crc (encode_record crc key val) k =
    (if k = key then Ok val else Err (corrupt ''vlog record key mismatch (dangling pointer)''))"
  using parse_encode_record [OF assms] by (auto simp: record_value_for_def)

definition record_ok :: "bytes \<times> bytes \<Rightarrow> bool" where
  "record_ok p \<longleftrightarrow> length (fst p) < 2 ^ 30 \<and> length (snd p) < 2 ^ 30"

lemma record_ok_slices: "record_ok (k, v) \<Longrightarrow> slice_len_ok k" "record_ok (k, v) \<Longrightarrow> slice_len_ok v"
  by (simp_all add: record_ok_def slice_len_ok_def)

lemma length_encode_record_le:
  assumes "record_ok (k, v)"
  shows "length (encode_record crc k v) \<le> 0xFFFFFFFF"
proof -
  have "length k < 2 ^ 30" "length v < 2 ^ 30" using assms by (simp_all add: record_ok_def)
  then show ?thesis
    using length_uvarint_le_10 [of "of_nat (length k)"] length_uvarint_le_10 [of "of_nat (length v)"]
    by (simp add: encode_record_body record_body_def)
qed

lemma scan_encoded:
  fixes crc :: "bytes \<Rightarrow> u32"
  assumes ok: "record_ok (k, v)"
  defines "rcd \<equiv> encode_record crc k v"
  shows "scan_header (rcd @ us) = Some (crc (record_body k v), length rcd - length k - length v, length k,
    of_nat (length v), length rcd)"
proof -
  obtain r1 r2 r3 where r: "reader_u32 (reader_new (rcd @ us)) = Ok (crc (record_body k v), r1)"
    "reader_uvarint r1 = Ok (of_nat (length k), r2)" "reader_uvarint r2 = Ok (of_nat (length v), r3)"
    "reader_rest r3 = k @ v @ us"
    unfolding rcd_def by (rule read_record_header [OF record_ok_slices [OF ok]])
  have u: "unat (of_nat (length k) :: u64) = length k" "unat (of_nat (length v) :: u64) = length v"
    using record_ok_slices [OF ok] by simp_all
  have "length rcd + length us - reader_remaining r3 = length rcd - length k - length v"
    using r(4) length_encode_record(1) [of k v crc] by (simp add: reader_remaining_rest rcd_def)
  moreover have "length k + length v \<le> length rcd" "length rcd \<le> 0xFFFFFFFF"
    using length_encode_record(1) [of k v crc] length_encode_record_le [OF ok] by (simp_all add: rcd_def)
  ultimately show ?thesis using r u by (simp add: scan_header_def Let_def)
qed

abbreviation vlog_bytes :: "(bytes \<Rightarrow> u32) \<Rightarrow> (bytes \<times> bytes) list \<Rightarrow> bytes" where
  "vlog_bytes crc rs \<equiv> concat (map (\<lambda>(k, v). encode_record crc k v) rs)"

fun scan_of :: "(bytes \<Rightarrow> u32) \<Rightarrow> nat \<Rightarrow> (bytes \<times> bytes) list \<Rightarrow> scanned_record list" where
  "scan_of crc pos [] = []"
| "scan_of crc pos ((k, v) # rs) =
     (of_nat pos, of_nat (length (encode_record crc k v)), k, of_nat (length v)) #
     scan_of crc (pos + length (encode_record crc k v)) rs"

lemma parse_records_loop_records:
  "list_all record_ok rs \<Longrightarrow> length pre = pos \<Longrightarrow> buf = pre @ vlog_bytes crc rs @ us \<Longrightarrow>
   parse_records_loop crc buf pos =
     (let (out, fin) = parse_records_loop crc buf (pos + length (vlog_bytes crc rs)) in (scan_of crc pos rs @ out, fin))"
proof (induction rs arbitrary: pre pos)
  case Nil
  show ?case by simp
next
  case (Cons p rs)
  obtain k v where p: "p = (k, v)" by (cases p)
  let ?rcd = "encode_record crc k v"
  have ok: "record_ok (k, v)" using Cons.prems(1) p by simp
  have rest: "drop pos buf = ?rcd @ vlog_bytes crc rs @ us" using Cons.prems(2,3) p by simp
  have "length buf = pos + length ?rcd + length (vlog_bytes crc rs) + length us" using Cons.prems(2,3) p by simp
  then have lt: "pos < length buf" using length_encode_record(2) [of crc k v] by linarith
  have "length k + length v \<le> length ?rcd" by (rule length_encode_record(1))
  then have key: "take (length k) (drop (length ?rcd - length k - length v) (drop pos buf)) = k"
    unfolding rest by (simp add: encode_record_body record_body_def)
  have vl: "(ucast (of_nat (length v) :: u64) :: u32) = of_nat (length v)"
    using ok by (simp add: record_ok_def unsigned_of_nat take_bit_nat_eq_self)
  have "parse_records_loop crc buf (pos + length ?rcd) =
      (let (out, fin) = parse_records_loop crc buf (pos + length ?rcd + length (vlog_bytes crc rs))
       in (scan_of crc (pos + length ?rcd) rs @ out, fin))"
    using Cons.prems p by (intro Cons.IH [where pre = "pre @ ?rcd"]) auto
  then show ?case
    using lt scan_encoded [OF ok, of crc "vlog_bytes crc rs @ us"] key vl
    by (subst parse_records_loop.simps)
      (simp add: p rest drop_encode_record Let_def split_def add.assoc)
qed

lemma parse_records_loop_end: "parse_records_loop crc buf (length buf) = ([], length buf)"
  by (subst parse_records_loop.simps) simp

lemma scan_records_eq:
  "scan_records crc f = (let (out, pos) = parse_records_loop crc (sf_data f) 0 in Ok (out, of_nat pos))"
  by (cases "sf_data f") (simp_all add: scan_records_def file_len_def file_read_exact_at_def parse_records_def)

section \<open>Pointers to appended records\<close>

lemma vlog_append_Ok:
  assumes f: "file_wf (vh_file (vl_handle v))" and r: "vlog_append crc k val v = (Ok ptr, v')"
    and small: "length (file_committed (vh_file (vl_handle v))) < 2 ^ 64"
  shows "file_committed (vh_file (vl_handle v')) = file_committed (vh_file (vl_handle v)) @ encode_record crc k val"
    and "unat (vp_offset ptr) = length (file_committed (vh_file (vl_handle v)))"
    and "unat (vp_len ptr) = length (encode_record crc k val)"
    and "vp_file ptr = vh_id (vl_handle v)" and "file_wf (vh_file (vl_handle v'))"
    and "vl_written v' = length (file_committed (vh_file (vl_handle v')))"
proof -
  let ?f = "vh_file (vl_handle v)" and ?rcd = "encode_record crc k val"
  obtain res g where g: "file_append ?rcd ?f = (res, g)" by (cases "file_append ?rcd ?f")
  note c = file_append_committed [OF f g]
  have le: "length ?rcd \<le> 0xFFFFFFFF" using r by (auto simp: vlog_append_def Let_def split: if_splits)
  obtain off where off: "res = Ok off" using r g by (cases res) (auto simp: vlog_append_def Let_def split: if_splits)
  with c have c': "off = length (file_committed ?f)" "file_committed g = file_committed ?f @ ?rcd" "file_wf g" by auto
  have ptr: "ptr = \<lparr>vp_file = vh_id (vl_handle v), vp_offset = of_nat off, vp_len = of_nat (length ?rcd)\<rparr>"
    "vh_file (vl_handle v') = g" "vl_written v' = off + length ?rcd"
    using r g off le by (auto simp: vlog_append_def Let_def)
  show "file_committed (vh_file (vl_handle v')) = file_committed ?f @ ?rcd" using ptr c' by simp
  show "unat (vp_offset ptr) = length (file_committed ?f)" using ptr c' small by (simp add: unat_of_nat)
  show "unat (vp_len ptr) = length ?rcd" using ptr le by (simp add: unat_of_nat)
  show "vp_file ptr = vh_id (vl_handle v)" "file_wf (vh_file (vl_handle v'))" using ptr c' by simp_all
  show "vl_written v' = length (file_committed (vh_file (vl_handle v')))" using ptr c' by simp
qed

section \<open>Properties\<close>



text \<open>
  C28: a scan of a value log yields every record that was written, with its offset, length and
  key, and then whatever the bytes behind them still parse to; on a file that ends with its
  last record it yields exactly the records and the file's length.
\<close>

theorem vlog_scan_finds_all:
  assumes "list_all record_ok rs"
  shows "\<exists>out pos. scan_records crc (std_file_new (vlog_bytes crc rs @ garbage)) = Ok (scan_of crc 0 rs @ out, pos)
    \<and> (garbage = [] \<longrightarrow> out = [] \<and> pos = of_nat (length (vlog_bytes crc rs)))"
  using parse_records_loop_records [OF assms, of "[]" 0 "vlog_bytes crc rs @ garbage" crc garbage]
    parse_records_loop_end [of crc "vlog_bytes crc rs"]
  by (auto simp: scan_records_eq std_file_new_def split_def Let_def)

theorem vlog_scan_finds_all_witness:
  "\<exists>out pos. scan_records (\<lambda>_. 7) (std_file_new (vlog_bytes (\<lambda>_. 7) [([107], [1]), ([108], [])] @ [9, 9]))
      = Ok (scan_of (\<lambda>_. 7) 0 [([107], [1]), ([108], [])] @ out, pos)
    \<and> ([9, 9 :: u8] = [] \<longrightarrow> out = [] \<and> pos = of_nat (length (vlog_bytes (\<lambda>_. 7) [([107], [1]), ([108], [])])))"
  by (rule vlog_scan_finds_all) (simp add: record_ok_def)

end
