(* ===== verification/Version.thy ===== *)
theory Version
  imports Memtable Table Vlog
begin

text \<open>
  \<open>crates/fluent31/src/version.rs\<close>: sorted runs of table fragments, the cursor over a run, the
  levels of a version, and the read view that layers the memtables over it. The cache that all
  tables share is threaded as state; each cursor carries the cache it has seen.
\<close>

section \<open>Tables and runs\<close>

record table_handle =
  th_id :: u64
  th_size :: u64
  th_table :: table
  th_obsolete :: bool

definition table_handle_new :: "u64 \<Rightarrow> u64 \<Rightarrow> table \<Rightarrow> table_handle" where
  "table_handle_new i sz t = \<lparr>th_id = i, th_size = sz, th_table = t, th_obsolete = False\<rparr>"

definition th_mark_obsolete :: "table_handle \<Rightarrow> table_handle" where
  "th_mark_obsolete h = h\<lparr>th_obsolete := True\<rparr>"

abbreviation th_stats :: "table_handle \<Rightarrow> table_stats" where
  "th_stats h \<equiv> ta_stats (th_table h)"

record run =
  rn_id :: u64
  rn_tables :: "table_handle list"

definition run_size :: "run \<Rightarrow> u64" where
  "run_size r = sum_list (map th_size (rn_tables r))"

definition fragment_for :: "run \<Rightarrow> bytes \<Rightarrow> table_handle option" where
  "fragment_for r ukey =
     (let i = partition_point (\<lambda>t. stats_max_ukey (th_stats t) < ukey) (rn_tables r)
      in if i < length (rn_tables r)
         then let t = rn_tables r ! i
              in if stats_min_ukey (th_stats t) \<le> ukey then Some t else None
         else None)"

type_synonym hit = "value_kind \<times> seqno \<times> bytes"

definition run_get :: "codecs \<Rightarrow> run \<Rightarrow> bytes \<Rightarrow> seqno \<Rightarrow> block_cache \<Rightarrow> hit option res \<times> block_cache" where
  "run_get ex r ukey seq =
     (case fragment_for r ukey of Some t \<Rightarrow> table_get ex (th_table t) ukey seq | None \<Rightarrow> cres (Ok None))"

definition run_may_contain :: "codecs \<Rightarrow> run \<Rightarrow> bytes \<Rightarrow> block_cache \<Rightarrow> bool res \<times> block_cache" where
  "run_may_contain ex r ukey =
     (case fragment_for r ukey of None \<Rightarrow> cres (Ok False) | Some t \<Rightarrow> table_may_contain ex (th_table t) ukey)"

section \<open>The cursor over a run\<close>

record run_iter =
  ri_tables :: "table_handle list"
  ri_idx :: nat
  ri_ti :: "table_iter option"
  ri_cache :: block_cache

definition run_iter_of :: "run \<Rightarrow> block_cache \<Rightarrow> run_iter" where
  "run_iter_of r c = \<lparr>ri_tables = rn_tables r, ri_idx = 0, ri_ti = None, ri_cache = c\<rparr>"

definition ri_seen :: "run_iter \<Rightarrow> block_cache" where
  "ri_seen s = (case ri_ti s of None \<Rightarrow> ri_cache s | Some t \<Rightarrow> tit_cache t)"

definition ri_load :: "nat \<Rightarrow> run_iter \<Rightarrow> run_iter" where
  "ri_load idx s = s\<lparr>ri_idx := idx, ri_ti := Some (table_iter_of (th_table (ri_tables s ! idx)) (ri_seen s))\<rparr>"

definition ri_clear :: "run_iter \<Rightarrow> run_iter" where
  "ri_clear s = s\<lparr>ri_ti := None, ri_cache := ri_seen s\<rparr>"

definition ri_with :: "(table_iter \<Rightarrow> table_iter res) \<Rightarrow> run_iter \<Rightarrow> run_iter res" where
  "ri_with f s =
     (case ri_ti s of None \<Rightarrow> Err (Panic ''valid'') | Some t \<Rightarrow> rbind (f t) (\<lambda>t. Ok (s\<lparr>ri_ti := Some t\<rparr>)))"

definition ri_valid :: "run_iter \<Rightarrow> bool" where
  "ri_valid s = (case ri_ti s of None \<Rightarrow> False | Some t \<Rightarrow> tit_valid t)"

definition ri_seek_to_first :: "codecs \<Rightarrow> run_iter \<Rightarrow> run_iter res" where
  "ri_seek_to_first ex s =
     (if ri_tables s = [] then Ok (ri_clear s) else ri_with (tit_seek_to_first ex) (ri_load 0 s))"

definition ri_seek_to_last :: "codecs \<Rightarrow> run_iter \<Rightarrow> run_iter res" where
  "ri_seek_to_last ex s =
     (if ri_tables s = [] then Ok (ri_clear s)
      else ri_with (tit_seek_to_last ex) (ri_load (length (ri_tables s) - 1) s))"

definition ri_position :: "bytes \<Rightarrow> run_iter \<Rightarrow> nat" where
  "ri_position ikey s = partition_point (\<lambda>t. cmp_ikey (ts_last_ikey (th_stats t)) ikey = Less) (ri_tables s)"

definition ri_seek :: "codecs \<Rightarrow> bytes \<Rightarrow> run_iter \<Rightarrow> run_iter res" where
  "ri_seek ex ikey s =
     (let i = ri_position ikey s
      in if length (ri_tables s) \<le> i then Ok (ri_clear s)
         else rbind (ri_with (tit_seek ex ikey) (ri_load i s)) (\<lambda>s.
           if \<not> ri_valid s \<and> i + 1 < length (ri_tables s)
           then ri_with (tit_seek_to_first ex) (ri_load (i + 1) s) else Ok s))"

definition ri_seek_for_prev :: "codecs \<Rightarrow> bytes \<Rightarrow> run_iter \<Rightarrow> run_iter res" where
  "ri_seek_for_prev ex ikey s =
     (let i = ri_position ikey s
      in if length (ri_tables s) \<le> i then ri_seek_to_last ex s
         else rbind (ri_with (tit_seek_for_prev ex ikey) (ri_load i s)) (\<lambda>s.
           if \<not> ri_valid s
           then if i = 0 then Ok (ri_clear s) else ri_with (tit_seek_to_last ex) (ri_load (i - 1) s)
           else Ok s))"

definition ri_next :: "codecs \<Rightarrow> run_iter \<Rightarrow> run_iter res" where
  "ri_next ex s =
     rbind (ri_with (tit_next ex) s) (\<lambda>s.
       if \<not> ri_valid s \<and> ri_idx s + 1 < length (ri_tables s)
       then ri_with (tit_seek_to_first ex) (ri_load (ri_idx s + 1) s) else Ok s)"

definition ri_prev :: "codecs \<Rightarrow> run_iter \<Rightarrow> run_iter res" where
  "ri_prev ex s =
     rbind (ri_with (tit_prev ex) s) (\<lambda>s.
       if \<not> ri_valid s \<and> 0 < ri_idx s
       then ri_with (tit_seek_to_last ex) (ri_load (ri_idx s - 1) s) else Ok s)"

definition ri_ikey :: "run_iter \<Rightarrow> bytes" where
  "ri_ikey s = (case ri_ti s of Some t \<Rightarrow> tit_ikey t | None \<Rightarrow> undefined)"

definition ri_value :: "run_iter \<Rightarrow> bytes" where
  "ri_value s = (case ri_ti s of Some t \<Rightarrow> tit_value t | None \<Rightarrow> undefined)"

definition run_iter_ops :: "codecs \<Rightarrow> run_iter iter_ops" where
  "run_iter_ops ex = \<lparr>it_seek_to_first = ri_seek_to_first ex, it_seek_to_last = ri_seek_to_last ex,
     it_seek = ri_seek ex, it_seek_for_prev = ri_seek_for_prev ex, it_valid = ri_valid,
     it_next = ri_next ex, it_prev = ri_prev ex, it_ikey = ri_ikey, it_value = ri_value\<rparr>"

section \<open>Versions and read views\<close>

record version =
  vs_levels :: "run list list"
  vs_vlogs :: "(u64 \<times> vlog_handle) list"
  vs_vlog_head_id :: u64

definition version_empty :: "nat \<Rightarrow> version" where
  "version_empty max_levels = \<lparr>vs_levels = replicate max_levels [], vs_vlogs = [], vs_vlog_head_id = 0\<rparr>"

definition version_clone_shape :: "version \<Rightarrow> version" where
  "version_clone_shape v =
     \<lparr>vs_levels = vs_levels v, vs_vlogs = vs_vlogs v, vs_vlog_head_id = vs_vlog_head_id v\<rparr>"

definition runs_newest_first :: "version \<Rightarrow> run list" where
  "runs_newest_first v = concat (vs_levels v)"

fun get_in_runs :: "codecs \<Rightarrow> run list \<Rightarrow> bytes \<Rightarrow> seqno \<Rightarrow> block_cache \<Rightarrow> hit option res \<times> block_cache" where
  "get_in_runs ex [] ukey seq = cres (Ok None)"
| "get_in_runs ex (r # rs) ukey seq =
     cbind (run_get ex r ukey seq) (\<lambda>h.
       case h of Some h \<Rightarrow> cres (Ok (Some h)) | None \<Rightarrow> get_in_runs ex rs ukey seq)"

definition version_get :: "codecs \<Rightarrow> version \<Rightarrow> bytes \<Rightarrow> seqno \<Rightarrow> block_cache \<Rightarrow> hit option res \<times> block_cache" where
  "version_get ex v = get_in_runs ex (runs_newest_first v)"

record 'm read_view =
  rv_mem :: "'m memtable"
  rv_imms :: "'m memtable list"
  rv_version :: version
  rv_visible :: seqno

text \<open>A child of a merge is a memtable cursor or a run cursor.\<close>

datatype 'm child = CMem "'m mem_iter" | CRun run_iter

definition internal_children :: "'m read_view \<Rightarrow> block_cache \<Rightarrow> 'm child list" where
  "internal_children v c =
     CMem (memtable_iter (rv_mem v)) # map (\<lambda>imm. CMem (memtable_iter imm)) (rv_imms v) @
     map (\<lambda>r. CRun (run_iter_of r c)) (runs_newest_first (rv_version v))"

fun get_in_imms :: "'m skip_ops \<Rightarrow> 'm memtable list \<Rightarrow> bytes \<Rightarrow> seqno \<Rightarrow> hit option" where
  "get_in_imms sk [] ukey seq = None"
| "get_in_imms sk (imm # imms) ukey seq =
     (case memtable_get sk ukey seq imm of Some h \<Rightarrow> Some h | None \<Rightarrow> get_in_imms sk imms ukey seq)"

definition get_versioned ::
    "codecs \<Rightarrow> 'm skip_ops \<Rightarrow> 'm read_view \<Rightarrow> bytes \<Rightarrow> seqno \<Rightarrow> block_cache \<Rightarrow> hit option res \<times> block_cache" where
  "get_versioned ex sk v ukey seq =
     (case memtable_get sk ukey seq (rv_mem v) of
        Some h \<Rightarrow> cres (Ok (Some h))
      | None \<Rightarrow>
          (case get_in_imms sk (rv_imms v) ukey seq of
             Some h \<Rightarrow> cres (Ok (Some h))
           | None \<Rightarrow> version_get ex (rv_version v) ukey seq))"

definition view_latest ::
    "codecs \<Rightarrow> 'm skip_ops \<Rightarrow> 'm read_view \<Rightarrow> bytes \<Rightarrow> block_cache \<Rightarrow> (seqno \<times> value_kind) option res \<times> block_cache" where
  "view_latest ex sk v ukey =
     cbind (get_versioned ex sk v ukey max_seqno) (\<lambda>h. cres (Ok (map_option (\<lambda>(kind, seq, _). (seq, kind)) h)))"

section \<open>Sound runs\<close>

definition handle_sound :: "codecs \<Rightarrow> (cache_key \<Rightarrow> bytes \<Rightarrow> bool) \<Rightarrow> table_handle \<Rightarrow> bool" where
  "handle_sound ex P h \<longleftrightarrow> table_sound ex (th_table h) \<and> table_on ex P (th_table h) \<and>
     ts_first_ikey (th_stats h) = fst (hd (table_entries ex (th_table h))) \<and>
     ts_last_ikey (th_stats h) = fst (last (table_entries ex (th_table h)))"

definition tables_parts :: "codecs \<Rightarrow> table_handle list \<Rightarrow> entry list list" where
  "tables_parts ex hs = map (\<lambda>h. table_entries ex (th_table h)) hs"

definition run_entries :: "codecs \<Rightarrow> run \<Rightarrow> entry list" where
  "run_entries ex r = concat (tables_parts ex (rn_tables r))"

text \<open>No user key is split across two fragments.\<close>

definition tables_sound :: "codecs \<Rightarrow> (cache_key \<Rightarrow> bytes \<Rightarrow> bool) \<Rightarrow> table_handle list \<Rightarrow> bool" where
  "tables_sound ex P hs \<longleftrightarrow> list_all (handle_sound ex P) hs \<and>
     sorted_wrt (\<lambda>a b. stats_max_ukey (th_stats a) < stats_min_ukey (th_stats b)) hs"

abbreviation run_sound :: "codecs \<Rightarrow> (cache_key \<Rightarrow> bytes \<Rightarrow> bool) \<Rightarrow> run \<Rightarrow> bool" where
  "run_sound ex P r \<equiv> tables_sound ex P (rn_tables r)"

lemma table_entries_ne: "table_sound ex t \<Longrightarrow> table_entries ex t \<noteq> [] \<and> entries_sorted (table_entries ex t)"
proof
  assume t: "table_sound ex t"
  then show "entries_sorted (table_entries ex t)" by (simp add: table_sound_def parts_sorted_def table_entries_def)
  have "table_parts ex t \<noteq> []" "[] \<notin> set (table_parts ex t)"
    using t by (auto simp: table_sound_def parts_sorted_def table_parts_def)
  then show "table_entries ex t \<noteq> []" by (cases "table_parts ex t") (auto simp: table_entries_def)
qed

lemma handle_range:
  assumes "handle_sound ex P h" and "e \<in> set (table_entries ex (th_table h))"
  shows "stats_min_ukey (th_stats h) \<le> ikey_ukey (fst e)" and "ikey_ukey (fst e) \<le> stats_max_ukey (th_stats h)"
  using assms by (simp_all add: handle_sound_def table_sound_def table_range_ok_def)

lemma tables_parts_sorted: "tables_sound ex P hs \<Longrightarrow> parts_sorted (tables_parts ex hs)"
proof (induction hs)
  case (Cons h hs)
  then have h: "handle_sound ex P h" and hs: "tables_sound ex P hs" by (simp_all add: tables_sound_def)
  note ne = table_entries_ne [of ex "th_table h"]
  have "vkey_of (fst x) < vkey_of (fst y)"
    if x: "x \<in> set (table_entries ex (th_table h))" and g: "g \<in> set hs" and y: "y \<in> set (table_entries ex (th_table g))" for x g y
  proof -
    have "handle_sound ex P g" using hs g by (simp add: tables_sound_def list_all_iff)
    moreover have "stats_max_ukey (th_stats h) < stats_min_ukey (th_stats g)" using Cons.prems g by (simp add: tables_sound_def)
    ultimately have "ikey_ukey (fst x) < ikey_ukey (fst y)"
      using handle_range(2) [OF h x] handle_range(1) [OF _ y] by (meson order_le_less_trans order_less_le_trans)
    then show ?thesis by (simp add: less_vkey_def)
  qed
  then show ?case using Cons.IH [OF hs] h ne
    by (auto simp: tables_parts_def parts_sorted_def handle_sound_def entries_sorted_append)
qed (simp add: tables_parts_def parts_sorted_def)

lemma run_entries_sorted: "run_sound ex P r \<Longrightarrow> entries_sorted (run_entries ex r)"
  using tables_parts_sorted by (simp add: parts_sorted_def run_entries_def)

lemma fragment_lookup:
  "tables_sound ex P hs \<Longrightarrow>
   (case dropWhile (\<lambda>t. stats_max_ukey (th_stats t) < u) hs of [] \<Rightarrow> None
    | t # _ \<Rightarrow> if stats_min_ukey (th_stats t) \<le> u then lookup_at (table_entries ex (th_table t)) u s else None)
   = lookup_at (concat (tables_parts ex hs)) u s"
proof (induction hs)
  case (Cons h hs)
  then have h: "handle_sound ex P h" and hs: "tables_sound ex P hs" by (simp_all add: tables_sound_def)
  have none: "lookup_at (table_entries ex (th_table g)) u s = None"
    if "handle_sound ex P g" "stats_max_ukey (th_stats g) < u \<or> u < stats_min_ukey (th_stats g)" for g
    using that handle_range [of ex P g] unfolding lookup_at_None_iff is_version_def by fastforce
  have later: "lookup_at (concat (tables_parts ex hs)) u s = None" if "u \<le> stats_max_ukey (th_stats h)"
  proof -
    have "lookup_at (table_entries ex (th_table g)) u s = None" if "g \<in> set hs" for g
    proof (rule none)
      show "handle_sound ex P g" using hs that by (simp add: tables_sound_def list_all_iff)
      have "stats_max_ukey (th_stats h) < stats_min_ukey (th_stats g)" using Cons.prems that by (simp add: tables_sound_def)
      with \<open>u \<le> stats_max_ukey (th_stats h)\<close> show "stats_max_ukey (th_stats g) < u \<or> u < stats_min_ukey (th_stats g)"
        by (metis order_le_less_trans)
    qed
    then show ?thesis by (auto simp: lookup_at_None_iff tables_parts_def)
  qed
  show ?case
  proof (cases "stats_max_ukey (th_stats h) < u")
    case True
    then show ?thesis using Cons.IH [OF hs] none [OF h] by (simp add: tables_parts_def lookup_at_append)
  next
    case False
    then show ?thesis using later none [OF h]
      by (simp add: tables_parts_def lookup_at_append split: option.splits)
  qed
qed (simp add: tables_parts_def)

lemma fragment_for_eq:
  "fragment_for r u = (case dropWhile (\<lambda>t. stats_max_ukey (th_stats t) < u) (rn_tables r) of [] \<Rightarrow> None
     | t # _ \<Rightarrow> if stats_min_ukey (th_stats t) \<le> u then Some t else None)"
proof -
  let ?i = "partition_point (\<lambda>t. stats_max_ukey (th_stats t) < u) (rn_tables r)"
  have "dropWhile (\<lambda>t. stats_max_ukey (th_stats t) < u) (rn_tables r) = drop ?i (rn_tables r)"
    by (simp add: drop_partition_point)
  then show ?thesis
    unfolding fragment_for_def Let_def
    by (cases "?i < length (rn_tables r)") (simp_all del: dropWhile_eq_Nil_conv add: Cons_nth_drop_Suc [symmetric])
qed

lemma fragment_for_sound: "fragment_for r u = Some t \<Longrightarrow> run_sound ex P r \<Longrightarrow> handle_sound ex P t"
proof -
  assume "fragment_for r u = Some t" and r: "run_sound ex P r"
  then have "t \<in> set (dropWhile (\<lambda>t. stats_max_ukey (th_stats t) < u) (rn_tables r))"
    by (auto simp: fragment_for_eq split: list.splits if_splits)
  then show ?thesis using r by (auto simp: tables_sound_def list_all_iff dest: set_dropWhileD)
qed

lemma run_get_lookup:
  assumes r: "run_sound ex P r" and c: "cache_holds P c" and s: "s \<le> max_seqno"
  shows "\<exists>c'. run_get ex r u s c = (opt_hit (lookup_at (run_entries ex r) u s), c') \<and> cache_holds P c'"
proof (cases "fragment_for r u")
  case None
  then have "lookup_at (run_entries ex r) u s = None"
    using fragment_lookup [OF r, of u s] unfolding fragment_for_eq run_entries_def
    by (auto split: list.splits if_splits)
  then show ?thesis using None c by (simp add: run_get_def cres_def opt_hit_def)
next
  case (Some t)
  then have t: "handle_sound ex P t" by (rule fragment_for_sound [OF _ r])
  have "lookup_at (run_entries ex r) u s = lookup_at (table_entries ex (th_table t)) u s"
    using Some fragment_lookup [OF r, of u s] unfolding fragment_for_eq run_entries_def
    by (auto split: list.splits if_splits)
  then show ?thesis using Some table_get_lookup [OF _ _ c s, of ex "th_table t" u] t
    by (auto simp: run_get_def handle_sound_def)
qed

lemma run_may_contain_sound:
  assumes r: "run_sound ex P r" and c: "cache_holds P c"
  shows "\<exists>m c'. run_may_contain ex r u c = (Ok m, c') \<and> cache_holds P c' \<and>
    (\<not> m \<longrightarrow> (\<forall>s. lookup_at (run_entries ex r) u s = None))"
proof (cases "fragment_for r u")
  case None
  then have "lookup_at (run_entries ex r) u s = None" for s
    using fragment_lookup [OF r, of u s] unfolding fragment_for_eq run_entries_def
    by (auto split: list.splits if_splits)
  then show ?thesis using None c by (intro exI [of _ False]) (simp add: run_may_contain_def cres_def)
next
  case (Some t)
  then have t: "handle_sound ex P t" by (rule fragment_for_sound [OF _ r])
  have eq: "lookup_at (run_entries ex r) u s = lookup_at (table_entries ex (th_table t)) u s" for s
    using Some fragment_lookup [OF r, of u s] unfolding fragment_for_eq run_entries_def
    by (auto split: list.splits if_splits)
  obtain m c' where m: "table_may_contain ex (th_table t) u c = (Ok m, c')" "cache_holds P c'"
    "\<not> m \<longrightarrow> (\<forall>e \<in> set (table_entries ex (th_table t)). ikey_ukey (fst e) \<noteq> u)"
    using table_may_contain_fits [OF _ _ c] t unfolding handle_sound_def by blast
  then have "\<not> m \<longrightarrow> (\<forall>s. lookup_at (run_entries ex r) u s = None)"
    unfolding eq lookup_at_None_iff is_version_def by blast
  with m Some show ?thesis by (simp add: run_may_contain_def)
qed

section \<open>The cursor over a run meets the contract\<close>

definition ri_parts :: "codecs \<Rightarrow> run_iter \<Rightarrow> entry list list" where
  "ri_parts ex s = tables_parts ex (ri_tables s)"

definition ri_core :: "codecs \<Rightarrow> (cache_key \<Rightarrow> bytes \<Rightarrow> bool) \<Rightarrow> run_iter \<Rightarrow> bool" where
  "ri_core ex P s \<longleftrightarrow> tables_sound ex P (ri_tables s) \<and> cache_holds P (ri_cache s) \<and> cache_holds P (ri_seen s)"

definition ri_good :: "codecs \<Rightarrow> (cache_key \<Rightarrow> bytes \<Rightarrow> bool) \<Rightarrow> run_iter \<Rightarrow> bool" where
  "ri_good ex P s \<longleftrightarrow> ri_core ex P s \<and> (case ri_ti s of None \<Rightarrow> True | Some t \<Rightarrow>
     tit_good ex P t \<and> ri_idx s < length (ri_tables s) \<and> tit_contents ex t = ri_parts ex s ! ri_idx s)"

definition ri_contents :: "codecs \<Rightarrow> run_iter \<Rightarrow> entry list" where
  "ri_contents ex s = concat (ri_parts ex s)"

definition ri_forward :: "codecs \<Rightarrow> run_iter \<Rightarrow> entry list" where
  "ri_forward ex s = (case ri_ti s of None \<Rightarrow> [] | Some t \<Rightarrow>
     if tit_valid t then tit_forward ex t @ concat (drop (Suc (ri_idx s)) (ri_parts ex s)) else [])"

definition ri_backward :: "codecs \<Rightarrow> run_iter \<Rightarrow> entry list" where
  "ri_backward ex s = (case ri_ti s of None \<Rightarrow> [] | Some t \<Rightarrow>
     if tit_valid t then tit_backward ex t @ rev (concat (take (ri_idx s) (ri_parts ex s))) else [])"

lemmas ri_defs = ri_good_def ri_core_def ri_contents_def ri_parts_def ri_seen_def

lemma length_tables_parts [simp]: "length (tables_parts ex hs) = length hs"
  by (simp add: tables_parts_def)

lemma length_ri_parts [simp]: "length (ri_parts ex s) = length (ri_tables s)"
  by (simp add: ri_parts_def tables_parts_def)

lemma ri_core_parts: "ri_core ex P s \<Longrightarrow> parts_sorted (ri_parts ex s)"
  by (auto simp: ri_core_def ri_parts_def intro: tables_parts_sorted)

lemma ri_good_core: "ri_good ex P s \<Longrightarrow> ri_core ex P s"
  by (simp add: ri_good_def)

lemma tit_good_cache: "tit_good ex P t \<Longrightarrow> cache_holds P (tit_cache t)"
  by (simp add: tit_good_def tit_core_def)

text \<open>The contract of the table cursor, over its own operations.\<close>

lemma tit_ops_moves:
  assumes "tit_good ex P t"
  shows "moves (tit_good ex P) (tit_contents ex) (tit_forward ex) (tit_seek_to_first ex t) (tit_contents ex t) (tit_contents ex t)"
    and "moves (tit_good ex P) (tit_contents ex) (tit_backward ex) (tit_seek_to_last ex t) (tit_contents ex t) (rev (tit_contents ex t))"
    and "moves (tit_good ex P) (tit_contents ex) (tit_forward ex) (tit_seek ex ik t) (tit_contents ex t) (from_key ik (tit_contents ex t))"
    and "moves (tit_good ex P) (tit_contents ex) (tit_backward ex) (tit_seek_for_prev ex ik t) (tit_contents ex t) (upto_key ik (tit_contents ex t))"
  using titf.seek_to_first [OF assms] titr.seek_to_last [OF assms] titf.seek [OF assms, of ik] titr.seek_for_prev [OF assms, of ik]
  by (simp_all add: table_iter_ops_def)

lemma ri_load_good:
  assumes s: "ri_core ex P s" and i: "i < length (ri_tables s)"
  shows "\<exists>t. ri_load i s = s\<lparr>ri_idx := i, ri_ti := Some t\<rparr> \<and> tit_good ex P t \<and> tit_contents ex t = ri_parts ex s ! i"
proof (intro exI conjI)
  let ?h = "ri_tables s ! i"
  show "ri_load i s = s\<lparr>ri_idx := i, ri_ti := Some (table_iter_of (th_table ?h) (ri_seen s))\<rparr>" by (simp add: ri_load_def)
  have "handle_sound ex P ?h" using s i by (simp add: ri_core_def tables_sound_def list_all_length)
  then show "tit_good ex P (table_iter_of (th_table ?h) (ri_seen s))"
    using s by (simp add: tit_good_def tit_core_def table_iter_of_def handle_sound_def ri_core_def)
  show "tit_contents ex (table_iter_of (th_table ?h) (ri_seen s)) = ri_parts ex s ! i"
    using i by (simp add: tit_contents_def table_iter_of_def ri_parts_def tables_parts_def)
qed

text \<open>An operation on the fragment's cursor, and one right after a fragment is loaded.\<close>

lemma ri_with_moves:
  assumes s: "ri_core ex P s" "ri_ti s = Some t" "ri_idx s < length (ri_tables s)"
    and c: "tit_contents ex t = ri_parts ex s ! ri_idx s"
    and f: "moves (tit_good ex P) (tit_contents ex) pend (f t) (tit_contents ex t) rest"
  shows "\<exists>s' t'. ri_with f s = Ok s' \<and> ri_good ex P s' \<and> ri_tables s' = ri_tables s \<and> ri_idx s' = ri_idx s
    \<and> ri_ti s' = Some t' \<and> tit_good ex P t' \<and> pend t' = rest"
  using assms tit_good_cache by (elim movesE) (auto simp: ri_with_def ri_defs)

lemma ri_load_with:
  assumes s: "ri_core ex P s" and i: "i < length (ri_tables s)"
    and f: "\<And>t. tit_good ex P t \<Longrightarrow> tit_contents ex t = ri_parts ex s ! i \<Longrightarrow>
      moves (tit_good ex P) (tit_contents ex) pend (f t) (tit_contents ex t) rest"
  shows "\<exists>s' t'. ri_with f (ri_load i s) = Ok s' \<and> ri_good ex P s' \<and> ri_tables s' = ri_tables s \<and> ri_idx s' = i
    \<and> ri_ti s' = Some t' \<and> tit_good ex P t' \<and> pend t' = rest"
proof -
  obtain t where t: "ri_load i s = s\<lparr>ri_idx := i, ri_ti := Some t\<rparr>" "tit_good ex P t" "tit_contents ex t = ri_parts ex s ! i"
    using ri_load_good [OF s i] by blast
  let ?s = "s\<lparr>ri_idx := i, ri_ti := Some t\<rparr>"
  have "ri_core ex P ?s" using s t(2) tit_good_cache by (simp add: ri_core_def ri_seen_def)
  moreover have "ri_parts ex ?s = ri_parts ex s" by (simp add: ri_parts_def)
  ultimately show ?thesis using ri_with_moves [of ex P ?s t pend f rest] i t f [OF t(2,3)] by auto
qed

lemma ri_part: "ri_core ex P s \<Longrightarrow> i < length (ri_tables s) \<Longrightarrow> ri_parts ex s ! i \<noteq> []"
  using parts_sorted_in [OF ri_core_parts] by (metis length_ri_parts nth_mem)

lemma tit_valid_ops: "tit_good ex P t \<Longrightarrow> tit_valid t \<longleftrightarrow> tit_forward ex t \<noteq> []"
  "tit_good ex P t \<Longrightarrow> tit_valid t \<longleftrightarrow> tit_backward ex t \<noteq> []"
  by (rule tit_valid_iff, assumption)+

lemma ri_first_moves:
  assumes s: "ri_core ex P s" and i: "i < length (ri_tables s)"
  shows "moves (ri_good ex P) (ri_contents ex) (ri_forward ex) (ri_with (tit_seek_to_first ex) (ri_load i s))
    (ri_contents ex s) (concat (drop i (ri_parts ex s)))"
proof -
  have "\<exists>s' t'. ri_with (tit_seek_to_first ex) (ri_load i s) = Ok s' \<and> ri_good ex P s' \<and> ri_tables s' = ri_tables s
      \<and> ri_idx s' = i \<and> ri_ti s' = Some t' \<and> tit_good ex P t' \<and> tit_forward ex t' = ri_parts ex s ! i"
    by (rule ri_load_with [where pend = "tit_forward ex" and f = "tit_seek_to_first ex", OF s i], frule tit_ops_moves(1)) simp
  then show ?thesis using ri_part [OF s i] i
    by (auto simp: ri_contents_def ri_forward_def tit_valid_ops(1) ri_parts_def Cons_nth_drop_Suc [symmetric])
qed

lemma ri_last_moves:
  assumes s: "ri_core ex P s" and i: "i < length (ri_tables s)"
  shows "moves (ri_good ex P) (ri_contents ex) (ri_backward ex) (ri_with (tit_seek_to_last ex) (ri_load i s))
    (ri_contents ex s) (rev (concat (take (Suc i) (ri_parts ex s))))"
proof -
  have "\<exists>s' t'. ri_with (tit_seek_to_last ex) (ri_load i s) = Ok s' \<and> ri_good ex P s' \<and> ri_tables s' = ri_tables s
      \<and> ri_idx s' = i \<and> ri_ti s' = Some t' \<and> tit_good ex P t' \<and> tit_backward ex t' = rev (ri_parts ex s ! i)"
    by (rule ri_load_with [where pend = "tit_backward ex" and f = "tit_seek_to_last ex", OF s i], frule tit_ops_moves(2)) simp
  then show ?thesis using ri_part [OF s i] i
    by (auto simp: ri_contents_def ri_backward_def tit_valid_ops(2) ri_parts_def take_Suc_conv_app_nth)
qed

lemma ri_clear_moves:
  "ri_core ex P s \<Longrightarrow> moves (ri_good ex P) (ri_contents ex) (ri_forward ex) (Ok (ri_clear s)) (ri_contents ex s) []"
  "ri_core ex P s \<Longrightarrow> moves (ri_good ex P) (ri_contents ex) (ri_backward ex) (Ok (ri_clear s)) (ri_contents ex s) []"
  by (simp_all add: ri_clear_def ri_defs ri_forward_def ri_backward_def)

lemma position_part_for:
  "list_all (\<lambda>h. ts_last_ikey (th_stats h) = fst (last (table_entries ex (th_table h)))) hs \<Longrightarrow>
   partition_point (\<lambda>t. cmp_ikey (ts_last_ikey (th_stats t)) ik = Less) hs = part_for ik (tables_parts ex hs)"
  by (induction hs) (auto simp: part_for_def tables_parts_def)

lemma ri_position_part_for:
  assumes "ri_core ex P s"
  shows "ri_position ik s = part_for ik (ri_parts ex s)"
  unfolding ri_position_def ri_parts_def
  by (rule position_part_for) (use assms in \<open>auto simp: ri_core_def tables_sound_def list_all_iff handle_sound_def\<close>)

lemma ri_seek_to_first_moves:
  assumes "ri_good ex P s"
  shows "moves (ri_good ex P) (ri_contents ex) (ri_forward ex) (ri_seek_to_first ex s) (ri_contents ex s) (ri_contents ex s)"
proof (cases "ri_tables s = []")
  case True
  then have "ri_contents ex s = []" by (simp add: ri_contents_def ri_parts_def tables_parts_def)
  then show ?thesis using ri_clear_moves(1) [OF ri_good_core [OF assms]] True by (simp add: ri_seek_to_first_def)
next
  case False
  then show ?thesis using ri_first_moves [OF ri_good_core [OF assms], of 0]
    by (simp add: ri_seek_to_first_def) (simp add: ri_contents_def)
qed

lemma ri_seek_to_last_moves:
  assumes "ri_good ex P s"
  shows "moves (ri_good ex P) (ri_contents ex) (ri_backward ex) (ri_seek_to_last ex s) (ri_contents ex s) (rev (ri_contents ex s))"
proof (cases "ri_tables s = []")
  case True
  then have "ri_contents ex s = []" by (simp add: ri_contents_def ri_parts_def tables_parts_def)
  then show ?thesis using ri_clear_moves(2) [OF ri_good_core [OF assms]] True by (simp add: ri_seek_to_last_def)
next
  case False
  then show ?thesis using ri_last_moves [OF ri_good_core [OF assms], of "length (ri_tables s) - 1"]
    by (simp add: ri_seek_to_last_def) (simp add: ri_contents_def)
qed

lemma ri_valid_ti: "ri_ti s = Some t \<Longrightarrow> ri_valid s = tit_valid t"
  by (simp add: ri_valid_def)

lemma ri_seek_moves:
  assumes s: "ri_good ex P s"
  shows "moves (ri_good ex P) (ri_contents ex) (ri_forward ex) (ri_seek ex ik s) (ri_contents ex s)
    (from_key ik (ri_contents ex s))"
proof -
  let ?ess = "ri_parts ex s" and ?i = "part_for ik (ri_parts ex s)"
  note core = ri_good_core [OF s] and srt = ri_core_parts [OF ri_good_core [OF s]]
  note pos = ri_position_part_for [OF core, of ik]
  show ?thesis
  proof (cases "?i < length (ri_tables s)")
    case False
    then have i: "?i = length ?ess" using part_for_le [of ik ?ess] by simp
    with False show ?thesis using ri_clear_moves(1) [OF core] seek_parts_none [OF srt i]
      by (simp add: ri_seek_def pos Let_def) (simp add: ri_contents_def)
  next
    case True
    then have i: "?i < length ?ess" by simp
    note sp = seek_parts [OF srt i]
    have "\<exists>s' t'. ri_with (tit_seek ex ik) (ri_load ?i s) = Ok s' \<and> ri_good ex P s' \<and> ri_tables s' = ri_tables s
        \<and> ri_idx s' = ?i \<and> ri_ti s' = Some t' \<and> tit_good ex P t' \<and> tit_forward ex t' = from_key ik (?ess ! ?i)"
      by (rule ri_load_with [where pend = "tit_forward ex" and f = "tit_seek ex ik", OF core True], frule tit_ops_moves(3)) simp
    then obtain s' t' where s': "ri_with (tit_seek ex ik) (ri_load ?i s) = Ok s'" "ri_good ex P s'" "ri_tables s' = ri_tables s"
        "ri_idx s' = ?i" "ri_ti s' = Some t'" "tit_good ex P t'" "tit_forward ex t' = from_key ik (?ess ! ?i)" by blast
    then have "tit_valid t'" using sp(2) by (simp add: tit_valid_ops(1))
    then show ?thesis using s' True sp(1)
      by (simp add: ri_seek_def pos Let_def ri_valid_ti ri_contents_def ri_forward_def ri_parts_def)
  qed
qed

lemma ri_seek_for_prev_moves:
  assumes s: "ri_good ex P s"
  shows "moves (ri_good ex P) (ri_contents ex) (ri_backward ex) (ri_seek_for_prev ex ik s) (ri_contents ex s)
    (upto_key ik (ri_contents ex s))"
proof -
  let ?ess = "ri_parts ex s" and ?i = "part_for ik (ri_parts ex s)"
  note core = ri_good_core [OF s] and srt = ri_core_parts [OF ri_good_core [OF s]]
  note pos = ri_position_part_for [OF core, of ik]
  show ?thesis
  proof (cases "?i < length (ri_tables s)")
    case False
    then have i: "?i = length ?ess" using part_for_le [of ik ?ess] by simp
    with False show ?thesis using ri_seek_to_last_moves [OF s] seek_parts_none [OF srt i]
      by (simp add: ri_seek_for_prev_def pos Let_def) (simp add: ri_contents_def)
  next
    case True
    then have i: "?i < length ?ess" by simp
    note sp = seek_parts [OF srt i]
    have full: "upto_key ik (ri_contents ex s) = upto_key ik (?ess ! ?i) @ rev (concat (take ?i ?ess))"
      using sp(3) by (simp add: ri_contents_def)
    have "\<exists>s' t'. ri_with (tit_seek_for_prev ex ik) (ri_load ?i s) = Ok s' \<and> ri_good ex P s' \<and> ri_tables s' = ri_tables s
        \<and> ri_idx s' = ?i \<and> ri_ti s' = Some t' \<and> tit_good ex P t' \<and> tit_backward ex t' = upto_key ik (?ess ! ?i)"
      by (rule ri_load_with [where pend = "tit_backward ex" and f = "tit_seek_for_prev ex ik", OF core True], frule tit_ops_moves(4)) simp
    then obtain s' t' where s': "ri_with (tit_seek_for_prev ex ik) (ri_load ?i s) = Ok s'" "ri_good ex P s'" "ri_tables s' = ri_tables s"
        "ri_idx s' = ?i" "ri_ti s' = Some t'" "tit_good ex P t'" "tit_backward ex t' = upto_key ik (?ess ! ?i)" by blast
    have c: "ri_contents ex s' = ri_contents ex s" using s'(3) by (simp add: ri_contents_def ri_parts_def)
    show ?thesis
    proof (cases "tit_valid t'")
      case v: True
      then show ?thesis using s' True full c
        by (simp add: ri_seek_for_prev_def pos Let_def ri_valid_ti ri_backward_def ri_parts_def)
    next
      case v: False
      then have e: "upto_key ik (?ess ! ?i) = []" using s'(6,7) by (simp add: tit_valid_ops(2))
      show ?thesis
      proof (cases "?i = 0")
        case True
        then show ?thesis using s' v e full \<open>?i < length (ri_tables s)\<close> c ri_clear_moves(2) [OF ri_good_core [OF s'(2)]]
          by (simp add: ri_seek_for_prev_def pos Let_def ri_valid_ti)
      next
        case False
        have "?i - 1 < length (ri_tables s')" using True s'(3) by simp
        from ri_last_moves [OF ri_good_core [OF s'(2)] this] show ?thesis
          using s' v e full True False c
          by (simp add: ri_seek_for_prev_def pos Let_def ri_valid_ti ri_parts_def)
      qed
    qed
  qed
qed

lemma ri_good_ti:
  assumes "ri_good ex P s" and "ri_ti s = Some t"
  shows "ri_core ex P s" "ri_idx s < length (ri_tables s)" "tit_contents ex t = ri_parts ex s ! ri_idx s" "tit_good ex P t"
  using assms by (simp_all add: ri_good_def)

lemma ri_next_moves:
  assumes s: "ri_good ex P s" and f: "ri_forward ex s = e # es"
  shows "moves (ri_good ex P) (ri_contents ex) (ri_forward ex) (ri_next ex s) (ri_contents ex s) es"
proof -
  obtain t where t: "ri_ti s = Some t" "tit_valid t" "e # es = tit_forward ex t @ concat (drop (Suc (ri_idx s)) (ri_parts ex s))"
    using f by (auto simp: ri_forward_def split: option.splits if_splits)
  note g = ri_good_ti [OF s t(1)]
  obtain fs where fs: "tit_forward ex t = e # fs" "es = fs @ concat (drop (Suc (ri_idx s)) (ri_parts ex s))"
    using t(2,3) tit_valid_ops(1) [OF g(4)] by (cases "tit_forward ex t") auto
  have "moves (tit_good ex P) (tit_contents ex) (tit_forward ex) (tit_next ex t) (tit_contents ex t) fs"
    using titf.step [OF g(4) fs(1)] by (simp add: table_iter_ops_def)
  from ri_with_moves [where pend = "tit_forward ex" and f = "tit_next ex", OF g(1) t(1) g(2,3) this]
  obtain s' t' where s': "ri_with (tit_next ex) s = Ok s'" "ri_good ex P s'" "ri_tables s' = ri_tables s"
    "ri_idx s' = ri_idx s" "ri_ti s' = Some t'" "tit_good ex P t'" "tit_forward ex t' = fs" by blast
  have c: "ri_contents ex s' = ri_contents ex s" using s'(3) by (simp add: ri_contents_def ri_parts_def)
  show ?thesis
  proof (cases "tit_valid t'")
    case True
    then show ?thesis using s' fs c by (simp add: ri_next_def ri_valid_ti ri_forward_def ri_parts_def)
  next
    case False
    then have nil: "fs = []" using s'(6,7) by (simp add: tit_valid_ops(1))
    show ?thesis
    proof (cases "ri_idx s + 1 < length (ri_tables s)")
      case True
      then have "ri_idx s + 1 < length (ri_tables s')" using s'(3) by simp
      from ri_first_moves [OF ri_good_core [OF s'(2)] this] show ?thesis
        using True False nil s' fs c by (simp add: ri_next_def ri_valid_ti ri_parts_def)
    next
      case f: False
      then show ?thesis using False nil s' fs c by (simp add: ri_next_def ri_valid_ti ri_forward_def)
    qed
  qed
qed

lemma ri_prev_moves:
  assumes s: "ri_good ex P s" and f: "ri_backward ex s = e # es"
  shows "moves (ri_good ex P) (ri_contents ex) (ri_backward ex) (ri_prev ex s) (ri_contents ex s) es"
proof -
  obtain t where t: "ri_ti s = Some t" "tit_valid t" "e # es = tit_backward ex t @ rev (concat (take (ri_idx s) (ri_parts ex s)))"
    using f by (auto simp: ri_backward_def split: option.splits if_splits)
  note g = ri_good_ti [OF s t(1)]
  obtain fs where fs: "tit_backward ex t = e # fs" "es = fs @ rev (concat (take (ri_idx s) (ri_parts ex s)))"
    using t(2,3) tit_valid_ops(2) [OF g(4)] by (cases "tit_backward ex t") auto
  have "moves (tit_good ex P) (tit_contents ex) (tit_backward ex) (tit_prev ex t) (tit_contents ex t) fs"
    using titr.step [OF g(4) fs(1)] by (simp add: table_iter_ops_def)
  from ri_with_moves [where pend = "tit_backward ex" and f = "tit_prev ex", OF g(1) t(1) g(2,3) this]
  obtain s' t' where s': "ri_with (tit_prev ex) s = Ok s'" "ri_good ex P s'" "ri_tables s' = ri_tables s"
    "ri_idx s' = ri_idx s" "ri_ti s' = Some t'" "tit_good ex P t'" "tit_backward ex t' = fs" by blast
  have c: "ri_contents ex s' = ri_contents ex s" using s'(3) by (simp add: ri_contents_def ri_parts_def)
  show ?thesis
  proof (cases "tit_valid t'")
    case True
    then show ?thesis using s' fs c by (simp add: ri_prev_def ri_valid_ti ri_backward_def ri_parts_def)
  next
    case False
    then have nil: "fs = []" using s'(6,7) by (simp add: tit_valid_ops(2))
    show ?thesis
    proof (cases "ri_idx s")
      case 0
      then show ?thesis using False nil s' fs c by (simp add: ri_prev_def ri_valid_ti ri_backward_def)
    next
      case (Suc i)
      then have "i < length (ri_tables s')" using g(2) s'(3) by simp
      from ri_last_moves [OF ri_good_core [OF s'(2)] this] show ?thesis
        using Suc False nil s' fs c by (simp add: ri_prev_def ri_valid_ti ri_parts_def)
    qed
  qed
qed

lemma ri_key_value:
  assumes s: "ri_good ex P s"
  shows "ri_forward ex s = e # es \<Longrightarrow> (ri_ikey s, ri_value s) = e"
    and "ri_backward ex s = e # es \<Longrightarrow> (ri_ikey s, ri_value s) = e"
proof -
  show "(ri_ikey s, ri_value s) = e" if f: "ri_forward ex s = e # es"
  proof -
    obtain t where t: "ri_ti s = Some t" "tit_valid t" "e # es = tit_forward ex t @ concat (drop (Suc (ri_idx s)) (ri_parts ex s))"
      using f by (auto simp: ri_forward_def split: option.splits if_splits)
    note g = ri_good_ti [OF s t(1)]
    obtain fs where "tit_forward ex t = e # fs" using t(2,3) tit_valid_ops(1) [OF g(4)] by (cases "tit_forward ex t") auto
    from tit_key_value(1) [OF g(4) this] t(1) show ?thesis by (simp add: ri_ikey_def ri_value_def)
  qed
  show "(ri_ikey s, ri_value s) = e" if f: "ri_backward ex s = e # es"
  proof -
    obtain t where t: "ri_ti s = Some t" "tit_valid t" "e # es = tit_backward ex t @ rev (concat (take (ri_idx s) (ri_parts ex s)))"
      using f by (auto simp: ri_backward_def split: option.splits if_splits)
    note g = ri_good_ti [OF s t(1)]
    obtain fs where "tit_backward ex t = e # fs" using t(2,3) tit_valid_ops(2) [OF g(4)] by (cases "tit_backward ex t") auto
    from tit_key_value(2) [OF g(4) this] t(1) show ?thesis by (simp add: ri_ikey_def ri_value_def)
  qed
qed

lemma ri_valid_iff:
  "ri_good ex P s \<Longrightarrow> ri_valid s \<longleftrightarrow> ri_forward ex s \<noteq> []"
  "ri_good ex P s \<Longrightarrow> ri_valid s \<longleftrightarrow> ri_backward ex s \<noteq> []"
  by (auto simp: ri_good_def ri_valid_def ri_forward_def ri_backward_def tit_valid_ops(1) split: option.splits)
    (auto simp: tit_valid_ops(1) [symmetric] tit_valid_ops(2))

lemma ri_sorted: "ri_good ex P s \<Longrightarrow> entries_sorted (ri_contents ex s)"
  using ri_core_parts [OF ri_good_core] by (fastforce simp: parts_sorted_def ri_contents_def)

interpretation rif: forward_iterator "run_iter_ops ex" "ri_good ex P" "ri_contents ex" "ri_forward ex" for ex P
  by unfold_locales
    (auto simp: run_iter_ops_def ri_sorted ri_valid_iff(1) ri_key_value ri_next_moves ri_seek_moves ri_seek_to_first_moves)

interpretation rir: reverse_iterator "run_iter_ops ex" "ri_good ex P" "ri_contents ex" "ri_backward ex" for ex P
  by unfold_locales
    (auto simp: run_iter_ops_def ri_sorted ri_valid_iff(2) ri_key_value ri_prev_moves ri_seek_for_prev_moves ri_seek_to_last_moves)

end
