(* ===== verification/TableBuild.thy ===== *)
theory TableBuild
  imports Table
begin

text \<open>
  The writer and the reader of table files agree: what \<open>TableBuilder\<close> wrote from sorted
  entries opens as a sound table with exactly these entries.
\<close>

section \<open>Fixed formats\<close>

lemma footer_roundtrip:
  assumes "table_format \<le> fo_format f" and "fo_format f \<le> table_format_compressed"
  shows "footer_decode (footer_encode f) = Ok f"
proof -
  let ?r = "reader_new (footer_encode f)"
  have e: "footer_encode f = enc_u64 (br_off (fo_filter f)) @ enc_u32 (br_len (fo_filter f)) @ enc_u64 (br_off (fo_index f)) @ enc_u32 (br_len (fo_index f)) @ enc_u64 (br_off (fo_stats f)) @ enc_u32 (br_len (fo_stats f)) @ enc_u32 (fo_format f) @ enc_u64 (table_magic) @ []"
    by (simp add: footer_encode_def enc_u64_def enc_u32_def)
  obtain r1 where r1: "reader_u64 ?r = Ok (br_off (fo_filter f), r1)" "reader_rest r1 = enc_u32 (br_len (fo_filter f)) @ enc_u64 (br_off (fo_index f)) @ enc_u32 (br_len (fo_index f)) @ enc_u64 (br_off (fo_stats f)) @ enc_u32 (br_len (fo_stats f)) @ enc_u32 (fo_format f) @ enc_u64 (table_magic) @ []"
    using u64c.dec_enc_rest [of ?r "br_off (fo_filter f)"] e by auto
  obtain r2 where r2: "reader_u32 r1 = Ok (br_len (fo_filter f), r2)" "reader_rest r2 = enc_u64 (br_off (fo_index f)) @ enc_u32 (br_len (fo_index f)) @ enc_u64 (br_off (fo_stats f)) @ enc_u32 (br_len (fo_stats f)) @ enc_u32 (fo_format f) @ enc_u64 (table_magic) @ []"
    using u32c.dec_enc_rest [OF _ r1(2)] by auto
  obtain r3 where r3: "reader_u64 r2 = Ok (br_off (fo_index f), r3)" "reader_rest r3 = enc_u32 (br_len (fo_index f)) @ enc_u64 (br_off (fo_stats f)) @ enc_u32 (br_len (fo_stats f)) @ enc_u32 (fo_format f) @ enc_u64 (table_magic) @ []"
    using u64c.dec_enc_rest [OF _ r2(2)] by auto
  obtain r4 where r4: "reader_u32 r3 = Ok (br_len (fo_index f), r4)" "reader_rest r4 = enc_u64 (br_off (fo_stats f)) @ enc_u32 (br_len (fo_stats f)) @ enc_u32 (fo_format f) @ enc_u64 (table_magic) @ []"
    using u32c.dec_enc_rest [OF _ r3(2)] by auto
  obtain r5 where r5: "reader_u64 r4 = Ok (br_off (fo_stats f), r5)" "reader_rest r5 = enc_u32 (br_len (fo_stats f)) @ enc_u32 (fo_format f) @ enc_u64 (table_magic) @ []"
    using u64c.dec_enc_rest [OF _ r4(2)] by auto
  obtain r6 where r6: "reader_u32 r5 = Ok (br_len (fo_stats f), r6)" "reader_rest r6 = enc_u32 (fo_format f) @ enc_u64 (table_magic) @ []"
    using u32c.dec_enc_rest [OF _ r5(2)] by auto
  obtain r7 where r7: "reader_u32 r6 = Ok (fo_format f, r7)" "reader_rest r7 = enc_u64 (table_magic) @ []"
    using u32c.dec_enc_rest [OF _ r6(2)] by auto
  obtain r8 where r8: "reader_u64 r7 = Ok (table_magic, r8)"
    using u64c.dec_enc_rest [OF _ r7(2)] by auto
  show ?thesis using r1(1) r2(1) r3(1) r4(1) r5(1) r6(1) r7(1) r8 assms
    by (simp add: footer_decode_def)
qed

lemma length_footer_encode [simp]: "length (footer_encode f) = footer_len"
  by (simp add: footer_encode_def footer_len_def)

lemma stats_roundtrip:
  assumes "ikey_wf (ts_first_ikey s)" and "ikey_wf (ts_last_ikey s)"
    and "slice_len_ok (ts_first_ikey s)" and "slice_len_ok (ts_last_ikey s)"
  shows "stats_decode (stats_encode s) = Ok s"
proof -
  let ?r = "reader_new (stats_encode s)"
  have e: "stats_encode s = enc_u64 (ts_entries s) @ enc_u64 (ts_tombstones s) @ enc_u64 (ts_min_seq s) @
      enc_u64 (ts_max_seq s) @ enc_len_prefixed (ts_first_ikey s) @ enc_len_prefixed (ts_last_ikey s) @ []"
    by (simp add: stats_encode_def codec_simps)
  obtain r1 where r1: "reader_u64 ?r = Ok (ts_entries s, r1)" "reader_rest r1 = enc_u64 (ts_tombstones s) @ enc_u64 (ts_min_seq s) @
      enc_u64 (ts_max_seq s) @ enc_len_prefixed (ts_first_ikey s) @ enc_len_prefixed (ts_last_ikey s) @ []"
    using u64c.dec_enc_rest [of ?r "ts_entries s"] e by auto
  obtain r2 where r2: "reader_u64 r1 = Ok (ts_tombstones s, r2)" "reader_rest r2 = enc_u64 (ts_min_seq s) @
      enc_u64 (ts_max_seq s) @ enc_len_prefixed (ts_first_ikey s) @ enc_len_prefixed (ts_last_ikey s) @ []"
    using u64c.dec_enc_rest [OF _ r1(2)] by auto
  obtain r3 where r3: "reader_u64 r2 = Ok (ts_min_seq s, r3)" "reader_rest r3 =
      enc_u64 (ts_max_seq s) @ enc_len_prefixed (ts_first_ikey s) @ enc_len_prefixed (ts_last_ikey s) @ []"
    using u64c.dec_enc_rest [OF _ r2(2)] by auto
  obtain r4 where r4: "reader_u64 r3 = Ok (ts_max_seq s, r4)" "reader_rest r4 =
      enc_len_prefixed (ts_first_ikey s) @ enc_len_prefixed (ts_last_ikey s) @ []"
    using u64c.dec_enc_rest [OF _ r3(2)] by auto
  obtain r5 where r5: "reader_len_prefixed r4 = Ok (ts_first_ikey s, r5)" "reader_rest r5 =
      enc_len_prefixed (ts_last_ikey s) @ []"
    using lenc.dec_enc_rest [OF assms(3) r4(2)] by auto
  obtain r6 where r6: "reader_len_prefixed r5 = Ok (ts_last_ikey s, r6)"
    using lenc.dec_enc_rest [OF assms(4) r5(2)] by auto
  show ?thesis using r1(1) r2(1) r3(1) r4(1) r5(1) r6 assms(1,2)
    by (simp add: stats_decode_def ikey_wf_def)
qed

section \<open>The index\<close>

definition enc_index_entry :: "bytes \<times> block_ref \<Rightarrow> bytes" where
  "enc_index_entry e = enc_len_prefixed (fst e) @ uvarint (br_off (snd e)) @ uvarint (ucast (br_len (snd e)))"

lemma tb_index_payload_concat: "tb_index_payload index = concat (map enc_index_entry index)"
proof -
  have "foldl (\<lambda>out (last_ikey, r). put_uvarint (put_uvarint (put_len_prefixed out last_ikey) (br_off r)) (ucast (br_len r))) out index
      = out @ concat (map enc_index_entry index)" for out
    by (induction index arbitrary: out) (auto simp: enc_index_entry_def codec_simps)
  then show ?thesis by (simp add: tb_index_payload_def)
qed

definition index_of :: "(bytes \<times> block_ref) list \<Rightarrow> table_index" where
  "index_of es = \<lparr>ti_keys = concat (map fst es),
     ti_ends = map (\<lambda>i. of_nat (length (concat (map fst (take (Suc i) es))))) [0..<length es],
     ti_blocks = map snd es\<rparr>"

definition index_ok :: "(bytes \<times> block_ref) list \<Rightarrow> bool" where
  "index_ok es \<longleftrightarrow> list_all (\<lambda>e. ikey_wf (fst e)) es \<and> length (concat (map fst es)) < 2 ^ 32"

lemma index_of_snoc: "index_of (es @ [e]) =
    \<lparr>ti_keys = ti_keys (index_of es) @ fst e,
     ti_ends = ti_ends (index_of es) @ [of_nat (length (ti_keys (index_of es) @ fst e))],
     ti_blocks = ti_blocks (index_of es) @ [snd e]\<rparr>"
  by (simp add: index_of_def)

lemma read_index_of:
  "index_ok (pre @ es) \<Longrightarrow> reader_rest r = concat (map enc_index_entry es) \<Longrightarrow>
   read_index r (index_of pre) = Ok (index_of (pre @ es))"
proof (induction es arbitrary: pre r)
  case Nil
  then show ?case by (subst read_index.simps) (simp add: reader_is_empty_rest)
next
  case (Cons e es)
  obtain k rf bo bl where e: "e = (k, rf)" and rf: "rf = \<lparr>br_off = bo, br_len = bl\<rparr>"
    by (metis block_ref.cases surj_pair)
  have k: "ikey_wf k" "length k < 2 ^ 32" "length (concat (map fst pre) @ k) < 2 ^ 32"
    using Cons.prems(1) by (auto simp: index_ok_def e)
  then have sl: "slice_len_ok k" by (simp add: slice_len_ok_def)
  have rr: "reader_rest r = enc_len_prefixed k @ uvarint (br_off rf) @ uvarint (ucast (br_len rf))
      @ concat (map enc_index_entry es)"
  proof -
    have "enc_index_entry e = enc_len_prefixed k @ uvarint (br_off rf) @ uvarint (ucast (br_len rf))"
      by (simp add: enc_index_entry_def e)
    then show ?thesis using Cons.prems(2) by simp
  qed
  obtain r1 where r1: "reader_len_prefixed r = Ok (k, r1)" "reader_rest r1 = uvarint (br_off rf) @
      uvarint (ucast (br_len rf)) @ concat (map enc_index_entry es)"
    using lenc.dec_enc_rest [OF sl rr] by auto
  obtain r2 where r2: "reader_uvarint r1 = Ok (br_off rf, r2)"
      "reader_rest r2 = uvarint (ucast (br_len rf)) @ concat (map enc_index_entry es)"
    using uvarintc.dec_enc_rest [OF _ r1(2)] by auto
  obtain r3 where r3: "reader_uvarint r2 = Ok (ucast (br_len rf), r3)"
      "reader_rest r3 = concat (map enc_index_entry es)"
    using uvarintc.dec_enc_rest [OF _ r2(2)] by auto
  have ne: "\<not> reader_is_empty r"
    using rr by (simp add: reader_is_empty_rest enc_len_prefixed_def)
  have "read_index r3 (index_of (pre @ [e])) = Ok (index_of ((pre @ [e]) @ es))"
    using Cons.prems(1) r3(2) by (intro Cons.IH) simp_all
  moreover have "index_of (pre @ [e]) = \<lparr>ti_keys = ti_keys (index_of pre) @ k,
      ti_ends = ti_ends (index_of pre) @ [of_nat (length (ti_keys (index_of pre) @ k))],
      ti_blocks = ti_blocks (index_of pre) @ [rf]\<rparr>"
    by (simp add: index_of_snoc e)
  ultimately show ?case
    using ne r1(1) r2(1) r3(1) k unfolding rf
    by (subst read_index.simps) (simp add: ikey_wf_def Let_def index_of_def [of pre])
qed

lemma ti_key_index_of:
  assumes ok: "index_ok es" and i: "i < length es"
  shows "ti_key (index_of es) i = fst (es ! i)"
proof -
  let ?len = "\<lambda>j. length (concat (map fst (take j es)))"
  have le: "?len j < 2 ^ 32" for j
  proof -
    have "concat (map fst es) = concat (map fst (take j es)) @ concat (map fst (drop j es))"
      by (metis append_take_drop_id concat_append map_append)
    then have "?len j \<le> length (concat (map fst es))" by simp
    then show ?thesis using ok by (simp add: index_ok_def)
  qed
  then have u: "unat (of_nat (?len j) :: u32) = ?len j" for j by (simp add: unat_of_nat)
  have st: "(if i = 0 then 0 else unat (ti_ends (index_of es) ! (i - 1))) = ?len i"
    using i u by (auto simp: index_of_def)
  have en: "unat (ti_ends (index_of es) ! i) = ?len (Suc i)" using i u by (simp add: index_of_def)
  have "concat (map fst es) = concat (map fst (take i es)) @ fst (es ! i) @ concat (map fst (drop (Suc i) es))"
    using i by (metis concat.simps(2) concat_append id_take_nth_drop list.simps(9) map_append)
  moreover have "?len (Suc i) - ?len i = length (fst (es ! i))" using i by (simp add: take_Suc_conv_app_nth)
  ultimately show ?thesis
    by (simp add: ti_key_def st en Let_def) (simp add: index_of_def)
qed

section \<open>Blocks in the file\<close>

lemma file_read_append:
  "file_read_exact_at off n f = Ok buf \<Longrightarrow> sf_data f' = sf_data f @ zs \<Longrightarrow> file_read_exact_at off n f' = Ok buf"
  by (auto simp: file_read_exact_at_def split: if_splits)

lemma read_block_append:
  assumes "read_block_verified ex f r = Ok p" and "sf_data f' = sf_data f @ zs"
  shows "read_block_verified ex f' r = Ok p"
  using assms(1) file_read_append [OF _ assms(2)]
  by (fastforce simp: read_block_verified_def rbind_Inr_conv split: if_split_asm)

definition stored_block :: "codecs \<Rightarrow> bytes \<Rightarrow> compression \<Rightarrow> bytes" where
  "stored_block ex payload compression =
     (let (codec, buf) = (case compression of
            Lz4 \<Rightarrow> let compressed = ex_compress ex payload
                   in if length compressed < length payload then (codec_lz4, compressed)
                      else (codec_none, payload)
          | NoCompression \<Rightarrow> (codec_none, payload));
          buf = buf @ [codec]
      in buf @ le_bytes 4 (ex_crc ex buf))"

lemma read_stored_block:
  assumes lz4: "lz4_ok ex" and f: "sf_data f = pre @ stored_block ex payload compression @ us"
    and len: "length (pre @ stored_block ex payload compression) < 2 ^ 32"
  shows "read_block_verified ex f \<lparr>br_off = of_nat (length pre),
      br_len = of_nat (length (stored_block ex payload compression))\<rparr> = Ok payload"
proof -
  let ?s = "stored_block ex payload compression"
  obtain codec buf where cb: "(codec, buf) = (case compression of
            Lz4 \<Rightarrow> let compressed = ex_compress ex payload
                   in if length compressed < length payload then (codec_lz4, compressed)
                      else (codec_none, payload)
          | NoCompression \<Rightarrow> (codec_none, payload))" by (metis surj_pair)
  then have s: "?s = (buf @ [codec]) @ le_bytes 4 (ex_crc ex (buf @ [codec]))"
    by (simp add: stored_block_def Let_def split: prod.splits) (metis prod.inject)
  have dec: "codec = codec_none \<and> buf = payload \<or> codec = codec_lz4 \<and> ex_decompress ex buf = Some payload"
    using cb lz4 by (auto simp: lz4_ok_def Let_def split: compression.splits if_splits)
  have u: "unat (of_nat (length pre) :: u64) = length pre" "unat (of_nat (length ?s) :: u32) = length ?s"
    using len by (simp_all add: unat_of_nat)
  have "take (length ?s) (drop (length pre) (sf_data f)) = ?s" using f by simp
  moreover have "length pre + length ?s \<le> length (sf_data f)" using f by simp
  moreover have "length ?s = length buf + 5" by (simp add: s)
  moreover have "?s ! length buf = codec" "take (length buf) ?s = buf" "take (Suc (length buf)) ?s = buf @ [codec]"
    "drop (Suc (length buf)) ?s = le_bytes 4 (ex_crc ex (buf @ [codec]))"
    by (simp_all add: s nth_append)
  ultimately show ?thesis using dec u
    by (auto simp: read_block_verified_def block_trailer_len_def file_read_exact_at_def codec_none_def
        codec_lz4_def Let_def)
qed

lemma stored_block_not_Nil [simp]: "stored_block ex p c \<noteq> []"
  by (simp add: stored_block_def Let_def split: prod.split)

lemma tb_write_block_clean:
  assumes "file_clean (tb_file b)"
  shows "\<exists>w. tb_write_block ex payload compression b =
    Ok (\<lparr>br_off = of_nat (length (sf_data (tb_file b))), br_len = of_nat (length (stored_block ex payload compression))\<rparr>,
        b\<lparr>tb_file := (tb_file b)\<lparr>sf_data := sf_data (tb_file b) @ stored_block ex payload compression,
             sf_append_off := length (sf_data (tb_file b)) + length (stored_block ex payload compression)\<rparr>,
          tb_offset := tb_offset b + of_nat (length (stored_block ex payload compression)),
          tb_wrote_compressed := w\<rparr>)"
  using assms
  by (auto simp: tb_write_block_def stored_block_def file_append_clean Let_def add.commute split: prod.split
      intro!: exI [of _ "tb_wrote_compressed b \<or> fst (case compression of
            Lz4 \<Rightarrow> let compressed = ex_compress ex payload
                   in if length compressed < length payload then (codec_lz4, compressed)
                      else (codec_none, payload)
          | NoCompression \<Rightarrow> (codec_none, payload)) \<noteq> codec_none"])

section \<open>The invariant of the writer\<close>

definition block_payload :: "entry list \<Rightarrow> bytes" where
  "block_payload es = fst (block_finish (block_add_all es block_builder_default))"

lemma block_finish_add_all:
  "block_finish (block_add_all es block_builder_default) = (block_payload es, block_builder_default)"
  by (simp add: block_payload_def block_finish_def block_builder_default_def Let_def)

definition refs_in :: "codecs \<Rightarrow> std_file \<Rightarrow> (block_ref \<times> bytes) list \<Rightarrow> bool" where
  "refs_in ex f rps \<longleftrightarrow> (\<forall>(r, p) \<in> set rps. unat (br_off r) < length (sf_data f) \<and> read_block_verified ex f r = Ok p)
     \<and> sorted_wrt (\<lambda>a b. unat (br_off (fst a)) < unat (br_off (fst b))) rps"

definition tb_state :: "codecs \<Rightarrow> entry list list \<Rightarrow> entry list \<Rightarrow> block_ref list \<Rightarrow> table_builder \<Rightarrow> bool" where
  "tb_state ex ess cur rs b \<longleftrightarrow>
     [] \<notin> set ess \<and> length rs = length ess \<and> file_clean (tb_file b) \<and>
     tb_block b = block_add_all cur block_builder_default \<and>
     tb_index b = zip (map (\<lambda>es. fst (last es)) ess) rs \<and>
     (length (sf_data (tb_file b)) < 2 ^ 32 \<longrightarrow> refs_in ex (tb_file b) (zip rs (map block_payload ess)))"

definition tb_summary :: "nat \<Rightarrow> entry list \<Rightarrow> table_builder \<Rightarrow> bool" where
  "tb_summary bits es b \<longleftrightarrow> tb_bloom_bits b = bits \<and>
     (\<forall>e \<in> set es. hash64 (ikey_ukey (fst e)) \<in> set (tb_key_hashes b)) \<and>
     (tb_key_hashes b \<noteq> [] \<longrightarrow> hash64 (tb_last_hashed b) \<in> set (tb_key_hashes b)) \<and>
     length (tb_key_hashes b) \<le> length es \<and> tb_started b = (es \<noteq> []) \<and>
     (es \<noteq> [] \<longrightarrow> ts_first_ikey (tb_stats b) = fst (hd es) \<and> ts_last_ikey (tb_stats b) = fst (last es))"

lemma refs_in_snoc:
  assumes "refs_in ex f rps" and "sf_data f' = sf_data f @ zs" and "zs \<noteq> []"
    and "unat (br_off r) = length (sf_data f)" and "read_block_verified ex f' r = Ok p"
  shows "refs_in ex f' (rps @ [(r, p)])"
  using assms read_block_append [OF _ assms(2), of ex]
  by (fastforce simp: refs_in_def sorted_wrt_append)

lemma write_block_refs:
  assumes lz4: "lz4_ok ex" and clean: "file_clean (tb_file b)"
    and refs: "length (sf_data (tb_file b)) < 2 ^ 32 \<longrightarrow> refs_in ex (tb_file b) rps"
  shows "\<exists>r b'. tb_write_block ex payload compr b = Ok (r, b') \<and> file_clean (tb_file b') \<and>
    (\<exists>zs. sf_data (tb_file b') = sf_data (tb_file b) @ zs) \<and>
    (length (sf_data (tb_file b')) < 2 ^ 32 \<longrightarrow> refs_in ex (tb_file b') (rps @ [(r, payload)])) \<and>
    (tb_block b', tb_index b', tb_key_hashes b', tb_last_hashed b', tb_stats b', tb_started b', tb_bloom_bits b', tb_compression b')
      = (tb_block b, tb_index b, tb_key_hashes b, tb_last_hashed b, tb_stats b, tb_started b, tb_bloom_bits b, tb_compression b)"
proof -
  let ?f = "tb_file b" and ?s = "stored_block ex payload compr"
  let ?f' = "?f\<lparr>sf_data := sf_data ?f @ ?s, sf_append_off := length (sf_data ?f) + length ?s\<rparr>"
  let ?r = "\<lparr>br_off = of_nat (length (sf_data ?f)), br_len = of_nat (length ?s)\<rparr>"
  have refs': "refs_in ex ?f' (rps @ [(?r, payload)])" if len: "length (sf_data ?f') < 2 ^ 32"
  proof (rule refs_in_snoc [where f = ?f and zs = ?s])
    show "refs_in ex ?f rps" using refs len by simp
    show "unat (br_off ?r) = length (sf_data ?f)" using len by (simp add: unat_of_nat)
    show "read_block_verified ex ?f' ?r = Ok payload"
      using len by (intro read_stored_block [OF lz4, where us = "[]"]) simp_all
  qed simp_all
  moreover have "file_clean ?f'" using clean by (simp add: file_clean_def)
  ultimately show ?thesis
    using tb_write_block_clean [OF clean, of ex payload compr] by fastforce
qed

lemma tb_flush_state:
  assumes lz4: "lz4_ok ex" and s: "tb_state ex ess cur rs b"
    and that: "cur \<noteq> [] \<longrightarrow> ts_last_ikey (tb_stats b) = fst (last cur)"
  shows "\<exists>b' ess' rs'. tb_flush_block ex b = Ok b' \<and> tb_state ex ess' [] rs' b' \<and>
    concat ess' = concat ess @ cur \<and> tb_summary bits es b' = tb_summary bits es b \<and>
    (tb_key_hashes b', tb_stats b', tb_started b', tb_bloom_bits b', tb_compression b')
      = (tb_key_hashes b, tb_stats b, tb_started b, tb_bloom_bits b, tb_compression b)"
proof (cases cur)
  case Nil
  then have "tb_flush_block ex b = Ok b"
    using s by (simp add: tb_flush_block_def tb_state_def block_builder_is_empty_def block_add_all_default)
  with Nil s show ?thesis by auto
next
  case (Cons e es')
  let ?b = "b\<lparr>tb_block := block_builder_default\<rparr>"
  have ne: "\<not> block_builder_is_empty (tb_block b)"
    using s Cons by (simp add: tb_state_def block_builder_is_empty_def block_add_all_default)
  have "file_clean (tb_file ?b)" "length (sf_data (tb_file ?b)) < 2 ^ 32 \<longrightarrow>
      refs_in ex (tb_file ?b) (zip rs (map block_payload ess))"
    using s by (simp_all add: tb_state_def)
  from write_block_refs [OF lz4 this, of "block_payload cur" "tb_compression b"]
  obtain r b' where w: "tb_write_block ex (block_payload cur) (tb_compression b) ?b = Ok (r, b')"
    "file_clean (tb_file b')"
    "length (sf_data (tb_file b')) < 2 ^ 32 \<longrightarrow> refs_in ex (tb_file b') (zip rs (map block_payload ess) @ [(r, block_payload cur)])"
    "tb_block b' = block_builder_default" "tb_index b' = tb_index b" "tb_key_hashes b' = tb_key_hashes b"
    "tb_last_hashed b' = tb_last_hashed b" "tb_stats b' = tb_stats b" "tb_started b' = tb_started b"
    "tb_bloom_bits b' = tb_bloom_bits b" "tb_compression b' = tb_compression b"
    by auto
  let ?b2 = "b'\<lparr>tb_index := tb_index b' @ [(fst (last cur), r)]\<rparr>"
  have "tb_flush_block ex b = Ok ?b2"
    using ne s w(1) that Cons by (simp add: tb_flush_block_def tb_state_def block_finish_add_all)
  moreover have "tb_state ex (ess @ [cur]) [] (rs @ [r]) ?b2"
    using s w Cons by (simp add: tb_state_def block_add_all_def)
  moreover have "tb_summary bits es ?b2 = tb_summary bits es b" using w by (simp add: tb_summary_def)
  ultimately show ?thesis using w by (intro exI [of _ ?b2] exI [of _ "ess @ [cur]"] exI [of _ "rs @ [r]"]) simp
qed

lemma tb_add_state:
  assumes lz4: "lz4_ok ex" and s: "tb_state ex ess cur rs b" and sm: "tb_summary bits (concat ess @ cur) b"
    and k: "ikey_kind (fst e) = Ok kind"
  shows "\<exists>b' ess' cur' rs'. tb_add ex (fst e) (snd e) b = Ok b' \<and> tb_state ex ess' cur' rs' b' \<and>
    concat ess' @ cur' = concat ess @ cur @ [e] \<and> tb_summary bits (concat ess @ cur @ [e]) b'"
proof -
  define stats where "stats = (tb_stats b)\<lparr>ts_first_ikey := (if tb_started b then ts_first_ikey (tb_stats b) else fst e),
      ts_last_ikey := fst e, ts_entries := ts_entries (tb_stats b) + 1,
      ts_tombstones := (if kind = Delete then ts_tombstones (tb_stats b) + 1 else ts_tombstones (tb_stats b)),
      ts_min_seq := min (ts_min_seq (tb_stats b)) (ikey_seqno (fst e)),
      ts_max_seq := max (ts_max_seq (tb_stats b)) (ikey_seqno (fst e))\<rparr>"
  define fresh where "fresh \<longleftrightarrow> tb_key_hashes b = [] \<or> tb_last_hashed b \<noteq> ikey_ukey (fst e)"
  define b1 where "b1 = b\<lparr>tb_stats := stats, tb_started := True,
      tb_key_hashes := (if fresh then tb_key_hashes b @ [hash64 (ikey_ukey (fst e))] else tb_key_hashes b),
      tb_last_hashed := (if fresh then ikey_ukey (fst e) else tb_last_hashed b),
      tb_block := block_add (fst e) (snd e) (tb_block b)\<rparr>"
  have eq: "tb_add ex (fst e) (snd e) b =
      (if tb_block_size b \<le> block_size_estimate (tb_block b1) then tb_flush_block ex b1 else Ok b1)"
    using k unfolding tb_add_def b1_def stats_def fresh_def Let_def
    by (cases "tb_started b"; cases kind; cases "tb_key_hashes b = [] \<or> tb_last_hashed b \<noteq> ikey_ukey (fst e)"; cases b; simp)
  have s1: "tb_state ex ess (cur @ [e]) rs b1"
    using s by (simp add: tb_state_def b1_def block_add_all_def)
  have sm1: "tb_summary bits (concat ess @ cur @ [e]) b1"
    using sm by (auto simp: tb_summary_def b1_def stats_def fresh_def hd_append)
  have "cur @ [e] \<noteq> [] \<longrightarrow> ts_last_ikey (tb_stats b1) = fst (last (cur @ [e]))"
    by (simp add: b1_def stats_def)
  from tb_flush_state [OF lz4 s1 this, of bits "concat ess @ cur @ [e]"] sm1 s1 eq show ?thesis
    by (cases "tb_block_size b \<le> block_size_estimate (tb_block b1)") fastforce+
qed

definition table_build ::
    "codecs \<Rightarrow> std_file \<Rightarrow> nat \<Rightarrow> nat \<Rightarrow> compression \<Rightarrow> entry list \<Rightarrow> (table_stats \<times> u64 \<times> std_file) res" where
  "table_build ex file block_size bloom_bits compression es =
     rbind (foldM (\<lambda>b e. tb_add ex (fst e) (snd e) b) (table_builder_new file block_size bloom_bits compression) es)
       (tb_finish ex)"

lemma tb_add_all_state:
  assumes lz4: "lz4_ok ex"
  shows "list_all (\<lambda>e. \<exists>k. ikey_kind (fst e) = Ok k) es \<Longrightarrow> tb_state ex ess cur rs b \<Longrightarrow> tb_summary bits (concat ess @ cur) b \<Longrightarrow>
    \<exists>b' ess' cur' rs'. foldM (\<lambda>b e. tb_add ex (fst e) (snd e) b) b es = Ok b' \<and> tb_state ex ess' cur' rs' b' \<and>
      concat ess' @ cur' = concat ess @ cur @ es \<and> tb_summary bits (concat ess @ cur @ es) b'"
proof (induction es arbitrary: ess cur rs b)
  case Nil
  then show ?case by auto
next
  case (Cons e es)
  then obtain k where "ikey_kind (fst e) = Ok k" by auto
  from tb_add_state [OF lz4 Cons.prems(2,3) this]
  obtain b1 ess1 cur1 rs1 where 1: "tb_add ex (fst e) (snd e) b = Ok b1" "tb_state ex ess1 cur1 rs1 b1"
    "concat ess1 @ cur1 = concat ess @ cur @ [e]" "tb_summary bits (concat ess @ cur @ [e]) b1" by blast
  have eq: "xs @ es = concat ess @ cur @ e # es" if "xs = concat ess @ cur @ [e]" for xs
    using that by simp
  have "list_all (\<lambda>e. \<exists>k. ikey_kind (fst e) = Ok k) es" "tb_summary bits (concat ess1 @ cur1) b1"
    using Cons.prems(1) 1(3,4) by simp_all
  from Cons.IH [OF this(1) 1(2) this(2)] eq [OF 1(3)] 1(1) show ?case by (simp flip: append_assoc)
qed

section \<open>Finishing\<close>

lemma refs_in_append: "refs_in ex f rps \<Longrightarrow> sf_data f' = sf_data f @ zs \<Longrightarrow> refs_in ex f' rps"
  using read_block_append [of ex f _ _ f' zs] by (fastforce simp: refs_in_def)

lemma tb_finish_file:
  assumes lz4: "lz4_ok ex" and s: "tb_state ex ess cur rs b" and sm: "tb_summary bits (concat ess @ cur) b"
    and ne: "concat ess @ cur \<noteq> []" and lst: "cur \<noteq> [] \<longrightarrow> ts_last_ikey (tb_stats b) = fst (last cur)"
  shows "\<exists>ess' rs' fr ir sr format size f.
    tb_finish ex b = Ok (tb_stats b, size, f) \<and> concat ess' = concat ess @ cur \<and> [] \<notin> set ess' \<and>
    length rs' = length ess' \<and> table_format \<le> format \<and> format \<le> table_format_compressed \<and>
    (\<exists>zs. sf_data f = zs @ footer_encode \<lparr>fo_filter = fr, fo_index = ir, fo_stats = sr, fo_format = format\<rparr>) \<and>
    (length (sf_data f) < 2 ^ 32 \<longrightarrow> refs_in ex f (zip rs' (map block_payload ess') @
       [(fr, bloom_build (tb_key_hashes b) (tb_bloom_bits b)),
        (ir, tb_index_payload (zip (map (\<lambda>es. fst (last es)) ess') rs')), (sr, stats_encode (tb_stats b))]))"
proof -
  have started: "tb_started b" using sm ne by (simp add: tb_summary_def)
  obtain b1 ess' rs' where 1: "tb_flush_block ex b = Ok b1" "tb_state ex ess' [] rs' b1"
    "concat ess' = concat ess @ cur" "tb_key_hashes b1 = tb_key_hashes b" "tb_stats b1 = tb_stats b"
    "tb_bloom_bits b1 = tb_bloom_bits b"
    using tb_flush_state [OF lz4 s lst] by blast
  let ?data = "zip rs' (map block_payload ess')" and ?idx = "zip (map (\<lambda>es. fst (last es)) ess') rs'"
  let ?filter = "bloom_build (tb_key_hashes b) (tb_bloom_bits b)"
  have b1: "file_clean (tb_file b1)" "length (sf_data (tb_file b1)) < 2 ^ 32 \<longrightarrow> refs_in ex (tb_file b1) ?data"
    "tb_index b1 = ?idx" "[] \<notin> set ess'" "length rs' = length ess'"
    using 1(2) by (simp_all add: tb_state_def)
  obtain fr b2 where 2: "tb_write_block ex ?filter NoCompression b1 = Ok (fr, b2)" "file_clean (tb_file b2)"
    "length (sf_data (tb_file b2)) < 2 ^ 32 \<longrightarrow> refs_in ex (tb_file b2) (?data @ [(fr, ?filter)])"
    "tb_index b2 = ?idx" "tb_stats b2 = tb_stats b" "tb_compression b2 = tb_compression b1"
    using write_block_refs [OF lz4 b1(1,2), of ?filter NoCompression] b1(3) 1(5) by auto
  obtain ir b3 where 3: "tb_write_block ex (tb_index_payload ?idx) (tb_compression b1) b2 = Ok (ir, b3)" "file_clean (tb_file b3)"
    "length (sf_data (tb_file b3)) < 2 ^ 32 \<longrightarrow>
       refs_in ex (tb_file b3) ((?data @ [(fr, ?filter)]) @ [(ir, tb_index_payload ?idx)])" "tb_stats b3 = tb_stats b"
    using write_block_refs [OF lz4 2(2,3), of "tb_index_payload ?idx" "tb_compression b1"] 2(5) by auto
  obtain sr b4 where 4: "tb_write_block ex (stats_encode (tb_stats b)) NoCompression b3 = Ok (sr, b4)" "file_clean (tb_file b4)"
    "length (sf_data (tb_file b4)) < 2 ^ 32 \<longrightarrow>
       refs_in ex (tb_file b4) (((?data @ [(fr, ?filter)]) @ [(ir, tb_index_payload ?idx)]) @ [(sr, stats_encode (tb_stats b))])"
    "tb_stats b4 = tb_stats b"
    using write_block_refs [OF lz4 3(2,3), of "stats_encode (tb_stats b)" NoCompression] 3(4) by auto
  define format where "format = (if tb_wrote_compressed b4 then table_format_compressed else table_format)"
  define foot where "foot = footer_encode \<lparr>fo_filter = fr, fo_index = ir, fo_stats = sr, fo_format = format\<rparr>"
  obtain f1 where f1: "file_append foot (tb_file b4) = (Ok (length (sf_data (tb_file b4))), f1)"
    "sf_data f1 = sf_data (tb_file b4) @ foot" "file_clean f1"
    using file_append_clean [OF 4(2), of foot] 4(2) by (simp add: file_clean_def)
  obtain f where f: "file_sync_data f1 = (Ok (), f)" "sf_data f = sf_data f1"
    using file_sync_clean [OF f1(3)] by simp
  have fin: "tb_finish ex b = Ok (tb_stats b, tb_offset b4 + of_nat footer_len, f)"
    using started 1(1,4-6) 2(1,4,6) 3(1,4) 4(1,4) f1(1) f(1)
    by (simp add: tb_finish_def Let_def format_def [symmetric] foot_def [symmetric])
  have "length (sf_data f) < 2 ^ 32 \<longrightarrow> refs_in ex f (?data @ [(fr, ?filter), (ir, tb_index_payload ?idx),
      (sr, stats_encode (tb_stats b))])"
    using 4(3) f(2) f1(2) refs_in_append [of ex "tb_file b4" _ f foot] by auto
  moreover have "table_format \<le> format" "format \<le> table_format_compressed"
    by (simp_all add: format_def table_format_def table_format_compressed_def)
  moreover have "\<exists>zs. sf_data f = zs @ foot" using f(2) f1(2) by simp
  ultimately show ?thesis using fin 1(3) b1(4,5) unfolding foot_def by blast
qed

section \<open>A built table is sound\<close>

definition table_input_ok :: "nat \<Rightarrow> entry list \<Rightarrow> bool" where
  "table_input_ok bloom_bits es \<longleftrightarrow> es \<noteq> [] \<and> entries_sorted es \<and>
     list_all (\<lambda>e. ikey_wf (fst e) \<and> (\<exists>k. ikey_kind (fst e) = Ok k)) es \<and>
     length (enc_block_entries es) < 2 ^ 32 \<and> bloom_nbytes (length es) bloom_bits * 8 < 2 ^ 64"

lemma enc_part_le: "es \<in> set ess \<Longrightarrow> length (enc_block_entries es) \<le> length (enc_block_entries (concat ess))"
  by (induction ess) auto

lemma last_keys_le:
  "[] \<notin> set ess \<Longrightarrow> length (concat (map (\<lambda>es. fst (last es)) ess)) \<le> length (enc_block_entries (concat ess))"
proof (induction ess)
  case (Cons es ess)
  then obtain fs where es: "es = fs @ [last es]" by (metis append_butlast_last_id list.set_intros(1))
  have "length (enc_block_entries es) = length (enc_block_entries fs) + length (enc_block_entry (last es))"
    by (subst es) simp
  then have "length (fst (last es)) \<le> length (enc_block_entries es)"
    using length_enc_block_entry [of "last es"] by linarith
  then show ?case using Cons by simp
qed simp

lemma vkey_le_ukey: "vkey_of a \<le> vkey_of b \<Longrightarrow> ikey_ukey a \<le> ikey_ukey b"
  by (auto simp: less_eq_vkey_def less_vkey_def vkey_of_def)

lemma entries_sorted_hd: "entries_sorted es \<Longrightarrow> e \<in> set es \<Longrightarrow> vkey_of (fst (hd es)) \<le> vkey_of (fst e)"
  by (cases es) auto

lemma key_length_le: "e \<in> set es \<Longrightarrow> length (fst e) \<le> length (enc_block_entries es)"
  using length_enc_block_entry [of e] by (induction es) auto

lemma block_payload_holds:
  assumes "table_input_ok bits (concat ess)" and "es \<in> set ess"
  shows "\<exists>b. block_new (block_payload es) = Ok b \<and> block_holds b es"
proof -
  have "length (enc_block_entries es) < 2 ^ 32"
    using enc_part_le [OF assms(2)] assms(1) by (simp only: table_input_ok_def) linarith
  then have "block_ok es" using assms by (auto simp: table_input_ok_def block_ok_def list_all_iff)
  from block_of_payload [OF this] show ?thesis by (simp add: block_payload_def block_finish_payload)
qed

lemma map_fst_zip_comp: "length xs = length ys \<Longrightarrow> map (\<lambda>a. f (fst a)) (zip xs ys) = map f xs"
  by (induction xs ys rule: list_induct2) auto

lemma opened_table_sound:
  fixes tid :: u64
  assumes inp: "table_input_ok bits (concat ess)" and ne: "[] \<notin> set ess" and len: "length rs = length ess"
    and refs: "refs_in ex f (zip rs (map block_payload ess) @ [(fr, bloom_build hs bits), (ir, p), (sr, q)])"
    and hs: "\<forall>e \<in> set (concat ess). hash64 (ikey_ukey (fst e)) \<in> set hs" "length hs \<le> length (concat ess)"
    and st: "ts_first_ikey st = fst (hd (concat ess))" "ts_last_ikey st = fst (last (concat ess))"
  defines "t \<equiv> \<lparr>ta_id = tid, ta_file = f, ta_index = index_of (zip (map (\<lambda>es. fst (last es)) ess) rs),
      ta_filter = fr, ta_stats = st\<rparr>"
  shows "table_parts ex t = ess \<and> table_sound ex t"
proof -
  let ?idx = "zip (map (\<lambda>es. fst (last es)) ess) rs"
  have blk: "ti_blocks (ta_index t) = rs" using len by (simp add: t_def index_of_def)
  have rd: "read_block_verified ex f (rs ! i) = Ok (block_payload (ess ! i))" if "i < length ess" for i
  proof -
    have "(rs ! i, block_payload (ess ! i)) \<in> set (zip rs (map block_payload ess))"
      using that len by (auto simp: set_zip intro!: exI [of _ i])
    then show ?thesis using refs by (fastforce simp: refs_in_def)
  qed
  have holds: "\<exists>b. block_new (block_payload (ess ! i)) = Ok b \<and> block_holds b (ess ! i)" if "i < length ess" for i
    using block_payload_holds [OF inp] that by simp
  have parts: "table_parts ex t = ess"
  proof (rule nth_equalityI)
    show "length (table_parts ex t) = length ess" using blk len by (simp add: ti_len_def)
    fix i assume "i < length (table_parts ex t)"
    then have i: "i < length ess" using blk len by (simp add: ti_len_def)
    then obtain b where "block_new (block_payload (ess ! i)) = Ok b" "block_holds b (ess ! i)" using holds by blast
    with rd [OF i] i block_holds_entries [OF this(2)] show "table_parts ex t ! i = ess ! i"
      using blk len by (simp add: table_parts_def) (simp add: t_def)
  qed
  have srt: "parts_sorted ess" using inp ne by (simp add: parts_sorted_def table_input_ok_def)
  have iok: "index_ok ?idx"
  proof -
    have "map fst ?idx = map (\<lambda>es. fst (last es)) ess" using len by simp
    moreover have "ikey_wf (fst (last es))" if "es \<in> set ess" for es
    proof -
      have "last es \<in> set (concat ess)" using that ne by (auto intro!: bexI [of _ es] last_in_set)
      then show ?thesis using inp by (auto simp: table_input_ok_def list_all_iff)
    qed
    ultimately show ?thesis
      using last_keys_le [OF ne] inp unfolding index_ok_def table_input_ok_def list_all_iff
      by (auto dest!: set_zip_leftD)
  qed
  have at: "table_block_at ex t i (table_parts ex t ! i) \<and> ti_key (ta_index t) i = fst (last (table_parts ex t ! i))"
    if "i < ti_len (ta_index t)" for i
  proof -
    have i: "i < length ess" using that blk len by (simp add: ti_len_def)
    have "ti_key (ta_index t) i = fst (last (ess ! i))"
      using ti_key_index_of [OF iok, of i] i len by (simp add: t_def)
    moreover have "ti_block (ta_index t) i = rs ! i" "ta_file t = f" using blk by (simp_all add: ti_block_def t_def)
    ultimately show ?thesis using holds [OF i] rd [OF i] by (auto simp: parts table_block_at_def)
  qed
  have dist: "distinct (map br_off (table_refs t))"
  proof -
    have "sorted_wrt (\<lambda>a b. unat (br_off (fst a)) < unat (br_off (fst b))) (zip rs (map block_payload ess) @ [(fr, bloom_build hs bits)])"
      using refs by (simp add: refs_in_def sorted_wrt_append)
    then have "sorted_wrt (<) (map (\<lambda>a. unat (br_off (fst a))) (zip rs (map block_payload ess) @ [(fr, bloom_build hs bits)]))"
      by (simp only: sorted_wrt_map)
    then have "distinct (map (\<lambda>a. unat (br_off (fst a))) (zip rs (map block_payload ess) @ [(fr, bloom_build hs bits)]))"
      by (simp only: strict_sorted_iff)
    moreover have "map (\<lambda>a. unat (br_off (fst a))) (zip rs (map block_payload ess) @ [(fr, bloom_build hs bits)])
        = map unat (map br_off (rs @ [fr]))"
      using map_fst_zip_comp [of rs "map block_payload ess" "\<lambda>r. unat (br_off r)"] len by (simp add: comp_def)
    ultimately have "distinct (map br_off (rs @ [fr]))" by (metis distinct_map)
    then show ?thesis using blk by (auto simp: table_refs_def t_def)
  qed
  have "read_block_verified ex f fr = Ok (bloom_build hs bits)" using refs by (simp add: refs_in_def)
  moreover have "bloom_nbytes (length hs) bits * 8 < 2 ^ 64"
    using bloom_nbytes_mono [OF hs(2), of bits] inp by (simp add: table_input_ok_def)
  ultimately have filt: "table_filter_ok ex t"
    using hs(1) bloom_no_false_negative unfolding table_filter_ok_def table_entries_def parts
    by (intro exI [of _ "bloom_build hs bits"]) (auto simp: t_def)
  have range: "table_range_ok ex t"
    using inp vkey_le_ukey [OF entries_sorted_hd] vkey_le_ukey [OF entries_sorted_last] st
    unfolding table_range_ok_def table_entries_def parts
    by (auto simp: t_def stats_min_ukey_def stats_max_ukey_def table_input_ok_def simp del: set_concat)
  have "ti_blocks (ta_index t) \<noteq> []" using blk len inp by (auto simp: table_input_ok_def)
  with parts srt at dist filt range show ?thesis by (simp add: table_sound_def)
qed

text \<open>A small table, to see the hypotheses met.\<close>

definition sample_codecs :: codecs where
  "sample_codecs = \<lparr>ex_crc = (\<lambda>_. 7), ex_compress = (\<lambda>p. p), ex_decompress = Some\<rparr>"

definition sample_entries :: "entry list" where
  "sample_entries = [(make_ikey [107] 9 Put, [1])]"

lemma sample_build:
  "\<exists>st sz f. table_build sample_codecs (std_file_new []) 4096 1 NoCompression sample_entries = Ok (st, sz, f)
    \<and> length (sf_data f) < 2 ^ 32"
proof -
  have u: "length (uvarint v) \<le> 10" for v by (rule length_uvarint_le_10)
  have k: "length (make_ikey [107] 9 Put) = 9" by (simp add: make_ikey_def)
  show ?thesis
    by (simp add: table_build_def sample_entries_def table_builder_new_def tb_add_def key_simps max_seqno_val Let_def
        block_builder_default_def block_add_def block_size_estimate_def tb_finish_def tb_flush_block_def
        block_builder_is_empty_def block_finish_def tb_write_block_def std_file_new_def file_append_def next_fault_def
        file_sync_data_def codec_simps split_def k length_bloom_build bloom_nbytes_def footer_len_def
        stats_encode_def tb_index_payload_def enc_len_prefixed_def)
      (use u [of 9] u [of 1] u [of 0] u [of "ucast (23 + (word_of_nat (length (uvarint 9)) +
         word_of_nat (length (uvarint 1))) :: u32)"] in linarith)
qed

lemma sample_input_ok: "lz4_ok sample_codecs" "table_input_ok 1 sample_entries"
proof -
  show "lz4_ok sample_codecs" by (simp add: lz4_ok_def sample_codecs_def)
  have "length (uvarint v) \<le> 10" for v by (rule length_uvarint_le_10)
  from add_mono [OF this [of 9] this [of 1]] show "table_input_ok 1 sample_entries"
    by (simp add: table_input_ok_def sample_entries_def key_simps max_seqno_val enc_block_entry_def bloom_nbytes_def)
      (simp add: make_ikey_def)
qed

section \<open>Properties\<close>

lemma table_build_opens:
  assumes lz4: "lz4_ok ex" and inp: "table_input_ok bits es" and clean: "file_clean file" "sf_data file = []"
  shows "\<exists>stats sz f. table_build ex file block_size bits compr es = Ok (stats, sz, f) \<and>
    (length (sf_data f) < 2 ^ 32 \<longrightarrow>
      (\<exists>t. table_open ex f tid = Ok t \<and> table_sound ex t \<and> table_entries ex t = es \<and> ta_id t = tid \<and>
        ts_first_ikey (ta_stats t) = fst (hd es) \<and> ts_last_ikey (ta_stats t) = fst (last es)))"
proof -
  let ?b0 = "table_builder_new file block_size bits compr"
  have s0: "tb_state ex [] [] [] ?b0"
    using clean by (simp add: tb_state_def table_builder_new_def block_add_all_def refs_in_def)
  have sm0: "tb_summary bits (concat [] @ []) ?b0" by (simp add: tb_summary_def table_builder_new_def)
  have kinds: "list_all (\<lambda>e. \<exists>k. ikey_kind (fst e) = Ok k) es"
    using inp by (auto simp: table_input_ok_def list_all_iff)
  obtain b ess cur rs where b: "foldM (\<lambda>b e. tb_add ex (fst e) (snd e) b) ?b0 es = Ok b" "tb_state ex ess cur rs b"
    "concat ess @ cur = es" "tb_summary bits es b"
    using tb_add_all_state [OF lz4 kinds s0 sm0] by auto
  have es: "es \<noteq> []" using inp by (simp add: table_input_ok_def)
  have st: "ts_first_ikey (tb_stats b) = fst (hd es)" "ts_last_ikey (tb_stats b) = fst (last es)"
    and hs: "\<forall>e \<in> set es. hash64 (ikey_ukey (fst e)) \<in> set (tb_key_hashes b)" "length (tb_key_hashes b) \<le> length es"
    and bits: "tb_bloom_bits b = bits"
    using b(4) es by (simp_all add: tb_summary_def)
  have lst: "cur \<noteq> [] \<longrightarrow> ts_last_ikey (tb_stats b) = fst (last cur)" using st(2) b(3) by auto
  obtain ess' rs' fr ir sr format size f where fin: "tb_finish ex b = Ok (tb_stats b, size, f)" "concat ess' = es"
    "[] \<notin> set ess'" "length rs' = length ess'" "table_format \<le> format" "format \<le> table_format_compressed"
    "\<exists>zs. sf_data f = zs @ footer_encode \<lparr>fo_filter = fr, fo_index = ir, fo_stats = sr, fo_format = format\<rparr>"
    "length (sf_data f) < 2 ^ 32 \<longrightarrow> refs_in ex f (zip rs' (map block_payload ess') @
       [(fr, bloom_build (tb_key_hashes b) bits),
        (ir, tb_index_payload (zip (map (\<lambda>es. fst (last es)) ess') rs')), (sr, stats_encode (tb_stats b))])"
    using tb_finish_file [OF lz4 b(2), of bits, unfolded b(3), OF b(4) es lst] unfolding bits by blast
  have build: "table_build ex file block_size bits compr es = Ok (tb_stats b, size, f)"
    using b(1) fin(1) by (simp add: table_build_def)
  have "\<exists>t. table_open ex f tid = Ok t \<and> table_sound ex t \<and> table_entries ex t = es \<and> ta_id t = tid \<and>
      ts_first_ikey (ta_stats t) = fst (hd es) \<and> ts_last_ikey (ta_stats t) = fst (last es)"
    if small: "length (sf_data f) < 2 ^ 32"
  proof -
    let ?idx = "zip (map (\<lambda>es. fst (last es)) ess') rs'"
    let ?foot = "\<lparr>fo_filter = fr, fo_index = ir, fo_stats = sr, fo_format = format\<rparr>"
    let ?t = "\<lparr>ta_id = tid, ta_file = f, ta_index = index_of ?idx, ta_filter = fr, ta_stats = tb_stats b\<rparr>"
    note refs = fin(8) [rule_format, OF small]
    have sound: "table_parts ex ?t = ess' \<and> table_sound ex ?t"
      by (rule opened_table_sound [OF _ fin(3,4) refs]) (use inp fin(2) hs st in simp_all)
    have rd: "read_block_verified ex f fr = Ok (bloom_build (tb_key_hashes b) bits)"
      "read_block_verified ex f ir = Ok (tb_index_payload ?idx)"
      "read_block_verified ex f sr = Ok (stats_encode (tb_stats b))"
      using refs by (simp_all add: refs_in_def)
    have in_es: "hd es \<in> set es" "last es \<in> set es" using es by simp_all
    then have keys: "ikey_wf (fst (hd es))" "ikey_wf (fst (last es))"
      using inp by (auto simp: table_input_ok_def list_all_iff)
    moreover have "slice_len_ok (fst (hd es))" "slice_len_ok (fst (last es))"
      using in_es [THEN key_length_le] inp by (simp_all add: slice_len_ok_def table_input_ok_def)
    ultimately have stats: "stats_decode (stats_encode (tb_stats b)) = Ok (tb_stats b)"
      using st by (intro stats_roundtrip) simp_all
    have iok: "index_ok ?idx"
    proof -
      have "ikey_wf (fst (last es'))" if "es' \<in> set ess'" for es'
      proof -
        have "last es' \<in> set es" using that fin(2,3) by (auto intro!: bexI [of _ es'] last_in_set)
        then show ?thesis using inp by (auto simp: table_input_ok_def list_all_iff)
      qed
      then show ?thesis
        using last_keys_le [OF fin(3)] inp fin(2,4) by (auto simp: index_ok_def table_input_ok_def list_all_iff dest!: set_zip_leftD)
    qed
    have idx: "read_index (reader_new (tb_index_payload ?idx)) \<lparr>ti_keys = [], ti_ends = [], ti_blocks = []\<rparr> = Ok (index_of ?idx)"
      using read_index_of [of "[]" ?idx "reader_new (tb_index_payload ?idx)"] iok
      by (simp add: tb_index_payload_concat index_of_def [of "[]"])
    obtain zs where zs: "sf_data f = zs @ footer_encode ?foot" using fin(7) by blast
    then have "footer_len \<le> file_len f" "file_read_exact_at (file_len f - footer_len) footer_len f = Ok (footer_encode ?foot)"
      by (simp_all add: file_len_def file_read_exact_at_def)
    moreover have "footer_decode (footer_encode ?foot) = Ok ?foot" using fin(5,6) by (intro footer_roundtrip) simp_all
    moreover have "ti_blocks (index_of ?idx) \<noteq> []" using fin(2,4) es by (auto simp: index_of_def)
    ultimately have "table_open ex f tid = Ok ?t"
      using rd stats idx by (simp add: table_open_def Let_def)
    then show ?thesis using sound fin(2) st by (simp add: table_entries_def)
  qed
  with build show ?thesis by blast
qed

text \<open>
  C15: the table written from sorted entries opens, and a lookup in it through any cache that
  holds only what the files hold returns the newest visible version of the key among those
  entries: filter, index, block search and decompression lose and invent nothing.
\<close>

theorem table_get_refines:
  assumes "lz4_ok ex" and "table_input_ok bits es" and "file_clean file" and "sf_data file = []"
    and "table_build ex file block_size bits compr es = Ok (stats, sz, f)" and "length (sf_data f) < 2 ^ 32"
    and "s \<le> max_seqno"
  shows "\<exists>t. table_open ex f tid = Ok t \<and> (\<forall>P c. table_on ex P t \<and> cache_holds P c \<longrightarrow>
    (\<exists>c'. table_get ex t u s c = (opt_hit (lookup_at es u s), c') \<and> cache_holds P c'))"
  using table_build_opens [OF assms(1-4), of block_size compr tid] assms(5,6) table_get_lookup [OF _ _ _ assms(7)]
  by fastforce

theorem table_get_refines_witness:
  "\<exists>stats sz f. table_build sample_codecs (std_file_new []) 4096 1 NoCompression sample_entries = Ok (stats, sz, f) \<and>
    (\<exists>t. table_open sample_codecs f 7 = Ok t \<and> (\<forall>P c. table_on sample_codecs P t \<and> cache_holds P c \<longrightarrow>
      (\<exists>c'. table_get sample_codecs t [107] 20 c = (opt_hit (lookup_at sample_entries [107] 20), c')
        \<and> cache_holds P c')))"
proof -
  obtain st sz f where b: "table_build sample_codecs (std_file_new []) 4096 1 NoCompression sample_entries = Ok (st, sz, f)"
    "length (sf_data f) < 2 ^ 32" using sample_build by blast
  have "file_clean (std_file_new [])" "sf_data (std_file_new []) = []" "(20 :: seqno) \<le> max_seqno"
    by (simp_all add: std_file_new_def file_clean_def max_seqno_val)
  from table_get_refines [OF sample_input_ok this(1,2) b this(3)] b(1) show ?thesis by blast
qed



end
