(* ===== verification/ReadView.thy ===== *)
theory ReadView
  imports Version TableBuild "HOL-Library.Multiset"
begin

text \<open>
  What a read view stands for: the sorted merge of its layers. The newest layer that has a
  version of a key decides a lookup, which is right because layers are ordered by age: every
  version of a key in a newer layer has a larger seqno than any in an older one.
\<close>

section \<open>The sorted merge of entry lists\<close>

definition merge_entries :: "entry list list \<Rightarrow> entry list" where
  "merge_entries ess = sort_key (\<lambda>e. vkey_of (fst e)) (concat ess)"

definition keys_distinct :: "entry list list \<Rightarrow> bool" where
  "keys_distinct ess \<longleftrightarrow> distinct (map (\<lambda>e. vkey_of (fst e)) (concat ess))"

lemma set_merge_entries [simp]: "set (merge_entries ess) = set (concat ess)"
  by (simp add: merge_entries_def)

lemma entries_sorted_strict: "entries_sorted es \<longleftrightarrow> sorted_wrt (<) (map (\<lambda>e. vkey_of (fst e)) es)"
  by (simp add: entries_sorted_def sorted_wrt_map)

lemma merge_entries_sorted:
  assumes "keys_distinct ess"
  shows "entries_sorted (merge_entries ess)"
proof -
  let ?k = "\<lambda>e :: entry. vkey_of (fst e)"
  have "mset (map ?k (merge_entries ess)) = mset (map ?k (concat ess))"
    by (simp add: merge_entries_def)
  then have "distinct (map ?k (merge_entries ess))"
    using assms unfolding keys_distinct_def by (metis mset_eq_imp_distinct_iff)
  then show ?thesis by (simp add: entries_sorted_strict strict_sorted_iff merge_entries_def)
qed

lemma entries_sorted_unique:
  assumes "entries_sorted xs" and "entries_sorted ys" and "set xs = set ys"
  shows "xs = ys"
proof -
  let ?k = "\<lambda>e :: entry. vkey_of (fst e)"
  have "map ?k xs = map ?k ys"
    using assms by (intro sorted_distinct_set_unique) (auto simp: entries_sorted_strict strict_sorted_iff)
  moreover have "inj_on ?k (set xs)" using assms(1) by (simp add: entries_sorted_strict strict_sorted_iff distinct_map)
  ultimately show ?thesis using assms(3) by (metis inj_on_map_eq_map Un_absorb)
qed

lemma merge_entries_eq:
  "entries_sorted es \<Longrightarrow> keys_distinct ess \<Longrightarrow> set es = set (concat ess) \<Longrightarrow> merge_entries ess = es"
  by (rule entries_sorted_unique) (simp_all add: merge_entries_sorted)

section \<open>Layers\<close>

definition newer_layer :: "entry list \<Rightarrow> entry list \<Rightarrow> bool" where
  "newer_layer xs ys \<longleftrightarrow> (\<forall>x \<in> set xs. \<forall>y \<in> set ys. ikey_ukey (fst x) = ikey_ukey (fst y) \<longrightarrow>
     ikey_seqno (fst y) < ikey_seqno (fst x))"

definition layered :: "entry list list \<Rightarrow> bool" where
  "layered ess \<longleftrightarrow> list_all entries_sorted ess \<and> sorted_wrt newer_layer ess"

lemma layered_Cons:
  "layered (es # ess) \<longleftrightarrow> entries_sorted es \<and> (\<forall>fs \<in> set ess. newer_layer es fs) \<and> layered ess"
  by (auto simp: layered_def)

lemma newer_layer_less:
  assumes "newer_layer xs ys" and "x \<in> set xs" and "y \<in> set ys" and "ikey_ukey (fst x) = ikey_ukey (fst y)"
  shows "vkey_of (fst x) < vkey_of (fst y)"
  using assms by (auto simp: newer_layer_def less_vkey_def)

lemma layered_distinct: "layered ess \<Longrightarrow> keys_distinct ess"
proof (induction ess)
  case (Cons es ess)
  then have es: "entries_sorted es" "\<forall>fs \<in> set ess. newer_layer es fs" and ess: "keys_distinct ess"
    by (auto simp: layered_Cons)
  have "vkey_of (fst x) \<noteq> vkey_of (fst y)" if x: "x \<in> set es" and y: "y \<in> set (concat ess)" for x y
  proof
    assume eq: "vkey_of (fst x) = vkey_of (fst y)"
    then have "ikey_ukey (fst x) = ikey_ukey (fst y)" by (simp add: vkey_of_def)
    moreover obtain fs where "fs \<in> set ess" "y \<in> set fs" using y by auto
    ultimately show False using newer_layer_less es(2) x eq by (metis less_irrefl)
  qed
  then have "(\<lambda>e. vkey_of (fst e)) ` set es \<inter> (\<lambda>e. vkey_of (fst e)) ` set (concat ess) = {}" by blast
  then show ?case using es(1) ess by (simp add: keys_distinct_def entries_sorted_strict strict_sorted_iff)
qed (simp add: keys_distinct_def)

fun first_hit :: "entry list list \<Rightarrow> bytes \<Rightarrow> seqno \<Rightarrow> entry option" where
  "first_hit [] k s = None"
| "first_hit (es # ess) k s = (case lookup_at es k s of Some e \<Rightarrow> Some e | None \<Rightarrow> first_hit ess k s)"

lemma first_hit_None: "first_hit ess k s = None \<longleftrightarrow> (\<forall>e \<in> set (concat ess). \<not> is_version k s e)"
proof (induction ess)
  case (Cons es ess)
  show ?case
  proof (cases "lookup_at es k s")
    case None
    then have "\<forall>e \<in> set es. \<not> is_version k s e" by (simp add: lookup_at_None_iff)
    then show ?thesis using None Cons.IH by auto
  next
    case (Some e)
    then have "e \<in> set es \<and> is_version k s e" by (rule lookup_at_SomeD)
    then show ?thesis using Some by auto
  qed
qed simp

lemma first_hit_newest:
  "layered ess \<Longrightarrow> first_hit ess k s = Some e \<Longrightarrow> e \<in> set (concat ess) \<and> is_version k s e \<and>
     (\<forall>x \<in> set (concat ess). is_version k s x \<longrightarrow> vkey_of (fst e) \<le> vkey_of (fst x))"
proof (induction ess)
  case (Cons es ess)
  then have es: "entries_sorted es" "\<forall>fs \<in> set ess. newer_layer es fs" and ess: "layered ess"
    by (auto simp: layered_Cons)
  show ?case
  proof (cases "lookup_at es k s")
    case None
    then have "\<forall>x \<in> set es. \<not> is_version k s x" by (simp add: lookup_at_None_iff)
    moreover have "first_hit ess k s = Some e" using None Cons.prems(2) by simp
    ultimately show ?thesis using Cons.IH [OF ess] by auto
  next
    case (Some f)
    then have f: "f = e" using Cons.prems(2) by simp
    then have e: "e \<in> set es" "is_version k s e"
      "\<forall>x \<in> set es. is_version k s x \<longrightarrow> vkey_of (fst e) \<le> vkey_of (fst x)"
      using Some lookup_at_newest [OF es(1), of k s e] by blast+
    have "vkey_of (fst e) < vkey_of (fst x)" if "fs \<in> set ess" "x \<in> set fs" "is_version k s x" for fs x
      using newer_layer_less [of es fs e x] es(2) e that by (simp add: is_version_def)
    with e show ?thesis by fastforce
  qed
qed simp

lemma first_hit_merge:
  assumes "layered ess"
  shows "first_hit ess k s = lookup_at (merge_entries ess) k s"
proof (cases "first_hit ess k s")
  case None
  then have "lookup_at (merge_entries ess) k s = None"
    by (simp only: first_hit_None lookup_at_None_iff set_merge_entries)
  with None show ?thesis by simp
next
  case (Some e)
  have "lookup_at (merge_entries ess) k s = Some e"
    using first_hit_newest [OF assms Some] lookup_at_newest [OF merge_entries_sorted [OF layered_distinct [OF assms]]]
    unfolding set_merge_entries by blast
  with Some show ?thesis by simp
qed

section \<open>Sound views\<close>

definition entries_kinds :: "entry list \<Rightarrow> bool" where
  "entries_kinds es \<longleftrightarrow> list_all (\<lambda>e. \<exists>kd. ikey_kind (fst e) = Ok kd) es"

definition mem_layers :: "('m \<Rightarrow> entry list) \<Rightarrow> 'm read_view \<Rightarrow> entry list list" where
  "mem_layers ents v = map (\<lambda>mt. ents (mt_map mt)) (rv_mem v # rv_imms v)"

definition version_layers :: "codecs \<Rightarrow> version \<Rightarrow> entry list list" where
  "version_layers ex vs = map (run_entries ex) (runs_newest_first vs)"

definition view_layers :: "codecs \<Rightarrow> ('m \<Rightarrow> entry list) \<Rightarrow> 'm read_view \<Rightarrow> entry list list" where
  "view_layers ex ents v = mem_layers ents v @ version_layers ex (rv_version v)"

definition view_entries :: "codecs \<Rightarrow> ('m \<Rightarrow> entry list) \<Rightarrow> 'm read_view \<Rightarrow> entry list" where
  "view_entries ex ents v = merge_entries (view_layers ex ents v)"

definition version_sound :: "codecs \<Rightarrow> (cache_key \<Rightarrow> bytes \<Rightarrow> bool) \<Rightarrow> version \<Rightarrow> bool" where
  "version_sound ex P vs \<longleftrightarrow> list_all (run_sound ex P) (runs_newest_first vs)"

definition view_sound ::
    "codecs \<Rightarrow> 'm skip_ops \<Rightarrow> ('m \<Rightarrow> entry list) \<Rightarrow> (cache_key \<Rightarrow> bytes \<Rightarrow> bool) \<Rightarrow> 'm read_view \<Rightarrow> bool" where
  "view_sound ex sk ents P v \<longleftrightarrow> skip_ok sk ents \<and> version_sound ex P (rv_version v) \<and>
     layered (view_layers ex ents v) \<and> list_all entries_kinds (view_layers ex ents v)"

lemma hit_opt_Some:
  assumes "entries_kinds es" and "lookup_at es u s = Some e"
  obtains kd where "ikey_kind (fst e) = Ok kd" "hit_opt (Some e) = Some (kd, ikey_seqno (fst e), snd e)"
    "opt_hit (Some e) = Ok (Some (kd, ikey_seqno (fst e), snd e))"
proof -
  have "e \<in> set es" using assms(2) lookup_at_SomeD by blast
  then obtain kd where "ikey_kind (fst e) = Ok kd" using assms(1) by (auto simp: entries_kinds_def list_all_iff)
  then show thesis by (intro that [of kd]) (simp_all add: hit_opt_def opt_hit_def hit_of_def)
qed

lemma opt_hit_None [simp]: "opt_hit None = Ok None" "hit_opt None = None"
  by (simp_all add: opt_hit_def hit_opt_def)

lemma get_in_runs_first_hit:
  "list_all (run_sound ex P) rs \<Longrightarrow> list_all entries_kinds (map (run_entries ex) rs) \<Longrightarrow> cache_holds P c \<Longrightarrow> s \<le> max_seqno \<Longrightarrow>
   \<exists>c'. get_in_runs ex rs u s c = (opt_hit (first_hit (map (run_entries ex) rs) u s), c') \<and> cache_holds P c'"
proof (induction rs arbitrary: c)
  case (Cons r rs)
  then have r: "run_sound ex P r" "entries_kinds (run_entries ex r)" by simp_all
  obtain c1 where c1: "run_get ex r u s c = (opt_hit (lookup_at (run_entries ex r) u s), c1)" "cache_holds P c1"
    using run_get_lookup [OF r(1) Cons.prems(3,4)] by blast
  show ?case
  proof (cases "lookup_at (run_entries ex r) u s")
    case None
    then show ?thesis using Cons.IH [of c1] Cons.prems c1 by (simp add: cbind_def)
  next
    case (Some e)
    then obtain kd where "opt_hit (Some e) = Ok (Some (kd, ikey_seqno (fst e), snd e))"
      using hit_opt_Some [OF r(2)] by metis
    then show ?thesis using Some c1 by (simp add: cbind_def cres_def)
  qed
qed (simp add: cres_def)

lemma get_in_imms_first_hit:
  "skip_ok sk ents \<Longrightarrow> s \<le> max_seqno \<Longrightarrow> list_all entries_kinds (map (\<lambda>mt. ents (mt_map mt)) mts) \<Longrightarrow>
   get_in_imms sk mts u s = hit_opt (first_hit (map (\<lambda>mt. ents (mt_map mt)) mts) u s)"
proof (induction mts)
  case (Cons mt mts)
  show ?case
  proof (cases "lookup_at (ents (mt_map mt)) u s")
    case None
    then show ?thesis using Cons memtable_get_eq [OF Cons.prems(1,2), of u mt] by simp
  next
    case (Some e)
    then obtain kd where "hit_opt (Some e) = Some (kd, ikey_seqno (fst e), snd e)"
      using hit_opt_Some [of "ents (mt_map mt)" u s e] Cons.prems(3) by auto
    then show ?thesis using Some memtable_get_eq [OF Cons.prems(1,2), of u mt] by simp
  qed
qed simp

lemma first_hit_append:
  "first_hit (xs @ ys) k s = (case first_hit xs k s of Some e \<Rightarrow> Some e | None \<Rightarrow> first_hit ys k s)"
  by (induction xs) (auto split: option.splits)

lemma first_hit_kind:
  "list_all entries_kinds ess \<Longrightarrow> first_hit ess u s = Some e \<Longrightarrow> \<exists>h. hit_opt (Some e) = Some h \<and> opt_hit (Some e) = Ok (Some h)"
proof (induction ess)
  case (Cons es ess)
  show ?case
  proof (cases "lookup_at es u s")
    case (Some f)
    then have "f = e" "entries_kinds es" using Cons.prems by simp_all
    with Some show ?thesis by (metis hit_opt_Some)
  qed (use Cons in simp)
qed simp

lemma get_versioned_lookup:
  assumes v: "view_sound ex sk ents P v" and c: "cache_holds P c" and s: "s \<le> max_seqno"
  shows "\<exists>c'. get_versioned ex sk v u s c = (opt_hit (lookup_at (view_entries ex ents v) u s), c') \<and> cache_holds P c'"
proof -
  have sk: "skip_ok sk ents" and lay: "layered (view_layers ex ents v)" and kinds: "list_all entries_kinds (view_layers ex ents v)"
    using v by (simp_all add: view_sound_def)
  let ?mts = "rv_mem v # rv_imms v"
  have km: "list_all entries_kinds (map (\<lambda>mt. ents (mt_map mt)) ?mts)" and kv: "list_all entries_kinds (version_layers ex (rv_version v))"
    using kinds by (simp_all add: view_layers_def mem_layers_def)
  have mem: "get_in_imms sk ?mts u s = hit_opt (first_hit (mem_layers ents v) u s)"
    unfolding mem_layers_def by (rule get_in_imms_first_hit [OF sk s km])
  obtain c' where c': "version_get ex (rv_version v) u s c = (opt_hit (first_hit (version_layers ex (rv_version v)) u s), c')"
    "cache_holds P c'"
    using get_in_runs_first_hit [of ex P "runs_newest_first (rv_version v)" c s u] v kv c s
    by (auto simp: view_sound_def version_sound_def version_layers_def version_get_def)
  have get: "get_versioned ex sk v u s c = (case get_in_imms sk ?mts u s of Some h \<Rightarrow> (Ok (Some h), c)
      | None \<Rightarrow> version_get ex (rv_version v) u s c)"
    by (simp add: get_versioned_def cres_def split: option.splits)
  have look: "lookup_at (view_entries ex ents v) u s = (case first_hit (mem_layers ents v) u s of Some e \<Rightarrow> Some e
      | None \<Rightarrow> first_hit (version_layers ex (rv_version v)) u s)"
    using first_hit_merge [OF lay, of u s] first_hit_append [of "mem_layers ents v"]
    by (simp add: view_entries_def view_layers_def)
  show ?thesis
  proof (cases "first_hit (mem_layers ents v) u s")
    case None
    then show ?thesis using get look mem c' by simp
  next
    case (Some e)
    then obtain h where "hit_opt (Some e) = Some h" "opt_hit (Some e) = Ok (Some h)"
      using first_hit_kind km unfolding mem_layers_def by blast
    then show ?thesis using Some get look mem c by simp
  qed
qed

end
