(* ===== verification/MergeIter.thy ===== *)
theory MergeIter
  imports ReadView
begin

text \<open>
  \<open>MergeIterator\<close> of \<open>crates/fluent31/src/iter.rs\<close>: the k-way merge over any cursors, by a linear
  scan for the best child. It meets the contract of cursors again, on the sorted merge of what
  its children hold. (The \<open>debug_assert\<close>s on the direction are absent from release builds.)
\<close>

section \<open>The iterator\<close>

record 's merge_iter =
  mg_children :: "'s list"
  mg_cur :: "nat option"
  mg_reverse :: bool

definition merge_new :: "'s list \<Rightarrow> bool \<Rightarrow> 's merge_iter" where
  "merge_new children reverse = \<lparr>mg_children = children, mg_cur = None, mg_reverse = reverse\<rparr>"

fun pick_loop :: "'s iter_ops \<Rightarrow> bool \<Rightarrow> 's list \<Rightarrow> nat \<Rightarrow> nat option \<Rightarrow> 's list \<Rightarrow> nat option" where
  "pick_loop ops reverse children i best [] = best"
| "pick_loop ops reverse children i best (c # cs) =
     (if \<not> it_valid ops c then pick_loop ops reverse children (i + 1) best cs
      else
        let best = (case best of
              None \<Rightarrow> Some i
            | Some b \<Rightarrow>
                let ord = cmp_ikey (it_ikey ops c) (it_ikey ops (children ! b));
                    better = (if reverse then ord = Greater else ord = Less)
                in if better then Some i else Some b)
        in pick_loop ops reverse children (i + 1) best cs)"

definition merge_pick :: "'s iter_ops \<Rightarrow> 's merge_iter \<Rightarrow> 's merge_iter" where
  "merge_pick ops m = m\<lparr>mg_cur := pick_loop ops (mg_reverse m) (mg_children m) 0 None (mg_children m)\<rparr>"

fun each_child :: "('s \<Rightarrow> 's res) \<Rightarrow> 's list \<Rightarrow> 's list res" where
  "each_child f [] = Ok []"
| "each_child f (c # cs) = rbind (f c) (\<lambda>c. rbind (each_child f cs) (\<lambda>cs. Ok (c # cs)))"

definition merge_all :: "'s iter_ops \<Rightarrow> ('s \<Rightarrow> 's res) \<Rightarrow> 's merge_iter \<Rightarrow> 's merge_iter res" where
  "merge_all ops f m = rbind (each_child f (mg_children m)) (\<lambda>cs. Ok (merge_pick ops (m\<lparr>mg_children := cs\<rparr>)))"

definition merge_advance :: "'s iter_ops \<Rightarrow> ('s \<Rightarrow> 's res) \<Rightarrow> 's merge_iter \<Rightarrow> 's merge_iter res" where
  "merge_advance ops step m =
     (case mg_cur m of
        None \<Rightarrow> Err (Panic ''valid'')
      | Some i \<Rightarrow> rbind (step (mg_children m ! i)) (\<lambda>c.
          Ok (merge_pick ops (m\<lparr>mg_children := (mg_children m)[i := c]\<rparr>))))"

definition merge_seek_to_first :: "'s iter_ops \<Rightarrow> 's merge_iter \<Rightarrow> 's merge_iter res" where
  "merge_seek_to_first ops = merge_all ops (it_seek_to_first ops)"

definition merge_seek_to_last :: "'s iter_ops \<Rightarrow> 's merge_iter \<Rightarrow> 's merge_iter res" where
  "merge_seek_to_last ops = merge_all ops (it_seek_to_last ops)"

definition merge_seek :: "'s iter_ops \<Rightarrow> bytes \<Rightarrow> 's merge_iter \<Rightarrow> 's merge_iter res" where
  "merge_seek ops ikey = merge_all ops (it_seek ops ikey)"

definition merge_seek_for_prev :: "'s iter_ops \<Rightarrow> bytes \<Rightarrow> 's merge_iter \<Rightarrow> 's merge_iter res" where
  "merge_seek_for_prev ops ikey = merge_all ops (it_seek_for_prev ops ikey)"

definition merge_valid :: "'s merge_iter \<Rightarrow> bool" where "merge_valid m \<longleftrightarrow> mg_cur m \<noteq> None"

definition merge_next :: "'s iter_ops \<Rightarrow> 's merge_iter \<Rightarrow> 's merge_iter res" where
  "merge_next ops = merge_advance ops (it_next ops)"

definition merge_prev :: "'s iter_ops \<Rightarrow> 's merge_iter \<Rightarrow> 's merge_iter res" where
  "merge_prev ops = merge_advance ops (it_prev ops)"

definition merge_ikey :: "'s iter_ops \<Rightarrow> 's merge_iter \<Rightarrow> bytes" where
  "merge_ikey ops m = it_ikey ops (mg_children m ! the (mg_cur m))"

definition merge_value :: "'s iter_ops \<Rightarrow> 's merge_iter \<Rightarrow> bytes" where
  "merge_value ops m = it_value ops (mg_children m ! the (mg_cur m))"

definition merge_iter_ops :: "'s iter_ops \<Rightarrow> 's merge_iter iter_ops" where
  "merge_iter_ops ops = \<lparr>it_seek_to_first = merge_seek_to_first ops, it_seek_to_last = merge_seek_to_last ops,
     it_seek = merge_seek ops, it_seek_for_prev = merge_seek_for_prev ops, it_valid = merge_valid,
     it_next = merge_next ops, it_prev = merge_prev ops, it_ikey = merge_ikey ops, it_value = merge_value ops\<rparr>"

section \<open>Lists in the direction of an iterator\<close>

definition dir_before :: "bool \<Rightarrow> entry \<Rightarrow> entry \<Rightarrow> bool" where
  "dir_before r a b \<longleftrightarrow> (if r then vkey_of (fst b) < vkey_of (fst a) else vkey_of (fst a) < vkey_of (fst b))"

definition dir_sorted :: "bool \<Rightarrow> entry list \<Rightarrow> bool" where
  "dir_sorted r es \<longleftrightarrow> sorted_wrt (dir_before r) es"

definition dir_merge :: "bool \<Rightarrow> entry list list \<Rightarrow> entry list" where
  "dir_merge r ess = (if r then rev (merge_entries ess) else merge_entries ess)"

lemma dir_sorted_entries: "dir_sorted r es \<longleftrightarrow> entries_sorted (if r then rev es else es)"
  by (simp add: dir_sorted_def dir_before_def [abs_def] entries_sorted_def sorted_wrt_rev)

lemma dir_sorted_simps [simp]:
  "dir_sorted r []" "dir_sorted r (e # es) \<longleftrightarrow> (\<forall>x \<in> set es. dir_before r e x) \<and> dir_sorted r es"
  by (simp_all add: dir_sorted_def)

lemma dir_sorted_unique: "dir_sorted r xs \<Longrightarrow> dir_sorted r ys \<Longrightarrow> set xs = set ys \<Longrightarrow> xs = ys"
  using entries_sorted_unique [of xs ys] entries_sorted_unique [of "rev xs" "rev ys"]
  by (cases r) (auto simp: dir_sorted_entries)

lemma dir_merge_sorted: "keys_distinct ess \<Longrightarrow> dir_sorted r (dir_merge r ess)"
  by (simp add: dir_sorted_entries dir_merge_def merge_entries_sorted)

lemma set_dir_merge [simp]: "set (dir_merge r ess) = set (concat ess)"
  by (simp add: dir_merge_def)

lemma dir_total: "vkey_of (fst a) \<noteq> vkey_of (fst b) \<Longrightarrow> dir_before r a b \<or> dir_before r b a"
  by (auto simp: dir_before_def)

lemma dir_before_trans: "dir_before r a b \<Longrightarrow> dir_before r b c \<Longrightarrow> dir_before r a c"
  by (auto simp: dir_before_def split: if_splits)

lemma keys_distinct_tl:
  assumes "keys_distinct (xs @ (e # es) # ys)"
  shows "keys_distinct (xs @ es # ys)"
  using assms by (auto simp: keys_distinct_def)

lemma keys_distinct_inj:
  assumes "keys_distinct ess" and "x \<in> set (concat ess)" and "y \<in> set (concat ess)" and "vkey_of (fst x) = vkey_of (fst y)"
  shows "x = y"
  using assms unfolding keys_distinct_def distinct_map by (meson inj_onD)

text \<open>The best head of the parts is the head of their merge.\<close>

lemma dir_merge_Cons:
  assumes d: "keys_distinct (xs @ (e # es) # ys)" and s: "dir_sorted r (e # es)"
    and best: "\<And>fs f. fs \<in> set xs \<union> set ys \<Longrightarrow> f \<in> set fs \<Longrightarrow> dir_before r e f"
  shows "dir_merge r (xs @ (e # es) # ys) = e # dir_merge r (xs @ es # ys)"
proof (rule dir_sorted_unique)
  show "dir_sorted r (dir_merge r (xs @ (e # es) # ys))" by (rule dir_merge_sorted [OF d])
  show "dir_sorted r (e # dir_merge r (xs @ es # ys))"
    using dir_merge_sorted [OF keys_distinct_tl [OF d]] s best by auto
qed auto

abbreviation entry_keys :: "entry list \<Rightarrow> vkey set" where
  "entry_keys es \<equiv> (\<lambda>e. vkey_of (fst e)) ` set es"

lemma keys_distinct_iff:
  "keys_distinct ess \<longleftrightarrow> list_all (\<lambda>es. distinct (map (\<lambda>e. vkey_of (fst e)) es)) ess \<and>
     sorted_wrt (\<lambda>xs ys. entry_keys xs \<inter> entry_keys ys = {}) ess"
proof (induction ess)
  case (Cons es ess)
  have "entry_keys es \<inter> entry_keys (concat ess) = {} \<longleftrightarrow> (\<forall>ys \<in> set ess. entry_keys es \<inter> entry_keys ys = {})"
    by (auto simp: disjoint_iff)
  then show ?case using Cons by (auto simp: keys_distinct_def)
qed (simp add: keys_distinct_def)

lemma dir_sorted_distinct: "dir_sorted r es \<Longrightarrow> distinct (map (\<lambda>e. vkey_of (fst e)) es)"
  by (induction es) (fastforce simp: dir_before_def split: if_splits)+

lemma keys_distinct_map:
  assumes "keys_distinct (map f cs)" and "\<And>c. c \<in> set cs \<Longrightarrow> set (g c) \<subseteq> set (f c) \<and> dir_sorted r (g c)"
  shows "keys_distinct (map g cs)"
proof -
  have "sorted_wrt (\<lambda>a b. entry_keys (f a) \<inter> entry_keys (f b) = {}) cs"
    using assms(1) by (simp add: keys_distinct_iff sorted_wrt_map)
  then have "sorted_wrt (\<lambda>a b. entry_keys (g a) \<inter> entry_keys (g b) = {}) cs"
    by (rule sorted_wrt_mono_rel [rotated]) (use assms(2) in blast)
  then show ?thesis using assms(2) dir_sorted_distinct
    by (auto simp: keys_distinct_iff sorted_wrt_map list_all_iff)
qed

section \<open>The merge meets the contract\<close>

context entry_cursor
begin

definition merge_ok :: "bool \<Rightarrow> 's merge_iter \<Rightarrow> bool" where
  "merge_ok r m \<longleftrightarrow> mg_reverse m = r \<and> list_all good (mg_children m) \<and>
     keys_distinct (map contents (mg_children m)) \<and> keys_distinct (map pend (mg_children m)) \<and>
     list_all (\<lambda>c. dir_sorted r (pend c)) (mg_children m) \<and> merge_pick ops m = m"

definition merge_contents :: "'s merge_iter \<Rightarrow> entry list" where
  "merge_contents m = merge_entries (map contents (mg_children m))"

definition merge_pend :: "bool \<Rightarrow> 's merge_iter \<Rightarrow> entry list" where
  "merge_pend r m = dir_merge r (map pend (mg_children m))"

text \<open>The best index among the first \<open>k\<close> children.\<close>

definition best_upto :: "bool \<Rightarrow> 's list \<Rightarrow> nat \<Rightarrow> nat option \<Rightarrow> bool" where
  "best_upto r cs k best \<longleftrightarrow> (case best of
      None \<Rightarrow> \<forall>j < k. pend (cs ! j) = []
    | Some b \<Rightarrow> b < k \<and> pend (cs ! b) \<noteq> [] \<and>
        (\<forall>j < k. j \<noteq> b \<and> pend (cs ! j) \<noteq> [] \<longrightarrow> dir_before r (hd (pend (cs ! b))) (hd (pend (cs ! j)))))"

lemma heads_differ:
  assumes "keys_distinct (map pend cs)" and "i < j" and "j < length cs" and "pend (cs ! i) \<noteq> []" and "pend (cs ! j) \<noteq> []"
  shows "vkey_of (fst (hd (pend (cs ! i)))) \<noteq> vkey_of (fst (hd (pend (cs ! j))))"
proof -
  have "sorted_wrt (\<lambda>a b. entry_keys (pend a) \<inter> entry_keys (pend b) = {}) cs"
    using assms(1) by (simp add: keys_distinct_iff sorted_wrt_map)
  then have "entry_keys (pend (cs ! i)) \<inter> entry_keys (pend (cs ! j)) = {}"
    using assms(2,3) by (simp add: sorted_wrt_iff_nth_less)
  moreover have "vkey_of (fst (hd (pend (cs ! i)))) \<in> entry_keys (pend (cs ! i))"
    "vkey_of (fst (hd (pend (cs ! j)))) \<in> entry_keys (pend (cs ! j))"
    using assms(4,5) by simp_all
  ultimately show ?thesis by (metis disjoint_iff)
qed

lemma ikey_hd: "good c \<Longrightarrow> pend c \<noteq> [] \<Longrightarrow> it_ikey ops c = fst (hd (pend c)) \<and> it_value ops c = snd (hd (pend c))"
  using key_value [of c "hd (pend c)" "tl (pend c)"] by auto (metis fst_conv, metis snd_conv)

lemma pick_loop_best:
  assumes kd: "keys_distinct (map pend cs)" and g: "list_all good cs"
  shows "drop k cs = rest \<Longrightarrow> k \<le> length cs \<Longrightarrow> best_upto r cs k best \<Longrightarrow>
    best_upto r cs (length cs) (pick_loop ops r cs k best rest)"
proof (induction rest arbitrary: k best)
  case (Cons c rest)
  then have k: "k < length cs" "cs ! k = c" "drop (Suc k) cs = rest"
    by (metis drop_eq_Nil leI list.distinct(1)) (metis Cons.prems(1) hd_drop_conv_nth list.sel(1) drop_eq_Nil leI list.distinct(1),
      metis Cons.prems(1) drop_Suc drop_tl list.sel(3))
  then have c: "good c" using g by (auto simp: list_all_iff)
  show ?case
  proof (cases "pend c = []")
    case True
    then have "best_upto r cs (Suc k) best"
      using Cons.prems(3) k by (auto simp: best_upto_def less_Suc_eq split: option.splits)
    then show ?thesis using Cons.IH [of "Suc k" best] k valid [OF c] True by simp
  next
    case ne: False
    let ?best = "case best of None \<Rightarrow> Some k
      | Some b \<Rightarrow> let ord = cmp_ikey (it_ikey ops c) (it_ikey ops (cs ! b)); better = (if r then ord = Greater else ord = Less)
          in if better then Some k else Some b"
    have "best_upto r cs (Suc k) ?best"
    proof (cases best)
      case None
      then show ?thesis using Cons.prems(3) ne k by (auto simp: best_upto_def less_Suc_eq)
    next
      case (Some b)
      then have b: "b < k" "pend (cs ! b) \<noteq> []" using Cons.prems(3) by (simp_all add: best_upto_def)
      then have gb: "good (cs ! b)" using g k(1) by (simp add: list_all_length)
      have better: "(if r then cmp_ikey (it_ikey ops c) (it_ikey ops (cs ! b)) = Greater
          else cmp_ikey (it_ikey ops c) (it_ikey ops (cs ! b)) = Less) \<longleftrightarrow> dir_before r (hd (pend c)) (hd (pend (cs ! b)))"
        using ikey_hd [OF c ne] ikey_hd [OF gb b(2)] by (simp add: dir_before_def)
      have "dir_before r (hd (pend c)) (hd (pend (cs ! b))) \<or> dir_before r (hd (pend (cs ! b))) (hd (pend c))"
        using heads_differ [OF kd b(1) k(1) b(2)] ne k(2) by (intro dir_total) auto
      then show ?thesis using Some Cons.prems(3) ne k b better
        by (auto simp: best_upto_def less_Suc_eq Let_def intro: dir_before_trans)
    qed
    then show ?thesis using Cons.IH [of "Suc k" ?best] k valid [OF c] ne by simp
  qed
qed simp

lemma merge_pick_fields [simp]:
  "mg_children (merge_pick ops m) = mg_children m" "mg_reverse (merge_pick ops m) = mg_reverse m"
  "merge_pick ops (merge_pick ops m) = merge_pick ops m"
  by (simp_all add: merge_pick_def)

lemma merge_best:
  assumes "merge_ok r m"
  shows "best_upto r (mg_children m) (length (mg_children m)) (mg_cur m)"
proof -
  have "best_upto r (mg_children m) (length (mg_children m)) (pick_loop ops r (mg_children m) 0 None (mg_children m))"
    using assms by (intro pick_loop_best) (auto simp: merge_ok_def best_upto_def)
  moreover have "mg_cur (merge_pick ops m) = pick_loop ops r (mg_children m) 0 None (mg_children m)"
    using assms by (simp add: merge_pick_def merge_ok_def)
  moreover have "merge_pick ops m = m" using assms by (simp add: merge_ok_def)
  ultimately show ?thesis by simp
qed

lemma merge_valid_iff:
  assumes m: "merge_ok r m"
  shows "merge_valid m \<longleftrightarrow> merge_pend r m \<noteq> []"
proof -
  have "set (merge_pend r m) = set (concat (map pend (mg_children m)))" by (simp add: merge_pend_def)
  moreover have "merge_valid m \<longleftrightarrow> (\<exists>c \<in> set (mg_children m). pend c \<noteq> [])"
  proof (cases "mg_cur m")
    case None
    then show ?thesis using merge_best [OF m] by (auto simp: merge_valid_def best_upto_def in_set_conv_nth)
  next
    case (Some b)
    then have "mg_children m ! b \<in> set (mg_children m)" "pend (mg_children m ! b) \<noteq> []"
      using merge_best [OF m] by (simp_all add: best_upto_def)
    then show ?thesis using Some by (auto simp: merge_valid_def)
  qed
  ultimately show ?thesis by (cases "merge_pend r m") force+
qed

text \<open>The current child carries the head of the merge, and what is left is the merge of the rest.\<close>

lemma merge_current:
  assumes m: "merge_ok r m" and p: "merge_pend r m = e # es"
  obtains i c rest where "mg_cur m = Some i" "i < length (mg_children m)" "mg_children m ! i = c" "good c" "pend c = e # rest"
    "\<forall>c'. pend c' = rest \<longrightarrow> es = dir_merge r (map pend ((mg_children m)[i := c']))"
    "keys_distinct ((map pend (mg_children m))[i := rest])" "dir_sorted r rest"
proof -
  let ?cs = "mg_children m"
  have "merge_valid m" using merge_valid_iff [OF m] p by simp
  then obtain i where i: "mg_cur m = Some i" by (auto simp: merge_valid_def)
  note best = merge_best [OF m, unfolded i best_upto_def option.case]
  then obtain h rest where hr: "pend (?cs ! i) = h # rest" by (cases "pend (?cs ! i)") auto
  have il: "i < length ?cs" using best by simp
  have g: "good (?cs ! i)" and ds: "dir_sorted r (h # rest)" and kd: "keys_distinct (map pend ?cs)"
    using m il hr by (auto simp: merge_ok_def list_all_length)
  let ?xs = "take i (map pend ?cs)" and ?ys = "drop (Suc i) (map pend ?cs)"
  have split: "map pend ?cs = ?xs @ (h # rest) # ?ys" using il hr by (metis id_take_nth_drop length_map nth_map)
  have b: "dir_before r h f" if fs: "fs \<in> set ?xs \<union> set ?ys" and f: "f \<in> set fs" for fs f
  proof -
    have "\<exists>j < length ?cs. j \<noteq> i \<and> fs = pend (?cs ! j)"
      using fs il by (auto simp: in_set_conv_nth) (metis less_trans nat_neq_iff, metis add.commute less_add_Suc1 less_diff_conv nat_neq_iff add_Suc_right)
    then obtain j where j: "j < length ?cs" "j \<noteq> i" "fs = pend (?cs ! j)" by blast
    moreover from f have "fs \<noteq> []" by auto
    ultimately have hd: "dir_before r h (hd fs)" using best hr by auto
    have "dir_sorted r fs" using m j by (auto simp: merge_ok_def list_all_length)
    then show ?thesis using hd f by (cases fs) (auto intro: dir_before_trans)
  qed
  have kd': "keys_distinct (?xs @ (h # rest) # ?ys)" using kd by (simp only: split [symmetric])
  have "dir_merge r (?xs @ (h # rest) # ?ys) = h # dir_merge r (?xs @ rest # ?ys)"
    by (rule dir_merge_Cons [OF kd' ds b])
  then have eq: "dir_merge r (map pend ?cs) = h # dir_merge r (?xs @ rest # ?ys)"
    by (simp only: split [symmetric])
  have upd: "(map pend ?cs)[i := rest] = ?xs @ rest # ?ys" using il by (simp add: upd_conv_take_nth_drop)
  show thesis
  proof (rule that [OF i il refl g])
    show "pend (?cs ! i) = e # rest" using hr eq p by (simp add: merge_pend_def)
    show "\<forall>c'. pend c' = rest \<longrightarrow> es = dir_merge r (map pend (?cs[i := c']))"
      using eq p upd by (simp add: merge_pend_def map_update)
    show "keys_distinct ((map pend ?cs)[i := rest])"
      unfolding upd by (rule keys_distinct_tl [OF kd'])
    show "dir_sorted r rest" using ds by simp
  qed
qed

lemma merge_step:
  assumes m: "merge_ok r m" and p: "merge_pend r m = e # es"
  shows "moves (merge_ok r) merge_contents (merge_pend r) (merge_advance ops step m) (merge_contents m) es"
proof -
  let ?cs = "mg_children m"
  obtain i c rest where i: "mg_cur m = Some i" "i < length ?cs" "?cs ! i = c" "good c" "pend c = e # rest"
    "\<forall>c'. pend c' = rest \<longrightarrow> es = dir_merge r (map pend (?cs[i := c']))"
    "keys_distinct ((map pend ?cs)[i := rest])" "dir_sorted r rest"
    by (rule merge_current [OF m p])
  obtain c' where c': "step c = Inr c'" "good c'" "contents c' = contents c" "pend c' = rest"
    using step [OF i(4,5)] by (rule movesE)
  have cont: "map contents (?cs[i := c']) = map contents ?cs" using i(2,3) c'(3) by (metis list_update_id map_update)
  have upd: "list_all Q (?cs[i := c'])" if "list_all Q ?cs" "Q c'" for Q
    using that i(2) by (simp add: list_all_length nth_list_update)
  let ?m = "merge_pick ops (m\<lparr>mg_children := ?cs[i := c']\<rparr>)"
  have "merge_ok r ?m"
    using m i(7,8) c' upd cont by (simp add: merge_ok_def map_update)
  moreover have "merge_contents ?m = merge_contents m" using cont by (simp add: merge_contents_def)
  moreover have "merge_pend r ?m = es" using i(6) c'(4) by (simp add: merge_pend_def)
  ultimately show ?thesis using i(1,3) c'(1) by (simp add: merge_advance_def)
qed

lemma merge_key_value:
  assumes m: "merge_ok r m" and p: "merge_pend r m = e # es"
  shows "(merge_ikey ops m, merge_value ops m) = e"
  by (rule merge_current [OF m p]) (use key_value in \<open>simp add: merge_ikey_def merge_value_def\<close>)

lemma merge_sorted: "merge_ok r m \<Longrightarrow> entries_sorted (merge_contents m)"
  by (simp add: merge_ok_def merge_contents_def merge_entries_sorted)

text \<open>An operation on every child that positions each of them.\<close>

lemma each_child_moves:
  assumes "list_all good cs" and "\<And>c. good c \<Longrightarrow> moves good contents pend (f c) (contents c) (q (contents c))"
  shows "\<exists>cs'. each_child f cs = Ok cs' \<and> list_all good cs' \<and> map contents cs' = map contents cs
    \<and> map pend cs' = map q (map contents cs)"
  using assms(1)
proof (induction cs)
  case (Cons c cs)
  then show ?case using assms(2) [of c] by (auto elim!: movesE)
qed simp

lemma merge_all_moves:
  assumes m: "merge_ok r m" and f: "\<And>c. good c \<Longrightarrow> moves good contents pend (f c) (contents c) (q (contents c))"
    and q: "\<And>es. entries_sorted es \<Longrightarrow> set (q es) \<subseteq> set es \<and> dir_sorted r (q es)"
  shows "moves (merge_ok r) merge_contents (merge_pend r) (merge_all ops f m) (merge_contents m)
    (dir_merge r (map q (map contents (mg_children m))))"
proof -
  let ?cs = "mg_children m"
  have g: "list_all good ?cs" and kd: "keys_distinct (map contents ?cs)" using m by (simp_all add: merge_ok_def)
  obtain cs' where cs': "each_child f ?cs = Ok cs'" "list_all good cs'" "map contents cs' = map contents ?cs"
    "map pend cs' = map q (map contents ?cs)"
    using each_child_moves [where f = f and q = q, OF g f] by blast
  have qs: "set (pend c) \<subseteq> set (contents c) \<and> dir_sorted r (pend c)" if "c \<in> set cs'" for c
  proof -
    have "map pend cs' = map q (map contents cs')" using cs'(3,4) by simp
    then have "pend c = q (contents c)" using that by simp
    moreover have "good c" using cs'(2) that by (simp add: list_all_iff)
    ultimately show ?thesis using q sorted by simp
  qed
  let ?m = "merge_pick ops (m\<lparr>mg_children := cs'\<rparr>)"
  have "keys_distinct (map pend cs')" by (rule keys_distinct_map [of contents]) (use kd cs'(3) qs in auto)
  then have "merge_ok r ?m" using m cs' kd qs by (auto simp: merge_ok_def list_all_iff)
  then show ?thesis using cs' by (simp add: merge_all_def merge_contents_def merge_pend_def)
qed

end

lemma from_key_sorted: "entries_sorted es \<Longrightarrow> set (from_key ik es) \<subseteq> set es \<and> entries_sorted (from_key ik es)"
  by (auto simp: from_key_filter entries_sorted_sublist)

lemma upto_key_sorted: "entries_sorted es \<Longrightarrow> set (upto_key ik es) \<subseteq> set es \<and> entries_sorted (rev (upto_key ik es))"
  by (auto simp: upto_key_filter entries_sorted_sublist)

lemma merge_from_key:
  assumes "keys_distinct ess" and "list_all entries_sorted ess"
  shows "merge_entries (map (from_key ik) ess) = from_key ik (merge_entries ess)"
proof (rule merge_entries_eq)
  have s: "entries_sorted (merge_entries ess)" by (rule merge_entries_sorted [OF assms(1)])
  show "entries_sorted (from_key ik (merge_entries ess))" using from_key_sorted [OF s] by blast
  show "keys_distinct (map (from_key ik) ess)"
    by (rule keys_distinct_map [where f = "\<lambda>es. es" and r = False])
      (use assms from_key_sorted in \<open>auto simp: list_all_iff dir_sorted_entries\<close>)
  show "set (from_key ik (merge_entries ess)) = set (concat (map (from_key ik) ess))"
    using assms(2) s by (auto simp: from_key_filter list_all_iff)
qed

lemma merge_upto_key:
  assumes "keys_distinct ess" and "list_all entries_sorted ess"
  shows "rev (merge_entries (map (upto_key ik) ess)) = upto_key ik (merge_entries ess)"
proof -
  have s: "entries_sorted (merge_entries ess)" by (rule merge_entries_sorted [OF assms(1)])
  have "merge_entries (map (upto_key ik) ess) = rev (upto_key ik (merge_entries ess))"
  proof (rule merge_entries_eq)
    show "entries_sorted (rev (upto_key ik (merge_entries ess)))" using upto_key_sorted [OF s] by blast
    show "keys_distinct (map (upto_key ik) ess)"
      by (rule keys_distinct_map [where f = "\<lambda>es. es" and r = True])
        (use assms upto_key_sorted in \<open>auto simp: list_all_iff dir_sorted_entries\<close>)
    show "set (rev (upto_key ik (merge_entries ess))) = set (concat (map (upto_key ik) ess))"
      using assms(2) s by (auto simp: upto_key_filter list_all_iff)
  qed
  then show ?thesis by simp
qed

context forward_iterator
begin

lemma merge_forward:
  "forward_iterator (merge_iter_ops ops) (merge_ok False) merge_contents (merge_pend False)"
proof
  fix m e es ik
  assume m: "merge_ok False m"
  have ess: "keys_distinct (map contents (mg_children m))" "list_all entries_sorted (map contents (mg_children m))"
    using m sorted by (auto simp: merge_ok_def list_all_iff)
  show "entries_sorted (merge_contents m)" by (rule merge_sorted [OF m])
  show "it_valid (merge_iter_ops ops) m = (merge_pend False m \<noteq> [])"
    using merge_valid_iff [OF m] by (simp add: merge_iter_ops_def)
  show "moves (merge_ok False) merge_contents (merge_pend False) (it_seek_to_first (merge_iter_ops ops) m)
      (merge_contents m) (merge_contents m)"
    using merge_all_moves [OF m, of "it_seek_to_first ops" "\<lambda>es. es"] seek_to_first
    by (simp add: merge_iter_ops_def merge_seek_to_first_def dir_sorted_entries dir_merge_def)
      (simp add: merge_contents_def)
  show "moves (merge_ok False) merge_contents (merge_pend False) (it_seek (merge_iter_ops ops) ik m)
      (merge_contents m) (from_key ik (merge_contents m))"
    using merge_all_moves [OF m, of "it_seek ops ik" "from_key ik"] seek [of _ ik] from_key_sorted merge_from_key [OF ess, of ik]
    by (simp add: merge_iter_ops_def merge_seek_def dir_sorted_entries dir_merge_def)
      (simp add: merge_contents_def)
  assume p: "merge_pend False m = e # es"
  show "(it_ikey (merge_iter_ops ops) m, it_value (merge_iter_ops ops) m) = e"
    using merge_key_value [OF m p] by (simp add: merge_iter_ops_def)
  show "moves (merge_ok False) merge_contents (merge_pend False) (it_next (merge_iter_ops ops) m) (merge_contents m) es"
    using merge_step [OF m p] by (simp add: merge_iter_ops_def merge_next_def)
qed

end

context reverse_iterator
begin

lemma merge_reverse:
  "reverse_iterator (merge_iter_ops ops) (merge_ok True) merge_contents (merge_pend True)"
proof
  fix m e es ik
  assume m: "merge_ok True m"
  have ess: "keys_distinct (map contents (mg_children m))" "list_all entries_sorted (map contents (mg_children m))"
    using m sorted by (auto simp: merge_ok_def list_all_iff)
  show "entries_sorted (merge_contents m)" by (rule merge_sorted [OF m])
  show "it_valid (merge_iter_ops ops) m = (merge_pend True m \<noteq> [])"
    using merge_valid_iff [OF m] by (simp add: merge_iter_ops_def)
  have "keys_distinct (map (\<lambda>c. rev (contents c)) (mg_children m))"
    by (rule keys_distinct_map [OF ess(1), where r = True])
      (use m sorted in \<open>auto simp: merge_ok_def list_all_iff dir_sorted_entries\<close>)
  then have "merge_entries (map (\<lambda>c. rev (contents c)) (mg_children m)) = merge_contents m"
    by (rule merge_entries_eq [OF merge_sorted [OF m]]) (simp add: merge_contents_def)
  then have "merge_entries (map rev (map contents (mg_children m))) = merge_contents m" by (simp add: comp_def)
  then show "moves (merge_ok True) merge_contents (merge_pend True) (it_seek_to_last (merge_iter_ops ops) m)
      (merge_contents m) (rev (merge_contents m))"
    using merge_all_moves [OF m, of "it_seek_to_last ops" rev] seek_to_last
    by (simp add: merge_iter_ops_def merge_seek_to_last_def dir_sorted_entries dir_merge_def)
  show "moves (merge_ok True) merge_contents (merge_pend True) (it_seek_for_prev (merge_iter_ops ops) ik m)
      (merge_contents m) (upto_key ik (merge_contents m))"
    using merge_all_moves [OF m, of "it_seek_for_prev ops ik" "upto_key ik"] seek_for_prev [of _ ik] upto_key_sorted
      merge_upto_key [OF ess, of ik]
    by (simp add: merge_iter_ops_def merge_seek_for_prev_def dir_sorted_entries dir_merge_def)
      (simp add: merge_contents_def)
  assume p: "merge_pend True m = e # es"
  show "(it_ikey (merge_iter_ops ops) m, it_value (merge_iter_ops ops) m) = e"
    using merge_key_value [OF m p] by (simp add: merge_iter_ops_def)
  show "moves (merge_ok True) merge_contents (merge_pend True) (it_prev (merge_iter_ops ops) m) (merge_contents m) es"
    using merge_step [OF m p] by (simp add: merge_iter_ops_def merge_prev_def)
qed

end

end
