(* ===== verification/Mvcc.thy ===== *)
theory Mvcc
  imports MergeIter
begin

text \<open>
  \<open>MvccForward\<close> and \<open>MvccReverse\<close> of \<open>crates/fluent31/src/iter.rs\<close>: the newest visible \<open>Put\<close> of each
  user key in a range at a snapshot, over any cursor \<open>ops\<close> (in the code, the merge). The loops
  run until the cursor ends, so they are partial functions: not returning is \<open>None\<close>.
\<close>

section \<open>The forward stream\<close>

record 's mvcc_forward =
  mf_it :: 's
  mf_snap :: seqno
  mf_hi :: "bytes option"
  mf_last_ukey :: "bytes option"
  mf_done :: bool

definition mvcc_forward_new :: "'s iter_ops \<Rightarrow> 's \<Rightarrow> seqno \<Rightarrow> bytes \<Rightarrow> bytes option \<Rightarrow> 's mvcc_forward res" where
  "mvcc_forward_new ops it snap lo hi =
     rbind (it_seek ops (make_seek_ikey lo max_seqno) it) (\<lambda>it.
       Ok \<lparr>mf_it = it, mf_snap = snap, mf_hi = hi, mf_last_ukey = None, mf_done = False\<rparr>)"

definition at_or_past :: "bytes option \<Rightarrow> bytes \<Rightarrow> bool" where
  "at_or_past hi uk = (case hi of None \<Rightarrow> False | Some h \<Rightarrow> h \<le> uk)"

partial_function (option) mf_loop ::
    "'s iter_ops \<Rightarrow> 's mvcc_forward \<Rightarrow> ((bytes \<times> bytes) option \<times> 's mvcc_forward) res option" where
  "mf_loop ops s =
     (if \<not> it_valid ops (mf_it s) then Some (Ok (None, s\<lparr>mf_done := True\<rparr>))
      else if at_or_past (mf_hi s) (ikey_ukey (it_ikey ops (mf_it s))) then Some (Ok (None, s\<lparr>mf_done := True\<rparr>))
      else if mf_last_ukey s = Some (ikey_ukey (it_ikey ops (mf_it s)))
      then (case it_next ops (mf_it s) of Inl e \<Rightarrow> Some (Err e) | Inr it \<Rightarrow> mf_loop ops (s\<lparr>mf_it := it\<rparr>))
      else if mf_snap s < ikey_seqno (it_ikey ops (mf_it s))
      then (case it_next ops (mf_it s) of Inl e \<Rightarrow> Some (Err e) | Inr it \<Rightarrow> mf_loop ops (s\<lparr>mf_it := it\<rparr>))
      else (case ikey_kind (it_ikey ops (mf_it s)) of
              Inl e \<Rightarrow> Some (Err e)
            | Inr kind \<Rightarrow>
                if kind = Delete
                then (case it_next ops (mf_it s) of
                        Inl e \<Rightarrow> Some (Err e)
                      | Inr it \<Rightarrow> mf_loop ops (s\<lparr>mf_it := it,
                          mf_last_ukey := Some (ikey_ukey (it_ikey ops (mf_it s)))\<rparr>))
                else (case it_next ops (mf_it s) of
                        Inl e \<Rightarrow> Some (Err e)
                      | Inr it \<Rightarrow> Some (Ok (Some (ikey_ukey (it_ikey ops (mf_it s)), it_value ops (mf_it s)),
                          s\<lparr>mf_it := it, mf_last_ukey := Some (ikey_ukey (it_ikey ops (mf_it s)))\<rparr>)))))"

definition mf_next_visible ::
    "'s iter_ops \<Rightarrow> 's mvcc_forward \<Rightarrow> ((bytes \<times> bytes) option \<times> 's mvcc_forward) res option" where
  "mf_next_visible ops s = (if mf_done s then Some (Ok (None, s)) else mf_loop ops s)"

section \<open>The reverse stream\<close>

record 's mvcc_reverse =
  mr_it :: 's
  mr_snap :: seqno
  mr_lo :: bytes
  mr_group :: "bytes option"
  mr_cand :: "bytes option option"
  mr_done :: bool

definition mvcc_reverse_new :: "'s iter_ops \<Rightarrow> 's \<Rightarrow> seqno \<Rightarrow> bytes \<Rightarrow> bytes option \<Rightarrow> 's mvcc_reverse res" where
  "mvcc_reverse_new ops it snap lo hi =
     rbind (case hi of
              Some hi \<Rightarrow> it_seek_for_prev ops (make_seek_ikey hi max_seqno) it
            | None \<Rightarrow> it_seek_to_last ops it) (\<lambda>it.
       Ok \<lparr>mr_it = it, mr_snap = snap, mr_lo = lo, mr_group = None, mr_cand = None, mr_done = False\<rparr>)"

text \<open>\<open>take_emittable\<close>: the group is taken, and the candidate only if there was a group.\<close>

definition take_emittable :: "'s mvcc_reverse \<Rightarrow> (bytes \<times> bytes) option \<times> 's mvcc_reverse" where
  "take_emittable s =
     (case mr_group s of
        None \<Rightarrow> (None, s)
      | Some g \<Rightarrow>
          (case mr_cand s of Some (Some v) \<Rightarrow> Some (g, v) | _ \<Rightarrow> None, s\<lparr>mr_group := None, mr_cand := None\<rparr>))"

definition mr_finish :: "'s mvcc_reverse \<Rightarrow> (bytes \<times> bytes) option \<times> 's mvcc_reverse" where
  "mr_finish s = take_emittable (s\<lparr>mr_done := True\<rparr>)"

text \<open>Crossing into a new user key, and the candidate an entry leaves.\<close>

definition mr_cross :: "bytes \<Rightarrow> 's mvcc_reverse \<Rightarrow> (bytes \<times> bytes) option \<times> 's mvcc_reverse" where
  "mr_cross uk s =
     (if mr_group s \<noteq> Some uk
      then let (emit, s) = take_emittable s in (emit, s\<lparr>mr_group := Some uk, mr_cand := None\<rparr>)
      else (None, s))"

definition mr_candidate :: "bytes \<Rightarrow> bytes \<Rightarrow> 's mvcc_reverse \<Rightarrow> 's mvcc_reverse res" where
  "mr_candidate ik val s =
     (if ikey_seqno ik \<le> mr_snap s
      then rbind (ikey_kind ik) (\<lambda>kind. Ok (s\<lparr>mr_cand := Some (if kind = Put then Some val else None)\<rparr>))
      else Ok s)"

partial_function (option) mr_loop ::
    "'s iter_ops \<Rightarrow> 's mvcc_reverse \<Rightarrow> ((bytes \<times> bytes) option \<times> 's mvcc_reverse) res option" where
  "mr_loop ops s =
     (if \<not> it_valid ops (mr_it s) then Some (Ok (mr_finish s))
      else if ikey_ukey (it_ikey ops (mr_it s)) < mr_lo s then Some (Ok (mr_finish s))
      else (case mr_cross (ikey_ukey (it_ikey ops (mr_it s))) s of
              (Some out, s) \<Rightarrow> Some (Ok (Some out, s))
            | (None, s) \<Rightarrow>
                (case mr_candidate (it_ikey ops (mr_it s)) (it_value ops (mr_it s)) s of
                   Inl e \<Rightarrow> Some (Err e)
                 | Inr s \<Rightarrow>
                     (case it_prev ops (mr_it s) of
                        Inl e \<Rightarrow> Some (Err e)
                      | Inr it \<Rightarrow> mr_loop ops (s\<lparr>mr_it := it\<rparr>)))))"

definition mr_next_visible ::
    "'s iter_ops \<Rightarrow> 's mvcc_reverse \<Rightarrow> ((bytes \<times> bytes) option \<times> 's mvcc_reverse) res option" where
  "mr_next_visible ops s = (if mr_done s then Some (Ok (None, s)) else mr_loop ops s)"

datatype 's mvcc_iter = Fwd "'s mvcc_forward" | Rev "'s mvcc_reverse"

definition mvcc_next_visible ::
    "'s iter_ops \<Rightarrow> 's mvcc_iter \<Rightarrow> ((bytes \<times> bytes) option \<times> 's mvcc_iter) res option" where
  "mvcc_next_visible ops m =
     (case m of
        Fwd f \<Rightarrow> map_option (\<lambda>r. rbind r (\<lambda>(x, f). Ok (x, Fwd f))) (mf_next_visible ops f)
      | Rev f \<Rightarrow> map_option (\<lambda>r. rbind r (\<lambda>(x, f). Ok (x, Rev f))) (mr_next_visible ops f))"

section \<open>What a scan is\<close>

text \<open>
  For each user key present, in order: the newest version no newer than the snapshot, if it is
  a \<open>Put\<close>.
\<close>

definition visible_put :: "entry list \<Rightarrow> seqno \<Rightarrow> bytes \<Rightarrow> (bytes \<times> bytes) option" where
  "visible_put es snap k = (case lookup_at es k snap of
      None \<Rightarrow> None
    | Some e \<Rightarrow> if ikey_kind (fst e) = Ok Put then Some (k, snd e) else None)"

definition scan_list :: "entry list \<Rightarrow> seqno \<Rightarrow> (bytes \<times> bytes) list" where
  "scan_list es snap = List.map_filter (visible_put es snap) (remdups_adj (map (\<lambda>e. ikey_ukey (fst e)) es))"

abbreviation ukey :: "entry \<Rightarrow> bytes" where "ukey e \<equiv> ikey_ukey (fst e)"

lemma lookup_at_skip: "list_all (\<lambda>e. ukey e \<noteq> k) xs \<Longrightarrow> lookup_at (xs @ ys) k s = lookup_at ys k s \<and> lookup_at (ys @ xs) k s = lookup_at ys k s"
  by (simp add: lookup_at_append lookup_at_None_iff [THEN iffD2] list_all_iff is_version_def split: option.splits)

text \<open>A scan works block by block, a block being the versions of one user key.\<close>

definition opt_list :: "'a option \<Rightarrow> 'a list" where
  "opt_list x = (case x of None \<Rightarrow> [] | Some y \<Rightarrow> [y])"

lemma opt_list_simps [simp]: "opt_list None = []" "opt_list (Some x) = [x]"
  by (simp_all add: opt_list_def)

lemma map_filter_opt: "List.map_filter f (x # xs) = opt_list (f x) @ List.map_filter f xs"
  by (simp add: opt_list_def split: option.split)

lemma map_filter_cong: "(\<And>x. x \<in> set xs \<Longrightarrow> f x = g x) \<Longrightarrow> List.map_filter f xs = List.map_filter g xs"
  by (simp add: List.map_filter_def cong: filter_cong map_cong)

lemma remdups_adj_block:
  "bs \<noteq> [] \<Longrightarrow> list_all (\<lambda>e. f e = k) bs \<Longrightarrow> list_all (\<lambda>e. f e \<noteq> k) xs \<Longrightarrow>
   remdups_adj (map f (bs @ xs)) = k # remdups_adj (map f xs)"
proof (induction bs)
  case (Cons b bs)
  show ?case
  proof (cases bs)
    case Nil
    then show ?thesis using Cons.prems by (cases xs) auto
  next
    case (Cons c cs)
    then show ?thesis using Cons.IH Cons.prems by simp
  qed
qed simp

lemma visible_put_skip:
  "list_all (\<lambda>e. ukey e \<noteq> k) xs \<Longrightarrow> visible_put (xs @ ys) s k = visible_put ys s k \<and> visible_put (ys @ xs) s k = visible_put ys s k"
  by (simp add: visible_put_def lookup_at_skip)

lemma scan_list_Nil [simp]: "scan_list [] snap = []"
  by (simp add: scan_list_def List.map_filter_def)

lemma scan_list_block:
  assumes "bs \<noteq> []" and b: "list_all (\<lambda>e. ukey e = k) bs" and x: "list_all (\<lambda>e. ukey e \<noteq> k) xs"
  shows "scan_list (bs @ xs) snap = opt_list (visible_put bs snap k) @ scan_list xs snap"
proof -
  have "List.map_filter (visible_put (bs @ xs) snap) (remdups_adj (map ukey xs))
      = List.map_filter (visible_put xs snap) (remdups_adj (map ukey xs))"
  proof (rule map_filter_cong)
    fix q assume "q \<in> set (remdups_adj (map ukey xs))"
    then have "q \<noteq> k" using x by (auto simp: list_all_iff)
    then have "list_all (\<lambda>e. ukey e \<noteq> q) bs" using b by (auto simp: list_all_iff)
    then show "visible_put (bs @ xs) snap q = visible_put xs snap q" by (simp add: visible_put_skip)
  qed
  then show ?thesis
    using remdups_adj_block [OF assms] visible_put_skip [OF x, of bs snap]
    by (simp add: scan_list_def opt_list_def split: option.split del: map_append)
qed

lemma scan_list_block_end:
  assumes "bs \<noteq> []" and b: "list_all (\<lambda>e. ukey e = k) bs" and x: "list_all (\<lambda>e. ukey e \<noteq> k) xs"
  shows "scan_list (xs @ bs) snap = scan_list xs snap @ opt_list (visible_put bs snap k)"
proof -
  have "remdups_adj (map ukey (xs @ bs)) = remdups_adj (map ukey xs) @ [k]"
  proof -
    have "remdups_adj (map ukey (rev bs @ rev xs)) = k # remdups_adj (map ukey (rev xs))"
      using assms by (intro remdups_adj_block) auto
    then have "rev (remdups_adj (map ukey (xs @ bs))) = k # rev (remdups_adj (map ukey xs))"
      by (simp add: rev_map [symmetric] remdups_adj_rev [symmetric] del: remdups_adj_rev)
    then show ?thesis by (metis rev.simps(2) rev_rev_ident)
  qed
  moreover have "List.map_filter (visible_put (xs @ bs) snap) (remdups_adj (map ukey xs))
      = List.map_filter (visible_put xs snap) (remdups_adj (map ukey xs))"
  proof (rule map_filter_cong)
    fix q assume "q \<in> set (remdups_adj (map ukey xs))"
    then have "q \<noteq> k" using x by (auto simp: list_all_iff)
    then have "list_all (\<lambda>e. ukey e \<noteq> q) bs" using b by (auto simp: list_all_iff)
    then show "visible_put (xs @ bs) snap q = visible_put xs snap q" by (simp add: visible_put_skip)
  qed
  ultimately show ?thesis using visible_put_skip [OF x, of bs snap]
    by (simp add: scan_list_def List.map_filter_def opt_list_def split: option.splits)
qed


section \<open>The forward stream delivers the scan\<close>

lemma sorted_ukey_le: "entries_sorted (e # es) \<Longrightarrow> x \<in> set es \<Longrightarrow> ukey e \<le> ukey x"
  by (auto simp: less_vkey_def vkey_of_def less_imp_le)

lemma sorted_block_split:
  assumes "entries_sorted (e # es)"
  shows "\<exists>bs xs. es = bs @ xs \<and> list_all (\<lambda>x. ukey x = ukey e) bs \<and> list_all (\<lambda>x. ukey x \<noteq> ukey e) xs
    \<and> filter (\<lambda>x. ukey x \<noteq> ukey e) es = xs"
  using assms
proof (induction es)
  case (Cons f es)
  show ?case
  proof (cases "ukey f = ukey e")
    case True
    have "entries_sorted (e # es)" using Cons.prems by auto
    with Cons.IH obtain bs xs where "es = bs @ xs" "list_all (\<lambda>x. ukey x = ukey e) bs" "list_all (\<lambda>x. ukey x \<noteq> ukey e) xs"
      "filter (\<lambda>x. ukey x \<noteq> ukey e) es = xs" by blast
    with True show ?thesis by (intro exI [of _ "f # bs"] exI [of _ xs]) simp
  next
    case False
    have "ukey e \<le> ukey f" using sorted_ukey_le [OF Cons.prems] by simp
    with False have "ukey e < ukey f" by simp
    moreover have "ukey f \<le> ukey x" if "x \<in> set es" for x using Cons.prems that sorted_ukey_le [of f es x] by auto
    ultimately have "list_all (\<lambda>x. ukey x \<noteq> ukey e) (f # es)" by (fastforce simp: list_all_iff)
    then show ?thesis by (intro exI [of _ "[]"] exI [of _ "f # es"]) (auto simp: list_all_iff intro: filter_True)
  qed
qed simp

definition put_of :: "entry \<Rightarrow> (bytes \<times> bytes) option" where
  "put_of e = (if ikey_kind (fst e) = Ok Put then Some (ukey e, snd e) else None)"

lemma scan_list_Cons:
  assumes "entries_sorted (e # es)"
  shows "scan_list (e # es) snap = (if ikey_seqno (fst e) \<le> snap
    then opt_list (put_of e) @ scan_list (filter (\<lambda>x. ukey x \<noteq> ukey e) es) snap else scan_list es snap)"
proof -
  obtain bs xs where b: "es = bs @ xs" "list_all (\<lambda>x. ukey x = ukey e) bs" "list_all (\<lambda>x. ukey x \<noteq> ukey e) xs"
    "filter (\<lambda>x. ukey x \<noteq> ukey e) es = xs"
    using sorted_block_split [OF assms] by blast
  have blk: "scan_list (e # bs @ xs) snap = opt_list (visible_put (e # bs) snap (ukey e)) @ scan_list xs snap"
    using scan_list_block [of "e # bs" "ukey e" xs snap] b(2,3) by simp
  show ?thesis
  proof (cases "ikey_seqno (fst e) \<le> snap")
    case True
    then have "visible_put (e # bs) snap (ukey e) = put_of e"
      by (simp add: visible_put_def lookup_at_Cons is_version_def put_of_def)
    with True blk b show ?thesis by simp
  next
    case False
    then have "visible_put (e # bs) snap (ukey e) = visible_put bs snap (ukey e)"
      by (simp add: visible_put_def lookup_at_Cons is_version_def)
    moreover have "scan_list (bs @ xs) snap = opt_list (visible_put bs snap (ukey e)) @ scan_list xs snap"
      using scan_list_block [of bs "ukey e" xs snap] b(2,3) by (cases bs) (auto simp: visible_put_def)
    ultimately show ?thesis using False blk b(1) by simp
  qed
qed

definition after_last :: "bytes option \<Rightarrow> bytes \<Rightarrow> bool" where
  "after_last l uk = (case l of None \<Rightarrow> True | Some k \<Rightarrow> k < uk)"

definition mf_out :: "entry list \<Rightarrow> bytes option \<Rightarrow> bytes option \<Rightarrow> seqno \<Rightarrow> (bytes \<times> bytes) list" where
  "mf_out es l hi snap = scan_list (filter (\<lambda>e. after_last l (ukey e) \<and> \<not> at_or_past hi (ukey e)) es) snap"

lemma entries_sorted_filter_Cons: "entries_sorted (e # es) \<Longrightarrow> entries_sorted (e # filter p es)"
  using entries_sorted_sublist [of es p] by simp

lemma mf_out_past:
  assumes "entries_sorted (e # es)" and "at_or_past hi (ukey e)"
  shows "mf_out (e # es) l hi snap = []"
proof -
  have "at_or_past hi (ukey x)" if "x \<in> set es" for x
    using assms sorted_ukey_le [OF assms(1) that] by (auto simp: at_or_past_def split: option.splits)
  then have "filter (\<lambda>x. after_last l (ukey x) \<and> \<not> at_or_past hi (ukey x)) (e # es) = []"
    using assms(2) by (auto simp: filter_empty_conv)
  then show ?thesis by (simp add: mf_out_def del: filter.simps)
qed

lemma mf_out_skip: "\<not> after_last l (ukey e) \<Longrightarrow> mf_out (e # es) l hi snap = mf_out es l hi snap"
  by (simp add: mf_out_def)

lemma mf_out_newer:
  "entries_sorted (e # es) \<Longrightarrow> \<not> at_or_past hi (ukey e) \<Longrightarrow> snap < ikey_seqno (fst e) \<Longrightarrow>
   mf_out (e # es) l hi snap = mf_out es l hi snap"
  using scan_list_Cons [OF entries_sorted_filter_Cons, of e es _ snap] by (auto simp: mf_out_def)

lemma mf_out_visible:
  assumes "entries_sorted (e # es)" and "\<not> at_or_past hi (ukey e)" and "\<not> snap < ikey_seqno (fst e)" and l: "after_last l (ukey e)"
  shows "mf_out (e # es) l hi snap = opt_list (put_of e) @ mf_out es (Some (ukey e)) hi snap"
proof -
  have "filter (\<lambda>x. ukey x \<noteq> ukey e) (filter (\<lambda>x. after_last l (ukey x) \<and> \<not> at_or_past hi (ukey x)) es)
      = filter (\<lambda>x. after_last (Some (ukey e)) (ukey x) \<and> \<not> at_or_past hi (ukey x)) es"
    unfolding filter_filter
  proof (rule filter_cong)
    fix x assume "x \<in> set es"
    then have "ukey e \<le> ukey x" using sorted_ukey_le [OF assms(1)] by blast
    then show "((after_last l (ukey x) \<and> \<not> at_or_past hi (ukey x)) \<and> ukey x \<noteq> ukey e)
        = (after_last (Some (ukey e)) (ukey x) \<and> \<not> at_or_past hi (ukey x))"
      using l by (auto simp: after_last_def split: option.splits)
  qed simp
  then show ?thesis
    using scan_list_Cons [OF entries_sorted_filter_Cons [OF assms(1)], of _ snap] assms(2-4) by (auto simp: mf_out_def)
qed

text \<open>
  The contract of a stream of pairs: it delivers a list, element by element, and then nothing,
  for ever. It includes that every call returns.
\<close>

locale pair_stream =
  fixes step :: "'s \<Rightarrow> ((bytes \<times> bytes) option \<times> 's) res option"
    and ready :: "'s \<Rightarrow> bool"
    and rest :: "'s \<Rightarrow> (bytes \<times> bytes) list"
  assumes delivers: "ready s \<Longrightarrow> \<exists>s'. step s = Some (Ok (hd_opt (rest s), s')) \<and> ready s' \<and> rest s' = tl (rest s)"

context forward_iterator
begin

definition mf_ready :: "'s mvcc_forward \<Rightarrow> bool" where
  "mf_ready s \<longleftrightarrow> good (mf_it s) \<and> entries_sorted (pend (mf_it s)) \<and> entries_kinds (pend (mf_it s)) \<and>
     (\<forall>k. mf_last_ukey s = Some k \<longrightarrow> (\<forall>e \<in> set (pend (mf_it s)). k \<le> ukey e))"

definition mf_rest :: "'s mvcc_forward \<Rightarrow> (bytes \<times> bytes) list" where
  "mf_rest s = (if mf_done s then [] else mf_out (pend (mf_it s)) (mf_last_ukey s) (mf_hi s) (mf_snap s))"

lemma mf_loop_delivers:
  "pend (mf_it s) = es \<Longrightarrow> mf_ready s \<Longrightarrow> \<not> mf_done s \<Longrightarrow>
   \<exists>s'. mf_loop ops s = Some (Ok (hd_opt (mf_rest s), s')) \<and> mf_ready s' \<and> mf_rest s' = tl (mf_rest s)"
proof (induction es arbitrary: s)
  case Nil
  then have "\<not> it_valid ops (mf_it s)" "mf_rest s = []"
    using valid by (simp_all add: mf_ready_def mf_rest_def mf_out_def)
  then show ?case using Nil by (subst mf_loop.simps) (simp add: mf_ready_def mf_rest_def)
next
  case (Cons e es)
  let ?it = "mf_it s"
  have g: "good ?it" and srt: "entries_sorted (e # es)" and kinds: "entries_kinds (e # es)"
    and last: "\<And>k. mf_last_ukey s = Some k \<Longrightarrow> k \<le> ukey e \<and> (\<forall>x \<in> set es. k \<le> ukey x)"
    using Cons.prems by (auto simp: mf_ready_def)
  have v: "it_valid ops ?it" using valid [OF g] Cons.prems(1) by simp
  have kv: "it_ikey ops ?it = fst e" "it_value ops ?it = snd e"
    using key_value [OF g Cons.prems(1)] by (metis fst_conv, metis snd_conv)
  obtain it' where it': "it_next ops ?it = Inr it'" "good it'" "pend it' = es"
    using step [OF g Cons.prems(1)] by (rule movesE)
  have le: "\<forall>x \<in> set es. ukey e \<le> ukey x" using sorted_ukey_le [OF srt] by blast
  have es: "entries_sorted es" "entries_kinds es" using srt kinds by (simp_all add: entries_kinds_def)
  let ?s1 = "s\<lparr>mf_it := it'\<rparr>" and ?s2 = "s\<lparr>mf_it := it', mf_last_ukey := Some (ukey e)\<rparr>"
  have r1: "mf_ready ?s1" using it' es last by (simp add: mf_ready_def)
  have r2: "mf_ready ?s2" using it' es le by (simp add: mf_ready_def)
  have rest: "mf_rest s = mf_out (e # es) (mf_last_ukey s) (mf_hi s) (mf_snap s)"
    "mf_rest ?s1 = mf_out es (mf_last_ukey s) (mf_hi s) (mf_snap s)"
    "mf_rest ?s2 = mf_out es (Some (ukey e)) (mf_hi s) (mf_snap s)"
    using Cons.prems it'(3) by (simp_all add: mf_rest_def)
  note loop = mf_loop.simps [of ops s] and ih1 = Cons.IH [of ?s1] and ih2 = Cons.IH [of ?s2]
  show ?case
  proof (cases "at_or_past (mf_hi s) (ukey e)")
    case True
    then show ?thesis using rest(1) mf_out_past [OF srt True] v kv Cons.prems
      by (subst mf_loop.simps) (simp add: mf_ready_def mf_rest_def)
  next
    case past: False
    show ?thesis
    proof (cases "mf_last_ukey s = Some (ukey e)")
      case True
      then have "mf_rest s = mf_rest ?s1" using rest mf_out_skip [of "mf_last_ukey s" e] by (simp add: after_last_def)
      then show ?thesis using ih1 r1 it' Cons.prems(3) loop v kv past True by simp
    next
      case False
      then have al: "after_last (mf_last_ukey s) (ukey e)"
        using last by (force simp: after_last_def split: option.splits)
      show ?thesis
      proof (cases "mf_snap s < ikey_seqno (fst e)")
        case True
        then have "mf_rest s = mf_rest ?s1" using rest mf_out_newer [OF srt past True] by simp
        then show ?thesis using ih1 r1 it' Cons.prems(3) loop v kv past False True by simp
      next
        case vis: False
        have out: "mf_rest s = opt_list (put_of e) @ mf_rest ?s2" using rest mf_out_visible [OF srt past vis al] by simp
        obtain kd where kd: "ikey_kind (fst e) = Ok kd" using kinds by (auto simp: entries_kinds_def)
        show ?thesis
        proof (cases kd)
          case Delete
          then have "mf_rest s = mf_rest ?s2" using out kd by (simp add: put_of_def)
          then show ?thesis using ih2 r2 it' Cons.prems(3) loop v kv past False vis kd Delete by simp
        next
          case Put
          then have "mf_rest s = (ukey e, snd e) # mf_rest ?s2" using out kd by (simp add: put_of_def)
          then show ?thesis using r2 it' loop v kv past False vis kd Put by simp
        qed
      qed
    qed
  qed
qed

lemma mf_stream: "pair_stream (mf_next_visible ops) mf_ready mf_rest"
proof
  fix s assume s: "mf_ready s"
  show "\<exists>s'. mf_next_visible ops s = Some (Ok (hd_opt (mf_rest s), s')) \<and> mf_ready s' \<and> mf_rest s' = tl (mf_rest s)"
  proof (cases "mf_done s")
    case True
    then show ?thesis using s by (simp add: mf_next_visible_def mf_rest_def)
  next
    case False
    then show ?thesis using mf_loop_delivers [OF refl s] by (simp add: mf_next_visible_def)
  qed
qed

end


section \<open>The reverse stream delivers the scan backwards\<close>

definition emit_of :: "bytes option \<Rightarrow> bytes option option \<Rightarrow> (bytes \<times> bytes) option" where
  "emit_of g c = (case g of None \<Rightarrow> None | Some k \<Rightarrow> (case c of Some (Some v) \<Rightarrow> Some (k, v) | _ \<Rightarrow> None))"

definition cand_of :: "seqno \<Rightarrow> entry \<Rightarrow> bytes option option \<Rightarrow> bytes option option" where
  "cand_of snap e c = (if ikey_seqno (fst e) \<le> snap
     then Some (if ikey_kind (fst e) = Ok Put then Some (snd e) else None) else c)"

fun rv_out :: "seqno \<Rightarrow> bytes option \<Rightarrow> bytes option option \<Rightarrow> entry list \<Rightarrow> (bytes \<times> bytes) list" where
  "rv_out snap g c [] = opt_list (emit_of g c)"
| "rv_out snap g c (e # es) =
     (if g \<noteq> Some (ukey e) then opt_list (emit_of g c) @ rv_out snap (Some (ukey e)) (cand_of snap e None) es
      else rv_out snap g (cand_of snap e c) es)"

lemma emit_of_None [simp]: "emit_of None c = None"
  by (simp add: emit_of_def)

lemma rv_out_block:
  "list_all (\<lambda>e. ukey e = k) bs \<Longrightarrow> rv_out snap (Some k) c (bs @ xs) = rv_out snap (Some k) (fold (cand_of snap) bs c) xs"
  by (induction bs arbitrary: c) auto

lemma rv_out_new:
  "list_all (\<lambda>e. ukey e \<noteq> k) xs \<Longrightarrow> rv_out snap (Some k) c xs = opt_list (emit_of (Some k) c) @ rv_out snap None None xs"
  by (cases xs) auto

lemma emit_block:
  "list_all (\<lambda>e. ukey e = k) bs \<Longrightarrow> emit_of (Some k) (fold (cand_of snap) bs None) = visible_put (rev bs) snap k"
proof (induction bs rule: rev_induct)
  case (snoc b bs)
  then show ?case
    by (cases "ikey_seqno (fst b) \<le> snap")
      (auto simp: cand_of_def emit_of_def visible_put_def lookup_at_Cons is_version_def)
qed (simp add: emit_of_def visible_put_def)

lemma rv_out_scan:
  "dir_sorted True es \<Longrightarrow> rv_out snap None None es = rev (scan_list (rev es) snap)"
proof (induction "length es" arbitrary: es rule: less_induct)
  case less
  show ?case
  proof (cases es)
    case (Cons e fs)
    let ?bs = "takeWhile (\<lambda>x. ukey x = ukey e) es" and ?xs = "dropWhile (\<lambda>x. ukey x = ukey e) es"
    have bs: "list_all (\<lambda>x. ukey x = ukey e) ?bs" by (auto simp: list_all_iff dest: set_takeWhileD)
    have ds: "dir_sorted True ?xs" using less.prems
      by (metis dir_sorted_def sorted_wrt_append takeWhile_dropWhile_id)
    have xs: "list_all (\<lambda>x. ukey x \<noteq> ukey e) ?xs"
    proof (cases ?xs)
      case (Cons y ys)
      have "dir_sorted True (?bs @ ?xs)" using less.prems by simp
      then have "\<forall>a \<in> set ?bs. \<forall>b \<in> set ?xs. dir_before True a b"
        by (simp only: dir_sorted_def sorted_wrt_append) blast
      moreover have "e \<in> set ?bs" using \<open>es = e # fs\<close> by simp
      moreover have "y \<in> set ?xs" using Cons by simp
      ultimately have "dir_before True e y" by blast
      moreover have "ukey y \<noteq> ukey e" using hd_dropWhile [of "\<lambda>x. ukey x = ukey e" es] Cons by simp
      ultimately have y: "ukey y < ukey e" by (auto simp: dir_before_def less_vkey_def vkey_of_def)
      have "ukey x \<le> ukey y" if "x \<in> set ys" for x
        using ds that Cons by (auto simp: dir_before_def less_vkey_def vkey_of_def less_imp_le)
      with y show ?thesis using Cons by (fastforce simp: list_all_iff)
    qed (simp del: dropWhile_eq_Nil_conv)
    have ne: "?bs \<noteq> []" using Cons by simp
    have es: "es = ?bs @ ?xs" by simp
    have "rv_out snap None None es = rv_out snap (Some (ukey e)) None es" using Cons by simp
    also have "\<dots> = rv_out snap (Some (ukey e)) None (?bs @ ?xs)" by simp
    also have "\<dots> = opt_list (visible_put (rev ?bs) snap (ukey e)) @ rv_out snap None None ?xs"
      by (simp only: rv_out_block [OF bs] rv_out_new [OF xs] emit_block [OF bs])
    also have "rv_out snap None None ?xs = rev (scan_list (rev ?xs) snap)"
      by (rule less.hyps [OF _ ds]) (use Cons in \<open>simp add: length_dropWhile_le less_Suc_eq_le\<close>)
    also have "opt_list (visible_put (rev ?bs) snap (ukey e)) @ rev (scan_list (rev ?xs) snap)
        = rev (scan_list (rev ?xs @ rev ?bs) snap)"
      using scan_list_block_end [of "rev ?bs" "ukey e" "rev ?xs" snap] bs xs ne
      by (simp add: opt_list_def split: option.split)
    also have "rev ?xs @ rev ?bs = rev es" by (metis es rev_append)
    finally show ?thesis .
  qed simp
qed

definition mr_out :: "'s mvcc_reverse \<Rightarrow> entry list \<Rightarrow> (bytes \<times> bytes) list" where
  "mr_out s es = (if mr_done s then []
     else rv_out (mr_snap s) (mr_group s) (mr_cand s) (takeWhile (\<lambda>e. \<not> ukey e < mr_lo s) es))"

lemma take_emittable_eq:
  "take_emittable s = (emit_of (mr_group s) (mr_cand s),
     if mr_group s = None then s else s\<lparr>mr_group := None, mr_cand := None\<rparr>)"
  by (auto simp: take_emittable_def emit_of_def split: option.splits)

lemma mr_cross_eq:
  "mr_cross uk s = (if mr_group s \<noteq> Some uk
     then (emit_of (mr_group s) (mr_cand s), s\<lparr>mr_group := Some uk, mr_cand := None\<rparr>) else (None, s))"
  by (simp add: mr_cross_def take_emittable_eq)

context reverse_iterator
begin

definition mr_ready :: "'s mvcc_reverse \<Rightarrow> bool" where
  "mr_ready s \<longleftrightarrow> good (mr_it s) \<and> entries_kinds (pend (mr_it s))"

definition mr_rest :: "'s mvcc_reverse \<Rightarrow> (bytes \<times> bytes) list" where
  "mr_rest s = mr_out s (pend (mr_it s))"

lemma mr_finish_delivers:
  assumes "mr_ready s" and "\<not> mr_done s" and "takeWhile (\<lambda>e. \<not> ukey e < mr_lo s) (pend (mr_it s)) = []"
  shows "\<exists>s'. mr_finish s = (hd_opt (mr_rest s), s') \<and> mr_ready s' \<and> mr_rest s' = tl (mr_rest s)"
  using assms by (cases "emit_of (mr_group s) (mr_cand s)")
    (auto simp: mr_finish_def take_emittable_eq mr_rest_def mr_out_def mr_ready_def)

lemma mr_loop_delivers:
  "pend (mr_it s) = es \<Longrightarrow> mr_ready s \<Longrightarrow> \<not> mr_done s \<Longrightarrow>
   \<exists>s'. mr_loop ops s = Some (Ok (hd_opt (mr_rest s), s')) \<and> mr_ready s' \<and> mr_rest s' = tl (mr_rest s)"
proof (induction es arbitrary: s)
  case Nil
  then have "\<not> it_valid ops (mr_it s)" using valid by (simp add: mr_ready_def)
  moreover obtain s' where "mr_finish s = (hd_opt (mr_rest s), s')" "mr_ready s'" "mr_rest s' = tl (mr_rest s)"
    using mr_finish_delivers [OF Nil(2,3)] Nil(1) by auto
  ultimately show ?case by (subst mr_loop.simps) simp
next
  case (Cons e es)
  let ?it = "mr_it s"
  have g: "good ?it" and kinds: "entries_kinds (e # es)" using Cons.prems by (simp_all add: mr_ready_def)
  have v: "it_valid ops ?it" using valid [OF g] Cons.prems(1) by simp
  have kv: "it_ikey ops ?it = fst e" "it_value ops ?it = snd e"
    using key_value [OF g Cons.prems(1)] by (metis fst_conv, metis snd_conv)
  obtain it' where it': "it_prev ops ?it = Inr it'" "good it'" "pend it' = es"
    using step [OF g Cons.prems(1)] by (rule movesE)
  obtain kd where kd: "ikey_kind (fst e) = Ok kd" using kinds by (auto simp: entries_kinds_def)
  note loop = mr_loop.simps [of ops s]
  show ?case
  proof (cases "ukey e < mr_lo s")
    case True
    obtain s' where "mr_finish s = (hd_opt (mr_rest s), s')" "mr_ready s'" "mr_rest s' = tl (mr_rest s)"
      using mr_finish_delivers [OF Cons.prems(2,3)] True Cons.prems(1) by auto
    with True v kv loop show ?thesis by simp
  next
    case lo: False
    let ?c = "if mr_group s \<noteq> Some (ukey e) then None else mr_cand s"
    let ?s1 = "s\<lparr>mr_group := Some (ukey e), mr_cand := ?c\<rparr>"
    let ?s2 = "s\<lparr>mr_group := Some (ukey e), mr_cand := cand_of (mr_snap s) e ?c, mr_it := it'\<rparr>"
    have cand: "mr_candidate (fst e) (snd e) ?s1 = Ok (?s1\<lparr>mr_cand := cand_of (mr_snap s) e ?c\<rparr>)"
      using kd by (cases kd) (auto simp: mr_candidate_def cand_of_def)
    have ready2: "mr_ready ?s2" using it' kinds by (simp add: mr_ready_def entries_kinds_def)
    have rest2: "mr_rest ?s2 = rv_out (mr_snap s) (Some (ukey e)) (cand_of (mr_snap s) e ?c) (takeWhile (\<lambda>e. \<not> ukey e < mr_lo s) es)"
      using Cons.prems(3) it'(3) by (simp add: mr_rest_def mr_out_def)
    have cont: "mr_group s = Some (ukey e) \<or> emit_of (mr_group s) (mr_cand s) = None \<Longrightarrow>
        mr_cross (ukey e) s = (None, ?s1) \<and> mr_rest s = mr_rest ?s2"
      using Cons.prems(1,3) lo unfolding rest2 by (auto simp: mr_cross_eq mr_rest_def mr_out_def)
    show ?thesis
    proof (cases "mr_group s = Some (ukey e) \<or> emit_of (mr_group s) (mr_cand s) = None")
      case True
      note c = cont [OF True]
      obtain s' where "mr_loop ops ?s2 = Some (Ok (hd_opt (mr_rest ?s2), s'))" "mr_ready s'" "mr_rest s' = tl (mr_rest ?s2)"
        using Cons.IH [of ?s2] ready2 it'(3) Cons.prems(3) by auto
      then show ?thesis using c cand loop v kv lo it'(1) by simp
    next
      case False
      then obtain out where out: "emit_of (mr_group s) (mr_cand s) = Some out" "mr_group s \<noteq> Some (ukey e)" by auto
      have "mr_rest s = out # mr_rest ?s1"
        using out Cons.prems(1,3) lo by (simp add: mr_rest_def mr_out_def)
      moreover have "mr_ready ?s1" using Cons.prems(2) by (simp add: mr_ready_def)
      moreover have "mr_cross (ukey e) s = (Some out, ?s1)" using out by (simp add: mr_cross_eq)
      ultimately show ?thesis using loop v kv lo by simp
    qed
  qed
qed

lemma mr_stream: "pair_stream (mr_next_visible ops) mr_ready mr_rest"
proof
  fix s assume s: "mr_ready s"
  show "\<exists>s'. mr_next_visible ops s = Some (Ok (hd_opt (mr_rest s), s')) \<and> mr_ready s' \<and> mr_rest s' = tl (mr_rest s)"
  proof (cases "mr_done s")
    case True
    then show ?thesis using s by (simp add: mr_next_visible_def mr_rest_def mr_out_def)
  next
    case False
    then show ?thesis using mr_loop_delivers [OF refl s] by (simp add: mr_next_visible_def)
  qed
qed

end

end
