(* ===== verification/DbIter.thy ===== *)
theory DbIter
  imports Mvcc
begin

text \<open>
  The merge that \<open>DbIterator::new\<close> of \<open>crates/fluent31/src/iter.rs\<close> builds over a read view: memtable
  and run cursors behind one interface, and the stream of visible pairs in either direction, which
  is shown to be the scan of the view's entries.
\<close>

section \<open>The children of the merge\<close>

text \<open>The dispatch of \<open>Box<dyn InternalIterator>\<close> to the two kinds of cursor.\<close>

definition child_op ::
    "('m mem_iter \<Rightarrow> 'm mem_iter res) \<Rightarrow> (run_iter \<Rightarrow> run_iter res) \<Rightarrow> 'm child \<Rightarrow> 'm child res" where
  "child_op f g c = (case c of
      CMem s \<Rightarrow> rbind (f s) (\<lambda>s. Ok (CMem s)) | CRun s \<Rightarrow> rbind (g s) (\<lambda>s. Ok (CRun s)))"

definition child_get :: "('m mem_iter \<Rightarrow> 'a) \<Rightarrow> (run_iter \<Rightarrow> 'a) \<Rightarrow> 'm child \<Rightarrow> 'a" where
  "child_get f g c = (case c of CMem s \<Rightarrow> f s | CRun s \<Rightarrow> g s)"

definition child_ops :: "codecs \<Rightarrow> 'm skip_ops \<Rightarrow> 'm child iter_ops" where
  "child_ops ex sk =
     (let m = mem_iter_ops sk; r = run_iter_ops ex
      in \<lparr>it_seek_to_first = child_op (it_seek_to_first m) (it_seek_to_first r),
          it_seek_to_last = child_op (it_seek_to_last m) (it_seek_to_last r),
          it_seek = (\<lambda>k. child_op (it_seek m k) (it_seek r k)),
          it_seek_for_prev = (\<lambda>k. child_op (it_seek_for_prev m k) (it_seek_for_prev r k)),
          it_valid = child_get (it_valid m) (it_valid r),
          it_next = child_op (it_next m) (it_next r), it_prev = child_op (it_prev m) (it_prev r),
          it_ikey = child_get (it_ikey m) (it_ikey r), it_value = child_get (it_value m) (it_value r)\<rparr>)"

definition child_good ::
    "codecs \<Rightarrow> 'm skip_ops \<Rightarrow> ('m \<Rightarrow> entry list) \<Rightarrow> (cache_key \<Rightarrow> bytes \<Rightarrow> bool) \<Rightarrow> 'm child \<Rightarrow> bool" where
  "child_good ex sk ents P c \<longleftrightarrow> skip_ok sk ents \<and> child_get (\<lambda>s. mi_good s ents) (ri_good ex P) c"

definition child_contents :: "codecs \<Rightarrow> ('m \<Rightarrow> entry list) \<Rightarrow> 'm child \<Rightarrow> entry list" where
  "child_contents ex ents = child_get (mi_contents ents) (ri_contents ex)"

definition child_forward :: "codecs \<Rightarrow> ('m \<Rightarrow> entry list) \<Rightarrow> 'm child \<Rightarrow> entry list" where
  "child_forward ex ents = child_get (mi_forward ents) (ri_forward ex)"

definition child_backward :: "codecs \<Rightarrow> ('m \<Rightarrow> entry list) \<Rightarrow> 'm child \<Rightarrow> entry list" where
  "child_backward ex ents = child_get (mi_backward ents) (ri_backward ex)"

lemmas child_defs = child_ops_def child_op_def child_get_def child_good_def child_contents_def
  child_forward_def child_backward_def Let_def

lemma moves_child:
  "skip_ok sk ents \<Longrightarrow> moves (\<lambda>s. mi_good s ents) (mi_contents ents) p r es rest \<Longrightarrow>
   moves (child_good ex sk ents P) (child_contents ex ents) (child_get p q) (rbind r (\<lambda>s. Ok (CMem s))) es rest"
  "skip_ok sk ents \<Longrightarrow> moves (ri_good ex P) (ri_contents ex) q r' es rest \<Longrightarrow>
   moves (child_good ex sk ents P) (child_contents ex ents) (child_get p q) (rbind r' (\<lambda>s. Ok (CRun s))) es rest"
  by (auto simp: child_good_def child_contents_def child_get_def elim!: movesE)

lemma mem_forward_facts:
  assumes sk: "skip_ok sk ents" and s: "mi_good s ents"
  shows "entries_sorted (mi_contents ents s)" "it_valid (mem_iter_ops sk) s \<longleftrightarrow> mi_forward ents s \<noteq> []"
    "mi_forward ents s = e # es \<Longrightarrow> (it_ikey (mem_iter_ops sk) s, it_value (mem_iter_ops sk) s) = e"
    "mi_forward ents s = e # es \<Longrightarrow> moves (\<lambda>s. mi_good s ents) (mi_contents ents) (mi_forward ents) (it_next (mem_iter_ops sk) s) (mi_contents ents s) es"
    "moves (\<lambda>s. mi_good s ents) (mi_contents ents) (mi_forward ents) (it_seek_to_first (mem_iter_ops sk) s) (mi_contents ents s) ( (mi_contents ents s))"
    "moves (\<lambda>s. mi_good s ents) (mi_contents ents) (mi_forward ents) (it_seek (mem_iter_ops sk) ik s) (mi_contents ents s) (from_key ik (mi_contents ents s))"
proof -
  note f = mem_forward [OF sk]
  note c = forward_iterator.axioms(1) [OF f]
  show "entries_sorted (mi_contents ents s)" "it_valid (mem_iter_ops sk) s \<longleftrightarrow> mi_forward ents s \<noteq> []"
    by (rule entry_cursor.sorted [OF c s], rule entry_cursor.valid [OF c s])
  show "mi_forward ents s = e # es \<Longrightarrow> (it_ikey (mem_iter_ops sk) s, it_value (mem_iter_ops sk) s) = e"
    "mi_forward ents s = e # es \<Longrightarrow> moves (\<lambda>s. mi_good s ents) (mi_contents ents) (mi_forward ents) (it_next (mem_iter_ops sk) s) (mi_contents ents s) es"
    by (erule entry_cursor.key_value [OF c s], erule entry_cursor.step [OF c s])
  show "moves (\<lambda>s. mi_good s ents) (mi_contents ents) (mi_forward ents) (it_seek_to_first (mem_iter_ops sk) s) (mi_contents ents s) ( (mi_contents ents s))"
    "moves (\<lambda>s. mi_good s ents) (mi_contents ents) (mi_forward ents) (it_seek (mem_iter_ops sk) ik s) (mi_contents ents s) (from_key ik (mi_contents ents s))"
    using forward_iterator.seek_to_first [OF f s] forward_iterator.seek [OF f s] by simp_all
qed

interpretation childf: forward_iterator "child_ops ex sk" "child_good ex sk ents P" "child_contents ex ents"
  "child_forward ex ents" for ex sk ents P
proof
  fix c :: "'a child" and e es ik
  assume c: "child_good ex sk ents P c"
  then have sk: "skip_ok sk ents" by (simp add: child_good_def)
  show "entries_sorted (child_contents ex ents c)"
    using c mem_forward_facts(1) [OF sk] rif.sorted [of ex P]
    by (cases c) (auto simp: child_good_def child_contents_def child_get_def)
  show "it_valid (child_ops ex sk) c = (child_forward ex ents c \<noteq> [])"
    using c mem_forward_facts(2) [OF sk] rif.valid [of ex P]
    by (cases c) (auto simp: child_defs)
  show "moves (child_good ex sk ents P) (child_contents ex ents) (child_forward ex ents) (it_seek_to_first (child_ops ex sk) c)
      (child_contents ex ents c) ( (child_contents ex ents c))"
    using c moves_child [OF sk] mem_forward_facts(5) [OF sk] rif.seek_to_first [of ex P]
    by (cases c) (simp_all add: child_forward_def child_ops_def child_op_def child_get_def child_good_def child_contents_def Let_def)
  show "moves (child_good ex sk ents P) (child_contents ex ents) (child_forward ex ents) (it_seek (child_ops ex sk) ik c)
      (child_contents ex ents c) (from_key ik (child_contents ex ents c))"
    using c moves_child [OF sk] mem_forward_facts(6) [OF sk, of _ ik] rif.seek [of ex P _ ik]
    by (cases c) (simp_all add: child_forward_def child_ops_def child_op_def child_get_def child_good_def child_contents_def Let_def)
  assume p: "child_forward ex ents c = e # es"
  show "(it_ikey (child_ops ex sk) c, it_value (child_ops ex sk) c) = e"
    using c p mem_forward_facts(3) [OF sk] rif.key_value [of ex P]
    by (cases c) (simp_all add: child_defs)
  show "moves (child_good ex sk ents P) (child_contents ex ents) (child_forward ex ents) (it_next (child_ops ex sk) c) (child_contents ex ents c) es"
    using c p moves_child [OF sk] mem_forward_facts(4) [OF sk] rif.step [of ex P]
    by (cases c) (simp_all add: child_forward_def child_ops_def child_op_def child_get_def child_good_def child_contents_def Let_def)
qed

lemma mem_reverse_facts:
  assumes sk: "skip_ok sk ents" and s: "mi_good s ents"
  shows "entries_sorted (mi_contents ents s)" "it_valid (mem_iter_ops sk) s \<longleftrightarrow> mi_backward ents s \<noteq> []"
    "mi_backward ents s = e # es \<Longrightarrow> (it_ikey (mem_iter_ops sk) s, it_value (mem_iter_ops sk) s) = e"
    "mi_backward ents s = e # es \<Longrightarrow> moves (\<lambda>s. mi_good s ents) (mi_contents ents) (mi_backward ents) (it_prev (mem_iter_ops sk) s) (mi_contents ents s) es"
    "moves (\<lambda>s. mi_good s ents) (mi_contents ents) (mi_backward ents) (it_seek_to_last (mem_iter_ops sk) s) (mi_contents ents s) (rev (mi_contents ents s))"
    "moves (\<lambda>s. mi_good s ents) (mi_contents ents) (mi_backward ents) (it_seek_for_prev (mem_iter_ops sk) ik s) (mi_contents ents s) (upto_key ik (mi_contents ents s))"
proof -
  note f = mem_reverse [OF sk]
  note c = reverse_iterator.axioms(1) [OF f]
  show "entries_sorted (mi_contents ents s)" "it_valid (mem_iter_ops sk) s \<longleftrightarrow> mi_backward ents s \<noteq> []"
    by (rule entry_cursor.sorted [OF c s], rule entry_cursor.valid [OF c s])
  show "mi_backward ents s = e # es \<Longrightarrow> (it_ikey (mem_iter_ops sk) s, it_value (mem_iter_ops sk) s) = e"
    "mi_backward ents s = e # es \<Longrightarrow> moves (\<lambda>s. mi_good s ents) (mi_contents ents) (mi_backward ents) (it_prev (mem_iter_ops sk) s) (mi_contents ents s) es"
    by (erule entry_cursor.key_value [OF c s], erule entry_cursor.step [OF c s])
  show "moves (\<lambda>s. mi_good s ents) (mi_contents ents) (mi_backward ents) (it_seek_to_last (mem_iter_ops sk) s) (mi_contents ents s) (rev (mi_contents ents s))"
    "moves (\<lambda>s. mi_good s ents) (mi_contents ents) (mi_backward ents) (it_seek_for_prev (mem_iter_ops sk) ik s) (mi_contents ents s) (upto_key ik (mi_contents ents s))"
    using reverse_iterator.seek_to_last [OF f s] reverse_iterator.seek_for_prev [OF f s] by simp_all
qed

interpretation childr: reverse_iterator "child_ops ex sk" "child_good ex sk ents P" "child_contents ex ents"
  "child_backward ex ents" for ex sk ents P
proof
  fix c :: "'a child" and e es ik
  assume c: "child_good ex sk ents P c"
  then have sk: "skip_ok sk ents" by (simp add: child_good_def)
  show "entries_sorted (child_contents ex ents c)"
    using c mem_reverse_facts(1) [OF sk] rir.sorted [of ex P]
    by (cases c) (auto simp: child_good_def child_contents_def child_get_def)
  show "it_valid (child_ops ex sk) c = (child_backward ex ents c \<noteq> [])"
    using c mem_reverse_facts(2) [OF sk] rir.valid [of ex P]
    by (cases c) (auto simp: child_defs)
  show "moves (child_good ex sk ents P) (child_contents ex ents) (child_backward ex ents) (it_seek_to_last (child_ops ex sk) c)
      (child_contents ex ents c) (rev (child_contents ex ents c))"
    using c moves_child [OF sk] mem_reverse_facts(5) [OF sk] rir.seek_to_last [of ex P]
    by (cases c) (simp_all add: child_backward_def child_ops_def child_op_def child_get_def child_good_def child_contents_def Let_def)
  show "moves (child_good ex sk ents P) (child_contents ex ents) (child_backward ex ents) (it_seek_for_prev (child_ops ex sk) ik c)
      (child_contents ex ents c) (upto_key ik (child_contents ex ents c))"
    using c moves_child [OF sk] mem_reverse_facts(6) [OF sk, of _ ik] rir.seek_for_prev [of ex P _ ik]
    by (cases c) (simp_all add: child_backward_def child_ops_def child_op_def child_get_def child_good_def child_contents_def Let_def)
  assume p: "child_backward ex ents c = e # es"
  show "(it_ikey (child_ops ex sk) c, it_value (child_ops ex sk) c) = e"
    using c p mem_reverse_facts(3) [OF sk] rir.key_value [of ex P]
    by (cases c) (simp_all add: child_defs)
  show "moves (child_good ex sk ents P) (child_contents ex ents) (child_backward ex ents) (it_prev (child_ops ex sk) c) (child_contents ex ents c) es"
    using c p moves_child [OF sk] mem_reverse_facts(4) [OF sk] rir.step [of ex P]
    by (cases c) (simp_all add: child_backward_def child_ops_def child_op_def child_get_def child_good_def child_contents_def Let_def)
qed


abbreviation view_ops :: "codecs \<Rightarrow> 'm skip_ops \<Rightarrow> 'm child merge_iter iter_ops" where
  "view_ops ex sk \<equiv> merge_iter_ops (child_ops ex sk)"

interpretation mergef: forward_iterator "view_ops ex sk"
  "entry_cursor.merge_ok (child_ops ex sk) (child_good ex sk ents P) (child_contents ex ents) (child_forward ex ents) False"
  "entry_cursor.merge_contents (child_contents ex ents)" "entry_cursor.merge_pend (child_forward ex ents) False"
  for ex sk ents P
  by (rule childf.merge_forward)

interpretation merger: reverse_iterator "view_ops ex sk"
  "entry_cursor.merge_ok (child_ops ex sk) (child_good ex sk ents P) (child_contents ex ents) (child_backward ex ents) True"
  "entry_cursor.merge_contents (child_contents ex ents)" "entry_cursor.merge_pend (child_backward ex ents) True"
  for ex sk ents P
  by (rule childr.merge_reverse)

section \<open>The stream of visible pairs of a view\<close>

definition scan_ready ::
    "codecs \<Rightarrow> 'm skip_ops \<Rightarrow> ('m \<Rightarrow> entry list) \<Rightarrow> (cache_key \<Rightarrow> bytes \<Rightarrow> bool) \<Rightarrow> 'm child merge_iter mvcc_iter \<Rightarrow> bool" where
  "scan_ready ex sk ents P m = (case m of
      Fwd f \<Rightarrow> forward_iterator.mf_ready
        (entry_cursor.merge_ok (child_ops ex sk) (child_good ex sk ents P) (child_contents ex ents) (child_forward ex ents) False)
        (entry_cursor.merge_pend (child_forward ex ents) False) f
    | Rev r \<Rightarrow> reverse_iterator.mr_ready
        (entry_cursor.merge_ok (child_ops ex sk) (child_good ex sk ents P) (child_contents ex ents) (child_backward ex ents) True)
        (entry_cursor.merge_pend (child_backward ex ents) True) r)"

definition scan_rest ::
    "codecs \<Rightarrow> ('m \<Rightarrow> entry list) \<Rightarrow> 'm child merge_iter mvcc_iter \<Rightarrow> (bytes \<times> bytes) list" where
  "scan_rest ex ents m = (case m of
      Fwd f \<Rightarrow> forward_iterator.mf_rest (entry_cursor.merge_pend (child_forward ex ents) False) f
    | Rev r \<Rightarrow> reverse_iterator.mr_rest (entry_cursor.merge_pend (child_backward ex ents) True) r)"

interpretation views: pair_stream "mvcc_next_visible (view_ops ex sk)" "scan_ready ex sk ents P" "scan_rest ex ents"
  for ex sk ents P
proof
  fix m :: "'a child merge_iter mvcc_iter"
  assume m: "scan_ready ex sk ents P m"
  show "\<exists>m'. mvcc_next_visible (view_ops ex sk) m = Some (Ok (hd_opt (scan_rest ex ents m), m'))
      \<and> scan_ready ex sk ents P m' \<and> scan_rest ex ents m' = tl (scan_rest ex ents m)"
  proof (cases m)
    case (Fwd f)
    then show ?thesis using m pair_stream.delivers [OF mergef.mf_stream, of ex sk ents P f]
      by (fastforce simp: mvcc_next_visible_def scan_ready_def scan_rest_def)
  next
    case (Rev r)
    then show ?thesis using m pair_stream.delivers [OF merger.mr_stream, of ex sk ents P r]
      by (fastforce simp: mvcc_next_visible_def scan_ready_def scan_rest_def)
  qed
qed

definition in_range :: "bytes \<Rightarrow> bytes option \<Rightarrow> bytes \<Rightarrow> bool" where
  "in_range lo hi k \<longleftrightarrow> lo \<le> k \<and> (case hi of None \<Rightarrow> True | Some h \<Rightarrow> k < h)"

definition range_scan :: "entry list \<Rightarrow> seqno \<Rightarrow> bytes \<Rightarrow> bytes option \<Rightarrow> (bytes \<times> bytes) list" where
  "range_scan es snap lo hi = scan_list (filter (\<lambda>e. in_range lo hi (ukey e)) es) snap"

lemma ikey_seqno_le: "ikey_seqno ik \<le> max_seqno"
proof -
  have "unat (ikey_trailer ik) div 2 ^ 8 < 2 ^ 56"
    using unat_u64_less [of "ikey_trailer ik"] by (simp add: div_less_iff_less_mult)
  then have "unat (ikey_seqno ik) < 2 ^ 56" by (simp add: ikey_seqno_def unsigned_drop_bit_eq drop_bit_eq_div unat_div)
  then show ?thesis by (simp add: max_seqno_val word_le_nat_alt)
qed

lemma before_low_iff: "vkey_of ik < vkey_of (make_seek_ikey lo max_seqno) \<longleftrightarrow> ikey_ukey ik < lo"
  using before_seek_iff [of max_seqno ik lo] ikey_seqno_le [of ik] by auto

lemma upto_high_iff:
  assumes "ikey_kind ik = Ok kd"
  shows "vkey_of (make_seek_ikey hi max_seqno) < vkey_of ik \<longleftrightarrow> hi \<le> ikey_ukey ik"
proof -
  have "ikey_tag ik \<noteq> seek_kind"
    using assms by (auto simp: ikey_kind_tag value_kind_from_u8_def seek_kind_def split: if_splits)
  then have "vkey_of ik \<noteq> vkey_of (make_seek_ikey hi max_seqno)"
    by (auto simp: vkey_of_def key_simps)
  then have "vkey_of (make_seek_ikey hi max_seqno) < vkey_of ik \<longleftrightarrow> \<not> vkey_of ik < vkey_of (make_seek_ikey hi max_seqno)" by auto
  then show ?thesis by (simp add: before_low_iff not_less)
qed

lemma internal_children_good:
  assumes v: "view_sound ex sk ents P v" and c: "cache_holds P c"
  shows "list_all (child_good ex sk ents P) (internal_children v c)"
    and "map (child_contents ex ents) (internal_children v c) = view_layers ex ents v"
    and "list_all (\<lambda>s. child_forward ex ents s = [] \<and> child_backward ex ents s = []) (internal_children v c)"
proof -
  have "ri_good ex P (run_iter_of r c)" if "r \<in> set (runs_newest_first (rv_version v))" for r
    using v c that by (simp add: view_sound_def version_sound_def list_all_iff ri_good_def ri_core_def run_iter_of_def ri_seen_def)
  then show "list_all (child_good ex sk ents P) (internal_children v c)"
    using v by (auto simp: internal_children_def child_good_def child_get_def view_sound_def list_all_iff memtable_iter_def mi_good_def)
  show "map (child_contents ex ents) (internal_children v c) = view_layers ex ents v"
    by (simp add: internal_children_def child_contents_def child_get_def view_layers_def mem_layers_def version_layers_def
        mi_contents_def memtable_iter_def ri_contents_def ri_parts_def run_iter_of_def run_entries_def)
  show "list_all (\<lambda>s. child_forward ex ents s = [] \<and> child_backward ex ents s = []) (internal_children v c)"
    by (auto simp: internal_children_def child_forward_def child_backward_def child_get_def list_all_iff
        mi_forward_def mi_backward_def memtable_iter_def ri_forward_def ri_backward_def run_iter_of_def)
qed

lemma pick_none: "list_all (\<lambda>c. \<not> it_valid ops c) cs \<Longrightarrow> pick_loop ops r all i None cs = None"
  by (induction cs arbitrary: i) auto

lemma merge_new_ok:
  assumes v: "view_sound ex sk ents P v" and c: "cache_holds P c"
  shows "entry_cursor.merge_ok (child_ops ex sk) (child_good ex sk ents P) (child_contents ex ents) (child_forward ex ents) False
      (merge_new (internal_children v c) False)" (is ?f)
    and "entry_cursor.merge_ok (child_ops ex sk) (child_good ex sk ents P) (child_contents ex ents) (child_backward ex ents) True
      (merge_new (internal_children v c) True)" (is ?r)
    and "entry_cursor.merge_contents (child_contents ex ents) (merge_new (internal_children v c) r) = view_entries ex ents v"
proof -
  note ch = internal_children_good [OF v c]
  have kd: "keys_distinct (view_layers ex ents v)" using v by (simp add: view_sound_def layered_distinct)
  have nil: "keys_distinct (map (child_forward ex ents) (internal_children v c))"
    "keys_distinct (map (child_backward ex ents) (internal_children v c))"
    using ch(3) by (auto simp: keys_distinct_iff list_all_iff sorted_wrt_iff_nth_less)
  have inv: "list_all (\<lambda>s. \<not> it_valid (child_ops ex sk) s) (internal_children v c)"
    using ch(1,3) childf.valid [of ex sk ents P] by (auto simp: list_all_iff)
  show ?f ?r
    using ch kd nil pick_none [OF inv]
    by (auto simp: childf.merge_ok_def childr.merge_ok_def merge_new_def merge_pick_def list_all_iff)
  show "entry_cursor.merge_contents (child_contents ex ents) (merge_new (internal_children v c) r) = view_entries ex ents v"
    using ch(2) by (simp add: childf.merge_contents_def merge_new_def view_entries_def)
qed

lemma view_entries_sorted: "view_sound ex sk ents P v \<Longrightarrow> entries_sorted (view_entries ex ents v)"
  by (simp add: view_sound_def view_entries_def layered_distinct merge_entries_sorted)

lemma view_entries_kinds: "view_sound ex sk ents P v \<Longrightarrow> entries_kinds (view_entries ex ents v)"
  by (auto simp: view_sound_def view_entries_def entries_kinds_def list_all_iff)

lemma entries_kinds_subset: "entries_kinds es \<Longrightarrow> set fs \<subseteq> set es \<Longrightarrow> entries_kinds fs"
  by (auto simp: entries_kinds_def list_all_iff)

lemma forward_scan_starts:
  assumes v: "view_sound ex sk ents P v" and c: "cache_holds P c"
  shows "\<exists>f. mvcc_forward_new (view_ops ex sk) (merge_new (internal_children v c) False) snap lo hi = Ok f \<and>
    scan_ready ex sk ents P (Fwd f) \<and> scan_rest ex ents (Fwd f) = range_scan (view_entries ex ents v) snap lo hi"
proof -
  let ?m = "merge_new (internal_children v c) False" and ?es = "view_entries ex ents v"
  let ?k = "make_seek_ikey lo max_seqno"
  note m = merge_new_ok [OF v c]
  have srt: "entries_sorted ?es" and kinds: "entries_kinds ?es" using view_entries_sorted [OF v] view_entries_kinds [OF v] by simp_all
  obtain it where it: "it_seek (view_ops ex sk) ?k ?m = Inr it"
    "entry_cursor.merge_ok (child_ops ex sk) (child_good ex sk ents P) (child_contents ex ents) (child_forward ex ents) False it"
    "entry_cursor.merge_pend (child_forward ex ents) False it = from_key ?k ?es"
    using mergef.seek [OF m(1), of ?k] m(3) by (auto elim: movesE)
  have fk: "from_key ?k ?es = filter (\<lambda>e. lo \<le> ukey e) ?es"
    using srt by (simp add: from_key_filter before_low_iff not_less)
  let ?f = "\<lparr>mf_it = it, mf_snap = snap, mf_hi = hi, mf_last_ukey = None, mf_done = False\<rparr>"
  have "mvcc_forward_new (view_ops ex sk) ?m snap lo hi = Ok ?f" using it(1) by (simp add: mvcc_forward_new_def)
  moreover have "scan_ready ex sk ents P (Fwd ?f)"
    using it fk entries_kinds_subset [OF kinds, of "filter (\<lambda>e. lo \<le> ukey e) ?es"] entries_sorted_sublist [OF srt]
    by (auto simp: scan_ready_def mergef.mf_ready_def)
  moreover have "scan_rest ex ents (Fwd ?f) = range_scan ?es snap lo hi"
  proof -
    have "(\<lambda>e. after_last None (ukey e) \<and> \<not> at_or_past hi (ukey e)) = (\<lambda>e. \<not> at_or_past hi (ukey e))"
      by (simp add: after_last_def)
    moreover have "(\<lambda>e. \<not> at_or_past hi (ukey e) \<and> lo \<le> ukey e) = (\<lambda>e :: entry. in_range lo hi (ukey e))"
      by (auto simp: at_or_past_def in_range_def fun_eq_iff split: option.splits)
    ultimately show ?thesis using it(3) fk
      by (simp add: scan_rest_def mergef.mf_rest_def mf_out_def range_scan_def conj_commute)
  qed
  ultimately show ?thesis by blast
qed

lemma takeWhile_filter_desc:
  "dir_sorted True es \<Longrightarrow> takeWhile (\<lambda>e. \<not> ukey e < lo) es = filter (\<lambda>e. lo \<le> ukey e) es"
proof (induction es)
  case (Cons e es)
  have "ukey x < lo" if "ukey e < lo" "x \<in> set es" for x
    using that Cons.prems by (auto simp: dir_before_def less_vkey_def vkey_of_def)
  then show ?case using Cons by (auto simp: filter_empty_conv not_le not_less)
qed simp

lemma reverse_scan_starts:
  assumes v: "view_sound ex sk ents P v" and c: "cache_holds P c"
  shows "\<exists>f. mvcc_reverse_new (view_ops ex sk) (merge_new (internal_children v c) True) snap lo hi = Ok f \<and>
    scan_ready ex sk ents P (Rev f) \<and> scan_rest ex ents (Rev f) = rev (range_scan (view_entries ex ents v) snap lo hi)"
proof -
  let ?m = "merge_new (internal_children v c) True" and ?es = "view_entries ex ents v"
  note m = merge_new_ok [OF v c]
  have srt: "entries_sorted ?es" and kinds: "entries_kinds ?es" using view_entries_sorted [OF v] view_entries_kinds [OF v] by simp_all
  let ?below = "\<lambda>e. case hi of None \<Rightarrow> True | Some h \<Rightarrow> ukey e < h"
  have "\<exists>it. (case hi of Some hi \<Rightarrow> it_seek_for_prev (view_ops ex sk) (make_seek_ikey hi max_seqno) ?m
        | None \<Rightarrow> it_seek_to_last (view_ops ex sk) ?m) = Inr it \<and>
      entry_cursor.merge_ok (child_ops ex sk) (child_good ex sk ents P) (child_contents ex ents) (child_backward ex ents) True it \<and>
      entry_cursor.merge_pend (child_backward ex ents) True it = rev (filter ?below ?es)"
  proof (cases hi)
    case None
    then show ?thesis using merger.seek_to_last [OF m(2)] m(3) by (auto elim: movesE)
  next
    case (Some h)
    have "filter (\<lambda>e. \<not> vkey_of (make_seek_ikey h max_seqno) < vkey_of (fst e)) ?es = filter ?below ?es"
      using kinds Some by (intro filter_cong) (auto simp: entries_kinds_def list_all_iff upto_high_iff not_le dest!: bspec)
    then have "upto_key (make_seek_ikey h max_seqno) ?es = rev (filter ?below ?es)" using srt by (simp add: upto_key_filter)
    then show ?thesis using merger.seek_for_prev [OF m(2), of "make_seek_ikey h max_seqno"] m(3) Some by (auto elim: movesE)
  qed
  then obtain it where it: "(case hi of Some hi \<Rightarrow> it_seek_for_prev (view_ops ex sk) (make_seek_ikey hi max_seqno) ?m
        | None \<Rightarrow> it_seek_to_last (view_ops ex sk) ?m) = Inr it"
      "entry_cursor.merge_ok (child_ops ex sk) (child_good ex sk ents P) (child_contents ex ents) (child_backward ex ents) True it"
      "entry_cursor.merge_pend (child_backward ex ents) True it = rev (filter ?below ?es)" by blast
  let ?f = "\<lparr>mr_it = it, mr_snap = snap, mr_lo = lo, mr_group = None, mr_cand = None, mr_done = False\<rparr>"
  have "mvcc_reverse_new (view_ops ex sk) ?m snap lo hi = Ok ?f" using it(1) by (simp add: mvcc_reverse_new_def)
  moreover have "scan_ready ex sk ents P (Rev ?f)"
    using it entries_kinds_subset [OF kinds, of "rev (filter ?below ?es)"] by (auto simp: scan_ready_def merger.mr_ready_def)
  moreover have "scan_rest ex ents (Rev ?f) = rev (range_scan ?es snap lo hi)"
  proof -
    let ?pend = "takeWhile (\<lambda>e. \<not> ukey e < lo) (rev (filter ?below ?es))"
    have "dir_sorted True (rev (filter ?below ?es))" using entries_sorted_sublist [OF srt] by (simp add: dir_sorted_entries)
    then have p: "?pend = rev (filter (\<lambda>e. in_range lo hi (ukey e)) ?es)"
      by (simp add: takeWhile_filter_desc rev_filter in_range_def conj_commute)
    have "dir_sorted True ?pend" unfolding p using entries_sorted_sublist [OF srt] by (simp add: dir_sorted_entries)
    then have "rv_out snap None None ?pend = rev (range_scan ?es snap lo hi)"
      using rv_out_scan [of ?pend snap] p by (simp add: range_scan_def)
    then show ?thesis using it(3) by (simp add: scan_rest_def merger.mr_rest_def mr_out_def)
  qed
  ultimately show ?thesis by blast
qed

end
