(* ===== verification/DbIterator.thy ===== *)
theory DbIterator
  imports DbIter
begin

text \<open>
  \<open>DbIterator\<close> of \<open>crates/fluent31/src/iter.rs\<close>: it pulls a window of visible pairs, serves value
  log pointers from the cache, reads the others in one batch per file, and hands the pairs out
  in order. The order in which the grouping hash map is walked is a parameter \<open>ho\<close>.
\<close>

section \<open>The iterator\<close>

definition prefetch_entries :: nat where "prefetch_entries = 32"
definition prefetch_bytes :: nat where "prefetch_bytes = push_bit 10 256"

datatype pending = Ready bytes | Pointer value_ptr

type_synonym window = "(bytes \<times> pending) list"

record 'm db_iterator =
  di_mvcc :: "'m child merge_iter mvcc_iter"
  di_view :: "'m read_view"
  di_cache :: block_cache
  di_ready :: "(bytes \<times> bytes) list"
  di_exhausted :: bool
  di_errored :: bool

definition db_iterator_new ::
    "codecs \<Rightarrow> 'm skip_ops \<Rightarrow> 'm read_view \<Rightarrow> block_cache \<Rightarrow> seqno \<Rightarrow> bytes \<Rightarrow> bytes option \<Rightarrow> bool \<Rightarrow> 'm db_iterator res" where
  "db_iterator_new ex sk view cache snap lo hi reverse =
     (let merge = merge_new (internal_children view cache) reverse
      in rbind (if reverse
                then rbind (mvcc_reverse_new (view_ops ex sk) merge snap lo hi) (\<lambda>r. Ok (Rev r))
                else rbind (mvcc_forward_new (view_ops ex sk) merge snap lo hi) (\<lambda>f. Ok (Fwd f))) (\<lambda>mvcc.
         Ok \<lparr>di_mvcc = mvcc, di_view = view, di_cache = cache, di_ready = [], di_exhausted = False,
             di_errored = False\<rparr>))"

text \<open>The window: the flag says that the stream ended.\<close>

definition pending_of :: "bytes \<Rightarrow> bytes \<Rightarrow> (pending \<times> nat) res" where
  "pending_of key repr =
     rbind (decode_repr repr) (\<lambda>r. case r of
        Inline v \<Rightarrow> Ok (Ready v, length key + length v)
      | Ptr p \<Rightarrow> Ok (Pointer p, length key + unat (vp_len p)))"

function fill_window ::
    "('s \<Rightarrow> ((bytes \<times> bytes) option \<times> 's) res option) \<Rightarrow> 's \<Rightarrow> window \<Rightarrow> nat \<Rightarrow> (window \<times> bool \<times> 's) res option" where
  "fill_window step m window nbytes =
     (if length window < prefetch_entries \<and> nbytes < prefetch_bytes
      then (case step m of
              None \<Rightarrow> None
            | Some (Inl e) \<Rightarrow> Some (Err e)
            | Some (Inr (None, m)) \<Rightarrow> Some (Ok (window, True, m))
            | Some (Inr (Some (key, repr), m)) \<Rightarrow>
                (case pending_of key repr of
                   Inl e \<Rightarrow> Some (Err e)
                 | Inr (p, n) \<Rightarrow> fill_window step m (window @ [(key, p)]) (nbytes + n)))
      else Some (Ok (window, False, m)))"
  by pat_completeness auto
termination
  by (relation "measure (\<lambda>(step, m, window, nbytes). prefetch_entries - length window)") auto

declare fill_window.simps [simp del]

fun serve_hits :: "(bytes \<Rightarrow> u32) \<Rightarrow> window \<Rightarrow> block_cache \<Rightarrow> window res \<times> block_cache" where
  "serve_hits crc [] = cres (Ok [])"
| "serve_hits crc ((key, Ready v) # w) = cbind (serve_hits crc w) (\<lambda>w. cres (Ok ((key, Ready v) # w)))"
| "serve_hits crc ((key, Pointer p) # w) = (\<lambda>c.
     case cache_get (vp_file p) (vp_offset p) c of
       (Some bs, c) \<Rightarrow> cbind (cres (record_value_for crc bs key)) (\<lambda>v.
          cbind (serve_hits crc w) (\<lambda>w. cres (Ok ((key, Ready v) # w)))) c
     | (None, c) \<Rightarrow> cbind (serve_hits crc w) (\<lambda>w. cres (Ok ((key, Pointer p) # w))) c)"

text \<open>The unresolved pointers, grouped by value-log file.\<close>

definition points_into :: "window \<Rightarrow> u64 \<Rightarrow> nat \<Rightarrow> bool" where
  "points_into w f i = (case snd (w ! i) of Pointer p \<Rightarrow> vp_file p = f | Ready _ \<Rightarrow> False)"

definition pointed_files :: "window \<Rightarrow> u64 list" where
  "pointed_files w = remdups (List.map_filter (\<lambda>(_, p). case p of Pointer p \<Rightarrow> Some (vp_file p) | Ready _ \<Rightarrow> None) w)"

definition group_by_file :: "window \<Rightarrow> (u64 \<times> nat list) list" where
  "group_by_file w = map (\<lambda>f. (f, filter (points_into w f) [0..<length w])) (pointed_files w)"

definition put_values :: "window \<Rightarrow> nat list \<Rightarrow> bytes list \<Rightarrow> window" where
  "put_values w idxs values = fold (\<lambda>(i, v) w. w[i := (fst (w ! i), Ready v)]) (zip idxs values) w"

fun read_groups :: "(bytes \<Rightarrow> u32) \<Rightarrow> version \<Rightarrow> (u64 \<times> nat list) list \<Rightarrow> window \<Rightarrow> window res" where
  "read_groups crc vs [] w = Ok w"
| "read_groups crc vs ((file_id, idxs) # groups) w =
     (case map_of (vs_vlogs vs) file_id of
        None \<Rightarrow> Err (corrupt ''pointer into unknown vlog file {file_id}'')
      | Some handle \<Rightarrow>
          let items = map (\<lambda>i. (case snd (w ! i) of Pointer p \<Rightarrow> p | Ready _ \<Rightarrow> undefined, fst (w ! i))) idxs
          in rbind (read_values_batch crc handle items) (\<lambda>values.
               read_groups crc vs groups (put_values w idxs values)))"

fun ready_pairs :: "window \<Rightarrow> (bytes \<times> bytes) list res" where
  "ready_pairs [] = Ok []"
| "ready_pairs ((key, Ready v) # w) = rbind (ready_pairs w) (\<lambda>ps. Ok ((key, v) # ps))"
| "ready_pairs ((key, Pointer p) # w) = Err (Panic ''unreachable'')"

definition resolve_window ::
    "(bytes \<Rightarrow> u32) \<Rightarrow> ((u64 \<times> nat list) list \<Rightarrow> (u64 \<times> nat list) list) \<Rightarrow> version \<Rightarrow> window \<Rightarrow>
     block_cache \<Rightarrow> (bytes \<times> bytes) list res \<times> block_cache" where
  "resolve_window crc ho vs w =
     cbind (serve_hits crc w) (\<lambda>w. cres (rbind (read_groups crc vs (ho (group_by_file w)) w) ready_pairs))"

definition db_iterator_fill ::
    "codecs \<Rightarrow> 'm skip_ops \<Rightarrow> ((u64 \<times> nat list) list \<Rightarrow> (u64 \<times> nat list) list) \<Rightarrow> 'm db_iterator \<Rightarrow>
     (unit res \<times> 'm db_iterator) option" where
  "db_iterator_fill ex sk ho s =
     (if di_exhausted s then Some (Ok (), s)
      else (case fill_window (mvcc_next_visible (view_ops ex sk)) (di_mvcc s) [] 0 of
              None \<Rightarrow> None
            | Some (Inl e) \<Rightarrow> Some (Err e, s)
            | Some (Inr (w, ended, m)) \<Rightarrow>
                let s = s\<lparr>di_mvcc := m, di_exhausted := ended\<rparr>;
                    (r, c) = resolve_window (ex_crc ex) ho (rv_version (di_view s)) w (di_cache s);
                    s = s\<lparr>di_cache := c\<rparr>
                in case r of
                     Inl e \<Rightarrow> Some (Err e, s)
                   | Inr ps \<Rightarrow> Some (Ok (), s\<lparr>di_ready := di_ready s @ ps\<rparr>)))"

text \<open>\<open>next\<close>: an error is handed out once and ends the iteration.\<close>

definition pop_ready :: "'m db_iterator \<Rightarrow> (bytes \<times> bytes) res option \<times> 'm db_iterator" where
  "pop_ready s = (case di_ready s of [] \<Rightarrow> (None, s) | p # ps \<Rightarrow> (Some (Ok p), s\<lparr>di_ready := ps\<rparr>))"

definition db_iterator_next ::
    "codecs \<Rightarrow> 'm skip_ops \<Rightarrow> ((u64 \<times> nat list) list \<Rightarrow> (u64 \<times> nat list) list) \<Rightarrow> 'm db_iterator \<Rightarrow>
     ((bytes \<times> bytes) res option \<times> 'm db_iterator) option" where
  "db_iterator_next ex sk ho s =
     (if di_errored s then Some (None, s)
      else if di_ready s = []
      then (case db_iterator_fill ex sk ho s of
              None \<Rightarrow> None
            | Some (Inl e, s) \<Rightarrow> Some (Some (Err e), s\<lparr>di_errored := True\<rparr>)
            | Some (Inr _, s) \<Rightarrow> Some (pop_ready s))
      else Some (pop_ready s))"

text \<open>The first \<open>n\<close> items a caller gets; \<open>None\<close> if a call does not return or hands out an error.\<close>

fun db_take ::
    "codecs \<Rightarrow> 'm skip_ops \<Rightarrow> ((u64 \<times> nat list) list \<Rightarrow> (u64 \<times> nat list) list) \<Rightarrow> nat \<Rightarrow> 'm db_iterator \<Rightarrow>
     (bytes \<times> bytes) list option" where
  "db_take ex sk ho 0 s = Some []"
| "db_take ex sk ho (Suc n) s =
     (case db_iterator_next ex sk ho s of
        None \<Rightarrow> None
      | Some (None, s) \<Rightarrow> Some []
      | Some (Some (Inl e), s) \<Rightarrow> None
      | Some (Some (Inr p), s) \<Rightarrow> map_option (\<lambda>ps. p # ps) (db_take ex sk ho n s))"

section \<open>Windows resolve\<close>

text \<open>
  A representation stands for a value: inline, or through a pointer into a live value log whose
  record is that key's. The cache, too, may serve the record.
\<close>

definition pointer_ok ::
    "(bytes \<Rightarrow> u32) \<Rightarrow> (cache_key \<Rightarrow> bytes \<Rightarrow> bool) \<Rightarrow> version \<Rightarrow> bytes \<Rightarrow> value_ptr \<Rightarrow> bytes \<Rightarrow> bool" where
  "pointer_ok crc P vs key p v \<longleftrightarrow> (\<exists>h bs. map_of (vs_vlogs vs) (vp_file p) = Some h \<and>
     file_read_exact_at (unat (vp_offset p)) (unat (vp_len p)) (vh_file h) = Ok bs \<and> record_value_for crc bs key = Ok v) \<and>
     (\<forall>bs. P (vp_file p, vp_offset p) bs \<longrightarrow> record_value_for crc bs key = Ok v)"

definition repr_stands ::
    "(bytes \<Rightarrow> u32) \<Rightarrow> (cache_key \<Rightarrow> bytes \<Rightarrow> bool) \<Rightarrow> version \<Rightarrow> bytes \<times> bytes \<Rightarrow> bytes \<times> bytes \<Rightarrow> bool" where
  "repr_stands crc P vs a b \<longleftrightarrow> fst a = fst b \<and>
     (decode_repr (snd a) = Ok (Inline (snd b)) \<or> (\<exists>p. decode_repr (snd a) = Ok (Ptr p) \<and> pointer_ok crc P vs (fst a) p (snd b)))"

definition slot_stands ::
    "(bytes \<Rightarrow> u32) \<Rightarrow> (cache_key \<Rightarrow> bytes \<Rightarrow> bool) \<Rightarrow> version \<Rightarrow> bytes \<times> pending \<Rightarrow> bytes \<times> bytes \<Rightarrow> bool" where
  "slot_stands crc P vs a b \<longleftrightarrow> fst a = fst b \<and>
     (case snd a of Ready v \<Rightarrow> v = snd b | Pointer p \<Rightarrow> pointer_ok crc P vs (fst a) p (snd b))"

abbreviation window_stands where
  "window_stands crc P vs \<equiv> list_all2 (slot_stands crc P vs)"

lemma pending_of_stands:
  assumes "repr_stands crc P vs (key, repr) b"
  shows "\<exists>p n. pending_of key repr = Ok (p, n) \<and> slot_stands crc P vs (key, p) b"
  using assms by (auto simp: repr_stands_def slot_stands_def pending_of_def)

lemma serve_hits_stands:
  "window_stands crc P vs w ws \<Longrightarrow> cache_holds P c \<Longrightarrow>
   \<exists>w' c'. serve_hits crc w c = (Ok w', c') \<and> cache_holds P c' \<and> window_stands crc P vs w' ws"
proof (induction w ws arbitrary: c rule: list_all2_induct)
  case (Cons a w b ws)
  obtain key p where a: "a = (key, p)" by (cases a)
  show ?case
  proof (cases p)
    case (Ready v)
    then show ?thesis using Cons a by (fastforce simp: cbind_def cres_def)
  next
    case (Pointer q)
    obtain got c1 where g: "cache_get (vp_file q) (vp_offset q) c = (got, c1)" by fastforce
    note gg = blocks.all_cached_get [OF Cons.prems g]
    then obtain w' c' where w': "serve_hits crc w c1 = (Ok w', c')" "cache_holds P c'" "window_stands crc P vs w' ws"
      using Cons.IH by blast
    show ?thesis
    proof (cases got)
      case None
      then show ?thesis using g w' a Pointer Cons.hyps(1) by (simp add: cbind_def cres_def)
    next
      case (Some bs)
      then have "record_value_for crc bs key = Ok (snd b)" "fst b = key"
        using gg Cons.hyps(1) a Pointer by (auto simp: slot_stands_def pointer_ok_def)
      moreover from this have "slot_stands crc P vs (key, Ready (snd b)) b" by (simp add: slot_stands_def)
      ultimately show ?thesis using g w' a Pointer Some by (simp add: cbind_def cres_def)
    qed
  qed
qed (simp add: cres_def)

lemma read_values_batch_ok:
  assumes "list_all2 (\<lambda>(p, key) v. \<exists>bs. file_read_exact_at (unat (vp_offset p)) (unat (vp_len p)) (vh_file h) = Ok bs
    \<and> record_value_for crc bs key = Ok v) items vs"
  shows "read_values_batch crc h items = Ok vs"
proof -
  have "\<exists>bufs. file_read_many (map (\<lambda>(p, _). (unat (vp_offset p), unat (vp_len p))) items) (vh_file h) = Ok bufs \<and>
      length bufs = length items \<and> collect_values crc (zip items bufs) = Ok vs"
    using assms
  proof (induction items vs rule: list_all2_induct)
    case (Cons x xs y ys)
    then obtain bs bufs where "file_read_exact_at (unat (vp_offset (fst x))) (unat (vp_len (fst x))) (vh_file h) = Ok bs"
      "record_value_for crc bs (snd x) = Ok y"
      "file_read_many (map (\<lambda>(p, _). (unat (vp_offset p), unat (vp_len p))) xs) (vh_file h) = Ok bufs"
      "length bufs = length xs" "collect_values crc (zip xs bufs) = Ok ys" by (auto simp: split_def)
    then show ?case by (intro exI [of _ "bs # bufs"]) (cases x, simp)
  qed simp
  then show ?thesis by (auto simp: read_values_batch_def)
qed

lemma put_values_stands:
  "window_stands crc P vs w ws \<Longrightarrow> \<forall>i \<in> set idxs. i < length w \<Longrightarrow>
   window_stands crc P vs (put_values w idxs (map (\<lambda>i. snd (ws ! i)) idxs)) ws"
proof (induction idxs arbitrary: w)
  case (Cons i idxs)
  have len: "length w = length ws" using Cons.prems(1) by (rule list_all2_lengthD)
  then have i: "i < length ws" "fst (w ! i) = fst (ws ! i)"
    using Cons.prems list_all2_nthD [OF Cons.prems(1), of i] by (auto simp: slot_stands_def)
  have "slot_stands crc P vs (fst (w ! i), Ready (snd (ws ! i))) (ws ! i)" using i(2) by (simp add: slot_stands_def)
  then have "window_stands crc P vs (w[i := (fst (w ! i), Ready (snd (ws ! i)))]) ws"
    using list_all2_update_cong [OF Cons.prems(1), of "(fst (w ! i), Ready (snd (ws ! i)))" "ws ! i" i] by simp
  from Cons.IH [OF this] Cons.prems(2) show ?case by (simp add: put_values_def)
qed (simp add: put_values_def)

lemma put_values_nth:
  "length vals = length idxs \<Longrightarrow> \<forall>i \<in> set idxs. i < length w \<Longrightarrow> j < length w \<Longrightarrow>
   (if j \<in> set idxs then \<exists>v. snd (put_values w idxs vals ! j) = Ready v else put_values w idxs vals ! j = w ! j)"
proof (induction idxs vals arbitrary: w rule: list_induct2')
  case (4 i idxs v vals)
  let ?w = "w[i := (fst (w ! i), Ready v)]"
  have step: "put_values w (i # idxs) (v # vals) = put_values ?w idxs vals" by (simp add: put_values_def)
  have ih: "if j \<in> set idxs then \<exists>v. snd (put_values ?w idxs vals ! j) = Ready v else put_values ?w idxs vals ! j = ?w ! j"
    using 4 by (intro "4.IH") auto
  show ?case
  proof (cases "j \<in> set idxs")
    case True
    then show ?thesis using ih step by simp
  next
    case False
    then show ?thesis using ih step "4.prems" by (cases "j = i") auto
  qed
qed (simp_all add: put_values_def)

lemma length_put_values [simp]: "length (put_values w idxs vals) = length w"
  by (induction idxs vals arbitrary: w rule: list_induct2') (simp_all add: put_values_def)

text \<open>Groups with disjoint indices, each of pointers into its file.\<close>

definition groups_ok :: "window \<Rightarrow> (u64 \<times> nat list) list \<Rightarrow> bool" where
  "groups_ok w gs \<longleftrightarrow> (\<forall>(f, idxs) \<in> set gs. idxs \<noteq> [] \<and> (\<forall>i \<in> set idxs. i < length w \<and> points_into w f i)) \<and>
     distinct (map fst gs)"

lemma points_into_unique: "points_into w f i \<Longrightarrow> points_into w g i \<Longrightarrow> f = g"
  by (auto simp: points_into_def split: pending.splits)

lemma read_groups_ok:
  "window_stands crc P vs w ws \<Longrightarrow> groups_ok w gs \<Longrightarrow>
   \<exists>w'. read_groups crc vs gs w = Ok w' \<and> window_stands crc P vs w' ws \<and> length w' = length w \<and>
     (\<forall>j < length w. if \<exists>(f, idxs) \<in> set gs. j \<in> set idxs then \<exists>v. snd (w' ! j) = Ready v else w' ! j = w ! j)"
proof (induction gs arbitrary: w)
  case (Cons g gs)
  obtain f idxs where g: "g = (f, idxs)" by (cases g)
  have ne: "idxs \<noteq> []" and in_w: "\<forall>i \<in> set idxs. i < length w \<and> points_into w f i" using Cons.prems(2) g by (auto simp: groups_ok_def)
  have len: "length w = length ws" using Cons.prems(1) by (rule list_all2_lengthD)
  let ?items = "map (\<lambda>i. (case snd (w ! i) of Pointer p \<Rightarrow> p | Ready _ \<Rightarrow> undefined, fst (w ! i))) idxs"
  let ?vals = "map (\<lambda>i. snd (ws ! i)) idxs" and ?w = "put_values w idxs (map (\<lambda>i. snd (ws ! i)) idxs)"
  have ptr: "\<exists>p h bs. snd (w ! i) = Pointer p \<and> vp_file p = f \<and> map_of (vs_vlogs vs) f = Some h \<and>
      file_read_exact_at (unat (vp_offset p)) (unat (vp_len p)) (vh_file h) = Ok bs \<and> record_value_for crc bs (fst (w ! i)) = Ok (snd (ws ! i))"
    if "i \<in> set idxs" for i
    using in_w that list_all2_nthD [OF Cons.prems(1), of i]
    by (auto simp: points_into_def slot_stands_def pointer_ok_def split: pending.splits)
  have st: "window_stands crc P vs ?w ws" using put_values_stands [OF Cons.prems(1)] in_w by blast
  have nth: "if j \<in> set idxs then \<exists>v. snd (?w ! j) = Ready v else ?w ! j = w ! j" if "j < length w" for j
    using put_values_nth [of ?vals idxs w j] in_w that by simp
  have gs: "groups_ok ?w gs"
  proof -
    have "points_into ?w f' i" if "(f', js) \<in> set gs" "i \<in> set js" for f' js i
    proof -
      have "(f', js) \<in> set (g # gs)" "f' \<in> set (map fst gs)" "f \<notin> set (map fst gs)"
        using that Cons.prems(2) g by (auto simp: groups_ok_def image_iff intro!: bexI [of _ "(f', js)"])
      then have i: "i < length w" "points_into w f' i" "f' \<noteq> f"
        using Cons.prems(2) that(2) unfolding groups_ok_def by blast+
      then have "i \<notin> set idxs" using in_w points_into_unique by metis
      then have "?w ! i = w ! i" using nth [OF i(1)] by simp
      then show ?thesis using i(2) by (simp add: points_into_def)
    qed
    then show ?thesis using Cons.prems(2) g by (fastforce simp: groups_ok_def)
  qed
  obtain w' where w': "read_groups crc vs gs ?w = Ok w'" "window_stands crc P vs w' ws" "length w' = length w"
    "\<forall>j < length w. if \<exists>(f, idxs) \<in> set gs. j \<in> set idxs then \<exists>v. snd (w' ! j) = Ready v else w' ! j = ?w ! j"
    using Cons.IH [OF st gs] by (simp only: length_put_values) blast
  obtain h where h: "map_of (vs_vlogs vs) f = Some h" using ptr ne by (meson last_in_set)
  have "read_values_batch crc h ?items = Ok ?vals"
    by (rule read_values_batch_ok) (use ptr h in \<open>fastforce simp: list_all2_map1 list_all2_map2 list_all2_same\<close>)
  then have run: "read_groups crc vs (g # gs) w = Ok w'" using w'(1) h g by simp
  have "if \<exists>(f, idxs) \<in> set (g # gs). j \<in> set idxs then \<exists>v. snd (w' ! j) = Ready v else w' ! j = w ! j" if j: "j < length w" for j
  proof (cases "\<exists>(f, idxs) \<in> set gs. j \<in> set idxs")
    case True
    then show ?thesis using w'(4) j by auto
  next
    case False
    then have "w' ! j = ?w ! j" using w'(4) j by auto
    then show ?thesis using nth [OF j] False g by auto
  qed
  then show ?case using run w'(2,3) by blast
qed simp

lemma pointed_files_iff: "f \<in> set (pointed_files w) \<longleftrightarrow> (\<exists>j < length w. points_into w f j)"
proof -
  have "f \<in> set (pointed_files w) \<longleftrightarrow> (\<exists>a \<in> set w. case snd a of Pointer p \<Rightarrow> vp_file p = f | Ready _ \<Rightarrow> False)"
    by (induction w) (auto simp: pointed_files_def List.map_filter_simps split: pending.splits)
  also have "\<dots> \<longleftrightarrow> (\<exists>j < length w. points_into w f j)"
    unfolding points_into_def by (metis in_set_conv_nth)
  finally show ?thesis .
qed

lemma group_by_file_ok: "groups_ok w (group_by_file w)"
proof -
  have "filter (points_into w f) [0..<length w] \<noteq> []" if "f \<in> set (pointed_files w)" for f
    using that by (auto simp: filter_empty_conv pointed_files_iff)
  moreover have "distinct (pointed_files w)" by (simp add: pointed_files_def)
  ultimately show ?thesis by (auto simp: groups_ok_def group_by_file_def comp_def)
qed

lemma group_by_file_covers:
  assumes j: "j < length w" and p: "snd (w ! j) = Pointer p"
  shows "\<exists>(f, idxs) \<in> set (group_by_file w). j \<in> set idxs"
proof -
  have "points_into w (vp_file p) j" using p by (simp add: points_into_def)
  moreover from this have "vp_file p \<in> set (pointed_files w)" using j pointed_files_iff by blast
  ultimately show ?thesis using j by (auto simp: group_by_file_def)
qed

lemma ready_pairs_ok:
  "window_stands crc P vs w ws \<Longrightarrow> \<forall>j < length w. \<exists>v. snd (w ! j) = Ready v \<Longrightarrow> ready_pairs w = Ok ws"
proof (induction w ws rule: list_all2_induct)
  case (Cons a w b ws)
  obtain key pd where a: "a = (key, pd)" by (cases a)
  obtain v where "pd = Ready v" using Cons.prems a by (metis length_greater_0_conv list.discI nth_Cons_0 snd_conv)
  moreover have "\<forall>j < length w. \<exists>v. snd (w ! j) = Ready v" using Cons.prems by fastforce
  ultimately show ?case using Cons.IH Cons.hyps a by (cases b) (simp add: slot_stands_def)
qed simp

definition order_ok :: "((u64 \<times> nat list) list \<Rightarrow> (u64 \<times> nat list) list) \<Rightarrow> bool" where
  "order_ok ho \<longleftrightarrow> (\<forall>gs. mset (ho gs) = mset gs)"

lemma resolve_window_ok:
  assumes w: "window_stands crc P vs w ws" and c: "cache_holds P c" and ho: "order_ok ho"
  shows "\<exists>c'. resolve_window crc ho vs w c = (Ok ws, c') \<and> cache_holds P c'"
proof -
  obtain w1 c1 where w1: "serve_hits crc w c = (Ok w1, c1)" "cache_holds P c1" "window_stands crc P vs w1 ws"
    using serve_hits_stands [OF w c] by blast
  have ms: "mset (ho (group_by_file w1)) = mset (group_by_file w1)" using ho by (simp add: order_ok_def)
  then have st: "set (ho (group_by_file w1)) = set (group_by_file w1)" by (metis set_mset_mset)
  have "mset (map fst (ho (group_by_file w1))) = mset (map fst (group_by_file w1))" using ms by simp
  then have "distinct (map fst (ho (group_by_file w1)))"
    using group_by_file_ok [of w1] unfolding groups_ok_def by (metis mset_eq_imp_distinct_iff)
  then have "groups_ok w1 (ho (group_by_file w1))" using group_by_file_ok [of w1] st by (simp add: groups_ok_def)
  from read_groups_ok [OF w1(3) this] obtain w2 where w2: "read_groups crc vs (ho (group_by_file w1)) w1 = Ok w2"
    "window_stands crc P vs w2 ws" "length w2 = length w1"
    "\<forall>j < length w1. if \<exists>(f, idxs) \<in> set (group_by_file w1). j \<in> set idxs then \<exists>v. snd (w2 ! j) = Ready v else w2 ! j = w1 ! j"
    unfolding st by blast
  have "\<exists>v. snd (w2 ! j) = Ready v" if j: "j < length w2" for j
  proof (cases "snd (w1 ! j)")
    case (Ready v)
    then show ?thesis using w2(3,4) j by metis
  next
    case (Pointer p)
    then show ?thesis using group_by_file_covers [of j w1 p] w2(3,4) j by metis
  qed
  then have "ready_pairs w2 = Ok ws" using ready_pairs_ok [OF w2(2)] by blast
  then show ?thesis using w1 w2(1) by (simp add: resolve_window_def cbind_def cres_def)
qed

context pair_stream
begin

lemma fill_window_delivers:
  "rest m = rs \<Longrightarrow> ready m \<Longrightarrow> list_all2 (repr_stands crc P vs) rs vals \<Longrightarrow> window_stands crc P vs w ws \<Longrightarrow>
   \<exists>w' ended m' j. fill_window step m w n = Some (Ok (w', ended, m')) \<and> ready m' \<and> rest m' = drop j rs \<and>
     window_stands crc P vs w' (ws @ take j vals) \<and> (ended \<longrightarrow> j = length rs) \<and>
     (length w < prefetch_entries \<and> n < prefetch_bytes \<longrightarrow> (if rs = [] then ended else 0 < j))"
proof (induction rs arbitrary: m w ws n vals)
  case Nil
  obtain m' where "step m = Some (Ok (None, m'))" "ready m'" "rest m' = []"
    using delivers [OF Nil(2)] Nil(1) by auto
  then show ?case using Nil by (subst fill_window.simps) auto
next
  case (Cons r rs)
  obtain v vals' where v: "vals = v # vals'" "repr_stands crc P vs r v" "list_all2 (repr_stands crc P vs) rs vals'"
    using Cons.prems(3) by (auto simp: list_all2_Cons1)
  obtain key repr where r: "r = (key, repr)" by (cases r)
  obtain m1 where m1: "step m = Some (Ok (Some r, m1))" "ready m1" "rest m1 = rs"
    using delivers [OF Cons.prems(2)] Cons.prems(1) by auto
  obtain p k where p: "pending_of key repr = Ok (p, k)" "slot_stands crc P vs (key, p) v"
    using pending_of_stands v(2) r by blast
  have st: "window_stands crc P vs (w @ [(key, p)]) (ws @ [v])" using Cons.prems(4) p(2) by (simp add: list_all2_appendI)
  show ?case
  proof (cases "length w < prefetch_entries \<and> n < prefetch_bytes")
    case True
    obtain w' ended m' j where w': "fill_window step m1 (w @ [(key, p)]) (n + k) = Some (Ok (w', ended, m'))" "ready m'"
      "rest m' = drop j rs" "window_stands crc P vs w' ((ws @ [v]) @ take j vals')" "ended \<longrightarrow> j = length rs"
      using Cons.IH [OF m1(3,2) v(3) st, of "n + k"] by blast
    have "fill_window step m w n = Some (Ok (w', ended, m'))"
      using True m1(1) r p(1) w'(1) by (subst fill_window.simps) simp
    then show ?thesis using w' v(1) by (intro exI [of _ w'] exI [of _ ended] exI [of _ m'] exI [of _ "Suc j"]) simp
  next
    case False
    then have "fill_window step m w n = Some (Ok (w, False, m))" by (subst fill_window.simps) (simp only: False if_False)
    then show ?thesis using False Cons.prems by (intro exI [of _ w] exI [of _ False] exI [of _ m] exI [of _ 0]) auto
  qed
qed

end

section \<open>The iterator delivers the scan\<close>

definition di_inv ::
    "codecs \<Rightarrow> 'm skip_ops \<Rightarrow> ('m \<Rightarrow> entry list) \<Rightarrow> (cache_key \<Rightarrow> bytes \<Rightarrow> bool) \<Rightarrow> 'm db_iterator \<Rightarrow> (bytes \<times> bytes) list \<Rightarrow> bool" where
  "di_inv ex sk ents P s vals \<longleftrightarrow> \<not> di_errored s \<and> cache_holds P (di_cache s) \<and> scan_ready ex sk ents P (di_mvcc s) \<and>
     (di_exhausted s \<longrightarrow> scan_rest ex ents (di_mvcc s) = []) \<and>
     list_all2 (repr_stands (ex_crc ex) P (rv_version (di_view s))) (scan_rest ex ents (di_mvcc s)) vals"

lemma db_iterator_fill_delivers:
  assumes s: "di_inv ex sk ents P s vals" and e: "di_ready s = []" and ho: "order_ok ho"
  shows "\<exists>s' j. db_iterator_fill ex sk ho s = Some (Ok (), s') \<and> di_inv ex sk ents P s' (drop j vals) \<and>
    di_ready s' = take j vals \<and> (vals \<noteq> [] \<longrightarrow> 0 < j)"
proof (cases "di_exhausted s")
  case True
  then have "vals = []" using s by (auto simp: di_inv_def)
  then show ?thesis using True s e by (intro exI [of _ s] exI [of _ 0]) (simp add: db_iterator_fill_def)
next
  case False
  let ?vs = "rv_version (di_view s)" and ?rest = "scan_rest ex ents (di_mvcc s)"
  have st: "list_all2 (repr_stands (ex_crc ex) P ?vs) ?rest vals" and ready: "scan_ready ex sk ents P (di_mvcc s)"
    using s by (simp_all add: di_inv_def)
  obtain w ended m j where w: "fill_window (mvcc_next_visible (view_ops ex sk)) (di_mvcc s) [] 0 = Some (Ok (w, ended, m))"
    "scan_ready ex sk ents P m" "scan_rest ex ents m = drop j ?rest" "window_stands (ex_crc ex) P ?vs w (take j vals)"
    "ended \<longrightarrow> j = length ?rest" "if ?rest = [] then ended else 0 < j"
    using views.fill_window_delivers [OF refl ready st list_all2_Nil [THEN iffD2], of "[]" 0]
    by (auto simp: prefetch_entries_def prefetch_bytes_def)
  obtain c where c: "resolve_window (ex_crc ex) ho ?vs w (di_cache s) = (Ok (take j vals), c)" "cache_holds P c"
    using resolve_window_ok [OF w(4) _ ho] s unfolding di_inv_def by blast
  let ?s = "s\<lparr>di_mvcc := m, di_exhausted := ended, di_cache := c, di_ready := take j vals\<rparr>"
  have "db_iterator_fill ex sk ho s = Some (Ok (), ?s)"
    using False w(1) c(1) e by (simp add: db_iterator_fill_def)
  moreover have "di_inv ex sk ents P ?s (drop j vals)"
    using s w c st by (simp add: di_inv_def list_all2_dropI)
  moreover have "vals \<noteq> [] \<longrightarrow> 0 < j" using w(6) st by (cases ?rest) simp_all
  ultimately show ?thesis by (intro exI [of _ ?s] exI [of _ j]) simp
qed

lemma db_iterator_next_delivers:
  assumes s: "di_inv ex sk ents P s vals" and ho: "order_ok ho"
  shows "\<exists>s' vals'. db_iterator_next ex sk ho s = Some (map_option Ok (hd_opt (di_ready s @ vals)), s') \<and>
    di_inv ex sk ents P s' vals' \<and> di_ready s' @ vals' = tl (di_ready s @ vals)"
proof -
  have pop: "\<exists>s2. pop_ready s1 = (map_option Ok (hd_opt (di_ready s1 @ vals1)), s2) \<and> di_inv ex sk ents P s2 vals1 \<and>
      di_ready s2 @ vals1 = tl (di_ready s1 @ vals1)"
    if "di_inv ex sk ents P s1 vals1" "vals1 \<noteq> [] \<longrightarrow> di_ready s1 \<noteq> []" for s1 vals1
    using that by (cases "di_ready s1") (auto simp: pop_ready_def di_inv_def)
  have err: "\<not> di_errored s" using s by (simp add: di_inv_def)
  show ?thesis
  proof (cases "di_ready s = []")
    case False
    then show ?thesis using pop [OF s] err by (auto simp: db_iterator_next_def)
  next
    case True
    obtain s' j where s': "db_iterator_fill ex sk ho s = Some (Ok (), s')" "di_inv ex sk ents P s' (drop j vals)"
      "di_ready s' = take j vals" "vals \<noteq> [] \<longrightarrow> 0 < j"
      using db_iterator_fill_delivers [OF s True ho] by blast
    have "drop j vals \<noteq> [] \<longrightarrow> di_ready s' \<noteq> []" using s'(3,4) by auto
    from pop [OF s'(2) this] show ?thesis using s'(1,3) True err by (auto simp: db_iterator_next_def)
  qed
qed

lemma db_take_delivers:
  "di_inv ex sk ents P s vals \<Longrightarrow> order_ok ho \<Longrightarrow> db_take ex sk ho n s = Some (take n (di_ready s @ vals))"
proof (induction n arbitrary: s vals)
  case (Suc n)
  obtain s' vals' where s': "db_iterator_next ex sk ho s = Some (map_option Ok (hd_opt (di_ready s @ vals)), s')"
    "di_inv ex sk ents P s' vals'" "di_ready s' @ vals' = tl (di_ready s @ vals)"
    using db_iterator_next_delivers [OF Suc.prems] by blast
  show ?case
  proof (cases "di_ready s @ vals")
    case Nil
    then show ?thesis using s'(1) by simp
  next
    case (Cons p ps)
    then show ?thesis using s' Suc.IH [OF s'(2) Suc.prems(2)] by (cases p) simp
  qed
qed simp

lemma db_iterator_starts:
  assumes v: "view_sound ex sk ents P v" and c: "cache_holds P c"
    and vals: "list_all2 (repr_stands (ex_crc ex) P (rv_version v)) (range_scan (view_entries ex ents v) snap lo hi) vals"
  shows "\<exists>s. db_iterator_new ex sk v c snap lo hi reverse = Ok s \<and>
    di_inv ex sk ents P s (if reverse then rev vals else vals) \<and> di_ready s = []"
proof (cases reverse)
  case False
  then show ?thesis using forward_scan_starts [OF v c, of snap lo hi] vals c
    by (auto simp: db_iterator_new_def di_inv_def)
next
  case True
  then show ?thesis using reverse_scan_starts [OF v c, of snap lo hi] vals c
    by (auto simp: db_iterator_new_def di_inv_def)
qed

end
