(* ===== verification/Reads.thy ===== *)
theory Reads
  imports DbIterator
begin

text \<open>
  The read path end to end: point reads and scans of a read view, with a concrete view to see
  that the hypotheses can be met.
\<close>

section \<open>A concrete view\<close>

definition sample_mem :: "sorted_entries memtable" where
  "sample_mem = memtable_insert list_skip_ops (make_ikey [107] 12 Put) (encode_inline [5])
     (memtable_insert list_skip_ops (make_ikey [106] 11 Put) (encode_inline [4]) (memtable_new se_empty 1))"

definition sample_view :: "run list \<Rightarrow> sorted_entries read_view" where
  "sample_view rs = \<lparr>rv_mem = sample_mem, rv_imms = [],
     rv_version = \<lparr>vs_levels = [rs], vs_vlogs = [], vs_vlog_head_id = 0\<rparr>, rv_visible = 20\<rparr>"

lemma put_entry_Nil: "put_entry ik v [] = [(ik, v)]"
  by (simp add: put_entry_def after_key_def)

lemma vkey_make: "s \<le> max_seqno \<Longrightarrow> vkey_of (make_ikey u s k) = VKey u s (kind_u8 k)"
  by (simp add: vkey_of_def key_simps)

lemma sample_mem_entries:
  "Rep_sorted_entries (mt_map sample_mem) =
    [(make_ikey [106] 11 Put, encode_inline [4]), (make_ikey [107] 12 Put, encode_inline [5])]"
proof -
  have ins: "Rep_sorted_entries (se_insert ik v m) = put_entry ik v (Rep_sorted_entries m)" for ik v m
    using list_skip_ok unfolding skip_ok_def by (simp add: list_skip_ops_def)
  have "put_entry (make_ikey [107] 12 Put) w [(make_ikey [106] 11 Put, x)]
      = [(make_ikey [106] 11 Put, x), (make_ikey [107] 12 Put, w)]" for w x
    by (simp add: put_entry_def after_key_def cmp_ikey_vkey cmp_of_def vkey_make max_seqno_val less_vkey_def key_simps)
  then show ?thesis
    by (simp add: sample_mem_def memtable_insert_def memtable_new_def list_skip_ops_def ins put_entry_Nil
        se_empty_def Abs_sorted_entries_inverse)
qed

lemma sample_view_sound:
  assumes "list_all (run_sound ex P) rs" and "map (run_entries ex) rs = ess"
    and "ess = [] \<or> ess = [sample_entries]"
  shows "view_sound ex list_skip_ops Rep_sorted_entries P (sample_view rs)"
    and "view_layers ex Rep_sorted_entries (sample_view rs) =
      [(make_ikey [106] 11 Put, encode_inline [4]), (make_ikey [107] 12 Put, encode_inline [5])] # ess"
proof -
  show l: "view_layers ex Rep_sorted_entries (sample_view rs) =
      [(make_ikey [106] 11 Put, encode_inline [4]), (make_ikey [107] 12 Put, encode_inline [5])] # ess"
    using assms(2) by (simp add: view_layers_def mem_layers_def version_layers_def sample_view_def runs_newest_first_def
        sample_mem_entries)
  show "view_sound ex list_skip_ops Rep_sorted_entries P (sample_view rs)"
    unfolding view_sound_def l using assms(3)
  proof
    assume "ess = []"
    then show "skip_ok list_skip_ops Rep_sorted_entries \<and> version_sound ex P (rv_version (sample_view rs)) \<and>
        layered ([(make_ikey [106] 11 Put, encode_inline [4]), (make_ikey [107] 12 Put, encode_inline [5])] # ess) \<and>
        list_all entries_kinds ([(make_ikey [106] 11 Put, encode_inline [4]), (make_ikey [107] 12 Put, encode_inline [5])] # ess)"
      using list_skip_ok assms(1) by (simp add: version_sound_def sample_view_def runs_newest_first_def layered_def
        entries_kinds_def key_simps max_seqno_val vkey_make less_vkey_def)
  next
    assume "ess = [sample_entries]"
    then show "skip_ok list_skip_ops Rep_sorted_entries \<and> version_sound ex P (rv_version (sample_view rs)) \<and>
        layered ([(make_ikey [106] 11 Put, encode_inline [4]), (make_ikey [107] 12 Put, encode_inline [5])] # ess) \<and>
        list_all entries_kinds ([(make_ikey [106] 11 Put, encode_inline [4]), (make_ikey [107] 12 Put, encode_inline [5])] # ess)"
      using list_skip_ok assms(1) by (simp add: version_sound_def sample_view_def runs_newest_first_def layered_def newer_layer_def
        sample_entries_def entries_kinds_def key_simps max_seqno_val vkey_make less_vkey_def)
  qed
qed

section \<open>Properties\<close>

text \<open>
  C14: a point read of a view returns the newest version of the key at or below the seqno among
  all entries of the memtables and tables, tombstones included, whichever layer holds it and
  whatever the cache already holds.
\<close>

theorem view_read_newest:
  assumes "view_sound ex sk ents P v" and "cache_holds P c" and "s \<le> max_seqno"
  shows "\<exists>c'. get_versioned ex sk v u s c = (opt_hit (lookup_at (view_entries ex ents v) u s), c') \<and> cache_holds P c'"
  by (rule get_versioned_lookup [OF assms])

lemma sample_table_run:
  "\<exists>t. handle_sound sample_codecs (tables_hold sample_codecs [t]) (table_handle_new 7 0 t) \<and>
     table_entries sample_codecs t = sample_entries"
proof -
  obtain st sz f where b: "table_build sample_codecs (std_file_new []) 4096 1 NoCompression sample_entries = Ok (st, sz, f)"
    "length (sf_data f) < 2 ^ 32" using sample_build by blast
  have "file_clean (std_file_new [])" "sf_data (std_file_new []) = []" by (simp_all add: std_file_new_def file_clean_def)
  from table_build_opens [OF sample_input_ok this, of 4096 NoCompression 7] b
  obtain t where t: "table_sound sample_codecs t" "table_entries sample_codecs t = sample_entries"
    "ts_first_ikey (ta_stats t) = fst (hd sample_entries)" "ts_last_ikey (ta_stats t) = fst (last sample_entries)" by auto
  moreover have "table_on sample_codecs (tables_hold sample_codecs [t]) t" by (rule tables_hold_on) (use t in simp_all)
  ultimately show ?thesis by (auto simp: handle_sound_def table_handle_new_def)
qed

lemma empty_cache_holds: "cache_holds P (cache_new n)"
proof -
  have "cache_content (cache_new n) k = None" for k
    by (simp add: cache_content_def cache_new_def shard_new_def)
  moreover have "cache_ok (cache_new n)" using shard_new_rep by (auto simp: cache_ok_def cache_new_def)
  ultimately show ?thesis by (simp add: blocks.all_cached_def)
qed

theorem view_read_newest_witness:
  "\<exists>t c'. get_versioned sample_codecs list_skip_ops
     (sample_view [\<lparr>rn_id = 1, rn_tables = [table_handle_new 7 0 t]\<rparr>]) [107] 10 (cache_new 1024)
     = (Ok (Some (Put, 9, [1])), c')"
proof -
  obtain t where t: "handle_sound sample_codecs (tables_hold sample_codecs [t]) (table_handle_new 7 0 t)"
    "table_entries sample_codecs t = sample_entries" using sample_table_run by blast
  let ?rs = "[\<lparr>rn_id = 1, rn_tables = [table_handle_new 7 0 t]\<rparr>]" and ?P = "tables_hold sample_codecs [t]"
  have "list_all (run_sound sample_codecs ?P) ?rs" "map (run_entries sample_codecs) ?rs = [sample_entries]"
    using t by (simp_all add: tables_sound_def run_entries_def tables_parts_def table_handle_new_def)
  note v = sample_view_sound [OF this disjI2 [OF refl]]
  have lay: "layered (view_layers sample_codecs Rep_sorted_entries (sample_view ?rs))" using v(1) by (simp add: view_sound_def)
  have "lookup_at (view_entries sample_codecs Rep_sorted_entries (sample_view ?rs)) [107] 10 = Some (make_ikey [107] 9 Put, [1])"
    using first_hit_merge [OF lay, of "[107]" 10] unfolding view_entries_def v(2)
    by (simp add: lookup_at_Cons is_version_def key_simps max_seqno_val sample_entries_def)
  moreover have "opt_hit (Some (make_ikey [107] 9 Put, [1])) = Ok (Some (Put, 9, [1]))"
    by (simp add: opt_hit_def hit_of_def key_simps max_seqno_val)
  ultimately show ?thesis
    using view_read_newest [OF v(1) empty_cache_holds, of 10 "[107]" 1024] by (auto simp: max_seqno_val)
qed

text \<open>
  C13: a scan of a view hands out, in order, exactly the newest visible \<open>Put\<close> of every user key in
  the range, with its value resolved from the record it points to, and then ends; the
  reverse scan hands out the same pairs backwards. Every call returns.
\<close>

theorem scan_delivers_range:
  assumes "view_sound ex sk ents P v" and "cache_holds P c" and "order_ok ho"
    and "list_all2 (repr_stands (ex_crc ex) P (rv_version v)) (range_scan (view_entries ex ents v) snap lo hi) vals"
  shows "\<exists>s. db_iterator_new ex sk v c snap lo hi reverse = Ok s \<and>
    db_take ex sk ho n s = Some (take n (if reverse then rev vals else vals))"
  using db_iterator_starts [OF assms(1,2,4), of reverse] db_take_delivers [OF _ assms(3)] by fastforce

theorem scan_delivers_range_witness:
  "\<exists>s. db_iterator_new sample_codecs list_skip_ops (sample_view []) (cache_new 1024) 20 [] None True = Ok s \<and>
    db_take sample_codecs list_skip_ops (\<lambda>gs. gs) 5 s = Some (take 5 (if True then rev [([106], [4]), ([107], [5])] else []))"
proof -
  let ?P = "\<lambda>_ _. True" and ?v = "sample_view []"
  have v: "view_sound sample_codecs list_skip_ops Rep_sorted_entries ?P ?v"
    "view_layers sample_codecs Rep_sorted_entries ?v =
      [[(make_ikey [106] 11 Put, encode_inline [4]), (make_ikey [107] 12 Put, encode_inline [5])]]"
    using sample_view_sound [of sample_codecs ?P "[]" "[]"] by simp_all
  have "view_entries sample_codecs Rep_sorted_entries ?v = [(make_ikey [106] 11 Put, encode_inline [4]), (make_ikey [107] 12 Put, encode_inline [5])]"
    unfolding view_entries_def v(2)
    by (rule merge_entries_eq) (simp_all add: keys_distinct_def vkey_make max_seqno_val less_vkey_def)
  then have "range_scan (view_entries sample_codecs Rep_sorted_entries ?v) 20 [] None = [([106], encode_inline [4]), ([107], encode_inline [5])]"
    by (simp add: range_scan_def in_range_def scan_list_def List.map_filter_simps visible_put_def lookup_at_Cons is_version_def
        key_simps max_seqno_val)
  then have "list_all2 (repr_stands (ex_crc sample_codecs) ?P (rv_version ?v))
      (range_scan (view_entries sample_codecs Rep_sorted_entries ?v) 20 [] None) [([106], [4]), ([107], [5])]"
    by (simp add: repr_stands_def decode_encode_inline)
  from scan_delivers_range [OF v(1) empty_cache_holds _ this, of "\<lambda>gs. gs" 1024 True 5] show ?thesis
    by (simp add: order_ok_def)
qed

end
