(* ===== verification/Identity.thy ===== *)
theory Identity
  imports Types
begin

text \<open>
  \<open>crates/fluent31/src/identity.rs\<close>: store identity and lineage. SHA-256 is a library the
  source calls: a parameter \<open>sha\<close> from the hashed bytes to the digest, of which the code
  relies on the digest having 32 bytes. Strings are their UTF-8 bytes; \<open>utf8_valid\<close> is
  \<open>String::from_utf8\<close>'s check.
\<close>

section \<open>UTF-8\<close>

definition utf8_cont :: "u8 \<Rightarrow> bool" where
  "utf8_cont b \<longleftrightarrow> 0x80 \<le> b \<and> b \<le> 0xBF"

text \<open>The length of the well-formed sequence a byte string starts with, 0 when there is none.\<close>

definition utf8_seq :: "bytes \<Rightarrow> nat" where
  "utf8_seq bs = (case bs of [] \<Rightarrow> 0 | b # r \<Rightarrow>
     if b < 0x80 then 1
     else if 0xC2 \<le> b \<and> b \<le> 0xDF then
       (if 1 \<le> length r \<and> utf8_cont (r ! 0) then 2 else 0)
     else if 0xE0 \<le> b \<and> b \<le> 0xEF then
       (if 2 \<le> length r \<and> utf8_cont (r ! 0) \<and> utf8_cont (r ! 1)
          \<and> (b = 0xE0 \<longrightarrow> 0xA0 \<le> r ! 0) \<and> (b = 0xED \<longrightarrow> r ! 0 \<le> 0x9F) then 3 else 0)
     else if 0xF0 \<le> b \<and> b \<le> 0xF4 then
       (if 3 \<le> length r \<and> utf8_cont (r ! 0) \<and> utf8_cont (r ! 1) \<and> utf8_cont (r ! 2)
          \<and> (b = 0xF0 \<longrightarrow> 0x90 \<le> r ! 0) \<and> (b = 0xF4 \<longrightarrow> r ! 0 \<le> 0x8F) then 4 else 0)
     else 0)"

function utf8_valid :: "bytes \<Rightarrow> bool" where
  "utf8_valid bs =
     (if bs = [] then True
      else if utf8_seq bs = 0 then False
      else utf8_valid (drop (utf8_seq bs) bs))"
  by pat_completeness auto
termination
  by (relation "measure length") auto

declare utf8_valid.simps [simp del]

lemma utf8_valid_Nil [simp]: "utf8_valid []"
  by (subst utf8_valid.simps) simp

lemma utf8_valid_ascii: "list_all (\<lambda>b. b < 0x80) bs \<Longrightarrow> utf8_valid bs"
proof (induction bs)
  case (Cons b bs)
  then have "utf8_seq (b # bs) = 1" by (simp add: utf8_seq_def)
  with Cons show ?case by (subst utf8_valid.simps) simp
qed simp

text \<open>\<open>String::from_utf8 (...).map_err (...)\<close>.\<close>

definition from_utf8 :: "string \<Rightarrow> bytes \<Rightarrow> bytes res" where
  "from_utf8 msg bs = (if utf8_valid bs then Ok bs else Err (corrupt msg))"

section \<open>Identities\<close>

definition instance_id_len :: nat where "instance_id_len = 16"

record store_identity =
  si_name :: bytes
  si_instance_id :: bytes
  si_parent :: "(bytes \<times> seqno) option"

record pending_fork =
  pf_parent_instance_id :: bytes
  pf_cut_seqno :: seqno
  pf_name :: bytes

text \<open>
  \<open>h16_message\<close> is what the successive \<open>update\<close> calls feed the hash: the domain and the
  parts, each behind its length.
\<close>

definition h16_part :: "bytes \<Rightarrow> bytes" where
  "h16_part p = le_bytes 8 (of_nat (length p) :: u64) @ p"

definition h16_message :: "bytes \<Rightarrow> bytes list \<Rightarrow> bytes" where
  "h16_message domain parts = h16_part domain @ concat (map h16_part parts)"

definition h16 :: "(bytes \<Rightarrow> bytes) \<Rightarrow> bytes \<Rightarrow> bytes list \<Rightarrow> bytes" where
  "h16 sha domain parts = take instance_id_len (sha (h16_message domain parts))"

definition derive_root :: "(bytes \<Rightarrow> bytes) \<Rightarrow> bytes \<Rightarrow> bytes" where
  "derive_root sha name = h16 sha (ascii ''fluent31.identity.v1'') [name]"

definition derive_fork :: "(bytes \<Rightarrow> bytes) \<Rightarrow> bytes \<Rightarrow> seqno \<Rightarrow> bytes \<Rightarrow> bytes" where
  "derive_fork sha parent cut_seqno name =
     h16 sha (ascii ''fluent31.fork.v1'') [parent, le_bytes 8 cut_seqno, name]"

definition identity_root :: "(bytes \<Rightarrow> bytes) \<Rightarrow> bytes \<Rightarrow> store_identity" where
  "identity_root sha name = \<lparr>si_name = name, si_instance_id = derive_root sha name, si_parent = None\<rparr>"

definition pending_mint :: "(bytes \<Rightarrow> bytes) \<Rightarrow> pending_fork \<Rightarrow> store_identity" where
  "pending_mint sha pf = \<lparr>si_name = pf_name pf,
     si_instance_id = derive_fork sha (pf_parent_instance_id pf) (pf_cut_seqno pf) (pf_name pf),
     si_parent = Some (pf_parent_instance_id pf, pf_cut_seqno pf)\<rparr>"

definition hex_digit :: "nat \<Rightarrow> u8" where
  "hex_digit n = (if n < 10 then of_nat (48 + n) else of_nat (87 + n))"

definition hex :: "bytes \<Rightarrow> bytes" where
  "hex bs = concat (map (\<lambda>b. [hex_digit (unat b div 16), hex_digit (unat b mod 16)]) bs)"

definition instance_hex :: "store_identity \<Rightarrow> bytes" where
  "instance_hex si = hex (si_instance_id si)"

definition ascii_alphanumeric :: "u8 \<Rightarrow> bool" where
  "ascii_alphanumeric b \<longleftrightarrow> 48 \<le> b \<and> b \<le> 57 \<or> 65 \<le> b \<and> b \<le> 90 \<or> 97 \<le> b \<and> b \<le> 122"

definition name_byte :: "u8 \<Rightarrow> bool" where
  "name_byte b \<longleftrightarrow> ascii_alphanumeric b \<or> b = 46 \<or> b = 95 \<or> b = 45"

definition validate_store_name :: "bytes \<Rightarrow> unit res" where
  "validate_store_name name =
     (if name \<noteq> [] \<and> length name \<le> 64 \<and> list_all name_byte name \<and> hd name \<noteq> 46
      then Ok ()
      else Err (InvalidArgument
        ''invalid store name {name:?} (use [A-Za-z0-9._-], max 64 chars, no leading dot)''))"

lemma name_byte_ascii: "name_byte b \<Longrightarrow> b < 0x80"
  unfolding name_byte_def ascii_alphanumeric_def by (auto intro: le_less_trans)

lemma validate_store_name_utf8: "validate_store_name name = Ok () \<Longrightarrow> utf8_valid name"
  by (rule utf8_valid_ascii) (auto simp: validate_store_name_def list_all_iff intro: name_byte_ascii split: if_splits)

section \<open>The hashed message determines the lineage\<close>

lemma h16_part_inj:
  assumes "slice_len_ok p" and "slice_len_ok q" and "h16_part p @ us = h16_part q @ vs"
  shows "p = q \<and> us = vs"
proof -
  have l: "le_bytes 8 (of_nat (length p) :: u64) = le_bytes 8 (of_nat (length q) :: u64)"
    and r: "p @ us = q @ vs" using assms(3) by (simp_all add: h16_part_def)
  have "(of_nat (length p) :: u64) = of_nat (length q)" by (metis l from_le_bytes_u64)
  then have "length p = length q" using assms by (metis unat_of_nat_slice)
  with r show ?thesis by simp
qed

lemma h16_parts_inj:
  "list_all slice_len_ok ps \<Longrightarrow> list_all slice_len_ok qs \<Longrightarrow>
   concat (map h16_part ps) = concat (map h16_part qs) \<Longrightarrow> ps = qs"
proof (induction ps arbitrary: qs)
  case Nil
  then show ?case by (cases qs) (auto simp: h16_part_def dest: arg_cong [where f = length])
next
  case (Cons p ps)
  show ?case
  proof (cases qs)
    case Nil
    then show ?thesis using Cons.prems by (auto simp: h16_part_def dest: arg_cong [where f = length])
  next
    case (Cons q qs')
    then have "p = q \<and> concat (map h16_part ps) = concat (map h16_part qs')"
      using Cons.prems by (intro h16_part_inj) auto
    then show ?thesis using Cons.IH [of qs'] Cons Cons.prems by simp
  qed
qed

lemma h16_message_inj:
  assumes "h16_message d ps = h16_message e qs"
    and "slice_len_ok d" "slice_len_ok e" "list_all slice_len_ok ps" "list_all slice_len_ok qs"
  shows "d = e \<and> ps = qs"
  using h16_parts_inj [of "d # ps" "e # qs"] assms by (simp add: h16_message_def)

section \<open>Properties\<close>

text \<open>
  C40: two stores share an instance id only if they share their whole lineage (a fork's
  parent, cut and name), or the truncated digests of two different messages collide: the
  domain separation and the length prefixes leave no other way, and a fork never hashes the
  message of a root.
\<close>

theorem fork_id_determines_lineage:
  assumes "slice_len_ok n" and "slice_len_ok n'" and "length p = instance_id_len" and "length p' = instance_id_len"
    and "inj_on (\<lambda>m. take instance_id_len (sha m)) M"
    and "h16_message (ascii ''fluent31.fork.v1'') [p, le_bytes 8 c, n] \<in> M"
    and "h16_message (ascii ''fluent31.fork.v1'') [p', le_bytes 8 c', n'] \<in> M"
    and "h16_message (ascii ''fluent31.identity.v1'') [n'] \<in> M"
  shows "(derive_fork sha p c n = derive_fork sha p' c' n' \<longleftrightarrow> p = p' \<and> c = c' \<and> n = n')
    \<and> derive_fork sha p c n \<noteq> derive_root sha n'"
proof -
  have ok: "slice_len_ok (le_bytes 8 w)" "slice_len_ok (ascii ''fluent31.fork.v1'')"
    "slice_len_ok (ascii ''fluent31.identity.v1'')" "slice_len_ok p" "slice_len_ok p'" for w :: u64
    using assms by (simp_all add: slice_len_ok_def ascii_def instance_id_len_def)
  have "c = c'" if "le_bytes 8 c = le_bytes 8 c'" by (metis that from_le_bytes_u64)
  moreover have "[p, le_bytes 8 c, n] = [p', le_bytes 8 c', n']" if "derive_fork sha p c n = derive_fork sha p' c' n'"
    using h16_message_inj inj_onD [OF assms(5) _ assms(6,7)] that ok assms(1,2)
    unfolding derive_fork_def h16_def by fastforce
  moreover have False if "derive_fork sha p c n = derive_root sha n'"
    using h16_message_inj [of "ascii ''fluent31.fork.v1''" "[p, le_bytes 8 c, n]" "ascii ''fluent31.identity.v1''" "[n']"]
      inj_onD [OF assms(5) _ assms(6,8)] that ok assms(1,2)
    unfolding derive_fork_def derive_root_def h16_def by simp
  ultimately show ?thesis by blast
qed

lemma le_bytes_zero: "le_bytes 8 (0 :: u64) = [0, 0, 0, 0, 0, 0, 0, 0]"
  by (simp add: eval_nat_numeral)

theorem fork_id_determines_lineage_witness:
  "(derive_fork rev (replicate 16 1) 0 [97] = derive_fork rev (replicate 16 1) 0 [98]
      \<longleftrightarrow> replicate 16 (1 :: u8) = replicate 16 1 \<and> (0 :: u64) = 0 \<and> [97 :: u8] = [98])
    \<and> derive_fork rev (replicate 16 1) 0 [97] \<noteq> derive_root rev [98]"
  by (rule fork_id_determines_lineage [where M = "{h16_message (ascii ''fluent31.fork.v1'') [replicate 16 1, le_bytes 8 (0 :: u64), [97]],
        h16_message (ascii ''fluent31.fork.v1'') [replicate 16 1, le_bytes 8 (0 :: u64), [98]],
        h16_message (ascii ''fluent31.identity.v1'') [[98]]}"])
    (simp_all add: slice_len_ok_def instance_id_len_def h16_message_def h16_part_def ascii_def inj_on_def le_bytes_zero)

end
