(* ===== verification/Stream.thy ===== *)
theory Stream
  imports Batch Identity
begin

text \<open>
  \<open>crates/fluent31/src/db.rs\<close>, the stream tap of the replication surface: committed writes
  fan out to range subscriptions. Each queue is bounded; a subscriber that lags past its bound
  is cut, and its queue emptied, rather than stalling the writer.
\<close>

record raw_entry =
  re_key :: bytes
  re_seqno :: seqno
  re_commit_seqno :: seqno
  re_kind :: value_kind
  re_repr :: bytes

record sub_shared =
  su_lo :: bytes
  su_hi :: "bytes option"
  su_max_bytes :: nat
  su_entries :: "raw_entry list"
  su_bytes :: nat
  su_dropped :: bool

definition sub_in_range :: "sub_shared \<Rightarrow> bytes \<Rightarrow> bool" where
  "sub_in_range s key \<longleftrightarrow> su_lo s \<le> key \<and> (case su_hi s of None \<Rightarrow> True | Some h \<Rightarrow> key < h)"

text \<open>The loop over the batch: \<open>i\<close> is the position of the entry, \<open>c\<close> the seqno of the commit.\<close>

fun offer_entries :: "seqno \<Rightarrow> seqno \<Rightarrow> nat \<Rightarrow> enc_entry list \<Rightarrow> sub_shared \<Rightarrow> sub_shared" where
  "offer_entries base c i [] s = s"
| "offer_entries base c i (e # es) s =
     (if \<not> sub_in_range s (ee_key e) then offer_entries base c (Suc i) es s
      else offer_entries base c (Suc i) es
        (s\<lparr>su_bytes := su_bytes s + (length (ee_key e) + length (ee_repr e) + 32),
           su_entries := su_entries s @ [\<lparr>re_key = ee_key e, re_seqno = base + of_nat i, re_commit_seqno = c,
             re_kind = ee_kind e, re_repr = ee_repr e\<rparr>]\<rparr>))"

definition sub_offer :: "seqno \<Rightarrow> enc_entry list \<Rightarrow> sub_shared \<Rightarrow> sub_shared" where
  "sub_offer base entries s =
     (let s = offer_entries base (base + of_nat (length entries - 1)) 0 entries s
      in if su_max_bytes s < su_bytes s then s\<lparr>su_entries := [], su_bytes := 0, su_dropped := True\<rparr> else s)"

definition hex_prefix :: "bytes \<Rightarrow> bytes" where
  "hex_prefix key = hex (take 16 key)"

record sub_registry =
  sr_subs :: "sub_shared list"
  sr_active :: bool

definition live_subscriptions :: "sub_registry \<Rightarrow> nat" where
  "live_subscriptions r = length (filter (\<lambda>s. \<not> su_dropped s) (sr_subs r))"

definition publish_stream :: "seqno \<Rightarrow> enc_entry list \<Rightarrow> sub_registry \<Rightarrow> sub_registry" where
  "publish_stream base entries r =
     (if \<not> sr_active r then r
      else let subs = map (sub_offer base entries) (filter (\<lambda>s. \<not> su_dropped s) (sr_subs r))
           in \<lparr>sr_subs = subs, sr_active = (subs \<noteq> [])\<rparr>)"

text \<open>The consumer takes everything queued.\<close>

definition sub_drain :: "sub_shared \<Rightarrow> raw_entry list \<times> sub_shared" where
  "sub_drain s = (su_entries s, s\<lparr>su_bytes := 0, su_entries := []\<rparr>)"

definition sub_new :: "bytes \<Rightarrow> bytes option \<Rightarrow> nat \<Rightarrow> sub_shared res" where
  "sub_new lo hi max_bytes =
     (let lo = (if user_keyspace_start \<le> lo then lo else user_keyspace_start)
      in if (case hi of None \<Rightarrow> False | Some h \<Rightarrow> h \<le> lo)
         then Err (InvalidArgument ''subscription range [lo, hi) is empty'')
         else Ok \<lparr>su_lo = lo, su_hi = hi, su_max_bytes = max_bytes, su_entries = [], su_bytes = 0, su_dropped = False\<rparr>)"

definition sub_install :: "sub_shared \<Rightarrow> sub_registry \<Rightarrow> sub_registry" where
  "sub_install s r = \<lparr>sr_subs = sr_subs r @ [s], sr_active = True\<rparr>"

section \<open>What a subscription has been sent\<close>

text \<open>A commit: its base seqno and its entries. The entries a range should see of it.\<close>

definition raw_of :: "seqno \<Rightarrow> enc_entry list \<Rightarrow> nat \<Rightarrow> raw_entry" where
  "raw_of base es i = \<lparr>re_key = ee_key (es ! i), re_seqno = base + of_nat i,
     re_commit_seqno = base + of_nat (length es - 1), re_kind = ee_kind (es ! i), re_repr = ee_repr (es ! i)\<rparr>"

definition commit_in_range :: "sub_shared \<Rightarrow> seqno \<times> enc_entry list \<Rightarrow> raw_entry list" where
  "commit_in_range s = (\<lambda>(base, es).
     map (raw_of base es) (filter (\<lambda>i. sub_in_range s (ee_key (es ! i))) [0..<length es]))"

definition raw_bytes :: "raw_entry list \<Rightarrow> nat" where
  "raw_bytes rs = sum_list (map (\<lambda>r. length (re_key r) + length (re_repr r) + 32) rs)"

definition sub_accounted :: "sub_shared \<Rightarrow> bool" where
  "sub_accounted s \<longleftrightarrow> su_bytes s = raw_bytes (su_entries s)"

lemma raw_bytes_append [simp]: "raw_bytes (xs @ ys) = raw_bytes xs + raw_bytes ys"
  by (simp add: raw_bytes_def)

lemma sub_in_range_cong: "su_lo s' = su_lo s \<Longrightarrow> su_hi s' = su_hi s \<Longrightarrow> sub_in_range s' = sub_in_range s"
  by (simp add: sub_in_range_def fun_eq_iff)

lemma offer_entries_spec:
  assumes "es = drop i full" and "i \<le> length full"
  shows "offer_entries base (base + of_nat (length full - 1)) i es s =
    s\<lparr>su_entries := su_entries s @ map (raw_of base full) (filter (\<lambda>j. sub_in_range s (ee_key (full ! j))) [i..<length full]),
      su_bytes := su_bytes s + raw_bytes (map (raw_of base full) (filter (\<lambda>j. sub_in_range s (ee_key (full ! j))) [i..<length full]))\<rparr>"
  using assms
proof (induction es arbitrary: i s)
  case Nil
  then have "i = length full" by simp
  then show ?case by (simp add: raw_bytes_def)
next
  case (Cons e es)
  have i: "i < length full" "e = full ! i" "es = drop (Suc i) full"
    using Cons.prems by (metis drop_eq_Nil list.distinct(1) not_le, metis nth_via_drop, metis drop_Suc list.sel(3) tl_drop)
  note ih = Cons.IH [OF i(3) Suc_leI [OF i(1)]]
  let ?s = "s\<lparr>su_bytes := su_bytes s + (length (ee_key e) + length (ee_repr e) + 32),
      su_entries := su_entries s @ [raw_of base full i]\<rparr>"
  have r: "sub_in_range ?s = sub_in_range s" by (rule sub_in_range_cong) simp_all
  show ?case
  proof (cases "sub_in_range s (ee_key e)")
    case False
    then show ?thesis using ih [of s] i upt_conv_Cons [OF i(1)] by simp
  next
    case True
    then have "offer_entries base (base + of_nat (length full - 1)) i (e # es) s
      = offer_entries base (base + of_nat (length full - 1)) (Suc i) es ?s"
      using i(2) by (simp add: raw_of_def)
    then show ?thesis using ih [of ?s] True i upt_conv_Cons [OF i(1)] r by (simp add: raw_bytes_def raw_of_def)
  qed
qed

lemma sub_offer_spec:
  "sub_offer base es s =
     (let n = su_bytes s + raw_bytes (commit_in_range s (base, es))
      in if su_max_bytes s < n then s\<lparr>su_entries := [], su_bytes := 0, su_dropped := True\<rparr>
         else s\<lparr>su_entries := su_entries s @ commit_in_range s (base, es), su_bytes := n\<rparr>)"
  unfolding sub_offer_def Let_def offer_entries_spec [OF drop_0 [symmetric] le0] by (simp add: commit_in_range_def)

section \<open>Properties\<close>



end
