(* ===== verification/Config.thy ===== *)
theory Config
  imports Table
begin

text \<open>
  \<open>crates/fluent31/src/config.rs\<close>: the tunables. Durations are in nanoseconds. The one field
  left out is \<open>vlog_gc_ratio\<close>, a floating-point threshold that only the choice of a value-log victim
  uses.
\<close>

datatype sync_mode = Always | Periodic nat | Never

datatype io_backend = Auto | Uring | Std

record options =
  op_create_if_missing :: bool
  op_sync :: sync_mode
  op_io_backend :: io_backend
  op_wasm_enabled :: bool
  op_store_name :: "bytes option"
  op_memtable_size :: nat
  op_max_immutable_memtables :: nat
  op_block_size :: nat
  op_compression :: compression
  op_bloom_bits_per_key :: nat
  op_block_cache_size :: nat
  op_l0_compaction_trigger :: nat
  op_tier_width :: nat
  op_max_levels :: nat
  op_l0_stall_trigger :: nat
  op_target_file_size :: u64
  op_compaction_slice_bytes :: u64
  op_value_threshold :: nat
  op_vlog_file_size :: u64
  op_max_key_size :: nat
  op_max_value_size :: nat
  op_max_txn_write_bytes :: nat
  op_sub_queue_bytes :: nat
  op_wasm_fuel :: u64
  op_wasm_memory_limit :: nat
  op_execute_retries :: nat
  op_max_wasm_input :: nat
  op_max_wasm_output :: nat
  op_max_wasm_log :: nat
  op_max_wasm_scans :: nat
  op_wasm_module_cache :: nat
  op_trigger_batch :: nat
  op_trigger_inline_value :: nat

definition options_default :: options where
  "options_default = \<lparr>
     op_create_if_missing = True,
     op_sync = Always,
     op_io_backend = Auto,
     op_wasm_enabled = True,
     op_store_name = None,
     op_memtable_size = push_bit 20 8,
     op_max_immutable_memtables = 2,
     op_block_size = push_bit 10 8,
     op_compression = NoCompression,
     op_bloom_bits_per_key = 10,
     op_block_cache_size = push_bit 20 64,
     op_l0_compaction_trigger = 4,
     op_tier_width = 4,
     op_max_levels = 7,
     op_l0_stall_trigger = 12,
     op_target_file_size = push_bit 20 64,
     op_compaction_slice_bytes = push_bit 20 1,
     op_value_threshold = 4096,
     op_vlog_file_size = push_bit 20 128,
     op_max_key_size = push_bit 10 16,
     op_max_value_size = push_bit 20 256,
     op_max_txn_write_bytes = push_bit 20 256,
     op_sub_queue_bytes = push_bit 20 8,
     op_wasm_fuel = 1000000000,
     op_wasm_memory_limit = push_bit 20 64,
     op_execute_retries = 3,
     op_max_wasm_input = push_bit 20 64,
     op_max_wasm_output = push_bit 20 32,
     op_max_wasm_log = push_bit 20 1,
     op_max_wasm_scans = 64,
     op_wasm_module_cache = 32,
     op_trigger_batch = 512,
     op_trigger_inline_value = push_bit 10 64\<rparr>"

end
