(* ===== verification/Trigger.thy ===== *)
theory Trigger
  imports Batch Identity Config
begin

text \<open>
  \<open>crates/fluent31/src/trigger.rs\<close>: the durable side of write-range triggers: the reserved key
  ranges of definitions and queues, the records stored there, and the events a committing
  batch enqueues. The runner, which calls into wasmtime, is not part of this theory.
\<close>

section \<open>Reserved ranges\<close>

definition def_prefix :: bytes where "def_prefix = [sys_prefix] @ ascii ''trg'' @ [0]"
definition queue_space_prefix :: bytes where "queue_space_prefix = [sys_prefix] @ ascii ''trgq'' @ [0]"

definition end_of :: "bytes \<Rightarrow> bytes" where "end_of p = butlast p @ [1]"

definition def_space_end :: bytes where "def_space_end = end_of def_prefix"
definition queue_space_end :: bytes where "queue_space_end = end_of queue_space_prefix"

definition queue_prefix :: "bytes \<Rightarrow> bytes" where "queue_prefix name = sys_trigger_event_key name []"
definition queue_prefix_end :: "bytes \<Rightarrow> bytes" where "queue_prefix_end name = end_of (queue_prefix name)"

definition parse_event_key :: "bytes \<Rightarrow> (bytes \<times> bytes) option" where
  "parse_event_key key =
     (if take (length queue_space_prefix) key \<noteq> queue_space_prefix then None
      else let rest = drop (length queue_space_prefix) key;
               sep = length (takeWhile (\<lambda>b. b \<noteq> 0) rest)
           in if sep = length rest then None
              else if \<not> utf8_valid (take sep rest) then None
              else Some (take sep rest, drop (sep + 1) rest))"

section \<open>Definitions\<close>

datatype trigger_mode = Keys | Changes

fun trigger_entry :: "trigger_mode \<Rightarrow> bytes" where
  "trigger_entry Keys = ascii ''on_touch''"
| "trigger_entry Changes = ascii ''on_apply''"

fun trigger_mode_str :: "trigger_mode \<Rightarrow> bytes" where
  "trigger_mode_str Keys = ascii ''keys''"
| "trigger_mode_str Changes = ascii ''changes''"

record trigger_def =
  td_name :: bytes
  td_module :: bytes
  td_lo :: bytes
  td_hi :: bytes
  td_mode :: trigger_mode

definition trigger_matches :: "trigger_def \<Rightarrow> bytes \<Rightarrow> bool" where
  "trigger_matches d key \<longleftrightarrow> (td_lo d = [] \<or> td_lo d \<le> key) \<and> (td_hi d = [] \<or> key < td_hi d)"

definition encode_def :: "trigger_def \<Rightarrow> bytes" where
  "encode_def d =
     (let out = (case td_mode d of Keys \<Rightarrow> [1] | Changes \<Rightarrow> [2]);
          out = put_len_prefixed out (td_name d);
          out = put_len_prefixed out (td_module d);
          out = put_len_prefixed out (td_lo d);
          out = put_len_prefixed out (td_hi d)
      in if td_mode d = Changes then out @ [1] else out)"

definition decode_def :: "bytes \<Rightarrow> trigger_def res" where
  "decode_def buf =
     rbind (reader_u8 (reader_new buf)) (\<lambda>(ver, r).
     if ver \<noteq> 1 \<and> ver \<noteq> 2 then Err (corrupt ''bad trigger record version {ver}'') else
     rbind (reader_len_prefixed r) (\<lambda>(bs, r).
     rbind (from_utf8 ''trigger name is not utf-8'' bs) (\<lambda>name.
     rbind (reader_len_prefixed r) (\<lambda>(bs, r).
     rbind (from_utf8 ''trigger module name is not utf-8'' bs) (\<lambda>module.
     rbind (reader_len_prefixed r) (\<lambda>(lo, r).
     rbind (reader_len_prefixed r) (\<lambda>(hi, r).
     rbind (if ver = 1 then Ok (Keys, r)
            else rbind (reader_u8 r) (\<lambda>(m, r).
              if m = 0 then Ok (Keys, r) else if m = 1 then Ok (Changes, r)
              else Err (corrupt ''bad trigger mode {m}''))) (\<lambda>(mode, r).
       Ok \<lparr>td_name = name, td_module = module, td_lo = lo, td_hi = hi, td_mode = mode\<rparr>))))))))"

definition validate_trigger_name :: "bytes \<Rightarrow> unit res" where
  "validate_trigger_name name =
     (if name \<noteq> [] \<and> length name \<le> 64 \<and> list_all name_byte name then Ok ()
      else Err (InvalidArgument ''invalid trigger name {name:?} (use [A-Za-z0-9._-], max 64 chars)''))"

section \<open>Change records\<close>

definition change_record_v1 :: u8 where "change_record_v1 = 1"
definition change_put :: u8 where "change_put = 0"
definition change_delete :: u8 where "change_delete = 1"
definition change_put_elided :: u8 where "change_put_elided = 2"

definition change_parts :: "batch_op \<Rightarrow> nat \<Rightarrow> u8 \<times> bytes \<times> bytes" where
  "change_parts bop inline_cap = (case bop of
     OpPut key val \<Rightarrow> if length val \<le> inline_cap then (change_put, key, val) else (change_put_elided, key, [])
   | OpDelete key \<Rightarrow> (change_delete, key, []))"

definition encode_change_record :: "batch_op \<Rightarrow> nat \<Rightarrow> bytes" where
  "encode_change_record bop inline_cap =
     (let (kind, key, val) = change_parts bop inline_cap;
          out = [change_record_v1, kind];
          out = put_uvarint out (of_nat (length key))
      in out @ key @ val)"

definition decode_change_record :: "bytes \<Rightarrow> (u8 \<times> bytes \<times> bytes) res" where
  "decode_change_record buf =
     rbind (reader_u8 (reader_new buf)) (\<lambda>(v, r).
     if v \<noteq> change_record_v1 then Err (corrupt ''bad change record version {v}'') else
     rbind (reader_u8 r) (\<lambda>(kind, r).
     if change_put_elided < kind then Err (corrupt ''bad change record kind {kind}'') else
     rbind (reader_uvarint r) (\<lambda>(klen, r).
     if reader_remaining r < unat klen then Err (corrupt ''change record truncated'') else
     rbind (reader_bytes (unat klen) r) (\<lambda>(key, r).
     rbind (reader_bytes (reader_remaining r) r) (\<lambda>(val, r).
       if kind \<noteq> change_put \<and> val \<noteq> [] then Err (corrupt ''change record has a value but no put kind'')
       else Ok (kind, key, val))))))"

section \<open>The runner's failure state\<close>

record runner_status =
  rs_failures :: u32
  rs_not_before :: nat
  rs_last_error :: bytes

record trigger_state =
  ts_defs :: "trigger_def list"
  ts_status :: "bytes \<Rightarrow> runner_status option"

definition trigger_state_new :: trigger_state where
  "trigger_state_new = \<lparr>ts_defs = [], ts_status = Map.empty\<rparr>"

definition trigger_lookup :: "bytes \<Rightarrow> trigger_state \<Rightarrow> trigger_def option" where
  "trigger_lookup name t = find (\<lambda>d. td_name d = name) (ts_defs t)"

definition trigger_in_backoff :: "nat \<Rightarrow> bytes \<Rightarrow> trigger_state \<Rightarrow> bool" where
  "trigger_in_backoff now name t = (case ts_status t name of None \<Rightarrow> False | Some s \<Rightarrow> now < rs_not_before s)"

text \<open>\<open>is_char_boundary\<close>: not inside a multi-byte sequence. Times are in milliseconds.\<close>

fun boundary_at :: "bytes \<Rightarrow> nat \<Rightarrow> nat" where
  "boundary_at msg 0 = 0"
| "boundary_at msg (Suc n) = (if utf8_cont (msg ! Suc n) then boundary_at msg n else Suc n)"

definition truncate_error :: "bytes \<Rightarrow> bytes" where
  "truncate_error msg =
     (if 500 < length msg then take (boundary_at msg 500) msg @ [0xE2, 0x80, 0xA6] else msg)"

definition trigger_record_failure :: "nat \<Rightarrow> bytes \<Rightarrow> bytes \<Rightarrow> trigger_state \<Rightarrow> (u32 \<times> nat) \<times> trigger_state" where
  "trigger_record_failure now name msg t =
     (let s = (case ts_status t name of
                 Some s \<Rightarrow> s | None \<Rightarrow> \<lparr>rs_failures = 0, rs_not_before = now, rs_last_error = []\<rparr>);
          failures = (if rs_failures s = - 1 then - 1 else rs_failures s + 1);
          backoff = push_bit (min (unat failures - 1) 6) 100;
          s = s\<lparr>rs_failures := failures, rs_not_before := now + backoff, rs_last_error := truncate_error msg\<rparr>
      in ((failures, backoff), t\<lparr>ts_status := (ts_status t)(name \<mapsto> s)\<rparr>))"

definition trigger_clear_status :: "bytes \<Rightarrow> trigger_state \<Rightarrow> trigger_state" where
  "trigger_clear_status name t = t\<lparr>ts_status := (ts_status t)(name := None)\<rparr>"

definition trigger_last_error :: "bytes \<Rightarrow> trigger_state \<Rightarrow> bytes option" where
  "trigger_last_error name t = map_option rs_last_error (ts_status t name)"

section \<open>Capture\<close>

definition inline_cap_of :: "options \<Rightarrow> nat" where
  "inline_cap_of opts = min (op_trigger_inline_value opts) (op_max_wasm_input opts - (op_max_key_size opts + 64))"

text \<open>One operation against the definitions in order: the keyed events, then the changes.\<close>

fun capture_op :: "nat \<Rightarrow> seqno \<Rightarrow> batch_op \<Rightarrow> trigger_def list \<Rightarrow> bytes list \<times> batch_op list" where
  "capture_op cap seq bop [] = ([], [])"
| "capture_op cap seq bop (d # ds) =
     (let (keyed, changes) = capture_op cap seq bop ds
      in if \<not> trigger_matches d (op_key bop) then (keyed, changes)
         else case td_mode d of
                Keys \<Rightarrow> (sys_trigger_event_key (td_name d) (op_key bop) # keyed, changes)
              | Changes \<Rightarrow> (keyed, OpPut (sys_trigger_change_key (td_name d) seq) (encode_change_record bop cap) # changes))"

fun capture_loop :: "trigger_def list \<Rightarrow> nat \<Rightarrow> seqno \<Rightarrow> nat \<Rightarrow> batch_op list \<Rightarrow> bytes list \<times> batch_op list" where
  "capture_loop defs cap base i [] = ([], [])"
| "capture_loop defs cap base i (bop # bops) =
     (let (keyed, changes) = capture_loop defs cap base (Suc i) bops
      in if op_key bop \<noteq> [] \<and> hd (op_key bop) = sys_prefix then (keyed, changes)
         else let (k, c) = capture_op cap (base + of_nat i) bop defs in (k @ keyed, c @ changes))"

definition capture_ops :: "trigger_def list \<Rightarrow> batch_op list \<Rightarrow> seqno \<Rightarrow> options \<Rightarrow> batch_op list" where
  "capture_ops defs bops base opts =
     (if defs = [] then []
      else let (keyed, changes) = capture_loop defs (inline_cap_of opts) base 0 bops
           in map (\<lambda>key. OpPut key []) (remdups_adj (sort keyed)) @ changes)"

section \<open>Order of the queue keys\<close>

lemma list_less_snoc:
  "length xs = length ys \<Longrightarrow> xs @ [x] < ys @ [y] \<longleftrightarrow> xs < ys \<or> xs = ys \<and> x < (y :: 'a::linorder)"
proof (induction xs ys rule: list_induct2)
  case (Cons a xs b ys)
  then show ?case by (cases "a = b") auto
qed simp

lemma be_bytes_Suc: "be_bytes (Suc n) v = be_bytes n (drop_bit 8 v) @ [ucast v]"
  by (simp add: be_bytes_def)

lemma be_bytes_order:
  fixes a b :: "'a::len word"
  assumes "8 \<le> LENGTH('a)"
  shows "(be_bytes n a < be_bytes n b \<longleftrightarrow> unat a mod 256 ^ n < unat b mod 256 ^ n)
    \<and> (be_bytes n a = be_bytes n b \<longleftrightarrow> unat a mod 256 ^ n = unat b mod 256 ^ n)"
proof (induction n arbitrary: a b)
  case (Suc n)
  have u: "unat (ucast v :: u8) = unat v mod 256" for v :: "'a word"
    by (simp add: unsigned_ucast_eq take_bit_eq_mod)
  have m: "unat v mod 256 ^ Suc n = 256 * (unat v div 256 mod 256 ^ n) + unat v mod 256" for v :: "'a word"
    by (simp add: mod_mult2_eq)
  have r: "unat v mod 256 < 256" for v :: "'a word" by simp
  have d: "unat (drop_bit 8 v) = unat v div 256" for v :: "'a word" by simp
  have e: "256 * x + r < 256 * y + s \<longleftrightarrow> x < y \<or> x = y \<and> r < s" "256 * x + r = 256 * y + s \<longleftrightarrow> x = y \<and> r = s"
    if "r < 256" "s < 256" for x y r s :: nat
    by (cases x y rule: linorder_cases; use that in \<open>auto dest!: less_imp_Suc_add\<close>)+
  have w: "(ucast a :: u8) < ucast b \<longleftrightarrow> unat a mod 256 < unat b mod 256"
    "(ucast a :: u8) = ucast b \<longleftrightarrow> unat a mod 256 = unat b mod 256"
    unfolding word_less_nat_alt word_unat_eq_iff u by (rule refl)+
  note ih = Suc.IH [of "drop_bit 8 a" "drop_bit 8 b", unfolded d]
  show ?case
    unfolding be_bytes_Suc m list_less_snoc [OF trans [OF length_be_bytes length_be_bytes [symmetric]]] e [OF r [of a] r [of b]] append1_eq_conv
    using ih w by blast
qed (simp add: be_bytes_def)

lemma be_bytes_less_u64: "be_bytes 8 (a :: u64) < be_bytes 8 b \<longleftrightarrow> a < b"
proof -
  have "unat a < 256 ^ 8" "unat b < 256 ^ 8" using unat_u64_less [of a] unat_u64_less [of b] by simp_all
  then show ?thesis using be_bytes_order [of 8 a b] by (simp add: word_less_nat_alt)
qed

lemma takeWhile_name: "0 \<notin> set name \<Longrightarrow> takeWhile (\<lambda>b. b \<noteq> 0) (name @ 0 # k) = (name :: bytes)"
  by (induction name) auto

lemma parse_event_key_of:
  assumes "utf8_valid name" and "0 \<notin> set name"
  shows "parse_event_key (sys_trigger_event_key name k) = Some (name, k)"
proof -
  have "sys_trigger_event_key name k = queue_space_prefix @ name @ 0 # k"
    by (simp add: sys_trigger_event_key_def queue_space_prefix_def)
  then show ?thesis using assms by (simp add: parse_event_key_def takeWhile_name Let_def)
qed

lemma range_of_prefix:
  assumes "p = q @ [0]"
  shows "p \<le> key \<and> key < q @ [1] \<longleftrightarrow> (\<exists>k. key = p @ (k :: bytes))"
  using assms
proof (induction q arbitrary: p key)
  case Nil
  show ?case
  proof (cases key)
    case (Cons b bs)
    have "b < 1 \<longleftrightarrow> b = 0" by (simp add: word_less_nat_alt unat_eq_zero)
    then show ?thesis using Nil Cons list_Nil_least [of bs] by (auto simp: le_less)
  qed (use Nil in simp)
next
  case (Cons a q)
  show ?case
  proof (cases key)
    case (Cons b bs)
    then show ?thesis using Cons.prems Cons.IH [of "q @ [0]" bs] by (cases "a = b") auto
  qed (use Cons.prems in simp)
qed

text \<open>The queue of a trigger is a key range; names hold no zero byte, so the ranges are disjoint.\<close>

definition in_queue :: "bytes \<Rightarrow> bytes \<Rightarrow> bool" where
  "in_queue name key \<longleftrightarrow> queue_prefix name \<le> key \<and> key < queue_prefix_end name"

lemma validate_trigger_name_bytes:
  "validate_trigger_name name = Ok () \<Longrightarrow> utf8_valid name \<and> 0 \<notin> set name"
proof -
  assume "validate_trigger_name name = Ok ()"
  then have n: "list_all name_byte name" by (simp add: validate_trigger_name_def split: if_splits)
  have "\<not> name_byte 0" by (simp add: name_byte_def ascii_alphanumeric_def)
  with n show ?thesis by (auto simp: list_all_iff intro!: utf8_valid_ascii name_byte_ascii)
qed

lemma in_queue_iff: "in_queue name key \<longleftrightarrow> (\<exists>k. key = sys_trigger_event_key name k)"
proof -
  let ?q = "[sys_prefix] @ ascii ''trgq'' @ [0] @ name"
  have "queue_prefix name = ?q @ [0]" by (simp add: queue_prefix_def sys_trigger_event_key_def)
  moreover from this have "queue_prefix_end name = ?q @ [1]" by (simp add: queue_prefix_end_def end_of_def butlast_append)
  ultimately show ?thesis using range_of_prefix [of "queue_prefix name" ?q key]
    by (simp add: in_queue_def sys_trigger_event_key_def)
qed

lemma event_key_inj:
  assumes "0 \<notin> set n" and "0 \<notin> set n'"
  shows "sys_trigger_event_key n k = sys_trigger_event_key n' k' \<longleftrightarrow> n = n' \<and> k = k'"
proof
  assume "sys_trigger_event_key n k = sys_trigger_event_key n' k'"
  then have e: "n @ 0 # k = n' @ 0 # k'" by (simp add: sys_trigger_event_key_def)
  then have "n = n'" using takeWhile_name assms by metis
  with e show "n = n' \<and> k = k'" by simp
qed simp

lemma in_queue_event_key:
  "0 \<notin> set n \<Longrightarrow> 0 \<notin> set n' \<Longrightarrow> in_queue n (sys_trigger_event_key n' k) \<longleftrightarrow> n' = n"
  by (auto simp: in_queue_iff event_key_inj)

lemma change_key_event_key: "sys_trigger_change_key n s = sys_trigger_event_key n (be_bytes 8 s)"
  by (simp add: sys_trigger_change_key_def sys_trigger_event_key_def)

section \<open>What a batch enqueues\<close>

definition user_op :: "batch_op \<Rightarrow> bool" where
  "user_op bop \<longleftrightarrow> \<not> (op_key bop \<noteq> [] \<and> hd (op_key bop) = sys_prefix)"

definition change_event :: "options \<Rightarrow> trigger_def \<Rightarrow> seqno \<Rightarrow> batch_op \<Rightarrow> batch_op" where
  "change_event opts d seq bop =
     OpPut (sys_trigger_change_key (td_name d) seq) (encode_change_record bop (inline_cap_of opts))"

text \<open>The names of a registry: distinct, without zero bytes.\<close>

definition defs_ok :: "trigger_def list \<Rightarrow> bool" where
  "defs_ok defs \<longleftrightarrow> distinct (map td_name defs) \<and> (\<forall>d \<in> set defs. 0 \<notin> set (td_name d))"

lemma set_capture_op_keyed:
  "set (fst (capture_op cap seq bop ds)) =
     {sys_trigger_event_key (td_name d) (op_key bop) | d. d \<in> set ds \<and> td_mode d = Keys \<and> trigger_matches d (op_key bop)}"
  by (induction ds) (auto simp: split_def Let_def split: trigger_mode.splits)

lemma set_capture_loop_keyed:
  "set (fst (capture_loop defs cap base i bops)) =
     {sys_trigger_event_key (td_name d) (op_key bop) | d bop. bop \<in> set bops \<and> user_op bop \<and> d \<in> set defs \<and> td_mode d = Keys
        \<and> trigger_matches d (op_key bop)}"
proof (induction bops arbitrary: i)
  case (Cons bop bops)
  show ?case
    using Cons.IH [of "Suc i"] set_capture_op_keyed [of cap "base + of_nat i" bop defs]
    by (cases "user_op bop") (auto simp: split_def Let_def user_op_def)
qed simp

lemma capture_op_changes:
  assumes "defs_ok ds" and "0 \<notin> set n"
  shows "filter (\<lambda>e. in_queue n (op_key e)) (snd (capture_op (inline_cap_of opts) seq bop ds)) =
    (case find (\<lambda>d. td_name d = n) ds of
       Some d \<Rightarrow> if td_mode d = Changes \<and> trigger_matches d (op_key bop) then [change_event opts d seq bop] else []
     | None \<Rightarrow> [])"
  using assms
proof (induction ds)
  case (Cons d ds)
  have ok: "defs_ok ds" "0 \<notin> set (td_name d)" using Cons.prems by (simp_all add: defs_ok_def)
  have nf: "find (\<lambda>d. td_name d = n) ds = None" if "td_name d = n"
    using Cons.prems(1) that by (simp add: defs_ok_def find_None_iff) (metis imageI)
  have q: "in_queue n (sys_trigger_change_key (td_name d) seq) \<longleftrightarrow> td_name d = n"
    using in_queue_event_key [OF Cons.prems(2) ok(2)] by (simp add: change_key_event_key)
  note ih = Cons.IH [OF ok(1) Cons.prems(2)]
  show ?case
    using ih q nf by (cases "td_mode d") (auto simp: split_def Let_def change_event_def split: option.splits)
qed simp

lemma capture_loop_changes:
  assumes "defs_ok defs" and "d \<in> set defs" and "td_mode d = Changes"
  shows "filter (\<lambda>e. in_queue (td_name d) (op_key e)) (snd (capture_loop defs (inline_cap_of opts) base i bops)) =
    map (\<lambda>j. change_event opts d (base + of_nat (i + j)) (bops ! j))
      (filter (\<lambda>j. user_op (bops ! j) \<and> trigger_matches d (op_key (bops ! j))) [0..<length bops])"
proof (induction bops arbitrary: i)
  case (Cons bop bops)
  have n: "0 \<notin> set (td_name d)" using assms by (simp add: defs_ok_def)
  have f: "find (\<lambda>d'. td_name d' = td_name d) defs = Some d"
    using assms(1,2) by (induction defs) (auto simp: defs_ok_def)
  have u: "[0..<length (bop # bops)] = 0 # map Suc [0..<length bops]" by (simp add: upt_conv_Cons map_Suc_upt del: upt_Suc)
  show ?case
    unfolding u using Cons.IH [of "Suc i"] capture_op_changes [OF assms(1) n, of opts "base + of_nat i" bop] f assms(3)
    by (auto simp: split_def Let_def user_op_def filter_map comp_def algebra_simps)
qed simp

lemma keyed_events_not_in_queue:
  assumes "defs_ok defs" and "d \<in> set defs" and "td_mode d = Changes"
    and "key \<in> set (fst (capture_loop defs cap base i bops))"
  shows "\<not> in_queue (td_name d) key"
proof -
  obtain d' bop where d': "key = sys_trigger_event_key (td_name d') (op_key bop)" "d' \<in> set defs" "td_mode d' = Keys"
    using assms(4) unfolding set_capture_loop_keyed by blast
  then have "td_name d' \<noteq> td_name d" using assms unfolding defs_ok_def by (metis distinct_map inj_onD trigger_mode.distinct(1))
  then show ?thesis using in_queue_event_key [of "td_name d" "td_name d'"] d' assms(1,2) by (auto simp: defs_ok_def)
qed

lemma capture_op_changes_kinds:
  "e \<in> set (snd (capture_op cap seq bop ds)) \<Longrightarrow> \<exists>k. e = OpPut k (encode_change_record bop cap)"
  by (induction ds) (auto simp: split_def Let_def split: if_splits trigger_mode.splits)

lemma capture_loop_changes_kinds:
  "e \<in> set (snd (capture_loop defs cap base i bops)) \<Longrightarrow> \<exists>k bop. e = OpPut k (encode_change_record bop cap)"
proof (induction bops arbitrary: i)
  case (Cons bop bops)
  then have "e \<in> set (snd (capture_loop defs cap base (Suc i) bops))
      \<or> e \<in> set (snd (capture_op cap (base + of_nat i) bop defs))"
    by (auto simp: split_def Let_def split: if_splits)
  then show ?case using Cons.IH capture_op_changes_kinds by blast
qed simp

lemma encode_change_record_not_Nil [simp]: "encode_change_record bop cap \<noteq> []"
  by (simp add: encode_change_record_def split_def codec_simps Let_def)

lemma distinct_remdups_adj: "sorted xs \<Longrightarrow> distinct (remdups_adj (xs :: 'a::linorder list))"
  by (induction xs rule: remdups_adj.induct) auto

lemma count_keyed:
  "count_list (map (\<lambda>key. OpPut key []) (remdups_adj (sort keyed))) (OpPut k []) = (if k \<in> set keyed then 1 else 0)"
proof -
  have "count_list ys k = (if k \<in> set ys then 1 else 0)" if "distinct ys" for ys :: "bytes list"
    using that by (induction ys) auto
  moreover have "count_list (map (\<lambda>key. OpPut key []) ys) (OpPut k []) = count_list ys k" for ys
    by (induction ys) auto
  ultimately show ?thesis using distinct_remdups_adj [of "sort keyed"] by simp
qed

section \<open>Properties\<close>

text \<open>
  C34: what a committing batch adds to the queue of a changes-mode trigger is one event per
  operation it wrote in the trigger's range, none for the engine's own keys, in the order of
  the commit, each under the operation's own seqno; iteration over the queue keeps that order.
\<close>

theorem capture_changes_in_commit_order:
  assumes "defs_ok defs" and "d \<in> set defs" and "td_mode d = Changes"
  shows "filter (\<lambda>e. in_queue (td_name d) (op_key e)) (capture_ops defs bops base opts) =
      map (\<lambda>j. change_event opts d (base + of_nat j) (bops ! j))
        (filter (\<lambda>j. user_op (bops ! j) \<and> trigger_matches d (op_key (bops ! j))) [0..<length bops])
    \<and> (\<forall>s s'. op_key (change_event opts d s bop) < op_key (change_event opts d s' bop') \<longleftrightarrow> s < s')"
proof -
  have "defs \<noteq> []" using assms(2) by auto
  obtain keyed changes where l: "capture_loop defs (inline_cap_of opts) base 0 bops = (keyed, changes)" by fastforce
  have "filter (\<lambda>e. in_queue (td_name d) (op_key e)) (map (\<lambda>key. OpPut key []) (remdups_adj (sort keyed))) = []"
    using keyed_events_not_in_queue [OF assms, of _ "inline_cap_of opts" base 0 bops] l
    by (auto simp: filter_empty_conv)
  then have "filter (\<lambda>e. in_queue (td_name d) (op_key e)) (capture_ops defs bops base opts) =
      map (\<lambda>j. change_event opts d (base + of_nat j) (bops ! j))
        (filter (\<lambda>j. user_op (bops ! j) \<and> trigger_matches d (op_key (bops ! j))) [0..<length bops])"
    using capture_loop_changes [OF assms, of opts base 0 bops] l \<open>defs \<noteq> []\<close> by (simp add: capture_ops_def)
  then show ?thesis by (simp add: change_event_def sys_trigger_change_key_def be_bytes_less_u64)
qed

theorem capture_changes_in_commit_order_witness:
  "filter (\<lambda>e. in_queue [116] (op_key e))
     (capture_ops [\<lparr>td_name = [116], td_module = [109], td_lo = [], td_hi = [], td_mode = Changes\<rparr>]
        [OpPut [97] [1], OpDelete [98]] 7 options_default) =
   map (\<lambda>j. change_event options_default \<lparr>td_name = [116], td_module = [109], td_lo = [], td_hi = [], td_mode = Changes\<rparr>
       (7 + of_nat j) ([OpPut [97] [1], OpDelete [98]] ! j)) [0, 1]"
proof -
  let ?d = "\<lparr>td_name = [116], td_module = [109], td_lo = [], td_hi = [], td_mode = Changes\<rparr>"
  have "filter (\<lambda>j. user_op ([OpPut [97] [1], OpDelete [98]] ! j) \<and> trigger_matches ?d (op_key ([OpPut [97] [1], OpDelete [98]] ! j)))
      [0..<length [OpPut [97] [1], OpDelete [98]]] = [0, 1]"
    by (simp add: user_op_def trigger_matches_def sys_prefix_def upt_conv_Cons)
  then show ?thesis
    using capture_changes_in_commit_order [of "[?d]" ?d "[OpPut [97] [1], OpDelete [98]]" 7 options_default]
    by (simp add: defs_ok_def)
qed



text \<open>
  C36: a trigger definition reads back as it was stored, and the change record of an operation
  reads back as its kind, its key and, when it fits the inline bound, its value.
\<close>

theorem trigger_records_roundtrip:
  assumes "utf8_valid (td_name d)" and "utf8_valid (td_module d)"
    and "slice_len_ok (td_name d)" "slice_len_ok (td_module d)" "slice_len_ok (td_lo d)" "slice_len_ok (td_hi d)"
    and "slice_len_ok (op_key bop)"
  shows "decode_def (encode_def d) = Ok d
    \<and> decode_change_record (encode_change_record bop cap) = Ok (change_parts bop cap)"
proof
  let ?mode = "if td_mode d = Changes then [1] else []" and ?ver = "case td_mode d of Keys \<Rightarrow> 1 | Changes \<Rightarrow> 2"
  have e: "encode_def d = enc_u8 ?ver @ enc_len_prefixed (td_name d) @ enc_len_prefixed (td_module d)
      @ enc_len_prefixed (td_lo d) @ enc_len_prefixed (td_hi d) @ ?mode"
    by (cases "td_mode d") (simp_all add: encode_def_def codec_simps enc_u8_def)
  obtain r1 where r1: "reader_u8 (reader_new (encode_def d)) = Ok (?ver, r1)" "reader_rest r1 = drop 1 (encode_def d)"
    using u8c.dec_enc_rest [OF TrueI, of "reader_new (encode_def d)" ?ver] e by auto
  obtain r2 where r2: "reader_len_prefixed r1 = Ok (td_name d, r2)" "reader_rest r2 = enc_len_prefixed (td_module d)
      @ enc_len_prefixed (td_lo d) @ enc_len_prefixed (td_hi d) @ ?mode"
    using lenc.dec_enc_rest [OF assms(3), of r1] r1(2) e by (auto simp: enc_u8_def)
  obtain r3 where r3: "reader_len_prefixed r2 = Ok (td_module d, r3)" "reader_rest r3 = enc_len_prefixed (td_lo d)
      @ enc_len_prefixed (td_hi d) @ ?mode"
    using lenc.dec_enc_rest [OF assms(4) r2(2)] by auto
  obtain r4 where r4: "reader_len_prefixed r3 = Ok (td_lo d, r4)" "reader_rest r4 = enc_len_prefixed (td_hi d) @ ?mode"
    using lenc.dec_enc_rest [OF assms(5) r3(2)] by auto
  obtain r5 where r5: "reader_len_prefixed r4 = Ok (td_hi d, r5)" "reader_rest r5 = ?mode"
    using lenc.dec_enc_rest [OF assms(6) r4(2)] by auto
  have m: "td_mode d = Changes \<Longrightarrow> \<exists>r6. reader_u8 r5 = Ok (1, r6)"
    using u8c.dec_enc_rest [OF TrueI, of r5 1 "[]"] r5(2) by (auto simp: enc_u8_def)
  show "decode_def (encode_def d) = Ok d"
    using r1(1) r2(1) r3(1) r4(1) r5(1) m assms(1,2)
    by (cases "td_mode d") (auto simp: decode_def_def from_utf8_def)
  obtain kind key val where p: "change_parts bop cap = (kind, key, val)" by (cases "change_parts bop cap")
  have k: "key = op_key bop" "kind \<le> change_put_elided" "kind \<noteq> change_put \<Longrightarrow> val = []"
    using p by (auto simp: change_parts_def change_put_def change_delete_def change_put_elided_def split: batch_op.splits if_splits)
  let ?b = "encode_change_record bop cap"
  have eb: "?b = enc_u8 change_record_v1 @ enc_u8 kind @ uvarint (of_nat (length key)) @ key @ val"
    using p by (simp add: encode_change_record_def codec_simps enc_u8_def)
  obtain s1 where s1: "reader_u8 (reader_new ?b) = Ok (change_record_v1, s1)"
    "reader_rest s1 = enc_u8 kind @ uvarint (of_nat (length key)) @ key @ val"
    using u8c.dec_enc_rest [OF TrueI, of "reader_new ?b" change_record_v1] eb by auto
  obtain s2 where s2: "reader_u8 s1 = Ok (kind, s2)" "reader_rest s2 = uvarint (of_nat (length key)) @ key @ val"
    using u8c.dec_enc_rest [OF TrueI s1(2)] by auto
  obtain s3 where s3: "reader_uvarint s2 = Ok (of_nat (length key), s3)" "reader_rest s3 = key @ val"
    using uvarintc.dec_enc_rest [OF TrueI s2(2)] by auto
  have n: "unat (of_nat (length key) :: u64) = length key" using assms(7) k(1) by simp
  show "decode_change_record ?b = Ok (change_parts bop cap)"
    using s1(1) s2(1) s3 n k p
    by (cases "kind = change_put") (simp_all add: decode_change_record_def reader_remaining_rest reader_bytes_rest reader_rest_advance not_less [symmetric])
qed

theorem trigger_records_roundtrip_witness:
  "decode_def (encode_def \<lparr>td_name = [116], td_module = [109], td_lo = [97], td_hi = [], td_mode = Changes\<rparr>)
      = Ok \<lparr>td_name = [116], td_module = [109], td_lo = [97], td_hi = [], td_mode = Changes\<rparr>
    \<and> decode_change_record (encode_change_record (OpPut [97] [1, 2]) 1) = Ok (change_parts (OpPut [97] [1, 2]) 1)"
  by (rule trigger_records_roundtrip) (simp_all add: utf8_valid_ascii slice_len_ok_def)

end
