(* ===== verification/Treemap.thy ===== *)
theory Treemap
  imports Prelude
begin

text \<open>
  The ordered maps and sets of the standard library (\<open>BTreeMap\<close>, \<open>BTreeSet\<close>) as the engine
  uses them: an association list in ascending key order, one entry per key. \<open>tm_keys_ok\<close> is
  the representation invariant; the lemmas read a map through \<open>map_of\<close>.
\<close>

type_synonym ('k, 'v) treemap = "('k \<times> 'v) list"

abbreviation tm_keys :: "('k \<times> 'v) list \<Rightarrow> 'k list" where "tm_keys m \<equiv> map fst m"

definition tm_keys_ok :: "('k::linorder \<times> 'v) list \<Rightarrow> bool" where
  "tm_keys_ok m \<longleftrightarrow> sorted_wrt (<) (map fst m)"

fun tm_put :: "'k::linorder \<Rightarrow> 'v \<Rightarrow> ('k \<times> 'v) list \<Rightarrow> ('k \<times> 'v) list" where
  "tm_put k v [] = [(k, v)]"
| "tm_put k v ((k', v') # m) =
     (if k < k' then (k, v) # (k', v') # m
      else if k = k' then (k, v) # m
      else (k', v') # tm_put k v m)"

definition tm_del :: "'k \<Rightarrow> ('k \<times> 'v) list \<Rightarrow> ('k \<times> 'v) list" where
  "tm_del k m = filter (\<lambda>e. fst e \<noteq> k) m"

text \<open>\<open>collect()\<close> into a map: a later pair replaces an earlier one of the same key.\<close>

definition tm_collect :: "('k::linorder \<times> 'v) list \<Rightarrow> ('k \<times> 'v) list" where
  "tm_collect xs = fold (\<lambda>(k, v). tm_put k v) xs []"

text \<open>\<open>*map.entry(k).or_insert(0) += n\<close>.\<close>

definition tm_add :: "'k::linorder \<Rightarrow> u64 \<Rightarrow> ('k \<times> u64) list \<Rightarrow> ('k \<times> u64) list" where
  "tm_add k n m = tm_put k ((case map_of m k of None \<Rightarrow> 0 | Some x \<Rightarrow> x) + n) m"

lemma tm_keys_ok_Nil [simp]: "tm_keys_ok []"
  by (simp add: tm_keys_ok_def)

lemma tm_put_keys: "set (map fst (tm_put k v m)) = insert k (set (map fst m))"
  by (induction k v m rule: tm_put.induct) (simp_all add: insert_commute)

lemma tm_put_keys_ok [simp]: "tm_keys_ok m \<Longrightarrow> tm_keys_ok (tm_put k v m)"
proof (induction m)
  case (Cons e m)
  obtain k' v' where e: "e = (k', v')" by (cases e)
  have "tm_keys_ok (tm_put k v m)" using Cons by (simp add: tm_keys_ok_def)
  then show ?case using Cons.prems tm_put_keys [of k v m]
    unfolding tm_keys_ok_def e by (auto dest: less_trans)
qed (simp add: tm_keys_ok_def)

lemma map_of_tm_put [simp]: "tm_keys_ok m \<Longrightarrow> map_of (tm_put k v m) = (map_of m)(k \<mapsto> v)"
proof (induction m)
  case (Cons e m)
  obtain k' v' where e: "e = (k', v')" by (cases e)
  have "tm_keys_ok m" using Cons.prems by (simp add: tm_keys_ok_def)
  then show ?case using Cons.IH by (auto simp: e fun_eq_iff)
qed simp

lemma tm_del_keys_ok [simp]: "tm_keys_ok m \<Longrightarrow> tm_keys_ok (tm_del k m)"
  unfolding tm_keys_ok_def tm_del_def sorted_wrt_map by (rule sorted_wrt_filter)

lemma map_of_tm_del [simp]: "map_of (tm_del k m) = (map_of m)(k := None)"
  unfolding tm_del_def by (induction m) auto

lemma tm_keys_distinct: "tm_keys_ok m \<Longrightarrow> distinct (map fst m)"
  unfolding tm_keys_ok_def by (simp add: strict_sorted_iff)

lemma tm_mem_map_of: "tm_keys_ok m \<Longrightarrow> (k, v) \<in> set m \<longleftrightarrow> map_of m k = Some v"
  using tm_keys_distinct by (metis map_of_eq_Some_iff)

lemma tm_fold_put_ok: "tm_keys_ok m \<Longrightarrow> tm_keys_ok (fold (\<lambda>(k, v). tm_put k v) xs m)"
  by (induction xs arbitrary: m) auto

lemma tm_collect_keys_ok [simp]: "tm_keys_ok (tm_collect xs)"
  by (simp add: tm_collect_def tm_fold_put_ok)

lemma map_of_fold_put:
  "tm_keys_ok m \<Longrightarrow> map_of (fold (\<lambda>(k, v). tm_put k v) xs m) = map_of m ++ map_of (rev xs)"
proof (induction xs arbitrary: m)
  case (Cons x xs)
  then show ?case by (cases x) (auto simp: map_add_def fun_eq_iff split: option.splits)
qed simp

lemma map_of_tm_collect: "map_of (tm_collect xs) = map_of (rev xs)"
  by (simp add: tm_collect_def map_of_fold_put)

lemma tm_add_keys_ok [simp]: "tm_keys_ok m \<Longrightarrow> tm_keys_ok (tm_add k n m)"
  by (simp add: tm_add_def)

text \<open>Two ordered maps with the same lookups are the same list.\<close>

lemma tm_eqI:
  assumes "tm_keys_ok m" and "tm_keys_ok m'" and "map_of m = map_of m'"
  shows "m = m'"
proof -
  have s: "set m = set m'" using assms by (auto simp: tm_mem_map_of)
  moreover have "inj_on fst (set m)" using tm_keys_distinct [OF assms(1)] by (simp add: distinct_map)
  ultimately show ?thesis using assms(1,2)
    by (intro map_sorted_distinct_set_unique [of fst]) (simp_all add: tm_keys_ok_def strict_sorted_iff)
qed

lemma tm_collect_id: "tm_keys_ok m \<Longrightarrow> tm_collect m = m"
  by (rule tm_eqI) (simp_all add: map_of_tm_collect map_of_inject_set tm_keys_distinct rev_map [symmetric])

end
