(* ===== verification/Manifest.thy ===== *)
theory Manifest
  imports Identity Treemap
begin

text \<open>
  \<open>crates/fluent31/src/manifest.rs\<close>, the format: \<open>[magic u64][format u32][payload][crc32c u32]\<close>.
  Format 2 appends the identity and pending-fork sections, format 3 the pin list; a manifest
  is written at the lowest format that carries its data. \<open>crc\<close> is the checksum of the crc32c
  package.
\<close>

section \<open>The data\<close>

definition manifest_magic :: u64 where "manifest_magic = 0xf115e7313aa10001"
definition manifest_format :: u32 where "manifest_format = 1"
definition manifest_format_identity :: u32 where "manifest_format_identity = 2"
definition manifest_format_pins :: u32 where "manifest_format_pins = 3"

record pin_info =
  pi_name :: bytes
  pi_seqno :: seqno
  pi_created_unix_ms :: u64

record run_meta =
  rm_id :: u64
  rm_table_ids :: "u64 list"

record manifest_data =
  md_next_file_id :: u64
  md_last_flushed_seqno :: u64
  md_wal_floor :: u64
  md_levels :: "run_meta list list"
  md_vlog_live :: "u64 list"
  md_vlog_head :: u64
  md_vlog_retired :: "(u64 \<times> u64) list"
  md_discard :: "(u64 \<times> u64) list"
  md_identity :: "store_identity option"
  md_pending_fork :: "pending_fork option"
  md_pins :: "pin_info list"

definition discard_map :: "manifest_data \<Rightarrow> (u64 \<times> u64) list" where
  "discard_map m = tm_collect (md_discard m)"

section \<open>Encoding\<close>

definition put_run :: "bytes \<Rightarrow> run_meta \<Rightarrow> bytes" where
  "put_run p r =
     (let p = put_u64 p (rm_id r);
          p = put_uvarint p (of_nat (length (rm_table_ids r)))
      in foldl put_u64 p (rm_table_ids r))"

definition put_level :: "bytes \<Rightarrow> run_meta list \<Rightarrow> bytes" where
  "put_level p level = foldl put_run (put_uvarint p (of_nat (length level))) level"

definition put_pair :: "bytes \<Rightarrow> u64 \<times> u64 \<Rightarrow> bytes" where
  "put_pair p fs = put_u64 (put_u64 p (fst fs)) (snd fs)"

definition put_structure :: "manifest_data \<Rightarrow> bytes" where
  "put_structure m =
     (let p = put_u64 [] (md_next_file_id m);
          p = put_u64 p (md_last_flushed_seqno m);
          p = put_u64 p (md_wal_floor m);
          p = put_uvarint p (of_nat (length (md_levels m)));
          p = foldl put_level p (md_levels m);
          p = put_uvarint p (of_nat (length (md_vlog_live m)));
          p = foldl put_u64 p (md_vlog_live m);
          p = put_u64 p (md_vlog_head m);
          p = put_uvarint p (of_nat (length (md_vlog_retired m)));
          p = foldl put_pair p (md_vlog_retired m);
          p = put_uvarint p (of_nat (length (md_discard m)))
      in foldl put_pair p (md_discard m))"

definition pick_format :: "manifest_data \<Rightarrow> u32" where
  "pick_format m =
     (if md_pins m \<noteq> [] then manifest_format_pins
      else if md_identity m \<noteq> None \<or> md_pending_fork m \<noteq> None then manifest_format_identity
      else manifest_format)"

definition put_identity :: "bytes \<Rightarrow> store_identity option \<Rightarrow> bytes" where
  "put_identity p ident = (case ident of
     Some i \<Rightarrow>
       (let p = put_len_prefixed (p @ [1]) (si_name i) @ si_instance_id i
        in case si_parent i of
             Some (pid, cutseq) \<Rightarrow> put_u64 (p @ [1] @ pid) cutseq
           | None \<Rightarrow> p @ [0])
   | None \<Rightarrow> p @ [0])"

definition put_pending :: "bytes \<Rightarrow> pending_fork option \<Rightarrow> bytes" where
  "put_pending p pend = (case pend of
     Some pf \<Rightarrow> put_u64 (put_len_prefixed (p @ [1]) (pf_name pf) @ pf_parent_instance_id pf) (pf_cut_seqno pf)
   | None \<Rightarrow> p @ [0])"

definition put_pin :: "bytes \<Rightarrow> pin_info \<Rightarrow> bytes" where
  "put_pin p pin = put_u64 (put_u64 (put_len_prefixed p (pi_name pin)) (pi_seqno pin)) (pi_created_unix_ms pin)"

definition manifest_encode :: "(bytes \<Rightarrow> u32) \<Rightarrow> manifest_data \<Rightarrow> bytes" where
  "manifest_encode crc m =
     (let p = put_structure m;
          format = pick_format m;
          p = (if manifest_format_identity \<le> format
               then put_pending (put_identity p (md_identity m)) (md_pending_fork m) else p);
          p = (if manifest_format_pins \<le> format
               then foldl put_pin (put_uvarint p (of_nat (length (md_pins m)))) (md_pins m) else p);
          out = put_u32 (put_u64 [] manifest_magic) format @ p
      in put_u32 out (crc out))"

section \<open>Decoding\<close>

definition read_run :: "reader \<Rightarrow> (run_meta \<times> reader) res" where
  "read_run r =
     rbind (reader_u64 r) (\<lambda>(rid, r).
     rbind (read_vec reader_u64 r) (\<lambda>(ts, r). Ok (\<lparr>rm_id = rid, rm_table_ids = ts\<rparr>, r)))"

definition read_pair :: "reader \<Rightarrow> ((u64 \<times> u64) \<times> reader) res" where
  "read_pair r = rbind (reader_u64 r) (\<lambda>(a, r). rbind (reader_u64 r) (\<lambda>(b, r). Ok ((a, b), r)))"

definition read_identity :: "reader \<Rightarrow> (store_identity option \<times> reader) res" where
  "read_identity r =
     rbind (reader_u8 r) (\<lambda>(tag, r).
       if tag = 1 then
         rbind (reader_len_prefixed r) (\<lambda>(bs, r).
         rbind (from_utf8 ''store name is not UTF-8'' bs) (\<lambda>name.
         rbind (reader_bytes instance_id_len r) (\<lambda>(iid, r).
         rbind (reader_u8 r) (\<lambda>(ptag, r).
           if ptag = 0 then
             Ok (Some \<lparr>si_name = name, si_instance_id = iid, si_parent = None\<rparr>, r)
           else
             rbind (reader_bytes instance_id_len r) (\<lambda>(pid, r).
             rbind (reader_u64 r) (\<lambda>(cutseq, r).
               Ok (Some \<lparr>si_name = name, si_instance_id = iid, si_parent = Some (pid, cutseq)\<rparr>, r)))))))
       else Ok (None, r))"

definition read_pending :: "reader \<Rightarrow> (pending_fork option \<times> reader) res" where
  "read_pending r =
     rbind (reader_u8 r) (\<lambda>(tag, r).
       if tag = 1 then
         rbind (reader_len_prefixed r) (\<lambda>(bs, r).
         rbind (from_utf8 ''fork name is not UTF-8'' bs) (\<lambda>name.
         rbind (reader_bytes instance_id_len r) (\<lambda>(pid, r).
         rbind (reader_u64 r) (\<lambda>(cutseq, r).
           Ok (Some \<lparr>pf_parent_instance_id = pid, pf_cut_seqno = cutseq, pf_name = name\<rparr>, r)))))
       else Ok (None, r))"

definition read_pin :: "reader \<Rightarrow> (pin_info \<times> reader) res" where
  "read_pin r =
     rbind (reader_len_prefixed r) (\<lambda>(bs, r).
     rbind (from_utf8 ''pin name is not UTF-8'' bs) (\<lambda>name.
     rbind (reader_u64 r) (\<lambda>(s, r).
     rbind (reader_u64 r) (\<lambda>(ms, r).
       Ok (\<lparr>pi_name = name, pi_seqno = s, pi_created_unix_ms = ms\<rparr>, r)))))"

definition manifest_decode :: "(bytes \<Rightarrow> u32) \<Rightarrow> bytes \<Rightarrow> manifest_data res" where
  "manifest_decode crc buf =
     (if length buf < 16 then Err (corrupt ''manifest too small'')
      else let body_end = length buf - 4; body = take body_end buf in
      if crc body \<noteq> from_le_bytes (drop body_end buf) then Err (corrupt ''manifest crc mismatch'')
      else
      rbind (reader_u64 (reader_new body)) (\<lambda>(magic, r).
      if magic \<noteq> manifest_magic then Err (corrupt ''bad manifest magic'') else
      rbind (reader_u32 r) (\<lambda>(format, r).
      if \<not> (manifest_format \<le> format \<and> format \<le> manifest_format_pins)
      then Err (corrupt ''unsupported manifest format {format}'') else
      rbind (reader_u64 r) (\<lambda>(next_file_id, r).
      rbind (reader_u64 r) (\<lambda>(last_flushed_seqno, r).
      rbind (reader_u64 r) (\<lambda>(wal_floor, r).
      rbind (read_vec (read_vec read_run) r) (\<lambda>(levels, r).
      rbind (read_vec reader_u64 r) (\<lambda>(vlog_live, r).
      rbind (reader_u64 r) (\<lambda>(vlog_head, r).
      rbind (read_vec read_pair r) (\<lambda>(vlog_retired, r).
      rbind (read_vec read_pair r) (\<lambda>(discard, r).
      rbind (if manifest_format_identity \<le> format
             then rbind (read_identity r) (\<lambda>(i, r). rbind (read_pending r) (\<lambda>(p, r). Ok (i, p, r)))
             else Ok (None, None, r)) (\<lambda>(ident, pend, r).
      rbind (if manifest_format_pins \<le> format then read_vec read_pin r else Ok ([], r)) (\<lambda>(pins, r).
        Ok \<lparr>md_next_file_id = next_file_id, md_last_flushed_seqno = last_flushed_seqno,
          md_wal_floor = wal_floor, md_levels = levels, md_vlog_live = vlog_live,
          md_vlog_head = vlog_head, md_vlog_retired = vlog_retired, md_discard = discard,
          md_identity = ident, md_pending_fork = pend, md_pins = pins\<rparr>)))))))))))))"

section \<open>The sections are codecs\<close>

definition enc_run :: "run_meta \<Rightarrow> bytes" where
  "enc_run r = enc_u64 (rm_id r) @ enc_vec enc_u64 (rm_table_ids r)"

definition run_meta_ok :: "run_meta \<Rightarrow> bool" where
  "run_meta_ok r \<longleftrightarrow> slice_len_ok (rm_table_ids r)"

definition enc_pair :: "u64 \<times> u64 \<Rightarrow> bytes" where
  "enc_pair p = enc_u64 (fst p) @ enc_u64 (snd p)"

definition name_ok :: "bytes \<Rightarrow> bool" where
  "name_ok n \<longleftrightarrow> utf8_valid n \<and> slice_len_ok n"

definition enc_pin :: "pin_info \<Rightarrow> bytes" where
  "enc_pin p = enc_len_prefixed (pi_name p) @ enc_u64 (pi_seqno p) @ enc_u64 (pi_created_unix_ms p)"

definition pin_ok :: "pin_info \<Rightarrow> bool" where "pin_ok p \<longleftrightarrow> name_ok (pi_name p)"

definition identity_ok :: "store_identity option \<Rightarrow> bool" where
  "identity_ok i \<longleftrightarrow> (case i of None \<Rightarrow> True | Some i \<Rightarrow> name_ok (si_name i)
     \<and> length (si_instance_id i) = instance_id_len
     \<and> (case si_parent i of None \<Rightarrow> True | Some (pid, _) \<Rightarrow> length pid = instance_id_len))"

definition pending_ok :: "pending_fork option \<Rightarrow> bool" where
  "pending_ok p \<longleftrightarrow> (case p of None \<Rightarrow> True | Some pf \<Rightarrow>
     name_ok (pf_name pf) \<and> length (pf_parent_instance_id pf) = instance_id_len)"

text \<open>What the Rust types guarantee of the data: lengths fit, names are UTF-8, ids have 16 bytes.\<close>

definition manifest_ok :: "manifest_data \<Rightarrow> bool" where
  "manifest_ok m \<longleftrightarrow> slice_len_ok (md_levels m)
     \<and> list_all (\<lambda>l. list_all run_meta_ok l \<and> slice_len_ok l) (md_levels m)
     \<and> slice_len_ok (md_vlog_live m) \<and> slice_len_ok (md_vlog_retired m) \<and> slice_len_ok (md_discard m)
     \<and> identity_ok (md_identity m) \<and> pending_ok (md_pending_fork m)
     \<and> list_all pin_ok (md_pins m) \<and> slice_len_ok (md_pins m)"

lemma foldl_put:
  assumes "\<And>p x. f p x = p @ enc x"
  shows "foldl f p xs = p @ concat (map enc xs)"
  by (induction xs arbitrary: p) (simp_all add: assms)

lemma put_vec: "put_uvarint p (of_nat (length xs)) @ concat (map enc xs) = p @ enc_vec enc xs"
  by (simp add: enc_vec_def codec_simps)

lemma put_sections [codec_simps]:
  "put_run p r = p @ enc_run r"
  "put_level p l = p @ enc_vec enc_run l"
  "put_pair p fs = p @ enc_pair fs"
  "put_pin p pin = p @ enc_pin pin"
proof -
  have u: "foldl put_u64 q xs = q @ concat (map enc_u64 xs)" for q xs
    by (rule foldl_put) (simp add: codec_simps)
  show r: "put_run p r = p @ enc_run r" for p r
    by (simp add: put_run_def enc_run_def Let_def u put_vec) (simp add: codec_simps)
  show "put_level p l = p @ enc_vec enc_run l"
    by (simp add: put_level_def foldl_put [where enc = enc_run, OF r] put_vec)
  show "put_pair p fs = p @ enc_pair fs" by (simp add: put_pair_def enc_pair_def codec_simps)
  show "put_pin p pin = p @ enc_pin pin" by (simp add: put_pin_def enc_pin_def codec_simps)
qed


interpretation runc: codec enc_run read_run run_meta_ok
proof -
  note i = codec_iso [OF codec_bind [OF u64c.codec_axioms codec_vec [OF u64c.codec_axioms]],
      where g = "\<lambda>(i, ts). Ok \<lparr>rm_id = i, rm_table_ids = ts\<rparr>"
      and f = "\<lambda>r. (rm_id r, rm_table_ids r)" and ok' = run_meta_ok]
  show "codec enc_run read_run run_meta_ok"
    by (rule codec_ext [OF i])
      (auto simp: run_meta_ok_def enc_run_def read_run_def rbind_assoc split_def list_all_iff)
qed

interpretation pairc: codec enc_pair read_pair "\<lambda>_. True"
proof -
  note b = codec_bind [OF u64c.codec_axioms u64c.codec_axioms]
  show "codec enc_pair read_pair (\<lambda>_. True)"
    by (rule codec_ext [OF b]) (auto simp: enc_pair_def read_pair_def)
qed

lemma codec_name:
  "codec enc_len_prefixed (\<lambda>r. rbind (reader_len_prefixed r) (\<lambda>(bs, r). rbind (from_utf8 msg bs) (\<lambda>n. Ok (n, r)))) name_ok"
  by (rule codec_iso [OF lenc.codec_axioms]) (simp add: name_ok_def from_utf8_def)

interpretation pinc: codec enc_pin read_pin pin_ok
proof -
  note b = codec_bind [OF codec_name [of "''pin name is not UTF-8''"] codec_bind [OF u64c.codec_axioms u64c.codec_axioms]]
  note i = codec_iso [OF b,
      where g = "\<lambda>(n, s, t). Ok \<lparr>pi_name = n, pi_seqno = s, pi_created_unix_ms = t\<rparr>"
      and f = "\<lambda>p. (pi_name p, pi_seqno p, pi_created_unix_ms p)" and ok' = pin_ok]
  show "codec enc_pin read_pin pin_ok"
    by (rule codec_ext [OF i]) (auto simp: pin_ok_def enc_pin_def read_pin_def rbind_assoc split_def)
qed

interpretation levelsc: codec "enc_vec (enc_vec enc_run)" "read_vec (read_vec read_run)"
  "\<lambda>ls. list_all (\<lambda>l. list_all run_meta_ok l \<and> slice_len_ok l) ls \<and> slice_len_ok ls"
  by (rule codec_vec [OF codec_vec [OF runc.codec_axioms]])

interpretation idsc: codec "enc_vec enc_u64" "read_vec reader_u64" "\<lambda>xs. list_all (\<lambda>_. True) xs \<and> slice_len_ok xs"
  by (rule codec_vec [OF u64c.codec_axioms])

interpretation pairsc: codec "enc_vec enc_pair" "read_vec read_pair" "\<lambda>xs. list_all (\<lambda>_. True) xs \<and> slice_len_ok xs"
  by (rule codec_vec [OF pairc.codec_axioms])

interpretation pinsc: codec "enc_vec enc_pin" "read_vec read_pin" "\<lambda>xs. list_all pin_ok xs \<and> slice_len_ok xs"
  by (rule codec_vec [OF pinc.codec_axioms])

lemma bytes_step:
  "reader_rest r = bs @ us \<Longrightarrow> length bs = n \<Longrightarrow> reader_bytes n r = Ok (bs, advance n r)"
  by (simp add: reader_bytes_rest)

text \<open>One step of a reader over a known prefix; the optional sections by their cases.\<close>

lemma read_identity_put:
  assumes "reader_rest r = put_identity [] i @ us" and "identity_ok i"
  shows "read_identity r = Ok (i, advance (length (put_identity [] i)) r)"
proof (cases i)
  case None
  then show ?thesis using u8c.dec_enc [of r 0 us] assms
    by (simp add: read_identity_def put_identity_def enc_u8_def)
next
  case (Some si)
  obtain n iid par where si: "si = \<lparr>si_name = n, si_instance_id = iid, si_parent = par\<rparr>" by (cases si)
  let ?t = "case par of None \<Rightarrow> [0] | Some (pid, c) \<Rightarrow> [1] @ pid @ enc_u64 c"
  have e: "put_identity [] i = [1] @ enc_len_prefixed n @ iid @ ?t"
    by (simp add: Some si put_identity_def codec_simps Let_def split: option.split)
  have ok: "name_ok n" "length iid = instance_id_len"
    "case par of None \<Rightarrow> True | Some (pid, _) \<Rightarrow> length pid = instance_id_len"
    using assms(2) by (auto simp: Some si identity_ok_def)
  define r1 where "r1 = advance 1 r"
  define r2 where "r2 = advance (length (enc_len_prefixed n)) r1"
  define r3 where "r3 = advance instance_id_len r2"
  define r4 where "r4 = advance 1 r3"
  have 1: "reader_u8 r = Ok (1, r1)" "reader_rest r1 = enc_len_prefixed n @ iid @ ?t @ us"
    using u8c.dec_enc [of r 1 "enc_len_prefixed n @ iid @ ?t @ us"] assms(1) e
    by (simp_all add: enc_u8_def r1_def reader_rest_advance)
  have 2: "reader_len_prefixed r1 = Ok (n, r2)" "reader_rest r2 = iid @ ?t @ us"
    using lenc.dec_enc [OF _ 1(2)] ok(1) 1(2) by (simp_all add: name_ok_def r2_def reader_rest_advance)
  have 3: "reader_bytes instance_id_len r2 = Ok (iid, r3)" "reader_rest r3 = ?t @ us"
    using bytes_step [OF 2(2) ok(2)] 2(2) ok(2) by (simp_all add: r3_def reader_rest_advance)
  show ?thesis
  proof (cases par)
    case None
    have "reader_u8 r3 = Ok (0, r4)" using u8c.dec_enc [of r3 0 us] 3(2) None by (simp add: enc_u8_def r4_def)
    then show ?thesis using 1 2 3 ok e None Some si
      by (simp add: read_identity_def from_utf8_def name_ok_def r1_def r2_def r3_def r4_def algebra_simps)
  next
    case (Some pc)
    obtain pid c where pc: "pc = (pid, c)" by (cases pc)
    have 4: "reader_u8 r3 = Ok (1, r4)" "reader_rest r4 = pid @ enc_u64 c @ us"
      using u8c.dec_enc [of r3 1 "pid @ enc_u64 c @ us"] 3(2) Some pc
      by (simp_all add: enc_u8_def r4_def reader_rest_advance)
    have 5: "reader_bytes instance_id_len r4 = Ok (pid, advance instance_id_len r4)"
      "reader_rest (advance instance_id_len r4) = enc_u64 c @ us"
      using bytes_step [OF 4(2)] 4(2) ok(3) Some pc by (simp_all add: reader_rest_advance)
    have 6: "reader_u64 (advance instance_id_len r4) = Ok (c, advance (instance_id_len + 8) r4)"
      using u64c.dec_enc [OF _ 5(2)] by simp
    show ?thesis using 1 2 3 4 5 6 ok e Some pc \<open>i = Some si\<close> si
      by (simp add: read_identity_def from_utf8_def name_ok_def r1_def r2_def r3_def r4_def algebra_simps)
  qed
qed

lemma read_pending_put:
  assumes "reader_rest r = put_pending [] i @ us" and "pending_ok i"
  shows "read_pending r = Ok (i, advance (length (put_pending [] i)) r)"
proof (cases i)
  case None
  then show ?thesis using u8c.dec_enc [of r 0 us] assms
    by (simp add: read_pending_def put_pending_def enc_u8_def)
next
  case (Some pf)
  obtain pid c n where pf: "pf = \<lparr>pf_parent_instance_id = pid, pf_cut_seqno = c, pf_name = n\<rparr>" by (cases pf)
  have e: "put_pending [] i = [1] @ enc_len_prefixed n @ pid @ enc_u64 c"
    by (simp add: Some pf put_pending_def codec_simps)
  have ok: "name_ok n" "length pid = instance_id_len" using assms(2) by (auto simp: Some pf pending_ok_def)
  define r1 where "r1 = advance 1 r"
  define r2 where "r2 = advance (length (enc_len_prefixed n)) r1"
  define r3 where "r3 = advance instance_id_len r2"
  have 1: "reader_u8 r = Ok (1, r1)" "reader_rest r1 = enc_len_prefixed n @ pid @ enc_u64 c @ us"
    using u8c.dec_enc [of r 1 "enc_len_prefixed n @ pid @ enc_u64 c @ us"] assms(1) e
    by (simp_all add: enc_u8_def r1_def reader_rest_advance)
  have 2: "reader_len_prefixed r1 = Ok (n, r2)" "reader_rest r2 = pid @ enc_u64 c @ us"
    using lenc.dec_enc [OF _ 1(2)] ok(1) 1(2) by (simp_all add: name_ok_def r2_def reader_rest_advance)
  have 3: "reader_bytes instance_id_len r2 = Ok (pid, r3)" "reader_rest r3 = enc_u64 c @ us"
    using bytes_step [OF 2(2) ok(2)] 2(2) ok(2) by (simp_all add: r3_def reader_rest_advance)
  have 4: "reader_u64 r3 = Ok (c, advance 8 r3)" using u64c.dec_enc [OF _ 3(2)] by simp
  show ?thesis using 1 2 3 4 ok e Some pf
    by (simp add: read_pending_def from_utf8_def name_ok_def r1_def r2_def r3_def algebra_simps)
qed

lemma put_section_append:
  "put_identity p i = p @ put_identity [] i" "put_pending p q = p @ put_pending [] q"
  by (simp_all add: put_identity_def put_pending_def codec_simps Let_def split: option.split)

lemma put_structure_eq:
  "put_structure m = enc_u64 (md_next_file_id m) @ enc_u64 (md_last_flushed_seqno m) @ enc_u64 (md_wal_floor m)
     @ enc_vec (enc_vec enc_run) (md_levels m) @ enc_vec enc_u64 (md_vlog_live m) @ enc_u64 (md_vlog_head m)
     @ enc_vec enc_pair (md_vlog_retired m) @ enc_vec enc_pair (md_discard m)"
proof -
  have u: "foldl put_u64 q xs = q @ concat (map enc_u64 xs)" for q xs
    by (rule foldl_put) (simp add: codec_simps)
  have p: "foldl put_pair q xs = q @ concat (map enc_pair xs)" for q xs
    by (rule foldl_put) (simp add: codec_simps)
  have l: "foldl put_level q xs = q @ concat (map (enc_vec enc_run) xs)" for q xs
    by (rule foldl_put) (simp add: codec_simps)
  show ?thesis by (simp add: put_structure_def Let_def u p l codec_simps enc_vec_def)
qed

text \<open>The sections past the structure, as the format writes and reads them.\<close>

definition tail_bytes :: "manifest_data \<Rightarrow> bytes" where
  "tail_bytes m =
     (if manifest_format_identity \<le> pick_format m
      then put_identity [] (md_identity m) @ put_pending [] (md_pending_fork m) else []) @
     (if manifest_format_pins \<le> pick_format m then enc_vec enc_pin (md_pins m) else [])"

lemma manifest_encode_eq:
  "manifest_encode crc m =
     (let out = enc_u64 manifest_magic @ enc_u32 (pick_format m) @ put_structure m @ tail_bytes m
      in out @ enc_u32 (crc out))"
proof -
  have p: "foldl put_pin q xs = q @ concat (map enc_pin xs)" for q xs
    by (rule foldl_put) (simp add: codec_simps)
  show ?thesis
    by (simp add: manifest_encode_def Let_def p codec_simps tail_bytes_def enc_vec_def
        put_section_append [of "put_structure m"] put_section_append(2) [of "put_structure m @ q" for q])
qed

lemma pick_format_le [simp]:
  "manifest_format_pins \<le> pick_format m \<longleftrightarrow> md_pins m \<noteq> []"
  "manifest_format_identity \<le> pick_format m \<longleftrightarrow> md_pins m \<noteq> [] \<or> md_identity m \<noteq> None \<or> md_pending_fork m \<noteq> None"
  "manifest_format \<le> pick_format m" "pick_format m \<le> manifest_format_pins"
  by (simp_all add: pick_format_def manifest_format_def manifest_format_identity_def manifest_format_pins_def word_le_nat_alt)

lemma read_tail:
  assumes "reader_rest r = tail_bytes m" and "manifest_ok m"
  shows "\<exists>r' r''. (if manifest_format_identity \<le> pick_format m
             then rbind (read_identity r) (\<lambda>(i, r). rbind (read_pending r) (\<lambda>(p, r). Ok (i, p, r)))
             else Ok (None, None, r)) = Ok (md_identity m, md_pending_fork m, r') \<and>
      (if manifest_format_pins \<le> pick_format m then read_vec read_pin r' else Ok ([], r')) = Ok (md_pins m, r'')"
proof -
  have ok: "identity_ok (md_identity m)" "pending_ok (md_pending_fork m)"
    "list_all pin_ok (md_pins m) \<and> slice_len_ok (md_pins m)" using assms(2) by (simp_all add: manifest_ok_def)
  let ?pins = "if manifest_format_pins \<le> pick_format m then enc_vec enc_pin (md_pins m) else []"
  define r1 where "r1 = advance (length (put_identity [] (md_identity m))) r"
  define r2 where "r2 = advance (length (put_pending [] (md_pending_fork m))) r1"
  have ids: "read_identity r = Ok (md_identity m, r1)" "read_pending r1 = Ok (md_pending_fork m, r2)" "reader_rest r2 = ?pins"
    if "manifest_format_identity \<le> pick_format m"
  proof -
    have t: "reader_rest r = put_identity [] (md_identity m) @ put_pending [] (md_pending_fork m) @ ?pins"
      using assms(1) that by (simp add: tail_bytes_def)
    show "read_identity r = Ok (md_identity m, r1)" using read_identity_put [OF t ok(1)] by (simp add: r1_def)
    have t1: "reader_rest r1 = put_pending [] (md_pending_fork m) @ ?pins" using t by (simp add: r1_def reader_rest_advance)
    show "read_pending r1 = Ok (md_pending_fork m, r2)" using read_pending_put [OF t1 ok(2)] by (simp add: r2_def)
    show "reader_rest r2 = ?pins" using t1 by (simp add: r2_def reader_rest_advance)
  qed
  have pins: "\<exists>r'. read_vec read_pin r2 = Ok (md_pins m, r')" if "reader_rest r2 = enc_vec enc_pin (md_pins m)"
    using pinsc.dec_enc [OF ok(3), of r2 "[]"] that by simp
  show ?thesis
  proof (cases "md_pins m \<noteq> [] \<or> md_identity m \<noteq> None \<or> md_pending_fork m \<noteq> None")
    case True
    then show ?thesis using ids pins by (cases "md_pins m = []") auto
  qed auto
qed

lemma manifest_reads_back:
  assumes "manifest_ok m"
  shows "manifest_decode crc (manifest_encode crc m) = Ok m"
proof -
  let ?S = "put_structure m @ tail_bytes m"
  let ?body = "enc_u64 manifest_magic @ enc_u32 (pick_format m) @ ?S"
  have ok: "list_all (\<lambda>l. list_all run_meta_ok l \<and> slice_len_ok l) (md_levels m) \<and> slice_len_ok (md_levels m)"
    "list_all (\<lambda>_. True) (md_vlog_live m) \<and> slice_len_ok (md_vlog_live m)"
    "list_all (\<lambda>_. True) (md_vlog_retired m) \<and> slice_len_ok (md_vlog_retired m)"
    "list_all (\<lambda>_. True) (md_discard m) \<and> slice_len_ok (md_discard m)"
    using assms by (simp_all add: manifest_ok_def list_all_iff)
  obtain r1 where r1: "reader_u64 (reader_new ?body) = Ok (manifest_magic, r1)" "reader_rest r1 = enc_u32 (pick_format m) @ ?S"
    using u64c.dec_enc_rest [of "reader_new ?body" manifest_magic] by auto
  obtain r2 where r2: "reader_u32 r1 = Ok (pick_format m, r2)" "reader_rest r2 = ?S"
    using u32c.dec_enc_rest [OF TrueI r1(2)] by auto
  note S = r2(2) [unfolded put_structure_eq append_assoc]
  obtain r3 where r3: "reader_u64 r2 = Ok (md_next_file_id m, r3)" "reader_rest r3 = drop 8 (reader_rest r2)"
    using u64c.dec_enc_rest [OF TrueI S] S by auto
  note S3 = r3(2) [unfolded S, simplified]
  obtain r4 where r4: "reader_u64 r3 = Ok (md_last_flushed_seqno m, r4)" "reader_rest r4 = drop 8 (reader_rest r3)"
    using u64c.dec_enc_rest [OF TrueI S3] S3 by auto
  note S4 = r4(2) [unfolded S3, simplified]
  obtain r5 where r5: "reader_u64 r4 = Ok (md_wal_floor m, r5)" "reader_rest r5 = drop 8 (reader_rest r4)"
    using u64c.dec_enc_rest [OF TrueI S4] S4 by auto
  note S5 = r5(2) [unfolded S4, simplified]
  obtain r6 where r6: "read_vec (read_vec read_run) r5 = Ok (md_levels m, r6)" "reader_rest r6 = drop (length (enc_vec (enc_vec enc_run) (md_levels m))) (reader_rest r5)"
    using levelsc.dec_enc_rest [OF ok(1) S5] S5 by auto
  note S6 = r6(2) [unfolded S5, simplified]
  obtain r7 where r7: "read_vec reader_u64 r6 = Ok (md_vlog_live m, r7)" "reader_rest r7 = drop (length (enc_vec enc_u64 (md_vlog_live m))) (reader_rest r6)"
    using idsc.dec_enc_rest [OF ok(2) S6] S6 by auto
  note S7 = r7(2) [unfolded S6, simplified]
  obtain r8 where r8: "reader_u64 r7 = Ok (md_vlog_head m, r8)" "reader_rest r8 = drop 8 (reader_rest r7)"
    using u64c.dec_enc_rest [OF TrueI S7] S7 by auto
  note S8 = r8(2) [unfolded S7, simplified]
  obtain r9 where r9: "read_vec read_pair r8 = Ok (md_vlog_retired m, r9)" "reader_rest r9 = drop (length (enc_vec enc_pair (md_vlog_retired m))) (reader_rest r8)"
    using pairsc.dec_enc_rest [OF ok(3) S8] S8 by auto
  note S9 = r9(2) [unfolded S8, simplified]
  obtain r10 where r10: "read_vec read_pair r9 = Ok (md_discard m, r10)" "reader_rest r10 = tail_bytes m"
    using pairsc.dec_enc_rest [OF ok(4) S9] by auto
  obtain r11 r12 where tl: "(if manifest_format_identity \<le> pick_format m
             then rbind (read_identity r10) (\<lambda>(i, r). rbind (read_pending r) (\<lambda>(p, r). Ok (i, p, r)))
             else Ok (None, None, r10)) = Ok (md_identity m, md_pending_fork m, r11)"
      "(if manifest_format_pins \<le> pick_format m then read_vec read_pin r11 else Ok ([], r11)) = Ok (md_pins m, r12)"
    using read_tail [OF r10(2) assms] by blast
  have buf: "manifest_encode crc m = ?body @ enc_u32 (crc ?body)" by (simp add: manifest_encode_eq Let_def)
  have body: "take (length (manifest_encode crc m) - 4) (manifest_encode crc m) = ?body"
    "from_le_bytes (drop (length (manifest_encode crc m) - 4) (manifest_encode crc m)) = crc ?body"
    "\<not> length (manifest_encode crc m) < 16"
    unfolding buf by (simp_all add: enc_u32_def)
  show "manifest_decode crc (manifest_encode crc m) = Ok m"
    unfolding manifest_decode_def Let_def body if_not_P [OF body(3)] r1(1)
    by (simp only: rbind_simps prod.case r2(1) r3(1) r4(1) r5(1) r6(1) r7(1) r8(1) r9(1) r10(1) tl simp_thms
        if_False if_True pick_format_le(3,4)) simp
qed

section \<open>Properties\<close>

text \<open>
  C37: a manifest reads back as the data that was written, whichever of the three formats its
  content selects, and it is written at the lowest format that carries it.
\<close>

theorem manifest_roundtrip:
  assumes "manifest_ok m"
  shows "manifest_decode crc (manifest_encode crc m) = Ok m
    \<and> (pick_format m = manifest_format \<longleftrightarrow> md_pins m = [] \<and> md_identity m = None \<and> md_pending_fork m = None)
    \<and> (pick_format m = manifest_format_pins \<longleftrightarrow> md_pins m \<noteq> [])"
  using manifest_reads_back [OF assms]
  by (auto simp: pick_format_def manifest_format_def manifest_format_identity_def manifest_format_pins_def)

theorem manifest_roundtrip_witness:
  "manifest_decode (\<lambda>_. 7) (manifest_encode (\<lambda>_. 7)
     \<lparr>md_next_file_id = 9, md_last_flushed_seqno = 4, md_wal_floor = 3,
       md_levels = [[\<lparr>rm_id = 5, rm_table_ids = [1, 2]\<rparr>], []], md_vlog_live = [6], md_vlog_head = 6,
       md_vlog_retired = [(2, 3)], md_discard = [(6, 40)],
       md_identity = Some \<lparr>si_name = [97], si_instance_id = replicate 16 1, si_parent = Some (replicate 16 2, 8)\<rparr>,
       md_pending_fork = None, md_pins = [\<lparr>pi_name = [112], pi_seqno = 4, pi_created_unix_ms = 0\<rparr>]\<rparr>)
   = Ok \<lparr>md_next_file_id = 9, md_last_flushed_seqno = 4, md_wal_floor = 3,
       md_levels = [[\<lparr>rm_id = 5, rm_table_ids = [1, 2]\<rparr>], []], md_vlog_live = [6], md_vlog_head = 6,
       md_vlog_retired = [(2, 3)], md_discard = [(6, 40)],
       md_identity = Some \<lparr>si_name = [97], si_instance_id = replicate 16 1, si_parent = Some (replicate 16 2, 8)\<rparr>,
       md_pending_fork = None, md_pins = [\<lparr>pi_name = [112], pi_seqno = 4, pi_created_unix_ms = 0\<rparr>]\<rparr>"
  by (rule manifest_roundtrip [THEN conjunct1])
    (simp add: manifest_ok_def slice_len_ok_def run_meta_ok_def identity_ok_def pending_ok_def pin_ok_def name_ok_def
      instance_id_len_def utf8_valid_ascii)

end
