(* ===== verification/Store.thy ===== *)
theory Store
  imports Manifest
begin

text \<open>
  The store directory: file names (\<open>config.rs\<close>, \<open>db.rs\<close>), the durable replacement of small
  files (\<open>io/mod.rs\<close>), publishing and loading manifests (\<open>manifest.rs\<close>, \<open>db.rs\<close>), resolving
  the store's identity and sweeping unreferenced files at open (\<open>db.rs\<close>).

  A directory maps file names to contents. Every call that changes it consumes one entry of
  \<open>df_faults\<close>: without a fault it succeeds; \<open>NoEffect\<close> fails before anything changed, \<open>Torn n\<close>
  leaves the first \<open>n\<close> bytes of a write. A crash is a fault after which nothing else runs, so
  the directory a failed call leaves is also the directory a crash inside it leaves.
\<close>

section \<open>Numbers in names\<close>

function dec_digits :: "nat \<Rightarrow> bytes" where
  "dec_digits n = (if n < 10 then [of_nat (48 + n)] else dec_digits (n div 10) @ [of_nat (48 + n mod 10)])"
  by pat_completeness auto
termination
  by (relation "measure id") auto

declare dec_digits.simps [simp del]

text \<open>\<open>{n:06}\<close>\<close>

definition fmt06 :: "u64 \<Rightarrow> bytes" where
  "fmt06 n = (let ds = dec_digits (unat n) in replicate (6 - length ds) 48 @ ds)"

fun parse_digits :: "nat \<Rightarrow> bytes \<Rightarrow> nat option" where
  "parse_digits acc [] = Some acc"
| "parse_digits acc (b # bs) =
     (if 48 \<le> b \<and> b \<le> 57
      then let acc' = acc * 10 + (unat b - 48) in if acc' < 2 ^ 64 then parse_digits acc' bs else None
      else None)"

text \<open>\<open>str::parse::<u64>\<close>: an optional plus sign, then at least one digit, no overflow.\<close>

definition parse_u64 :: "bytes \<Rightarrow> u64 option" where
  "parse_u64 s =
     (let ds = (case s of [] \<Rightarrow> [] | b # r \<Rightarrow> if b = 43 then r else s)
      in if ds = [] then None else map_option of_nat (parse_digits 0 ds))"

definition strip_prefix :: "bytes \<Rightarrow> bytes \<Rightarrow> bytes option" where
  "strip_prefix p s = (if take (length p) s = p then Some (drop (length p) s) else None)"

definition strip_suffix :: "bytes \<Rightarrow> bytes \<Rightarrow> bytes option" where
  "strip_suffix p s =
     (if length p \<le> length s \<and> drop (length s - length p) s = p then Some (take (length s - length p) s) else None)"

lemma unat_of_nat_u8: "n < 256 \<Longrightarrow> unat (of_nat n :: u8) = n"
  by (simp add: unat_of_nat)

lemma digit_u8:
  assumes "d < 10"
  shows "unat (of_nat (48 + d) :: u8) = 48 + d" "(48 :: u8) \<le> of_nat (48 + d)" "of_nat (48 + d) \<le> (57 :: u8)"
proof -
  show u: "unat (of_nat (48 + d) :: u8) = 48 + d" using assms by (intro unat_of_nat_u8) simp
  show "(48 :: u8) \<le> of_nat (48 + d)" "of_nat (48 + d) \<le> (57 :: u8)"
    unfolding word_le_nat_alt u using assms by simp_all
qed

lemma parse_digits_append:
  "parse_digits acc (xs @ ys) = (case parse_digits acc xs of None \<Rightarrow> None | Some a \<Rightarrow> parse_digits a ys)"
  by (induction xs arbitrary: acc) (auto simp: Let_def)

lemma parse_digits_dec: "n < 2 ^ 64 \<Longrightarrow> parse_digits 0 (dec_digits n) = Some n"
proof (induction n rule: dec_digits.induct)
  case (1 n)
  show ?case
  proof (cases "n < 10")
    case True
    then show ?thesis using digit_u8 [OF True] by (subst dec_digits.simps) (simp add: Let_def del: of_nat_add)
  next
    case False
    then have "parse_digits 0 (dec_digits (n div 10)) = Some (n div 10)" using 1 by simp
    moreover have "n mod 10 < 10" by simp
    ultimately show ?thesis using False digit_u8 [of "n mod 10"] 1(2)
      by (subst dec_digits.simps) (simp add: parse_digits_append Let_def del: of_nat_add)
  qed
qed

lemma parse_digits_zeros: "parse_digits 0 (replicate k 48 @ ds) = parse_digits 0 ds"
  by (induction k) (simp_all add: Let_def)

lemma dec_digits_bytes: "b \<in> set (dec_digits n) \<Longrightarrow> 48 \<le> b \<and> b \<le> 57"
proof (induction n rule: dec_digits.induct)
  case (1 n)
  show ?case
  proof (cases "n < 10")
    case True
    then show ?thesis using 1(2) digit_u8 [OF True] by (subst (asm) dec_digits.simps) (simp del: of_nat_add)
  next
    case False
    have "n mod 10 < 10" by simp
    then show ?thesis using 1 False digit_u8 [of "n mod 10"]
      by (subst (asm) (2) dec_digits.simps) (auto simp del: of_nat_add)
  qed
qed

lemma fmt06_bytes: "b \<in> set (fmt06 n) \<Longrightarrow> 48 \<le> b \<and> b \<le> 57"
  unfolding fmt06_def Let_def by (auto dest: dec_digits_bytes)

lemma dec_digits_not_Nil [simp]: "dec_digits n \<noteq> []"
  by (subst dec_digits.simps) simp

lemma fmt06_not_Nil [simp]: "fmt06 n \<noteq> []"
  by (simp add: fmt06_def Let_def)

lemma parse_fmt06 [simp]: "parse_u64 (fmt06 n) = Some n"
proof -
  have "hd (fmt06 n) \<noteq> 43" using fmt06_bytes [OF hd_in_set [OF fmt06_not_Nil, of n]] by auto
  then have "(case fmt06 n of [] \<Rightarrow> [] | b # r \<Rightarrow> if b = 43 then r else fmt06 n) = fmt06 n"
    by (cases "fmt06 n") auto
  moreover have "parse_digits 0 (fmt06 n) = Some (unat n)"
    using parse_digits_dec [of "unat n"] unsigned_less [of n] by (simp add: fmt06_def Let_def parse_digits_zeros)
  ultimately show ?thesis by (simp add: parse_u64_def)
qed

lemma fmt06_inj: "fmt06 a = fmt06 b \<Longrightarrow> a = b"
  by (metis option.inject parse_fmt06)

section \<open>Paths\<close>

definition current_name :: bytes where "current_name = ascii ''CURRENT''"
definition manifest_name :: "u64 \<Rightarrow> bytes" where "manifest_name gen = ascii ''MANIFEST-'' @ fmt06 gen"
definition wal_name :: "u64 \<Rightarrow> bytes" where "wal_name i = ascii ''wal-'' @ fmt06 i @ ascii ''.log''"
definition table_name :: "u64 \<Rightarrow> bytes" where "table_name i = ascii ''sst-'' @ fmt06 i @ ascii ''.tbl''"
definition vlog_name :: "u64 \<Rightarrow> bytes" where "vlog_name i = ascii ''vlog-'' @ fmt06 i @ ascii ''.vlog''"

definition parse_file_id :: "bytes \<Rightarrow> bytes \<Rightarrow> bytes \<Rightarrow> u64 option" where
  "parse_file_id name pre suf =
     Option.bind (strip_prefix pre name) (\<lambda>s. Option.bind (strip_suffix suf s) parse_u64)"

definition generation :: "bytes \<Rightarrow> u64 option" where
  "generation name = Option.bind (strip_prefix (ascii ''MANIFEST-'') name) parse_u64"

lemma strip_prefix_append [simp]: "strip_prefix p (p @ s) = Some s"
  by (simp add: strip_prefix_def)

lemma strip_suffix_append [simp]: "strip_suffix p (s @ p) = Some s"
  by (simp add: strip_suffix_def)

lemma strip_prefix_SomeD: "strip_prefix p s = Some r \<Longrightarrow> s = p @ r"
  by (metis append_take_drop_id option.distinct(1) option.inject strip_prefix_def)

lemma generation_manifest_name [simp]: "generation (manifest_name gen) = Some gen"
  by (simp add: generation_def manifest_name_def)

lemma parse_file_names [simp]:
  "parse_file_id (wal_name i) (ascii ''wal-'') (ascii ''.log'') = Some i"
  "parse_file_id (table_name i) (ascii ''sst-'') (ascii ''.tbl'') = Some i"
  "parse_file_id (vlog_name i) (ascii ''vlog-'') (ascii ''.vlog'') = Some i"
  by (simp_all add: parse_file_id_def wal_name_def table_name_def vlog_name_def)

text \<open>A file of one kind is never taken for one of another.\<close>

lemma parse_file_names_other [simp]:
  "parse_file_id (wal_name i) (ascii ''sst-'') suf = None"
  "parse_file_id (wal_name i) (ascii ''vlog-'') suf = None"
  "parse_file_id (vlog_name i) (ascii ''sst-'') suf = None"
  by (simp_all add: parse_file_id_def wal_name_def vlog_name_def strip_prefix_def ascii_def)

lemma file_names_utf8 [simp]:
  "utf8_valid (table_name i)" "utf8_valid (vlog_name i)" "utf8_valid (wal_name i)"
proof -
  have "b < 0x80" if "b \<in> set (fmt06 i)" for b
    using fmt06_bytes [OF that] by (auto intro: le_less_trans)
  then show "utf8_valid (table_name i)" "utf8_valid (vlog_name i)" "utf8_valid (wal_name i)"
    by (auto simp: list_all_iff table_name_def vlog_name_def wal_name_def ascii_def intro!: utf8_valid_ascii)
qed

section \<open>The directory\<close>

datatype fs_fault = NoEffect | Torn nat

record dir_fs =
  df_files :: "bytes \<Rightarrow> bytes option"
  df_faults :: "fs_fault option list"
  df_stuck :: "bytes \<Rightarrow> bool"

definition next_fs_fault :: "dir_fs \<Rightarrow> fs_fault option \<times> dir_fs" where
  "next_fs_fault d = (case df_faults d of [] \<Rightarrow> (None, d) | x # xs \<Rightarrow> (x, d\<lparr>df_faults := xs\<rparr>))"

text \<open>Create or truncate, write everything, fsync.\<close>

definition fs_write :: "bytes \<Rightarrow> bytes \<Rightarrow> dir_fs \<Rightarrow> unit res \<times> dir_fs" where
  "fs_write name content d =
     (let (fault, d) = next_fs_fault d
      in case fault of
           None \<Rightarrow> (Ok (), d\<lparr>df_files := (df_files d)(name \<mapsto> content)\<rparr>)
         | Some NoEffect \<Rightarrow> (Err (Io ''write''), d)
         | Some (Torn n) \<Rightarrow> (Err (Io ''write''), d\<lparr>df_files := (df_files d)(name \<mapsto> take n content)\<rparr>))"

definition fs_rename :: "bytes \<Rightarrow> bytes \<Rightarrow> dir_fs \<Rightarrow> unit res \<times> dir_fs" where
  "fs_rename a b d =
     (let (fault, d) = next_fs_fault d
      in case (fault, df_files d a) of
           (None, Some content) \<Rightarrow> (Ok (), d\<lparr>df_files := (df_files d)(a := None, b \<mapsto> content)\<rparr>)
         | _ \<Rightarrow> (Err (Io ''rename''), d))"

definition sync_dir :: "dir_fs \<Rightarrow> unit res \<times> dir_fs" where
  "sync_dir d =
     (let (fault, d) = next_fs_fault d
      in case fault of None \<Rightarrow> (Ok (), d) | Some _ \<Rightarrow> (Err (Io ''fsync''), d))"

definition fs_read :: "bytes \<Rightarrow> dir_fs \<Rightarrow> bytes res" where
  "fs_read name d = (case df_files d name of None \<Rightarrow> Err (Io ''not found'') | Some content \<Rightarrow> Ok content)"

text \<open>\<open>?\<close> on a call that also returns the directory.\<close>

definition fs_bind :: "unit res \<times> dir_fs \<Rightarrow> (dir_fs \<Rightarrow> unit res \<times> dir_fs) \<Rightarrow> unit res \<times> dir_fs" where
  "fs_bind m k = (case m of (Inl e, d) \<Rightarrow> (Inl e, d) | (Inr _, d) \<Rightarrow> k d)"

definition with_tmp_extension :: "bytes \<Rightarrow> bytes" where
  "with_tmp_extension name =
     (let ext = takeWhile (\<lambda>b. b \<noteq> 46) (rev name)
      in (if length name \<le> length ext + 1 then name else take (length name - length ext - 1) name) @ ascii ''.tmp'')"

definition atomic_write :: "bytes \<Rightarrow> bytes \<Rightarrow> dir_fs \<Rightarrow> unit res \<times> dir_fs" where
  "atomic_write name content d =
     (let tmp = with_tmp_extension name in
      fs_bind (fs_write tmp content d) (\<lambda>d.
      fs_bind (fs_rename tmp name d) (\<lambda>d.
      sync_dir d)))"

section \<open>Publishing and loading a manifest\<close>

definition manifest_save :: "(bytes \<Rightarrow> u32) \<Rightarrow> u64 \<Rightarrow> manifest_data \<Rightarrow> dir_fs \<Rightarrow> unit res \<times> dir_fs" where
  "manifest_save crc gen m d =
     fs_bind (fs_write (manifest_name gen) (manifest_encode crc m) d) (\<lambda>d.
     fs_bind (sync_dir d) (\<lambda>d.
     atomic_write current_name (manifest_name gen @ [10]) d))"

text \<open>
  \<open>str::trim\<close> removes the characters of Unicode's White_Space property at both ends; these
  are their UTF-8 encodings.
\<close>

definition white_space :: "bytes list" where
  "white_space = [[9], [10], [11], [12], [13], [32], [0xC2, 0x85], [0xC2, 0xA0], [0xE1, 0x9A, 0x80],
     [0xE2, 0x80, 0x80], [0xE2, 0x80, 0x81], [0xE2, 0x80, 0x82], [0xE2, 0x80, 0x83], [0xE2, 0x80, 0x84],
     [0xE2, 0x80, 0x85], [0xE2, 0x80, 0x86], [0xE2, 0x80, 0x87], [0xE2, 0x80, 0x88], [0xE2, 0x80, 0x89],
     [0xE2, 0x80, 0x8A], [0xE2, 0x80, 0xA8], [0xE2, 0x80, 0xA9], [0xE2, 0x80, 0xAF], [0xE2, 0x81, 0x9F],
     [0xE3, 0x80, 0x80]]"

definition ws_len :: "bytes list \<Rightarrow> bytes \<Rightarrow> nat" where
  "ws_len ws s = (case find (\<lambda>w. take (length w) s = w) ws of None \<Rightarrow> 0 | Some w \<Rightarrow> length w)"

function trim_start :: "bytes list \<Rightarrow> bytes \<Rightarrow> bytes" where
  "trim_start ws s = (if s = [] \<or> ws_len ws s = 0 then s else trim_start ws (drop (ws_len ws s) s))"
  by pat_completeness auto
termination
  by (relation "measure (\<lambda>(ws, s). length s)") auto

declare trim_start.simps [simp del]

definition trim_str :: "bytes \<Rightarrow> bytes" where
  "trim_str s = rev (trim_start (map rev white_space) (rev (trim_start white_space s)))"

definition manifest_load :: "(bytes \<Rightarrow> u32) \<Rightarrow> dir_fs \<Rightarrow> (u64 \<times> manifest_data) res" where
  "manifest_load crc d =
     rbind (fs_read current_name d) (\<lambda>cur.
     if \<not> utf8_valid cur then Err (Io ''stream did not contain valid UTF-8'') else
     let name = trim_str cur in
     case generation name of
       None \<Rightarrow> Err (corrupt ''bad CURRENT contents: {name:?}'')
     | Some gen \<Rightarrow>
         rbind (fs_read name d) (\<lambda>bs.
         rbind (manifest_decode crc bs) (\<lambda>m. Ok (gen, m))))"

definition manifest_exists :: "dir_fs \<Rightarrow> bool" where
  "manifest_exists d \<longleftrightarrow> df_files d current_name \<noteq> None"

text \<open>Best effort: a file that will not go (\<open>df_stuck\<close>) is left.\<close>

definition manifest_sweep :: "(u64 \<Rightarrow> bool) \<Rightarrow> dir_fs \<Rightarrow> dir_fs" where
  "manifest_sweep stale d = d\<lparr>df_files := (\<lambda>name.
     case generation name of
       None \<Rightarrow> df_files d name
     | Some gen \<Rightarrow> if \<not> stale gen \<or> df_stuck d name then df_files d name else None)\<rparr>"

record manifest_state =
  ms_gen :: u64
  ms_data :: manifest_data

definition manifest_commit :: "(bytes \<Rightarrow> u32) \<Rightarrow> manifest_data \<Rightarrow> manifest_state \<Rightarrow> dir_fs
    \<Rightarrow> unit res \<times> manifest_state \<times> dir_fs" where
  "manifest_commit crc m st d =
     (let gen = ms_gen st + 1
      in case manifest_save crc gen m d of
           (Inl e, d) \<Rightarrow> (Err e, st, d)
         | (Inr _, d) \<Rightarrow> (Ok (), \<lparr>ms_gen = gen, ms_data = m\<rparr>, manifest_sweep (\<lambda>stale. stale < gen) d))"

section \<open>Trimming the contents of CURRENT\<close>

lemma ws_len_0:
  assumes "s = b # r" and "\<forall>w \<in> set ws. w \<noteq> [] \<and> hd w \<noteq> b"
  shows "ws_len ws s = 0"
proof -
  have "take (length w) s \<noteq> w" if "w \<in> set ws" for w
    using assms that by (cases w) auto
  then have "find (\<lambda>w. take (length w) s = w) ws = None" by (simp add: find_None_iff)
  then show ?thesis by (simp add: ws_len_def)
qed

lemma trim_start_none:
  "s = b # r \<Longrightarrow> \<forall>w \<in> set ws. w \<noteq> [] \<and> hd w \<noteq> b \<Longrightarrow> trim_start ws s = s"
  by (subst trim_start.simps) (simp add: ws_len_0)

lemma trim_manifest_name [simp]: "trim_str (manifest_name gen @ [10]) = manifest_name gen"
proof -
  have 1: "trim_start white_space (manifest_name gen @ [10]) = manifest_name gen @ [10]"
    by (rule trim_start_none [where b = 77]) (auto simp: manifest_name_def ascii_def white_space_def)
  obtain b r where br: "rev (manifest_name gen) = b # r" "48 \<le> b" "b \<le> 57"
  proof -
    have "last (fmt06 gen) \<in> set (fmt06 gen)" by simp
    then have "48 \<le> last (fmt06 gen) \<and> last (fmt06 gen) \<le> 57" by (rule fmt06_bytes)
    moreover have "rev (manifest_name gen) = last (fmt06 gen) # tl (rev (manifest_name gen))"
      unfolding manifest_name_def rev_append
      by (metis append_is_Nil_conv fmt06_not_Nil hd_append2 hd_rev list.collapse rev_is_Nil_conv)
    ultimately show ?thesis by (intro that) auto
  qed
  have 2: "trim_start (map rev white_space) (b # r) = b # r"
    using br(2,3) by (intro trim_start_none) (auto simp: white_space_def)
  have "ws_len (map rev white_space) (10 # b # r) = 1"
    by (simp add: ws_len_def white_space_def)
  then have "trim_start (map rev white_space) (10 # b # r) = b # r"
    using 2 by (subst trim_start.simps) simp
  then show ?thesis using 1 br(1) by (simp add: trim_str_def)
qed

lemma manifest_name_utf8 [simp]: "utf8_valid (manifest_name gen @ [10])"
proof (rule utf8_valid_ascii)
  have "b < 0x80" if "b \<in> set (fmt06 gen)" for b
    using fmt06_bytes [OF that] by (auto intro: le_less_trans)
  then show "list_all (\<lambda>b. b < 0x80) (manifest_name gen @ [10])"
    by (auto simp: list_all_iff manifest_name_def ascii_def)
qed

lemma manifest_name_distinct [simp]:
  "manifest_name gen \<noteq> current_name" "manifest_name gen \<noteq> with_tmp_extension current_name"
  "manifest_name gen = manifest_name gen' \<longleftrightarrow> gen = gen'"
  by (auto simp: manifest_name_def current_name_def with_tmp_extension_def ascii_def dest: fmt06_inj)

lemmas manifest_name_distinct' [simp] = manifest_name_distinct(1,2) [THEN not_sym]

lemma current_tmp_distinct [simp]: "with_tmp_extension current_name \<noteq> current_name"
  by (simp add: current_name_def with_tmp_extension_def ascii_def)

definition init_fresh :: "(bytes \<Rightarrow> u32) \<Rightarrow> dir_fs \<Rightarrow> unit res \<times> dir_fs" where
  "init_fresh crc d = manifest_save crc 1
     \<lparr>md_next_file_id = 1, md_last_flushed_seqno = 0, md_wal_floor = 0, md_levels = [], md_vlog_live = [],
       md_vlog_head = 0, md_vlog_retired = [], md_discard = [], md_identity = None, md_pending_fork = None,
       md_pins = []\<rparr> d"

section \<open>Identity and orphans at open\<close>

definition resolve_identity ::
    "(bytes \<Rightarrow> bytes) \<Rightarrow> manifest_data \<Rightarrow> bytes option \<Rightarrow> unit res \<times> manifest_data" where
  "resolve_identity sha m requested =
     (case (case requested of Some name \<Rightarrow> validate_store_name name | None \<Rightarrow> Ok ()) of
        Inl e \<Rightarrow> (Err e, m)
      | Inr _ \<Rightarrow>
        (case md_pending_fork m of
           Some pf \<Rightarrow>
             let m = m\<lparr>md_pending_fork := None\<rparr> in
             if (case requested of Some r \<Rightarrow> r \<noteq> pf_name pf | None \<Rightarrow> False)
             then (Err (InvalidArgument ''store_name {:?} conflicts with fork name {:?} fixed at fork/restore''), m)
             else (Ok (), m\<lparr>md_identity := Some (pending_mint sha pf)\<rparr>)
         | None \<Rightarrow>
             (case (md_identity m, requested) of
                (Some i, Some req) \<Rightarrow>
                  if si_name i \<noteq> req
                  then (Err (InvalidArgument ''store is named {:?}; store_name {req:?} does not match''), m)
                  else (Ok (), m)
              | (None, Some req) \<Rightarrow> (Ok (), m\<lparr>md_identity := Some (identity_root sha req)\<rparr>)
              | _ \<Rightarrow> (Ok (), m))))"

definition referenced_tables :: "manifest_data \<Rightarrow> u64 set" where
  "referenced_tables m = set (concat (map (\<lambda>l. concat (map rm_table_ids l)) (md_levels m)))"

definition live_vlogs :: "manifest_data \<Rightarrow> u64 set" where
  "live_vlogs m = set (md_vlog_live m) \<union> set (map fst (md_vlog_retired m))"

definition startup_orphan :: "manifest_data \<Rightarrow> bytes \<Rightarrow> bool" where
  "startup_orphan m name \<longleftrightarrow> utf8_valid name \<and>
     (case parse_file_id name (ascii ''sst-'') (ascii ''.tbl'') of
        Some i \<Rightarrow> i \<notin> referenced_tables m
      | None \<Rightarrow>
     (case parse_file_id name (ascii ''vlog-'') (ascii ''.vlog'') of
        Some i \<Rightarrow> i \<notin> live_vlogs m
      | None \<Rightarrow>
     (case parse_file_id name (ascii ''wal-'') (ascii ''.log'') of
        Some i \<Rightarrow> i < md_wal_floor m
      | None \<Rightarrow> False)))"

lemma startup_orphan_names:
  "startup_orphan m (table_name i) \<longleftrightarrow> i \<notin> referenced_tables m"
  "startup_orphan m (vlog_name i) \<longleftrightarrow> i \<notin> live_vlogs m"
  "startup_orphan m (wal_name i) \<longleftrightarrow> i < md_wal_floor m"
  by (simp_all add: startup_orphan_def)

definition startup_gc :: "manifest_data \<Rightarrow> dir_fs \<Rightarrow> dir_fs" where
  "startup_gc m d = d\<lparr>df_files := (\<lambda>name.
     if startup_orphan m name \<and> \<not> df_stuck d name then None else df_files d name)\<rparr>"

lemma startup_gc_files:
  "df_files (startup_gc m d) n = (if startup_orphan m n \<and> \<not> df_stuck d n then None else df_files d n)"
  by (simp add: startup_gc_def)

section \<open>What a directory loads\<close>

definition loads :: "(bytes \<Rightarrow> u32) \<Rightarrow> dir_fs \<Rightarrow> bytes \<Rightarrow> u64 \<Rightarrow> manifest_data \<Rightarrow> bool" where
  "loads crc d name gen m \<longleftrightarrow> (\<exists>cur bs. df_files d current_name = Some cur \<and> utf8_valid cur \<and> trim_str cur = name
     \<and> generation name = Some gen \<and> df_files d name = Some bs \<and> manifest_decode crc bs = Ok m)"

lemma manifest_load_iff: "manifest_load crc d = Ok (gen, m) \<longleftrightarrow> (\<exists>name. loads crc d name gen m)"
  by (auto simp: manifest_load_def loads_def fs_read_def Let_def rbind_Inr_conv split: option.splits if_splits)

lemma loads_generation: "loads crc d name gen m \<Longrightarrow> generation name = Some gen"
  by (auto simp: loads_def)

lemma loads_cong:
  "df_files d' current_name = df_files d current_name \<Longrightarrow> df_files d' name = df_files d name \<Longrightarrow>
   loads crc d' name gen m \<longleftrightarrow> loads crc d name gen m"
  by (simp add: loads_def)

lemma generation_current_tmp [simp]: "generation (with_tmp_extension current_name) = None"
  by (simp add: generation_def strip_prefix_def current_name_def with_tmp_extension_def ascii_def)

lemma fs_bind_simps [simp]:
  "fs_bind (Inl e, d) k = (Inl e, d)" "fs_bind (Inr u, d) k = k d"
  by (simp_all add: fs_bind_def)

lemma next_fs_fault_files [simp]: "next_fs_fault d = (x, d') \<Longrightarrow> df_files d' = df_files d"
  by (auto simp: next_fs_fault_def split: list.splits)

text \<open>Each call changes at most the names it is given.\<close>

lemma fs_write_files:
  assumes "fs_write name content d = (r, d')"
  shows "n \<noteq> name \<Longrightarrow> df_files d' n = df_files d n" and "r = Ok () \<Longrightarrow> df_files d' name = Some content"
  using assms by (auto simp: fs_write_def split: prod.splits option.splits fs_fault.splits dest: next_fs_fault_files)

lemma sync_dir_files: "sync_dir d = (r, d') \<Longrightarrow> df_files d' = df_files d"
  by (auto simp: sync_dir_def split: prod.splits option.splits)

lemma fs_rename_files:
  assumes "fs_rename a b d = (r, d')" and "a \<noteq> b"
  shows "df_files d' = df_files d \<and> r \<noteq> Ok () \<or>
    (\<exists>content. df_files d a = Some content \<and> df_files d' = (df_files d)(a := None, b \<mapsto> content))"
  using assms by (auto simp: fs_rename_def split: prod.splits option.splits dest: next_fs_fault_files)

lemma atomic_write_files:
  assumes "atomic_write name content d = (r, d')" and tmp: "with_tmp_extension name \<noteq> name"
  shows "(\<forall>n. n \<noteq> with_tmp_extension name \<longrightarrow> df_files d' n = df_files d n) \<and> r \<noteq> Ok () \<or>
    (\<forall>n. n \<noteq> with_tmp_extension name \<longrightarrow> df_files d' n = ((df_files d)(name \<mapsto> content)) n)"
proof -
  let ?tmp = "with_tmp_extension name"
  obtain r1 d1 where w: "fs_write ?tmp content d = (r1, d1)" by (cases "fs_write ?tmp content d")
  obtain r2 d2 where n: "fs_rename ?tmp name d1 = (r2, d2)" by (cases "fs_rename ?tmp name d1")
  show ?thesis
  proof (cases r1)
    case (Inl e)
    then show ?thesis using assms(1) w fs_write_files(1) [OF w] by (auto simp: atomic_write_def)
  next
    case [simp]: (Inr u)
    have t: "df_files d1 ?tmp = Some content" using fs_write_files(2) [OF w] by simp
    show ?thesis
    proof (cases r2)
      case (Inl e)
      have "df_files d2 = df_files d1" using n Inl
        by (auto simp: fs_rename_def split: prod.splits option.splits dest: next_fs_fault_files)
      then show ?thesis using assms(1) w n Inl fs_write_files(1) [OF w] by (auto simp: atomic_write_def)
    next
      case [simp]: (Inr u')
      have "df_files d2 = (df_files d1)(?tmp := None, name \<mapsto> content)"
        using fs_rename_files [OF n tmp] t by auto
      moreover have "df_files d' = df_files d2" using assms(1) w n sync_dir_files by (simp add: atomic_write_def)
      ultimately show ?thesis using fs_write_files(1) [OF w] by auto
    qed
  qed
qed

lemma manifest_save_files:
  assumes "manifest_save crc gen m d = (r, d')"
  shows "(\<forall>n. n \<noteq> with_tmp_extension current_name \<and> n \<noteq> manifest_name gen \<longrightarrow> df_files d' n = df_files d n) \<and> r \<noteq> Ok () \<or>
    (\<forall>n. n \<noteq> with_tmp_extension current_name \<longrightarrow> df_files d' n =
      ((df_files d)(manifest_name gen \<mapsto> manifest_encode crc m, current_name \<mapsto> manifest_name gen @ [10])) n)"
proof -
  let ?m = "manifest_name gen" and ?c = "manifest_encode crc m"
  obtain r1 d1 where w: "fs_write ?m ?c d = (r1, d1)" by (cases "fs_write ?m ?c d")
  obtain r2 d2 where n: "sync_dir d1 = (r2, d2)" by (cases "sync_dir d1")
  have d2: "df_files d2 = df_files d1" using sync_dir_files [OF n] .
  show ?thesis
  proof (cases r1)
    case (Inl e)
    then show ?thesis using assms w fs_write_files(1) [OF w] by (auto simp: manifest_save_def)
  next
    case [simp]: (Inr u)
    show ?thesis
    proof (cases r2)
      case (Inl e)
      then show ?thesis using assms w n d2 fs_write_files(1) [OF w] by (auto simp: manifest_save_def)
    next
      case [simp]: (Inr u')
      have a: "atomic_write current_name (?m @ [10]) d2 = (r, d')" using assms w n by (simp add: manifest_save_def)
      show ?thesis
        using atomic_write_files [OF a current_tmp_distinct] d2 fs_write_files [OF w] by (auto simp: fun_upd_def)
    qed
  qed
qed

lemma manifest_save_cases:
  assumes "manifest_load crc d = Ok (gen0, m0)" and "gen \<noteq> gen0" and "manifest_ok m"
    and "manifest_save crc gen m d = (r, d')"
  shows "(manifest_load crc d' = Ok (gen0, m0) \<and> r \<noteq> Ok ()) \<or> manifest_load crc d' = Ok (gen, m)"
proof -
  obtain name where l: "loads crc d name gen0 m0" using assms(1) by (auto simp: manifest_load_iff)
  then have g: "generation name = Some gen0" by (rule loads_generation)
  then have nm: "name \<noteq> manifest_name gen" "name \<noteq> with_tmp_extension current_name"
    using assms(2) generation_current_tmp by force+
  from manifest_save_files [OF assms(4)] show ?thesis
  proof (elim disjE)
    assume "(\<forall>n. n \<noteq> with_tmp_extension current_name \<and> n \<noteq> manifest_name gen \<longrightarrow> df_files d' n = df_files d n) \<and> r \<noteq> Ok ()"
    then have "loads crc d' name gen0 m0 \<and> r \<noteq> Ok ()" using l nm loads_cong [of d' d name]
      by (metis current_tmp_distinct manifest_name_distinct(1))
    then show ?thesis by (auto simp: manifest_load_iff)
  next
    assume f: "\<forall>n. n \<noteq> with_tmp_extension current_name \<longrightarrow> df_files d' n =
      ((df_files d)(manifest_name gen \<mapsto> manifest_encode crc m, current_name \<mapsto> manifest_name gen @ [10])) n"
    have "manifest_decode crc (manifest_encode crc m) = Ok m"
      using manifest_reads_back [OF assms(3)] .
    moreover have "df_files d' current_name = Some (manifest_name gen @ [10])"
      "df_files d' (manifest_name gen) = Some (manifest_encode crc m)"
      using f current_tmp_distinct [symmetric] by simp_all
    ultimately have "loads crc d' (manifest_name gen) gen m" by (simp add: loads_def)
    then show ?thesis by (auto simp: manifest_load_iff)
  qed
qed

section \<open>Properties\<close>

text \<open>A directory that holds one generation, for the witnesses below.\<close>

definition sample_manifest :: manifest_data where
  "sample_manifest = \<lparr>md_next_file_id = 9, md_last_flushed_seqno = 4, md_wal_floor = 3,
     md_levels = [[\<lparr>rm_id = 5, rm_table_ids = [1, 2]\<rparr>], []], md_vlog_live = [6], md_vlog_head = 6,
     md_vlog_retired = [(2, 3)], md_discard = [(6, 40)], md_identity = None,
     md_pending_fork = None, md_pins = []\<rparr>"

definition sample_dir :: "fs_fault option list \<Rightarrow> dir_fs" where
  "sample_dir faults = \<lparr>df_files = [current_name \<mapsto> manifest_name 1 @ [10],
       manifest_name 1 \<mapsto> manifest_encode (\<lambda>_. 7) sample_manifest],
     df_faults = faults, df_stuck = (\<lambda>_. False)\<rparr>"

lemma sample_manifest_ok: "manifest_ok sample_manifest"
  by (simp add: sample_manifest_def manifest_ok_def slice_len_ok_def run_meta_ok_def identity_ok_def pending_ok_def)

lemma sample_dir_loads: "manifest_load (\<lambda>_. 7) (sample_dir faults) = Ok (1, sample_manifest)"
  using manifest_reads_back [OF sample_manifest_ok]
  by (auto simp: manifest_load_iff loads_def sample_dir_def intro!: exI [of _ "manifest_name 1"])





text \<open>
  C38: opening a store settles its identity once: a pending fork is minted and consumed, a name
  is adopted only by a store that has none, a name that does not match is refused, and opening
  again changes nothing.
\<close>

theorem resolve_identity_settles:
  assumes "resolve_identity sha m requested = (Ok (), m')"
  shows "md_pending_fork m' = None
    \<and> resolve_identity sha m' requested = (Ok (), m')
    \<and> (md_pending_fork m = None \<and> md_identity m \<noteq> None \<longrightarrow> m' = m)
    \<and> (\<forall>name. requested = Some name \<longrightarrow> (\<exists>i. md_identity m' = Some i \<and> si_name i = name))
    \<and> (\<forall>pf. md_pending_fork m = Some pf \<longrightarrow> md_identity m' = Some (pending_mint sha pf))"
  using assms unfolding resolve_identity_def
  by (auto simp: Let_def pending_mint_def identity_root_def split: option.splits sum.splits if_splits)

theorem resolve_identity_settles_witness:
  "\<exists>m'. resolve_identity rev (\<lparr>md_next_file_id = 1, md_last_flushed_seqno = 0, md_wal_floor = 0, md_levels = [],
       md_vlog_live = [], md_vlog_head = 0, md_vlog_retired = [], md_discard = [], md_identity = None,
       md_pending_fork = Some \<lparr>pf_parent_instance_id = replicate 16 1, pf_cut_seqno = 7, pf_name = [97]\<rparr>,
       md_pins = []\<rparr>) (Some [97]) = (Ok (), m') \<and> md_pending_fork m' = None"
proof -
  let ?m = "\<lparr>md_next_file_id = 1, md_last_flushed_seqno = 0, md_wal_floor = 0, md_levels = [],
       md_vlog_live = [], md_vlog_head = 0, md_vlog_retired = [], md_discard = [], md_identity = None,
       md_pending_fork = Some \<lparr>pf_parent_instance_id = replicate 16 1, pf_cut_seqno = 7, pf_name = [97]\<rparr>,
       md_pins = []\<rparr>"
  have "validate_store_name [97] = Ok ()" by (simp add: validate_store_name_def name_byte_def ascii_alphanumeric_def)
  then obtain m' where "resolve_identity rev ?m (Some [97]) = (Ok (), m')" by (simp add: resolve_identity_def)
  then show ?thesis using resolve_identity_settles [of rev ?m "Some [97]" m'] by blast
qed

text \<open>
  C39: the sweep at open never deletes a file recovery needs: a table of a level, a value log
  that is live or awaits its retirement, a write-ahead log at or above the floor, the manifest;
  and every unreferenced table, value log and flushed write-ahead log that can go is gone.
\<close>

theorem startup_gc_keeps_referenced:
  shows "(\<forall>run level i. level \<in> set (md_levels m) \<and> run \<in> set level \<and> i \<in> set (rm_table_ids run) \<longrightarrow>
      df_files (startup_gc m d) (table_name i) = df_files d (table_name i))
    \<and> (\<forall>i. i \<in> live_vlogs m \<longrightarrow> df_files (startup_gc m d) (vlog_name i) = df_files d (vlog_name i))
    \<and> (\<forall>i. md_wal_floor m \<le> i \<longrightarrow> df_files (startup_gc m d) (wal_name i) = df_files d (wal_name i))
    \<and> manifest_load crc (startup_gc m d) = manifest_load crc d
    \<and> (\<forall>i. i \<notin> referenced_tables m \<and> \<not> df_stuck d (table_name i) \<longrightarrow> df_files (startup_gc m d) (table_name i) = None)
    \<and> (\<forall>i. i \<notin> live_vlogs m \<and> \<not> df_stuck d (vlog_name i) \<longrightarrow> df_files (startup_gc m d) (vlog_name i) = None)
    \<and> (\<forall>i. i < md_wal_floor m \<and> \<not> df_stuck d (wal_name i) \<longrightarrow> df_files (startup_gc m d) (wal_name i) = None)"
proof -
  have g: "\<not> startup_orphan m n" if h: "generation n = Some k \<or> n = current_name" for n k
  proof -
    obtain r where "n = ascii ''MANIFEST-'' @ r \<or> n = current_name"
      using h strip_prefix_SomeD by (auto simp: generation_def bind_eq_Some_conv)
    then show ?thesis
      by (auto simp: startup_orphan_def parse_file_id_def strip_prefix_def current_name_def ascii_def)
  qed
  have n: "fs_read n (startup_gc m d) = fs_read n d" if h: "generation n \<noteq> None \<or> n = current_name" for n
  proof -
    have "\<not> startup_orphan m n" using g h by blast
    then show ?thesis by (simp add: fs_read_def startup_gc_def)
  qed
  have load: "manifest_load crc (startup_gc m d) = manifest_load crc d"
  proof (cases "fs_read current_name d")
    case (Inr cur)
    then show ?thesis using n [of current_name] n [of "trim_str cur"]
      by (cases "generation (trim_str cur)") (simp_all add: manifest_load_def Let_def)
  qed (use n [of current_name] in \<open>simp add: manifest_load_def\<close>)
  have "i \<in> referenced_tables m" if "level \<in> set (md_levels m)" "run \<in> set level" "i \<in> set (rm_table_ids run)" for level run i
    using that by (auto simp: referenced_tables_def)
  then have tables: "\<forall>run level i. level \<in> set (md_levels m) \<and> run \<in> set level \<and> i \<in> set (rm_table_ids run) \<longrightarrow>
      df_files (startup_gc m d) (table_name i) = df_files d (table_name i)"
    unfolding startup_gc_files startup_orphan_names by metis
  have wals: "\<forall>i. md_wal_floor m \<le> i \<longrightarrow> df_files (startup_gc m d) (wal_name i) = df_files d (wal_name i)"
    unfolding startup_gc_files startup_orphan_names by (metis leD)
  show ?thesis
    by (intro conjI tables load wals) (simp_all add: startup_gc_files startup_orphan_names)
qed

theorem startup_gc_keeps_referenced_witness:
  "df_files (startup_gc sample_manifest (sample_dir [])) (table_name 2) = df_files (sample_dir []) (table_name 2)
    \<and> df_files (startup_gc sample_manifest (sample_dir [])) (wal_name 3) = df_files (sample_dir []) (wal_name 3)"
proof -
  have "\<exists>level run. level \<in> set (md_levels sample_manifest) \<and> run \<in> set level \<and> 2 \<in> set (rm_table_ids run)"
    by (intro exI [of _ "[\<lparr>rm_id = 5, rm_table_ids = [1, 2]\<rparr>]"] exI [of _ "\<lparr>rm_id = 5, rm_table_ids = [1, 2]\<rparr>"])
      (simp add: sample_manifest_def)
  moreover have "md_wal_floor sample_manifest \<le> 3" by (simp add: sample_manifest_def)
  ultimately show ?thesis using startup_gc_keeps_referenced [of sample_manifest "sample_dir []"] by blast
qed

end
