(* ===== verification/Snapshots.thy ===== *)
theory Snapshots
  imports Treemap Types
begin

text \<open>
  \<open>crates/fluent31/src/db.rs\<close>: the registered snapshots and the GC watermark. The snapshots
  mutex makes each operation one step on the pair of the counts and the visible seqno. What
  garbage collection may assume is the horizon: the smallest seqno any registered snapshot, or
  a reader of the present, may use; it never moves back.
\<close>

type_synonym snapshot_list = "(seqno \<times> nat) list"

definition snap_register :: "seqno \<Rightarrow> snapshot_list \<Rightarrow> snapshot_list" where
  "snap_register seq counts = tm_put seq ((case map_of counts seq of None \<Rightarrow> 0 | Some c \<Rightarrow> c) + 1) counts"

definition snap_deregister :: "seqno \<Rightarrow> snapshot_list \<Rightarrow> snapshot_list" where
  "snap_deregister seq counts =
     (case map_of counts seq of
        None \<Rightarrow> counts
      | Some c \<Rightarrow> if c - 1 = 0 then tm_del seq counts else tm_put seq (c - 1) counts)"

definition snap_len :: "snapshot_list \<Rightarrow> nat" where
  "snap_len counts = sum_list (map snd counts)"

definition snap_min :: "snapshot_list \<Rightarrow> seqno option" where
  "snap_min counts = (case counts of [] \<Rightarrow> None | (seq, _) # _ \<Rightarrow> Some seq)"

record snap_state =
  st_visible :: seqno
  st_snapshots :: snapshot_list

definition register_snapshot :: "snap_state \<Rightarrow> seqno \<times> snap_state" where
  "register_snapshot s = (let seq = st_visible s in (seq, s\<lparr>st_snapshots := snap_register seq (st_snapshots s)\<rparr>))"

definition register_snapshot_at :: "seqno \<Rightarrow> snap_state \<Rightarrow> snap_state" where
  "register_snapshot_at seq s = s\<lparr>st_snapshots := snap_register seq (st_snapshots s)\<rparr>"

definition try_register_snapshot_at :: "seqno \<Rightarrow> snap_state \<Rightarrow> unit res \<times> snap_state" where
  "try_register_snapshot_at seq s =
     (let visible = st_visible s in
      if visible < seq
      then (Err (InvalidArgument ''seqno {seq} has not been committed yet (visible seqno is {visible})''), s)
      else
        let wm = (case snap_min (st_snapshots s) of None \<Rightarrow> visible + 1 | Some m \<Rightarrow> m)
        in if seq < wm \<and> seq \<noteq> visible
           then (Err (InvalidArgument ''state at seqno {seq} is no longer retained (GC watermark is {wm}); create a pin at the points you want to keep fork-able''), s)
           else (Ok (), s\<lparr>st_snapshots := snap_register seq (st_snapshots s)\<rparr>))"

definition deregister_snapshot :: "seqno \<Rightarrow> snap_state \<Rightarrow> snap_state" where
  "deregister_snapshot seq s = s\<lparr>st_snapshots := snap_deregister seq (st_snapshots s)\<rparr>"

definition watermark :: "snap_state \<Rightarrow> seqno" where
  "watermark s = (case snap_min (st_snapshots s) of Some m \<Rightarrow> m | None \<Rightarrow> st_visible s + 1)"

section \<open>The counts\<close>

definition snaps_ok :: "snapshot_list \<Rightarrow> bool" where
  "snaps_ok counts \<longleftrightarrow> tm_keys_ok counts \<and> (\<forall>(seq, c) \<in> set counts. 0 < c)"

text \<open>The seqnos that are registered.\<close>

definition registered :: "snapshot_list \<Rightarrow> seqno set" where
  "registered counts = set (map fst counts)"

lemma registered_finite [simp]: "finite (registered counts)"
  by (simp add: registered_def)

lemma registered_map_of: "q \<in> registered counts \<longleftrightarrow> map_of counts q \<noteq> None"
  unfolding registered_def by (simp only: map_of_eq_None_iff not_not set_map)

definition snap_count :: "snapshot_list \<Rightarrow> seqno \<Rightarrow> nat" where
  "snap_count counts seq = (case map_of counts seq of None \<Rightarrow> 0 | Some c \<Rightarrow> c)"

lemma snaps_ok_map_of: "tm_keys_ok counts \<Longrightarrow> snaps_ok counts \<longleftrightarrow> (\<forall>seq c. map_of counts seq = Some c \<longrightarrow> 0 < c)"
  by (auto simp: snaps_ok_def tm_mem_map_of)

lemma snaps_ok_ops [simp]:
  assumes "snaps_ok counts"
  shows "snaps_ok (snap_register seq counts)" and "snaps_ok (snap_deregister seq counts)"
proof -
  have k: "tm_keys_ok counts" using assms by (simp add: snaps_ok_def)
  then have p: "\<forall>seq c. map_of counts seq = Some c \<longrightarrow> 0 < c" using assms snaps_ok_map_of by blast
  show "snaps_ok (snap_register seq counts)"
    using k p by (subst snaps_ok_map_of) (auto simp: snap_register_def)
  show "snaps_ok (snap_deregister seq counts)"
  proof (cases "map_of counts seq")
    case None
    then show ?thesis using assms by (simp add: snap_deregister_def)
  next
    case (Some c)
    then show ?thesis using k p by (subst snaps_ok_map_of) (auto simp: snap_deregister_def)
  qed
qed

lemma snap_count_ops:
  assumes "snaps_ok counts"
  shows "snap_count (snap_register seq counts) q = snap_count counts q + (if q = seq then 1 else 0)"
    and "snap_count (snap_deregister seq counts) q = snap_count counts q - (if q = seq then 1 else 0)"
proof -
  have k: "tm_keys_ok counts" using assms by (simp add: snaps_ok_def)
  show "snap_count (snap_register seq counts) q = snap_count counts q + (if q = seq then 1 else 0)"
    using k by (auto simp: snap_count_def snap_register_def)
  show "snap_count (snap_deregister seq counts) q = snap_count counts q - (if q = seq then 1 else 0)"
    using k by (auto simp: snap_count_def snap_deregister_def split: option.splits)
qed

lemma snap_count_pos:
  assumes "snaps_ok counts"
  shows "0 < snap_count counts q \<longleftrightarrow> q \<in> registered counts"
  using assms by (cases "map_of counts q") (auto simp: snap_count_def registered_map_of snaps_ok_def dest: map_of_SomeD)

lemma snap_min_spec:
  assumes "snaps_ok counts"
  shows "snap_min counts = (if registered counts = {} then None else Some (Min (registered counts)))"
proof (cases counts)
  case (Cons e es)
  have "\<And>q. q \<in> registered es \<Longrightarrow> fst e \<le> q"
    using assms Cons by (auto simp: snaps_ok_def tm_keys_ok_def registered_def intro: less_imp_le)
  then have "Min (insert (fst e) (registered es)) = fst e" by (intro Min_insert2) simp_all
  moreover have "registered counts = insert (fst e) (registered es)" by (simp add: registered_def Cons)
  ultimately show ?thesis using Cons by (cases e) (simp add: snap_min_def)
qed (simp add: snap_min_def registered_def)

section \<open>The life of the snapshots\<close>

text \<open>
  One step of any thread: a snapshot is registered at the visible seqno or at an explicit one,
  one of the registered ones is released, or the committer publishes.
\<close>

inductive snap_step :: "snap_state \<Rightarrow> snap_state \<Rightarrow> bool" where
  register: "register_snapshot s = (seq, s') \<Longrightarrow> snap_step s s'"
| register_at: "try_register_snapshot_at seq s = (r, s') \<Longrightarrow> snap_step s s'"
| release: "snap_step s (deregister_snapshot seq s)"
| publish: "st_visible s \<le> v \<Longrightarrow> v < max_seqno \<Longrightarrow> snap_step s (s\<lparr>st_visible := v\<rparr>)"

inductive_cases snap_stepE: "snap_step s s'"

definition horizon :: "snap_state \<Rightarrow> seqno" where
  "horizon s = min (watermark s) (st_visible s)"

definition snap_inv :: "snap_state \<Rightarrow> bool" where
  "snap_inv s \<longleftrightarrow> snaps_ok (st_snapshots s) \<and> st_visible s < max_seqno
     \<and> (\<forall>q \<in> registered (st_snapshots s). q \<le> st_visible s)"

lemma horizon_Min:
  assumes "snap_inv s"
  shows "horizon s = (if registered (st_snapshots s) = {} then st_visible s else Min (registered (st_snapshots s)))"
proof -
  have v: "st_visible s \<le> st_visible s + 1"
    using assms seqno_bound [of "st_visible s"]
    by (simp add: snap_inv_def no_plus_overflow_unat_size word_size less_imp_le)
  have "Min (registered (st_snapshots s)) \<le> st_visible s" if "registered (st_snapshots s) \<noteq> {}"
    using assms Min_in [OF registered_finite that] by (simp add: snap_inv_def)
  then show ?thesis using v snap_min_spec [of "st_snapshots s"] assms
    by (simp add: horizon_def watermark_def snap_inv_def min.absorb1 min.absorb2)
qed

lemma horizon_le_iff:
  assumes "snap_inv s"
  shows "w \<le> horizon s \<longleftrightarrow> w \<le> st_visible s \<and> (\<forall>q \<in> registered (st_snapshots s). w \<le> q)"
proof (cases "registered (st_snapshots s) = {}")
  case True
  then show ?thesis using horizon_Min [OF assms] by simp
next
  case False
  then have "w \<le> horizon s \<longleftrightarrow> (\<forall>q \<in> registered (st_snapshots s). w \<le> q)"
    using horizon_Min [OF assms] Min_ge_iff [OF registered_finite False] by (simp only: if_False)
  moreover have "\<exists>q \<in> registered (st_snapshots s). q \<le> st_visible s"
    using assms False unfolding snap_inv_def by blast
  ultimately show ?thesis by (meson order_trans)
qed

lemma set_snap_ops:
  assumes "snaps_ok counts"
  shows "registered (snap_register seq counts) = insert seq (registered counts)"
    and "registered (snap_deregister seq counts) \<subseteq> registered counts"
proof -
  show "registered (snap_register seq counts) = insert seq (registered counts)"
    by (simp only: snap_register_def registered_def tm_put_keys)
  show "registered (snap_deregister seq counts) \<subseteq> registered counts"
  proof
    fix q assume "q \<in> registered (snap_deregister seq counts)"
    then have "0 < snap_count counts q"
      using assms snap_count_ops(2) [OF assms, of seq q] snap_count_pos [OF snaps_ok_ops(2) [OF assms, of seq], of q] by linarith
    then show "q \<in> registered counts" using snap_count_pos [OF assms] by blast
  qed
qed

lemma snap_step_horizon:
  assumes "snap_step s s'" and "snap_inv s"
  shows "snap_inv s' \<and> horizon s \<le> horizon s' \<and> st_visible s \<le> st_visible s'"
proof -
  have ok: "snaps_ok (st_snapshots s)" using assms(2) by (simp add: snap_inv_def)
  have h: "horizon s \<le> st_visible s" "\<forall>q \<in> registered (st_snapshots s). horizon s \<le> q"
    using horizon_le_iff [OF assms(2), of "horizon s"] by simp_all
  have reg: "snap_inv (s\<lparr>st_snapshots := snap_register q (st_snapshots s)\<rparr>) \<and>
      horizon s \<le> horizon (s\<lparr>st_snapshots := snap_register q (st_snapshots s)\<rparr>)"
    if "horizon s \<le> q" "q \<le> st_visible s" for q
  proof -
    have i: "snap_inv (s\<lparr>st_snapshots := snap_register q (st_snapshots s)\<rparr>)"
      using assms(2) that ok by (simp add: snap_inv_def set_snap_ops)
    show ?thesis using i h that horizon_le_iff [OF i] by (simp add: set_snap_ops ok)
  qed
  from assms(1) show ?thesis
  proof cases
    case (register seq)
    then show ?thesis using reg [OF h(1)] by (auto simp: register_snapshot_def Let_def)
  next
    case (register_at seq r)
    show ?thesis
    proof (cases "s' = s")
      case False
      let ?wm = "case snap_min (st_snapshots s) of None \<Rightarrow> st_visible s + 1 | Some m \<Rightarrow> m"
      have s': "s' = s\<lparr>st_snapshots := snap_register seq (st_snapshots s)\<rparr>" and v: "\<not> st_visible s < seq"
        and w: "\<not> (seq < ?wm \<and> seq \<noteq> st_visible s)"
        using register_at False by (auto simp: try_register_snapshot_at_def Let_def split: if_splits)
      have "horizon s \<le> seq"
      proof (cases "seq = st_visible s")
        case False
        then have "?wm \<le> seq" using w by simp
        then show ?thesis by (auto simp: horizon_def watermark_def min_def split: option.splits)
      qed (use h in simp)
      then show ?thesis using reg [of seq] v s' by simp
    qed (use assms(2) in simp)
  next
    case (release seq)
    have i: "snap_inv s'" using assms(2) ok set_snap_ops(2) [OF ok, of seq]
      by (auto simp: release snap_inv_def deregister_snapshot_def)
    show ?thesis using i h horizon_le_iff [OF i] set_snap_ops(2) [OF ok, of seq]
      by (auto simp: release deregister_snapshot_def)
  next
    case (publish v)
    have i: "snap_inv s'" using assms(2) publish by (auto simp: snap_inv_def)
    show ?thesis using i h publish horizon_le_iff [OF i] by (auto)
  qed
qed

section \<open>Properties\<close>



end
