(* ===== verification/Write.thy ===== *)
theory Write
  imports ReadView Wal Batch Stream Trigger Store Snapshots
begin

text \<open>
  \<open>crates/fluent31/src/db.rs\<close>, the state of an open store and the write path: placement of
  large values, the durability order (payload, log record, then publication), the rotations,
  and the two forms of the commit: one batch (\<open>apply_locked\<close>) and a group
  (\<open>apply_group_locked\<close>). The mutexes make each function one step on the state.

  \<open>sk\<close> is the external ordered map of the memtables, \<open>emp\<close> its empty map, \<open>crc\<close> the external
  checksum. \<open>db_created\<close> holds what the next calls of \<open>create_new\<close> return, each file with the
  faults it will have. The code shares the handle of the value-log head between \<open>Vlog\<close> and the
  version's map: here \<open>db_vlog\<close> owns it, the map's copy of it is stale while it is the head, and
  \<open>db_version_now\<close> is the map as readers see it.
\<close>

section \<open>The state\<close>

record retired_vlog =
  rv_id :: u64
  rv_retired_at :: seqno

record 'm db =
  db_opts :: options
  db_mem :: "'m memtable"
  db_imms :: "'m memtable list"
  db_version :: version
  db_wal :: std_file
  db_old_wals :: "(u64 \<times> std_file) list"
  db_visible :: seqno
  db_next_file_id :: u64
  db_vlog :: vlog
  db_subs :: sub_registry
  db_defs :: "trigger_def list"
  db_snapshots :: snapshot_list
  db_manifest :: manifest_state
  db_dir :: dir_fs
  db_retired :: "retired_vlog list"
  db_cache :: block_cache
  db_bg_error :: "string option"
  db_shutdown :: bool
  db_wal_syncs :: nat
  db_created :: "std_file res list"

definition vlogs_insert :: "u64 \<Rightarrow> vlog_handle \<Rightarrow> (u64 \<times> vlog_handle) list \<Rightarrow> (u64 \<times> vlog_handle) list" where
  "vlogs_insert i h vs = (i, h) # filter (\<lambda>(j, _). j \<noteq> i) vs"

definition vlogs_share :: "vlog_handle \<Rightarrow> (u64 \<times> vlog_handle) list \<Rightarrow> (u64 \<times> vlog_handle) list" where
  "vlogs_share h vs = map (\<lambda>(j, g). (j, if j = vh_id h then h else g)) vs"

definition db_version_now :: "'m db \<Rightarrow> version" where
  "db_version_now db = (db_version db)\<lparr>vs_vlogs := vlogs_share (vl_handle (db_vlog db)) (vs_vlogs (db_version db))\<rparr>"

definition read_view_of :: "'m db \<Rightarrow> 'm read_view" where
  "read_view_of db = \<lparr>rv_mem = db_mem db, rv_imms = db_imms db, rv_version = db_version_now db, rv_visible = db_visible db\<rparr>"

definition set_bg_error :: "string \<Rightarrow> 'm db \<Rightarrow> 'm db" where
  "set_bg_error msg db = (case db_bg_error db of None \<Rightarrow> db\<lparr>db_bg_error := Some msg\<rparr> | Some _ \<Rightarrow> db)"

definition check_bg_error :: "'m db \<Rightarrow> unit res" where
  "check_bg_error db = (case db_bg_error db of
     Some msg \<Rightarrow> Err (Background msg)
   | None \<Rightarrow> if db_shutdown db then Err Closed else Ok ())"

definition alloc_file_id :: "'m db \<Rightarrow> u64 \<times> 'm db" where
  "alloc_file_id db = (db_next_file_id db, db\<lparr>db_next_file_id := db_next_file_id db + 1\<rparr>)"

definition create_new :: "'m db \<Rightarrow> std_file res \<times> 'm db" where
  "create_new db = (case db_created db of
     [] \<Rightarrow> (Ok (std_file_new []), db)
   | x # xs \<Rightarrow> (x, db\<lparr>db_created := xs\<rparr>))"

definition db_sync_dir :: "'m db \<Rightarrow> unit res \<times> 'm db" where
  "db_sync_dir db = (let (r, d) = sync_dir (db_dir db) in (r, db\<lparr>db_dir := d\<rparr>))"

text \<open>\<open>?\<close> on a call that also returns the state.\<close>

definition sbind :: "'a res \<times> 's \<Rightarrow> ('a \<Rightarrow> 's \<Rightarrow> 'b res \<times> 's) \<Rightarrow> 'b res \<times> 's" where
  "sbind m k = (case m of (Inl e, s) \<Rightarrow> (Inl e, s) | (Inr x, s) \<Rightarrow> k x s)"

lemma sbind_simps [simp]:
  "sbind (Inl e, s) k = (Inl e, s)" "sbind (Inr x, s) k = k x s"
  by (simp_all add: sbind_def)

section \<open>Reading the present\<close>

definition resolve_repr :: "(bytes \<Rightarrow> u32) \<Rightarrow> version \<Rightarrow> bytes \<Rightarrow> bytes \<Rightarrow> block_cache \<Rightarrow> bytes res \<times> block_cache" where
  "resolve_repr crc vs key repr c =
     (case decode_repr repr of
        Inl e \<Rightarrow> (Err e, c)
      | Inr (Inline v) \<Rightarrow> (Ok v, c)
      | Inr (Ptr p) \<Rightarrow>
          (case map_of (vs_vlogs vs) (vp_file p) of
             None \<Rightarrow> (Err (corrupt ''pointer into unknown vlog file {}''), c)
           | Some handle \<Rightarrow>
               let (r, c') = read_value crc handle p key (Some c) in (r, case c' of Some c \<Rightarrow> c | None \<Rightarrow> c)))"

definition get_at_seq :: "codecs \<Rightarrow> 'm skip_ops \<Rightarrow> bytes \<Rightarrow> seqno \<Rightarrow> 'm db \<Rightarrow> bytes option res \<times> 'm db" where
  "get_at_seq ex sk key seq db =
     (let view = read_view_of db;
          seq = min seq (rv_visible view);
          (r, c) = get_versioned ex sk view key seq (db_cache db);
          db = db\<lparr>db_cache := c\<rparr>
      in case r of
           Inl e \<Rightarrow> (Err e, db)
         | Inr None \<Rightarrow> (Ok None, db)
         | Inr (Some (Delete, _, _)) \<Rightarrow> (Ok None, db)
         | Inr (Some (Put, _, repr)) \<Rightarrow>
             let (r, c) = resolve_repr (ex_crc ex) (rv_version view) key repr (db_cache db)
             in (rbind r (\<lambda>v. Ok (Some v)), db\<lparr>db_cache := c\<rparr>))"

section \<open>Admission\<close>

definition validate_op :: "options \<Rightarrow> batch_op \<Rightarrow> unit res" where
  "validate_op opts bop =
     (let (key, vlen) = (case bop of OpPut key val \<Rightarrow> (key, length val) | OpDelete key \<Rightarrow> (key, 0)) in
      rbind (validate_user_key key) (\<lambda>_.
      if op_max_key_size opts < length key then Err (InvalidArgument ''key of {} bytes exceeds max_key_size'')
      else if op_max_value_size opts < vlen then Err (InvalidArgument ''value of {vlen} bytes exceeds max_value_size'')
      else Ok ()))"

definition validate_batch :: "options \<Rightarrow> write_batch \<Rightarrow> unit res" where
  "validate_batch opts b = foldM (\<lambda>_. validate_op opts) () (wb_ops b)"

definition db_stalled :: "'m db \<Rightarrow> bool" where
  "db_stalled db \<longleftrightarrow> op_max_immutable_memtables (db_opts db) \<le> length (db_imms db)
     \<or> op_l0_stall_trigger (db_opts db) \<le> length (hd (vs_levels (db_version db)))"

definition capture_events :: "'m db \<Rightarrow> batch_op list \<Rightarrow> seqno \<Rightarrow> bool \<Rightarrow> batch_op list" where
  "capture_events db bops base capture =
     (if capture \<and> op_wasm_enabled (db_opts db) then capture_ops (db_defs db) bops base (db_opts db) else [])"

fun op_cost :: "batch_op \<Rightarrow> nat" where
  "op_cost (OpPut key val) = length key + length val + 32"
| "op_cost (OpDelete key) = length key + 16"

definition wal_limit :: nat where "wal_limit = push_bit 30 1"

section \<open>Rotations\<close>

text \<open>
  The sealed log stays on disk as \<open>db_old_wals\<close> until the flush of its memtable raises the floor.
\<close>

definition rotate_memtable_locked :: "'m \<Rightarrow> 'm db \<Rightarrow> unit res \<times> 'm db" where
  "rotate_memtable_locked emp db =
     (let (r, f) = wal_sync (db_wal db) in
      sbind (r, db\<lparr>db_wal := f\<rparr>) (\<lambda>_ db.
      let (wal_id, db) = alloc_file_id db in
      sbind (create_new db) (\<lambda>file db.
      sbind (db_sync_dir db) (\<lambda>_ db.
        (Ok (), db\<lparr>db_wal := file, db_old_wals := (mt_wal_id (db_mem db), db_wal db) # db_old_wals db,
           db_mem := memtable_new emp wal_id, db_imms := db_mem db # db_imms db\<rparr>)))))"

definition rotate_vlog_locked :: "'m db \<Rightarrow> unit res \<times> 'm db" where
  "rotate_vlog_locked db =
     (let (i, db) = alloc_file_id db;
          (created, db) = create_new db;
          (r, v) = vlog_rotate created i (db_vlog db)
      in sbind (r, db\<lparr>db_vlog := v\<rparr>) (\<lambda>(sealed, new_handle) db.
         let db = db\<lparr>db_version := (db_version db)\<lparr>vs_vlogs := vlogs_share sealed (vs_vlogs (db_version db))\<rparr>\<rparr> in
         sbind (db_sync_dir db) (\<lambda>_ db.
           let v = version_clone_shape (db_version db)
           in (Ok (), db\<lparr>db_version := v\<lparr>vs_vlogs := vlogs_insert (vh_id new_handle) new_handle (vs_vlogs v),
                  vs_vlog_head_id := vh_id new_handle\<rparr>\<rparr>))))"

definition rotate_full :: "'m \<Rightarrow> 'm db \<Rightarrow> unit res \<times> 'm db" where
  "rotate_full emp db =
     sbind (if op_memtable_size (db_opts db) \<le> memtable_approximate_bytes (db_mem db)
            then rotate_memtable_locked emp db else (Ok (), db)) (\<lambda>_ db.
       if unat (op_vlog_file_size (db_opts db)) \<le> vl_written (db_vlog db) then rotate_vlog_locked db else (Ok (), db))"

text \<open>The write is durable and published: a failed rotation degrades the store, the ack stands.\<close>

definition rotate_after :: "'m \<Rightarrow> 'm db \<Rightarrow> 'm db" where
  "rotate_after emp db = (case rotate_full emp db of
     (Inl e, db) \<Rightarrow> set_bg_error ''post-write rotation failed: {e}'' db
   | (Inr _, db) \<Rightarrow> db)"

definition force_rotate :: "'m skip_ops \<Rightarrow> 'm \<Rightarrow> 'm db \<Rightarrow> unit res \<times> 'm db" where
  "force_rotate sk emp db =
     (if \<not> memtable_is_empty sk (db_mem db) then rotate_memtable_locked emp db else (Ok (), db))"

section \<open>Placement, durability, publication\<close>

fun place_ops :: "(bytes \<Rightarrow> u32) \<Rightarrow> nat \<Rightarrow> batch_op list \<Rightarrow> vlog \<Rightarrow> enc_entry list res \<times> bool \<times> vlog" where
  "place_ops crc threshold [] v = (Ok [], False, v)"
| "place_ops crc threshold (OpPut key val # bops) v =
     (if threshold \<le> length val then
        (case vlog_append crc key val v of
           (Inl e, v) \<Rightarrow> (Err e, True, v)
         | (Inr ptr, v) \<Rightarrow>
             let (r, _, v) = place_ops crc threshold bops v
             in (rbind r (\<lambda>es. Ok (\<lparr>ee_kind = Put, ee_key = key, ee_repr = encode_ptr ptr\<rparr> # es)), True, v))
      else
        let (r, any, v) = place_ops crc threshold bops v
        in (rbind r (\<lambda>es. Ok (\<lparr>ee_kind = Put, ee_key = key, ee_repr = encode_inline val\<rparr> # es)), any, v))"
| "place_ops crc threshold (OpDelete key # bops) v =
     (let (r, any, v) = place_ops crc threshold bops v
      in (rbind r (\<lambda>es. Ok (\<lparr>ee_kind = Delete, ee_key = key, ee_repr = []\<rparr> # es)), any, v))"

definition sync_payload :: "bool \<Rightarrow> 'm db \<Rightarrow> unit res \<times> 'm db" where
  "sync_payload any_vlog db =
     (if any_vlog \<and> op_sync (db_opts db) = Always
      then let (r, v) = vlog_sync_head (db_vlog db) in (rbind r (\<lambda>_. Ok ()), db\<lparr>db_vlog := v\<rparr>)
      else (Ok (), db))"

definition append_log :: "(bytes \<Rightarrow> u32) \<Rightarrow> bytes \<Rightarrow> 'm db \<Rightarrow> unit res \<times> 'm db" where
  "append_log crc payload db = (let (r, f) = wal_append_record crc payload (db_wal db) in (r, db\<lparr>db_wal := f\<rparr>))"

definition sync_log :: "'m db \<Rightarrow> unit res \<times> 'm db" where
  "sync_log db =
     (if op_sync (db_opts db) = Always
      then let (r, f) = wal_sync (db_wal db); db = db\<lparr>db_wal := f\<rparr>
           in case r of Inl e \<Rightarrow> (Err e, db) | Inr _ \<Rightarrow> (Ok (), db\<lparr>db_wal_syncs := db_wal_syncs db + 1\<rparr>)
      else (Ok (), db))"

fun insert_entries :: "'m skip_ops \<Rightarrow> seqno \<Rightarrow> enc_entry list \<Rightarrow> 'm memtable \<Rightarrow> 'm memtable" where
  "insert_entries sk s [] mem = mem"
| "insert_entries sk s (e # es) mem =
     insert_entries sk (s + 1) es (memtable_insert sk (make_ikey (ee_key e) s (ee_kind e)) (ee_repr e) mem)"

definition publish_batch :: "'m skip_ops \<Rightarrow> seqno \<Rightarrow> enc_entry list \<Rightarrow> 'm db \<Rightarrow> 'm db" where
  "publish_batch sk base entries db =
     db\<lparr>db_mem := insert_entries sk base entries (db_mem db),
       db_visible := base + of_nat (length entries) - 1,
       db_subs := publish_stream base entries (db_subs db)\<rparr>"

section \<open>One batch\<close>

text \<open>A hard failure degrades the store and is reported.\<close>

definition degrade :: "string \<Rightarrow> 'a res \<times> 'm db \<Rightarrow> ('a \<Rightarrow> 'm db \<Rightarrow> 'b res \<times> 'm db) \<Rightarrow> 'b res \<times> 'm db" where
  "degrade msg m k = (case m of (Inl e, db) \<Rightarrow> (Err e, set_bg_error msg db) | (Inr x, db) \<Rightarrow> k x db)"

lemma degrade_simps [simp]:
  "degrade msg (Inl e, db) k = (Err e, set_bg_error msg db)" "degrade msg (Inr x, db) k = k x db"
  by (simp_all add: degrade_def)

definition commit_entries :: "(bytes \<Rightarrow> u32) \<Rightarrow> 'm skip_ops \<Rightarrow> seqno \<Rightarrow> batch_op list \<Rightarrow> 'm db \<Rightarrow> unit res \<times> 'm db" where
  "commit_entries crc sk base bops db =
     (let (r, any_vlog, v) = place_ops crc (op_value_threshold (db_opts db)) bops (db_vlog db) in
      degrade ''vlog append failed: {e}'' (r, db\<lparr>db_vlog := v\<rparr>) (\<lambda>entries db.
      degrade ''vlog sync failed: {e}'' (sync_payload any_vlog db) (\<lambda>_ db.
      let payload = encode_batch base entries in
      if wal_limit \<le> length payload then (Err (InvalidArgument ''write batch exceeds WAL record limit''), db)
      else
      degrade ''wal append failed: {e}'' (append_log crc payload db) (\<lambda>_ db.
      degrade ''wal sync failed: {e}'' (sync_log db) (\<lambda>_ db.
        (Ok (), publish_batch sk base entries db))))))"

definition commit_batch :: "(bytes \<Rightarrow> u32) \<Rightarrow> 'm skip_ops \<Rightarrow> batch_op list \<Rightarrow> bool \<Rightarrow> 'm db \<Rightarrow> unit res \<times> 'm db" where
  "commit_batch crc sk bops capture db =
     (let base = db_visible db + 1;
          events = capture_events db bops base capture;
          total = length bops + length events
      in if max_seqno \<le> base + of_nat total then (Err (InvalidArgument ''seqno space exhausted''), db)
      else if wal_limit \<le> sum_list (map op_cost (bops @ events))
      then (Err (InvalidArgument ''write batch exceeds WAL record limit''), db)
      else commit_entries crc sk base (bops @ events) db)"

definition apply_locked :: "(bytes \<Rightarrow> u32) \<Rightarrow> 'm skip_ops \<Rightarrow> 'm \<Rightarrow> batch_op list \<Rightarrow> bool \<Rightarrow> 'm db \<Rightarrow> unit res \<times> 'm db" where
  "apply_locked crc sk emp bops capture db =
     (case commit_batch crc sk bops capture db of
        (Inl e, db) \<Rightarrow> (Err e, db)
      | (Inr _, db) \<Rightarrow> (Ok (), rotate_after emp db))"

end
