(* ===== verification/Group.thy ===== *)
theory Group
  imports Write
begin

text \<open>
  \<open>crates/fluent31/src/db.rs\<close>, \<open>apply_group_locked\<close> and the committer: several batches under
  one critical section, with one value-log sync and one log sync for the whole group. Each
  phase of the code is a definition; a batch is its operations and its capture flag, and
  \<open>results\<close> is the vector of optional results the code fills.
\<close>

type_synonym group_batch = "batch_op list \<times> bool"
type_synonym results = "unit res option list"

definition aborted :: error where
  "aborted = Io ''write group aborted by another batch's failure: {msg}''"

text \<open>\<open>fail_tail\<close>: every accepted batch of the rest that has no result yet.\<close>

definition fail_tail :: "(nat \<times> 'a) list \<Rightarrow> results \<Rightarrow> results" where
  "fail_tail rest results = fold (\<lambda>(j, _) rs. if rs ! j = None then rs[j := Some (Err aborted)] else rs) rest results"

section \<open>Phase 0: admission and seqno assignment\<close>

type_synonym accepted = "(nat \<times> seqno \<times> batch_op list) list"

fun group_admit :: "'m db \<Rightarrow> nat \<Rightarrow> seqno \<Rightarrow> group_batch list \<Rightarrow> results \<Rightarrow> accepted \<times> results" where
  "group_admit db i next [] results = ([], results)"
| "group_admit db i next ((bops, capture) # batches) results =
     (let events = capture_events db bops next capture;
          total = of_nat (length bops + length events)
      in if wal_limit \<le> sum_list (map op_cost (bops @ events))
         then group_admit db (Suc i) next batches
           (results[i := Some (Err (InvalidArgument ''write batch exceeds WAL record limit''))])
         else if max_seqno \<le> next + total
         then group_admit db (Suc i) next batches
           (results[i := Some (Err (InvalidArgument ''seqno space exhausted''))])
         else let (acc, results) = group_admit db (Suc i) (next + total) batches results
              in ((i, next, bops @ events) # acc, results))"

section \<open>Phase 1: values\<close>

type_synonym placed = "(nat \<times> seqno \<times> enc_entry list) list"

text \<open>The flag in the middle: whether some value went to the value log; the last: a hard failure.\<close>

fun group_place ::
    "(bytes \<Rightarrow> u32) \<Rightarrow> nat \<Rightarrow> accepted \<Rightarrow> results \<Rightarrow> vlog \<Rightarrow> placed \<times> results \<times> bool \<times> vlog \<times> bool" where
  "group_place crc threshold [] results v = ([], results, False, v, False)"
| "group_place crc threshold ((i, base, bops) # acc) results v =
     (case place_ops crc threshold bops v of
        (Inl e, any, v) \<Rightarrow> ([], fail_tail acc (results[i := Some (Err e)]), any, v, True)
      | (Inr entries, any, v) \<Rightarrow>
          let (placed, results, any', v, hard) = group_place crc threshold acc results v
          in ((i, base, entries) # placed, results, any \<or> any', v, hard))"

section \<open>Phases 2 and 4: the one sync\<close>

text \<open>The first batch reports the real error, the others that the group was aborted.\<close>

definition fail_all :: "error \<Rightarrow> placed \<Rightarrow> results \<Rightarrow> results" where
  "fail_all e bs results = (case bs of
     [] \<Rightarrow> results
   | (i, _) # rest \<Rightarrow> fold (\<lambda>(j, _) rs. rs[j := Some (Err aborted)]) rest (results[i := Some (Err e)]))"

section \<open>Phase 3: log records\<close>

fun group_append ::
    "(bytes \<Rightarrow> u32) \<Rightarrow> accepted \<Rightarrow> placed \<Rightarrow> results \<Rightarrow> 'm db \<Rightarrow> placed \<times> results \<times> 'm db \<times> bool" where
  "group_append crc acc [] results db = ([], results, db, False)"
| "group_append crc acc ((i, base, entries) # placed) results db =
     (let from_tail = tl (dropWhile (\<lambda>(j, _). j \<noteq> i) acc);
          payload = encode_batch base entries
      in if wal_limit \<le> length payload
         then ([], fail_tail from_tail (results[i := Some (Err (InvalidArgument ''write batch exceeds WAL record limit''))]), db, False)
         else case append_log crc payload db of
           (Inl e, db) \<Rightarrow> ([], fail_tail from_tail (results[i := Some (Err e)]),
              set_bg_error ''wal append failed: {msg}'' db, True)
         | (Inr _, db) \<Rightarrow>
             let (appended, results, db, hard) = group_append crc acc placed results db
             in ((i, base, entries) # appended, results, db, hard))"

section \<open>Phase 5: publication\<close>

fun group_insert :: "'m skip_ops \<Rightarrow> placed \<Rightarrow> 'm memtable \<Rightarrow> 'm memtable" where
  "group_insert sk [] mem = mem"
| "group_insert sk ((i, base, entries) # bs) mem = group_insert sk bs (insert_entries sk base entries mem)"

definition group_publish :: "'m skip_ops \<Rightarrow> placed \<Rightarrow> results \<Rightarrow> 'm db \<Rightarrow> results \<times> 'm db" where
  "group_publish sk appended results db =
     (if appended = [] then (results, db)
      else let (_, last_base, last_entries) = last appended
           in (fold (\<lambda>(i, _) rs. rs[i := Some (Ok ())]) appended results,
               db\<lparr>db_mem := group_insert sk appended (db_mem db),
                  db_visible := last_base + of_nat (length last_entries) - 1,
                  db_subs := fold (\<lambda>(_, base, entries). publish_stream base entries) appended (db_subs db)\<rparr>))"

section \<open>The group\<close>

text \<open>Everything before the rotations; the flag asks for them.\<close>

definition group_commit ::
    "(bytes \<Rightarrow> u32) \<Rightarrow> 'm skip_ops \<Rightarrow> group_batch list \<Rightarrow> 'm db \<Rightarrow> results \<times> 'm db \<times> bool" where
  "group_commit crc sk batches db =
     (let (acc, results) = group_admit db 0 (db_visible db + 1) batches (replicate (length batches) None);
          (placed, results, any_vlog, v, hard) = group_place crc (op_value_threshold (db_opts db)) acc results (db_vlog db);
          db = db\<lparr>db_vlog := v\<rparr>;
          db = (if hard then set_bg_error ''vlog append failed: {msg}'' db else db)
      in case sync_payload any_vlog db of
        (Inl e, db) \<Rightarrow> (fail_all e placed results, set_bg_error ''vlog sync failed: {msg}'' db, False)
      | (Inr _, db) \<Rightarrow>
      let (appended, results, db, hard') = group_append crc acc placed results db
      in case (if appended \<noteq> [] then sync_log db else (Ok (), db)) of
        (Inl e, db) \<Rightarrow> (fail_all e appended results, set_bg_error ''wal sync failed: {msg}'' db, False)
      | (Inr _, db) \<Rightarrow>
      let (results, db) = group_publish sk appended results db
      in (results, db, appended \<noteq> [] \<and> \<not> hard \<and> \<not> hard'))"

definition filled :: "unit res option \<Rightarrow> unit res" where
  "filled r = (case r of Some x \<Rightarrow> x | None \<Rightarrow> Err (Panic ''filled''))"

definition apply_group_locked ::
    "(bytes \<Rightarrow> u32) \<Rightarrow> 'm skip_ops \<Rightarrow> 'm \<Rightarrow> group_batch list \<Rightarrow> 'm db \<Rightarrow> unit res list \<times> 'm db" where
  "apply_group_locked crc sk emp batches db =
     (let (results, db, rotate) = group_commit crc sk batches db;
          db = (if rotate then rotate_after emp db else db)
      in (map filled results, db))"

definition group_byte_cap :: "nat \<Rightarrow> nat" where
  "group_byte_cap first_bytes =
     (if first_bytes \<le> push_bit 10 128 then first_bytes + push_bit 10 128 else push_bit 20 1)"

section \<open>The committer\<close>

record queued =
  qe_ops :: "batch_op list"
  qe_bytes :: nat
  qe_validate :: "(seqno \<times> bytes list) option"
  qe_capture :: bool

text \<open>
  \<open>conflict_keys\<close> is the fold over the conflict keys: once one hits, the rest are not looked up.
\<close>

fun conflict_keys ::
    "codecs \<Rightarrow> 'm skip_ops \<Rightarrow> 'm read_view \<Rightarrow> bytes set \<Rightarrow> seqno \<Rightarrow> bytes list \<Rightarrow> block_cache \<Rightarrow> bool res \<times> block_cache" where
  "conflict_keys ex sk view written snap [] c = (Ok False, c)"
| "conflict_keys ex sk view written snap (key # keys) c =
     (if key \<in> written then (Ok True, c)
      else case view_latest ex sk view key c of
        (Inl e, c) \<Rightarrow> (Err e, c)
      | (Inr (Some (seq, _)), c) \<Rightarrow>
          if snap < seq then (Ok True, c) else conflict_keys ex sk view written snap keys c
      | (Inr None, c) \<Rightarrow> conflict_keys ex sk view written snap keys c)"

text \<open>Validation in queue order: the results so far and the indices that will be applied.\<close>

fun group_validate ::
    "codecs \<Rightarrow> 'm skip_ops \<Rightarrow> 'm read_view \<Rightarrow> bytes set \<Rightarrow> nat \<Rightarrow> queued list \<Rightarrow> block_cache \<Rightarrow>
     (results \<times> nat list) \<times> block_cache" where
  "group_validate ex sk view written i [] c = (([], []), c)"
| "group_validate ex sk view written i (q # qs) c =
     (let (verdict, c) = (case qe_validate q of
            None \<Rightarrow> (Ok False, c)
          | Some (snap, keys) \<Rightarrow> conflict_keys ex sk view written snap keys c)
      in case verdict of
           Inl e \<Rightarrow>
             let ((rs, inc), c) = group_validate ex sk view written (Suc i) qs c in ((Some (Err e) # rs, inc), c)
         | Inr True \<Rightarrow>
             let ((rs, inc), c) = group_validate ex sk view written (Suc i) qs c in ((Some (Err Conflict) # rs, inc), c)
         | Inr False \<Rightarrow>
             let ((rs, inc), c) = group_validate ex sk view (written \<union> set (map op_key (qe_ops q))) (Suc i) qs c
             in if qe_ops q \<noteq> [] then ((None # rs, i # inc), c) else ((Some (Ok ()) # rs, inc), c))"

definition commit_chunk ::
    "codecs \<Rightarrow> 'm skip_ops \<Rightarrow> 'm \<Rightarrow> queued list \<Rightarrow> 'm db \<Rightarrow> unit res list \<times> 'm db" where
  "commit_chunk ex sk emp grp db =
     (let ((results, included), c) = group_validate ex sk (read_view_of db) {} 0 grp (db_cache db);
          db = db\<lparr>db_cache := c\<rparr>
      in if included = [] then (map filled results, db)
         else let (applied, db) = apply_group_locked (ex_crc ex) sk emp
                (map (\<lambda>i. (qe_ops (grp ! i), qe_capture (grp ! i))) included) db;
                results = fold (\<lambda>(i, r) rs. rs[i := Some r]) (zip included applied) results
              in (map filled results, db))"

text \<open>The end of the chunk: as many of the following batches as fit under the cap of the first.\<close>

fun chunk_more :: "nat \<Rightarrow> nat \<Rightarrow> queued list \<Rightarrow> nat" where
  "chunk_more cap sofar [] = 0"
| "chunk_more cap sofar (q # qs) =
     (if cap < sofar + qe_bytes q then 0 else Suc (chunk_more cap (sofar + qe_bytes q) qs))"

function commit_drained ::
    "codecs \<Rightarrow> 'm skip_ops \<Rightarrow> 'm \<Rightarrow> queued list \<Rightarrow> 'm db \<Rightarrow> unit res list \<times> 'm db" where
  "commit_drained ex sk emp [] db = ([], db)"
| "commit_drained ex sk emp (q # qs) db =
     (let n = chunk_more (group_byte_cap (qe_bytes q)) (qe_bytes q) qs;
          grp = q # take n qs
      in case db_bg_error db of
           Some msg \<Rightarrow>
             let (rs, db) = commit_drained ex sk emp (drop n qs) db
             in (map (\<lambda>_. Err (Background msg)) grp @ rs, db)
         | None \<Rightarrow>
             let (r, db) = commit_chunk ex sk emp grp db;
                 (rs, db) = commit_drained ex sk emp (drop n qs) db
             in (r @ rs, db))"
  by pat_completeness auto
termination
  by (relation "measure (\<lambda>(ex, sk, emp, qs, db). length qs)") auto

end
