(* ===== verification/Commit.thy ===== *)
theory Commit
  imports Group
begin

text \<open>
  What the write path guarantees: the log record is in the log before the entries are visible,
  the payload is durable before the record that points to it, a failed batch leaves readers
  untouched, and the two forms of the commit agree.
\<close>

section \<open>Placed values\<close>

text \<open>The entry's representation stands for \<open>val\<close>, inline or as a record of the value-log head.\<close>

definition stands_for :: "(bytes \<Rightarrow> u32) \<Rightarrow> vlog \<Rightarrow> bytes \<Rightarrow> bytes \<Rightarrow> bytes \<Rightarrow> bool" where
  "stands_for crc v key repr val \<longleftrightarrow> decode_repr repr = Ok (Inline val) \<or>
     (\<exists>p pre post. decode_repr repr = Ok (Ptr p) \<and> vp_file p = vh_id (vl_handle v) \<and>
        file_committed (vh_file (vl_handle v)) = pre @ encode_record crc key val @ post \<and>
        unat (vp_offset p) = length pre \<and> unat (vp_len p) = length (encode_record crc key val))"

definition entry_of :: "(bytes \<Rightarrow> u32) \<Rightarrow> vlog \<Rightarrow> batch_op \<Rightarrow> enc_entry \<Rightarrow> bool" where
  "entry_of crc v bop e \<longleftrightarrow> ee_key e = op_key bop \<and>
     (case bop of OpPut key val \<Rightarrow> ee_kind e = Put \<and> stands_for crc v key (ee_repr e) val
      | OpDelete key \<Rightarrow> ee_kind e = Delete \<and> ee_repr e = [])"

definition vlog_grows :: "vlog \<Rightarrow> vlog \<Rightarrow> bool" where
  "vlog_grows v v' \<longleftrightarrow> vh_id (vl_handle v') = vh_id (vl_handle v) \<and>
     (\<exists>post. file_committed (vh_file (vl_handle v')) = file_committed (vh_file (vl_handle v)) @ post)"

abbreviation vlog_file :: "vlog \<Rightarrow> std_file" where "vlog_file v \<equiv> vh_file (vl_handle v)"

lemma vlog_grows_refl [simp]: "vlog_grows v v"
  by (simp add: vlog_grows_def)

lemma vlog_grows_trans: "vlog_grows u v \<Longrightarrow> vlog_grows v w \<Longrightarrow> vlog_grows u w"
  by (auto simp: vlog_grows_def)

lemma stands_for_grows: "stands_for crc v key repr val \<Longrightarrow> vlog_grows v v' \<Longrightarrow> stands_for crc v' key repr val"
  unfolding stands_for_def vlog_grows_def by (elim disjE exE conjE) (blast, metis append_assoc)

lemma entry_of_grows: "entry_of crc v bop e \<Longrightarrow> vlog_grows v v' \<Longrightarrow> entry_of crc v' bop e"
  by (auto simp: entry_of_def stands_for_grows split: batch_op.splits)

lemma vlog_append_grows:
  assumes "file_wf (vlog_file v)" and "vlog_append crc key val v = (r, v')"
  shows "vlog_grows v v' \<and> file_wf (vlog_file v')"
proof -
  obtain x f where f: "file_append (encode_record crc key val) (vlog_file v) = (x, f)"
    by (cases "file_append (encode_record crc key val) (vlog_file v)")
  note c = file_append_committed [OF assms(1) f]
  show ?thesis using assms c f by (auto simp: vlog_append_def Let_def vlog_grows_def split: if_splits sum.splits)
qed

lemma place_ops_spec:
  assumes "place_ops crc threshold bops v = (r, any, v')" and "file_wf (vlog_file v)"
  shows "vlog_grows v v' \<and> file_wf (vlog_file v') \<and> (\<not> any \<longrightarrow> v' = v) \<and>
    (\<forall>es. r = Ok es \<and> length (file_committed (vlog_file v')) < 2 ^ 64 \<longrightarrow> list_all2 (entry_of crc v') bops es)"
  using assms
proof (induction bops arbitrary: v v' r any)
  case (Cons bop bops)
  show ?case
  proof (cases bop)
    case (OpDelete key)
    obtain r1 any1 v1 where p: "place_ops crc threshold bops v = (r1, any1, v1)" by (cases "place_ops crc threshold bops v")
    show ?thesis using Cons.IH [OF p Cons.prems(2)] Cons.prems(1) p OpDelete
      by (auto simp: rbind_Inr_conv entry_of_def)
  next
    case (OpPut key val)
    show ?thesis
    proof (cases "threshold \<le> length val")
      case False
      obtain r1 any1 v1 where p: "place_ops crc threshold bops v = (r1, any1, v1)" by (cases "place_ops crc threshold bops v")
      show ?thesis using Cons.IH [OF p Cons.prems(2)] Cons.prems(1) p OpPut False
        by (auto simp: rbind_Inr_conv entry_of_def stands_for_def decode_encode_inline)
    next
      case True
      obtain x v1 where a: "vlog_append crc key val v = (x, v1)" by (cases "vlog_append crc key val v")
      note g = vlog_append_grows [OF Cons.prems(2) a]
      show ?thesis
      proof (cases x)
        case (Inl e)
        then show ?thesis using Cons.prems a g OpPut True by auto
      next
        case (Inr ptr)
        obtain r2 any2 v2 where p: "place_ops crc threshold bops v1 = (r2, any2, v2)" by (cases "place_ops crc threshold bops v1")
        note ih = Cons.IH [OF p] g
        have v': "v' = v2" "any" "r = rbind r2 (\<lambda>es. Ok (\<lparr>ee_kind = Put, ee_key = key, ee_repr = encode_ptr ptr\<rparr> # es))"
          using Cons.prems(1) a p OpPut True Inr by simp_all
        have "entry_of crc v2 bop \<lparr>ee_kind = Put, ee_key = key, ee_repr = encode_ptr ptr\<rparr>"
          if small: "length (file_committed (vlog_file v2)) < 2 ^ 64"
        proof -
          have le: "length (file_committed (vlog_file v)) < 2 ^ 64"
            using small ih unfolding vlog_grows_def by fastforce
          note o = vlog_append_Ok [OF Cons.prems(2) _ le, of crc key val ptr v1]
          have "file_committed (vlog_file v1) = file_committed (vlog_file v) @ encode_record crc key val @ []"
            "vp_file ptr = vh_id (vl_handle v1)" using o a Inr ih by (simp_all add: vlog_grows_def)
          then have "stands_for crc v1 key (encode_ptr ptr) val"
            unfolding stands_for_def using o(2,3) a Inr decode_encode_ptr by blast
          then have "entry_of crc v1 bop \<lparr>ee_kind = Put, ee_key = key, ee_repr = encode_ptr ptr\<rparr>"
            using OpPut by (simp add: entry_of_def)
          then show ?thesis by (rule entry_of_grows) (use ih in blast)
        qed
        then show ?thesis using ih v' by (auto simp: rbind_Inr_conv intro: vlog_grows_trans)
      qed
    qed
  qed
qed simp

section \<open>The log\<close>

lemma append_log_spec:
  assumes "append_log crc payload db = (r, db')" and "file_wf (db_wal db)"
  shows "db' = db\<lparr>db_wal := db_wal db'\<rparr> \<and> file_wf (db_wal db') \<and>
    (r = Ok () \<and> file_committed (db_wal db') = file_committed (db_wal db) @ wal_frame crc payload
     \<or> (\<exists>e. r = Err e) \<and> file_committed (db_wal db') = file_committed (db_wal db))"
proof -
  obtain x f where f: "file_append (wal_frame crc payload) (db_wal db) = (x, f)" by (cases "file_append (wal_frame crc payload) (db_wal db)")
  show ?thesis using file_append_committed [OF assms(2) f] assms(1) f
    by (cases x) (auto simp: append_log_def wal_append_record_def)
qed

lemma file_sync_spec:
  assumes "file_sync_data f = (r, f')"
  shows "file_committed f' = file_committed f \<and> (file_wf f \<longrightarrow> file_wf f') \<and> (r = Ok () \<longrightarrow> sf_synced f' = length (sf_data f'))"
  using assms by (auto simp: file_sync_data_def file_committed_def file_wf_def split: prod.splits option.splits dest: next_fault_fields)

lemma sync_log_spec:
  assumes "sync_log db = (r, db')"
  shows "db' = db\<lparr>db_wal := db_wal db', db_wal_syncs := db_wal_syncs db'\<rparr> \<and> file_committed (db_wal db') = file_committed (db_wal db)
    \<and> (file_wf (db_wal db) \<longrightarrow> file_wf (db_wal db'))
    \<and> (r = Ok () \<and> op_sync (db_opts db) = Always \<longrightarrow> sf_synced (db_wal db') = length (sf_data (db_wal db')))"
proof -
  obtain x f where f: "file_sync_data (db_wal db) = (x, f)" by (cases "file_sync_data (db_wal db)")
  show ?thesis using file_sync_spec [OF f] assms f
    by (auto simp: sync_log_def wal_sync_def Let_def split: if_splits sum.splits)
qed

lemma sync_payload_spec:
  assumes "sync_payload any db = (r, db')"
  shows "db' = db\<lparr>db_vlog := db_vlog db'\<rparr> \<and> vlog_grows (db_vlog db) (db_vlog db')
    \<and> (file_wf (vlog_file (db_vlog db)) \<longrightarrow> file_wf (vlog_file (db_vlog db')))
    \<and> file_committed (vlog_file (db_vlog db')) = file_committed (vlog_file (db_vlog db))
    \<and> (r = Ok () \<and> any \<and> op_sync (db_opts db) = Always \<longrightarrow> vl_written (db_vlog db') \<le> vl_synced (db_vlog db'))"
proof -
  obtain x f where f: "file_sync_data (vlog_file (db_vlog db)) = (x, f)" by (cases "file_sync_data (vlog_file (db_vlog db))")
  show ?thesis using file_sync_spec [OF f] assms f
    by (auto simp: sync_payload_def vlog_sync_head_def vlog_grows_def Let_def split: if_splits sum.splits)
qed

lemma set_bg_error_fields [simp]:
  "db_bg_error (set_bg_error msg db) \<noteq> None" "db_mem (set_bg_error msg db) = db_mem db"
  "db_visible (set_bg_error msg db) = db_visible db" "db_subs (set_bg_error msg db) = db_subs db"
  "db_wal (set_bg_error msg db) = db_wal db" "db_vlog (set_bg_error msg db) = db_vlog db"
  "db_imms (set_bg_error msg db) = db_imms db" "db_version (set_bg_error msg db) = db_version db"
  "db_opts (set_bg_error msg db) = db_opts db" "db_cache (set_bg_error msg db) = db_cache db"
  "db_defs (set_bg_error msg db) = db_defs db" "db_next_file_id (set_bg_error msg db) = db_next_file_id db"
  "db_created (set_bg_error msg db) = db_created db" "db_old_wals (set_bg_error msg db) = db_old_wals db"
  by (simp_all add: set_bg_error_def split: option.split)

section \<open>One batch\<close>

definition batch_of :: "'m db \<Rightarrow> batch_op list \<Rightarrow> bool \<Rightarrow> batch_op list" where
  "batch_of db bops capture = bops @ capture_events db bops (db_visible db + 1) capture"

text \<open>The two files of the write path are in order and the value log is within its offsets.\<close>

definition files_ok :: "'m db \<Rightarrow> bool" where
  "files_ok db \<longleftrightarrow> file_wf (db_wal db) \<and> file_wf (vlog_file (db_vlog db))"

definition committed_as :: "(bytes \<Rightarrow> u32) \<Rightarrow> 'm skip_ops \<Rightarrow> seqno \<Rightarrow> batch_op list \<Rightarrow> enc_entry list \<Rightarrow> 'm db \<Rightarrow> 'm db \<Rightarrow> bool" where
  "committed_as crc sk base bops es db db' \<longleftrightarrow>
     (length (file_committed (vlog_file (db_vlog db'))) < 2 ^ 64 \<longrightarrow> list_all2 (entry_of crc (db_vlog db')) bops es) \<and>
     file_committed (db_wal db') = file_committed (db_wal db) @ wal_frame crc (encode_batch base es) \<and>
     length (encode_batch base es) < wal_limit \<and>
     (op_sync (db_opts db) = Always \<longrightarrow> sf_synced (db_wal db') = length (sf_data (db_wal db'))
        \<and> (db_vlog db' = db_vlog db \<or> vl_written (db_vlog db') \<le> vl_synced (db_vlog db'))) \<and>
     db_mem db' = insert_entries sk base es (db_mem db) \<and>
     db_visible db' = base + of_nat (length es) - 1 \<and> db_bg_error db' = db_bg_error db \<and>
     db_subs db' = publish_stream base es (db_subs db)"

text \<open>What a commit never touches, and what a failed one leaves alone.\<close>

definition commit_frame :: "'m db \<Rightarrow> 'm db \<Rightarrow> bool" where
  "commit_frame db db' \<longleftrightarrow> files_ok db' \<and> vlog_grows (db_vlog db) (db_vlog db') \<and> db_opts db' = db_opts db
     \<and> db_imms db' = db_imms db \<and> db_version db' = db_version db \<and> db_cache db' = db_cache db \<and> db_defs db' = db_defs db
     \<and> db_next_file_id db' = db_next_file_id db \<and> db_created db' = db_created db \<and> db_old_wals db' = db_old_wals db"

definition unpublished :: "'m db \<Rightarrow> 'm db \<Rightarrow> bool" where
  "unpublished db db' \<longleftrightarrow> db_mem db' = db_mem db \<and> db_visible db' = db_visible db \<and> db_subs db' = db_subs db"

definition refused :: "unit res \<Rightarrow> 'm db \<Rightarrow> 'm db \<Rightarrow> bool" where
  "refused r db db' \<longleftrightarrow> (\<exists>e. r = Err e) \<and> unpublished db db' \<and>
     (db_bg_error db' \<noteq> None \<or> (\<exists>m. r = Err (InvalidArgument m)) \<and> db_wal db' = db_wal db)"

lemmas commit_defs = commit_frame_def unpublished_def refused_def files_ok_def

lemma db_eq_fields:
  assumes "d' = d\<lparr>db_vlog := v\<rparr> \<or> d' = d\<lparr>db_wal := f\<rparr> \<or> d' = d\<lparr>db_wal := f, db_wal_syncs := n\<rparr>"
  shows "db_opts d' = db_opts d" "db_imms d' = db_imms d" "db_version d' = db_version d" "db_cache d' = db_cache d"
    "db_defs d' = db_defs d" "db_mem d' = db_mem d" "db_visible d' = db_visible d" "db_subs d' = db_subs d"
    "db_bg_error d' = db_bg_error d" "db_next_file_id d' = db_next_file_id d" "db_created d' = db_created d"
    "db_old_wals d' = db_old_wals d"
  using assms by (elim disjE; simp)+

lemma commit_entries_spec:
  assumes "commit_entries crc sk base bops db = (r, db')" and "files_ok db"
  shows "commit_frame db db' \<and> (r = Ok () \<and> (\<exists>es. committed_as crc sk base bops es db db') \<or> refused r db db')"
proof -
  have wf: "file_wf (db_wal db)" "file_wf (vlog_file (db_vlog db))" using assms(2) by (simp_all add: files_ok_def)
  obtain x any v where p: "place_ops crc (op_value_threshold (db_opts db)) bops (db_vlog db) = (x, any, v)"
    by (cases "place_ops crc (op_value_threshold (db_opts db)) bops (db_vlog db)")
  note ps = place_ops_spec [OF p wf(2)]
  show ?thesis
  proof (cases x)
    case (Inl e)
    then have "r = Err e" "db' = set_bg_error ''vlog append failed: {e}'' (db\<lparr>db_vlog := v\<rparr>)"
      using assms(1) p by (simp_all add: commit_entries_def)
    then show ?thesis using ps wf by (simp add: commit_defs)
  next
    case (Inr es)
    let ?d1 = "db\<lparr>db_vlog := v\<rparr>"
    obtain y d2 where s: "sync_payload any ?d1 = (y, d2)" by (cases "sync_payload any ?d1")
    note ss = sync_payload_spec [OF s]
    then have e2: "d2 = db\<lparr>db_vlog := db_vlog d2\<rparr>" by simp
    note f2 = db_eq_fields [OF disjI1 [OF e2]]
    have w2: "db_wal d2 = db_wal db" by (subst e2) simp
    have g2: "vlog_grows (db_vlog db) (db_vlog d2)" "file_wf (vlog_file (db_vlog d2))"
      using ss ps by (auto intro: vlog_grows_trans)
    have fr2: "commit_frame db d2" "unpublished db d2" using f2 w2 g2 wf by (simp_all add: commit_defs)
    show ?thesis
    proof (cases "y = Ok () \<and> length (encode_batch base es) < wal_limit")
      case False
      then consider e where "y = Err e" | "y = Ok ()" "wal_limit \<le> length (encode_batch base es)" by (cases y) auto
      then show ?thesis
      proof cases
        case 1
        then have "r = Err e" "db' = set_bg_error ''vlog sync failed: {e}'' d2"
          using assms(1) p Inr s by (simp_all add: commit_entries_def)
        then show ?thesis using fr2 by (simp add: commit_defs)
      next
        case 2
        then have "r = Err (InvalidArgument ''write batch exceeds WAL record limit'')" "db' = d2"
          using assms(1) p Inr s by (simp_all add: commit_entries_def Let_def)
        then show ?thesis using fr2 w2 by (simp add: commit_defs)
      qed
    next
      case ok2: True
      obtain z d3 where a: "append_log crc (encode_batch base es) d2 = (z, d3)" by (cases "append_log crc (encode_batch base es) d2")
      have "file_wf (db_wal d2)" using w2 wf by simp
      note as = append_log_spec [OF a this]
      then have e3: "d3 = d2\<lparr>db_wal := db_wal d3\<rparr>" by blast
      note f3 = db_eq_fields [OF disjI2, OF disjI1, OF e3]
      have v3: "db_vlog d3 = db_vlog d2" by (subst e3) simp
      have fr3: "commit_frame db d3" "unpublished db d3" using f2 f3 v3 g2 as by (simp_all add: commit_defs)
      show ?thesis
      proof (cases z)
        case (Inl e)
        then have "r = Err e" "db' = set_bg_error ''wal append failed: {e}'' d3"
          using assms(1) p Inr s ok2 a by (simp_all add: commit_entries_def Let_def)
        then show ?thesis using fr3 by (simp add: commit_defs)
      next
        case z: (Inr u)
        obtain t d4 where l: "sync_log d3 = (t, d4)" by (cases "sync_log d3")
        note ls = sync_log_spec [OF l]
        then have e4: "d4 = d3\<lparr>db_wal := db_wal d4, db_wal_syncs := db_wal_syncs d4\<rparr>" by blast
        note f4 = db_eq_fields [OF disjI2, OF disjI2, OF e4]
        have v4: "db_vlog d4 = db_vlog d3" by (subst e4) simp
        have fr: "commit_frame db d4" "unpublished db d4" using fr3 f4 v4 ls by (simp_all add: commit_defs)
        have wal: "file_committed (db_wal d4) = file_committed (db_wal db) @ wal_frame crc (encode_batch base es)"
          using ls as z w2 by auto
        show ?thesis
        proof (cases t)
          case (Inl e)
          then have "r = Err e" "db' = set_bg_error ''wal sync failed: {e}'' d4"
            using assms(1) p Inr s ok2 a z l by (simp_all add: commit_entries_def Let_def)
          then show ?thesis using fr by (simp add: commit_defs)
        next
          case t: (Inr u')
          have db': "r = Ok ()" "db' = publish_batch sk base es d4"
            using assms(1) p Inr s ok2 a z l t by (simp_all add: commit_entries_def Let_def)
          have "length (file_committed (vlog_file (db_vlog d4))) < 2 ^ 64 \<longrightarrow> list_all2 (entry_of crc (db_vlog d4)) bops es"
          proof
            assume small: "length (file_committed (vlog_file (db_vlog d4))) < 2 ^ 64"
            have "file_committed (vlog_file (db_vlog d4)) = file_committed (vlog_file v)" "vlog_grows v (db_vlog d4)"
              using ss v3 v4 by simp_all
            then show "list_all2 (entry_of crc (db_vlog d4)) bops es"
              using ps Inr small list_all2_mono [of "entry_of crc v" bops es "entry_of crc (db_vlog d4)"] entry_of_grows by metis
          qed
          moreover have "op_sync (db_opts db) = Always \<longrightarrow> sf_synced (db_wal d4) = length (sf_data (db_wal d4))
              \<and> (db_vlog d4 = db_vlog db \<or> vl_written (db_vlog d4) \<le> vl_synced (db_vlog d4))"
          proof
            assume al: "op_sync (db_opts db) = Always"
            have "db_vlog d4 = db_vlog db \<or> vl_written (db_vlog d4) \<le> vl_synced (db_vlog d4)"
            proof (cases any)
              case True
              then show ?thesis using ss ok2 al v3 v4 by simp
            next
              case False
              then have "v = db_vlog db" "db_vlog d2 = v" using ps s by (auto simp: sync_payload_def)
              then show ?thesis using v3 v4 by simp
            qed
            moreover have "op_sync (db_opts d3) = Always" using al f2 f3 by simp
            ultimately show "sf_synced (db_wal d4) = length (sf_data (db_wal d4))
              \<and> (db_vlog d4 = db_vlog db \<or> vl_written (db_vlog d4) \<le> vl_synced (db_vlog d4))"
              using ls t by simp
          qed
          ultimately have "committed_as crc sk base bops es db db'"
            using wal ok2 f2 f3 f4 by (simp add: committed_as_def db' publish_batch_def)
          moreover have "commit_frame db db'" using fr by (simp add: db' publish_batch_def commit_defs)
          ultimately show ?thesis using db' by blast
        qed
      qed
    qed
  qed
qed

end
