(* ===== verification/StoreMap.thy ===== *)
theory StoreMap
  imports Commit Reads
begin

text \<open>
  The store refines a map: what a reader sees at a seqno is a map from user keys to values, a
  commit applies its operations to the newest map and leaves every older one as it was, and
  the rotations change none of them.
\<close>

section \<open>One more entry in the newest layer\<close>

definition below :: "seqno \<Rightarrow> entry list list \<Rightarrow> bool" where
  "below q ess \<longleftrightarrow> (\<forall>es \<in> set ess. \<forall>e \<in> set es. ikey_seqno (fst e) < q)"

lemma unat_seq_succ: "q < max_seqno \<Longrightarrow> unat (q + 1) = unat q + 1"
  by (auto simp: max_seqno_val word_less_nat_alt unat_word_ariths)

lemma less_seq_succ: "q < max_seqno \<Longrightarrow> x < q + 1 \<longleftrightarrow> x \<le> q"
  using unat_seq_succ [of q] by (simp add: word_less_nat_alt word_le_nat_alt less_Suc_eq_le)

lemma newest_insert:
  fixes u v :: bytes and kd :: value_kind
  assumes l: "layered (es # ess)" and b: "below q (es # ess)" and q: "q < max_seqno"
  defines "es' \<equiv> put_entry (make_ikey u q kd) v es"
  shows "layered (es' # ess)" and "below (q + 1) (es' # ess)"
    and "first_hit (es' # ess) k s = (if k = u \<and> q \<le> s then Some (make_ikey u q kd, v) else first_hit (es # ess) k s)"
    and "list_all entries_kinds (es # ess) \<Longrightarrow> list_all entries_kinds (es' # ess)"
proof -
  have es: "entries_sorted es" and nl: "\<forall>fs \<in> set ess. newer_layer es fs" and ll: "layered ess" using l by (simp_all add: layered_Cons)
  have q': "q \<le> max_seqno" using q by simp
  have sub: "set es' \<subseteq> insert (make_ikey u q kd, v) (set es)" by (auto simp: es'_def set_put_entry [OF es])
  have bq: "ikey_seqno (fst e) < q" if "fs \<in> set (es # ess)" "e \<in> set fs" for fs e using b that unfolding below_def by blast
  have "newer_layer es' fs" if "fs \<in> set ess" for fs
    unfolding newer_layer_def
  proof (intro ballI impI)
    fix x y assume "x \<in> set es'" "y \<in> set fs" "ikey_ukey (fst x) = ikey_ukey (fst y)"
    moreover have "ikey_seqno (fst y) < q" using bq [of fs y] that \<open>y \<in> set fs\<close> by simp
    ultimately show "ikey_seqno (fst y) < ikey_seqno (fst x)"
      using sub nl that q' by (auto simp: newer_layer_def key_simps)
  qed
  then show "layered (es' # ess)" using ll put_entry_sorted [OF es] by (simp add: layered_Cons es'_def)
  show "below (q + 1) (es' # ess)"
    unfolding below_def less_seq_succ [OF q]
  proof (intro ballI)
    fix fs e assume "fs \<in> set (es' # ess)" "e \<in> set fs"
    then consider "e = (make_ikey u q kd, v)" | gs where "gs \<in> set (es # ess)" "e \<in> set gs" using sub by auto
    then show "ikey_seqno (fst e) \<le> q" by cases (use q' bq in \<open>auto simp: key_simps less_imp_le\<close>)
  qed
  have "no_newer es k s (make_ikey u q kd)" if "k = u"
    using bq [of es] that q' by (auto simp: no_newer_def is_version_def vkey_of_def less_eq_vkey_def less_vkey_def key_simps)
  then show "first_hit (es' # ess) k s = (if k = u \<and> q \<le> s then Some (make_ikey u q kd, v) else first_hit (es # ess) k s)"
    using lookup_at_put_entry [OF es q', of u kd v k s] by (simp add: es'_def)
  show "list_all entries_kinds (es' # ess)" if "list_all entries_kinds (es # ess)"
  proof -
    have "\<exists>kd. ikey_kind (fst e) = Ok kd" if "e \<in> set es'" for e
      using subsetD [OF sub that] \<open>list_all entries_kinds (es # ess)\<close> q'
      by (auto simp: entries_kinds_def list_all_iff key_simps)
    then show ?thesis using that by (simp add: entries_kinds_def list_all_iff)
  qed
qed

section \<open>What the layers stand for\<close>

type_synonym key_map = "bytes \<Rightarrow> bytes option"

definition hit_stands :: "(bytes \<Rightarrow> bytes \<Rightarrow> bytes \<Rightarrow> bool) \<Rightarrow> bytes \<Rightarrow> entry option \<Rightarrow> bytes option \<Rightarrow> bool" where
  "hit_stands V k h x \<longleftrightarrow> (case h of
     None \<Rightarrow> x = None
   | Some e \<Rightarrow> ikey_kind (fst e) = Ok Delete \<and> x = None \<or> ikey_kind (fst e) = Ok Put \<and> (\<exists>v. x = Some v \<and> V k (snd e) v))"

definition layers_hold :: "(bytes \<Rightarrow> bytes \<Rightarrow> bytes \<Rightarrow> bool) \<Rightarrow> entry list list \<Rightarrow> seqno \<Rightarrow> key_map \<Rightarrow> bool" where
  "layers_hold V ess s m \<longleftrightarrow> (\<forall>k. hit_stands V k (first_hit ess k s) (m k))"

fun op_on :: "batch_op \<Rightarrow> key_map \<Rightarrow> key_map" where
  "op_on (OpPut key val) m = m(key := Some val)"
| "op_on (OpDelete key) m = m(key := None)"

definition op_entry :: "(bytes \<Rightarrow> bytes \<Rightarrow> bytes \<Rightarrow> bool) \<Rightarrow> batch_op \<Rightarrow> enc_entry \<Rightarrow> bool" where
  "op_entry V bop e \<longleftrightarrow> ee_key e = op_key bop \<and>
     (case bop of OpPut key val \<Rightarrow> ee_kind e = Put \<and> V key (ee_repr e) val | OpDelete key \<Rightarrow> ee_kind e = Delete)"

lemma layers_hold_insert:
  assumes "layered (es # ess)" and "below q (es # ess)" and "q < max_seqno" and "op_entry V bop e"
    and "layers_hold V (es # ess) s m"
  defines "es' \<equiv> put_entry (make_ikey (ee_key e) q (ee_kind e)) (ee_repr e) es"
  shows "layers_hold V (es' # ess) s (if q \<le> s then op_on bop m else m)"
  unfolding layers_hold_def
proof
  fix k
  have "hit_stands V k (first_hit (es # ess) k s) (m k)" using assms(5) by (simp add: layers_hold_def)
  moreover have "hit_stands V (ee_key e) (Some (make_ikey (ee_key e) q (ee_kind e), ee_repr e)) (op_on bop m (ee_key e))"
    using assms(3,4) by (cases bop) (simp_all add: op_entry_def hit_stands_def key_simps)
  moreover have "op_on bop m k = m k" if "k \<noteq> ee_key e" using that assms(4) by (cases bop) (simp_all add: op_entry_def)
  ultimately show "hit_stands V k (first_hit (es' # ess) k s) ((if q \<le> s then op_on bop m else m) k)"
    unfolding es'_def newest_insert(3) [OF assms(1-3)] by auto
qed

lemma layers_hold_entries:
  assumes "skip_ok sk ents" and "list_all2 (op_entry V) bops es"
    and "layered (ents (mt_map mem) # ess)" and "below base (ents (mt_map mem) # ess)"
    and "list_all entries_kinds (ents (mt_map mem) # ess)" and "unat base + length es \<le> unat max_seqno"
  defines "mem' \<equiv> insert_entries sk base es mem"
  shows "layered (ents (mt_map mem') # ess) \<and> below (base + of_nat (length es)) (ents (mt_map mem') # ess)
    \<and> list_all entries_kinds (ents (mt_map mem') # ess)
    \<and> (\<forall>s m. layers_hold V (ents (mt_map mem) # ess) s m \<longrightarrow>
         (s < base \<longrightarrow> layers_hold V (ents (mt_map mem') # ess) s m) \<and>
         (base + of_nat (length es) \<le> s + 1 \<and> s < max_seqno \<longrightarrow> layers_hold V (ents (mt_map mem') # ess) s (fold op_on bops m)))"
  using assms(2-6) unfolding mem'_def
proof (induction bops es arbitrary: base mem rule: list_all2_induct)
  case (Cons bop bops e es)
  have q: "base < max_seqno" using Cons.prems(4) by (simp add: word_less_nat_alt)
  let ?mem = "memtable_insert sk (make_ikey (ee_key e) base (ee_kind e)) (ee_repr e) mem"
  have ents: "ents (mt_map ?mem) = put_entry (make_ikey (ee_key e) base (ee_kind e)) (ee_repr e) (ents (mt_map mem))"
    using assms(1) by (simp add: skip_ok_def memtable_insert_def)
  note n = newest_insert [OF Cons.prems(1,2) q, of "ee_key e" "ee_kind e" "ee_repr e", folded ents]
  have ih: "unat (base + 1) + length es \<le> unat max_seqno" using Cons.prems(4) unat_seq_succ [OF q] by simp
  note ih = Cons.IH [OF n(1,2) n(4) [OF Cons.prems(3)] ih]
  note h = layers_hold_insert [OF Cons.prems(1,2) q Cons.hyps(1), folded ents]
  have small: "length es < 2 ^ 64" using Cons.prems(4) by (simp add: max_seqno_val)
  have le: "base \<le> s" if "base + 1 + of_nat (length es) \<le> s + 1" "s < max_seqno" for s
  proof -
    have "unat (base + 1 + of_nat (length es)) = unat base + 1 + length es"
      using unat_seq_succ [OF q] Cons.prems(4) small by (simp add: unat_word_ariths unat_of_nat max_seqno_val)
    then show ?thesis using that unat_seq_succ [of s] by (simp add: word_le_nat_alt)
  qed
  have lt: "s < base + 1" if "s < base" for s using that less_seq_succ [OF q] by simp
  have old: "layers_hold V (ents (mt_map ?mem) # ess) s m" if "layers_hold V (ents (mt_map mem) # ess) s m" "s < base" for s m
    using h [OF that(1)] that(2) by (simp add: not_le [symmetric])
  have new: "layers_hold V (ents (mt_map ?mem) # ess) s (op_on bop m)" if "layers_hold V (ents (mt_map mem) # ess) s m" "base \<le> s" for s m
    using h [OF that(1)] that(2) by simp
  have len: "base + of_nat (length (e # es)) = base + 1 + of_nat (length es)" by simp
  show ?case
    unfolding insert_entries.simps len fold_simps using ih old new le lt by blast
qed (auto simp: layers_hold_def)

section \<open>Values\<close>

text \<open>
  A representation stands for a value: inline, or by a record that a listed value log holds at
  the pointer's place, and which is what a cache may hold for that place.
\<close>

definition record_at :: "(bytes \<Rightarrow> u32) \<Rightarrow> (cache_key \<Rightarrow> bytes \<Rightarrow> bool) \<Rightarrow> vlog_handle \<Rightarrow> value_ptr \<Rightarrow> bytes \<Rightarrow> bytes \<Rightarrow> bool" where
  "record_at crc P h p key v \<longleftrightarrow> vh_id h = vp_file p \<and> file_wf (vh_file h) \<and> record_ok (key, v) \<and>
     (\<exists>pre post. file_committed (vh_file h) = pre @ encode_record crc key v @ post \<and> unat (vp_offset p) = length pre) \<and>
     unat (vp_len p) = length (encode_record crc key v) \<and> (\<forall>bs. P (vp_file p, vp_offset p) bs \<longleftrightarrow> bs = encode_record crc key v)"

definition value_at :: "(bytes \<Rightarrow> u32) \<Rightarrow> (cache_key \<Rightarrow> bytes \<Rightarrow> bool) \<Rightarrow> (u64 \<times> vlog_handle) list \<Rightarrow> bytes \<Rightarrow> bytes \<Rightarrow> bytes \<Rightarrow> bool" where
  "value_at crc P vs key repr v \<longleftrightarrow> decode_repr repr = Ok (Inline v) \<or>
     (\<exists>p h. decode_repr repr = Ok (Ptr p) \<and> map_of vs (vp_file p) = Some h \<and> record_at crc P h p key v)"

definition vlogs_extend :: "(u64 \<times> vlog_handle) list \<Rightarrow> (u64 \<times> vlog_handle) list \<Rightarrow> bool" where
  "vlogs_extend vs vs' \<longleftrightarrow> (\<forall>i h. map_of vs i = Some h \<longrightarrow> (\<exists>h' post. map_of vs' i = Some h' \<and> vh_id h' = vh_id h
     \<and> (file_wf (vh_file h) \<longrightarrow> file_wf (vh_file h')) \<and> file_committed (vh_file h') = file_committed (vh_file h) @ post))"

lemma vlogs_extend_refl [simp]: "vlogs_extend vs vs"
  by (simp add: vlogs_extend_def)

lemma vlogs_extend_trans:
  assumes "vlogs_extend us vs" and "vlogs_extend vs ws"
  shows "vlogs_extend us ws"
  unfolding vlogs_extend_def
proof (intro allI impI)
  fix i h assume "map_of us i = Some h"
  then obtain g p where g: "map_of vs i = Some g" "vh_id g = vh_id h" "file_wf (vh_file h) \<longrightarrow> file_wf (vh_file g)"
    "file_committed (vh_file g) = file_committed (vh_file h) @ p" using assms(1) unfolding vlogs_extend_def by metis
  then obtain f q where "map_of ws i = Some f" "vh_id f = vh_id g" "file_wf (vh_file g) \<longrightarrow> file_wf (vh_file f)"
    "file_committed (vh_file f) = file_committed (vh_file g) @ q" using assms(2) unfolding vlogs_extend_def by metis
  then show "\<exists>h' post. map_of ws i = Some h' \<and> vh_id h' = vh_id h
     \<and> (file_wf (vh_file h) \<longrightarrow> file_wf (vh_file h')) \<and> file_committed (vh_file h') = file_committed (vh_file h) @ post"
    using g by (intro exI [of _ f] exI [of _ "p @ q"]) simp
qed

lemma value_at_extend:
  assumes "vlogs_extend vs vs'" and "value_at crc P vs key repr v"
  shows "value_at crc P vs' key repr v"
  using assms(2) unfolding value_at_def
proof
  assume "\<exists>p h. decode_repr repr = Ok (Ptr p) \<and> map_of vs (vp_file p) = Some h \<and> record_at crc P h p key v"
  then obtain p h where p: "decode_repr repr = Ok (Ptr p)" "map_of vs (vp_file p) = Some h" "record_at crc P h p key v" by blast
  obtain h' post where h': "map_of vs' (vp_file p) = Some h'" "vh_id h' = vh_id h" "file_wf (vh_file h) \<longrightarrow> file_wf (vh_file h')"
    "file_committed (vh_file h') = file_committed (vh_file h) @ post" using assms(1) p(2) unfolding vlogs_extend_def by metis
  then have "record_at crc P h' p key v" using p(3) unfolding record_at_def by (metis append_assoc)
  then show "decode_repr repr = Ok (Inline v) \<or>
      (\<exists>p h. decode_repr repr = Ok (Ptr p) \<and> map_of vs' (vp_file p) = Some h \<and> record_at crc P h p key v)"
    using p(1) h'(1) by blast
qed blast

lemma committed_read:
  assumes "file_wf f" and "file_committed f = pre @ bs @ post"
  shows "file_read_exact_at (length pre) (length bs) f = Ok bs"
proof -
  have f: "sf_data f = (pre @ bs @ post) @ drop (sf_append_off f) (sf_data f)"
    using assms unfolding file_committed_def by (metis append_take_drop_id)
  then have "length (sf_data f) = length pre + length bs + length post + length (drop (sf_append_off f) (sf_data f))"
    by (metis length_append add.assoc)
  moreover have "take (length bs) (drop (length pre) (sf_data f)) = bs" by (subst f) simp
  ultimately show ?thesis by (simp add: file_read_exact_at_def)
qed

lemma read_value_record_at:
  assumes "record_at crc P h p key v" and "cache_holds P c"
  shows "\<exists>c'. read_value crc h p key (Some c) = (Ok v, Some c') \<and> cache_holds P c'"
proof -
  obtain hit c1 where g: "cache_get (vh_id h) (vp_offset p) c = (hit, c1)" by (cases "cache_get (vh_id h) (vp_offset p) c")
  note gg = blocks.all_cached_get [OF assms(2) g]
  have r: "record_value_for crc (encode_record crc key v) key = Ok v"
    using assms(1) record_value_for_encode record_ok_slices by (auto simp: record_at_def)
  have "file_read_exact_at (unat (vp_offset p)) (unat (vp_len p)) (vh_file h) = Ok (encode_record crc key v)"
    using assms(1) committed_read unfolding record_at_def by metis
  moreover have "cache_holds P (cache_insert (vh_id h) (vp_offset p) (encode_record crc key v) c1)"
    using assms(1) gg by (intro blocks.all_cached_insert) (simp_all add: record_at_def)
  moreover have "hit = Some bs \<Longrightarrow> bs = encode_record crc key v" for bs
    using assms(1) gg by (simp add: record_at_def)
  ultimately show ?thesis using g gg r by (cases hit) (auto simp: read_value_def)
qed

lemma resolve_value_at:
  assumes "value_at (ex_crc ex) P (vs_vlogs vs) key repr v" and "cache_holds P c"
  shows "\<exists>c'. resolve_repr (ex_crc ex) vs key repr c = (Ok v, c') \<and> cache_holds P c'"
  using assms(1) unfolding value_at_def
proof (elim disjE exE conjE)
  fix p h
  assume "decode_repr repr = Ok (Ptr p)" "map_of (vs_vlogs vs) (vp_file p) = Some h" "record_at (ex_crc ex) P h p key v"
  then show ?thesis using read_value_record_at [OF _ assms(2)] by (fastforce simp: resolve_repr_def)
qed (use assms(2) in \<open>simp add: resolve_repr_def\<close>)

section \<open>The store\<close>

definition db_layers :: "codecs \<Rightarrow> ('m \<Rightarrow> entry list) \<Rightarrow> 'm db \<Rightarrow> entry list list" where
  "db_layers ex ents db = view_layers ex ents (read_view_of db)"

abbreviation head_id :: "'m db \<Rightarrow> u64" where "head_id db \<equiv> vh_id (vl_handle (db_vlog db))"
abbreviation vlogs_now :: "'m db \<Rightarrow> (u64 \<times> vlog_handle) list" where "vlogs_now db \<equiv> vs_vlogs (db_version_now db)"

definition db_ok ::
    "codecs \<Rightarrow> 'm skip_ops \<Rightarrow> ('m \<Rightarrow> entry list) \<Rightarrow> (cache_key \<Rightarrow> bytes \<Rightarrow> bool) \<Rightarrow> 'm db \<Rightarrow> bool" where
  "db_ok ex sk ents P db \<longleftrightarrow> view_sound ex sk ents P (read_view_of db) \<and> below (db_visible db + 1) (db_layers ex ents db)
     \<and> db_visible db < max_seqno \<and> files_ok db \<and> cache_holds P (db_cache db)
     \<and> (\<forall>i h. map_of (vs_vlogs (db_version db)) i = Some h \<longrightarrow> vh_id h = i \<and> i < db_next_file_id db)
     \<and> (\<forall>f. Ok f \<in> set (db_created db) \<longrightarrow> file_wf f)
     \<and> (db_bg_error db = None \<longrightarrow> map_of (vs_vlogs (db_version db)) (head_id db) \<noteq> None)"

text \<open>What a reader sees at a seqno is the map \<open>m\<close>.\<close>

definition db_holds ::
    "codecs \<Rightarrow> ('m \<Rightarrow> entry list) \<Rightarrow> (cache_key \<Rightarrow> bytes \<Rightarrow> bool) \<Rightarrow> 'm db \<Rightarrow> seqno \<Rightarrow> key_map \<Rightarrow> bool" where
  "db_holds ex ents P db s m \<longleftrightarrow> layers_hold (value_at (ex_crc ex) P (vlogs_now db)) (db_layers ex ents db) s m"

text \<open>
  \<open>P\<close> tells what the write-once files hold: at the place of every record of a value log it has
  that record.
\<close>

definition cache_truth :: "(bytes \<Rightarrow> u32) \<Rightarrow> (cache_key \<Rightarrow> bytes \<Rightarrow> bool) \<Rightarrow> (u64 \<times> vlog_handle) list \<Rightarrow> bool" where
  "cache_truth crc P vs \<longleftrightarrow> (\<forall>i h. map_of vs i = Some h \<longrightarrow> length (file_committed (vh_file h)) < 2 ^ 64 \<and>
     (\<forall>pre k v post bs. record_ok (k, v) \<and> file_committed (vh_file h) = pre @ encode_record crc k v @ post \<longrightarrow>
        (P (i, of_nat (length pre)) bs \<longleftrightarrow> bs = encode_record crc k v)))"

lemma cache_truth_extend:
  assumes "vlogs_extend vs vs'" and "cache_truth crc P vs'"
  shows "cache_truth crc P vs"
  unfolding cache_truth_def
proof (intro allI impI)
  fix i h assume "map_of vs i = Some h"
  then obtain h' x where h': "map_of vs' i = Some h'" "file_committed (vh_file h') = file_committed (vh_file h) @ x"
    using assms(1) unfolding vlogs_extend_def by metis
  have t: "length (file_committed (vh_file h')) < 2 ^ 64"
    "\<And>pre k v post bs. record_ok (k, v) \<Longrightarrow> file_committed (vh_file h') = pre @ encode_record crc k v @ post \<Longrightarrow>
        P (i, of_nat (length pre)) bs \<longleftrightarrow> bs = encode_record crc k v"
    using assms(2) h'(1) unfolding cache_truth_def by blast+
  have "length (file_committed (vh_file h)) < 2 ^ 64" using t(1) h'(2) by simp
  moreover have "P (i, of_nat (length pre)) bs \<longleftrightarrow> bs = encode_record crc k v"
    if "record_ok (k, v)" "file_committed (vh_file h) = pre @ encode_record crc k v @ post" for pre k v post bs
    using t(2) [OF that(1), of pre "post @ x"] that(2) h'(2) by simp
  ultimately show "length (file_committed (vh_file h)) < 2 ^ 64 \<and>
     (\<forall>pre k v post bs. record_ok (k, v) \<and> file_committed (vh_file h) = pre @ encode_record crc k v @ post \<longrightarrow>
        (P (i, of_nat (length pre)) bs \<longleftrightarrow> bs = encode_record crc k v))" by blast
qed

lemma map_of_share: "map_of (vlogs_share h vs) i = map_option (\<lambda>g. if i = vh_id h then h else g) (map_of vs i)"
  by (induction vs) (auto simp: vlogs_share_def)

lemma share_extend:
  assumes "vh_id h' = vh_id h" and "file_wf (vh_file h) \<Longrightarrow> file_wf (vh_file h')"
    and "file_committed (vh_file h') = file_committed (vh_file h) @ post"
  shows "vlogs_extend (vlogs_share h vs) (vlogs_share h' vs)"
  unfolding vlogs_extend_def
proof (intro allI impI)
  fix i g assume "map_of (vlogs_share h vs) i = Some g"
  then obtain g0 where g: "map_of vs i = Some g0" "g = (if i = vh_id h then h else g0)" by (auto simp: map_of_share)
  then have "map_of (vlogs_share h' vs) i = Some (if i = vh_id h then h' else g0)" using assms(1) by (simp add: map_of_share)
  then show "\<exists>h'' post. map_of (vlogs_share h' vs) i = Some h'' \<and> vh_id h'' = vh_id g
     \<and> (file_wf (vh_file g) \<longrightarrow> file_wf (vh_file h'')) \<and> file_committed (vh_file h'') = file_committed (vh_file g) @ post"
    using assms g(2) by (intro exI [of _ "if i = vh_id h then h' else g0"] exI [of _ "if i = vh_id h then post else []"]) simp
qed

lemma hit_stands_mono: "(\<And>k r v. V k r v \<Longrightarrow> W k r v) \<Longrightarrow> hit_stands V k h x \<Longrightarrow> hit_stands W k h x"
  by (cases h) (auto simp: hit_stands_def)

lemma layers_hold_mono:
  assumes "\<And>k r v. V k r v \<Longrightarrow> W k r v" and "layers_hold V ess s m"
  shows "layers_hold W ess s m"
  using assms(2) hit_stands_mono [of V W, OF assms(1)] unfolding layers_hold_def by blast

lemma db_holds_keep:
  assumes "db_layers ex ents db' = db_layers ex ents db" and "vlogs_extend (vlogs_now db) (vlogs_now db')"
    and "db_holds ex ents P db s m"
  shows "db_holds ex ents P db' s m"
  using assms(3) unfolding db_holds_def assms(1) by (elim layers_hold_mono [rotated] value_at_extend [OF assms(2)])

section \<open>Reads\<close>

lemma get_at_seq_holds:
  assumes ok: "db_ok ex sk ents P db" and m: "db_holds ex ents P db (min s (db_visible db)) m"
  shows "\<exists>c. get_at_seq ex sk k s db = (Ok (m k), db\<lparr>db_cache := c\<rparr>) \<and> cache_holds P c"
proof -
  let ?v = "read_view_of db" and ?s = "min s (db_visible db)"
  have v: "view_sound ex sk ents P ?v" and c: "cache_holds P (db_cache db)" and vs: "rv_visible ?v = db_visible db"
    and s: "?s \<le> max_seqno" using ok by (auto simp: db_ok_def read_view_of_def min_def)
  obtain c1 where c1: "get_versioned ex sk ?v k ?s (db_cache db) = (opt_hit (lookup_at (view_entries ex ents ?v) k ?s), c1)"
    "cache_holds P c1" using get_versioned_lookup [OF v c s] by blast
  have look: "lookup_at (view_entries ex ents ?v) k ?s = first_hit (db_layers ex ents db) k ?s"
    using v first_hit_merge by (simp add: view_sound_def view_entries_def db_layers_def)
  have h: "hit_stands (value_at (ex_crc ex) P (vlogs_now db)) k (first_hit (db_layers ex ents db) k ?s) (m k)"
    using m by (simp add: db_holds_def layers_hold_def)
  show ?thesis
  proof (cases "first_hit (db_layers ex ents db) k ?s")
    case None
    then have "get_at_seq ex sk k s db = (Ok (m k), db\<lparr>db_cache := c1\<rparr>)"
      using c1 look h vs by (simp add: get_at_seq_def Let_def hit_stands_def)
    then show ?thesis using c1(2) by blast
  next
    case (Some e)
    then consider "ikey_kind (fst e) = Ok Delete" "m k = None"
      | x where "ikey_kind (fst e) = Ok Put" "m k = Some x" "value_at (ex_crc ex) P (vlogs_now db) k (snd e) x"
      using h by (auto simp: hit_stands_def)
    then show ?thesis
    proof cases
      case 1
      then have "get_at_seq ex sk k s db = (Ok (m k), db\<lparr>db_cache := c1\<rparr>)"
        using c1 look Some vs by (simp add: get_at_seq_def Let_def opt_hit_def hit_of_def)
      then show ?thesis using c1(2) by blast
    next
      case 2
      have "vs_vlogs (rv_version ?v) = vlogs_now db" by (simp add: read_view_of_def)
      then obtain c2 where "resolve_repr (ex_crc ex) (rv_version ?v) k (snd e) c1 = (Ok x, c2)" "cache_holds P c2"
        using resolve_value_at [of ex P "rv_version ?v" k "snd e" x c1] 2(3) c1(2) by auto
      then have "get_at_seq ex sk k s db = (Ok (m k), db\<lparr>db_cache := c2\<rparr>) \<and> cache_holds P c2"
        using c1 look Some vs 2 by (simp add: get_at_seq_def Let_def opt_hit_def hit_of_def)
      then show ?thesis by blast
    qed
  qed
qed

section \<open>Commits\<close>

lemma first_hit_below:
  assumes "below q ess" and "q \<le> s + 1" and "q \<le> t + 1" and "s < max_seqno" and "t < max_seqno"
  shows "first_hit ess k s = first_hit ess k t"
proof -
  have iff: "is_version k s e \<longleftrightarrow> is_version k t e" if "es \<in> set ess" "e \<in> set es" for es e
  proof -
    have "ikey_seqno (fst e) < q" using assms(1) that unfolding below_def by blast
    then have "ikey_seqno (fst e) \<le> s" "ikey_seqno (fst e) \<le> t"
      using assms(2,3) less_seq_succ [OF assms(4)] less_seq_succ [OF assms(5)] by (metis order.strict_trans2)+
    then show ?thesis by (simp add: is_version_def)
  qed
  have "\<forall>es \<in> set ess. lookup_at es k s = lookup_at es k t"
    unfolding lookup_at_def using iff by (auto intro!: find_cong)
  then show ?thesis by (induction ess) (auto split: option.splits)
qed

lemma op_cost_bounds:
  assumes "sum_list (map op_cost bops) < wal_limit"
  shows "length bops < 2 ^ 30" and "bop \<in> set bops \<Longrightarrow> op_cost bop < 2 ^ 30"
proof -
  have one: "1 \<le> op_cost b" for b by (cases b) simp_all
  have "length bops \<le> sum_list (map op_cost bops)"
    by (induction bops) (use one in \<open>auto simp: add_mono le_Suc_eq Suc_le_eq intro: add_le_mono [of 1, simplified]\<close>)
  then show "length bops < 2 ^ 30" using assms by (simp add: wal_limit_def)
  show "op_cost bop < 2 ^ 30" if "bop \<in> set bops"
    using member_le_sum_list [of "op_cost bop" "map op_cost bops"] that assms by (simp add: wal_limit_def)
qed

lemma entry_of_op_entry:
  assumes e: "entry_of crc (db_vlog db) bop e" and c: "op_cost bop < 2 ^ 30" and t: "cache_truth crc P (vlogs_now db)"
    and h: "map_of (vs_vlogs (db_version db)) (head_id db) \<noteq> None" and w: "file_wf (vlog_file (db_vlog db))"
  shows "op_entry (value_at crc P (vlogs_now db)) bop e"
proof (cases bop)
  case (OpPut key val)
  let ?h = "vl_handle (db_vlog db)"
  have m: "map_of (vlogs_now db) (head_id db) = Some ?h" using h by (auto simp: db_version_now_def map_of_share)
  have ok: "record_ok (key, val)" using c OpPut by (simp add: record_ok_def)
  have "stands_for crc (db_vlog db) key (ee_repr e) val" using e OpPut by (simp add: entry_of_def)
  then have "value_at crc P (vlogs_now db) key (ee_repr e) val"
    unfolding stands_for_def
  proof (elim disjE exE conjE)
    fix p pre post
    assume p: "decode_repr (ee_repr e) = Ok (Ptr p)" "vp_file p = head_id db"
      "file_committed (vlog_file (db_vlog db)) = pre @ encode_record crc key val @ post"
      "unat (vp_offset p) = length pre" "unat (vp_len p) = length (encode_record crc key val)"
    have "P (head_id db, of_nat (length pre)) bs \<longleftrightarrow> bs = encode_record crc key val" for bs
      using t m ok p(3) unfolding cache_truth_def by blast
    then have "P (vp_file p, vp_offset p) bs \<longleftrightarrow> bs = encode_record crc key val" for bs
      using p(2) by (simp flip: p(4))
    then have "record_at crc P ?h p key val" using p ok w unfolding record_at_def by metis
    then show ?thesis using p m by (auto simp: value_at_def)
  qed (simp add: value_at_def)
  then show ?thesis using e OpPut by (simp add: op_entry_def entry_of_def)
qed (use e in \<open>simp add: op_entry_def entry_of_def\<close>)

lemma db_layers_eq:
  "db_layers ex ents db = ents (mt_map (db_mem db)) # map (\<lambda>mt. ents (mt_map mt)) (db_imms db) @ version_layers ex (db_version db)"
  by (simp add: db_layers_def view_layers_def mem_layers_def read_view_of_def db_version_now_def version_layers_def
      runs_newest_first_def)

lemma view_sound_now:
  "view_sound ex sk ents P (read_view_of db) \<longleftrightarrow> skip_ok sk ents \<and> version_sound ex P (db_version db)
     \<and> layered (db_layers ex ents db) \<and> list_all entries_kinds (db_layers ex ents db)"
  by (simp add: view_sound_def db_layers_def read_view_of_def db_version_now_def version_sound_def runs_newest_first_def)

lemma vlog_grows_extend:
  assumes "vlog_grows (db_vlog db) (db_vlog db')" and "db_version db' = db_version db"
    and "file_wf (vlog_file (db_vlog db'))"
  shows "vlogs_extend (vlogs_now db) (vlogs_now db')" and "head_id db' = head_id db"
  using assms share_extend [of "vl_handle (db_vlog db')" "vl_handle (db_vlog db)"]
  by (auto simp: vlog_grows_def db_version_now_def)

lemma commit_keeps_ok:
  assumes ok: "db_ok ex sk ents P db" and bg: "db_bg_error db = None" and fr: "commit_frame db db'"
    and l: "layered (db_layers ex ents db')" "list_all entries_kinds (db_layers ex ents db')"
    and b: "below (db_visible db' + 1) (db_layers ex ents db')" "db_visible db' < max_seqno"
  shows "db_ok ex sk ents P db'"
proof -
  have e: "db_version db' = db_version db" "db_cache db' = db_cache db" "db_next_file_id db' = db_next_file_id db"
    "db_created db' = db_created db" "files_ok db'" "vlog_grows (db_vlog db) (db_vlog db')"
    using fr by (simp_all add: commit_frame_def)
  have h: "head_id db' = head_id db" using e by (simp add: vlog_grows_def)
  show ?thesis using ok bg l b e(5) unfolding db_ok_def view_sound_now e(1-4) h by simp
qed

text \<open>A commit that was refused: readers see what they saw.\<close>

lemma refused_keeps:
  assumes ok: "db_ok ex sk ents P db" and bg: "db_bg_error db = None"
    and fr: "commit_frame db db'" and r: "refused r db db'"
  shows "db_ok ex sk ents P db' \<and> db_visible db' = db_visible db \<and> (\<forall>s m. db_holds ex ents P db s m \<longrightarrow> db_holds ex ents P db' s m)"
proof -
  have e: "db_mem db' = db_mem db" "db_visible db' = db_visible db" "db_imms db' = db_imms db" "db_version db' = db_version db"
    "vlog_grows (db_vlog db) (db_vlog db')" "file_wf (vlog_file (db_vlog db'))"
    using fr r by (simp_all add: commit_frame_def refused_def unpublished_def files_ok_def)
  have l: "db_layers ex ents db' = db_layers ex ents db" by (simp add: db_layers_eq e)
  have "db_ok ex sk ents P db'"
    using ok by (intro commit_keeps_ok [OF ok bg fr]) (simp_all add: l e db_ok_def view_sound_now)
  then show ?thesis using db_holds_keep [OF l] vlog_grows_extend(1) e by blast
qed

text \<open>A commit that was accepted: the entries are the newest versions, everything older stays.\<close>

lemma committed_keeps:
  assumes ok: "db_ok ex sk ents P db" and bg: "db_bg_error db = None" and fr: "commit_frame db db'"
    and c: "committed_as (ex_crc ex) sk (db_visible db + 1) bops es db db'"
    and sz: "sum_list (map op_cost bops) < wal_limit" and sq: "db_visible db + 1 + of_nat (length bops) < max_seqno"
    and t: "cache_truth (ex_crc ex) P (vlogs_now db')"
  shows "db_ok ex sk ents P db' \<and> db_visible db' = db_visible db + of_nat (length bops) \<and> db_visible db \<le> db_visible db'
    \<and> (\<forall>s m. db_holds ex ents P db s m \<longrightarrow> (s \<le> db_visible db \<longrightarrow> db_holds ex ents P db' s m)
        \<and> (s = db_visible db \<longrightarrow> db_holds ex ents P db' (db_visible db') (fold op_on bops m)))"
proof -
  let ?V = "value_at (ex_crc ex) P (vlogs_now db')" and ?base = "db_visible db + 1"
  let ?ess = "map (\<lambda>mt. ents (mt_map mt)) (db_imms db) @ version_layers ex (db_version db)"
  have e: "db_imms db' = db_imms db" "db_version db' = db_version db" "vlog_grows (db_vlog db) (db_vlog db')"
    "file_wf (vlog_file (db_vlog db'))" using fr by (simp_all add: commit_frame_def files_ok_def)
  have sk: "skip_ok sk ents" and lay: "layered (db_layers ex ents db)" and kinds: "list_all entries_kinds (db_layers ex ents db)"
    and bel: "below ?base (db_layers ex ents db)" and vis: "db_visible db < max_seqno"
    using ok by (simp_all add: db_ok_def view_sound_now)
  have listed: "map_of (vs_vlogs (db_version db')) (head_id db') \<noteq> None"
    using ok bg e vlog_grows_extend(2) [OF e(3,2,4)] by (simp add: db_ok_def)
  have "map_of (vlogs_now db') (head_id db') = Some (vl_handle (db_vlog db'))"
    using listed by (auto simp: db_version_now_def map_of_share)
  then have "length (file_committed (vlog_file (db_vlog db'))) < 2 ^ 64"
    using t unfolding cache_truth_def by blast
  then have ent: "list_all2 (entry_of (ex_crc ex) (db_vlog db')) bops es" using c by (simp add: committed_as_def)
  have len: "length es = length bops" using list_all2_lengthD [OF ent] by simp
  have ents: "list_all2 (op_entry ?V) bops es"
    using ent entry_of_op_entry [OF _ op_cost_bounds(2) [OF sz] t listed e(4)]
    by (simp add: list_all2_conv_all_nth)
  have small: "length bops < 2 ^ 30" by (rule op_cost_bounds(1) [OF sz])
  have u: "unat (?base + of_nat (length bops)) = unat ?base + length bops"
    using small vis unat_seq_succ [OF vis]
    by (simp add: unat_word_ariths unat_of_nat max_seqno_val word_less_nat_alt)
  have bound: "unat ?base + length es \<le> unat max_seqno" using sq u len by (simp add: word_less_nat_alt)
  have mem: "db_mem db' = insert_entries sk ?base es (db_mem db)" and vis': "db_visible db' = db_visible db + of_nat (length bops)"
    using c len by (simp_all add: committed_as_def)
  have layers': "db_layers ex ents db' = ents (mt_map (insert_entries sk ?base es (db_mem db))) # ?ess"
    by (simp add: db_layers_eq e mem)
  note h = layers_hold_entries [OF sk ents, of "db_mem db" ?ess ?base, folded db_layers_eq layers', OF lay bel kinds bound]
  have v1: "db_visible db' + 1 = ?base + of_nat (length es)" by (simp add: vis' len)
  have v2: "db_visible db' < max_seqno" "db_visible db \<le> db_visible db'"
    using u bound vis len unat_seq_succ [OF vis] sq unfolding vis'
    by (auto simp: word_less_nat_alt word_le_nat_alt unat_word_ariths unat_of_nat max_seqno_val)
  have "below (db_visible db' + 1) (db_layers ex ents db')" using h unfolding v1 by blast
  then have "db_ok ex sk ents P db'" using h v2 by (intro commit_keeps_ok [OF ok bg fr]) simp_all
  moreover have "db_holds ex ents P db' s m" if "db_holds ex ents P db s m" "s \<le> db_visible db" for s m
  proof -
    have "layers_hold ?V (db_layers ex ents db) s m"
      using that(1) value_at_extend [OF vlog_grows_extend(1) [OF e(3,2,4)]] unfolding db_holds_def by (elim layers_hold_mono [rotated])
    moreover have "s < ?base" using that(2) less_seq_succ [OF vis] by simp
    ultimately show ?thesis using h by (simp add: db_holds_def)
  qed
  moreover have "db_holds ex ents P db' (db_visible db') (fold op_on bops m)" if "db_holds ex ents P db (db_visible db) m" for m
  proof -
    have "layers_hold ?V (db_layers ex ents db) (db_visible db) m"
      using that value_at_extend [OF vlog_grows_extend(1) [OF e(3,2,4)]] unfolding db_holds_def by (elim layers_hold_mono [rotated])
    moreover have "first_hit (db_layers ex ents db) k (db_visible db') = first_hit (db_layers ex ents db) k (db_visible db)" for k
      using v2 vis by (intro first_hit_below [OF bel]) (simp_all add: word_le_nat_alt unat_seq_succ)
    ultimately have "layers_hold ?V (db_layers ex ents db) (db_visible db') m" by (simp add: layers_hold_def)
    moreover have "?base + of_nat (length es) \<le> db_visible db' + 1" unfolding v1 by simp
    ultimately show ?thesis using h v2 unfolding db_holds_def by blast
  qed
  ultimately show ?thesis using vis' v2(2) by blast
qed

section \<open>Rotations\<close>

definition db_files :: "'m db \<Rightarrow> bool" where
  "db_files db \<longleftrightarrow> files_ok db \<and> (\<forall>f. Ok f \<in> set (db_created db) \<longrightarrow> file_wf f)
     \<and> (\<forall>i h. map_of (vs_vlogs (db_version db)) i = Some h \<longrightarrow> vh_id h = i \<and> i < db_next_file_id db)"

lemma db_ok_files: "db_ok ex sk ents P db \<Longrightarrow> db_files db"
  unfolding db_ok_def db_files_def by blast

text \<open>What a rotation may do to the store without a reader noticing.\<close>

definition unnoticed :: "('m \<Rightarrow> entry list) \<Rightarrow> 'm db \<Rightarrow> 'm db \<Rightarrow> bool" where
  "unnoticed ents db db' \<longleftrightarrow> vs_levels (db_version db') = vs_levels (db_version db) \<and> db_visible db' = db_visible db
     \<and> db_cache db' = db_cache db \<and> db_bg_error db' = db_bg_error db \<and> files_ok db'
     \<and> set (db_created db') \<subseteq> set (db_created db)
     \<and> (db_mem db' = db_mem db \<and> db_imms db' = db_imms db
        \<or> ents (mt_map (db_mem db')) = [] \<and> db_imms db' = db_mem db # db_imms db)
     \<and> vlogs_extend (vlogs_now db) (vlogs_now db')
     \<and> (\<forall>i h. map_of (vs_vlogs (db_version db')) i = Some h \<longrightarrow> vh_id h = i \<and> i < db_next_file_id db')"

definition head_listed :: "'m db \<Rightarrow> bool" where
  "head_listed db \<longleftrightarrow> map_of (vs_vlogs (db_version db)) (head_id db) \<noteq> None"

definition stays :: "codecs \<Rightarrow> ('m \<Rightarrow> entry list) \<Rightarrow> (cache_key \<Rightarrow> bytes \<Rightarrow> bool) \<Rightarrow> 'm db \<Rightarrow> 'm db \<Rightarrow> bool" where
  "stays ex ents P db db' \<longleftrightarrow> db_visible db' = db_visible db \<and> (\<forall>s m. db_holds ex ents P db s m \<longrightarrow> db_holds ex ents P db' s m)"

lemma view_of_bg [simp]:
  "db_layers ex ents (db\<lparr>db_bg_error := b\<rparr>) = db_layers ex ents db" "vlogs_now (db\<lparr>db_bg_error := b\<rparr>) = vlogs_now db"
  "files_ok (db\<lparr>db_bg_error := b\<rparr>) = files_ok db"
  by (simp_all add: db_layers_eq db_version_now_def files_ok_def)

lemma unnoticed_stays:
  assumes ok: "db_ok ex sk ents P db" and u: "unnoticed ents db db'"
  shows "stays ex ents P db (db'\<lparr>db_bg_error := b\<rparr>)" and "db_ok ex sk ents P (db'\<lparr>db_bg_error := Some msg\<rparr>)"
    and "head_listed db' \<Longrightarrow> db_ok ex sk ents P db'"
proof -
  have v: "version_layers ex (db_version db') = version_layers ex (db_version db)"
    "version_sound ex P (db_version db') = version_sound ex P (db_version db)"
    using u by (simp_all add: unnoticed_def version_layers_def version_sound_def runs_newest_first_def)
  have l: "db_layers ex ents db' = db_layers ex ents db \<or> db_layers ex ents db' = [] # db_layers ex ents db"
    using u by (auto simp: unnoticed_def db_layers_eq v)
  then have f: "first_hit (db_layers ex ents db') k s = first_hit (db_layers ex ents db) k s" for k s by auto
  have "db_holds ex ents P db' s m" if "db_holds ex ents P db s m" for s m
  proof -
    have "layers_hold (value_at (ex_crc ex) P (vlogs_now db')) (db_layers ex ents db) s m"
      using that u value_at_extend unfolding db_holds_def unnoticed_def by (blast intro: layers_hold_mono)
    then show ?thesis by (simp add: db_holds_def layers_hold_def f)
  qed
  then show "stays ex ents P db (db'\<lparr>db_bg_error := b\<rparr>)" using u by (simp add: stays_def db_holds_def unnoticed_def)
  have "layered (db_layers ex ents db')" "list_all entries_kinds (db_layers ex ents db')"
    "below (db_visible db + 1) (db_layers ex ents db')"
    using l ok by (auto simp: db_ok_def view_sound_now layered_Cons newer_layer_def below_def entries_kinds_def)
  then show "db_ok ex sk ents P (db'\<lparr>db_bg_error := Some msg\<rparr>)" "head_listed db' \<Longrightarrow> db_ok ex sk ents P db'"
    using ok u v(2) unfolding db_ok_def view_sound_now by (auto simp: unnoticed_def head_listed_def)
qed

lemma word_less_succ: "n \<noteq> - 1 \<Longrightarrow> n < n + 1" for n :: u64
proof -
  assume "n \<noteq> - 1"
  then have "1 + n \<noteq> 0" by (metis add_eq_0_iff minus_equation_iff)
  then show "n < n + 1" by (simp add: word_less_nat_alt unatSuc add.commute)
qed

lemma ids_after_alloc:
  assumes "db_files db" and "db_next_file_id db \<noteq> - 1"
  shows "\<forall>i h. map_of (vs_vlogs (db_version db)) i = Some h \<longrightarrow> vh_id h = i \<and> i < db_next_file_id db \<and> i < db_next_file_id db + 1"
proof (intro allI impI)
  fix i h assume "map_of (vs_vlogs (db_version db)) i = Some h"
  then have i: "vh_id h = i" "i < db_next_file_id db" using assms(1) unfolding db_files_def by blast+
  have "db_next_file_id db < db_next_file_id db + 1" by (rule word_less_succ [OF assms(2)])
  then show "vh_id h = i \<and> i < db_next_file_id db \<and> i < db_next_file_id db + 1" using i by (meson less_trans)
qed

lemma create_new_fields:
  assumes "create_new db = (r, db')"
  shows "db' = db\<lparr>db_created := db_created db'\<rparr>" and "set (db_created db') \<subseteq> set (db_created db)"
    and "r = Ok f \<Longrightarrow> \<forall>g. Ok g \<in> set (db_created db) \<longrightarrow> file_wf g \<Longrightarrow> file_wf f"
  using assms by (auto simp: create_new_def split: list.splits)

lemma sync_dir_fields: "db_sync_dir db = (r, db') \<Longrightarrow> db' = db\<lparr>db_dir := db_dir db'\<rparr>"
  by (auto simp: db_sync_dir_def split: prod.splits)

lemma rotate_memtable_unnoticed:
  assumes ok: "db_files db" and emp: "ents emp = []" and n: "db_next_file_id db \<noteq> - 1"
    and r: "rotate_memtable_locked emp db = (r, db')"
  shows "unnoticed ents db db' \<and> db_vlog db' = db_vlog db \<and> db_version db' = db_version db
    \<and> db_next_file_id db' \<in> {db_next_file_id db, db_next_file_id db + 1}"
proof -
  have files: "file_wf (db_wal db)" "file_wf (vlog_file (db_vlog db))" and cr: "\<forall>g. Ok g \<in> set (db_created db) \<longrightarrow> file_wf g"
    using ok by (simp_all add: db_files_def files_ok_def)
  note ids = ids_after_alloc [OF ok n]
  obtain x f where x: "wal_sync (db_wal db) = (x, f)" by (cases "wal_sync (db_wal db)")
  have f: "file_wf f" using file_sync_spec [of "db_wal db" x f] x files by (simp add: wal_sync_def)
  show ?thesis
  proof (cases x)
    case (Inl e)
    then have "db' = db\<lparr>db_wal := f\<rparr>" using r x by (simp add: rotate_memtable_locked_def)
    then show ?thesis using f files ids by (simp add: unnoticed_def files_ok_def db_version_now_def)
  next
    case x': (Inr u)
    let ?d1 = "db\<lparr>db_wal := f, db_next_file_id := db_next_file_id db + 1\<rparr>"
    obtain y d2 where y: "create_new ?d1 = (y, d2)" by (cases "create_new ?d1")
    obtain z d3 where z: "db_sync_dir d2 = (z, d3)" by (cases "db_sync_dir d2")
    obtain cs where d2: "d2 = ?d1\<lparr>db_created := cs\<rparr>" using create_new_fields(1) [OF y] by blast
    have cs: "set cs \<subseteq> set (db_created db)" using create_new_fields(2) [OF y] d2 by simp
    obtain dd where d3: "d3 = d2\<lparr>db_dir := dd\<rparr>" using sync_dir_fields [OF z] by blast
    have w: "file_wf g" if "y = Ok g" for g using create_new_fields(3) [OF y that] cr by simp
    consider e where "y = Err e" "db' = d2" | g e where "y = Ok g" "z = Err e" "db' = d3"
      | g where "y = Ok g" "db' = d3\<lparr>db_wal := g, db_old_wals := (mt_wal_id (db_mem d3), db_wal d3) # db_old_wals d3,
           db_mem := memtable_new emp (db_next_file_id db), db_imms := db_mem d3 # db_imms d3\<rparr>"
      using r x x' y z by (cases y; cases z) (auto simp: rotate_memtable_locked_def alloc_file_id_def)
    then show ?thesis
      by cases (use d2 d3 cs f files ids w emp in \<open>simp_all add: unnoticed_def files_ok_def db_version_now_def memtable_new_def\<close>)
  qed
qed

lemma vlog_rotate_spec:
  assumes "vlog_rotate created i v = (r, v')" and "file_wf (vlog_file v)"
  shows "(\<exists>e. r = Err e) \<and> vlog_grows v v' \<and> file_wf (vlog_file v')
    \<or> (\<exists>f sealed. created = Ok f \<and> r = Ok (sealed, vlog_handle_new i f) \<and> vl_handle v' = vlog_handle_new i f
        \<and> vh_id sealed = vh_id (vl_handle v) \<and> file_wf (vh_file sealed)
        \<and> file_committed (vh_file sealed) = file_committed (vlog_file v))"
proof -
  obtain x g where g: "file_sync_data (vlog_file v) = (x, g)" by (cases "file_sync_data (vlog_file v)")
  show ?thesis using assms g file_sync_spec [OF g]
    by (cases created; cases x) (auto simp: vlog_rotate_def vlog_grows_def Let_def split: if_splits)
qed

lemma map_of_insert_vlog: "map_of (vlogs_insert i h vs) j = (if j = i then Some h else map_of vs j)"
proof -
  have "map_of (filter (\<lambda>(j, _). j \<noteq> i) vs) j = (if j = i then None else map_of vs j)" by (induction vs) auto
  then show ?thesis by (simp add: vlogs_insert_def)
qed

lemma share_absent: "map_of vs (vh_id h) = None \<Longrightarrow> map_of (vlogs_share h vs) = map_of vs"
proof
  fix j show "map_of vs (vh_id h) = None \<Longrightarrow> map_of (vlogs_share h vs) j = map_of vs j"
    by (cases "map_of vs j") (auto simp: map_of_share)
qed

lemma clone_shape [simp]: "version_clone_shape v = v"
  by (simp add: version_clone_shape_def)

lemma vlogs_extend_cong: "map_of ws = map_of vs \<Longrightarrow> vlogs_extend us vs \<Longrightarrow> vlogs_extend us ws"
  by (simp add: vlogs_extend_def)

lemma rotate_vlog_unnoticed:
  assumes ok: "db_files db" and n: "db_next_file_id db \<noteq> - 1" and r: "rotate_vlog_locked db = (r, db')"
  shows "unnoticed ents db db' \<and> (r = Ok () \<longrightarrow> head_listed db') \<and> db_mem db' = db_mem db \<and> db_imms db' = db_imms db"
proof -
  have files: "file_wf (db_wal db)" "file_wf (vlog_file (db_vlog db))" and cr: "\<forall>g. Ok g \<in> set (db_created db) \<longrightarrow> file_wf g"
    using ok by (simp_all add: db_files_def files_ok_def)
  note ids = ids_after_alloc [OF ok n]
  let ?i = "db_next_file_id db" and ?d1 = "db\<lparr>db_next_file_id := db_next_file_id db + 1\<rparr>" and ?vs = "vs_vlogs (db_version db)"
  obtain y d2 where y: "create_new ?d1 = (y, d2)" by (cases "create_new ?d1")
  obtain cs where d2: "d2 = ?d1\<lparr>db_created := cs\<rparr>" using create_new_fields(1) [OF y] by blast
  have cs: "set cs \<subseteq> set (db_created db)" using create_new_fields(2) [OF y] d2 by simp
  have w: "file_wf g" if "y = Ok g" for g using create_new_fields(3) [OF y that] cr by simp
  obtain x v where x: "vlog_rotate y ?i (db_vlog db) = (x, v)" by (cases "vlog_rotate y ?i (db_vlog db)")
  from vlog_rotate_spec [OF x files(2)] show ?thesis
  proof (elim disjE exE conjE)
    fix e assume e: "x = Err e" "vlog_grows (db_vlog db) v" "file_wf (vlog_file v)"
    then have db': "db' = d2\<lparr>db_vlog := v\<rparr>" "r = Err e" using r y x d2 by (simp_all add: rotate_vlog_locked_def alloc_file_id_def)
    have "vlogs_extend (vlogs_now db) (vlogs_now db')"
      using vlog_grows_extend(1) [of db "db'"] e db' d2 by (simp add: db_version_now_def)
    then show ?thesis using db' d2 cs e(3) files ids by (simp add: unnoticed_def files_ok_def)
  next
    fix f sealed
    assume f: "y = Ok f" "x = Ok (sealed, vlog_handle_new ?i f)" "vl_handle v = vlog_handle_new ?i f"
      "vh_id sealed = head_id db" "file_wf (vh_file sealed)" "file_committed (vh_file sealed) = file_committed (vlog_file (db_vlog db))"
    let ?vs1 = "vlogs_share sealed ?vs"
    let ?d3 = "d2\<lparr>db_vlog := v, db_version := (db_version db)\<lparr>vs_vlogs := ?vs1\<rparr>\<rparr>"
    obtain z d4 where z: "db_sync_dir ?d3 = (z, d4)" by (cases "db_sync_dir ?d3")
    obtain dd where d4: "d4 = ?d3\<lparr>db_dir := dd\<rparr>" using sync_dir_fields [OF z] by blast
    have sh: "map_of ?vs1 j = Some h \<Longrightarrow> vh_id h = j \<and> j < ?i \<and> j < ?i + 1" for j h
      using ids f(4) by (auto simp: map_of_share split: if_splits)
    have fresh: "map_of ?vs1 ?i = None" using sh [of ?i] by (cases "map_of ?vs1 ?i") auto
    have fresh': "map_of (vlogs_share (vl_handle v) ?vs1) = map_of ?vs1"
      using f(3) fresh by (intro share_absent) (simp add: vlog_handle_new_def)
    have ext: "vlogs_extend (vlogs_now db) ?vs1"
      using share_extend [of sealed "vl_handle (db_vlog db)" "[]"] f by (simp add: db_version_now_def)
    have wf: "file_wf (vlog_file v)" using f(3) w [OF f(1)] by (simp add: vlog_handle_new_def)
    show ?thesis
    proof (cases z)
      case (Inl e)
      then have db': "r = Err e" "db' = d4" using r y x d2 f z by (simp_all add: rotate_vlog_locked_def alloc_file_id_def)
      have "vlogs_extend (vlogs_now db) (vlogs_now db')"
        using vlogs_extend_cong [OF fresh' ext] db'(2) d4 by (simp add: db_version_now_def)
      then show ?thesis using db' d4 d2 cs wf files sh by (simp add: unnoticed_def files_ok_def)
    next
      case (Inr u)
      let ?vs2 = "vlogs_insert ?i (vlog_handle_new ?i f) ?vs1"
      have db': "r = Ok ()" "db' = d4\<lparr>db_version := (db_version db)\<lparr>vs_vlogs := ?vs2, vs_vlog_head_id := ?i\<rparr>\<rparr>"
        using r y x d2 f z d4 Inr
        by (simp_all add: rotate_vlog_locked_def alloc_file_id_def Let_def vlog_handle_new_def)
      have sh2: "map_of ?vs2 j = Some h \<Longrightarrow> vh_id h = j \<and> j < ?i + 1" for j h
        using sh n ids_after_alloc by (auto simp: map_of_insert_vlog vlog_handle_new_def word_less_succ split: if_splits)
      have "map_of (vlogs_share (vl_handle v) ?vs2) = (map_of ?vs1)(?i \<mapsto> vl_handle v)"
        using f(3) by (auto simp: map_of_share map_of_insert_vlog fun_eq_iff vlog_handle_new_def option.map_ident)
      then have "vlogs_extend (vlogs_now db) (vlogs_now db')"
        using ext fresh db'(2) d4 unfolding vlogs_extend_def by (fastforce simp: db_version_now_def)
      moreover have "head_listed db'" using db'(2) d4 f(3) by (simp add: head_listed_def map_of_insert_vlog vlog_handle_new_def)
      ultimately show ?thesis using db' d4 d2 cs wf files sh2 by (simp add: unnoticed_def files_ok_def)
    qed
  qed
qed

lemma stays_refl: "stays ex ents P db db"
  by (simp add: stays_def)

lemma stays_trans: "stays ex ents P a b \<Longrightarrow> stays ex ents P b c \<Longrightarrow> stays ex ents P a c"
  by (simp add: stays_def)

lemma unnoticed_trans:
  assumes "unnoticed ents a b" and "unnoticed ents b c" and "db_mem c = db_mem b" and "db_imms c = db_imms b"
  shows "unnoticed ents a c"
  using assms vlogs_extend_trans unfolding unnoticed_def by (auto 0 3)

lemma unnoticed_files: "db_files db \<Longrightarrow> unnoticed ents db db' \<Longrightarrow> db_files db'"
  unfolding unnoticed_def db_files_def by blast

lemma rotate_after_unnoticed:
  assumes ok: "db_files db" and bg: "db_bg_error db = None" and hl: "head_listed db" and emp: "ents emp = []"
    and n: "unat (db_next_file_id db) + 2 < 2 ^ 64"
  shows "\<exists>d. unnoticed ents db d \<and> (rotate_after emp db = d \<and> head_listed d \<or> (\<exists>msg. rotate_after emp db = d\<lparr>db_bg_error := Some msg\<rparr>))"
proof -
  have n1: "db_next_file_id db \<noteq> - 1" "db_next_file_id db + 1 \<noteq> - 1"
    using n by (auto simp: unat_word_ariths unsigned_minus_1_eq_mask mask_eq_exp_minus_1 dest!: arg_cong [of _ _ unat])
  obtain x d1 where x: "(if op_memtable_size (db_opts db) \<le> memtable_approximate_bytes (db_mem db)
      then rotate_memtable_locked emp db else (Ok (), db)) = (x, d1)" by fastforce
  have u1: "unnoticed ents db d1 \<and> head_listed d1 \<and> db_next_file_id d1 \<noteq> - 1"
  proof (cases "op_memtable_size (db_opts db) \<le> memtable_approximate_bytes (db_mem db)")
    case True
    then have "rotate_memtable_locked emp db = (x, d1)" using x by simp
    note m = rotate_memtable_unnoticed [where ents = ents, OF ok emp n1(1) this]
    have "head_listed d1" using m hl by (simp add: head_listed_def)
    moreover have "db_next_file_id d1 \<noteq> - 1" using m n1 by (metis insertE singletonD)
    ultimately show ?thesis using m by blast
  next
    case False
    then have "d1 = db" using x by simp
    then show ?thesis using ok hl n1(1) unfolding db_files_def unnoticed_def by simp
  qed
  have bg1: "db_bg_error d1 = None" using u1 bg by (simp add: unnoticed_def)
  show ?thesis
  proof (cases x)
    case (Inl e)
    then have "rotate_after emp db = d1\<lparr>db_bg_error := Some ''post-write rotation failed: {e}''\<rparr>"
      using x bg1 by (simp add: rotate_after_def rotate_full_def set_bg_error_def)
    then show ?thesis using u1 by blast
  next
    case (Inr u)
    show ?thesis
    proof (cases "unat (op_vlog_file_size (db_opts d1)) \<le> vl_written (db_vlog d1)")
      case False
      then have "rotate_after emp db = d1" using x Inr by (simp add: rotate_after_def rotate_full_def)
      then show ?thesis using u1 by blast
    next
      case True
      obtain y d2 where y: "rotate_vlog_locked d1 = (y, d2)" by (cases "rotate_vlog_locked d1")
      have files: "db_files d1" using unnoticed_files [OF ok] u1 by blast
      have u2: "unnoticed ents d1 d2" "y = Ok () \<longrightarrow> head_listed d2" "db_mem d2 = db_mem d1" "db_imms d2 = db_imms d1"
        using rotate_vlog_unnoticed [where ents = ents, OF files _ y] u1 by blast+
      have u: "unnoticed ents db d2" using unnoticed_trans [OF _ u2(1,3,4)] u1 by blast
      have bg2: "db_bg_error d2 = None" using u2(1) bg1 by (simp add: unnoticed_def)
      have "rotate_after emp db = (case y of Inl e \<Rightarrow> d2\<lparr>db_bg_error := Some ''post-write rotation failed: {e}''\<rparr> | Inr _ \<Rightarrow> d2)"
        using x Inr True y bg2 by (simp add: rotate_after_def rotate_full_def set_bg_error_def split: sum.split)
      then show ?thesis using u u2(2) by (cases y) auto
    qed
  qed
qed

section \<open>The store refines a map\<close>

lemma commit_batch_cases:
  assumes "commit_batch crc sk bops capture db = (r, db')"
  defines "all \<equiv> batch_of db bops capture"
  shows "db' = db \<and> (\<exists>m. r = Err (InvalidArgument m))
    \<or> commit_entries crc sk (db_visible db + 1) all db = (r, db') \<and> sum_list (map op_cost all) < wal_limit
      \<and> db_visible db + 1 + of_nat (length all) < max_seqno"
  using assms by (auto simp: commit_batch_def batch_of_def Let_def not_le split: if_splits)

lemma apply_locked_refines:
  assumes ok: "db_ok ex sk ents P db" and bg: "db_bg_error db = None" and emp: "ents emp = []"
    and n: "unat (db_next_file_id db) + 2 < 2 ^ 64"
    and a: "apply_locked (ex_crc ex) sk emp bops capture db = (r, db')"
    and t: "cache_truth (ex_crc ex) P (vlogs_now db')"
  shows "db_ok ex sk ents P db' \<and> db_visible db \<le> db_visible db'
    \<and> (\<forall>s m. db_holds ex ents P db s m \<longrightarrow>
         (r \<noteq> Ok () \<longrightarrow> db_visible db' = db_visible db \<and> db_holds ex ents P db' s m)
       \<and> (r = Ok () \<and> s \<le> db_visible db \<longrightarrow> db_holds ex ents P db' s m)
       \<and> (r = Ok () \<and> s = db_visible db \<longrightarrow>
            db_holds ex ents P db' (db_visible db') (fold op_on (batch_of db bops capture) m)))"
proof -
  let ?all = "batch_of db bops capture"
  obtain x d1 where x: "commit_batch (ex_crc ex) sk bops capture db = (x, d1)"
    by (cases "commit_batch (ex_crc ex) sk bops capture db")
  have rd: "r = (case x of Inl e \<Rightarrow> Err e | Inr _ \<Rightarrow> Ok ())" "db' = (case x of Inl e \<Rightarrow> d1 | Inr _ \<Rightarrow> rotate_after emp d1)"
    using a x by (auto simp: apply_locked_def split: sum.splits)
  from commit_batch_cases [OF x] show ?thesis
  proof (elim disjE conjE)
    assume "d1 = db" "\<exists>m. x = Err (InvalidArgument m)"
    then show ?thesis using rd ok by auto
  next
    assume c: "commit_entries (ex_crc ex) sk (db_visible db + 1) ?all db = (x, d1)"
      and sz: "sum_list (map op_cost ?all) < wal_limit" and sq: "db_visible db + 1 + of_nat (length ?all) < max_seqno"
    have "files_ok db" using ok by (simp add: db_ok_def)
    from commit_entries_spec [OF c this] have fr: "commit_frame db d1"
      and alt: "x = Ok () \<and> (\<exists>es. committed_as (ex_crc ex) sk (db_visible db + 1) ?all es db d1) \<or> refused x db d1" by blast+
    from alt show ?thesis
    proof (elim disjE conjE exE)
      assume rf: "refused x db d1"
      then obtain e where "x = Err e" by (auto simp: refused_def)
      then have "r = Err e" "db' = d1" using rd by simp_all
      then show ?thesis using refused_keeps [OF ok bg fr rf] by simp
    next
      fix es assume xo: "x = Ok ()" and ca: "committed_as (ex_crc ex) sk (db_visible db + 1) ?all es db d1"
      have r: "r = Ok ()" "db' = rotate_after emp d1" using rd xo by simp_all
      have bg1: "db_bg_error d1 = None" using ca bg by (simp add: committed_as_def)
      have e: "db_version d1 = db_version db" "db_next_file_id d1 = db_next_file_id db" "db_created d1 = db_created db" "files_ok d1"
        "head_id d1 = head_id db" using fr by (simp_all add: commit_frame_def vlog_grows_def)
      have files: "db_files d1" using db_ok_files [OF ok] e(4) unfolding db_files_def e by blast
      have hl: "head_listed d1" using ok bg unfolding db_ok_def head_listed_def e by blast
      obtain d where d: "unnoticed ents d1 d" "rotate_after emp d1 = d \<and> head_listed d \<or> (\<exists>msg. rotate_after emp d1 = d\<lparr>db_bg_error := Some msg\<rparr>)"
        using rotate_after_unnoticed [where ents = ents, OF files bg1 hl emp] n e(2) by auto
      have vn: "vlogs_now db' = vlogs_now d" using d(2) r(2) by auto
      have "vlogs_extend (vlogs_now d1) (vlogs_now db')" using d(1) unfolding vn unnoticed_def by blast
      note c1 = committed_keeps [OF ok bg fr ca sz sq cache_truth_extend [OF this t]]
      note u = unnoticed_stays [OF conjunct1 [OF c1] d(1)]
      have "db_ok ex sk ents P db' \<and> stays ex ents P d1 db'"
        using d(2) u(1) [of "db_bg_error d"] u r(2) by auto
      then show ?thesis using c1 r(1) unfolding stays_def by metis
    qed
  qed
qed

text \<open>A store that was just created, for the witness below.\<close>

definition sample_db :: "sorted_entries db" where
  "sample_db = \<lparr>db_opts = options_default, db_mem = memtable_new se_empty 2, db_imms = [],
     db_version = \<lparr>vs_levels = [[]], vs_vlogs = [(1, vlog_handle_new 1 (std_file_new []))], vs_vlog_head_id = 1\<rparr>,
     db_wal = std_file_new [], db_old_wals = [], db_visible = 0, db_next_file_id = 3,
     db_vlog = vlog_new (vlog_handle_new 1 (std_file_new [])) 0, db_subs = \<lparr>sr_subs = [], sr_active = False\<rparr>, db_defs = [],
     db_snapshots = [], db_manifest = \<lparr>ms_gen = 1, ms_data = sample_manifest\<rparr>, db_dir = sample_dir [],
     db_retired = [], db_cache = cache_new 1024, db_bg_error = None, db_shutdown = False, db_wal_syncs = 0, db_created = []\<rparr>"

lemma sample_db_ok: "db_ok ex list_skip_ops Rep_sorted_entries (\<lambda>_ _. False) sample_db"
proof -
  have e: "Rep_sorted_entries se_empty = []" by (simp add: se_empty_def Abs_sorted_entries_inverse)
  show ?thesis
    using list_skip_ok empty_cache_holds [of "\<lambda>_ _. False" 1024]
    by (simp add: db_ok_def view_sound_now db_layers_eq sample_db_def e memtable_new_def version_layers_def version_sound_def
        runs_newest_first_def layered_def below_def entries_kinds_def files_ok_def vlog_new_def vlog_handle_new_def max_seqno_val)
qed

lemma sample_db_holds: "db_holds ex Rep_sorted_entries P sample_db s (\<lambda>_. None)"
proof -
  have e: "Rep_sorted_entries se_empty = []" by (simp add: se_empty_def Abs_sorted_entries_inverse)
  show ?thesis by (simp add: db_holds_def layers_hold_def db_layers_eq sample_db_def e memtable_new_def version_layers_def
        runs_newest_first_def hit_stands_def)
qed

lemma sample_apply:
  "\<exists>db'. apply_locked crc list_skip_ops se_empty [OpPut [107] [5]] False sample_db = (Ok (), db') \<and>
     vlogs_now db' = [(1, vlog_handle_new 1 (std_file_new []))]"
proof -
  let ?es = "[\<lparr>ee_kind = Put, ee_key = [107], ee_repr = encode_inline [5]\<rparr>]"
  let ?f = "std_file_new []"
  let ?fr = "wal_frame crc (encode_batch 1 ?es)"
  let ?W = "?f\<lparr>sf_data := ?fr, sf_append_off := length ?fr, sf_synced := length ?fr\<rparr>"
  let ?d = "publish_batch list_skip_ops 1 ?es (sample_db\<lparr>db_wal := ?W, db_wal_syncs := 1\<rparr>)"
  have len: "length (encode_batch 1 ?es) < wal_limit"
    using length_uvarint_le_10 [of 1] length_uvarint_le_10 [of 2]
    by (simp add: encode_batch_def encode_entries_concat enc_entry_bytes_def enc_len_prefixed_def codec_simps encode_inline_def wal_limit_def)
  have o: "op_value_threshold (db_opts sample_db) = 4096" "op_sync (db_opts sample_db) = Always"
    "db_vlog sample_db = vlog_new (vlog_handle_new 1 ?f) 0" "db_wal sample_db = ?f" "db_visible sample_db = 0" "db_wal_syncs sample_db = 0"
    "op_memtable_size (db_opts sample_db) = push_bit 20 8" "op_vlog_file_size (db_opts sample_db) = push_bit 20 128"
    "mt_bytes (db_mem sample_db) = 0" "vs_vlogs (db_version sample_db) = [(1, vlog_handle_new 1 ?f)]"
    by (simp_all add: sample_db_def options_default_def memtable_new_def)
  have a: "file_append ?fr ?f = (Ok 0, ?f\<lparr>sf_data := ?fr, sf_append_off := length ?fr\<rparr>)"
    by (simp add: file_append_clean) (simp add: std_file_new_def)
  have sy: "file_sync_data (?f\<lparr>sf_data := ?fr, sf_append_off := length ?fr\<rparr>) = (Ok (), ?W)"
    by (subst file_sync_clean) (simp_all add: file_clean_def std_file_new_def)
  have eta: "sample_db\<lparr>db_vlog := vlog_new (vlog_handle_new 1 ?f) 0\<rparr> = sample_db" by (simp add: sample_db_def)
  have "commit_entries crc list_skip_ops 1 [OpPut [107] [5]] sample_db = (Ok (), ?d)"
    using len by (simp add: commit_entries_def o eta sync_payload_def append_log_def wal_append_record_def a sync_log_def
        wal_sync_def sy not_le [symmetric] del: length_wal_frame)
  then have c: "commit_batch crc list_skip_ops [OpPut [107] [5]] False sample_db = (Ok (), ?d)"
    by (simp add: commit_batch_def capture_events_def o max_seqno_val wal_limit_def)
  have "mt_bytes (db_mem ?d) < push_bit 20 8"
    by (simp add: publish_batch_def memtable_insert_def o encode_inline_def make_ikey_def entry_overhead_def)
  then have "rotate_after se_empty ?d = ?d"
    by (simp add: rotate_after_def rotate_full_def memtable_approximate_bytes_def publish_batch_def o vlog_new_def not_le [symmetric])
  moreover have "vlogs_now ?d = [(1, vlog_handle_new 1 ?f)]"
    by (simp add: publish_batch_def db_version_now_def o vlogs_share_def vlog_new_def vlog_handle_new_def)
  ultimately show ?thesis using c by (simp add: apply_locked_def)
qed

section \<open>Properties\<close>

text \<open>
  C2: the store refines a map from keys to values: after a batch is acknowledged, every read of
  the present returns what the batch's operations, applied in order to the map that was there,
  say; a read at an older seqno returns what it returned before; a batch that is refused
  changes no read. This holds whichever values went to the value log, whichever rotations
  followed and whichever I/O failed.
\<close>

theorem apply_refines_map:
  assumes "db_ok ex sk ents P db" and "db_bg_error db = None" and "ents emp = []"
    and "unat (db_next_file_id db) + 2 < 2 ^ 64"
    and "apply_locked (ex_crc ex) sk emp bops capture db = (r, db')"
    and "cache_truth (ex_crc ex) P (vlogs_now db')"
    and "db_holds ex ents P db (db_visible db) m" and "s \<le> db_visible db" and "db_holds ex ents P db s old"
  shows "db_ok ex sk ents P db'
    \<and> fst (get_at_seq ex sk k (db_visible db') db') = Ok (if r = Ok () then fold op_on (batch_of db bops capture) m k else m k)
    \<and> fst (get_at_seq ex sk k s db') = Ok (old k)"
proof -
  note r = apply_locked_refines [OF assms(1-6)]
  have "db_holds ex ents P db' (min (db_visible db') (db_visible db')) (if r = Ok () then fold op_on (batch_of db bops capture) m else m)"
    using r assms(7) by auto
  moreover have "db_holds ex ents P db' (min s (db_visible db')) old"
  proof -
    have "s \<le> db_visible db'" using r assms(8) by (auto intro: order_trans)
    moreover have "db_holds ex ents P db' s old" using r assms(8,9) by blast
    ultimately show ?thesis by (simp add: min_absorb1)
  qed
  moreover have "fst (get_at_seq ex sk k t db') = Ok (f k)" if "db_holds ex ents P db' (min t (db_visible db')) f" for t f
    using get_at_seq_holds [OF conjunct1 [OF r] that, of k] by auto
  ultimately show ?thesis using r by auto
qed

theorem apply_refines_map_witness:
  "\<exists>db'. apply_locked (ex_crc sample_codecs) list_skip_ops se_empty [OpPut [107] [5]] False sample_db = (Ok (), db')
    \<and> fst (get_at_seq sample_codecs list_skip_ops [107] (db_visible db') db') = Ok (Some [5])
    \<and> fst (get_at_seq sample_codecs list_skip_ops [107] 0 db') = Ok None"
proof -
  obtain db' where a: "apply_locked (ex_crc sample_codecs) list_skip_ops se_empty [OpPut [107] [5]] False sample_db = (Ok (), db')"
    and v: "vlogs_now db' = [(1, vlog_handle_new 1 (std_file_new []))]" using sample_apply by blast
  have f: "db_bg_error sample_db = None" "db_visible sample_db = 0" "db_next_file_id sample_db = 3"
    "Rep_sorted_entries se_empty = []" "(0 :: seqno) \<le> db_visible sample_db"
    by (simp_all add: sample_db_def se_empty_def Abs_sorted_entries_inverse)
  have "encode_record crc k x \<noteq> []" for crc k x using length_encode_record(2) [of crc k x] by auto
  then have "cache_truth (ex_crc sample_codecs) (\<lambda>_ _. False) (vlogs_now db')"
    unfolding v by (simp add: cache_truth_def vlog_handle_new_def)
  from apply_refines_map [OF sample_db_ok f(1,4) _ a this sample_db_holds f(5) sample_db_holds, of "[107]"] f
  show ?thesis using a by (simp add: batch_of_def capture_events_def)
qed

end
