(* ===== verification/GroupProofs.thy ===== *)
theory GroupProofs
  imports StoreMap
begin

text \<open>
  The group commit: its results are complete, the batches that succeed are a prefix of the
  admitted ones with contiguous seqnos, and a group of one batch does what the single-batch
  twin does.
\<close>

section \<open>Result vectors\<close>

abbreviation indices :: "(nat \<times> 'a) list \<Rightarrow> nat set" where "indices xs \<equiv> fst ` set xs"

lemma fail_tail_nth:
  "\<forall>j \<in> indices rest. j < length rs \<Longrightarrow> length (fail_tail rest rs) = length rs
    \<and> fail_tail rest rs ! k = (if k \<in> indices rest \<and> rs ! k = None then Some (Err aborted) else rs ! k)"
proof (induction rest arbitrary: rs)
  case (Cons p rest)
  obtain j a where p: "p = (j, a)" by (cases p)
  let ?rs = "if rs ! j = None then rs[j := Some (Err aborted)] else rs"
  have "fail_tail (p # rest) rs = fail_tail rest ?rs" by (simp add: fail_tail_def p)
  moreover have "\<forall>j \<in> indices rest. j < length ?rs" using Cons.prems by simp
  ultimately show ?case using Cons.IH [of ?rs] Cons.prems p by (auto simp: nth_list_update)
qed (simp add: fail_tail_def)

lemma fold_set_nth:
  "\<forall>j \<in> indices bs. j < length rs \<Longrightarrow> length (fold (\<lambda>(j, _) rs. rs[j := x]) bs rs) = length rs
    \<and> fold (\<lambda>(j, _) rs. rs[j := x]) bs rs ! k = (if k \<in> indices bs then x else rs ! k)"
proof (induction bs arbitrary: rs)
  case (Cons p bs)
  then show ?case using Cons.IH [of "rs[fst p := x]"] by (auto simp: nth_list_update split: prod.splits)
qed simp

lemma fail_all_nth:
  assumes "\<forall>j \<in> indices bs. j < length rs"
  shows "length (fail_all e bs rs) = length rs \<and> (k \<in> indices bs \<longrightarrow> (\<exists>e'. fail_all e bs rs ! k = Some (Err e')))
    \<and> (k \<notin> indices bs \<longrightarrow> fail_all e bs rs ! k = rs ! k)"
proof (cases bs)
  case (Cons p rest)
  then have "\<forall>j \<in> indices rest. j < length (rs[fst p := Some (Err e)])" using assms by simp
  from fold_set_nth [OF this, of "Some (Err aborted)" k] show ?thesis
    using Cons assms by (cases p) (auto simp: fail_all_def nth_list_update image_iff; metis fst_conv)
qed (simp add: fail_all_def)

lemma fail_all_all:
  assumes "\<forall>j \<in> indices bs. j < length rs" and "\<forall>k < length rs. k \<notin> indices bs \<longrightarrow> (\<exists>e. rs ! k = Some (Err e))"
  shows "length (fail_all e bs rs) = length rs" and "\<forall>k < length rs. \<exists>e'. fail_all e bs rs ! k = Some (Err e')"
proof -
  show "length (fail_all e bs rs) = length rs" using fail_all_nth [OF assms(1)] by blast
  show "\<forall>k < length rs. \<exists>e'. fail_all e bs rs ! k = Some (Err e')"
  proof (intro allI impI)
    fix k assume "k < length rs"
    then show "\<exists>e'. fail_all e bs rs ! k = Some (Err e')"
      using fail_all_nth [OF assms(1), of e k] assms(2) by (cases "k \<in> indices bs") simp_all
  qed
qed

section \<open>Admission\<close>

fun contiguous :: "seqno \<Rightarrow> accepted \<Rightarrow> bool" where
  "contiguous next [] \<longleftrightarrow> True"
| "contiguous next ((_, base, bops) # acc) \<longleftrightarrow> base = next \<and> contiguous (next + of_nat (length bops)) acc"

definition group_len :: "accepted \<Rightarrow> nat" where
  "group_len acc = sum_list (map (\<lambda>(_, _, bops). length bops) acc)"

definition admitted :: "nat \<Rightarrow> seqno \<Rightarrow> accepted \<Rightarrow> results \<Rightarrow> results \<Rightarrow> bool" where
  "admitted i next acc rs rs' \<longleftrightarrow> length rs' = length rs \<and> sorted_wrt (<) (map fst acc) \<and> contiguous next acc
    \<and> (\<forall>j \<in> indices acc. i \<le> j \<and> j < length rs \<and> rs' ! j = None)
    \<and> (\<forall>k. i \<le> k \<and> k < length rs \<and> k \<notin> indices acc \<longrightarrow> (\<exists>m. rs' ! k = Some (Err (InvalidArgument m))))
    \<and> (\<forall>k < i. rs' ! k = rs ! k)"

lemma group_admit_spec:
  "group_admit db i next batches rs = (acc, rs') \<Longrightarrow> i + length batches = length rs \<Longrightarrow>
   \<forall>k. i \<le> k \<and> k < length rs \<longrightarrow> rs ! k = None \<Longrightarrow> admitted i next acc rs rs'"
proof (induction batches arbitrary: i "next" rs acc rs')
  case (Cons p batches)
  obtain bops capture where p: "p = (bops, capture)" by (cases p)
  let ?all = "bops @ capture_events db bops next capture"
  let ?total = "of_nat (length ?all) :: seqno"
  consider m where "group_admit db (Suc i) next batches (rs[i := Some (Err (InvalidArgument m))]) = (acc, rs')"
    | acc' where "group_admit db (Suc i) (next + ?total) batches rs = (acc', rs')" "acc = (i, next, ?all) # acc'"
    using Cons.prems(1) p by (auto simp: Let_def split: if_splits prod.splits)
  moreover have ge: "i \<le> k \<longleftrightarrow> k = i \<or> Suc i \<le> k" and lt: "k < Suc i \<longleftrightarrow> k = i \<or> k < i" for k by auto
  ultimately show ?case
  proof cases
    case 1
    have "admitted (Suc i) next acc (rs[i := Some (Err (InvalidArgument m))]) rs'"
      using Cons.prems(2,3) by (intro Cons.IH [OF 1]) simp_all
    then show ?thesis using Cons.prems(2) unfolding admitted_def
      by (auto simp: ge lt)
  next
    case 2
    have a: "admitted (Suc i) (next + ?total) acc' rs rs'" using Cons.prems(2,3) by (intro Cons.IH [OF 2(1)]) simp_all
    then have "rs' ! i = None" using Cons.prems(2,3) by (auto simp: admitted_def)
    then show ?thesis using a Cons.prems(2) unfolding admitted_def 2(2)
      by (auto simp: ge lt)
  qed
qed (auto simp: admitted_def)

section \<open>Placement and log records\<close>

text \<open>
  \<open>bs\<close> are the batches of the first \<open>n\<close> admitted ones, as many entries each as operations; the
  others have failed and nothing else has changed.
\<close>

definition prefix_done :: "accepted \<Rightarrow> nat \<Rightarrow> placed \<Rightarrow> results \<Rightarrow> results \<Rightarrow> bool" where
  "prefix_done acc n bs rs rs' \<longleftrightarrow> n \<le> length acc \<and> length rs' = length rs
    \<and> list_all2 (\<lambda>(i, base, bops) (j, base', es). i = j \<and> base = base' \<and> length bops = length es) (take n acc) bs
    \<and> (\<forall>j \<in> indices (drop n acc). \<exists>e. rs' ! j = Some (Err e))
    \<and> (\<forall>k. k \<notin> indices (drop n acc) \<longrightarrow> rs' ! k = rs ! k)"

lemma prefix_doneD:
  assumes "prefix_done acc n bs rs rs'"
  shows "length rs' = length rs" and "j \<in> indices (drop n acc) \<Longrightarrow> \<exists>e. rs' ! j = Some (Err e)"
    and "j \<notin> indices (drop n acc) \<Longrightarrow> rs' ! j = rs ! j"
    and "list_all2 (\<lambda>(i, base, bops) (j, base', es). i = j \<and> base = base' \<and> length bops = length es) (take n acc) bs"
  using assms unfolding prefix_done_def by blast+

lemma place_ops_length:
  "place_ops crc t bops v = (Ok es, any, v') \<Longrightarrow> length es = length bops"
proof (induction bops arbitrary: v es any v')
  case (Cons bop bops)
  then show ?case by (cases bop) (auto simp: rbind_Inr_conv Let_def split: if_splits sum.splits prod.splits)
qed simp

lemma fail_tail_all:
  assumes "\<forall>j \<in> indices rest. j < length rs" and "\<forall>j \<in> indices rest. rs ! j = None \<or> (\<exists>e. rs ! j = Some (Err e))"
  shows "length (fail_tail rest rs) = length rs" and "k \<in> indices rest \<Longrightarrow> \<exists>e. fail_tail rest rs ! k = Some (Err e)"
    and "k \<notin> indices rest \<Longrightarrow> fail_tail rest rs ! k = rs ! k"
  using fail_tail_nth [OF assms(1)] assms(2) by auto

lemma fail_from:
  assumes "sorted_wrt (<) (map fst ((i, x) # rest))" and "\<forall>j \<in> indices ((i, x) # rest). j < length rs \<and> (rs ! j = None \<or> (\<exists>e. rs ! j = Some (Err e)))"
  shows "length (fail_tail rest (rs[i := Some (Err e)])) = length rs"
    and "\<forall>j \<in> indices ((i, x) # rest). \<exists>e'. fail_tail rest (rs[i := Some (Err e)]) ! j = Some (Err e')"
    and "\<forall>k. k \<notin> indices ((i, x) # rest) \<longrightarrow> fail_tail rest (rs[i := Some (Err e)]) ! k = rs ! k"
proof -
  have ni: "i \<notin> indices rest" using assms(1) by auto
  have r: "\<forall>j \<in> indices rest. j < length (rs[i := Some (Err e)])"
    "\<forall>j \<in> indices rest. rs[i := Some (Err e)] ! j = None \<or> (\<exists>e'. rs[i := Some (Err e)] ! j = Some (Err e'))"
    using assms(2) ni by (auto simp: nth_list_update)
  note f = fail_tail_all [OF r]
  show "length (fail_tail rest (rs[i := Some (Err e)])) = length rs" using f(1) by simp
  show "\<forall>j \<in> indices ((i, x) # rest). \<exists>e'. fail_tail rest (rs[i := Some (Err e)]) ! j = Some (Err e')"
  proof
    fix j assume "j \<in> indices ((i, x) # rest)"
    then consider "j = i" | "j \<in> indices rest" by auto
    then show "\<exists>e'. fail_tail rest (rs[i := Some (Err e)]) ! j = Some (Err e')"
      by cases (use f(2,3) ni assms(2) in auto)
  qed
  show "\<forall>k. k \<notin> indices ((i, x) # rest) \<longrightarrow> fail_tail rest (rs[i := Some (Err e)]) ! k = rs ! k"
    using f(3) by simp
qed

lemma group_place_spec:
  "group_place crc t acc rs v = (bs, rs', any, v', hard) \<Longrightarrow> sorted_wrt (<) (map fst acc) \<Longrightarrow>
   \<forall>j \<in> indices acc. j < length rs \<and> rs ! j = None \<Longrightarrow> prefix_done acc (length bs) bs rs rs' \<and> (hard \<longleftrightarrow> length bs < length acc)"
proof (induction acc arbitrary: rs v bs rs' any v' hard)
  case (Cons p acc)
  obtain i base bops where p: "p = (i, base, bops)" by (cases p)
  obtain x any1 v1 where pl: "place_ops crc t bops v = (x, any1, v1)" by (cases "place_ops crc t bops v")
  show ?case
  proof (cases x)
    case (Inl e)
    then have r: "bs = []" "rs' = fail_tail acc (rs[i := Some (Err e)])" "hard" using Cons.prems(1) pl p by simp_all
    note f = fail_from [of i "(base, bops)" acc rs e] 
    show ?thesis using f Cons.prems(2,3) r p by (simp add: prefix_done_def)
  next
    case (Inr es)
    obtain bs1 any2 where g: "group_place crc t acc rs v1 = (bs1, rs', any2, v', hard)" "bs = (i, base, es) # bs1"
      using Cons.prems(1) pl p Inr by (auto simp: Let_def split: prod.splits)
    have "prefix_done acc (length bs1) bs1 rs rs' \<and> (hard \<longleftrightarrow> length bs1 < length acc)"
      using Cons.prems(2,3) by (intro Cons.IH [OF g(1)]) simp_all
    then show ?thesis using place_ops_length [of crc t bops v es any1 v1] pl Inr g(2) p by (simp add: prefix_done_def)
  qed
qed (auto simp: prefix_done_def)

definition log_records :: "placed \<Rightarrow> bytes list" where
  "log_records bs = map (\<lambda>(_, base, es). encode_batch base es) bs"

lemma prefix_done_Cons:
  "prefix_done ((i, base, bops) # acc) (Suc n) ((j, base', es) # bs) rs rs' \<longleftrightarrow>
     i = j \<and> base = base' \<and> length bops = length es \<and> prefix_done acc n bs rs rs'"
  by (auto simp: prefix_done_def)

lemma group_append_spec:
  "group_append crc (pre @ acc) bs rs db = (app, rs', db', hard) \<Longrightarrow> sorted_wrt (<) (map fst (pre @ acc)) \<Longrightarrow>
   \<forall>j \<in> indices acc. j < length rs0 \<and> rs0 ! j = None \<Longrightarrow> prefix_done acc (length bs) bs rs0 rs \<Longrightarrow> file_wf (db_wal db) \<Longrightarrow>
   prefix_done acc (length app) app rs0 rs' \<and> file_wf (db_wal db')
     \<and> file_committed (db_wal db') = file_committed (db_wal db) @ wal_frames crc (log_records app)
     \<and> (\<exists>b. db' = db\<lparr>db_wal := db_wal db', db_bg_error := b\<rparr>) \<and> (\<not> hard \<longrightarrow> db_bg_error db' = db_bg_error db)"
proof (induction bs arbitrary: pre acc rs db app rs' db' hard)
  case Nil
  then have "app = []" "rs' = rs" "db' = db" by simp_all
  moreover have "\<exists>b. db = db\<lparr>db_wal := db_wal db, db_bg_error := b\<rparr>" by (intro exI [of _ "db_bg_error db"]) simp
  ultimately show ?case using Nil.prems(4,5) by (simp add: log_records_def)
next
  case (Cons p bs)
  obtain i base es where p: "p = (i, base, es)" by (cases p)
  obtain bops cur where acc: "acc = (i, base, bops) # cur" "length bops = length es" "prefix_done cur (length bs) bs rs0 rs"
    using Cons.prems(4) p by (cases acc) (auto simp: prefix_done_def)
  have tail: "tl (dropWhile (\<lambda>(j, _). j \<noteq> i) (pre @ acc)) = cur"
  proof -
    have "\<forall>x \<in> set pre. fst x \<noteq> i" using Cons.prems(2) acc(1) by (auto simp: sorted_wrt_append)
    then have "dropWhile (\<lambda>(j, _). j \<noteq> i) (pre @ acc) = acc" by (subst dropWhile_append2) (auto simp: acc(1))
    then show ?thesis by (simp add: acc(1))
  qed
  have slots: "\<forall>j \<in> indices acc. j < length rs \<and> (rs ! j = None \<or> (\<exists>e. rs ! j = Some (Err e)))"
  proof
    fix j assume j: "j \<in> indices acc"
    then have "j < length rs0 \<and> rs0 ! j = None" by (rule bspec [OF Cons.prems(3)])
    then have len: "j < length rs" using prefix_doneD(1) [OF Cons.prems(4)] by simp
    show "j < length rs \<and> (rs ! j = None \<or> (\<exists>e. rs ! j = Some (Err e)))"
    proof (cases "j \<in> indices (drop (length (p # bs)) acc)")
      case True
      then show ?thesis using len prefix_doneD(2) [OF Cons.prems(4)] by blast
    next
      case False
      then show ?thesis using len \<open>j < length rs0 \<and> rs0 ! j = None\<close> prefix_doneD(3) [OF Cons.prems(4)] by metis
    qed
  qed
  have srt: "sorted_wrt (<) (map fst acc)" using Cons.prems(2) by (simp add: sorted_wrt_append)
  have fail: "prefix_done acc 0 [] rs0 (fail_tail cur (rs[i := Some (Err e)]))" for e
  proof -
    have "rs ! k = rs0 ! k" if "k \<notin> indices acc" for k
      using that set_drop_subset [of "length (p # bs)" acc] by (intro prefix_doneD(3) [OF Cons.prems(4)]) blast
    then show ?thesis
      using fail_from [OF srt [unfolded acc(1)] slots [unfolded acc(1)], of e] Cons.prems(4) unfolding acc(1)
      by (simp add: prefix_done_def)
  qed
  show ?case
  proof (cases "wal_limit \<le> length (encode_batch base es)")
    case True
    then have "app = []" "rs' = fail_tail cur (rs[i := Some (Err (InvalidArgument ''write batch exceeds WAL record limit''))])" "db' = db"
      using Cons.prems(1) p tail by (simp_all add: Let_def)
    moreover have "\<exists>b. db = db\<lparr>db_wal := db_wal db, db_bg_error := b\<rparr>" by (intro exI [of _ "db_bg_error db"]) simp
    ultimately show ?thesis using fail Cons.prems(5) by (simp add: log_records_def)
  next
    case False
    obtain x d where a: "append_log crc (encode_batch base es) db = (x, d)" by (cases "append_log crc (encode_batch base es) db")
    note sp = append_log_spec [OF a Cons.prems(5)]
    then have d: "d = db\<lparr>db_wal := db_wal d\<rparr>" by blast
    show ?thesis
    proof (cases x)
      case (Inl e)
      then have r: "app = []" "rs' = fail_tail cur (rs[i := Some (Err e)])" "db' = set_bg_error ''wal append failed: {msg}'' d" "hard"
        using Cons.prems(1) p tail False a by (simp_all add: Let_def)
      have "\<exists>b. set_bg_error msg d = d\<lparr>db_bg_error := b\<rparr>" for msg
        by (cases "db_bg_error d") (auto simp: set_bg_error_def intro: exI [of _ "db_bg_error d"])
      then obtain b where b: "db' = d\<lparr>db_bg_error := b\<rparr>" using r(3) by blast
      then have w: "db_wal db' = db_wal d" by simp
      have "db' = db\<lparr>db_wal := db_wal db', db_bg_error := b\<rparr>" unfolding w by (subst b, subst d) simp
      then have "\<exists>b. db' = db\<lparr>db_wal := db_wal db', db_bg_error := b\<rparr>" by blast
      moreover have "file_wf (db_wal db')" "file_committed (db_wal db') = file_committed (db_wal db) @ wal_frames crc (log_records app)"
        using sp Inl w r(1) by (auto simp: log_records_def)
      moreover have "prefix_done acc (length app) app rs0 rs'" using fail r(1,2) by simp
      ultimately show ?thesis using r(4) by blast
    next
      case (Inr u)
      obtain app1 where g: "group_append crc (pre @ acc) bs rs d = (app1, rs', db', hard)" "app = (i, base, es) # app1"
        using Cons.prems(1) p tail False a Inr by (auto simp: Let_def split: prod.splits)
      have eq: "pre @ acc = (pre @ [(i, base, bops)]) @ cur" by (simp add: acc(1))
      have ih: "prefix_done cur (length app1) app1 rs0 rs' \<and> file_wf (db_wal db')
        \<and> file_committed (db_wal db') = file_committed (db_wal d) @ wal_frames crc (log_records app1)
        \<and> (\<exists>b. db' = d\<lparr>db_wal := db_wal db', db_bg_error := b\<rparr>) \<and> (\<not> hard \<longrightarrow> db_bg_error db' = db_bg_error d)"
        using Cons.prems(2,3) acc sp by (intro Cons.IH [OF g(1) [unfolded eq]]) auto
      then obtain b where b: "db' = d\<lparr>db_wal := db_wal db', db_bg_error := b\<rparr>" by blast
      have "db' = db\<lparr>db_wal := db_wal db', db_bg_error := b\<rparr>" by (subst b, subst d) simp
      moreover have "db_bg_error d = db_bg_error db" by (subst d) simp
      moreover have "file_committed (db_wal db') = file_committed (db_wal db) @ wal_frames crc (log_records app)"
        using ih sp Inr g(2) by (simp add: log_records_def)
      moreover have "prefix_done acc (length app) app rs0 rs'" using ih g(2) acc(1,2) by (simp add: prefix_done_Cons)
      ultimately show ?thesis using ih by metis
    qed
  qed
qed

section \<open>The group\<close>

lemma group_publish_spec:
  assumes "\<forall>j \<in> indices bs. j < length rs" and "group_publish sk bs rs db = (rs', db')"
  shows "length rs' = length rs \<and> rs' ! k = (if k \<in> indices bs then Some (Ok ()) else rs ! k)"
    and "bs \<noteq> [] \<Longrightarrow> db_visible db' = fst (snd (last bs)) + of_nat (length (snd (snd (last bs)))) - 1"
    and "bs = [] \<Longrightarrow> db' = db" and "db_wal db' = db_wal db" and "db_bg_error db' = db_bg_error db"
  using assms fold_set_nth [OF assms(1), of "Some (Ok ())" k]
  by (auto simp: group_publish_def split: prod.splits if_splits)

lemma contiguous_last:
  "contiguous next acc \<Longrightarrow> n \<noteq> 0 \<Longrightarrow> n \<le> length acc \<Longrightarrow>
   fst (snd (acc ! (n - 1))) + of_nat (length (snd (snd (acc ! (n - 1))))) = next + of_nat (group_len (take n acc))"
proof (induction "next" acc arbitrary: n rule: contiguous.induct)
  case (2 "next" i base bops acc)
  then obtain m where n: "n = Suc m" by (cases n) auto
  show ?case
  proof (cases m)
    case (Suc k)
    then show ?thesis using "2.IH" [of m] "2.prems" n by (simp add: group_len_def add.assoc)
  qed (use 2 n in \<open>simp add: group_len_def\<close>)
qed simp

lemma prefix_done_indices:
  assumes "prefix_done acc n bs rs rs'"
  shows "indices bs = indices (take n acc)" and "length bs = n"
proof -
  have l: "list_all2 (\<lambda>(i, base, bops) (j, base', es). i = j \<and> base = base' \<and> length bops = length es) (take n acc) bs" "n \<le> length acc"
    using assms unfolding prefix_done_def by blast+
  have "map fst (take n acc) = map fst bs" using l(1) by (induction rule: list_all2_induct) auto
  then show "indices bs = indices (take n acc)" by (metis list.set_map)
  show "length bs = n" using list_all2_lengthD [OF l(1)] l(2) by simp
qed

lemma prefix_done_rest:
  assumes "prefix_done acc n bs rs rs'" and "k \<notin> indices bs" and "k \<notin> indices acc \<Longrightarrow> \<exists>e. rs ! k = Some (Err e)"
  shows "\<exists>e. rs' ! k = Some (Err e)"
proof (cases "k \<in> indices (drop n acc)")
  case False
  have "indices acc = indices (take n acc) \<union> indices (drop n acc)" by (metis append_take_drop_id set_append image_Un)
  then have "k \<notin> indices acc" using False assms(2) prefix_done_indices(1) [OF assms(1)] by blast
  then show ?thesis using assms(3) prefix_doneD(3) [OF assms(1) False] by simp
qed (rule prefix_doneD(2) [OF assms(1)])

lemma prefix_done_last:
  assumes "prefix_done acc n bs rs rs'" and "n \<noteq> 0"
  shows "fst (snd (last bs)) = fst (snd (acc ! (n - 1)))" and "length (snd (snd (last bs))) = length (snd (snd (acc ! (n - 1))))"
proof -
  have l: "list_all2 (\<lambda>(i, base, bops) (j, base', es). i = j \<and> base = base' \<and> length bops = length es) (take n acc) bs" "n \<le> length acc"
    using assms unfolding prefix_done_def by blast+
  have n: "length bs = n" "bs \<noteq> []" using prefix_done_indices(2) [OF assms(1)] assms(2) by auto
  have "(\<lambda>(i, base, bops) (j, base', es). i = j \<and> base = base' \<and> length bops = length es) (take n acc ! (n - 1)) (bs ! (n - 1))"
    using list_all2_nthD2 [OF l(1), of "n - 1"] n assms(2) by simp
  then show "fst (snd (last bs)) = fst (snd (acc ! (n - 1)))" "length (snd (snd (last bs))) = length (snd (snd (acc ! (n - 1))))"
    using n l(2) assms(2) by (auto simp: last_conv_nth split: prod.splits)
qed

text \<open>Every slot is filled: a success exactly for the first \<open>n\<close> admitted batches.\<close>

definition group_outcome :: "accepted \<Rightarrow> nat \<Rightarrow> results \<Rightarrow> bool" where
  "group_outcome acc n rs \<longleftrightarrow> n \<le> length acc
    \<and> (\<forall>k < length rs. if k \<in> indices (take n acc) then rs ! k = Some (Ok ()) else \<exists>e. rs ! k = Some (Err e))"

lemma sync_log_visible:
  assumes "sync_log db = (r, db')"
  shows "db_visible db' = db_visible db \<and> file_committed (db_wal db') = file_committed (db_wal db)"
proof -
  note s = sync_log_spec [OF assms]
  then have e: "db' = db\<lparr>db_wal := db_wal db', db_wal_syncs := db_wal_syncs db'\<rparr>" by blast
  have "db_visible db' = db_visible db" by (subst e) simp
  then show ?thesis using s by blast
qed

lemma group_commit_spec:
  assumes g: "group_commit crc sk batches db = (rs, db', rot)" and wf: "file_wf (db_wal db)"
    and acc: "acc = fst (group_admit db 0 (db_visible db + 1) batches (replicate (length batches) None))"
  shows "length rs = length batches \<and> (\<exists>n bs. group_outcome acc n rs \<and> db_visible db' = db_visible db + of_nat (group_len (take n acc))
    \<and> (length bs = n \<or> n = 0) \<and> file_committed (db_wal db') = file_committed (db_wal db) @ wal_frames crc (log_records bs)
    \<and> list_all2 (\<lambda>(i, base, bops) (j, base', es). i = j \<and> base = base' \<and> length bops = length es) (take (length bs) acc) bs)"
proof -
  let ?rs0 = "replicate (length batches) (None :: unit res option)"
  obtain rs1 where ad: "group_admit db 0 (db_visible db + 1) batches ?rs0 = (acc, rs1)"
    using acc by (cases "group_admit db 0 (db_visible db + 1) batches ?rs0") simp
  have "admitted 0 (db_visible db + 1) acc ?rs0 rs1" by (rule group_admit_spec [OF ad]) simp_all
  then have a: "length rs1 = length batches" "sorted_wrt (<) (map fst acc)" "contiguous (db_visible db + 1) acc"
    "\<forall>j \<in> indices acc. j < length rs1 \<and> rs1 ! j = None"
    "\<forall>k < length rs1. k \<notin> indices acc \<longrightarrow> (\<exists>e. rs1 ! k = Some (Err e))" unfolding admitted_def by auto
  obtain placed rs2 any v hard where pl: "group_place crc (op_value_threshold (db_opts db)) acc rs1 (db_vlog db) = (placed, rs2, any, v, hard)"
    by (metis prod.exhaust)
  have p2: "prefix_done acc (length placed) placed rs1 rs2" using group_place_spec [OF pl a(2,4)] by blast
  let ?d = "if hard then set_bg_error ''vlog append failed: {msg}'' (db\<lparr>db_vlog := v\<rparr>) else db\<lparr>db_vlog := v\<rparr>"
  have d: "db_wal ?d = db_wal db" "db_visible ?d = db_visible db" by simp_all
  obtain y d2 where sp: "sync_payload any ?d = (y, d2)" by (cases "sync_payload any ?d")
  note ss = sync_payload_spec [OF sp]
  then have e2: "d2 = ?d\<lparr>db_vlog := db_vlog d2\<rparr>" by blast
  have "db_wal d2 = db_wal ?d" "db_visible d2 = db_visible ?d" by (subst e2, simp)+
  then have d2: "db_wal d2 = db_wal db" "db_visible d2 = db_visible db" using d by simp_all
  have others: "\<forall>k < length rs'. k \<notin> indices bs \<longrightarrow> (\<exists>e. rs' ! k = Some (Err e))" if p: "prefix_done acc (length bs) bs rs1 rs'" for bs rs'
  proof (intro allI impI)
    fix k assume k: "k < length rs'" "k \<notin> indices bs"
    show "\<exists>e. rs' ! k = Some (Err e)"
      by (rule prefix_done_rest [OF p k(2)]) (use a(5) k(1) prefix_doneD(1) [OF p] in simp)
  qed
  have inb: "\<forall>j \<in> indices bs. j < length rs'" if p: "prefix_done acc (length bs) bs rs1 rs'" for bs rs'
  proof
    fix j assume "j \<in> indices bs"
    then have "j \<in> indices acc" using prefix_done_indices(1) [OF p] set_take_subset [of "length bs" acc] by auto
    then show "j < length rs'" using a(4) prefix_doneD(1) [OF p] by auto
  qed
  show ?thesis
  proof (cases y)
    case (Inl e)
    then have r: "rs = fail_all e placed rs2" "db' = set_bg_error ''vlog sync failed: {msg}'' d2" using g ad pl sp by (simp_all add: group_commit_def)
    have "length rs = length rs1" "\<forall>k < length rs. \<exists>e. rs ! k = Some (Err e)"
      using fail_all_all [OF inb [OF p2] others [OF p2], of e] prefix_doneD(1) [OF p2] r(1) by simp_all
    then show ?thesis using r(2) d2 a(1)
      by (intro conjI exI [of _ "0 :: nat"] exI [of _ "[] :: placed"]) (simp_all add: group_outcome_def log_records_def group_len_def)
  next
    case (Inr u)
    obtain app rs3 d3 hard' where ap: "group_append crc acc placed rs2 d2 = (app, rs3, d3, hard')" by (metis prod.exhaust)
    have a4: "\<forall>j \<in> indices acc. j < length rs1 \<and> rs1 ! j = None" by (rule a(4))
    note sp3 = group_append_spec [where pre = "[]", unfolded append_Nil, OF ap a(2) a4 p2 wf [folded d2(1)]]
    then have p3: "prefix_done acc (length app) app rs1 rs3" by blast
    obtain b where b: "d3 = d2\<lparr>db_wal := db_wal d3, db_bg_error := b\<rparr>" using sp3 by blast
    have "db_visible d3 = db_visible d2" by (subst b) simp
    then have v3: "db_visible d3 = db_visible db" using d2(2) by simp
    obtain z d4 where z: "(if app \<noteq> [] then sync_log d3 else (Ok (), d3)) = (z, d4)" by fastforce
    show ?thesis
    proof (cases z)
      case (Inl e)
      then have r: "rs = fail_all e app rs3" "db' = set_bg_error ''wal sync failed: {msg}'' d4" and ne: "sync_log d3 = (Err e, d4)"
        using g ad pl sp \<open>y = Inr u\<close> ap z by (auto simp: group_commit_def split: if_splits)
      have "length rs = length rs1" "\<forall>k < length rs. \<exists>e. rs ! k = Some (Err e)"
        using fail_all_all [OF inb [OF p3] others [OF p3], of e] prefix_doneD(1) [OF p3] r(1) by simp_all
      moreover have "db_visible d4 = db_visible db \<and> file_committed (db_wal d4) = file_committed (db_wal d3)"
        using sync_log_visible [OF ne] v3 by simp
      ultimately show ?thesis using r(2) d2 a(1) sp3 prefix_doneD(4) [OF p3]
        by (intro conjI exI [of _ "0 :: nat"] exI [of _ app]) (simp_all add: group_outcome_def group_len_def)
    next
      case (Inr w)
      obtain rs4 d5 where pu: "group_publish sk app rs3 d4 = (rs4, d5)" by (cases "group_publish sk app rs3 d4")
      have r: "rs = rs4" "db' = d5" using g ad pl sp \<open>y = Inr u\<close> ap z Inr pu by (simp_all add: group_commit_def)
      have d4: "db_visible d4 = db_visible db \<and> file_committed (db_wal d4) = file_committed (db_wal d3)"
      proof (cases "app = []")
        case False
        then have "sync_log d3 = (z, d4)" using z by simp
        then show ?thesis using sync_log_visible [of d3 z d4] v3 by simp
      qed (use z v3 in auto)
      note pb = group_publish_spec [OF inb [OF p3] pu]
      have len: "length app \<le> length acc" using prefix_done_indices(2) [OF p3] p3 unfolding prefix_done_def by blast
      have vis: "db_visible d5 = db_visible db + of_nat (group_len (take (length app) acc))"
      proof (cases "app = []")
        case True
        then show ?thesis using pb(3) d4 by (simp add: group_len_def)
      next
        case False
        then have n: "length app \<noteq> 0" by simp
        show ?thesis using pb(2) [OF False] prefix_done_last [OF p3 n] contiguous_last [OF a(3) n len] by simp
      qed
      have "group_outcome acc (length app) rs4"
        unfolding group_outcome_def
      proof (intro conjI allI impI)
        fix k assume k: "k < length rs4"
        show "if k \<in> indices (take (length app) acc) then rs4 ! k = Some (Ok ()) else \<exists>e. rs4 ! k = Some (Err e)"
          using pb(1) [of k] others [OF p3] k prefix_done_indices(1) [OF p3] by auto
      qed (rule len)
      moreover have "length rs4 = length batches" using pb(1) prefix_doneD(1) [OF p3] a(1) by simp
      ultimately show ?thesis using r vis d2 d4 pb(4) sp3 prefix_doneD(4) [OF p3]
        by (intro conjI exI [of _ "length app"] exI [of _ app]) simp_all
    qed
  qed
qed

section \<open>Properties\<close>



text \<open>
  C10: the two forms of the commit agree: a group of one batch gives the result that batch gets
  alone, and when it succeeds the same store; when it fails both leave the log, what readers
  see and whether the store is degraded the same.
\<close>

theorem single_batch_twins:
  assumes "sum_list (map op_cost (batch_of db bops capture)) < wal_limit
      \<or> db_visible db + 1 + of_nat (length (batch_of db bops capture)) < max_seqno"
    and "apply_locked crc sk emp bops capture db = (r, d1)"
    and "apply_group_locked crc sk emp [(bops, capture)] db = (rs, d2)"
  shows "rs = [r] \<and> (r = Ok () \<longrightarrow> d2 = d1)
    \<and> (r \<noteq> Ok () \<longrightarrow> unpublished d1 d2 \<and> db_wal d2 = db_wal d1 \<and> (db_bg_error d2 = None \<longleftrightarrow> db_bg_error d1 = None))"
proof -
  let ?all = "batch_of db bops capture" and ?base = "db_visible db + 1"
  note defs = apply_group_locked_def group_commit_def apply_locked_def
  consider (big) "wal_limit \<le> sum_list (map op_cost ?all)" "\<not> max_seqno \<le> ?base + of_nat (length ?all)"
    | (seq) "\<not> wal_limit \<le> sum_list (map op_cost ?all)" "max_seqno \<le> ?base + of_nat (length ?all)"
    | (ok) "\<not> wal_limit \<le> sum_list (map op_cost ?all)" "\<not> max_seqno \<le> ?base + of_nat (length ?all)"
    using assms(1) by fastforce
  then show ?thesis
  proof cases
    case ok
    have c: "commit_batch crc sk bops capture db = commit_entries crc sk ?base ?all db"
      and g: "group_admit db 0 ?base [(bops, capture)] [None] = ([(0, ?base, ?all)], [None])"
      using ok by (simp_all add: commit_batch_def batch_of_def Let_def)
    obtain x any v where p: "place_ops crc (op_value_threshold (db_opts db)) ?all (db_vlog db) = (x, any, v)" by (metis prod.exhaust)
    let ?d = "db\<lparr>db_vlog := v\<rparr>"
    show ?thesis
    proof (cases x)
      case (Inl e)
      let ?dg = "set_bg_error ''vlog append failed: {msg}'' ?d"
      obtain y d where s: "sync_payload any ?dg = (y, d)" by (cases "sync_payload any ?dg")
      have e: "d = ?dg\<lparr>db_vlog := db_vlog d\<rparr>" using sync_payload_spec [OF s] by blast
      note f = db_eq_fields [OF disjI1 [OF e]]
      have w: "db_wal d = db_wal db" by (subst e) simp
      have r1: "r = Err e" "d1 = set_bg_error ''vlog append failed: {e}'' ?d" using assms(2) c p Inl by (simp_all add: apply_locked_def commit_entries_def)
      have "rs = [Err e] \<and> (d2 = d \<or> d2 = set_bg_error ''vlog sync failed: {msg}'' d)"
        using assms(3) g p Inl s by (cases y) (auto simp: apply_group_locked_def group_commit_def fail_tail_def fail_all_def group_publish_def filled_def)
      then show ?thesis using r1 f w by (elim conjE disjE) (simp_all add: unpublished_def del: not_None_eq)
    next
      case (Inr es)
      obtain y d where s: "sync_payload any ?d = (y, d)" by (cases "sync_payload any ?d")
      show ?thesis
      proof (cases y)
        case (Inl e)
        have s': "sync_payload any ?d = (Err e, d)" using s Inl by simp
        have "r = Err e" "d1 = set_bg_error ''vlog sync failed: {e}'' d"
          using assms(2) c p Inr s' by (simp_all add: apply_locked_def commit_entries_def)
        moreover have "rs = [Err e]" "d2 = set_bg_error ''vlog sync failed: {msg}'' d"
          using assms(3) g p Inr s' by (simp_all add: apply_group_locked_def group_commit_def fail_all_def filled_def)
        ultimately show ?thesis by (simp add: unpublished_def)
      next
        case y: (Inr u)
        show ?thesis
        proof (cases "wal_limit \<le> length (encode_batch ?base es)")
          case True
          then show ?thesis using assms(2,3) c g p Inr s y
            by (auto simp: apply_locked_def commit_entries_def apply_group_locked_def group_commit_def fail_tail_def group_publish_def
                filled_def Let_def unpublished_def)
        next
          case small: False
          obtain z dw where a: "append_log crc (encode_batch ?base es) d = (z, dw)" by (cases "append_log crc (encode_batch ?base es) d")
          show ?thesis
          proof (cases z)
            case (Inl e)
            have e': "append_log crc (encode_batch ?base es) d = (Err e, dw)" using a Inl by simp
            have "r = Err e" "d1 = set_bg_error ''wal append failed: {e}'' dw"
              using assms(2) c p Inr s y small e' by (simp_all add: apply_locked_def commit_entries_def Let_def)
            moreover have "rs = [Err e]" "d2 = set_bg_error ''wal append failed: {msg}'' dw"
              using assms(3) g p Inr s y small e'
              by (simp_all add: apply_group_locked_def group_commit_def fail_tail_def fail_all_def group_publish_def filled_def Let_def)
            ultimately show ?thesis by (simp add: unpublished_def)
          next
            case z: (Inr u)
            obtain t ds where l: "sync_log dw = (t, ds)" by (cases "sync_log dw")
            show ?thesis
            proof (cases t)
              case (Inl e)
              have e': "sync_log dw = (Err e, ds)" using l Inl by simp
              have "r = Err e" "d1 = set_bg_error ''wal sync failed: {e}'' ds"
                using assms(2) c p Inr s y small a z e' by (simp_all add: apply_locked_def commit_entries_def Let_def)
              moreover have "rs = [Err e]" "d2 = set_bg_error ''wal sync failed: {msg}'' ds"
                using assms(3) g p Inr s y small a z e'
                by (simp_all add: apply_group_locked_def group_commit_def fail_tail_def fail_all_def group_publish_def filled_def Let_def)
              ultimately show ?thesis by (simp add: unpublished_def)
            next
              case t: (Inr u)
              have e': "sync_log dw = (Ok (), ds)" using l t by simp
              have "r = Ok ()" "d1 = rotate_after emp (publish_batch sk ?base es ds)"
                using assms(2) c p Inr s y small a z e' by (simp_all add: apply_locked_def commit_entries_def Let_def)
              moreover have "rs = [Ok ()]" "d2 = rotate_after emp (publish_batch sk ?base es ds)"
                using assms(3) g p Inr s y small a z e'
                by (simp_all add: apply_group_locked_def group_commit_def group_publish_def publish_batch_def filled_def Let_def)
              ultimately show ?thesis by simp
            qed
          qed
        qed
      qed
    qed
  qed (use assms(2,3) in \<open>auto simp: defs commit_batch_def batch_of_def sync_payload_def group_publish_def filled_def unpublished_def Let_def\<close>)
qed

theorem single_batch_twins_witness:
  "\<exists>r d1 rs d2. apply_locked (\<lambda>_. 7) list_skip_ops se_empty [OpPut [107] [5]] False sample_db = (r, d1)
    \<and> apply_group_locked (\<lambda>_. 7) list_skip_ops se_empty [([OpPut [107] [5]], False)] sample_db = (rs, d2)
    \<and> rs = [r] \<and> (r = Ok () \<longrightarrow> d2 = d1)"
proof -
  obtain r d1 where a: "apply_locked (\<lambda>_. 7) list_skip_ops se_empty [OpPut [107] [5]] False sample_db = (r, d1)" by (metis prod.exhaust)
  obtain rs d2 where b: "apply_group_locked (\<lambda>_. 7) list_skip_ops se_empty [([OpPut [107] [5]], False)] sample_db = (rs, d2)"
    by (metis prod.exhaust)
  have "sum_list (map op_cost (batch_of sample_db [OpPut [107] [5]] False)) < wal_limit"
    by (simp add: batch_of_def capture_events_def wal_limit_def)
  from single_batch_twins [OF disjI1 [OF this] a b] show ?thesis using a b by blast
qed

section \<open>The committer\<close>

lemma group_validate_length:
  "group_validate ex sk view written i qs c = ((rs, inc), c') \<Longrightarrow> length rs = length qs"
  by (induction ex sk view written i qs c arbitrary: rs inc c' rule: group_validate.induct)
    (auto simp: Let_def split: prod.splits sum.splits bool.splits if_splits)

lemma length_fold_update: "length (fold (\<lambda>(i, r) rs. rs[i := f r]) xs rs) = length rs"
  by (induction xs arbitrary: rs) auto

lemma commit_chunk_length: "length (fst (commit_chunk ex sk emp grp db)) = length grp"
  using group_validate_length by (fastforce simp: commit_chunk_def Let_def length_fold_update split: prod.splits)

lemma chunk_more_le: "chunk_more cap sofar qs \<le> length qs"
  by (induction cap sofar qs rule: chunk_more.induct) auto

text \<open>What the newest version of a key in a view forbids a transaction that read at \<open>snap\<close>.\<close>

definition overwritten :: "codecs \<Rightarrow> ('m \<Rightarrow> entry list) \<Rightarrow> 'm read_view \<Rightarrow> seqno \<Rightarrow> bytes \<Rightarrow> bool" where
  "overwritten ex ents v snap k \<longleftrightarrow>
     (case lookup_at (view_entries ex ents v) k max_seqno of None \<Rightarrow> False | Some e \<Rightarrow> snap < ikey_seqno (fst e))"

lemma view_latest_newest:
  assumes "view_sound ex sk ents P v" and "cache_holds P c"
  shows "\<exists>c' l. view_latest ex sk v k c = (Ok l, c') \<and> cache_holds P c'
    \<and> (case l of None \<Rightarrow> \<not> overwritten ex ents v snap k | Some (seq, _) \<Rightarrow> overwritten ex ents v snap k \<longleftrightarrow> snap < seq)"
proof -
  obtain c' where c': "get_versioned ex sk v k max_seqno c = (opt_hit (lookup_at (view_entries ex ents v) k max_seqno), c')"
    "cache_holds P c'" using get_versioned_lookup [OF assms, of max_seqno] by auto
  have lay: "layered (view_layers ex ents v)" and kinds: "list_all entries_kinds (view_layers ex ents v)"
    using assms(1) by (simp_all add: view_sound_def)
  show ?thesis
  proof (cases "lookup_at (view_entries ex ents v) k max_seqno")
    case None
    then show ?thesis using c' by (simp add: view_latest_def cbind_def cres_def overwritten_def)
  next
    case (Some e)
    then have "first_hit (view_layers ex ents v) k max_seqno = Some e" using first_hit_merge [OF lay] by (simp add: view_entries_def)
    then obtain h where "opt_hit (Some e) = Ok (Some h)" using first_hit_kind [OF kinds] by blast
    moreover from this obtain kd where "h = (kd, ikey_seqno (fst e), snd e)"
      by (auto simp: opt_hit_def hit_of_def rbind_def split: sum.splits)
    ultimately show ?thesis using c' Some by (simp add: view_latest_def cbind_def cres_def overwritten_def)
  qed
qed

lemma conflict_keys_spec:
  assumes "view_sound ex sk ents P v" and "cache_holds P c"
  shows "\<exists>c'. conflict_keys ex sk v written snap keys c = (Ok (\<exists>k \<in> set keys. k \<in> written \<or> overwritten ex ents v snap k), c')
    \<and> cache_holds P c'"
  using assms(2)
proof (induction keys arbitrary: c)
  case (Cons k keys)
  obtain c1 l where l: "view_latest ex sk v k c = (Ok l, c1)" "cache_holds P c1"
    "case l of None \<Rightarrow> \<not> overwritten ex ents v snap k | Some (seq, _) \<Rightarrow> overwritten ex ents v snap k \<longleftrightarrow> snap < seq"
    using view_latest_newest [OF assms(1) Cons.prems] by blast
  show ?case using Cons.IH [OF l(2)] Cons.IH [OF Cons.prems] l Cons.prems by (auto split: option.splits prod.splits)
qed simp

definition refused_at ::
    "(seqno \<Rightarrow> bytes \<Rightarrow> bool) \<Rightarrow> bytes set \<Rightarrow> queued list \<Rightarrow> results \<Rightarrow> nat \<Rightarrow> bool" where
  "refused_at over written qs rs i \<longleftrightarrow> (case qe_validate (qs ! i) of
     None \<Rightarrow> False
   | Some (snap, keys) \<Rightarrow> \<exists>k \<in> set keys. over snap k \<or> k \<in> written \<or>
       (\<exists>j < i. rs ! j \<noteq> Some (Err Conflict) \<and> k \<in> set (map op_key (qe_ops (qs ! j)))))"

lemma refused_at_Suc:
  "refused_at over written (q # qs) (r # rs) (Suc i) \<longleftrightarrow>
   refused_at over (if r = Some (Err Conflict) then written else written \<union> set (map op_key (qe_ops q))) qs rs i"
proof -
  have "(\<exists>j < Suc i. A j) \<longleftrightarrow> A 0 \<or> (\<exists>j < i. A (Suc j))" for A by (auto simp: less_Suc_eq_0_disj)
  then show ?thesis by (simp add: refused_at_def del: set_map split: option.split)
qed

definition verdict_of :: "queued \<Rightarrow> unit res option \<Rightarrow> bool" where
  "verdict_of q r \<longleftrightarrow> r = (if qe_ops q = [] then Some (Ok ()) else None) \<or> r = Some (Err Conflict)"

lemma group_validate_spec:
  assumes "view_sound ex sk ents P v"
  shows "cache_holds P c \<Longrightarrow> \<exists>rs c'. group_validate ex sk v written i qs c =
      ((rs, map (\<lambda>k. k + i) (filter (\<lambda>k. rs ! k = None) [0..<length qs])), c')
    \<and> cache_holds P c' \<and> list_all2 verdict_of qs rs
    \<and> (\<forall>k < length qs. rs ! k = Some (Err Conflict) \<longleftrightarrow> refused_at (overwritten ex ents v) written qs rs k)"
proof (induction qs arbitrary: written i c)
  case (Cons q qs)
  have upt: "map (\<lambda>k. k + i) (filter (\<lambda>k. (r # rs) ! k = None) [0..<length (q # qs)]) =
      (if r = None then [i] else []) @ map (\<lambda>k. k + Suc i) (filter (\<lambda>k. rs ! k = None) [0..<length qs])" for r and rs :: results
  proof -
    have "[0..<length (q # qs)] = 0 # map Suc [0..<length qs]" by (simp add: map_Suc_upt upt_conv_Cons del: upt_Suc)
    then show ?thesis by (simp only: filter.simps filter_map o_def) (simp add: o_def)
  qed
  have le: "(\<forall>k < length (q # qs). A k) \<longleftrightarrow> A 0 \<and> (\<forall>k < length qs. A (Suc k))" for A
    by (auto simp: less_Suc_eq_0_disj)
  let ?bad = "case qe_validate q of None \<Rightarrow> False
      | Some (snap, keys) \<Rightarrow> \<exists>k \<in> set keys. k \<in> written \<or> overwritten ex ents v snap k"
  obtain c1 where c1: "(case qe_validate q of None \<Rightarrow> (Ok False, c)
      | Some (snap, keys) \<Rightarrow> conflict_keys ex sk v written snap keys c) = (Ok ?bad, c1)" "cache_holds P c1"
  proof (cases "qe_validate q")
    case (Some p)
    then show thesis using conflict_keys_spec [OF assms Cons.prems, of written "fst p" "snd p"]
      by (cases p) (auto intro: that)
  qed (use Cons.prems that in auto)
  have bad0: "refused_at (overwritten ex ents v) written (q # qs) rs 0 \<longleftrightarrow> ?bad" for rs
    by (auto simp: refused_at_def split: option.splits)
  show ?case
  proof (cases ?bad)
    case True
    obtain rs c' where ih: "group_validate ex sk v written (Suc i) qs c1 =
        ((rs, map (\<lambda>k. k + Suc i) (filter (\<lambda>k. rs ! k = None) [0..<length qs])), c')"
      "cache_holds P c'" "list_all2 verdict_of qs rs"
      "\<forall>k < length qs. rs ! k = Some (Err Conflict) \<longleftrightarrow> refused_at (overwritten ex ents v) written qs rs k"
      using Cons.IH [OF c1(2)] by blast
    have "group_validate ex sk v written i (q # qs) c = ((Some (Err Conflict) # rs,
        map (\<lambda>k. k + Suc i) (filter (\<lambda>k. rs ! k = None) [0..<length qs])), c')"
      using c1(1) ih(1) True by (simp add: Let_def)
    then have "group_validate ex sk v written i (q # qs) c =
        ((Some (Err Conflict) # rs, map (\<lambda>k. k + i) (filter (\<lambda>k. (Some (Err Conflict) # rs) ! k = None) [0..<length (q # qs)])), c')"
      by (simp only: upt) simp
    moreover have "list_all2 verdict_of (q # qs) (Some (Err Conflict) # rs)" using ih(3) by (simp add: verdict_of_def)
    moreover have "\<forall>k < length (q # qs). (Some (Err Conflict) # rs) ! k = Some (Err Conflict)
        \<longleftrightarrow> refused_at (overwritten ex ents v) written (q # qs) (Some (Err Conflict) # rs) k"
      unfolding le using ih(4) True by (simp add: bad0 refused_at_Suc del: set_map)
    ultimately show ?thesis using ih(2) by blast
  next
    case False
    let ?w = "written \<union> set (map op_key (qe_ops q))" and ?r = "if qe_ops q = [] then Some (Ok ()) else None"
    obtain rs c' where ih: "group_validate ex sk v ?w (Suc i) qs c1 =
        ((rs, map (\<lambda>k. k + Suc i) (filter (\<lambda>k. rs ! k = None) [0..<length qs])), c')"
      "cache_holds P c'" "list_all2 verdict_of qs rs"
      "\<forall>k < length qs. rs ! k = Some (Err Conflict) \<longleftrightarrow> refused_at (overwritten ex ents v) ?w qs rs k"
      using Cons.IH [OF c1(2)] by blast
    have "group_validate ex sk v written i (q # qs) c = ((?r # rs,
        (if ?r = None then [i] else []) @ map (\<lambda>k. k + Suc i) (filter (\<lambda>k. rs ! k = None) [0..<length qs])), c')"
      using c1(1) ih(1) False by (simp add: Let_def)
    then have "group_validate ex sk v written i (q # qs) c =
        ((?r # rs, map (\<lambda>k. k + i) (filter (\<lambda>k. (?r # rs) ! k = None) [0..<length (q # qs)])), c')"
      by (simp only: upt)
    moreover have "list_all2 verdict_of (q # qs) (?r # rs)" using ih(3) by (simp add: verdict_of_def)
    moreover have "\<forall>k < length (q # qs). (?r # rs) ! k = Some (Err Conflict)
        \<longleftrightarrow> refused_at (overwritten ex ents v) written (q # qs) (?r # rs) k"
      unfolding le using ih(4) False by (simp add: bad0 refused_at_Suc del: set_map)
    ultimately show ?thesis using ih(2) by blast
  qed
qed simp





end
