(* ===== verification/RunWriter.thy ===== *)
theory RunWriter
  imports Write "HOL-Library.Sublist"
begin

text \<open>
  Writing a run (\<open>crates/fluent31/src/db.rs\<close>, \<open>build_run_from_mem\<close> and \<open>finish_table\<close>, and the same
  steps of \<open>compaction.rs\<close>): entries in key order go to a table builder, which is finished and
  replaced by the next one when it is full, at a change of user key only. The file behind
  \<open>open_read\<close> is the one the builder wrote.
\<close>

section \<open>The writer\<close>

text \<open>The finished fragments and the builder in progress with its file id.\<close>

type_synonym run_writer = "table_handle list \<times> (u64 \<times> table_builder) option"

definition finish_table :: "codecs \<Rightarrow> u64 \<Rightarrow> table_builder \<Rightarrow> table_handle res" where
  "finish_table ex i b =
     rbind (tb_finish ex b) (\<lambda>(_, sz, file). rbind (table_open ex file i) (\<lambda>t. Ok (table_handle_new i sz t)))"

definition writer_split :: "codecs \<Rightarrow> (table_builder \<Rightarrow> bool) \<Rightarrow> run_writer \<Rightarrow> run_writer res" where
  "writer_split ex full w = (case w of
     (tables, Some (i, b)) \<Rightarrow>
       if full b then rbind (finish_table ex i b) (\<lambda>h. Ok (tables @ [h], None)) else Ok w
   | (tables, None) \<Rightarrow> Ok w)"

definition writer_open :: "run_writer \<Rightarrow> 'm db \<Rightarrow> run_writer res \<times> 'm db" where
  "writer_open w db = (case w of
     (tables, Some _) \<Rightarrow> (Ok w, db)
   | (tables, None) \<Rightarrow>
       let (i, db) = alloc_file_id db in
       sbind (create_new db) (\<lambda>file db.
         (Ok (tables, Some (i, table_builder_new file (op_block_size (db_opts db)) (op_bloom_bits_per_key (db_opts db))
            (op_compression (db_opts db)))), db)))"

definition writer_add :: "codecs \<Rightarrow> bytes \<Rightarrow> bytes \<Rightarrow> run_writer \<Rightarrow> run_writer res" where
  "writer_add ex ikey repr w = (case w of
     (tables, Some (i, b)) \<Rightarrow> rbind (tb_add ex ikey repr b) (\<lambda>b. Ok (tables, Some (i, b)))
   | (tables, None) \<Rightarrow> Err (Panic ''opened above''))"

definition writer_entry ::
    "codecs \<Rightarrow> (table_builder \<Rightarrow> bool) \<Rightarrow> bytes \<Rightarrow> bytes \<Rightarrow> run_writer \<Rightarrow> 'm db \<Rightarrow> run_writer res \<times> 'm db" where
  "writer_entry ex full ikey repr w db =
     sbind (writer_split ex full w, db) (\<lambda>w db.
     sbind (writer_open w db) (\<lambda>w db. (writer_add ex ikey repr w, db)))"

definition writer_close :: "codecs \<Rightarrow> run_writer \<Rightarrow> table_handle list res" where
  "writer_close ex w = (case w of
     (tables, Some (i, b)) \<Rightarrow> rbind (finish_table ex i b) (\<lambda>h. Ok (tables @ [h]))
   | (tables, None) \<Rightarrow> Ok tables)"

section \<open>What may be written\<close>

definition opts_build :: "codecs \<Rightarrow> options \<Rightarrow> std_file \<Rightarrow> entry list \<Rightarrow> (table_stats \<times> u64 \<times> std_file) res" where
  "opts_build ex opts file = table_build ex file (op_block_size opts) (op_bloom_bits_per_key opts) (op_compression opts)"

definition fresh_file :: "std_file \<Rightarrow> bool" where
  "fresh_file f \<longleftrightarrow> file_clean f \<and> sf_data f = []"

definition creates_fresh :: "'m db \<Rightarrow> bool" where
  "creates_fresh db \<longleftrightarrow> (\<forall>x \<in> set (db_created db). \<exists>f. x = Ok f \<and> fresh_file f)"

section \<open>What a writer holds\<close>

definition frag_of :: "codecs \<Rightarrow> table_handle \<Rightarrow> entry list \<Rightarrow> bool" where
  "frag_of ex h frag \<longleftrightarrow> frag \<noteq> [] \<and> table_sound ex (th_table h) \<and> table_entries ex (th_table h) = frag
     \<and> ts_first_ikey (th_stats h) = fst (hd frag) \<and> ts_last_ikey (th_stats h) = fst (last frag)"

definition built :: "codecs \<Rightarrow> options \<Rightarrow> entry list \<Rightarrow> table_builder \<Rightarrow> bool" where
  "built ex opts cur b \<longleftrightarrow> (\<exists>file. fresh_file file \<and> foldM (\<lambda>b e. tb_add ex (fst e) (snd e) b)
     (table_builder_new file (op_block_size opts) (op_bloom_bits_per_key opts) (op_compression opts)) cur = Ok b)"

text \<open>What the writer keeps in one table: below the target size before each new user key.\<close>

abbreviation ukey_of :: "entry \<Rightarrow> bytes" where "ukey_of e \<equiv> ikey_ukey (fst e)"

definition unsplit :: "codecs \<Rightarrow> options \<Rightarrow> entry list \<Rightarrow> bool" where
  "unsplit ex opts frag \<longleftrightarrow> (\<forall>xs ys. frag = xs @ ys \<and> xs \<noteq> [] \<and> ys \<noteq> [] \<and> ukey_of (last xs) \<noteq> ukey_of (hd ys) \<longrightarrow>
     (\<exists>b. built ex opts xs b \<and> tb_estimated_size b < op_target_file_size opts))"

definition fits_table :: "codecs \<Rightarrow> options \<Rightarrow> entry list \<Rightarrow> bool" where
  "fits_table ex opts frag \<longleftrightarrow> table_input_ok (op_bloom_bits_per_key opts) frag \<and>
     (\<forall>file st sz f. fresh_file file \<and> opts_build ex opts file frag = Ok (st, sz, f) \<longrightarrow> length (sf_data f) < 2 ^ 32)"

text \<open>Whatever selection of the entries the writer puts into one table fits a table file.\<close>

definition writes_ok :: "codecs \<Rightarrow> options \<Rightarrow> entry list \<Rightarrow> bool" where
  "writes_ok ex opts es \<longleftrightarrow> lz4_ok ex \<and> entries_sorted es \<and>
     (\<forall>frag. frag \<noteq> [] \<and> subseq frag es \<and> unsplit ex opts frag \<longrightarrow> fits_table ex opts frag)"

lemma sorted_wrt_subseq: "subseq xs ys \<Longrightarrow> sorted_wrt R ys \<Longrightarrow> sorted_wrt R xs"
  by (induction rule: list_emb.induct) (auto dest: list_emb_set)

lemma writes_ok_subseq: "writes_ok ex opts es \<Longrightarrow> subseq fs es \<Longrightarrow> writes_ok ex opts fs"
proof -
  assume ok: "writes_ok ex opts es" and sub: "subseq fs es"
  have "subseq frag es" if "subseq frag fs" for frag using subseq_order.order_trans [OF that sub] .
  moreover have "entries_sorted fs" using ok sorted_wrt_subseq [OF sub] by (simp add: writes_ok_def entries_sorted_def)
  ultimately show ?thesis using ok by (simp add: writes_ok_def)
qed

text \<open>No user key is in two fragments.\<close>

definition apart :: "entry list list \<Rightarrow> bool" where
  "apart frags \<longleftrightarrow> sorted_wrt (\<lambda>a b. ukey_of (last a) < ukey_of (hd b)) frags"

definition writer_holds :: "codecs \<Rightarrow> options \<Rightarrow> entry list \<Rightarrow> run_writer \<Rightarrow> bool" where
  "writer_holds ex opts es w \<longleftrightarrow> (\<exists>frags. list_all2 (frag_of ex) (fst w) frags \<and> (case snd w of
       None \<Rightarrow> concat frags = es \<and> apart frags
     | Some (i, b) \<Rightarrow> \<exists>cur. cur \<noteq> [] \<and> built ex opts cur b \<and> unsplit ex opts cur \<and> concat frags @ cur = es \<and> apart (frags @ [cur])))"

text \<open>What the writer may change of the store.\<close>

definition writer_frame :: "'m db \<Rightarrow> 'm db \<Rightarrow> bool" where
  "writer_frame db db' \<longleftrightarrow>
     (\<exists>n xs. db' = db\<lparr>db_next_file_id := n, db_created := xs\<rparr> \<and> set xs \<subseteq> set (db_created db))"

lemma writer_frame_refl [simp]: "writer_frame db db"
  unfolding writer_frame_def by (intro exI [of _ "db_next_file_id db"] exI [of _ "db_created db"]) simp

lemma writer_frame_trans: "writer_frame a b \<Longrightarrow> writer_frame b c \<Longrightarrow> writer_frame a c"
proof -
  assume "writer_frame a b" "writer_frame b c"
  then obtain n xs m ys where "b = a\<lparr>db_next_file_id := n, db_created := xs\<rparr>" "set xs \<subseteq> set (db_created a)"
    "c = b\<lparr>db_next_file_id := m, db_created := ys\<rparr>" "set ys \<subseteq> set (db_created b)" by (auto simp: writer_frame_def)
  then show "writer_frame a c" unfolding writer_frame_def by (intro exI [of _ m] exI [of _ ys]) auto
qed

lemma writer_frame_fields:
  assumes "writer_frame db db'"
  shows "db_opts db' = db_opts db" "db_mem db' = db_mem db" "db_imms db' = db_imms db" "db_version db' = db_version db"
    "db_wal db' = db_wal db" "db_old_wals db' = db_old_wals db" "db_visible db' = db_visible db" "db_vlog db' = db_vlog db"
    "db_subs db' = db_subs db" "db_defs db' = db_defs db" "db_snapshots db' = db_snapshots db" "db_manifest db' = db_manifest db"
    "db_dir db' = db_dir db" "db_retired db' = db_retired db" "db_cache db' = db_cache db" "db_bg_error db' = db_bg_error db"
    "db_shutdown db' = db_shutdown db" "db_wal_syncs db' = db_wal_syncs db"
    "set (db_created db') \<subseteq> set (db_created db)" "creates_fresh db \<Longrightarrow> creates_fresh db'"
  using assms by (auto simp: writer_frame_def creates_fresh_def)

section \<open>Adding an entry\<close>

lemma sorted_last_ukey: "entries_sorted es \<Longrightarrow> e \<in> set es \<Longrightarrow> ukey_of e \<le> ukey_of (last es)"
  using vkey_le_ukey [OF entries_sorted_last] by simp

lemma subseq_in_concat: "subseq frag (pre @ frag @ rest)"
  by (simp add: subseq_drop_many subseq_rev_drop_many)

lemma built_build:
  assumes ok: "writes_ok ex opts es" and sub: "subseq cur es" and ne: "cur \<noteq> []"
    and u: "unsplit ex opts cur" and b: "built ex opts cur b"
  shows "\<exists>h. finish_table ex i b = Ok h \<and> frag_of ex h cur \<and> th_id h = i \<and> ta_id (th_table h) = i"
proof -
  obtain f0 where f: "fresh_file f0" "foldM (\<lambda>b e. tb_add ex (fst e) (snd e) b)
     (table_builder_new f0 (op_block_size opts) (op_bloom_bits_per_key opts) (op_compression opts)) cur = Ok b"
    using b by (auto simp: built_def)
  have lz4: "lz4_ok ex" and inp: "table_input_ok (op_bloom_bits_per_key opts) cur"
    and small: "\<And>st sz g. opts_build ex opts f0 cur = Ok (st, sz, g) \<Longrightarrow> length (sf_data g) < 2 ^ 32"
    using ok sub ne u f(1) by (auto simp: writes_ok_def fits_table_def)
  have c: "file_clean f0" "sf_data f0 = []" using f(1) by (simp_all add: fresh_file_def)
  obtain st sz g where g: "opts_build ex opts f0 cur = Ok (st, sz, g)" "length (sf_data g) < 2 ^ 32 \<longrightarrow>
      (\<exists>t. table_open ex g i = Ok t \<and> table_sound ex t \<and> table_entries ex t = cur \<and> ta_id t = i \<and>
        ts_first_ikey (ta_stats t) = fst (hd cur) \<and> ts_last_ikey (ta_stats t) = fst (last cur))"
    using table_build_opens [OF lz4 inp c, of "op_block_size opts" "op_compression opts" i]
    by (fastforce simp: opts_build_def)
  then obtain t where t: "table_open ex g i = Ok t" "table_sound ex t" "table_entries ex t = cur" "ta_id t = i"
    "ts_first_ikey (ta_stats t) = fst (hd cur)" "ts_last_ikey (ta_stats t) = fst (last cur)" using small by blast
  have "tb_finish ex b = Ok (st, sz, g)" using g(1) f(2) by (simp add: opts_build_def table_build_def)
  then show ?thesis using t ne by (simp add: finish_table_def frag_of_def table_handle_new_def)
qed

lemma built_add:
  assumes ok: "writes_ok ex opts es" and sub: "subseq (cur @ [e]) es" and u: "unsplit ex opts (cur @ [e])" and b: "built ex opts cur b"
  shows "\<exists>b'. tb_add ex (fst e) (snd e) b = Ok b' \<and> built ex opts (cur @ [e]) b'"
proof -
  obtain f0 where f: "fresh_file f0" "foldM (\<lambda>b e. tb_add ex (fst e) (snd e) b)
     (table_builder_new f0 (op_block_size opts) (op_bloom_bits_per_key opts) (op_compression opts)) cur = Ok b"
    using b by (auto simp: built_def)
  have lz4: "lz4_ok ex" and inp: "table_input_ok (op_bloom_bits_per_key opts) (cur @ [e])"
    using ok sub u by (auto simp: writes_ok_def fits_table_def)
  have c: "file_clean f0" "sf_data f0 = []" using f(1) by (simp_all add: fresh_file_def)
  obtain x where "opts_build ex opts f0 (cur @ [e]) = Ok x"
    using table_build_opens [OF lz4 inp c, of "op_block_size opts" "op_compression opts" 0] unfolding opts_build_def by blast
  then obtain b' where b': "foldM (\<lambda>b e. tb_add ex (fst e) (snd e) b)
     (table_builder_new f0 (op_block_size opts) (op_bloom_bits_per_key opts) (op_compression opts)) (cur @ [e]) = Ok b'"
    by (auto simp: opts_build_def table_build_def rbind_Inr_conv)
  then have "tb_add ex (fst e) (snd e) b = Ok b'" using f(2) by (simp add: foldM_append rbind_Inr_conv)
  then show ?thesis using f(1) b' unfolding built_def by blast
qed

lemma unsplit_snoc:
  assumes "unsplit ex opts cur" and "cur \<noteq> [] \<Longrightarrow> ukey_of e \<noteq> ukey_of (last cur) \<Longrightarrow>
      \<exists>b. built ex opts cur b \<and> tb_estimated_size b < op_target_file_size opts"
  shows "unsplit ex opts (cur @ [e])"
  unfolding unsplit_def
proof (intro allI impI)
  fix xs ys assume a: "cur @ [e] = xs @ ys \<and> xs \<noteq> [] \<and> ys \<noteq> [] \<and> ukey_of (last xs) \<noteq> ukey_of (hd ys)"
  then obtain zs where ys: "ys = zs @ [e]" by (metis append_butlast_last_id last_appendR last_snoc)
  then have cur: "cur = xs @ zs" using a by simp
  show "\<exists>b. built ex opts xs b \<and> tb_estimated_size b < op_target_file_size opts"
  proof (cases "zs = []")
    case True
    then show ?thesis using assms(2) a cur ys by auto
  next
    case False
    then show ?thesis using assms(1) a cur ys unfolding unsplit_def by auto
  qed
qed

lemma unsplit_Nil [simp]: "unsplit ex opts []"
  by (simp add: unsplit_def)

lemma built_new: "fresh_file f0 \<Longrightarrow>
  built ex opts [] (table_builder_new f0 (op_block_size opts) (op_bloom_bits_per_key opts) (op_compression opts))"
  unfolding built_def by (intro exI [of _ f0]) simp

lemma create_fresh:
  assumes "creates_fresh db" and "create_new db = (r, db')"
  shows "\<exists>f0. r = Ok f0 \<and> fresh_file f0 \<and> db' = db\<lparr>db_created := db_created db'\<rparr>
    \<and> set (db_created db') \<subseteq> set (db_created db)"
proof (cases "db_created db")
  case Nil
  then have "r = Ok (std_file_new [])" "db' = db" using assms(2) by (simp_all add: create_new_def)
  then show ?thesis by (simp add: fresh_file_def) (simp add: std_file_new_def)
qed (use assms in \<open>auto simp: create_new_def creates_fresh_def\<close>)

lemma apart_snoc:
  assumes "apart frags" and "frags \<noteq> []" and "[] \<notin> set frags" and "entries_sorted (concat frags @ [e])"
    and "ukey_of e \<noteq> ukey_of (last (concat frags))"
  shows "apart (frags @ [[e]])"
proof -
  have ne: "concat frags \<noteq> []" using assms(2,3) by (cases frags) auto
  have s: "entries_sorted (concat frags)" using assms(4) by (simp add: entries_sorted_append)
  have "last (concat frags) \<in> set (concat frags)" using ne by (rule last_in_set)
  then have lt: "ukey_of (last (concat frags)) < ukey_of e"
    using assms(4,5) vkey_le_ukey by (fastforce simp: entries_sorted_append less_vkey_def vkey_of_def)
  have "ukey_of (last a) < ukey_of e" if "a \<in> set frags" for a
  proof -
    have "last a \<in> set (concat frags)" using that assms(3) by (auto intro!: bexI [of _ a] last_in_set)
    then show ?thesis using sorted_last_ukey [OF s] lt by (meson order_le_less_trans)
  qed
  then show ?thesis using assms(1) by (simp add: apart_def sorted_wrt_append)
qed

lemma writer_open_spec:
  assumes h: "writer_holds ex (db_opts db) es w" and c: "creates_fresh db"
  shows "\<exists>tables i b db' frags cur. writer_open w db = (Ok (tables, Some (i, b)), db') \<and> writer_frame db db'
    \<and> list_all2 (frag_of ex) tables frags \<and> built ex (db_opts db) cur b \<and> concat frags @ cur = es
    \<and> (cur = [] \<and> apart frags \<or> cur \<noteq> [] \<and> apart (frags @ [cur])) \<and> (snd w = None \<longleftrightarrow> cur = [])
    \<and> unsplit ex (db_opts db) cur \<and> (\<forall>p. snd w = Some p \<longrightarrow> p = (i, b))"
proof (cases w)
  case (Pair tables bo)
  show ?thesis
  proof (cases bo)
    case (Some p)
    then show ?thesis using h Pair by (cases p) (fastforce simp: writer_holds_def writer_open_def)
  next
    case None
    let ?db = "db\<lparr>db_next_file_id := db_next_file_id db + 1\<rparr>"
    have cf: "creates_fresh ?db" using c by (simp add: creates_fresh_def)
    obtain r db' where cr: "create_new ?db = (r, db')" by (cases "create_new ?db")
    obtain f0 where f0: "r = Ok f0" "fresh_file f0" "db' = ?db\<lparr>db_created := db_created db'\<rparr>"
      "set (db_created db') \<subseteq> set (db_created ?db)" using create_fresh [OF cf cr] by blast
    have "writer_frame db db'" unfolding writer_frame_def
      using f0(3,4) by (intro exI [of _ "db_next_file_id db + 1"] exI [of _ "db_created db'"]) simp
    moreover have "db_opts db' = db_opts db" using writer_frame_fields(1) [OF calculation] .
    moreover obtain frags where "list_all2 (frag_of ex) tables frags" "concat frags = es" "apart frags"
      using h None Pair by (auto simp: writer_holds_def)
    ultimately show ?thesis using cr f0(1) built_new [OF f0(2), of ex "db_opts db"] None Pair
      by (intro exI [of _ tables] exI [of _ "db_next_file_id db"] exI exI [of _ db'] exI [of _ frags] exI [of _ "[]"])
        (simp add: writer_open_def alloc_file_id_def)
  qed
qed

lemma frags_ne: "list_all2 (frag_of ex) tables frags \<Longrightarrow> [] \<notin> set frags"
  by (auto simp: list_all2_conv_all_nth in_set_conv_nth frag_of_def)

text \<open>The next entry is added, and the builder changes only between user keys.\<close>

lemma writer_entry_spec:
  assumes h: "writer_holds ex (db_opts db) es w" and c: "creates_fresh db" and ok: "writes_ok ex (db_opts db) (es @ [e] @ fs)"
    and full: "\<And>i b. es \<noteq> [] \<Longrightarrow> snd w = Some (i, b) \<Longrightarrow>
      full b \<longleftrightarrow> ukey_of e \<noteq> ukey_of (last es) \<and> op_target_file_size (db_opts db) \<le> tb_estimated_size b"
    and open_builder: "es \<noteq> [] \<Longrightarrow> snd w \<noteq> None"
  shows "\<exists>w' db'. writer_entry ex full (fst e) (snd e) w db = (Ok w', db') \<and> writer_holds ex (db_opts db) (es @ [e]) w'
    \<and> snd w' \<noteq> None \<and> writer_frame db db'"
proof -
  let ?o = "db_opts db"
  have oks: "writes_ok ex ?o (es @ [e])"
    by (rule writes_ok_subseq [OF ok]) (simp add: subseq_append')
  then have srt: "entries_sorted (es @ [e])" by (simp add: writes_ok_def)
  text \<open>After the split: the writer holds the same entries, without a builder if it was full.\<close>
  have split: "\<exists>w'. writer_split ex full w = Ok w' \<and> writer_holds ex ?o es w'
      \<and> (es \<noteq> [] \<and> snd w' = None \<longrightarrow> ukey_of e \<noteq> ukey_of (last es))
      \<and> (\<forall>i b. es \<noteq> [] \<and> snd w' = Some (i, b) \<longrightarrow>
          ukey_of e = ukey_of (last es) \<or> tb_estimated_size b < op_target_file_size ?o)"
  proof (cases "snd w")
    case None
    then have "es = []" using open_builder by blast
    then show ?thesis using None h by (cases w) (auto simp: writer_split_def)
  next
    case (Some p)
    then obtain tables i b where w: "w = (tables, Some (i, b))" by (cases w, cases p) auto
    obtain frags cur where f: "list_all2 (frag_of ex) tables frags" "cur \<noteq> []" "built ex ?o cur b" "concat frags @ cur = es"
      "apart (frags @ [cur])" "unsplit ex ?o cur" using h w by (auto simp: writer_holds_def)
    show ?thesis
    proof (cases "full b")
      case True
      have "subseq cur (es @ [e])" unfolding f(4) [symmetric] by (simp add: subseq_drop_many subseq_rev_drop_many)
      then obtain t where t: "finish_table ex i b = Ok t" "frag_of ex t cur" using built_build [OF oks _ f(2,6,3)] by blast
      have "writer_holds ex ?o es (tables @ [t], None)"
        unfolding writer_holds_def using f t(2) by (intro exI [of _ "frags @ [cur]"]) (simp add: list_all2_appendI)
      moreover have "ukey_of e \<noteq> ukey_of (last es)" using full [of i b] True w f(2,4) by auto
      ultimately show ?thesis using t(1) True w by (simp add: writer_split_def)
    qed (use h w full [of i b] in \<open>auto simp: writer_split_def\<close>)
  qed
  then obtain w1 where w1: "writer_split ex full w = Ok w1" "writer_holds ex ?o es w1"
    "es \<noteq> [] \<and> snd w1 = None \<longrightarrow> ukey_of e \<noteq> ukey_of (last es)"
    "\<forall>i b. es \<noteq> [] \<and> snd w1 = Some (i, b) \<longrightarrow> ukey_of e = ukey_of (last es) \<or> tb_estimated_size b < op_target_file_size ?o" by blast
  obtain tables i b db' frags cur where o: "writer_open w1 db = (Ok (tables, Some (i, b)), db')" "writer_frame db db'"
    "list_all2 (frag_of ex) tables frags" "built ex ?o cur b" "concat frags @ cur = es"
    "cur = [] \<and> apart frags \<or> cur \<noteq> [] \<and> apart (frags @ [cur])" "snd w1 = None \<longleftrightarrow> cur = []"
    "unsplit ex ?o cur" "\<forall>p. snd w1 = Some p \<longrightarrow> p = (i, b)"
    using writer_open_spec [OF w1(2) c] by (elim exE conjE) (rule that)
  have "subseq (cur @ [e]) (es @ [e])" unfolding o(5) [symmetric] by (simp add: subseq_drop_many)
  moreover have u: "unsplit ex ?o (cur @ [e])"
  proof (rule unsplit_snoc [OF o(8)])
    assume cur: "cur \<noteq> []" "ukey_of e \<noteq> ukey_of (last cur)"
    then have "snd w1 = Some (i, b)" "es \<noteq> []" "last cur = last es" using o(5,7,9) by auto
    then have "tb_estimated_size b < op_target_file_size ?o" using w1(4) cur(2) by auto
    then show "\<exists>b. built ex ?o cur b \<and> tb_estimated_size b < op_target_file_size ?o" using o(4) by blast
  qed
  ultimately obtain b' where b': "tb_add ex (fst e) (snd e) b = Ok b'" "built ex ?o (cur @ [e]) b'"
    using built_add [OF oks _ _ o(4)] by blast
  have "apart (frags @ [cur @ [e]])"
  proof (cases "cur = []")
    case False
    then show ?thesis using o(6) by (simp add: apart_def sorted_wrt_append)
  next
    case True
    show ?thesis
    proof (cases "frags = []")
      case False
      then have "es \<noteq> []" using frags_ne [OF o(3)] o(5) by (cases frags) auto
      have "snd w1 = None" using o(7) True by simp
      then show ?thesis using apart_snoc [of frags e] o(3,5,6) True False w1(3) \<open>es \<noteq> []\<close> srt frags_ne [OF o(3)] by auto
    qed (simp add: apart_def True)
  qed
  then have "writer_holds ex ?o (es @ [e]) (tables, Some (i, b'))"
    unfolding writer_holds_def using o(3,5) b'(2) u by (intro exI [of _ frags]) (simp add: exI [of _ "cur @ [e]"])
  then show ?thesis using w1(1) o(1,2) b'(1) by (simp add: writer_entry_def writer_add_def)
qed

section \<open>The finished run\<close>

definition tables_of :: "codecs \<Rightarrow> entry list \<Rightarrow> table_handle list \<Rightarrow> bool" where
  "tables_of ex es tables \<longleftrightarrow> (\<exists>frags. list_all2 (frag_of ex) tables frags \<and> concat frags = es \<and> apart frags)"

lemma writer_close_spec:
  assumes h: "writer_holds ex opts es w" and ok: "writes_ok ex opts es"
  shows "\<exists>tables. writer_close ex w = Ok tables \<and> tables_of ex es tables"
proof (cases "snd w")
  case None
  then show ?thesis using h by (cases w) (auto simp: writer_close_def writer_holds_def tables_of_def)
next
  case (Some p)
  then obtain tables i b where w: "w = (tables, Some (i, b))" by (cases w, cases p) auto
  obtain frags cur where f: "list_all2 (frag_of ex) tables frags" "cur \<noteq> []" "built ex opts cur b" "concat frags @ cur = es"
    "apart (frags @ [cur])" "unsplit ex opts cur" using h w by (auto simp: writer_holds_def)
  have "subseq cur es" unfolding f(4) [symmetric] by (simp add: subseq_drop_many)
  then obtain t where t: "finish_table ex i b = Ok t" "frag_of ex t cur" using built_build [OF ok _ f(2,6,3)] by blast
  have "tables_of ex es (tables @ [t])"
    unfolding tables_of_def using f t(2) by (intro exI [of _ "frags @ [cur]"]) (simp add: list_all2_appendI)
  then show ?thesis using t(1) w by (simp add: writer_close_def)
qed

lemma tables_of_sound:
  assumes "tables_of ex es tables" and on: "\<forall>h \<in> set tables. table_on ex P (th_table h)"
  shows "tables_sound ex P tables \<and> concat (tables_parts ex tables) = es"
proof -
  obtain frags where f: "list_all2 (frag_of ex) tables frags" "concat frags = es" "apart frags"
    using assms(1) by (auto simp: tables_of_def)
  have len: "length tables = length frags" and at: "\<And>i. i < length tables \<Longrightarrow> frag_of ex (tables ! i) (frags ! i)"
    using f(1) by (auto simp: list_all2_conv_all_nth)
  have parts: "tables_parts ex tables = frags"
    by (rule nth_equalityI) (use len at in \<open>simp_all add: tables_parts_def frag_of_def\<close>)
  have "list_all (handle_sound ex P) tables"
    using at on by (auto simp: list_all_length handle_sound_def frag_of_def)
  moreover have "sorted_wrt (\<lambda>a b. stats_max_ukey (th_stats a) < stats_min_ukey (th_stats b)) tables"
    unfolding sorted_wrt_iff_nth_less
  proof (intro allI impI)
    fix i j assume ij: "i < j" "j < length tables"
    then have "ukey_of (last (frags ! i)) < ukey_of (hd (frags ! j))"
      using f(3) len by (simp add: apart_def sorted_wrt_iff_nth_less)
    then show "stats_max_ukey (th_stats (tables ! i)) < stats_min_ukey (th_stats (tables ! j))"
      using at [of i] at [of j] ij by (simp add: frag_of_def stats_max_ukey_def stats_min_ukey_def)
  qed
  ultimately show ?thesis using parts f(2) by (simp add: tables_sound_def)
qed

lemma tables_of_Nil: "tables_of ex [] tables \<longleftrightarrow> tables = []"
proof
  assume "tables_of ex [] tables"
  then obtain frags where f: "list_all2 (frag_of ex) tables frags" "concat frags = []" by (auto simp: tables_of_def)
  then have "frags = []" using frags_ne [OF f(1)] by (cases frags) auto
  then show "tables = []" using f(1) by simp
qed (simp add: tables_of_def apart_def exI [of _ "[]"])

lemma writer_holds_Nil [simp]: "writer_holds ex opts [] ([], None)"
  by (auto simp: writer_holds_def apart_def intro!: exI [of _ "[]"])

end
