(* ===== verification/Flush.thy ===== *)
theory Flush
  imports RunWriter
begin

text \<open>
  \<open>crates/fluent31/src/db.rs\<close>, the flush of the oldest immutable memtable into a run of level 0:
  the run is written and synced without any lock, then the manifest that lists it is published
  and the version and the memtables are replaced in one step; logs below the floor are deleted.
\<close>

section \<open>Building the run\<close>

definition seen_ukey :: "bytes \<Rightarrow> bytes \<Rightarrow> bytes" where
  "seen_ukey ikey last_ukey = (if ikey_ukey ikey \<noteq> last_ukey then ikey_ukey ikey else last_ukey)"

definition flush_full :: "options \<Rightarrow> bytes \<Rightarrow> bytes \<Rightarrow> table_builder \<Rightarrow> bool" where
  "flush_full opts ikey last_ukey b \<longleftrightarrow> ikey_ukey ikey \<noteq> last_ukey \<and> op_target_file_size opts \<le> tb_estimated_size b"

partial_function (option) build_loop ::
    "codecs \<Rightarrow> 's iter_ops \<Rightarrow> 's \<Rightarrow> bytes \<Rightarrow> seqno \<Rightarrow> run_writer \<Rightarrow> 'm db \<Rightarrow> ((run_writer \<times> seqno) res \<times> 'm db) option" where
  "build_loop ex ops it last_ukey max_seq w db =
     (if \<not> it_valid ops it then Some (Ok (w, max_seq), db)
      else (case writer_entry ex (flush_full (db_opts db) (it_ikey ops it) last_ukey) (it_ikey ops it) (it_value ops it) w db of
          (Inl e, db) \<Rightarrow> Some (Err e, db)
        | (Inr w, db) \<Rightarrow>
            (case it_next ops it of
               Inl e \<Rightarrow> Some (Err e, db)
             | Inr it' \<Rightarrow> build_loop ex ops it' (seen_ukey (it_ikey ops it) last_ukey)
                 (max max_seq (ikey_seqno (it_ikey ops it))) w db)))"

definition build_run_from_mem ::
    "codecs \<Rightarrow> 'm skip_ops \<Rightarrow> 'm memtable \<Rightarrow> 'm db \<Rightarrow> ((run \<times> seqno) res \<times> 'm db) option" where
  "build_run_from_mem ex sk imm db =
     (let (run_id, db) = alloc_file_id db in
      case mi_seek_to_first sk (memtable_iter imm) of
        Inl e \<Rightarrow> Some (Err e, db)
      | Inr it \<Rightarrow>
          (case build_loop ex (mem_iter_ops sk) it [] 0 ([], None) db of
             None \<Rightarrow> None
           | Some (r, db) \<Rightarrow> Some (sbind (r, db) (\<lambda>(w, max_seq) db.
               sbind (writer_close ex w, db) (\<lambda>tables db.
               sbind (db_sync_dir db) (\<lambda>_ db. (Ok (\<lparr>rn_id = run_id, rn_tables = tables\<rparr>, max_seq), db)))))))"

section \<open>Publishing it\<close>

definition run_meta_of :: "run \<Rightarrow> run_meta" where
  "run_meta_of r = \<lparr>rm_id = rn_id r, rm_table_ids = map th_id (rn_tables r)\<rparr>"

definition level_push :: "nat \<Rightarrow> 'a \<Rightarrow> 'a list list \<Rightarrow> 'a list list" where
  "level_push i r levels = levels[i := r # levels ! i]"

definition commit_manifest :: "(bytes \<Rightarrow> u32) \<Rightarrow> manifest_data \<Rightarrow> 'm db \<Rightarrow> unit res \<times> 'm db" where
  "commit_manifest crc data db =
     (let (r, m, d) = manifest_commit crc data (db_manifest db) (db_dir db)
      in (r, db\<lparr>db_manifest := m, db_dir := d\<rparr>))"

definition delete_old_wals :: "u64 \<Rightarrow> 'm db \<Rightarrow> 'm db" where
  "delete_old_wals floor db = db\<lparr>db_old_wals := filter (\<lambda>(i, _). \<not> i < floor) (db_old_wals db)\<rparr>"

definition flush_data :: "u64 \<Rightarrow> (run \<times> seqno) option \<Rightarrow> 'm memtable \<Rightarrow> manifest_data \<Rightarrow> manifest_data" where
  "flush_data next run imm data =
     (let data = (case run of
            Some (r, max_seq) \<Rightarrow> data\<lparr>md_levels := level_push 0 (run_meta_of r) (md_levels data),
              md_last_flushed_seqno := max (md_last_flushed_seqno data) max_seq\<rparr>
          | None \<Rightarrow> data)
      in data\<lparr>md_wal_floor := max (md_wal_floor data) (mt_wal_id imm + 1), md_next_file_id := next\<rparr>)"

definition flush_install :: "codecs \<Rightarrow> (run \<times> seqno) option \<Rightarrow> 'm memtable \<Rightarrow> 'm db \<Rightarrow> bool res \<times> 'm db" where
  "flush_install ex run imm db =
     (let data = flush_data (db_next_file_id db) run imm (ms_data (db_manifest db)) in
      sbind (commit_manifest (ex_crc ex) data db) (\<lambda>_ db.
        let v = version_clone_shape (db_version db);
            v = (case run of Some (r, _) \<Rightarrow> v\<lparr>vs_levels := level_push 0 r (vs_levels v)\<rparr> | None \<Rightarrow> v);
            db = db\<lparr>db_version := v, db_imms := butlast (db_imms db)\<rparr>
        in (Ok True, delete_old_wals (md_wal_floor (ms_data (db_manifest db))) db)))"

definition flush_run ::
    "codecs \<Rightarrow> 'm skip_ops \<Rightarrow> 'm memtable \<Rightarrow> 'm db \<Rightarrow> ((run \<times> seqno) option res \<times> 'm db) option" where
  "flush_run ex sk imm db =
     (if memtable_is_empty sk imm then Some (Ok None, db)
      else let (r, v) = vlog_sync_head (db_vlog db); db = db\<lparr>db_vlog := v\<rparr>
           in case r of
                Inl e \<Rightarrow> Some (Err e, db)
              | Inr _ \<Rightarrow>
                  (case build_run_from_mem ex sk imm db of
                     None \<Rightarrow> None
                   | Some (r, db) \<Rightarrow> Some (rbind r (\<lambda>x. Ok (Some x)), db)))"

definition flush_one :: "codecs \<Rightarrow> 'm skip_ops \<Rightarrow> 'm db \<Rightarrow> (bool res \<times> 'm db) option" where
  "flush_one ex sk db =
     (if db_imms db = [] then Some (Ok False, db)
      else let imm = last (db_imms db)
           in case flush_run ex sk imm db of
                None \<Rightarrow> None
              | Some (r, db) \<Rightarrow> Some (sbind (r, db) (\<lambda>run db. flush_install ex run imm db)))"

end
