(* ===== verification/FlushProofs.thy ===== *)
theory FlushProofs
  imports Flush StoreMap
begin

text \<open>
  What a flush does to the store: the run it installs holds exactly the entries of the memtable
  it replaces, so no reader sees a difference, and the log floor it publishes stays at or below
  the log of every memtable that is still in memory.
\<close>

section \<open>The run holds the memtable\<close>

definition max_seq_of :: "entry list \<Rightarrow> seqno \<Rightarrow> seqno" where
  "max_seq_of es m = fold (\<lambda>e m. max m (ikey_seqno (fst e))) es m"

lemma max_seq_of_simps [simp]: "max_seq_of [] m = m" "max_seq_of (e # es) m = max_seq_of es (max m (ikey_seqno (fst e)))"
  by (simp_all add: max_seq_of_def)

lemma max_seq_of_ge: "m \<le> max_seq_of es m \<and> (\<forall>e \<in> set es. ikey_seqno (fst e) \<le> max_seq_of es m)"
proof (induction es arbitrary: m)
  case (Cons e es)
  show ?case using Cons.IH [of "max m (ikey_seqno (fst e))"] by simp
qed simp

lemma writer_entry_ids:
  "writer_entry ex full ikey repr w db = (r, db') \<Longrightarrow> \<exists>j \<le> 1. db_next_file_id db' = db_next_file_id db + of_nat j"
proof -
  assume e: "writer_entry ex full ikey repr w db = (r, db')"
  have o: "\<exists>j \<le> 1. db_next_file_id d' = db_next_file_id d + of_nat j" if "writer_open u d = (x, d')" for u x and d d' :: "'a db"
  proof (cases "snd u")
    case None
    then show ?thesis using that by (cases u) (intro exI [of _ 1],
      auto simp: writer_open_def alloc_file_id_def create_new_def sbind_def split: list.splits sum.splits)
  next
    case (Some b)
    then show ?thesis using that by (cases u) (intro exI [of _ 0], auto simp: writer_open_def)
  qed
  show ?thesis
  proof (cases "writer_split ex full w")
    case (Inl err)
    then show ?thesis using e by (intro exI [of _ 0]) (simp add: writer_entry_def)
  next
    case (Inr u)
    obtain x d where u: "writer_open u db = (x, d)" by (cases "writer_open u db")
    then have "db' = d" using e Inr by (cases x) (simp_all add: writer_entry_def)
    then show ?thesis using o [OF u] by simp
  qed
qed

context forward_iterator
begin

lemma build_loop_spec:
  "good it \<Longrightarrow> pend it = fs \<Longrightarrow> writer_holds ex (db_opts db) es w \<Longrightarrow> creates_fresh db \<Longrightarrow>
   writes_ok ex (db_opts db) (es @ fs) \<Longrightarrow> (es \<noteq> [] \<Longrightarrow> last_ukey = ukey_of (last es) \<and> snd w \<noteq> None) \<Longrightarrow>
   \<exists>w' db'. build_loop ex ops it last_ukey m w db = Some (Ok (w', max_seq_of fs m), db')
     \<and> writer_holds ex (db_opts db) (es @ fs) w' \<and> writer_frame db db'"
proof (induction fs arbitrary: it es w db last_ukey m)
  case Nil
  then show ?case using valid [of it] by (subst build_loop.simps) simp
next
  case (Cons e fs)
  have v: "it_valid ops it" using valid [OF Cons.prems(1)] Cons.prems(2) by simp
  have kv: "it_ikey ops it = fst e" "it_value ops it = snd e" using key_value [OF Cons.prems(1,2)] by (metis fst_conv, metis snd_conv)
  let ?full = "flush_full (db_opts db) (fst e) last_ukey"
  obtain w1 d1 where w1: "writer_entry ex ?full (fst e) (snd e) w db = (Ok w1, d1)" "writer_holds ex (db_opts db) (es @ [e]) w1"
    "snd w1 \<noteq> None" "writer_frame db d1"
    using writer_entry_spec [OF Cons.prems(3,4), of e fs ?full] Cons.prems(5,6) by (fastforce simp: flush_full_def)
  obtain it' where it': "it_next ops it = Inr it'" "good it'" "pend it' = fs" using step [OF Cons.prems(1,2)] by (rule movesE)
  have o: "db_opts d1 = db_opts db" "creates_fresh d1" using writer_frame_fields [OF w1(4)] Cons.prems(4) by simp_all
  have "writes_ok ex (db_opts d1) ((es @ [e]) @ fs)" using Cons.prems(5) o(1) by simp
  moreover have "seen_ukey (fst e) last_ukey = ukey_of (last (es @ [e])) \<and> snd w1 \<noteq> None"
    using w1(3) by (simp add: seen_ukey_def)
  ultimately obtain w' d' where "build_loop ex ops it' (seen_ukey (fst e) last_ukey) (max m (ikey_seqno (fst e))) w1 d1
      = Some (Ok (w', max_seq_of fs (max m (ikey_seqno (fst e)))), d')"
    "writer_holds ex (db_opts d1) ((es @ [e]) @ fs) w'" "writer_frame d1 d'"
    using Cons.IH [OF it'(2,3), of "d1" "es @ [e]" w1 "seen_ukey (fst e) last_ukey" "max m (ikey_seqno (fst e))"]
      w1(2) o by auto
  then show ?case using v kv w1(1) it'(1) o(1) writer_frame_trans [OF w1(4)]
    by (subst build_loop.simps) auto
qed

end

context forward_iterator
begin

text \<open>At most one file id per entry.\<close>

lemma build_loop_ids:
  "good it \<Longrightarrow> pend it = fs \<Longrightarrow> build_loop ex ops it last_ukey m w db = Some (r, db') \<Longrightarrow>
   \<exists>k \<le> length fs. db_next_file_id db' = db_next_file_id db + of_nat k"
proof (induction fs arbitrary: it w db last_ukey m)
  case Nil
  then show ?case using valid [of it] by (subst (asm) build_loop.simps) auto
next
  case (Cons e fs)
  have v: "it_valid ops it" using valid [OF Cons.prems(1)] Cons.prems(2) by simp
  obtain it' where it': "it_next ops it = Inr it'" "good it'" "pend it' = fs" using step [OF Cons.prems(1,2)] by (rule movesE)
  obtain x d where w: "writer_entry ex (flush_full (db_opts db) (it_ikey ops it) last_ukey) (it_ikey ops it) (it_value ops it) w db = (x, d)"
    by (cases "writer_entry ex (flush_full (db_opts db) (it_ikey ops it) last_ukey) (it_ikey ops it) (it_value ops it) w db")
  obtain j :: nat where j: "j \<le> 1" "db_next_file_id d = db_next_file_id db + of_nat j" using writer_entry_ids [OF w] by blast
  show ?case
  proof (cases x)
    case (Inl err)
    then have "db' = d" using Cons.prems(3) v w by (subst (asm) build_loop.simps) simp
    then show ?thesis using j by (intro exI [of _ j]) simp
  next
    case (Inr w')
    then have "\<exists>a b. build_loop ex ops it' a b w' d = Some (r, db')"
      using Cons.prems(3) v w it'(1) by (subst (asm) build_loop.simps) auto
    then obtain k where "k \<le> length fs" "db_next_file_id db' = db_next_file_id d + of_nat k"
      using Cons.IH [OF it'(2,3)] by blast
    then show ?thesis using j by (intro exI [of _ "j + k"]) simp
  qed
qed

end

definition sync_ok :: "'m db \<Rightarrow> bool" where "sync_ok db \<longleftrightarrow> fst (db_sync_dir db) = Ok ()"

text \<open>What building a run may change: file ids, the files to come, the directory.\<close>

definition build_frame :: "'m db \<Rightarrow> 'm db \<Rightarrow> bool" where
  "build_frame db db' \<longleftrightarrow> (\<exists>n xs d. db' = db\<lparr>db_next_file_id := n, db_created := xs, db_dir := d\<rparr> \<and> set xs \<subseteq> set (db_created db)
     \<and> df_files d = df_files (db_dir db))"

lemma writer_build_frame: "writer_frame db db' \<Longrightarrow> build_frame db db'"
  unfolding writer_frame_def build_frame_def
proof (elim exE conjE)
  fix n xs assume "db' = db\<lparr>db_next_file_id := n, db_created := xs\<rparr>" "set xs \<subseteq> set (db_created db)"
  then show "\<exists>n xs d. db' = db\<lparr>db_next_file_id := n, db_created := xs, db_dir := d\<rparr> \<and> set xs \<subseteq> set (db_created db)
     \<and> df_files d = df_files (db_dir db)" by (intro exI [of _ n] exI [of _ xs] exI [of _ "db_dir db"]) simp
qed

lemma build_run_spec:
  assumes sk: "skip_ok sk ents" and c: "creates_fresh db" and ok: "writes_ok ex (db_opts db) (ents (mt_map imm))"
  shows "\<exists>r db'. build_run_from_mem ex sk imm db = Some (r, db') \<and> build_frame db db'
    \<and> (\<forall>x. r = Ok x \<longrightarrow> tables_of ex (ents (mt_map imm)) (rn_tables (fst x)) \<and> snd x = max_seq_of (ents (mt_map imm)) 0)
    \<and> (df_faults (db_dir db) = [] \<longrightarrow> (\<exists>x. r = Ok x) \<and> df_faults (db_dir db') = [])"
proof -
  let ?es = "ents (mt_map imm)" and ?db = "db\<lparr>db_next_file_id := db_next_file_id db + 1\<rparr>"
  note fi = mem_forward [OF sk]
  have g: "mi_good (memtable_iter imm) ents" "mi_contents ents (memtable_iter imm) = ?es"
    by (simp_all add: mi_good_def memtable_iter_def mi_contents_def)
  obtain it where it: "mi_seek_to_first sk (memtable_iter imm) = Inr it" "mi_good it ents" "mi_forward ents it = ?es"
    using forward_iterator.seek_to_first [OF fi g(1)] g(2) by (auto simp: mem_iter_ops_def elim!: movesE)
  have "creates_fresh ?db" using c by (simp add: creates_fresh_def)
  then obtain w d where w: "build_loop ex (mem_iter_ops sk) it [] 0 ([], None) ?db = Some (Ok (w, max_seq_of ?es 0), d)"
    "writer_holds ex (db_opts ?db) ?es w" "writer_frame ?db d"
    using forward_iterator.build_loop_spec [OF fi it(2,3), of ex ?db "[]" "([], None)" "[]" 0] ok by auto
  obtain tables where t: "writer_close ex w = Ok tables" "tables_of ex ?es tables"
    using writer_close_spec [OF w(2)] ok by auto
  obtain r d' where s: "db_sync_dir d = (r, d')" by (cases "db_sync_dir d")
  have s': "d' = d\<lparr>db_dir := db_dir d'\<rparr>" "df_files (db_dir d') = df_files (db_dir d)"
    using s sync_dir_files by (auto simp: db_sync_dir_def Let_def split: prod.splits)
  obtain n xs where "d = db\<lparr>db_next_file_id := n, db_created := xs\<rparr>" "set xs \<subseteq> set (db_created db)"
    using w(3) by (auto simp: writer_frame_def)
  then have "build_frame db d'" unfolding build_frame_def
    by (subst s'(1), intro exI [of _ n] exI [of _ xs] exI [of _ "db_dir d'"]) (use s'(2) in simp)
  moreover have "build_run_from_mem ex sk imm db = Some (sbind (r, d') (\<lambda>_ db.
      (Ok (\<lparr>rn_id = db_next_file_id db', rn_tables = tables\<rparr>, max_seq_of ?es 0), db)))" if "db_next_file_id db' = db_next_file_id db" for db' :: "'a db"
    using it(1) w(1) t(1) s that by (simp add: build_run_from_mem_def alloc_file_id_def)
  from this [OF refl] have "build_run_from_mem ex sk imm db = Some (case r of Inl e \<Rightarrow> Err e
      | Inr _ \<Rightarrow> Ok (\<lparr>rn_id = db_next_file_id db, rn_tables = tables\<rparr>, max_seq_of ?es 0), d')"
    by (cases r) simp_all
  moreover have "(\<exists>x. r = Ok x) \<and> df_faults (db_dir d') = []" if "df_faults (db_dir db) = []"
  proof -
    have "db_dir d = db_dir db" using w(3) by (auto simp: writer_frame_def)
    then show ?thesis using s that by (auto simp: db_sync_dir_def sync_dir_def next_fs_fault_def)
  qed
  ultimately show ?thesis using t(2) by (cases r) auto
qed

section \<open>Steps no reader notices\<close>

lemma unnoticed_ok:
  assumes ok: "db_ok ex sk ents P db" and u: "unnoticed ents db db'" and h: "db_bg_error db = None \<Longrightarrow> head_listed db'"
  shows "db_ok ex sk ents P db'" and "stays ex ents P db db'"
proof -
  have bg: "db_bg_error db' = db_bg_error db" using u by (simp add: unnoticed_def)
  have same: "db'\<lparr>db_bg_error := db_bg_error db'\<rparr> = db'" by simp
  show "stays ex ents P db db'" using unnoticed_stays(1) [OF ok u, of "db_bg_error db'"] same by simp
  show "db_ok ex sk ents P db'"
  proof (cases "db_bg_error db")
    case None
    then show ?thesis using unnoticed_stays(3) [OF ok u] h by blast
  next
    case (Some msg)
    have "db'\<lparr>db_bg_error := Some msg\<rparr> = db'" using same unfolding bg Some .
    then show ?thesis using unnoticed_stays(2) [OF ok u, of msg] by simp
  qed
qed

text \<open>File ids, files to come, the directory, the manifest, a sync of the value log.\<close>

definition quiet :: "'m db \<Rightarrow> 'm db \<Rightarrow> bool" where
  "quiet db db' \<longleftrightarrow> (\<exists>n xs d m v. db' = db\<lparr>db_next_file_id := n, db_created := xs, db_dir := d, db_manifest := m, db_vlog := v\<rparr>
     \<and> set xs \<subseteq> set (db_created db) \<and> vlog_grows (db_vlog db) v
     \<and> (file_wf (vlog_file (db_vlog db)) \<longrightarrow> file_wf (vlog_file v)))"

lemma quietI:
  assumes "db' = db\<lparr>db_next_file_id := n, db_created := xs, db_dir := d, db_manifest := m, db_vlog := v\<rparr>"
    and "set xs \<subseteq> set (db_created db)" and "vlog_grows (db_vlog db) v" and "file_wf (vlog_file (db_vlog db)) \<Longrightarrow> file_wf (vlog_file v)"
  shows "quiet db db'"
  unfolding quiet_def using assms by (intro exI [of _ n] exI [of _ xs] exI [of _ d] exI [of _ m] exI [of _ v]) blast

lemma quiet_fields:
  assumes "quiet db db'"
  shows "db_opts db' = db_opts db" "db_mem db' = db_mem db" "db_imms db' = db_imms db" "db_version db' = db_version db"
    "db_wal db' = db_wal db" "db_old_wals db' = db_old_wals db" "db_visible db' = db_visible db" "db_cache db' = db_cache db"
    "db_bg_error db' = db_bg_error db" "db_snapshots db' = db_snapshots db" "creates_fresh db \<Longrightarrow> creates_fresh db'"
    "vlog_grows (db_vlog db) (db_vlog db')" "set (db_created db') \<subseteq> set (db_created db)" "files_ok db \<Longrightarrow> files_ok db'"
  using assms by (auto simp: quiet_def creates_fresh_def files_ok_def)

lemma quiet_trans:
  assumes "quiet a b" and "quiet b c"
  shows "quiet a c"
proof -
  obtain n xs d m v where 1: "b = a\<lparr>db_next_file_id := n, db_created := xs, db_dir := d, db_manifest := m, db_vlog := v\<rparr>"
    "set xs \<subseteq> set (db_created a)" "vlog_grows (db_vlog a) v" "file_wf (vlog_file (db_vlog a)) \<longrightarrow> file_wf (vlog_file v)"
    using assms(1) by (auto simp: quiet_def)
  obtain n' xs' d' m' v' where 2: "c = b\<lparr>db_next_file_id := n', db_created := xs', db_dir := d', db_manifest := m', db_vlog := v'\<rparr>"
    "set xs' \<subseteq> set (db_created b)" "vlog_grows (db_vlog b) v'" "file_wf (vlog_file (db_vlog b)) \<longrightarrow> file_wf (vlog_file v')"
    using assms(2) by (auto simp: quiet_def)
  show ?thesis
    by (rule quietI [where n = n' and xs = xs' and d = d' and m = m' and v = v'])
      (use 1 2 vlog_grows_trans [OF 1(3)] in auto)
qed

lemma quiet_refl [simp]: "quiet db db"
  by (rule quietI [where n = "db_next_file_id db" and xs = "db_created db" and d = "db_dir db" and m = "db_manifest db"
        and v = "db_vlog db"]) simp_all

lemma build_frame_quiet: "build_frame db db' \<Longrightarrow> quiet db db' \<and> db_manifest db' = db_manifest db"
  unfolding build_frame_def
proof (elim exE conjE)
  fix n xs d assume "db' = db\<lparr>db_next_file_id := n, db_created := xs, db_dir := d\<rparr>" "set xs \<subseteq> set (db_created db)"
  then show ?thesis by (auto intro!: quietI [where n = n and xs = xs and d = d and m = "db_manifest db" and v = "db_vlog db"])
qed

lemma quiet_unnoticed:
  assumes q: "quiet db db'" and ok: "db_ok ex sk ents P db" and n: "db_next_file_id db \<le> db_next_file_id db'"
  shows "unnoticed ents db db'" and "head_listed db \<Longrightarrow> head_listed db'"
proof -
  note f = quiet_fields [OF q]
  have fo: "files_ok db" using ok by (simp add: db_ok_def)
  have fo': "files_ok db'" by (rule f(14) [OF fo])
  have e: "vlogs_extend (vlogs_now db) (vlogs_now db')" "head_id db' = head_id db"
    using vlog_grows_extend [OF f(12) f(4)] fo' by (simp_all add: files_ok_def)
  have "vh_id h = i \<and> i < db_next_file_id db'" if "map_of (vs_vlogs (db_version db')) i = Some h" for i h
    using ok that n unfolding db_ok_def f(4) by (meson order_less_le_trans)
  then show "unnoticed ents db db'" using f fo' e(1) by (simp add: unnoticed_def)
  show "head_listed db \<Longrightarrow> head_listed db'" using e(2) f(4) by (simp add: head_listed_def)
qed

lemma quiet_ok:
  assumes q: "quiet db db'" and ok: "db_ok ex sk ents P db" and n: "db_next_file_id db \<le> db_next_file_id db'"
  shows "db_ok ex sk ents P db'" and "stays ex ents P db db'"
proof -
  note u = quiet_unnoticed(1) [OF assms]
  have h: "head_listed db'" if "db_bg_error db = None"
    by (rule quiet_unnoticed(2) [OF assms]) (use ok that in \<open>unfold db_ok_def head_listed_def, blast\<close>)
  show "db_ok ex sk ents P db'" and "stays ex ents P db db'" using unnoticed_ok [OF ok u h] by blast+
qed

text \<open>Another version, with the same value logs.\<close>

definition same_but_runs :: "'m db \<Rightarrow> 'm db \<Rightarrow> bool" where
  "same_but_runs db db' \<longleftrightarrow> (\<exists>l is ws. db' = db\<lparr>db_version := (db_version db)\<lparr>vs_levels := l\<rparr>, db_imms := is, db_old_wals := ws\<rparr>)"

lemma relayer_ok:
  assumes ok: "db_ok ex sk ents P db" and same: "same_but_runs db db'" and vs: "version_sound ex P (db_version db')"
    and l: "layered (db_layers ex ents db')" "list_all entries_kinds (db_layers ex ents db')"
    and b: "below (db_visible db + 1) (db_layers ex ents db')"
  shows "db_ok ex sk ents P db'"
    and "\<And>s m. (\<And>V. layers_hold V (db_layers ex ents db) s m \<Longrightarrow> layers_hold V (db_layers ex ents db') s m) \<Longrightarrow>
      db_holds ex ents P db s m \<Longrightarrow> db_holds ex ents P db' s m"
proof -
  obtain lv imms ws where e: "db' = db\<lparr>db_version := (db_version db)\<lparr>vs_levels := lv\<rparr>, db_imms := imms, db_old_wals := ws\<rparr>"
    using same by (auto simp: same_but_runs_def)
  have f: "db_visible db' = db_visible db" "files_ok db' = files_ok db" "db_cache db' = db_cache db"
    "vs_vlogs (db_version db') = vs_vlogs (db_version db)" "db_vlog db' = db_vlog db" "db_next_file_id db' = db_next_file_id db"
    "db_created db' = db_created db" "db_bg_error db' = db_bg_error db"
    unfolding e by (simp_all add: files_ok_def)
  show "db_ok ex sk ents P db'" using ok vs l b unfolding db_ok_def view_sound_now f by blast
  have "vlogs_now db' = vlogs_now db" using f by (simp add: db_version_now_def)
  then show "\<And>s m. (\<And>V. layers_hold V (db_layers ex ents db) s m \<Longrightarrow> layers_hold V (db_layers ex ents db') s m) \<Longrightarrow>
      db_holds ex ents P db s m \<Longrightarrow> db_holds ex ents P db' s m"
    by (simp add: db_holds_def)
qed

section \<open>The manifest and the logs\<close>

text \<open>The manifest lists the runs of the version.\<close>

definition mirrors :: "'m db \<Rightarrow> bool" where
  "mirrors db \<longleftrightarrow> vs_levels (db_version db) \<noteq> []
     \<and> md_levels (ms_data (db_manifest db)) = map (map run_meta_of) (vs_levels (db_version db))"

text \<open>A newer memtable has a larger log id, and no log still needed is below the floor.\<close>

definition wal_ids_ok :: "'m db \<Rightarrow> bool" where
  "wal_ids_ok db \<longleftrightarrow> sorted_wrt (\<lambda>a b. mt_wal_id b < mt_wal_id a) (db_mem db # db_imms db)
     \<and> (\<forall>mt \<in> set (db_mem db # db_imms db). md_wal_floor (ms_data (db_manifest db)) \<le> mt_wal_id mt)"

text \<open>The manifest's flushed seqno bounds what the tables hold.\<close>

definition flushed_bound :: "codecs \<Rightarrow> 'm db \<Rightarrow> bool" where
  "flushed_bound ex db \<longleftrightarrow> (\<forall>es \<in> set (version_layers ex (db_version db)). \<forall>e \<in> set es.
     ikey_seqno (fst e) \<le> md_last_flushed_seqno (ms_data (db_manifest db)))"

definition runs_on :: "codecs \<Rightarrow> (cache_key \<Rightarrow> bytes \<Rightarrow> bool) \<Rightarrow> 'm db \<Rightarrow> bool" where
  "runs_on ex P db \<longleftrightarrow> (\<forall>r \<in> set (runs_newest_first (db_version db)). \<forall>h \<in> set (rn_tables r). table_on ex P (th_table h))"

lemma level_push_map: "i < length ls \<Longrightarrow> map (map f) (level_push i r ls) = level_push i (f r) (map (map f) ls)"
  by (simp add: level_push_def map_update)

lemma concat_level_push: "ls \<noteq> [] \<Longrightarrow> concat (level_push 0 r ls) = r # concat ls"
  by (cases ls) (simp_all add: level_push_def)

lemma commit_manifest_spec:
  assumes "commit_manifest crc data db = (r, db')"
  shows "quiet db db' \<and> db_next_file_id db' = db_next_file_id db
    \<and> (r = Ok () \<longrightarrow> ms_data (db_manifest db') = data) \<and> (r \<noteq> Ok () \<longrightarrow> db_manifest db' = db_manifest db)"
proof -
  obtain x m d where c: "manifest_commit crc data (db_manifest db) (db_dir db) = (x, m, d)"
    by (metis prod.exhaust)
  then have e: "r = x" "db' = db\<lparr>db_manifest := m, db_dir := d\<rparr>" using assms by (simp_all add: commit_manifest_def)
  have "(x = Ok () \<longrightarrow> ms_data m = data) \<and> (x \<noteq> Ok () \<longrightarrow> m = db_manifest db)"
    using c by (auto simp: manifest_commit_def Let_def split: prod.splits sum.splits)
  moreover have "quiet db db'"
    by (rule quietI [where n = "db_next_file_id db" and xs = "db_created db" and d = d and m = m and v = "db_vlog db"])
      (simp_all add: e)
  ultimately show ?thesis by (simp add: e)
qed

text \<open>The install, on the store as it is by then.\<close>

lemma flush_install_spec:
  assumes ok: "db_ok ex sk ents P db" and mi: "mirrors db" and ids: "wal_ids_ok db"
    and i: "db_imms db = is @ [imm]"
    and run: "case run of None \<Rightarrow> ents (mt_map imm) = []
      | Some (r, ms) \<Rightarrow> tables_of ex (ents (mt_map imm)) (rn_tables r) \<and> ms = max_seq_of (ents (mt_map imm)) 0"
    and f: "flush_install ex run imm db = (x, db')" and on: "runs_on ex P db'"
  shows "db_ok ex sk ents P db' \<and> stays ex ents P db db' \<and> mirrors db' \<and> wal_ids_ok db'
    \<and> db_next_file_id db' = db_next_file_id db \<and> (flushed_bound ex db \<longrightarrow> flushed_bound ex db')
    \<and> (x = Ok True \<and> db_imms db' = is \<or> (\<exists>e. x = Err e) \<and> db_imms db' = db_imms db \<and> db_version db' = db_version db)
    \<and> (\<forall>w \<in> set (db_old_wals db). fst w \<in> mt_wal_id ` set (db_imms db') \<longrightarrow> w \<in> set (db_old_wals db'))"
proof -
  let ?data = "flush_data (db_next_file_id db) run imm (ms_data (db_manifest db))"
  obtain y d where c: "commit_manifest (ex_crc ex) ?data db = (y, d)" by (cases "commit_manifest (ex_crc ex) ?data db")
  note cs = commit_manifest_spec [OF c]
  have q: "quiet db d" and n: "db_next_file_id db \<le> db_next_file_id d" using cs by simp_all
  note qf = quiet_fields [OF q] and qo = quiet_ok [OF q ok n]
  show ?thesis
  proof (cases y)
    case (Inl e)
    then have "x = Err e" "db' = d" using f c by (simp_all add: flush_install_def Let_def)
    moreover have "db_manifest d = db_manifest db" using cs Inl by simp
    ultimately show ?thesis using qo qf mi ids cs by (simp add: mirrors_def wal_ids_ok_def flushed_bound_def)
  next
    case (Inr u)
    then have m: "ms_data (db_manifest d) = ?data" using cs by simp
    let ?v = "db_version d"
    let ?lv = "case run of Some (r, _) \<Rightarrow> level_push 0 r (vs_levels ?v) | None \<Rightarrow> vs_levels ?v"
    let ?e = "d\<lparr>db_version := ?v\<lparr>vs_levels := ?lv\<rparr>, db_imms := is\<rparr>"
    let ?floor = "max (md_wal_floor (ms_data (db_manifest db))) (mt_wal_id imm + 1)"
    have fl: "md_wal_floor ?data = ?floor" by (simp add: flush_data_def Let_def split: option.split)
    have r: "x = Ok True" "db' = delete_old_wals ?floor ?e"
      using f c Inr m i qf(3) fl by (auto simp: flush_install_def Let_def version_clone_shape_def split: option.splits)
    have sr: "same_but_runs d db'" unfolding same_but_runs_def r(2) delete_old_wals_def
      by (intro exI [of _ ?lv] exI [of _ "is"] exI [of _ "filter (\<lambda>(i, _). \<not> i < ?floor) (db_old_wals d)"]) simp
    have lv: "vs_levels ?v \<noteq> []" using mi qf(4) by (simp add: mirrors_def)
    have conc: "concat ?lv = (case run of Some (r, _) \<Rightarrow> r # concat (vs_levels ?v) | None \<Rightarrow> concat (vs_levels ?v))"
      by (simp add: concat_level_push [OF lv] split: option.split)
    have v': "version_layers ex (db_version db') = (case run of Some (r, _) \<Rightarrow> run_entries ex r # version_layers ex ?v
        | None \<Rightarrow> version_layers ex ?v)"
      by (simp add: r(2) delete_old_wals_def version_layers_def runs_newest_first_def conc split: option.split)
    have sound: "version_sound ex P (db_version db')" and re: "\<And>r ms. run = Some (r, ms) \<Longrightarrow> run_entries ex r = ents (mt_map imm)"
    proof -
      have "version_sound ex P ?v" using qo(1) unfolding db_ok_def view_sound_now by blast
      moreover have tr: "tables_sound ex P (rn_tables r) \<and> concat (tables_parts ex (rn_tables r)) = ents (mt_map imm)"
        if "run = Some (r, ms)" for r ms
      proof -
        have "runs_newest_first (db_version db') = r # runs_newest_first ?v"
          using that conc by (simp add: r(2) delete_old_wals_def runs_newest_first_def)
        then have "\<forall>h \<in> set (rn_tables r). table_on ex P (th_table h)" using on by (simp add: runs_on_def)
        then show ?thesis using tables_of_sound [of ex "ents (mt_map imm)" "rn_tables r" P] run that by simp
      qed
      ultimately show "version_sound ex P (db_version db')"
        by (auto simp: version_sound_def runs_newest_first_def r(2) delete_old_wals_def conc split: option.split)
      show "\<And>r ms. run = Some (r, ms) \<Longrightarrow> run_entries ex r = ents (mt_map imm)" using tr by (simp add: run_entries_def)
    qed
    let ?mid = "ents (mt_map (db_mem d)) # map (\<lambda>mt. ents (mt_map mt)) is"
    have l0: "db_layers ex ents d = ?mid @ [ents (mt_map imm)] @ version_layers ex ?v"
      using i qf(2,3) by (simp add: db_layers_eq)
    have l1: "db_layers ex ents db' = ?mid @ (if run = None then [] else [ents (mt_map imm)]) @ version_layers ex ?v"
      using v' re by (auto simp: db_layers_eq r(2) delete_old_wals_def split: option.splits)
    have fh: "first_hit (db_layers ex ents db') k s = first_hit (db_layers ex ents d) k s" for k s
      using run by (auto simp: l0 l1 first_hit_append split: option.splits)
    have lay: "layered (db_layers ex ents db')" "list_all entries_kinds (db_layers ex ents db')"
      "below (db_visible d + 1) (db_layers ex ents db')"
      using qo(1) unfolding db_ok_def view_sound_now l0 l1 by (auto simp: layered_def sorted_wrt_append below_def)
    have ok': "db_ok ex sk ents P db'" by (rule relayer_ok(1) [OF qo(1) sr sound lay])
    have vis: "db_visible db' = db_visible d" by (simp add: r(2) delete_old_wals_def)
    have "stays ex ents P d db'"
      unfolding stays_def using relayer_ok(2) [OF qo(1) sr sound lay] fh vis by (simp add: layers_hold_def)
    then have st: "stays ex ents P db db'" by (rule stays_trans [OF qo(2)])
    have md: "ms_data (db_manifest db') = ?data" by (simp add: r(2) delete_old_wals_def m)
    have mi': "mirrors db'"
      using mi lv qf(4) level_push_map [of 0 "vs_levels (db_version db)" run_meta_of] unfolding mirrors_def md
      by (auto simp: r(2) delete_old_wals_def flush_data_def Let_def level_push_def split: option.split)
    have mem: "db_mem db' = db_mem db" "db_imms db' = is" using qf(2) by (simp_all add: r(2) delete_old_wals_def)
    have old: "mt_wal_id imm < mt_wal_id mt \<and> md_wal_floor (ms_data (db_manifest db)) \<le> mt_wal_id mt"
      if "mt \<in> set (db_mem db # is)" for mt
      using ids that i by (auto simp: wal_ids_ok_def sorted_wrt_append)
    have up: "?floor \<le> mt_wal_id mt" if "mt \<in> set (db_mem db # is)" for mt
      using old [OF that] inc_le [of "mt_wal_id imm" "mt_wal_id mt"] by (simp add: max_def)
    have ids': "wal_ids_ok db'" unfolding wal_ids_ok_def mem md fl
      using ids up i by (auto simp: wal_ids_ok_def sorted_wrt_append)
    have fb: "flushed_bound ex db'" if "flushed_bound ex db"
    proof -
      have "ikey_seqno (fst e) \<le> md_last_flushed_seqno ?data" if "es \<in> set (version_layers ex (db_version db'))" "e \<in> set es" for es e
      proof (cases run)
        case None
        then show ?thesis using \<open>flushed_bound ex db\<close> that v' qf(4) by (auto simp: flushed_bound_def flush_data_def Let_def)
      next
        case (Some p)
        then obtain rr ms where p: "run = Some (rr, ms)" by (cases p) auto
        then have "es = ents (mt_map imm) \<or> es \<in> set (version_layers ex (db_version db))" using that(1) v' re qf(4) by auto
        then have "ikey_seqno (fst e) \<le> ms \<or> ikey_seqno (fst e) \<le> md_last_flushed_seqno (ms_data (db_manifest db))"
          using run p that(2) max_seq_of_ge [of 0 "ents (mt_map imm)"] \<open>flushed_bound ex db\<close> by (auto simp: flushed_bound_def)
        then show ?thesis using p by (auto simp: flush_data_def Let_def le_max_iff_disj)
      qed
      then show ?thesis unfolding flushed_bound_def md by blast
    qed
    have "w \<in> set (db_old_wals db')" if "w \<in> set (db_old_wals db)" "fst w \<in> mt_wal_id ` set (db_imms db')" for w
      using that up mem(2) qf(6) by (auto simp: r(2) delete_old_wals_def not_less)
    moreover have "db_next_file_id db' = db_next_file_id db" using cs by (simp add: r(2) delete_old_wals_def)
    ultimately show ?thesis using ok' st mi' ids' fb r(1) mem(2) by blast
  qed
qed

lemma vlog_sync_quiet:
  assumes "vlog_sync_head (db_vlog db) = (r, v)"
  shows "quiet db (db\<lparr>db_vlog := v\<rparr>)"
proof -
  have e: "db\<lparr>db_vlog := v\<rparr> = db\<lparr>db_next_file_id := db_next_file_id db, db_created := db_created db, db_dir := db_dir db,
      db_manifest := db_manifest db, db_vlog := v\<rparr>" by simp
  obtain x f where f: "file_sync_data (vlog_file (db_vlog db)) = (x, f)" by (cases "file_sync_data (vlog_file (db_vlog db))")
  have "vlog_grows (db_vlog db) v \<and> (file_wf (vlog_file (db_vlog db)) \<longrightarrow> file_wf (vlog_file v))"
    using file_sync_spec [OF f] assms f by (auto simp: vlog_sync_head_def vlog_grows_def Let_def split: if_splits sum.splits)
  then show ?thesis by (intro quietI [OF e]) simp_all
qed

lemma flush_run_spec:
  assumes sk: "skip_ok sk ents" and c: "creates_fresh db" and ok: "writes_ok ex (db_opts db) (ents (mt_map imm))"
  shows "\<exists>r d. flush_run ex sk imm db = Some (r, d) \<and> quiet db d \<and> db_manifest d = db_manifest db
    \<and> (\<forall>x. r = Ok x \<longrightarrow> (case x of None \<Rightarrow> ents (mt_map imm) = []
        | Some (run, ms) \<Rightarrow> tables_of ex (ents (mt_map imm)) (rn_tables run) \<and> ms = max_seq_of (ents (mt_map imm)) 0))
    \<and> (df_faults (db_dir db) = [] \<and> sf_faults (vh_file (vl_handle (db_vlog db))) = [] \<longrightarrow> (\<exists>x. r = Ok x) \<and> df_faults (db_dir d) = [])"
proof (cases "memtable_is_empty sk imm")
  case True
  then have "ents (mt_map imm) = []" using sk by (simp add: memtable_is_empty_def skip_ok_def)
  then show ?thesis using True by (simp add: flush_run_def)
next
  case False
  obtain y v where v: "vlog_sync_head (db_vlog db) = (y, v)" by (cases "vlog_sync_head (db_vlog db)")
  let ?d = "db\<lparr>db_vlog := v\<rparr>"
  note q = vlog_sync_quiet [OF v]
  show ?thesis
  proof (cases y)
    case (Inl e)
    moreover have "sf_faults (vh_file (vl_handle (db_vlog db))) \<noteq> []"
    proof
      assume "sf_faults (vh_file (vl_handle (db_vlog db))) = []"
      then obtain g where "file_sync_data (vh_file (vl_handle (db_vlog db))) = (Ok (), g)"
        by (simp add: file_sync_data_def next_fault_def)
      then show False using v Inl by (simp add: vlog_sync_head_def Let_def split: if_splits)
    qed
    ultimately show ?thesis using False v q by (simp add: flush_run_def)
  next
    case (Inr k)
    have cf: "creates_fresh ?d" using c by (simp add: creates_fresh_def)
    have ok': "writes_ok ex (db_opts ?d) (ents (mt_map imm))" using ok by simp
    obtain r d where b: "build_run_from_mem ex sk imm ?d = Some (r, d)" "build_frame ?d d"
      "\<forall>x. r = Ok x \<longrightarrow> tables_of ex (ents (mt_map imm)) (rn_tables (fst x)) \<and> snd x = max_seq_of (ents (mt_map imm)) 0"
      "df_faults (db_dir db) = [] \<longrightarrow> (\<exists>x. r = Ok x) \<and> df_faults (db_dir d) = []"
      using build_run_spec [OF sk cf ok'] by auto
    have "quiet db d" "db_manifest d = db_manifest db" using build_frame_quiet [OF b(2)] quiet_trans [OF q] by auto
    then show ?thesis using False v Inr b(1,3,4)
      by (cases r) (auto simp: flush_run_def split: prod.splits)
  qed
qed

lemma flush_one_spec:
  assumes "db_ok ex sk ents P db" and "mirrors db" and "wal_ids_ok db" and "creates_fresh db"
    and "db_imms db \<noteq> [] \<Longrightarrow> writes_ok ex (db_opts db) (ents (mt_map (last (db_imms db))))"
  shows "\<exists>x db'. flush_one ex sk db = Some (x, db') \<and> (runs_on ex P db' \<and> db_next_file_id db \<le> db_next_file_id db' \<longrightarrow>
      db_ok ex sk ents P db' \<and> stays ex ents P db db' \<and> mirrors db' \<and> wal_ids_ok db'
    \<and> (flushed_bound ex db \<longrightarrow> flushed_bound ex db')
    \<and> (x = Ok (db_imms db \<noteq> []) \<and> db_imms db' = butlast (db_imms db)
       \<or> (\<exists>e. x = Err e) \<and> db_imms db' = db_imms db \<and> db_version db' = db_version db)
    \<and> (\<forall>w \<in> set (db_old_wals db). fst w \<in> mt_wal_id ` set (db_imms db') \<longrightarrow> w \<in> set (db_old_wals db')))"
proof (cases "db_imms db = []")
  case True
  then show ?thesis using assms by (simp add: flush_one_def stays_refl)
next
  case False
  then obtain ims imm where i: "db_imms db = ims @ [imm]" by (metis append_butlast_last_id)
  have sk: "skip_ok sk ents" using assms(1) unfolding db_ok_def view_sound_now by blast
  have w: "writes_ok ex (db_opts db) (ents (mt_map imm))" using assms(5) i by simp
  obtain r d where d: "flush_run ex sk imm db = Some (r, d)" "quiet db d" "db_manifest d = db_manifest db"
    "\<forall>x. r = Ok x \<longrightarrow> (case x of None \<Rightarrow> ents (mt_map imm) = []
        | Some (run, ms) \<Rightarrow> tables_of ex (ents (mt_map imm)) (rn_tables run) \<and> ms = max_seq_of (ents (mt_map imm)) 0)"
    using flush_run_spec [OF sk assms(4) w] by blast
  note qf = quiet_fields [OF d(2)]
  have same: "mirrors d" "wal_ids_ok d" "flushed_bound ex d = flushed_bound ex db" "db_imms d = ims @ [imm]"
    using assms(2,3) qf d(3) i by (simp_all add: mirrors_def wal_ids_ok_def flushed_bound_def)
  show ?thesis
  proof (cases r)
    case (Inl e)
    then have "flush_one ex sk db = Some (Err e, d)" using d(1) i by (simp add: flush_one_def)
    then show ?thesis using same qf i quiet_ok [OF d(2) assms(1)] by auto
  next
    case (Inr run)
    obtain x db' where f: "flush_install ex run imm d = (x, db')" by (cases "flush_install ex run imm d")
    then have fo: "flush_one ex sk db = Some (x, db')" using d(1) Inr i by (simp add: flush_one_def)
    have nx: "db_next_file_id db' = db_next_file_id d"
      using f by (auto simp: flush_install_def Let_def delete_old_wals_def commit_manifest_def sbind_def split: prod.splits sum.splits)
    have rn: "case run of None \<Rightarrow> ents (mt_map imm) = []
        | Some (rr, ms) \<Rightarrow> tables_of ex (ents (mt_map imm)) (rn_tables rr) \<and> ms = max_seq_of (ents (mt_map imm)) 0"
      using d(4) Inr by blast
    have all: "(db_ok ex sk ents P db' \<and> stays ex ents P d db' \<and> mirrors db' \<and> wal_ids_ok db'
    \<and> db_next_file_id db' = db_next_file_id d \<and> (flushed_bound ex d \<longrightarrow> flushed_bound ex db')
    \<and> (x = Ok True \<and> db_imms db' = ims \<or> (\<exists>e. x = Err e) \<and> db_imms db' = db_imms d \<and> db_version db' = db_version d)
    \<and> (\<forall>w \<in> set (db_old_wals d). fst w \<in> mt_wal_id ` set (db_imms db') \<longrightarrow> w \<in> set (db_old_wals db')))
    \<and> stays ex ents P db d" if "runs_on ex P db'" "db_next_file_id db \<le> db_next_file_id db'"
    proof -
      have n: "db_next_file_id db \<le> db_next_file_id d" using nx that(2) by simp
      note qo = quiet_ok [OF d(2) assms(1) n]
      show ?thesis using flush_install_spec [OF qo(1) same(1,2,4) rn f that(1)] qo(2) by blast
    qed
    show ?thesis
    proof (intro exI [of _ x] exI [of _ db'] conjI [OF fo] impI)
      assume "runs_on ex P db' \<and> db_next_file_id db \<le> db_next_file_id db'"
      then have a: "runs_on ex P db'" "db_next_file_id db \<le> db_next_file_id db'" by simp_all
      note al = all [OF a]
      have "stays ex ents P db db'" using al stays_trans [of ex ents P db d db'] by blast
      moreover have "db_imms db = [] \<longleftrightarrow> False" "butlast (db_imms db) = ims" using i by simp_all
      ultimately show "db_ok ex sk ents P db' \<and> stays ex ents P db db' \<and> mirrors db' \<and> wal_ids_ok db'
        \<and> (flushed_bound ex db \<longrightarrow> flushed_bound ex db')
        \<and> (x = Ok (db_imms db \<noteq> []) \<and> db_imms db' = butlast (db_imms db)
           \<or> (\<exists>e. x = Err e) \<and> db_imms db' = db_imms db \<and> db_version db' = db_version db)
        \<and> (\<forall>w \<in> set (db_old_wals db). fst w \<in> mt_wal_id ` set (db_imms db') \<longrightarrow> w \<in> set (db_old_wals db'))"
        using al same(3) qf(3,4,6) by simp
    qed
  qed
qed

section \<open>File ids and tables of a flush\<close>

lemma build_run_ids:
  assumes sk: "skip_ok sk ents" and b: "build_run_from_mem ex sk imm db = Some (r, db')"
  shows "\<exists>k \<le> Suc (length (ents (mt_map imm))). db_next_file_id db' = db_next_file_id db + of_nat k"
proof -
  let ?es = "ents (mt_map imm)" and ?db = "db\<lparr>db_next_file_id := db_next_file_id db + 1\<rparr>"
  note fi = mem_forward [OF sk]
  have g: "mi_good (memtable_iter imm) ents" "mi_contents ents (memtable_iter imm) = ?es"
    by (simp_all add: mi_good_def memtable_iter_def mi_contents_def)
  obtain it where it: "mi_seek_to_first sk (memtable_iter imm) = Inr it" "mi_good it ents" "mi_forward ents it = ?es"
    using forward_iterator.seek_to_first [OF fi g(1)] g(2) by (auto simp: mem_iter_ops_def elim!: movesE)
  obtain x d where x: "build_loop ex (mem_iter_ops sk) it [] 0 ([], None) ?db = Some (x, d)"
    using b it(1) by (auto simp: build_run_from_mem_def alloc_file_id_def split: option.splits)
  obtain k where k: "k \<le> length ?es" "db_next_file_id d = db_next_file_id ?db + of_nat k"
    using forward_iterator.build_loop_ids [OF fi it(2,3) x] by blast
  have "db_next_file_id db' = db_next_file_id d"
    using b it(1) x by (cases x) (auto simp: build_run_from_mem_def alloc_file_id_def db_sync_dir_def sbind_def Let_def
        split: sum.splits prod.splits)
  then show ?thesis using k by (intro exI [of _ "Suc k"]) simp
qed

definition flush_ids :: "('m \<Rightarrow> entry list) \<Rightarrow> 'm db \<Rightarrow> nat" where
  "flush_ids ents db = (if db_imms db = [] then 0 else Suc (length (ents (mt_map (last (db_imms db))))))"

lemma flush_one_ids:
  assumes sk: "skip_ok sk ents" and f: "flush_one ex sk db = Some (x, db')"
    and n: "unat (db_next_file_id db) + flush_ids ents db < 2 ^ 64"
  shows "db_next_file_id db \<le> db_next_file_id db'"
proof (cases "db_imms db = []")
  case False
  let ?imm = "last (db_imms db)"
  obtain r d where r: "flush_run ex sk ?imm db = Some (r, d)" using f False by (auto simp: flush_one_def Let_def split: option.splits)
  have "\<exists>k \<le> flush_ids ents db. db_next_file_id d = db_next_file_id db + of_nat k"
  proof (cases "memtable_is_empty sk ?imm")
    case True
    then show ?thesis using r by (intro exI [of _ 0]) (simp add: flush_run_def)
  next
    case ne: False
    obtain y v where v: "vlog_sync_head (db_vlog db) = (y, v)" by (cases "vlog_sync_head (db_vlog db)")
    show ?thesis
    proof (cases y)
      case (Inl e)
      then show ?thesis using r v ne by (intro exI [of _ 0]) (auto simp: flush_run_def)
    next
      case (Inr u)
      then obtain z where "build_run_from_mem ex sk ?imm (db\<lparr>db_vlog := v\<rparr>) = Some (z, d)"
        using r v ne by (auto simp: flush_run_def split: option.splits)
      from build_run_ids [OF sk this] show ?thesis using False by (auto simp: flush_ids_def)
    qed
  qed
  then obtain k where k: "k \<le> flush_ids ents db" "db_next_file_id d = db_next_file_id db + of_nat k" by blast
  have "db_next_file_id db' = db_next_file_id d"
    using f False r by (cases r) (auto simp: flush_one_def flush_install_def Let_def delete_old_wals_def commit_manifest_def sbind_def
        split: prod.splits sum.splits)
  moreover have "unat (db_next_file_id db + of_nat k) = unat (db_next_file_id db) + k"
    using k(1) n by (simp add: unat_word_ariths unat_of_nat)
  ultimately show ?thesis using k(2) by (simp add: word_le_nat_alt)
qed (use f in \<open>simp add: flush_one_def\<close>)

text \<open>Without an I/O fault a flush succeeds.\<close>

lemma calm_steps:
  assumes "df_faults d = []"
  shows "fs_write name c d = (Ok (), d\<lparr>df_files := (df_files d)(name \<mapsto> c)\<rparr>)" "sync_dir d = (Ok (), d)"
    "df_files d a = Some c \<Longrightarrow> fs_rename a b d = (Ok (), d\<lparr>df_files := (df_files d)(a := None, b \<mapsto> c)\<rparr>)"
  using assms by (simp_all add: fs_write_def sync_dir_def fs_rename_def next_fs_fault_def)

lemma manifest_save_calm: "df_faults d = [] \<Longrightarrow> \<exists>d'. manifest_save crc gen m d = (Ok (), d') \<and> df_faults d' = []"
  by (simp add: manifest_save_def atomic_write_def fs_bind_def calm_steps)

lemma manifest_commit_calm: "df_faults d = [] \<Longrightarrow> manifest_commit crc m st d = (r, st', d') \<Longrightarrow> r = Ok () \<and> df_faults d' = []"
  using manifest_save_calm [of d crc "ms_gen st + 1" m] by (auto simp: manifest_commit_def manifest_sweep_def Let_def)

lemma commit_manifest_calm:
  "df_faults (db_dir db) = [] \<Longrightarrow> commit_manifest crc data db = (r, db') \<Longrightarrow> r = Ok () \<and> df_faults (db_dir db') = []"
proof -
  assume f: "df_faults (db_dir db) = []" and c: "commit_manifest crc data db = (r, db')"
  obtain x st d where m: "manifest_commit crc data (db_manifest db) (db_dir db) = (x, st, d)" by (metis prod.exhaust)
  then have "r = x" "db_dir db' = d" using c by (auto simp: commit_manifest_def)
  then show ?thesis using manifest_commit_calm [OF f m] by simp
qed

lemma flush_one_calm:
  assumes sk: "skip_ok sk ents" and c: "creates_fresh db"
    and w: "db_imms db \<noteq> [] \<Longrightarrow> writes_ok ex (db_opts db) (ents (mt_map (last (db_imms db))))"
    and calm: "df_faults (db_dir db) = []" "sf_faults (vh_file (vl_handle (db_vlog db))) = []" and f: "flush_one ex sk db = Some (x, db')"
  shows "(\<exists>b. x = Ok b) \<and> df_faults (db_dir db') = []"
proof (cases "db_imms db = []")
  case False
  obtain r d where d: "flush_run ex sk (last (db_imms db)) db = Some (Ok r, d)" "df_faults (db_dir d) = []"
    using flush_run_spec [OF sk c w [OF False]] calm by auto
  then have i: "flush_install ex r (last (db_imms db)) d = (x, db')" using f False by (simp add: flush_one_def)
  let ?c = "commit_manifest (ex_crc ex) (flush_data (db_next_file_id d) r (last (db_imms db)) (ms_data (db_manifest d))) d"
  obtain e where e: "?c = (Ok (), e)" "df_faults (db_dir e) = []"
    using commit_manifest_calm [OF d(2)] by (cases ?c) blast
  then show ?thesis using i by (auto simp: flush_install_def Let_def delete_old_wals_def)
qed (use f calm in \<open>auto simp: flush_one_def\<close>)

text \<open>The tables a flush adds hold the memtable's entries.\<close>

lemma flush_one_tables:
  assumes sk: "skip_ok sk ents" and c: "creates_fresh db" and i: "db_imms db \<noteq> []"
    and w: "writes_ok ex (db_opts db) (ents (mt_map (last (db_imms db))))" and f: "flush_one ex sk db = Some (x, db')"
  shows "vs_levels (db_version db') = vs_levels (db_version db)
    \<or> (\<exists>r. vs_levels (db_version db') = level_push 0 r (vs_levels (db_version db)) \<and> tables_of ex (ents (mt_map (last (db_imms db)))) (rn_tables r))"
proof -
  obtain r d where d: "flush_run ex sk (last (db_imms db)) db = Some (r, d)" "quiet db d"
    "\<forall>x. r = Ok x \<longrightarrow> (case x of None \<Rightarrow> ents (mt_map (last (db_imms db))) = []
        | Some (run, ms) \<Rightarrow> tables_of ex (ents (mt_map (last (db_imms db)))) (rn_tables run) \<and> ms = max_seq_of (ents (mt_map (last (db_imms db)))) 0)"
    using flush_run_spec [OF sk c w] by blast
  have v: "db_version d = db_version db" using quiet_fields [OF d(2)] by simp
  show ?thesis
  proof (cases r)
    case (Inl e)
    then show ?thesis using f i d(1) v by (simp add: flush_one_def)
  next
    case (Inr run)
    then have e: "flush_install ex run (last (db_imms db)) d = (x, db')" using f i d(1) by (simp add: flush_one_def)
    obtain y d2 where c2: "commit_manifest (ex_crc ex) (flush_data (db_next_file_id d) run (last (db_imms db)) (ms_data (db_manifest d))) d = (y, d2)"
      by (metis prod.exhaust)
    have v2: "db_version d2 = db_version d" using c2 by (auto simp: commit_manifest_def split: prod.splits)
    show ?thesis using e c2 v v2 d(3) Inr
      by (cases y; cases run) (auto simp: flush_install_def Let_def version_clone_shape_def delete_old_wals_def)
  qed
qed


definition sample_imm :: "sorted_entries memtable" where
  "sample_imm = memtable_insert list_skip_ops (make_ikey [107] 9 Put) [1] (memtable_new se_empty 2)"

definition sample_full_db :: "sorted_entries db" where
  "sample_full_db = sample_db\<lparr>db_mem := memtable_new se_empty 3, db_imms := [sample_imm], db_visible := 9, db_next_file_id := 4,
     db_manifest := \<lparr>ms_gen = 1, ms_data = sample_manifest\<lparr>md_levels := [[]], md_wal_floor := 2\<rparr>\<rparr>\<rparr>"

lemma sample_imm_entries: "Rep_sorted_entries (mt_map sample_imm) = sample_entries"
proof -
  have ins: "Rep_sorted_entries (se_insert ik v m) = put_entry ik v (Rep_sorted_entries m)" for ik v m
    using list_skip_ok unfolding skip_ok_def by (simp add: list_skip_ops_def)
  show ?thesis by (simp add: sample_imm_def memtable_insert_def memtable_new_def list_skip_ops_def ins put_entry_Nil
        se_empty_def Abs_sorted_entries_inverse sample_entries_def)
qed

lemma put_writes_ok: "writes_ok sample_codecs options_default [(make_ikey [107] 9 Put, [b])]"
proof -
  let ?es = "[(make_ikey [107] 9 Put, [b])]"
  have u: "length (uvarint 9) = 1" "length (uvarint 1) = 1" "length (uvarint 0) = 1" "length (uvarint 25) = 1" by (subst uvarint.simps, simp add: word_le_nat_alt)+
  have k: "length (make_ikey [107] 9 Put) = 9" by (simp add: make_ikey_def)
  have small: "length (sf_data f) < 2 ^ 32" if "fresh_file f0" "opts_build sample_codecs options_default f0 ?es = Ok (st, sz, f)"
    for f0 st sz f
  proof -
    have f0: "sf_data f0 = []" "sf_append_off f0 = 0" "sf_faults f0 = []" using that(1) by (simp_all add: fresh_file_def file_clean_def)
    show ?thesis using that(2)
      by (simp add: opts_build_def options_default_def table_build_def table_builder_new_def tb_add_def key_simps
        max_seqno_val Let_def block_builder_default_def block_add_def block_size_estimate_def tb_finish_def tb_flush_block_def
        block_builder_is_empty_def block_finish_def tb_write_block_def f0 file_append_def next_fault_def
        file_sync_data_def codec_simps split_def k length_bloom_build bloom_nbytes_def footer_len_def
        stats_encode_def tb_index_payload_def enc_len_prefixed_def write_at_def u)
        (clarsimp simp: codec_simps k length_bloom_build bloom_nbytes_def u footer_len_def)
  qed
  have "length (uvarint v) \<le> 10" for v by (rule length_uvarint_le_10)
  from add_mono [OF this [of 9] this [of 1]] have inp: "table_input_ok 10 ?es"
    by (simp add: table_input_ok_def key_simps max_seqno_val enc_block_entry_def bloom_nbytes_def) (simp add: make_ikey_def)
  have "frag = ?es" if "frag \<noteq> []" "subseq frag ?es" for frag
    using that by (cases frag) (auto split: if_splits)
  moreover have "entries_sorted ?es" using inp by (simp add: table_input_ok_def)
  moreover have "op_bloom_bits_per_key options_default = 10" by (simp add: options_default_def)
  ultimately show ?thesis using small inp sample_input_ok(1) unfolding writes_ok_def fits_table_def by metis
qed

lemma sample_writes_ok: "writes_ok sample_codecs options_default sample_entries"
  by (simp add: put_writes_ok sample_entries_def)

text \<open>The tables of a run of one entry agree with what their files hold.\<close>

lemma one_entry_tables:
  assumes "tables_of ex [e] tables"
  shows "\<exists>h. tables = [h] \<and> table_sound ex (th_table h)"
proof -
  obtain frags where f: "list_all2 (frag_of ex) tables frags" "concat frags = [e]"
    using assms unfolding tables_of_def by blast
  have ne: "[] \<notin> set frags"
    using f(1) unfolding list_all2_conv_all_nth frag_of_def by (metis in_set_conv_nth)
  obtain a rest where fr: "frags = a # rest" using f(2) by (cases frags) auto
  have "a \<noteq> []" "[] \<notin> set rest" using ne fr by auto
  moreover have "concat rest = []" using f(2) fr \<open>a \<noteq> []\<close> by (cases a) auto
  ultimately have "rest = []" by (cases rest) auto
  then obtain h where "tables = [h]" "frag_of ex h a" using f(1) fr by (auto simp: list_all2_Cons2)
  then show ?thesis by (auto simp: frag_of_def)
qed


end
