(* ===== verification/Compact.thy ===== *)
theory Compact
  imports Flush MergeIter
begin

text \<open>
  \<open>crates/fluent31/src/compaction.rs\<close>: lazy-leveling compaction. The picker chooses a tiered merge
  of a whole level, a merge of one run into the base run of the bottom level, or a new bottom
  level; a rewrite runs in slices over a merge cursor on its pinned inputs, drops what no
  snapshot can see, and installs its output at the end, in the manifest first.
\<close>

section \<open>Jobs\<close>

datatype job_kind =
    Tier
  | BottomSplice (js_base_id: u64) (js_keep_left: "table_handle list") (js_keep_right: "table_handle list") (js_new_run_id: u64)

record job =
  jb_level :: nat
  jb_target :: nat
  jb_inputs :: "run list"
  jb_older :: "run list"
  jb_kind :: job_kind

datatype work = Rewrite job | Deepen nat "run list"

fun any_may_contain :: "codecs \<Rightarrow> run list \<Rightarrow> bytes \<Rightarrow> block_cache \<Rightarrow> bool res \<times> block_cache" where
  "any_may_contain ex [] ukey = cres (Ok False)"
| "any_may_contain ex (r # rs) ukey =
     cbind (run_may_contain ex r ukey) (\<lambda>b. if b then cres (Ok True) else any_may_contain ex rs ukey)"

definition older_may_contain :: "codecs \<Rightarrow> job \<Rightarrow> bytes \<Rightarrow> block_cache \<Rightarrow> bool res \<times> block_cache" where
  "older_may_contain ex job = any_may_contain ex (jb_older job)"

section \<open>The picker\<close>

definition max_dynamic_levels :: nat where "max_dynamic_levels = 16"

definition saturating_mul :: "u64 \<Rightarrow> u64 \<Rightarrow> u64" where
  "saturating_mul a b = (if unat a * unat b < 2 ^ 64 then a * b else - 1)"

definition level_target_bytes :: "options \<Rightarrow> nat \<Rightarrow> u64" where
  "level_target_bytes opts level =
     (let unit = max (saturating_mul (of_nat (op_memtable_size opts)) (of_nat (op_l0_compaction_trigger opts))) 1;
          width = of_nat (max (op_tier_width opts) 2)
      in ((\<lambda>acc. saturating_mul acc width) ^^ level) unit)"

definition pick_tier :: "version \<Rightarrow> nat \<Rightarrow> job" where
  "pick_tier v level =
     \<lparr>jb_level = level, jb_target = level + 1, jb_inputs = vs_levels v ! level,
      jb_older = vs_levels v ! (level + 1) @ concat (drop (level + 2) (vs_levels v)), jb_kind = Tier\<rparr>"

text \<open>The first of the levels above \<open>deepest\<close> with enough runs.\<close>

definition first_due :: "(nat \<Rightarrow> nat) \<Rightarrow> version \<Rightarrow> nat \<Rightarrow> nat option" where
  "first_due trigger v deepest = find (\<lambda>i. trigger i \<le> length (vs_levels v ! i)) [0..<deepest]"

definition level_trigger :: "options \<Rightarrow> nat \<Rightarrow> nat" where
  "level_trigger opts level = (if level = 0 then op_l0_compaction_trigger opts else op_tier_width opts)"

definition pick_before :: "'m db \<Rightarrow> nat \<Rightarrow> job option" where
  "pick_before db before =
     (let v = db_version db; deepest = length (vs_levels v) - 1
      in map_option (pick_tier v) (first_due (level_trigger (db_opts db)) v (min deepest before)))"

definition run_lo :: "run \<Rightarrow> bytes" where
  "run_lo r = Min (set (map (\<lambda>t. stats_min_ukey (th_stats t)) (rn_tables r)))"

definition run_hi :: "run \<Rightarrow> bytes" where
  "run_hi r = Max (set (map (\<lambda>t. stats_max_ukey (th_stats t)) (rn_tables r)))"

definition pick_splice :: "run \<Rightarrow> run \<Rightarrow> nat \<Rightarrow> u64 \<Rightarrow> job" where
  "pick_splice upper base deepest new_run_id =
     (let lo = run_lo upper; hi = run_hi upper;
          left = (\<lambda>t. stats_max_ukey (th_stats t) < lo);
          right = (\<lambda>t. \<not> left t \<and> hi < stats_min_ukey (th_stats t))
      in \<lparr>jb_level = deepest, jb_target = deepest,
          jb_inputs = [upper, \<lparr>rn_id = rn_id base, rn_tables = filter (\<lambda>t. \<not> left t \<and> \<not> right t) (rn_tables base)\<rparr>],
          jb_older = [],
          jb_kind = BottomSplice (rn_id base) (filter left (rn_tables base)) (filter right (rn_tables base)) new_run_id\<rparr>)"

definition pick :: "'m db \<Rightarrow> bool \<Rightarrow> work option \<times> 'm db" where
  "pick db force =
     (let v = db_version db; deepest = length (vs_levels v) - 1; bottom = vs_levels v ! deepest
      in case first_due (\<lambda>i. if force then 2 else level_trigger (db_opts db) i) v deepest of
           Some i \<Rightarrow> (Some (Rewrite (pick_tier v i)), db)
         | None \<Rightarrow>
             let bottom_bytes = sum_list (map run_size bottom);
                 one_level_tree_with_work = (deepest = 0 \<and> 2 \<le> length bottom);
                 bottom_over_budget = (\<not> force \<and> level_target_bytes (db_opts db) deepest < bottom_bytes);
                 deepen = (length (vs_levels v) < max_dynamic_levels \<and> bottom \<noteq> []
                   \<and> (one_level_tree_with_work \<or> bottom_over_budget))
             in if deepen then (Some (Deepen deepest bottom), db)
                else if 2 \<le> length bottom
                then let n = length bottom; (new_run_id, db) = alloc_file_id db
                     in (Some (Rewrite (pick_splice (bottom ! (n - 2)) (bottom ! (n - 1)) deepest new_run_id)), db)
                else (None, db))"

section \<open>A rewrite in flight\<close>

record running_job =
  rj_job :: job
  rj_watermark :: seqno
  rj_merge :: "run_iter merge_iter"
  rj_run_id :: u64
  rj_writer :: run_writer
  rj_discard :: "(u64 \<times> u64) list"
  rj_cur_ukey :: bytes
  rj_have_key :: bool
  rj_kept_le_w :: bool

definition db_watermark :: "'m db \<Rightarrow> seqno" where
  "db_watermark db = watermark \<lparr>st_visible = db_visible db, st_snapshots = db_snapshots db\<rparr>"

definition running_new :: "codecs \<Rightarrow> job \<Rightarrow> 'm db \<Rightarrow> running_job res \<times> 'm db" where
  "running_new ex job db =
     (let ops = run_iter_ops ex;
          merge = merge_new (map (\<lambda>r. run_iter_of r (db_cache db)) (jb_inputs job)) False
      in case merge_seek_to_first ops merge of
           Inl e \<Rightarrow> (Err e, db)
         | Inr merge \<Rightarrow>
             let w = db_watermark db; (run_id, db) = alloc_file_id db
             in (Ok \<lparr>rj_job = job, rj_watermark = w, rj_merge = merge, rj_run_id = run_id, rj_writer = ([], None),
                     rj_discard = [], rj_cur_ukey = [], rj_have_key = False, rj_kept_le_w = False\<rparr>, db))"

text \<open>A new user key starts a new decision.\<close>

definition new_user_key :: "bytes \<Rightarrow> running_job \<Rightarrow> bool" where
  "new_user_key ik j \<longleftrightarrow> \<not> rj_have_key j \<or> ikey_ukey ik \<noteq> rj_cur_ukey j"

definition enter_key :: "bytes \<Rightarrow> running_job \<Rightarrow> running_job" where
  "enter_key ik j =
     (if new_user_key ik j then j\<lparr>rj_cur_ukey := ikey_ukey ik, rj_have_key := True, rj_kept_le_w := False\<rparr> else j)"

text \<open>Whether an entry is kept, and whether it is a dropped put.\<close>

definition gc_decide ::
    "codecs \<Rightarrow> bytes \<Rightarrow> running_job \<Rightarrow> block_cache \<Rightarrow> ((bool \<times> bool) \<times> running_job) res \<times> block_cache" where
  "gc_decide ex ik j =
     (let j = enter_key ik j; seq = ikey_seqno ik
      in cbind (cres (ikey_kind ik)) (\<lambda>kind.
         if rj_watermark j < seq then cres (Ok ((True, False), j))
         else if \<not> rj_kept_le_w j
         then let j = j\<lparr>rj_kept_le_w := True\<rparr>
              in cbind (older_may_contain ex (rj_job j) (rj_cur_ukey j)) (\<lambda>shadows_older.
                   cres (Ok ((if kind = Delete \<and> \<not> shadows_older then (False, False) else (True, False)), j)))
         else cres (Ok ((False, kind = Put), j))))"

definition job_full :: "options \<Rightarrow> bytes \<Rightarrow> table_builder \<Rightarrow> bool" where
  "job_full opts ik b \<longleftrightarrow> op_target_file_size opts \<le> tb_estimated_size b \<and> ikey_ukey ik \<noteq> tb_last_ukey b"

definition count_discard :: "bytes \<Rightarrow> (u64 \<times> u64) list \<Rightarrow> (u64 \<times> u64) list res" where
  "count_discard repr discard =
     rbind (decode_repr repr) (\<lambda>v. case v of
       Ptr p \<Rightarrow> Ok (tm_put (vp_file p) ((case map_of discard (vp_file p) of None \<Rightarrow> 0 | Some b \<Rightarrow> b) + ucast (vp_len p)) discard)
     | Inline _ \<Rightarrow> Ok discard)"

definition gc_apply :: "codecs \<Rightarrow> bytes \<Rightarrow> bytes \<Rightarrow> bool \<Rightarrow> bool \<Rightarrow> running_job \<Rightarrow> 'm db \<Rightarrow> running_job res \<times> 'm db" where
  "gc_apply ex ik repr keep is_ptr_drop j db =
     (if keep then
        sbind (writer_entry ex (job_full (db_opts db) ik) ik repr (rj_writer j) db) (\<lambda>w db. (Ok (j\<lparr>rj_writer := w\<rparr>), db))
      else if is_ptr_drop then (rbind (count_discard repr (rj_discard j)) (\<lambda>d. Ok (j\<lparr>rj_discard := d\<rparr>)), db)
      else (Ok j, db))"

definition saturating_add :: "u64 \<Rightarrow> u64 \<Rightarrow> u64" where
  "saturating_add a b = (if unat a + unat b < 2 ^ 64 then a + b else - 1)"

definition entry_bytes :: "bytes \<Rightarrow> bytes \<Rightarrow> u64" where
  "entry_bytes ik repr = saturating_add (of_nat (length ik)) (of_nat (length repr))"

definition slice_entry :: "codecs \<Rightarrow> running_job \<Rightarrow> 'm db \<Rightarrow> running_job res \<times> 'm db" where
  "slice_entry ex j db =
     (let ops = run_iter_ops ex; ik = merge_ikey ops (rj_merge j); repr = merge_value ops (rj_merge j);
          (r, c) = gc_decide ex ik j (db_cache db)
      in sbind (r, db\<lparr>db_cache := c\<rparr>) (\<lambda>((keep, is_ptr_drop), j) db.
         sbind (gc_apply ex ik repr keep is_ptr_drop j db) (\<lambda>j db.
           (rbind (merge_next ops (rj_merge j)) (\<lambda>m. Ok (j\<lparr>rj_merge := m\<rparr>)), db))))"

text \<open>The loop of a slice: \<open>True\<close> at the end of the inputs, \<open>False\<close> when the budget is spent at a key's end.\<close>

partial_function (option) slice_loop ::
    "codecs \<Rightarrow> u64 \<Rightarrow> u64 \<Rightarrow> running_job \<Rightarrow> 'm db \<Rightarrow> ((bool \<times> running_job) res \<times> 'm db) option" where
  "slice_loop ex budget processed j db =
     (if \<not> merge_valid (rj_merge j) then Some (Ok (True, j), db)
      else if budget \<le> processed \<and> new_user_key (merge_ikey (run_iter_ops ex) (rj_merge j)) j then Some (Ok (False, j), db)
      else (case slice_entry ex j db of
          (Inl e, db) \<Rightarrow> Some (Err e, db)
        | (Inr j', db) \<Rightarrow> slice_loop ex budget (saturating_add processed (entry_bytes
            (merge_ikey (run_iter_ops ex) (rj_merge j)) (merge_value (run_iter_ops ex) (rj_merge j)))) j' db))"

section \<open>Installing\<close>

definition splice_tables :: "table_handle list \<Rightarrow> run option \<Rightarrow> table_handle list \<Rightarrow> table_handle list" where
  "splice_tables left output right = left @ (case output of None \<Rightarrow> [] | Some r \<Rightarrow> rn_tables r) @ right"

text \<open>
  The edit of the levels, once for the manifest (runs by their ids) and once for the version:
  \<open>mk\<close> makes the level's item from an id and its tables.
\<close>

definition install_levels ::
    "('r \<Rightarrow> u64) \<Rightarrow> (u64 \<Rightarrow> table_handle list \<Rightarrow> 'r) \<Rightarrow> job \<Rightarrow> run option \<Rightarrow> 'r list list \<Rightarrow> 'r list list" where
  "install_levels rid mk job output levels =
     (let input_ids = map rn_id (jb_inputs job); l = jb_level job;
          levels = levels[l := filter (\<lambda>r. rid r \<notin> set input_ids) (levels ! l)]
      in case jb_kind job of
           Tier \<Rightarrow> (case output of
               None \<Rightarrow> levels
             | Some run \<Rightarrow> level_push (jb_target job) (mk (rn_id run) (rn_tables run)) levels)
         | BottomSplice base_id left right new_run_id \<Rightarrow>
             let levels = levels[l := filter (\<lambda>r. rid r \<noteq> base_id) (levels ! l)];
                 tables = splice_tables left output right
             in if tables = [] then levels else levels[l := levels ! l @ [mk new_run_id tables]])"

definition meta_of :: "u64 \<Rightarrow> table_handle list \<Rightarrow> run_meta" where
  "meta_of i tables = \<lparr>rm_id = i, rm_table_ids = map th_id tables\<rparr>"

definition run_of :: "u64 \<Rightarrow> table_handle list \<Rightarrow> run" where
  "run_of i tables = \<lparr>rn_id = i, rn_tables = tables\<rparr>"

text \<open>Only files still resolvable and not retired keep their discard statistics.\<close>

definition add_discard :: "u64 list \<Rightarrow> (u64 \<times> u64) list \<Rightarrow> (u64 \<times> u64) list \<Rightarrow> (u64 \<times> u64) list \<Rightarrow> (u64 \<times> u64) list" where
  "add_discard resolvable retired discard old =
     fold (\<lambda>(f, b) m. if f \<in> set resolvable \<and> f \<notin> set (map fst retired)
       then tm_put f ((case map_of m f of None \<Rightarrow> 0 | Some x \<Rightarrow> x) + b) m else m) discard old"

definition install_data :: "job \<Rightarrow> run option \<Rightarrow> (u64 \<times> u64) list \<Rightarrow> 'm db \<Rightarrow> manifest_data" where
  "install_data job output discard db =
     (let data = ms_data (db_manifest db);
          data = data\<lparr>md_levels := install_levels rm_id meta_of job output (md_levels data)\<rparr>;
          data = (if discard = [] then data
            else data\<lparr>md_discard := add_discard (map fst (vs_vlogs (db_version db))) (md_vlog_retired data) discard (discard_map data)\<rparr>)
      in data\<lparr>md_next_file_id := db_next_file_id db\<rparr>)"

text \<open>The input tables come back marked obsolete: their files go when the last handle does.\<close>

definition install ::
    "(bytes \<Rightarrow> u32) \<Rightarrow> job \<Rightarrow> run option \<Rightarrow> (u64 \<times> u64) list \<Rightarrow> 'm db \<Rightarrow> table_handle list res \<times> 'm db" where
  "install crc job output discard db =
     sbind (commit_manifest crc (install_data job output discard db) db) (\<lambda>_ db.
       let v = version_clone_shape (db_version db);
           v = v\<lparr>vs_levels := install_levels rn_id run_of job output (vs_levels v)\<rparr>
       in (Ok (map th_mark_obsolete (concat (map rn_tables (jb_inputs job)))), db\<lparr>db_version := v\<rparr>))"

definition deepen_levels :: "('r \<Rightarrow> u64) \<Rightarrow> (run \<Rightarrow> 'r) \<Rightarrow> nat \<Rightarrow> run list \<Rightarrow> 'r list list \<Rightarrow> 'r list list" where
  "deepen_levels rid mk level inputs levels =
     levels[level := filter (\<lambda>r. rid r \<notin> set (map rn_id inputs)) (levels ! level)] @ [map mk inputs]"

definition install_deepen :: "(bytes \<Rightarrow> u32) \<Rightarrow> nat \<Rightarrow> run list \<Rightarrow> 'm db \<Rightarrow> unit res \<times> 'm db" where
  "install_deepen crc level inputs db =
     (let data = ms_data (db_manifest db);
          data = data\<lparr>md_levels := deepen_levels rm_id run_meta_of level inputs (md_levels data),
                      md_next_file_id := db_next_file_id db\<rparr>
      in sbind (commit_manifest crc data db) (\<lambda>_ db.
           let v = version_clone_shape (db_version db)
           in (Ok (), db\<lparr>db_version := v\<lparr>vs_levels := deepen_levels rn_id (\<lambda>r. r) level inputs (vs_levels v)\<rparr>\<rparr>)))"

section \<open>A slice\<close>

definition job_output :: "running_job \<Rightarrow> table_handle list \<Rightarrow> run option" where
  "job_output j tables = (if tables = [] then None else Some \<lparr>rn_id = rj_run_id j, rn_tables = tables\<rparr>)"

definition slice_finish :: "codecs \<Rightarrow> running_job \<Rightarrow> 'm db \<Rightarrow> bool res \<times> 'm db" where
  "slice_finish ex j db =
     sbind (writer_close ex (rj_writer j), db) (\<lambda>tables db.
     sbind (db_sync_dir db) (\<lambda>_ db.
     sbind (install (ex_crc ex) (rj_job j) (job_output j tables) (rj_discard j) db) (\<lambda>_ db. (Ok True, db))))"

definition run_slice :: "codecs \<Rightarrow> running_job \<Rightarrow> 'm db \<Rightarrow> ((bool \<times> running_job) res \<times> 'm db) option" where
  "run_slice ex j db =
     (case slice_loop ex (max (op_compaction_slice_bytes (db_opts db)) 1) 0 j db of
        None \<Rightarrow> None
      | Some (Inl e, db) \<Rightarrow> Some (Err e, db)
      | Some (Inr (False, j), db) \<Rightarrow> Some (Ok (False, j), db)
      | Some (Inr (True, j), db) \<Rightarrow>
          (case slice_finish ex j db of (Inl e, db) \<Rightarrow> Some (Err e, db) | (Inr b, db) \<Rightarrow> Some (Ok (b, j), db)))"

section \<open>The scheduler\<close>

record scheduler =
  sc_active :: "running_job option"
  sc_suspended :: "running_job list"
  sc_force :: bool

definition scheduler_new :: "bool \<Rightarrow> scheduler" where
  "scheduler_new force = \<lparr>sc_active = None, sc_suspended = [], sc_force = force\<rparr>"

definition sched_start :: "codecs \<Rightarrow> work \<Rightarrow> scheduler \<Rightarrow> 'm db \<Rightarrow> scheduler res \<times> 'm db" where
  "sched_start ex work sc db = (case work of
     Rewrite job \<Rightarrow> sbind (running_new ex job db) (\<lambda>j db. (Ok (sc\<lparr>sc_active := Some j\<rparr>), db))
   | Deepen level inputs \<Rightarrow> sbind (install_deepen (ex_crc ex) level inputs db) (\<lambda>_ db. (Ok sc, db)))"

text \<open>The innermost suspended job is the head of the list.\<close>

definition sched_preempt :: "codecs \<Rightarrow> scheduler \<Rightarrow> 'm db \<Rightarrow> scheduler res \<times> 'm db" where
  "sched_preempt ex sc db = (case sc_active sc of
     None \<Rightarrow> (Ok sc, db)
   | Some deep \<Rightarrow> (case pick_before db (jb_level (rj_job deep)) of
        None \<Rightarrow> (Ok sc, db)
      | Some job \<Rightarrow> sched_start ex (Rewrite job) (sc\<lparr>sc_active := None, sc_suspended := deep # sc_suspended sc\<rparr>) db))"

definition sched_schedule :: "codecs \<Rightarrow> scheduler \<Rightarrow> 'm db \<Rightarrow> (bool \<times> scheduler) res \<times> 'm db" where
  "sched_schedule ex sc db = (case sc_suspended sc of
     [] \<Rightarrow> (case pick db (sc_force sc) of
         (None, db) \<Rightarrow> (Ok (False, sc), db)
       | (Some work, db) \<Rightarrow> sbind (sched_start ex work sc db) (\<lambda>sc db. (Ok (True, sc), db)))
   | deep # rest \<Rightarrow> (case pick_before db (jb_level (rj_job deep)) of
         Some job \<Rightarrow> sbind (sched_start ex (Rewrite job) sc db) (\<lambda>sc db. (Ok (True, sc), db))
       | None \<Rightarrow> (Ok (True, sc\<lparr>sc_active := Some deep, sc_suspended := rest\<rparr>), db)))"

definition sched_step :: "codecs \<Rightarrow> scheduler \<Rightarrow> 'm db \<Rightarrow> ((bool \<times> scheduler) res \<times> 'm db) option" where
  "sched_step ex sc db =
     (case sched_preempt ex sc db of
        (Inl e, db) \<Rightarrow> Some (Err e, db)
      | (Inr sc, db) \<Rightarrow>
          (case (if sc_active sc = None then sched_schedule ex sc db else (Ok (True, sc), db)) of
             (Inl e, db) \<Rightarrow> Some (Err e, db)
           | (Inr (False, sc), db) \<Rightarrow> Some (Ok (False, sc), db)
           | (Inr (True, sc), db) \<Rightarrow>
               (case sc_active sc of
                  None \<Rightarrow> Some (Ok (True, sc), db)
                | Some active \<Rightarrow>
                    (case run_slice ex active db of
                       None \<Rightarrow> None
                     | Some (Inl e, db) \<Rightarrow> Some (Err e, db)
                     | Some (Inr (finished, j), db) \<Rightarrow>
                         Some (Ok (True, sc\<lparr>sc_active := if finished then None else Some j\<rparr>), db)))))"

text \<open>Step until nothing is runnable or the store shuts down.\<close>

partial_function (option) sched_run :: "codecs \<Rightarrow> scheduler \<Rightarrow> bool \<Rightarrow> 'm db \<Rightarrow> (bool res \<times> 'm db) option" where
  "sched_run ex sc did_work db =
     (case sched_step ex sc db of
        None \<Rightarrow> None
      | Some (Inl e, db) \<Rightarrow> Some (Err e, db)
      | Some (Inr (worked, sc), db) \<Rightarrow>
          if \<not> worked then Some (Ok did_work, db)
          else if db_shutdown db then Some (Ok True, db)
          else sched_run ex sc True db)"

definition compact_until_quiet :: "codecs \<Rightarrow> 'm db \<Rightarrow> (unit res \<times> 'm db) option" where
  "compact_until_quiet ex db =
     (case check_bg_error db of
        Inl e \<Rightarrow> Some (Err e, db)
      | Inr _ \<Rightarrow> (case sched_run ex (scheduler_new True) False db of
          None \<Rightarrow> None
        | Some (r, db) \<Rightarrow> Some (rbind r (\<lambda>_. Ok ()), db)))"

section \<open>Retired value logs\<close>

definition retired_ready :: "seqno \<Rightarrow> seqno \<Rightarrow> retired_vlog \<Rightarrow> bool" where
  "retired_ready wm flushed r \<longleftrightarrow> rv_retired_at r < wm \<and> rv_retired_at r \<le> flushed"

definition process_retired :: "(bytes \<Rightarrow> u32) \<Rightarrow> 'm db \<Rightarrow> bool res \<times> 'm db" where
  "process_retired crc db =
     (let flushed = md_last_flushed_seqno (ms_data (db_manifest db));
          is_ready = retired_ready (db_watermark db) flushed;
          ready = filter is_ready (db_retired db);
          db = db\<lparr>db_retired := filter (\<lambda>r. \<not> is_ready r) (db_retired db)\<rparr>
      in if ready = [] then (Ok False, db)
         else let data = ms_data (db_manifest db);
                  data = data\<lparr>md_vlog_retired := filter (\<lambda>(i, _). i \<notin> set (map rv_id ready)) (md_vlog_retired data)\<rparr>
              in sbind (commit_manifest crc data db) (\<lambda>_ db.
                   let v = version_clone_shape (db_version db)
                   in (Ok True, db\<lparr>db_version := v\<lparr>vs_vlogs := filter (\<lambda>(i, _). i \<notin> set (map rv_id ready)) (vs_vlogs v)\<rparr>\<rparr>)))"

end
