(* ===== verification/CompactGc.thy ===== *)
theory CompactGc
  imports Compact FlushProofs
begin

text \<open>
  What a compaction may drop. At and above the watermark a lookup in the output finds what it
  finds in the inputs, except for a deletion of a key that nothing behind the output holds; the
  loop of a job keeps this of what it has merged so far.
\<close>

section \<open>Kept and dropped versions\<close>

definition gc_ok :: "seqno \<Rightarrow> (bytes \<Rightarrow> bool) \<Rightarrow> entry list \<Rightarrow> entry list \<Rightarrow> bool" where
  "gc_ok w gone es out \<longleftrightarrow> subseq out es \<and> (\<forall>k s. w \<le> s \<longrightarrow> lookup_at out k s = lookup_at es k s
     \<or> lookup_at out k s = None \<and> (\<exists>d. lookup_at es k s = Some d \<and> ikey_kind (fst d) = Ok Delete
         \<and> ikey_seqno (fst d) \<le> w \<and> gone k))"

definition below_w :: "seqno \<Rightarrow> entry list \<Rightarrow> bytes \<Rightarrow> bool" where
  "below_w w es k \<longleftrightarrow> (\<exists>x \<in> set es. ukey_of x = k \<and> ikey_seqno (fst x) \<le> w)"

lemma gc_ok_Nil [simp]: "gc_ok w gone [] []"
  by (simp add: gc_ok_def)

lemma lookup_snoc: "lookup_at (es @ [e]) k s =
    (case lookup_at es k s of Some d \<Rightarrow> Some d | None \<Rightarrow> if is_version k s e then Some e else None)"
  by (simp add: lookup_at_append lookup_at_Cons split: option.split)

text \<open>An earlier entry of the same key has a larger seqno.\<close>

lemma sorted_seq:
  assumes "entries_sorted (es @ [e])" and "x \<in> set es" and "ukey_of x = ukey_of e"
  shows "ikey_seqno (fst e) \<le> ikey_seqno (fst x)"
  using assms by (auto simp: entries_sorted_append less_vkey_def vkey_of_def less_imp_le)

lemma gc_keep:
  assumes g: "gc_ok w gone es out" and srt: "entries_sorted (es @ [e])"
    and k: "w < ikey_seqno (fst e) \<or> \<not> below_w w es (ukey_of e)"
  shows "gc_ok w gone (es @ [e]) (out @ [e])"
  unfolding gc_ok_def
proof (intro conjI allI impI)
  show "subseq (out @ [e]) (es @ [e])" using g by (simp add: gc_ok_def)
  fix u s assume w: "w \<le> s"
  note gs = g [unfolded gc_ok_def, THEN conjunct2, rule_format, OF w, of u]
  show "lookup_at (out @ [e]) u s = lookup_at (es @ [e]) u s
     \<or> lookup_at (out @ [e]) u s = None \<and> (\<exists>d. lookup_at (es @ [e]) u s = Some d \<and> ikey_kind (fst d) = Ok Delete
         \<and> ikey_seqno (fst d) \<le> w \<and> gone u)"
  proof (cases "lookup_at out u s = lookup_at es u s")
    case False
    then obtain d where d: "lookup_at out u s = None" "lookup_at es u s = Some d" "ikey_kind (fst d) = Ok Delete"
      "ikey_seqno (fst d) \<le> w" "gone u" using gs by auto
    have de: "d \<in> set es" "ukey_of d = u" using lookup_at_SomeD [OF d(2)] by (simp_all add: is_version_def)
    then have "below_w w es u" using d(4) by (auto simp: below_w_def)
    then have "u \<noteq> ukey_of e"
      using k sorted_seq [OF srt de(1)] d(4) de(2) by fastforce
    then have "\<not> is_version u s e" by (auto simp: is_version_def)
    then show ?thesis using d by (simp add: lookup_snoc)
  qed (simp add: lookup_snoc)
qed

lemma gc_drop_tomb:
  assumes g: "gc_ok w gone es out" and e: "ikey_kind (fst e) = Ok Delete" "ikey_seqno (fst e) \<le> w" "gone (ukey_of e)"
  shows "gc_ok w gone (es @ [e]) out"
  unfolding gc_ok_def
proof (intro conjI allI impI)
  show "subseq out (es @ [e])" using g by (simp add: gc_ok_def subseq_rev_drop_many)
  fix u s assume w: "w \<le> s"
  note gs = g [unfolded gc_ok_def, THEN conjunct2, rule_format, OF w, of u]
  show "lookup_at out u s = lookup_at (es @ [e]) u s
     \<or> lookup_at out u s = None \<and> (\<exists>d. lookup_at (es @ [e]) u s = Some d \<and> ikey_kind (fst d) = Ok Delete
         \<and> ikey_seqno (fst d) \<le> w \<and> gone u)"
    using gs e by (cases e; cases "lookup_at es u s") (auto simp: lookup_snoc is_version_def)
qed

lemma gc_drop_shadowed:
  assumes g: "gc_ok w gone es out" and b: "below_w w es (ukey_of e)"
  shows "gc_ok w gone (es @ [e]) out"
  unfolding gc_ok_def
proof (intro conjI allI impI)
  show "subseq out (es @ [e])" using g by (simp add: gc_ok_def subseq_rev_drop_many)
  fix u s assume w: "w \<le> s"
  have "lookup_at (es @ [e]) u s = lookup_at es u s"
  proof (cases "lookup_at es u s")
    case None
    have "u \<noteq> ukey_of e"
    proof
      assume "u = ukey_of e"
      then obtain x where "x \<in> set es" "ukey_of x = u" "ikey_seqno (fst x) \<le> w" using b by (auto simp: below_w_def)
      then show False using None w by (auto simp: lookup_at_None_iff is_version_def intro: order_trans)
    qed
    then show ?thesis using None by (simp add: lookup_snoc is_version_def)
  qed (simp add: lookup_snoc)
  then show "lookup_at out u s = lookup_at (es @ [e]) u s
     \<or> lookup_at out u s = None \<and> (\<exists>d. lookup_at (es @ [e]) u s = Some d \<and> ikey_kind (fst d) = Ok Delete
         \<and> ikey_seqno (fst d) \<le> w \<and> gone u)"
    using g [unfolded gc_ok_def, THEN conjunct2, rule_format, OF w, of u] by simp
qed

section \<open>The decision\<close>

definition gone_behind :: "codecs \<Rightarrow> job \<Rightarrow> bytes \<Rightarrow> bool" where
  "gone_behind ex job k \<longleftrightarrow> (\<forall>r \<in> set (jb_older job). \<forall>e \<in> set (run_entries ex r). ukey_of e \<noteq> k)"

lemma any_may_contain_sound:
  "list_all (run_sound ex P) rs \<Longrightarrow> cache_holds P c \<Longrightarrow> \<exists>m c'. any_may_contain ex rs u c = (Ok m, c') \<and> cache_holds P c' \<and>
     (\<not> m \<longrightarrow> (\<forall>r \<in> set rs. \<forall>e \<in> set (run_entries ex r). ukey_of e \<noteq> u))"
proof (induction rs arbitrary: c)
  case (Cons r rs)
  then have r: "run_sound ex P r" by simp
  obtain m c1 where m: "run_may_contain ex r u c = (Ok m, c1)" "cache_holds P c1"
    "\<not> m \<longrightarrow> (\<forall>s. lookup_at (run_entries ex r) u s = None)" using run_may_contain_sound [OF r Cons.prems(2)] by blast
  have no: "\<forall>e \<in> set (run_entries ex r). ukey_of e \<noteq> u" if "\<not> m"
    using m(3) that by (auto simp: lookup_at_None_iff is_version_def)
  show ?case
  proof (cases m)
    case True
    then show ?thesis using m(1,2) by (intro exI [of _ True] exI [of _ c1]) (simp add: cbind_def cres_def)
  next
    case False
    then show ?thesis using Cons.IH [OF _ m(2)] Cons.prems(1) m(1) no by (auto simp: cbind_def)
  qed
qed (simp add: cres_def exI [of _ False])

text \<open>What the job remembers of the entries \<open>es\<close> it has merged.\<close>

definition key_state :: "running_job \<Rightarrow> entry list \<Rightarrow> bool" where
  "key_state j es \<longleftrightarrow> (rj_have_key j \<longleftrightarrow> es \<noteq> []) \<and> (es \<noteq> [] \<longrightarrow> rj_cur_ukey j = ukey_of (last es)
     \<and> (rj_kept_le_w j \<longleftrightarrow> below_w (rj_watermark j) es (ukey_of (last es))))"

lemma enter_key_state:
  assumes "key_state j es" and srt: "entries_sorted (es @ [e])"
  defines "j' \<equiv> enter_key (fst e) j"
  shows "rj_have_key j'" and "rj_cur_ukey j' = ukey_of e" and "rj_kept_le_w j' \<longleftrightarrow> below_w (rj_watermark j) es (ukey_of e)"
    and "rj_watermark j' = rj_watermark j" and "rj_job j' = rj_job j" and "rj_writer j' = rj_writer j"
    and "rj_merge j' = rj_merge j" and "rj_run_id j' = rj_run_id j"
proof -
  have new: "\<not> below_w w es (ukey_of e)" if "es = [] \<or> ukey_of e \<noteq> ukey_of (last es)" for w
  proof
    assume "below_w w es (ukey_of e)"
    then obtain x where x: "x \<in> set es" "ukey_of x = ukey_of e" by (auto simp: below_w_def)
    then have es: "es \<noteq> []" by auto
    have s: "entries_sorted es" using srt by (simp add: entries_sorted_append)
    have "ukey_of x \<le> ukey_of (last es)" by (rule sorted_last_ukey [OF s x(1)])
    moreover have "ukey_of (last es) \<le> ukey_of e"
      using srt last_in_set [OF es] by (auto simp: entries_sorted_append less_vkey_def vkey_of_def less_imp_le)
    ultimately show False using x(2) that es by simp
  qed
  show "rj_have_key j'" "rj_cur_ukey j' = ukey_of e" "rj_kept_le_w j' \<longleftrightarrow> below_w (rj_watermark j) es (ukey_of e)"
    "rj_watermark j' = rj_watermark j" "rj_job j' = rj_job j" "rj_writer j' = rj_writer j" "rj_merge j' = rj_merge j"
    "rj_run_id j' = rj_run_id j"
    using assms(1) new by (auto simp: j'_def enter_key_def new_user_key_def key_state_def)
qed

lemma gc_decide_spec:
  assumes ks: "key_state j es" and srt: "entries_sorted (es @ [e])" and g: "gc_ok (rj_watermark j) (gone_behind ex (rj_job j)) es out"
    and o: "list_all (run_sound ex P) (jb_older (rj_job j))" and c: "cache_holds P c"
  shows "\<exists>r c'. gc_decide ex (fst e) j c = (r, c') \<and> cache_holds P c' \<and>
    (\<forall>keep ptr j'. r = Ok ((keep, ptr), j') \<longrightarrow> key_state j' (es @ [e])
      \<and> gc_ok (rj_watermark j) (gone_behind ex (rj_job j)) (es @ [e]) (if keep then out @ [e] else out)
      \<and> rj_watermark j' = rj_watermark j \<and> rj_job j' = rj_job j \<and> rj_writer j' = rj_writer j \<and> rj_merge j' = rj_merge j
      \<and> rj_run_id j' = rj_run_id j)"
proof (cases "ikey_kind (fst e)")
  case (Inl x)
  then have "gc_decide ex (fst e) j c = (Err x, c)" by (simp add: gc_decide_def cbind_def cres_def Let_def)
  then show ?thesis using c by simp
next
  case (Inr kind)
  let ?j = "enter_key (fst e) j" and ?w = "rj_watermark j" and ?gone = "gone_behind ex (rj_job j)"
  note ek = enter_key_state [OF ks srt]
  have snoc: "below_w ?w (es @ [e]) (ukey_of e) \<longleftrightarrow> below_w ?w es (ukey_of e) \<or> ikey_seqno (fst e) \<le> ?w"
    by (auto simp: below_w_def)
  consider (visible) "?w < ikey_seqno (fst e)" | (first) "ikey_seqno (fst e) \<le> ?w" "\<not> below_w ?w es (ukey_of e)"
    | (rest) "ikey_seqno (fst e) \<le> ?w" "below_w ?w es (ukey_of e)" by fastforce
  then show ?thesis
  proof cases
    case visible
    then have "gc_decide ex (fst e) j c = (Ok ((True, False), ?j), c)"
      using Inr ek(4) by (simp add: gc_decide_def cbind_def cres_def)
    moreover have "key_state ?j (es @ [e])" using ek snoc visible by (auto simp: key_state_def)
    moreover have "gc_ok ?w ?gone (es @ [e]) (out @ [e])" using gc_keep [OF g srt] visible by blast
    ultimately show ?thesis using ek c by simp
  next
    case first
    let ?j1 = "?j\<lparr>rj_kept_le_w := True\<rparr>"
    obtain m c' where m: "older_may_contain ex (rj_job j) (ukey_of e) c = (Ok m, c')" "cache_holds P c'"
      "\<not> m \<longrightarrow> ?gone (ukey_of e)"
      using any_may_contain_sound [OF o c, of "ukey_of e"] by (auto simp: older_may_contain_def gone_behind_def)
    have "gc_decide ex (fst e) j c = (Ok ((if kind = Delete \<and> \<not> m then (False, False) else (True, False)), ?j1), c')"
      using first Inr ek m(1) by (simp add: gc_decide_def cbind_def cres_def Let_def not_less [symmetric])
    moreover have "key_state ?j1 (es @ [e])" using ek snoc first by (simp add: key_state_def)
    moreover have "gc_ok ?w ?gone (es @ [e]) (if kind = Delete \<and> \<not> m then out else out @ [e])"
      using gc_drop_tomb [OF g] gc_keep [OF g srt] m(3) Inr first by auto
    ultimately show ?thesis using ek m(2) by (auto split: if_splits)
  next
    case rest
    then have "gc_decide ex (fst e) j c = (Ok ((False, kind = Put), ?j), c)"
      using Inr ek by (simp add: gc_decide_def cbind_def cres_def Let_def not_less [symmetric])
    moreover have "key_state ?j (es @ [e])" using ek snoc rest by (simp add: key_state_def)
    moreover have "gc_ok ?w ?gone (es @ [e]) out" using gc_drop_shadowed [OF g rest(2)] .
    ultimately show ?thesis using ek c by simp
  qed
qed

section \<open>A job in flight\<close>

text \<open>What a job may change of the store while it runs.\<close>

definition job_frame :: "(cache_key \<Rightarrow> bytes \<Rightarrow> bool) \<Rightarrow> 'm db \<Rightarrow> 'm db \<Rightarrow> bool" where
  "job_frame P db db' \<longleftrightarrow> (\<exists>n xs c. db' = db\<lparr>db_next_file_id := n, db_created := xs, db_cache := c\<rparr>
     \<and> set xs \<subseteq> set (db_created db) \<and> (cache_holds P (db_cache db) \<longrightarrow> cache_holds P c))"

lemma job_frameI:
  "db' = db\<lparr>db_next_file_id := n, db_created := xs, db_cache := c\<rparr> \<Longrightarrow> set xs \<subseteq> set (db_created db) \<Longrightarrow>
   (cache_holds P (db_cache db) \<Longrightarrow> cache_holds P c) \<Longrightarrow> job_frame P db db'"
  unfolding job_frame_def by (intro exI [of _ n] exI [of _ xs] exI [of _ c]) blast

lemma job_frame_refl [simp]: "job_frame P db db"
  by (rule job_frameI [where n = "db_next_file_id db" and xs = "db_created db" and c = "db_cache db"]) simp_all

lemma job_frame_trans:
  assumes "job_frame P a b" and "job_frame P b d"
  shows "job_frame P a d"
proof -
  obtain n xs c where 1: "b = a\<lparr>db_next_file_id := n, db_created := xs, db_cache := c\<rparr>" "set xs \<subseteq> set (db_created a)"
    "cache_holds P (db_cache a) \<longrightarrow> cache_holds P c" using assms(1) by (auto simp: job_frame_def)
  obtain n' xs' c' where 2: "d = b\<lparr>db_next_file_id := n', db_created := xs', db_cache := c'\<rparr>" "set xs' \<subseteq> set (db_created b)"
    "cache_holds P (db_cache b) \<longrightarrow> cache_holds P c'" using assms(2) by (auto simp: job_frame_def)
  show ?thesis by (rule job_frameI [where n = n' and xs = xs' and c = c']) (use 1 2 in auto)
qed

lemma job_frame_fields:
  assumes "job_frame P db db'"
  shows "db_opts db' = db_opts db" "db_mem db' = db_mem db" "db_imms db' = db_imms db" "db_version db' = db_version db"
    "db_wal db' = db_wal db" "db_old_wals db' = db_old_wals db" "db_visible db' = db_visible db" "db_vlog db' = db_vlog db"
    "db_snapshots db' = db_snapshots db" "db_manifest db' = db_manifest db" "db_bg_error db' = db_bg_error db"
    "set (db_created db') \<subseteq> set (db_created db)" "creates_fresh db \<Longrightarrow> creates_fresh db'"
    "cache_holds P (db_cache db) \<Longrightarrow> cache_holds P (db_cache db')"
  using assms by (auto simp: job_frame_def creates_fresh_def)

lemma writer_job_frame: "writer_frame db db' \<Longrightarrow> job_frame P db db'"
  unfolding writer_frame_def
proof (elim exE conjE)
  fix n xs assume "db' = db\<lparr>db_next_file_id := n, db_created := xs\<rparr>" "set xs \<subseteq> set (db_created db)"
  then show "job_frame P db db'" by (intro job_frameI [where n = n and xs = xs and c = "db_cache db"]) simp_all
qed

text \<open>A builder remembers the last user key.\<close>

lemma built_last_ukey:
  assumes ok: "lz4_ok ex" and kinds: "list_all (\<lambda>e. \<exists>k. ikey_kind (fst e) = Ok k) cur" and ne: "cur \<noteq> []" and b: "built ex opts cur b"
  shows "tb_last_ukey b = ukey_of (last cur)"
proof -
  obtain f0 where f: "fresh_file f0" "foldM (\<lambda>b e. tb_add ex (fst e) (snd e) b)
     (table_builder_new f0 (op_block_size opts) (op_bloom_bits_per_key opts) (op_compression opts)) cur = Ok b"
    using b by (auto simp: built_def)
  let ?b0 = "table_builder_new f0 (op_block_size opts) (op_bloom_bits_per_key opts) (op_compression opts)"
  have s0: "tb_state ex [] [] [] ?b0"
    using f(1) by (simp add: tb_state_def table_builder_new_def block_add_all_def refs_in_def fresh_file_def)
  have sm0: "tb_summary (op_bloom_bits_per_key opts) (concat [] @ []) ?b0" by (simp add: tb_summary_def table_builder_new_def)
  have "tb_summary (op_bloom_bits_per_key opts) cur b"
    using tb_add_all_state [OF ok kinds s0 sm0] f(2) by auto
  then show ?thesis using ne by (simp add: tb_summary_def tb_last_ukey_def)
qed

definition merge_good :: "codecs \<Rightarrow> (cache_key \<Rightarrow> bytes \<Rightarrow> bool) \<Rightarrow> run_iter merge_iter \<Rightarrow> entry list \<Rightarrow> bool" where
  "merge_good ex P m fs \<longleftrightarrow> rif.merge_ok ex P False m \<and> rif.merge_pend ex False m = fs"

text \<open>The job has merged \<open>es\<close>, kept \<open>out\<close> of it, and has \<open>fs\<close> ahead.\<close>

definition job_at ::
    "codecs \<Rightarrow> (cache_key \<Rightarrow> bytes \<Rightarrow> bool) \<Rightarrow> options \<Rightarrow> running_job \<Rightarrow> entry list \<Rightarrow> entry list \<Rightarrow> entry list \<Rightarrow> bool" where
  "job_at ex P opts j es out fs \<longleftrightarrow> merge_good ex P (rj_merge j) fs \<and> key_state j es
     \<and> gc_ok (rj_watermark j) (gone_behind ex (rj_job j)) es out
     \<and> writer_holds ex opts out (rj_writer j) \<and> (out \<noteq> [] \<longrightarrow> snd (rj_writer j) \<noteq> None)
     \<and> writes_ok ex opts (es @ fs) \<and> list_all (\<lambda>e. \<exists>k. ikey_kind (fst e) = Ok k) (es @ fs)
     \<and> list_all (run_sound ex P) (jb_older (rj_job j))"

definition same_job :: "running_job \<Rightarrow> running_job \<Rightarrow> bool" where
  "same_job j j' \<longleftrightarrow> rj_watermark j' = rj_watermark j \<and> rj_job j' = rj_job j \<and> rj_run_id j' = rj_run_id j"

lemma same_job_trans: "same_job a b \<Longrightarrow> same_job b c \<Longrightarrow> same_job a c"
  by (simp add: same_job_def)

lemma merge_good_step:
  assumes "merge_good ex P m (e # fs)"
  shows "merge_valid m" "merge_ikey (run_iter_ops ex) m = fst e" "merge_value (run_iter_ops ex) m = snd e"
    "\<exists>m'. merge_next (run_iter_ops ex) m = Inr m' \<and> merge_good ex P m' fs"
proof -
  have m: "rif.merge_ok ex P False m" "rif.merge_pend ex False m = e # fs" using assms by (simp_all add: merge_good_def)
  show "merge_valid m" using rif.merge_valid_iff [OF m(1)] m(2) by simp
  show "merge_ikey (run_iter_ops ex) m = fst e" "merge_value (run_iter_ops ex) m = snd e"
    using rif.merge_key_value [OF m] by (metis fst_conv, metis snd_conv)
  obtain m' where "merge_advance (run_iter_ops ex) (it_next (run_iter_ops ex)) m = Inr m'"
    "rif.merge_ok ex P False m'" "rif.merge_pend ex False m' = fs"
    using rif.merge_step [OF m] by (rule movesE)
  then show "\<exists>m'. merge_next (run_iter_ops ex) m = Inr m' \<and> merge_good ex P m' fs"
    by (simp add: merge_next_def merge_good_def)
qed

lemma merge_good_end: "merge_good ex P m [] \<Longrightarrow> \<not> merge_valid m"
  using rif.merge_valid_iff by (auto simp: merge_good_def)

lemma gc_apply_spec:
  assumes w: "writer_holds ex (db_opts db) out (rj_writer j)" "out \<noteq> [] \<longrightarrow> snd (rj_writer j) \<noteq> None" and c: "creates_fresh db"
    and ok: "writes_ok ex (db_opts db) (out @ [e])" and kinds: "list_all (\<lambda>e. \<exists>k. ikey_kind (fst e) = Ok k) out"
  shows "\<exists>r db'. gc_apply ex (fst e) (snd e) keep ptr j db = (r, db') \<and> job_frame P db db' \<and>
    (\<forall>j'. r = Ok j' \<longrightarrow> same_job j j' \<and> rj_merge j' = rj_merge j \<and> (\<forall>es. key_state j es \<longrightarrow> key_state j' es)
      \<and> writer_holds ex (db_opts db) (if keep then out @ [e] else out) (rj_writer j')
      \<and> ((if keep then out @ [e] else out) \<noteq> [] \<longrightarrow> snd (rj_writer j') \<noteq> None))"
proof (cases keep)
  case True
  have full: "job_full (db_opts db) (fst e) b \<longleftrightarrow> ukey_of e \<noteq> ukey_of (last out) \<and> op_target_file_size (db_opts db) \<le> tb_estimated_size b"
    if "out \<noteq> []" "snd (rj_writer j) = Some (i, b)" for i b
  proof -
    note t = that
    obtain frags cur where f: "cur \<noteq> []" "built ex (db_opts db) cur b" "concat frags @ cur = out"
      using w(1) unfolding writer_holds_def t(2) by auto
    have "list_all (\<lambda>e. \<exists>k. ikey_kind (fst e) = Ok k) cur" using kinds f(3) by auto
    moreover have "lz4_ok ex" using ok by (simp add: writes_ok_def)
    ultimately have "tb_last_ukey b = ukey_of (last out)" using built_last_ukey [OF _ _ f(1,2)] f(1,3) by auto
    then show ?thesis by (auto simp: job_full_def)
  qed
  have ok': "writes_ok ex (db_opts db) (out @ [e] @ [])" using ok by simp
  obtain w' db' where "writer_entry ex (job_full (db_opts db) (fst e)) (fst e) (snd e) (rj_writer j) db = (Ok w', db')"
    "writer_holds ex (db_opts db) (out @ [e]) w'" "snd w' \<noteq> None" "writer_frame db db'"
    using writer_entry_spec [OF w(1) c ok', of "job_full (db_opts db) (fst e)"] full w(2) by blast
  then show ?thesis using True writer_job_frame by (simp add: gc_apply_def same_job_def key_state_def)
next
  case False
  then show ?thesis using w
    by (cases "count_discard (snd e) (rj_discard j)") (simp_all add: gc_apply_def same_job_def key_state_def)
qed

lemma slice_entry_spec:
  assumes j: "job_at ex P (db_opts db) j es out (e # fs)" and c: "creates_fresh db" and h: "cache_holds P (db_cache db)"
  shows "\<exists>r db'. slice_entry ex j db = (r, db') \<and> job_frame P db db' \<and>
    (\<forall>j'. r = Ok j' \<longrightarrow> same_job j j' \<and> (\<exists>out'. job_at ex P (db_opts db) j' (es @ [e]) out' fs))"
proof -
  let ?o = "db_opts db"
  note mg = merge_good_step [of ex P "rj_merge j" e fs]
  have jm: "merge_good ex P (rj_merge j) (e # fs)" and ks: "key_state j es"
    and g: "gc_ok (rj_watermark j) (gone_behind ex (rj_job j)) es out"
    and w: "writer_holds ex ?o out (rj_writer j)" "out \<noteq> [] \<longrightarrow> snd (rj_writer j) \<noteq> None"
    and ok: "writes_ok ex ?o (es @ e # fs)" and kinds: "list_all (\<lambda>e. \<exists>k. ikey_kind (fst e) = Ok k) (es @ e # fs)"
    and old: "list_all (run_sound ex P) (jb_older (rj_job j))"
    using j by (simp_all add: job_at_def)
  have "subseq (es @ [e]) (es @ e # fs)" by (simp add: subseq_append')
  then have oke: "writes_ok ex ?o (es @ [e])" by (rule writes_ok_subseq [OF ok])
  then have srt: "entries_sorted (es @ [e])" by (simp add: writes_ok_def)
  have sub: "subseq out es" using g by (simp add: gc_ok_def)
  have oko: "writes_ok ex ?o (out @ [e])" by (rule writes_ok_subseq [OF oke]) (simp add: sub)
  have kout: "list_all (\<lambda>e. \<exists>k. ikey_kind (fst e) = Ok k) out"
    using kinds sub by (auto simp: list_all_iff dest: list_emb_set)
  obtain r c1 where d: "gc_decide ex (fst e) j (db_cache db) = (r, c1)" "cache_holds P c1"
    "\<And>keep ptr j'. r = Ok ((keep, ptr), j') \<Longrightarrow> key_state j' (es @ [e])
      \<and> gc_ok (rj_watermark j) (gone_behind ex (rj_job j)) (es @ [e]) (if keep then out @ [e] else out)
      \<and> rj_watermark j' = rj_watermark j \<and> rj_job j' = rj_job j \<and> rj_writer j' = rj_writer j \<and> rj_merge j' = rj_merge j
      \<and> rj_run_id j' = rj_run_id j"
    using gc_decide_spec [OF ks srt g old h] by blast
  let ?db = "db\<lparr>db_cache := c1\<rparr>"
  have f1: "job_frame P db ?db"
    by (rule job_frameI [where n = "db_next_file_id db" and xs = "db_created db" and c = c1]) (use d(2) in simp_all)
  show ?thesis
  proof (cases r)
    case (Inl x)
    then show ?thesis using mg(2,3) [OF jm] d(1) f1 by (simp add: slice_entry_def)
  next
    case (Inr y)
    then obtain keep ptr j1 where y: "r = Ok ((keep, ptr), j1)" by (cases y) auto
    note d3 = d(3) [OF y]
    have w1: "writer_holds ex (db_opts ?db) out (rj_writer j1)" "out \<noteq> [] \<longrightarrow> snd (rj_writer j1) \<noteq> None"
      "creates_fresh ?db" "writes_ok ex (db_opts ?db) (out @ [e])"
      using w c oko d3 by (simp_all add: creates_fresh_def)
    obtain r2 db2 where a: "gc_apply ex (fst e) (snd e) keep ptr j1 ?db = (r2, db2)" "job_frame P ?db db2"
      "\<And>j'. r2 = Ok j' \<Longrightarrow> same_job j1 j' \<and> rj_merge j' = rj_merge j1 \<and> (\<forall>es. key_state j1 es \<longrightarrow> key_state j' es)
      \<and> writer_holds ex (db_opts ?db) (if keep then out @ [e] else out) (rj_writer j')
      \<and> ((if keep then out @ [e] else out) \<noteq> [] \<longrightarrow> snd (rj_writer j') \<noteq> None)"
      using gc_apply_spec [OF w1 kout] by blast
    have f2: "job_frame P db db2" by (rule job_frame_trans [OF f1 a(2)])
    obtain m' where m': "merge_next (run_iter_ops ex) (rj_merge j) = Inr m'" "merge_good ex P m' fs" using mg(4) [OF jm] by blast
    show ?thesis
    proof (cases r2)
      case (Inl x)
      then show ?thesis using mg(2,3) [OF jm] d(1) y a(1) f2 by (simp add: slice_entry_def)
    next
      case (Inr j2)
      note a3 = a(3) [OF Inr]
      let ?j = "j2\<lparr>rj_merge := m'\<rparr>" and ?out = "if keep then out @ [e] else out"
      have "slice_entry ex j db = (Ok ?j, db2)"
        using mg(2,3) [OF jm] d(1) y a(1) Inr a3 d3 m'(1) by (simp add: slice_entry_def)
      moreover have "job_at ex P ?o ?j (es @ [e]) ?out fs"
      proof -
        have "key_state j2 (es @ [e])" using a3 d3 by blast
        then have k: "key_state ?j (es @ [e])" by (simp add: key_state_def)
        have r: "rj_merge ?j = m'" "rj_watermark ?j = rj_watermark j" "rj_job ?j = rj_job j" "rj_writer ?j = rj_writer j2"
          using a3 d3 by (simp_all add: same_job_def)
        have w2: "writer_holds ex ?o ?out (rj_writer j2)" "?out \<noteq> [] \<longrightarrow> snd (rj_writer j2) \<noteq> None" using a3 by simp_all
        show ?thesis unfolding job_at_def r
          by (intro conjI) (use m'(2) k w2 d3 ok kinds old in simp_all)
      qed
      moreover have "same_job j ?j" using a3 d3 by (simp add: same_job_def)
      ultimately show ?thesis using f2 by blast
    qed
  qed
qed

text \<open>A slice always returns.\<close>

lemma slice_loop_spec:
  "job_at ex P (db_opts db) j es out fs \<Longrightarrow> creates_fresh db \<Longrightarrow> cache_holds P (db_cache db) \<Longrightarrow>
   \<exists>r db'. slice_loop ex budget processed j db = Some (r, db') \<and> job_frame P db db' \<and>
    (\<forall>b j'. r = Ok (b, j') \<longrightarrow> same_job j j' \<and> (\<exists>es' out' fs'. job_at ex P (db_opts db) j' es' out' fs' \<and> es' @ fs' = es @ fs
      \<and> (b \<longrightarrow> fs' = [])))"
proof (induction fs arbitrary: es out j db processed)
  case Nil
  then have "\<not> merge_valid (rj_merge j)" using merge_good_end by (auto simp: job_at_def)
  then have "slice_loop ex budget processed j db = Some (Ok (True, j), db)" by (subst slice_loop.simps) simp
  then show ?case using Nil by (auto simp: same_job_def)
next
  case (Cons e fs)
  let ?ops = "run_iter_ops ex" and ?m = "rj_merge j"
  have v: "merge_valid ?m" using Cons.prems(1) merge_good_step(1) [of ex P ?m e fs] by (simp add: job_at_def)
  show ?case
  proof (cases "budget \<le> processed \<and> new_user_key (merge_ikey ?ops ?m) j")
    case True
    then have "slice_loop ex budget processed j db = Some (Ok (False, j), db)" using v by (subst slice_loop.simps) simp
    then show ?thesis using Cons.prems(1) by (auto simp: same_job_def)
  next
    case False
    obtain r d where s: "slice_entry ex j db = (r, d)" "job_frame P db d"
      "\<And>j'. r = Ok j' \<Longrightarrow> same_job j j' \<and> (\<exists>out'. job_at ex P (db_opts db) j' (es @ [e]) out' fs)"
      using slice_entry_spec [OF Cons.prems] by blast
    show ?thesis
    proof (cases r)
      case (Inl x)
      then have "slice_loop ex budget processed j db = Some (Err x, d)" using v False s(1) by (subst slice_loop.simps) simp
      then show ?thesis using s(2) by simp
    next
      case (Inr j1)
      obtain out' where o: "same_job j j1" "job_at ex P (db_opts db) j1 (es @ [e]) out' fs" using s(3) [OF Inr] by blast
      note jf = job_frame_fields [OF s(2)]
      have "job_at ex P (db_opts d) j1 (es @ [e]) out' fs" using o(2) jf(1) by simp
      then obtain r2 d2 where ih: "slice_loop ex budget (saturating_add processed (entry_bytes (merge_ikey ?ops ?m) (merge_value ?ops ?m))) j1 d = Some (r2, d2)"
        "job_frame P d d2" "\<And>b j'. r2 = Ok (b, j') \<Longrightarrow> same_job j1 j' \<and> (\<exists>es' out' fs'. job_at ex P (db_opts d) j' es' out' fs'
          \<and> es' @ fs' = (es @ [e]) @ fs \<and> (b \<longrightarrow> fs' = []))"
        using Cons.IH [OF _ jf(13) [OF Cons.prems(2)] jf(14) [OF Cons.prems(3)]] by blast
      have "slice_loop ex budget processed j db = Some (r2, d2)" using v False s(1) Inr ih(1) by (subst slice_loop.simps) auto
      moreover have "same_job j j' \<and> (\<exists>es' out' fs'. job_at ex P (db_opts db) j' es' out' fs' \<and> es' @ fs' = es @ e # fs
          \<and> (b \<longrightarrow> fs' = []))" if "r2 = Ok (b, j')" for b j'
        using ih(3) [OF that] same_job_trans [OF o(1)] unfolding jf(1) by simp
      ultimately show ?thesis using job_frame_trans [OF s(2) ih(2)] by blast
    qed
  qed
qed

end
