(* ===== verification/CompactProofs.thy ===== *)
theory CompactProofs
  imports CompactGc Snapshots
begin

text \<open>
  Compaction keeps what readers see: the output of a job takes the place of its inputs in the
  layers of the store, and every reader at or above the horizon finds what it found before.
\<close>

section \<open>Layers replaced\<close>

definition covers :: "seqno \<Rightarrow> entry list list \<Rightarrow> entry list list \<Rightarrow> bool" where
  "covers s ess ess' \<longleftrightarrow> (\<forall>k. first_hit ess' k s = first_hit ess k s
     \<or> first_hit ess' k s = None \<and> (\<exists>d. first_hit ess k s = Some d \<and> ikey_kind (fst d) = Ok Delete))"

lemma covers_hold:
  assumes "covers s ess ess'" and "layers_hold V ess s m"
  shows "layers_hold V ess' s m"
  unfolding layers_hold_def
proof
  fix k
  have "hit_stands V k (first_hit ess k s) (m k)" using assms(2) by (simp add: layers_hold_def)
  then show "hit_stands V k (first_hit ess' k s) (m k)"
    using assms(1) [unfolded covers_def, rule_format, of k] by (auto simp: hit_stands_def)
qed

lemma covers_prefix: "covers s a b \<Longrightarrow> covers s (pre @ a) (pre @ b)"
  by (simp add: covers_def first_hit_append split: option.split)

text \<open>What a lookup in the output may miss.\<close>

definition outlives :: "(bytes \<Rightarrow> bool) \<Rightarrow> seqno \<Rightarrow> entry list \<Rightarrow> entry list \<Rightarrow> bool" where
  "outlives gone s es out \<longleftrightarrow> (\<forall>k. lookup_at out k s = lookup_at es k s
     \<or> lookup_at out k s = None \<and> (\<exists>d. lookup_at es k s = Some d \<and> ikey_kind (fst d) = Ok Delete \<and> gone k))"

lemma lookup_at_cong: "(\<And>e. e \<in> set es \<Longrightarrow> is_version k s e = is_version k t e) \<Longrightarrow> lookup_at es k s = lookup_at es k t"
  by (induction es) (auto simp: lookup_at_Cons)

text \<open>A reader at or above the watermark, or of the newest versions.\<close>

lemma gc_outlives:
  assumes g: "gc_ok w gone es out" and s: "w \<le> s \<or> (\<forall>e \<in> set es. ikey_seqno (fst e) \<le> s)"
  shows "outlives gone s es out"
proof -
  let ?t = "max s w"
  have sub: "set out \<subseteq> set es" using g by (auto simp: gc_ok_def dest: list_emb_set)
  have eq: "lookup_at xs k s = lookup_at xs k ?t" if "set xs \<subseteq> set es" for xs k
  proof (cases "w \<le> s")
    case False
    then have le: "ikey_seqno (fst e) \<le> s" if "e \<in> set xs" for e using s that \<open>set xs \<subseteq> set es\<close> by blast
    show ?thesis
      by (rule lookup_at_cong) (use le in \<open>auto simp: is_version_def intro: le_max_iff_disj [THEN iffD2]\<close>)
  qed (simp add: max.absorb1)
  show ?thesis unfolding outlives_def
  proof
    fix k
    have "w \<le> ?t" by simp
    from g [unfolded gc_ok_def, THEN conjunct2, rule_format, OF this, of k]
    show "lookup_at out k s = lookup_at es k s
      \<or> lookup_at out k s = None \<and> (\<exists>d. lookup_at es k s = Some d \<and> ikey_kind (fst d) = Ok Delete \<and> gone k)"
      unfolding eq [OF sub] eq [OF subset_refl] by blast
  qed
qed

lemma layered_append:
  "layered (xs @ ys) \<longleftrightarrow> layered xs \<and> layered ys \<and> (\<forall>x \<in> set xs. \<forall>y \<in> set ys. newer_layer x y)"
  by (auto simp: layered_def sorted_wrt_append)

lemma gc_sorted: "gc_ok w gone es out \<Longrightarrow> entries_sorted es \<Longrightarrow> entries_sorted out \<and> set out \<subseteq> set es"
  by (auto simp: gc_ok_def entries_sorted_def intro: sorted_wrt_subseq dest: list_emb_set)

text \<open>A merge of adjacent layers.\<close>

lemma replace_layers:
  assumes l: "layered (pre @ ins @ olders)" and g: "gc_ok w gone (merge_entries ins) out"
    and gone: "\<And>k e. gone k \<Longrightarrow> e \<in> set (concat olders) \<Longrightarrow> ukey_of e \<noteq> k"
  defines "mid \<equiv> (if out = [] then [] else [out])"
  shows "layered (pre @ mid @ olders)"
    and "w \<le> s \<or> (\<forall>e \<in> set (concat ins). ikey_seqno (fst e) \<le> s) \<Longrightarrow> covers s (pre @ ins @ olders) (pre @ mid @ olders)"
proof -
  have li: "layered ins" using l by (simp add: layered_append)
  have kd: "keys_distinct ins" by (rule layered_distinct [OF li])
  have so: "entries_sorted out" "set out \<subseteq> set (concat ins)"
    using gc_sorted [OF g merge_entries_sorted [OF kd]] by simp_all
  have nl: "newer_layer x out" if "\<forall>y \<in> set ins. newer_layer x y" for x
    using that so(2) by (fastforce simp: newer_layer_def)
  have nr: "newer_layer out y" if "\<forall>x \<in> set ins. newer_layer x y" for y
    using that so(2) by (fastforce simp: newer_layer_def)
  have x1: "\<forall>x \<in> set pre. newer_layer x out" and x2: "\<forall>y \<in> set olders. newer_layer out y"
    using l nl nr by (auto simp: layered_append)
  have lm: "layered mid" using so(1) by (simp add: mid_def layered_def)
  show "layered (pre @ mid @ olders)"
    using l lm x1 x2 unfolding layered_append by (simp add: mid_def)
  assume "w \<le> s \<or> (\<forall>e \<in> set (concat ins). ikey_seqno (fst e) \<le> s)"
  then have ol: "outlives gone s (merge_entries ins) out" using gc_outlives [OF g, of s] by simp
  have mid: "first_hit mid k s = lookup_at out k s" for k by (auto simp: mid_def split: option.split)
  have "covers s (ins @ olders) (mid @ olders)"
    unfolding covers_def
  proof
    fix k
    have i: "first_hit ins k s = lookup_at (merge_entries ins) k s" using first_hit_merge [OF li, of k s] by simp
    have gn: "first_hit olders k s = None" if "gone k"
      using gone [OF that] by (auto simp: first_hit_None is_version_def)
    from ol [unfolded outlives_def, rule_format, of k]
    show "first_hit (mid @ olders) k s = first_hit (ins @ olders) k s
      \<or> first_hit (mid @ olders) k s = None \<and> (\<exists>d. first_hit (ins @ olders) k s = Some d \<and> ikey_kind (fst d) = Ok Delete)"
      unfolding first_hit_append i mid using gn by (auto split: option.split)
  qed
  then show "covers s (pre @ ins @ olders) (pre @ mid @ olders)" by (rule covers_prefix)
qed

text \<open>A run merged into the middle of the bottom run.\<close>

lemma splice_layers:
  assumes l: "layered (pre @ [u, a @ b @ c])" and g: "gc_ok w gone (merge_entries [u, b]) out"
    and ab: "\<forall>x \<in> set a. \<forall>y \<in> set u \<union> set b. ukey_of x < ukey_of y"
    and bc: "\<forall>y \<in> set u \<union> set b. \<forall>z \<in> set c. ukey_of y < ukey_of z"
  defines "mid \<equiv> (if a @ out @ c = [] then [] else [a @ out @ c])"
  shows "layered (pre @ mid)"
    and "w \<le> s \<or> (\<forall>e \<in> set u \<union> set b. ikey_seqno (fst e) \<le> s) \<Longrightarrow> covers s (pre @ [u, a @ b @ c]) (pre @ mid)"
proof -
  have sabc: "entries_sorted (a @ b @ c)" and su: "entries_sorted u" and nub: "newer_layer u (a @ b @ c)"
    using layered_append [THEN iffD1, OF l] by (simp_all add: layered_def)
  have lub: "layered [u, b]" using sabc su nub by (auto simp: layered_def entries_sorted_append newer_layer_def)
  have so: "entries_sorted out" "set out \<subseteq> set u \<union> set b"
    using gc_sorted [OF g merge_entries_sorted [OF layered_distinct [OF lub]]] by auto
  have v: "vkey_of (fst x) < vkey_of (fst y)" if "ukey_of x < ukey_of y" for x y :: entry
    using that by (simp add: less_vkey_def vkey_of_def)
  have "\<forall>x \<in> set a. \<forall>y \<in> set out. vkey_of (fst x) < vkey_of (fst y)"
    and "\<forall>y \<in> set out. \<forall>z \<in> set c. vkey_of (fst y) < vkey_of (fst z)" using ab bc so(2) v by blast+
  then have smid: "entries_sorted (a @ out @ c)"
    using sabc so(1) by (simp add: entries_sorted_append ball_Un)
  have "newer_layer x (a @ out @ c)" if "x \<in> set pre" for x
  proof -
    have "newer_layer x u" "newer_layer x (a @ b @ c)" using layered_append [THEN iffD1, OF l] that by auto
    moreover have "set (a @ out @ c) \<subseteq> set u \<union> set (a @ b @ c)" using so(2) by auto
    ultimately show ?thesis unfolding newer_layer_def by blast
  qed
  moreover have "layered mid" using smid by (simp add: mid_def layered_def)
  ultimately show "layered (pre @ mid)" using l unfolding layered_append by (simp add: mid_def)
  assume "w \<le> s \<or> (\<forall>e \<in> set u \<union> set b. ikey_seqno (fst e) \<le> s)"
  then have ol: "outlives gone s (merge_entries [u, b]) out" using gc_outlives [OF g, of s] by simp
  have mid: "first_hit mid k s = lookup_at (a @ out @ c) k s" for k by (auto simp: mid_def split: option.split)
  have "covers s [u, a @ b @ c] mid"
    unfolding covers_def
  proof
    fix k
    have i: "lookup_at (merge_entries [u, b]) k s = first_hit [u, b] k s" using first_hit_merge [OF lub, of k s] by simp
    have none: "lookup_at xs k s = None" if "\<forall>x \<in> set xs. ukey_of x \<noteq> k" for xs
      using that by (auto simp: lookup_at_None_iff is_version_def)
    consider (in_a) "\<exists>x \<in> set a. ukey_of x = k" | (in_c) "\<exists>x \<in> set c. ukey_of x = k"
      | (neither) "\<forall>x \<in> set a. ukey_of x \<noteq> k" "\<forall>x \<in> set c. ukey_of x \<noteq> k" by blast
    then show "first_hit mid k s = first_hit [u, a @ b @ c] k s
      \<or> first_hit mid k s = None \<and> (\<exists>d. first_hit [u, a @ b @ c] k s = Some d \<and> ikey_kind (fst d) = Ok Delete)"
    proof cases
      case in_a
      then have "\<forall>y \<in> set u \<union> set b. ukey_of y \<noteq> k" using ab by (metis less_irrefl)
      then have "lookup_at u k s = None" "lookup_at b k s = None" "lookup_at out k s = None" using so(2) none by blast+
      then show ?thesis by (simp add: mid lookup_at_append split: option.split)
    next
      case in_c
      then have "\<forall>y \<in> set u \<union> set b. ukey_of y \<noteq> k" using bc by (metis less_irrefl)
      then have "lookup_at u k s = None" "lookup_at b k s = None" "lookup_at out k s = None" using so(2) none by blast+
      then show ?thesis by (simp add: mid lookup_at_append split: option.split)
    next
      case neither
      then have "lookup_at a k s = None" "lookup_at c k s = None" using none by blast+
      then show ?thesis using ol [unfolded outlives_def, rule_format, of k] unfolding i
        by (auto simp: mid lookup_at_append split: option.splits)
    qed
  qed
  then show "covers s (pre @ [u, a @ b @ c]) (pre @ mid)" by (rule covers_prefix)
qed

end
