(* ===== verification/CompactReads.thy ===== *)
theory CompactReads
  imports CompactProofs
begin

text \<open>
  The install of a job in the levels of a version, and what a slice of a job keeps: the levels
  change only at the end of the job, and then no reader at or above the job's watermark notices.
\<close>

section \<open>Tables in key order\<close>

definition tabs_below :: "table_handle list \<Rightarrow> table_handle list \<Rightarrow> bool" where
  "tabs_below as bs \<longleftrightarrow> (\<forall>a \<in> set as. \<forall>b \<in> set bs. stats_max_ukey (th_stats a) < stats_min_ukey (th_stats b))"

abbreviation tables_entries :: "codecs \<Rightarrow> table_handle list \<Rightarrow> entry list" where
  "tables_entries ex hs \<equiv> concat (tables_parts ex hs)"

lemma tables_sound_append:
  "tables_sound ex P (as @ bs) \<longleftrightarrow> tables_sound ex P as \<and> tables_sound ex P bs \<and> tabs_below as bs"
  by (auto simp: tables_sound_def tabs_below_def sorted_wrt_append)

lemma tables_entries_append [simp]: "tables_entries ex (as @ bs) = tables_entries ex as @ tables_entries ex bs"
  by (simp add: tables_parts_def)

lemma handle_ends:
  assumes "handle_sound ex P h"
  shows "\<exists>e \<in> set (table_entries ex (th_table h)). ukey_of e = stats_min_ukey (th_stats h)"
    and "\<exists>e \<in> set (table_entries ex (th_table h)). ukey_of e = stats_max_ukey (th_stats h)"
  using assms table_entries_ne [of ex "th_table h"]
  by (auto simp: handle_sound_def stats_min_ukey_def stats_max_ukey_def intro: bexI [OF _ hd_in_set] bexI [OF _ last_in_set])

lemma tabs_below_entries:
  assumes "tables_sound ex P as" and "tables_sound ex P bs"
  shows "tabs_below as bs \<longleftrightarrow> (\<forall>x \<in> set (tables_entries ex as). \<forall>y \<in> set (tables_entries ex bs). ukey_of x < ukey_of y)"
proof
  assume b: "tabs_below as bs"
  show "\<forall>x \<in> set (tables_entries ex as). \<forall>y \<in> set (tables_entries ex bs). ukey_of x < ukey_of y"
  proof (intro ballI)
    fix x y assume "x \<in> set (tables_entries ex as)" "y \<in> set (tables_entries ex bs)"
    then obtain g h where g: "g \<in> set as" "x \<in> set (table_entries ex (th_table g))"
      and h: "h \<in> set bs" "y \<in> set (table_entries ex (th_table h))" by (auto simp: tables_parts_def)
    have "handle_sound ex P g" "handle_sound ex P h" using assms g(1) h(1) by (auto simp: tables_sound_def list_all_iff)
    then have "ukey_of x \<le> stats_max_ukey (th_stats g)" "stats_min_ukey (th_stats h) \<le> ukey_of y"
      using handle_range g(2) h(2) by blast+
    then show "ukey_of x < ukey_of y" using b g(1) h(1) unfolding tabs_below_def by (meson le_less_trans less_le_trans)
  qed
next
  assume b: "\<forall>x \<in> set (tables_entries ex as). \<forall>y \<in> set (tables_entries ex bs). ukey_of x < ukey_of y"
  show "tabs_below as bs"
    unfolding tabs_below_def
  proof (intro ballI)
    fix g h assume g: "g \<in> set as" and h: "h \<in> set bs"
    then have "handle_sound ex P g" "handle_sound ex P h" using assms by (auto simp: tables_sound_def list_all_iff)
    then obtain x y where "x \<in> set (table_entries ex (th_table g))" "ukey_of x = stats_max_ukey (th_stats g)"
      "y \<in> set (table_entries ex (th_table h))" "ukey_of y = stats_min_ukey (th_stats h)" using handle_ends by meson
    then show "stats_max_ukey (th_stats g) < stats_min_ukey (th_stats h)"
      using b g h by (fastforce simp: tables_parts_def)
  qed
qed

section \<open>A job's place in the levels\<close>

definition runs_ok :: "'m db \<Rightarrow> bool" where
  "runs_ok db \<longleftrightarrow> distinct (map rn_id (runs_newest_first (db_version db)))
     \<and> (\<forall>r \<in> set (runs_newest_first (db_version db)). rn_id r < db_next_file_id db \<and> rn_tables r \<noteq> [])"

definition in_place :: "run list list \<Rightarrow> job \<Rightarrow> bool" where
  "in_place ls job \<longleftrightarrow> (case jb_kind job of
     Tier \<Rightarrow> (\<exists>xs ns t zs. ls = xs @ (ns @ jb_inputs job) # t # zs \<and> jb_level job = length xs
       \<and> jb_target job = Suc (length xs) \<and> jb_older job = t @ concat zs)
   | BottomSplice b left right n \<Rightarrow> (\<exists>xs ns u mid. ls = xs @ [ns @ [u, run_of b (left @ mid @ right)]] \<and> jb_level job = length xs
       \<and> jb_inputs job = [u, run_of b mid] \<and> jb_older job = [] \<and> tabs_below left (rn_tables u) \<and> tabs_below (rn_tables u) right))"

text \<open>The run that the job installs.\<close>

definition installed_id :: "job \<Rightarrow> u64 \<Rightarrow> u64" where
  "installed_id job run_id = (case jb_kind job of Tier \<Rightarrow> run_id | BottomSplice _ _ _ n \<Rightarrow> n)"

definition installed_tables :: "job \<Rightarrow> table_handle list \<Rightarrow> table_handle list" where
  "installed_tables job tables = (case jb_kind job of Tier \<Rightarrow> tables | BottomSplice _ left right _ \<Rightarrow> left @ tables @ right)"

definition output_of :: "u64 \<Rightarrow> table_handle list \<Rightarrow> run option" where
  "output_of i tables = (if tables = [] then None else Some (run_of i tables))"

lemma filter_ids:
  "distinct (map rn_id (as @ bs)) \<Longrightarrow> set is = rn_id ` set bs \<Longrightarrow> filter (\<lambda>r. rn_id r \<notin> set is) (as @ bs) = as"
  by (auto simp: filter_empty_conv intro!: filter_True)

lemma install_tier:
  assumes k: "jb_kind job = Tier" and ls: "ls = xs @ (ns @ jb_inputs job) # t # zs" "jb_level job = length xs" "jb_target job = Suc (length xs)"
    and d: "distinct (map rn_id (concat ls))"
  shows "install_levels rn_id run_of job (output_of i tables) ls = xs @ ns # (if tables = [] then t else run_of i tables # t) # zs"
proof -
  have "distinct (map rn_id (ns @ jb_inputs job))"
    using d unfolding ls(1) concat_append concat.simps map_append distinct_append by auto
  then have "filter (\<lambda>r. rn_id r \<notin> set (map rn_id (jb_inputs job))) (ns @ jb_inputs job) = ns" by (rule filter_ids) simp
  then have f: "ls[length xs := filter (\<lambda>r. rn_id r \<notin> set (map rn_id (jb_inputs job))) (ls ! length xs)] = xs @ ns # t # zs"
    by (simp add: ls(1) list_update_append)
  show ?thesis
    unfolding install_levels_def Let_def ls(2) f
    by (simp add: k ls(3) output_of_def level_push_def list_update_append nth_append run_of_def)
qed

lemma install_splice:
  assumes k: "jb_kind job = BottomSplice b left right n" and ls: "ls = xs @ [ns @ [u, run_of b (left @ mid @ right)]]" "jb_level job = length xs"
    and ins: "jb_inputs job = [u, run_of b mid]" and d: "distinct (map rn_id (concat ls))"
  shows "install_levels rn_id run_of job (output_of i tables) ls =
    xs @ [ns @ (if left @ tables @ right = [] then [] else [run_of n (left @ tables @ right)])]"
proof -
  have "distinct (map rn_id (ns @ [u, run_of b (left @ mid @ right)]))" using d ls(1) by simp
  then have "filter (\<lambda>r. rn_id r \<notin> set (map rn_id (jb_inputs job))) (ns @ [u, run_of b (left @ mid @ right)]) = ns"
    by (rule filter_ids) (simp add: ins run_of_def)
  then have f: "ls[length xs := filter (\<lambda>r. rn_id r \<notin> set (map rn_id (jb_inputs job))) (ls ! length xs)] = xs @ [ns]"
    by (simp add: ls(1) list_update_append)
  have "b \<notin> rn_id ` set ns" using d ls(1) by (auto simp: run_of_def)
  then have g: "filter (\<lambda>r. rn_id r \<noteq> b) ns = ns" by (auto intro!: filter_True)
  show ?thesis
    unfolding install_levels_def Let_def ls(2) f
    by (simp add: k g splice_tables_def output_of_def list_update_append run_of_def split: option.split)
qed

text \<open>The runs around the place stay, the installed run takes the place of the inputs.\<close>

lemma install_runs:
  assumes p: "in_place ls job" and d: "distinct (map rn_id (concat ls))"
  obtains pre replaced post where "concat ls = pre @ replaced @ post"
    "concat (install_levels rn_id run_of job (output_of i tables) ls) =
       pre @ (if installed_tables job tables = [] then [] else [run_of (installed_id job i) (installed_tables job tables)]) @ post"
    "length (install_levels rn_id run_of job (output_of i tables) ls) = length ls"
    "jb_kind job = Tier \<longrightarrow> replaced = jb_inputs job \<and> jb_older job = post"
    "\<forall>b left right n. jb_kind job = BottomSplice b left right n \<longrightarrow> post = [] \<and> (\<exists>u mid. replaced = [u, run_of b (left @ mid @ right)]
       \<and> jb_inputs job = [u, run_of b mid] \<and> tabs_below left (rn_tables u) \<and> tabs_below (rn_tables u) right)"
proof (cases "jb_kind job")
  case Tier
  then obtain xs ns t zs where t: "ls = xs @ (ns @ jb_inputs job) # t # zs" "jb_level job = length xs" "jb_target job = Suc (length xs)"
    "jb_older job = t @ concat zs" using p by (auto simp: in_place_def)
  note i = install_tier [OF Tier t(1-3) d, of i tables]
  show thesis
    by (rule that [of "concat xs @ ns" "jb_inputs job" "t @ concat zs"])
      (use t i Tier in \<open>simp_all add: installed_tables_def installed_id_def\<close>)
next
  case (BottomSplice b left right n)
  then obtain xs ns u mid where t: "ls = xs @ [ns @ [u, run_of b (left @ mid @ right)]]" "jb_level job = length xs"
    "jb_inputs job = [u, run_of b mid]" "tabs_below left (rn_tables u)" "tabs_below (rn_tables u) right" using p by (auto simp: in_place_def)
  note i = install_splice [OF BottomSplice t(1-3) d, of i tables]
  show thesis
    by (rule that [of "concat xs @ ns" "[u, run_of b (left @ mid @ right)]" "[]"])
      (use t i BottomSplice in \<open>auto simp: installed_tables_def installed_id_def\<close>)
qed

text \<open>The manifest's edit mirrors the version's.\<close>

lemma install_levels_map:
  assumes "jb_level job < length ls" and "jb_kind job = Tier \<Longrightarrow> jb_target job < length ls"
  shows "install_levels rm_id meta_of job out (map (map run_meta_of) ls) = map (map run_meta_of) (install_levels rn_id run_of job out ls)"
proof -
  have f: "rm_id (run_meta_of x) = rn_id x" for x by (simp add: run_meta_of_def)
  have r: "run_meta_of (run_of i ts) = meta_of i ts" for i ts by (simp add: run_meta_of_def run_of_def meta_of_def)
  have o: "run_meta_of x = meta_of (rn_id x) (rn_tables x)" for x by (simp add: run_meta_of_def meta_of_def)
  show ?thesis using assms
    by (simp add: install_levels_def Let_def level_push_def filter_map o_def f map_update r nth_list_update split: job_kind.split option.split)
qed

lemma in_place_levels: "in_place ls job \<Longrightarrow> jb_level job < length ls \<and> (jb_kind job = Tier \<longrightarrow> jb_target job < length ls)"
  by (auto simp: in_place_def split: job_kind.splits)

section \<open>The install\<close>

lemma fewer_entries:
  assumes "set (concat ess') \<subseteq> set (concat ess)"
  shows "below q ess \<Longrightarrow> below q ess'" and "list_all entries_kinds ess \<Longrightarrow> list_all entries_kinds ess'"
proof -
  show "below q ess'" if "below q ess"
    unfolding below_def
  proof (intro ballI)
    fix es e assume "es \<in> set ess'" "e \<in> set es"
    then have "e \<in> set (concat ess)" using assms by auto
    then show "ikey_seqno (fst e) < q" using that by (auto simp: below_def)
  qed
  show "list_all entries_kinds ess'" if "list_all entries_kinds ess"
    unfolding list_all_iff entries_kinds_def
  proof (intro ballI)
    fix es e assume "es \<in> set ess'" "e \<in> set es"
    then have "e \<in> set (concat ess)" using assms by auto
    then show "\<exists>kd. ikey_kind (fst e) = Ok kd" using that by (auto simp: list_all_iff entries_kinds_def)
  qed
qed

abbreviation mems_of :: "('m \<Rightarrow> entry list) \<Rightarrow> 'm db \<Rightarrow> entry list list" where
  "mems_of ents db \<equiv> ents (mt_map (db_mem db)) # map (\<lambda>mt. ents (mt_map mt)) (db_imms db)"

lemma run_entries_of [simp]: "run_entries ex (run_of i ts) = tables_entries ex ts"
  by (simp add: run_entries_def run_of_def)

lemma rn_tables_of [simp]: "rn_tables (run_of i ts) = ts" "rn_id (run_of i ts) = i"
  by (simp_all add: run_of_def)

definition with_levels :: "run list list \<Rightarrow> 'm db \<Rightarrow> 'm db" where
  "with_levels ls db = db\<lparr>db_version := (db_version db)\<lparr>vs_levels := ls\<rparr>\<rparr>"

lemma with_levels_layers: "db_layers ex ents (with_levels ls db) = mems_of ents db @ map (run_entries ex) (concat ls)"
  by (simp add: with_levels_def db_layers_eq version_layers_def runs_newest_first_def)

lemma layers_split: "db_layers ex ents db = mems_of ents db @ map (run_entries ex) (concat (vs_levels (db_version db)))"
  by (simp add: db_layers_eq version_layers_def runs_newest_first_def)

lemma install_layers:
  fixes i :: u64
  assumes l: "layered (db_layers ex ents db)" and vs: "version_sound ex P (db_version db)"
    and p: "in_place (vs_levels (db_version db)) job" and d: "distinct (map rn_id (concat (vs_levels (db_version db))))"
    and g: "gc_ok w (gone_behind ex job) (merge_entries (map (run_entries ex) (jb_inputs job))) out"
    and t: "tables_of ex out tables" and on: "\<forall>h \<in> set tables. table_on ex P (th_table h)"
  defines "db' \<equiv> with_levels (install_levels rn_id run_of job (output_of i tables) (vs_levels (db_version db))) db"
  shows "layered (db_layers ex ents db') \<and> version_sound ex P (db_version db')
    \<and> set (concat (db_layers ex ents db')) \<subseteq> set (concat (db_layers ex ents db))
    \<and> (\<forall>s. w \<le> s \<or> (\<forall>e \<in> set (concat (db_layers ex ents db)). ikey_seqno (fst e) \<le> s) \<longrightarrow> covers s (db_layers ex ents db) (db_layers ex ents db'))"
proof -
  let ?inst = "installed_tables job tables" and ?iid = "installed_id job i"
  let ?new = "if ?inst = [] then [] else [run_of ?iid ?inst]"
  obtain pre rep post where r: "concat (vs_levels (db_version db)) = pre @ rep @ post"
    "concat (install_levels rn_id run_of job (output_of i tables) (vs_levels (db_version db))) = pre @ ?new @ post"
    and tier: "jb_kind job = Tier \<longrightarrow> rep = jb_inputs job \<and> jb_older job = post"
    and splice: "\<forall>b left right n. jb_kind job = BottomSplice b left right n \<longrightarrow> post = [] \<and> (\<exists>u mid. rep = [u, run_of b (left @ mid @ right)]
       \<and> jb_inputs job = [u, run_of b mid] \<and> tabs_below left (rn_tables u) \<and> tabs_below (rn_tables u) right)"
    by (rule install_runs [OF p d, of i tables])
  let ?E = "map (run_entries ex)" and ?m = "mems_of ents db"
  have old: "db_layers ex ents db = (?m @ ?E pre) @ ?E rep @ ?E post" by (simp add: layers_split r(1))
  have new: "db_layers ex ents db' = (?m @ ?E pre) @ ?E ?new @ ?E post" by (simp add: db'_def with_levels_layers r(2))
  have snd: "list_all (run_sound ex P) (pre @ rep @ post)" using vs r(1) by (simp add: version_sound_def runs_newest_first_def)
  have ts: "tables_sound ex P tables" "tables_entries ex tables = out" using tables_of_sound [OF t on] by simp_all
  have vd: "version_sound ex P (db_version db') \<longleftrightarrow> list_all (run_sound ex P) (pre @ ?new @ post)"
    by (simp add: db'_def with_levels_def version_sound_def runs_newest_first_def r(2))
  have sub: "set out \<subseteq> set (concat (?E (jb_inputs job)))"
    using g by (auto simp: gc_ok_def dest: list_emb_set)
  show ?thesis
  proof (cases "jb_kind job")
    case Tier
    note t = mp [OF tier Tier]
    have inst: "?inst = tables" by (simp add: installed_tables_def Tier)
    have nil: "out = [] \<longleftrightarrow> tables = []" using \<open>tables_of ex out tables\<close> ts(2) tables_of_Nil [of ex tables] by (auto simp: tables_parts_def)
    have en: "?E ?new = (if out = [] then [] else [out])" unfolding inst using nil ts(2) by simp
    have ne: "\<And>k e. gone_behind ex job k \<Longrightarrow> e \<in> set (concat (?E post)) \<Longrightarrow> ukey_of e \<noteq> k" using t by (auto simp: gone_behind_def)
    have l': "layered ((?m @ ?E pre) @ ?E (jb_inputs job) @ ?E post)" using l old t by simp
    note rl = replace_layers [OF l' g ne]
    have "version_sound ex P (db_version db')" unfolding vd inst using snd ts(1) by simp
    moreover have "set (concat (db_layers ex ents db')) \<subseteq> set (concat (db_layers ex ents db))"
      using sub unfolding old new en t [THEN conjunct1] by auto
    moreover have "covers s (db_layers ex ents db) (db_layers ex ents db')"
      if "w \<le> s \<or> (\<forall>e \<in> set (concat (db_layers ex ents db)). ikey_seqno (fst e) \<le> s)" for s
      unfolding old new en t [THEN conjunct1] by (rule rl(2)) (use that t in \<open>auto simp: old\<close>)
    moreover have "layered (db_layers ex ents db')" unfolding new en by (rule rl(1))
    ultimately show ?thesis by blast
  next
    case (BottomSplice b left right n)
    obtain u mid where s: "post = []" "rep = [u, run_of b (left @ mid @ right)]" "jb_inputs job = [u, run_of b mid]"
      "tabs_below left (rn_tables u)" "tabs_below (rn_tables u) right" using splice BottomSplice by blast
    have inst: "?inst = left @ tables @ right" by (simp add: installed_tables_def BottomSplice)
    have sb: "tables_sound ex P left" "tables_sound ex P mid" "tables_sound ex P right" "tables_sound ex P (rn_tables u)"
      "tabs_below left mid" "tabs_below mid right" "tabs_below left right"
      using snd s(2) by (simp_all add: tables_sound_append) (auto simp: tabs_below_def)
    let ?a = "tables_entries ex left" and ?c = "tables_entries ex right" and ?b = "tables_entries ex mid" and ?u = "run_entries ex u"
    have ab: "\<forall>x \<in> set ?a. \<forall>y \<in> set ?u \<union> set ?b. ukey_of x < ukey_of y"
      using tabs_below_entries [OF sb(1,4)] tabs_below_entries [OF sb(1,2)] s(4) sb(5) unfolding run_entries_def by blast
    have bc: "\<forall>y \<in> set ?u \<union> set ?b. \<forall>z \<in> set ?c. ukey_of y < ukey_of z"
      using tabs_below_entries [OF sb(4,3)] tabs_below_entries [OF sb(2,3)] s(5) sb(6) unfolding run_entries_def by blast
    have l': "layered ((?m @ ?E pre) @ [?u, ?a @ ?b @ ?c])" using l old s by simp
    have g': "gc_ok w (gone_behind ex job) (merge_entries [?u, ?b]) out" using g s(3) by simp
    have so: "set out \<subseteq> set ?u \<union> set ?b" using sub s(3) by auto
    have tb: "tabs_below left tables" "tabs_below tables right"
      using tabs_below_entries [OF sb(1) ts(1)] tabs_below_entries [OF ts(1) sb(3)] ab bc so ts(2) by blast+
    have snd': "tables_sound ex P (left @ tables @ right)"
      using sb ts(1) tb by (auto simp: tables_sound_append tabs_below_def)
    have ne: "?a @ out @ ?c = [] \<longleftrightarrow> left @ tables @ right = []"
    proof
      assume n: "?a @ out @ ?c = []"
      have "h = []" if "tables_sound ex P h" "tables_entries ex h = []" for h
        using that tables_parts_sorted [OF that(1)] by (cases h) (auto simp: parts_sorted_def tables_parts_def)
      then show "left @ tables @ right = []" using n sb(1,3) ts by auto
    qed (use ts in \<open>auto simp: tables_parts_def\<close>)
    have en: "?E ?new = (if ?a @ out @ ?c = [] then [] else [?a @ out @ ?c])" unfolding inst ne using ts(2) by simp
    note sl = splice_layers [OF l' g' ab bc]
    have o2: "db_layers ex ents db = (?m @ ?E pre) @ [?u, ?a @ ?b @ ?c]" by (simp add: old s)
    have n2: "db_layers ex ents db' = (?m @ ?E pre) @ (if ?a @ out @ ?c = [] then [] else [?a @ out @ ?c])"
      unfolding new en s(1) by simp
    have "version_sound ex P (db_version db')" unfolding vd inst using snd snd' by simp
    moreover have "set (concat (db_layers ex ents db')) \<subseteq> set (concat (db_layers ex ents db))"
      using so unfolding old new en s by auto
    moreover have "covers s' (db_layers ex ents db) (db_layers ex ents db')"
      if "w \<le> s' \<or> (\<forall>e \<in> set (concat (db_layers ex ents db)). ikey_seqno (fst e) \<le> s')" for s'
      unfolding o2 n2 by (rule sl(2)) (use that in \<open>auto simp: o2\<close>)
    moreover have "layered (db_layers ex ents db')" unfolding n2 by (rule sl(1))
    ultimately show ?thesis by blast
  qed
qed

section \<open>A slice\<close>

definition fresh_run :: "u64 \<Rightarrow> 'm db \<Rightarrow> bool" where
  "fresh_run i db \<longleftrightarrow> i < db_next_file_id db \<and> i \<notin> rn_id ` set (runs_newest_first (db_version db))"

text \<open>A job that has its place in the levels and has merged a prefix of its inputs.\<close>

definition pinned :: "codecs \<Rightarrow> (cache_key \<Rightarrow> bytes \<Rightarrow> bool) \<Rightarrow> 'm db \<Rightarrow> running_job \<Rightarrow> bool" where
  "pinned ex P db j \<longleftrightarrow> in_place (vs_levels (db_version db)) (rj_job j) \<and> fresh_run (installed_id (rj_job j) (rj_run_id j)) db
     \<and> (\<exists>es out fs. job_at ex P (db_opts db) j es out fs \<and> es @ fs = merge_entries (map (run_entries ex) (jb_inputs (rj_job j))))"

lemma job_frame_ok:
  assumes f: "job_frame P db db'" and ok: "db_ok ex sk ents P db" and n: "db_next_file_id db \<le> db_next_file_id db'"
  shows "db_ok ex sk ents P db'" and "stays ex ents P db db'"
proof -
  obtain m xs c where e: "db' = db\<lparr>db_next_file_id := m, db_created := xs, db_cache := c\<rparr>" "set xs \<subseteq> set (db_created db)"
    "cache_holds P (db_cache db) \<longrightarrow> cache_holds P c" using f by (auto simp: job_frame_def)
  let ?d = "db\<lparr>db_cache := c\<rparr>"
  have "cache_holds P c" using ok e(3) by (simp add: db_ok_def)
  then have ok1: "db_ok ex sk ents P ?d" using ok
    by (simp add: db_ok_def view_sound_now db_layers_eq files_ok_def)
  have st1: "stays ex ents P db ?d" by (simp add: stays_def db_holds_def db_layers_eq db_version_now_def)
  have q: "quiet ?d db'"
    by (rule quietI [where n = m and xs = xs and d = "db_dir db" and m = "db_manifest db" and v = "db_vlog db"]) (simp_all add: e)
  have n': "db_next_file_id ?d \<le> db_next_file_id db'" using n by simp
  show "db_ok ex sk ents P db'" by (rule quiet_ok(1) [OF q ok1 n'])
  show "stays ex ents P db db'" by (rule stays_trans [OF st1 quiet_ok(2) [OF q ok1 n']])
qed

text \<open>Readers at or above a horizon, and readers of the present, see what they saw.\<close>

definition stays_above :: "codecs \<Rightarrow> ('m \<Rightarrow> entry list) \<Rightarrow> (cache_key \<Rightarrow> bytes \<Rightarrow> bool) \<Rightarrow> seqno \<Rightarrow> 'm db \<Rightarrow> 'm db \<Rightarrow> bool" where
  "stays_above ex ents P w db db' \<longleftrightarrow> db_visible db' = db_visible db
     \<and> (\<forall>s m. w \<le> s \<or> db_visible db \<le> s \<longrightarrow> db_holds ex ents P db s m \<longrightarrow> db_holds ex ents P db' s m)"

lemma stays_above_trans: "stays_above ex ents P w a b \<Longrightarrow> stays_above ex ents P w b c \<Longrightarrow> stays_above ex ents P w a c"
  by (simp add: stays_above_def)

lemma stays_is_above: "stays ex ents P a b \<Longrightarrow> stays_above ex ents P w a b"
  by (simp add: stays_above_def stays_def)

lemma install_spec:
  assumes ok: "db_ok ex sk ents P db" and mi: "mirrors db" and ids: "runs_ok db"
    and p: "in_place (vs_levels (db_version db)) job" and fr: "fresh_run (installed_id job i) db"
    and g: "gc_ok w (gone_behind ex job) (merge_entries (map (run_entries ex) (jb_inputs job))) out"
    and t: "tables_of ex out tables" and f: "install crc job (output_of i tables) discard db = (r, db')"
    and on: "runs_on ex P db'"
  shows "db_ok ex sk ents P db' \<and> mirrors db' \<and> runs_ok db' \<and> stays_above ex ents P w db db' \<and> db_next_file_id db' = db_next_file_id db
    \<and> db_opts db' = db_opts db \<and> ((\<exists>x. r = Ok x) \<and> vs_levels (db_version db') = install_levels rn_id run_of job (output_of i tables) (vs_levels (db_version db))
       \<or> (\<exists>e. r = Err e) \<and> db_version db' = db_version db)"
proof -
  let ?data = "install_data job (output_of i tables) discard db"
  obtain y d where c: "commit_manifest crc ?data db = (y, d)" by (cases "commit_manifest crc ?data db")
  note cs = commit_manifest_spec [OF c]
  have q: "quiet db d" and n: "db_next_file_id db \<le> db_next_file_id d" using cs by simp_all
  note qf = quiet_fields [OF q] and qo = quiet_ok [OF q ok n]
  show ?thesis
  proof (cases y)
    case (Inl e)
    then have e: "r = Err e" "db' = d" using f c by (simp_all add: install_def)
    have "db_manifest d = db_manifest db" using cs Inl by simp
    then have "mirrors d" "runs_ok d" using mi ids qf cs by (simp_all add: mirrors_def runs_ok_def)
    moreover have "stays_above ex ents P w db d" by (rule stays_is_above [OF qo(2)])
    ultimately show ?thesis using e qo(1) qf cs by simp
  next
    case (Inr u)
    let ?ls = "install_levels rn_id run_of job (output_of i tables) (vs_levels (db_version db))"
    have m: "ms_data (db_manifest d) = ?data" using cs Inr by simp
    have r: "\<exists>x. r = Ok x" "db' = with_levels ?ls d"
      using f c Inr qf(4) by (auto simp: install_def Let_def with_levels_def)
    have v: "db_version d = db_version db" by (rule qf(4))
    have d: "distinct (map rn_id (concat (vs_levels (db_version d))))" using ids unfolding v by (simp add: runs_ok_def runs_newest_first_def)
    have pd: "in_place (vs_levels (db_version d)) job" using p v by simp
    have lv: "layered (db_layers ex ents d)" "version_sound ex P (db_version d)" "list_all entries_kinds (db_layers ex ents d)"
      "below (db_visible d + 1) (db_layers ex ents d)" using qo(1) unfolding db_ok_def view_sound_now by blast+
    have vl: "vs_levels (db_version db') = ?ls" by (simp add: r(2) with_levels_def)
    obtain pre rep post where ir: "concat (vs_levels (db_version d)) = pre @ rep @ post"
      "concat ?ls = pre @ (if installed_tables job tables = [] then [] else [run_of (installed_id job i) (installed_tables job tables)]) @ post"
      "length ?ls = length (vs_levels (db_version d))"
      by (rule install_runs [OF pd d, of i tables, unfolded v]) (simp add: v)
    have on': "\<forall>h \<in> set tables. table_on ex P (th_table h)"
    proof
      fix h assume h: "h \<in> set tables"
      then have it: "h \<in> set (installed_tables job tables)" by (simp add: installed_tables_def split: job_kind.split)
      then have "run_of (installed_id job i) (installed_tables job tables) \<in> set (runs_newest_first (db_version db'))"
        using ir(2) vl by (auto simp: runs_newest_first_def)
      then show "table_on ex P (th_table h)" using on it unfolding runs_on_def by fastforce
    qed
    note il = install_layers [OF lv(1,2) pd d g t on', of i, unfolded v, folded r(2)]
    have sr: "same_but_runs d db'" unfolding same_but_runs_def r(2) with_levels_def
      by (intro exI [of _ ?ls] exI [of _ "db_imms d"] exI [of _ "db_old_wals d"]) simp
    have lay: "layered (db_layers ex ents db')" "version_sound ex P (db_version db')" "list_all entries_kinds (db_layers ex ents db')"
      "below (db_visible d + 1) (db_layers ex ents db')"
      using il fewer_entries lv by blast+
    have ok': "db_ok ex sk ents P db'" by (rule relayer_ok(1) [OF qo(1) sr lay(2,1,3,4)])
    have vis: "db_visible db' = db_visible d" by (simp add: r(2) with_levels_def)
    have "stays_above ex ents P w d db'"
      unfolding stays_above_def
    proof (intro conjI allI impI vis)
      fix s m assume s: "w \<le> s \<or> db_visible d \<le> s" and h: "db_holds ex ents P d s m"
      have "ikey_seqno (fst e) \<le> s" if "db_visible d \<le> s" "e \<in> set (concat (db_layers ex ents d))" for e
      proof -
        have "ikey_seqno (fst e) < db_visible d + 1" using lv(4) that(2) by (auto simp: below_def)
        then have "ikey_seqno (fst e) \<le> db_visible d" using less_seq_succ qo(1) by (simp add: db_ok_def)
        then show ?thesis using that(1) by simp
      qed
      then have "w \<le> s \<or> (\<forall>e \<in> set (concat (db_layers ex ents d)). ikey_seqno (fst e) \<le> s)" using s by blast
      then show "db_holds ex ents P db' s m"
        using h relayer_ok(2) [OF qo(1) sr lay(2,1,3,4)] covers_hold il by blast
    qed
    then have st: "stays_above ex ents P w db db'" using stays_above_trans stays_is_above [OF qo(2)] by blast
    have ne: "vs_levels (db_version db) \<noteq> []" using mi by (simp add: mirrors_def)
    have mi': "mirrors db'"
      unfolding mirrors_def
    proof
      show "vs_levels (db_version db') \<noteq> []" using vl ir(3) ne v by (metis length_0_conv)
      have "md_levels ?data = install_levels rm_id meta_of job (output_of i tables) (map (map run_meta_of) (vs_levels (db_version db)))"
        using mi by (simp add: install_data_def Let_def mirrors_def)
      also have "\<dots> = map (map run_meta_of) ?ls" using install_levels_map in_place_levels [OF p] by blast
      finally show "md_levels (ms_data (db_manifest db')) = map (map run_meta_of) (vs_levels (db_version db'))"
        using m vl by (simp add: r(2) with_levels_def)
    qed
    have nx: "db_next_file_id db' = db_next_file_id db" "db_opts db' = db_opts db" using cs qf(1) by (simp_all add: r(2) with_levels_def)
    have ids': "runs_ok db'"
    proof -
      have "rn_id ` set (pre @ post) \<subseteq> rn_id ` set (runs_newest_first (db_version db))"
        using ir(1) v by (auto simp: runs_newest_first_def)
      then have "installed_id job i \<notin> rn_id ` set (pre @ post)" using fr unfolding fresh_run_def by blast
      moreover have "\<forall>r \<in> set (pre @ post). rn_id r < db_next_file_id db \<and> rn_tables r \<noteq> []" "distinct (map rn_id (pre @ post))"
        using ids ir(1) [unfolded v] unfolding runs_ok_def runs_newest_first_def by (simp_all del: set_concat) blast+
      moreover have "installed_id job i < db_next_file_id db" using fr by (simp add: fresh_run_def)
      ultimately show ?thesis using ir(2) vl nx unfolding runs_ok_def runs_newest_first_def by auto
    qed
    show ?thesis using ok' mi' ids' st nx r(1) vl by blast
  qed
qed

lemma job_output_of: "job_output j tables = output_of (rj_run_id j) tables"
  by (simp add: job_output_def output_of_def run_of_def)

lemma slice_finish_spec:
  assumes ok: "db_ok ex sk ents P db" and mi: "mirrors db" and ids: "runs_ok db"
    and p: "in_place (vs_levels (db_version db)) (rj_job j)" and fr: "fresh_run (installed_id (rj_job j) (rj_run_id j)) db"
    and j: "job_at ex P (db_opts db) j es out []" and es: "es = merge_entries (map (run_entries ex) (jb_inputs (rj_job j)))"
    and f: "slice_finish ex j db = (r, db')" and on: "runs_on ex P db'"
  shows "db_ok ex sk ents P db' \<and> mirrors db' \<and> runs_ok db' \<and> stays_above ex ents P (rj_watermark j) db db'
    \<and> db_next_file_id db' = db_next_file_id db \<and> db_opts db' = db_opts db
    \<and> (r = Ok True \<and> (\<exists>tables. vs_levels (db_version db')
         = install_levels rn_id run_of (rj_job j) (output_of (rj_run_id j) tables) (vs_levels (db_version db)))
       \<or> (\<exists>e. r = Err e) \<and> db_version db' = db_version db)"
proof -
  have g: "gc_ok (rj_watermark j) (gone_behind ex (rj_job j)) es out" and w: "writer_holds ex (db_opts db) out (rj_writer j)"
    and wo: "writes_ok ex (db_opts db) es" using j by (simp_all add: job_at_def)
  have "writes_ok ex (db_opts db) out" using writes_ok_subseq [OF wo] g by (simp add: gc_ok_def)
  then obtain tables where t: "writer_close ex (rj_writer j) = Ok tables" "tables_of ex out tables" using writer_close_spec [OF w] by blast
  obtain y d where s: "db_sync_dir db = (y, d)" by (cases "db_sync_dir db")
  have d: "d = db\<lparr>db_dir := db_dir d\<rparr>" by (rule sync_dir_fields [OF s])
  have q: "quiet db d" "db_manifest d = db_manifest db" "db_next_file_id d = db_next_file_id db"
    by (subst d, intro quietI [where n = "db_next_file_id db" and xs = "db_created db" and d = "db_dir d" and m = "db_manifest db"
          and v = "db_vlog db"], simp_all) (subst d, simp)+
  note qf = quiet_fields [OF q(1)] and qo = quiet_ok [OF q(1) ok eq_refl [OF q(3) [symmetric]]]
  have m: "mirrors d" "runs_ok d" "fresh_run (installed_id (rj_job j) (rj_run_id j)) d" "in_place (vs_levels (db_version d)) (rj_job j)"
    using mi ids fr p q qf by (simp_all add: mirrors_def runs_ok_def fresh_run_def)
  have sa: "stays_above ex ents P (rj_watermark j) db d" by (rule stays_is_above [OF qo(2)])
  show ?thesis
  proof (cases y)
    case (Inl e)
    then have "r = Err e" "db' = d" using f t(1) s by (simp_all add: slice_finish_def)
    then show ?thesis using qo(1) m sa q qf by simp
  next
    case (Inr u)
    obtain z d2 where i: "install (ex_crc ex) (rj_job j) (output_of (rj_run_id j) tables) (rj_discard j) d = (z, d2)"
      by (cases "install (ex_crc ex) (rj_job j) (output_of (rj_run_id j) tables) (rj_discard j) d")
    then have r: "r = (case z of Inl e \<Rightarrow> Err e | Inr _ \<Rightarrow> Ok True)" "db' = d2"
      using f t(1) s Inr by (cases z; simp add: slice_finish_def job_output_of)+
    have on2: "runs_on ex P d2" using on r by simp
    note iw = install_spec [OF qo(1) m(1,2,4,3) g [unfolded es] t(2) i on2]
    have st: "stays_above ex ents P (rj_watermark j) db db'" using stays_above_trans [OF sa] iw r(2) by blast
    have "r = Ok True \<and> (\<exists>tables. vs_levels (db_version db')
         = install_levels rn_id run_of (rj_job j) (output_of (rj_run_id j) tables) (vs_levels (db_version db)))
       \<or> (\<exists>e. r = Err e) \<and> db_version db' = db_version db" using iw r qf(4) by (cases z) auto
    then show ?thesis using iw r(2) st q qf by simp
  qed
qed

end
