(* ===== verification/CompactStart.thy ===== *)
theory CompactStart
  imports CompactReads
begin

text \<open>
  What the picker chooses has its place in the levels, and a job that starts on it stands at the
  beginning of the merge of its inputs.
\<close>

section \<open>The picker\<close>

lemma filter_prefix:
  assumes "sorted_wrt R xs" and "\<And>a b. R a b \<Longrightarrow> b \<in> set xs \<Longrightarrow> a \<in> set xs \<Longrightarrow> Q b \<Longrightarrow> Q a"
  shows "xs = filter Q xs @ filter (\<lambda>x. \<not> Q x) xs"
  using assms
proof (induction xs)
  case (Cons x xs)
  have ih: "xs = filter Q xs @ filter (\<lambda>x. \<not> Q x) xs" by (rule Cons.IH) (use Cons.prems in auto)
  show ?case
  proof (cases "Q x")
    case False
    then have "\<not> Q y" if "y \<in> set xs" for y using Cons.prems that by auto
    then show ?thesis using False by (simp add: filter_empty_conv)
  qed (use ih in simp)
qed simp

lemma base_split:
  assumes s: "tables_sound ex P ts" and lh: "lo \<le> (hi :: bytes)"
  defines "left \<equiv> \<lambda>t. stats_max_ukey (th_stats t) < lo"
  defines "right \<equiv> \<lambda>t. \<not> left t \<and> hi < stats_min_ukey (th_stats t)"
  shows "ts = filter left ts @ filter (\<lambda>t. \<not> left t \<and> \<not> right t) ts @ filter right ts"
proof -
  let ?R = "\<lambda>a b. stats_max_ukey (th_stats a) < stats_min_ukey (th_stats b)"
  have srt: "sorted_wrt ?R ts" using s by (simp add: tables_sound_def)
  have mm: "stats_min_ukey (th_stats t) \<le> stats_max_ukey (th_stats t)" if "t \<in> set ts" for t
  proof -
    have "handle_sound ex P t" using s that by (simp add: tables_sound_def list_all_iff)
    then show ?thesis using handle_ends(1) handle_range(2) by (metis)
  qed
  have 1: "ts = filter left ts @ filter (\<lambda>t. \<not> left t) ts"
    by (rule filter_prefix [OF srt]) (use mm in \<open>auto simp: left_def intro: less_trans less_le_trans\<close>)
  let ?rest = "filter (\<lambda>t. \<not> left t) ts"
  have "?rest = filter (\<lambda>t. \<not> right t) ?rest @ filter (\<lambda>x. \<not> \<not> right x) ?rest"
  proof (rule filter_prefix)
    show "sorted_wrt ?R ?rest" by (rule sorted_wrt_filter [OF srt])
    fix a b assume ab: "?R a b" "b \<in> set ?rest" "a \<in> set ?rest" "\<not> right b"
    show "\<not> right a"
    proof
      assume "right a"
      then have "hi < stats_min_ukey (th_stats b)" using ab(1) mm [of a] ab(3) by (auto simp: right_def intro: less_trans less_le_trans)
      then show False using ab(2,4) by (simp add: right_def)
    qed
  qed
  moreover have "filter right (filter (\<lambda>t. \<not> left t) ts) = filter right ts" by (simp add: right_def)
  ultimately show ?thesis using 1 by (simp add: conj_commute)
qed

lemma tier_in_place:
  assumes "Suc i < length (vs_levels v)"
  shows "in_place (vs_levels v) (pick_tier v i)"
proof -
  let ?ls = "vs_levels v"
  have "?ls = take i ?ls @ ([] @ ?ls ! i) # ?ls ! (i + 1) # drop (i + 2) ?ls"
    using assms by (simp add: Cons_nth_drop_Suc)
  moreover have "length (take i ?ls) = i" using assms by simp
  ultimately show ?thesis unfolding in_place_def pick_tier_def
    by (simp, intro exI [of _ "take i ?ls"] exI [of _ "[]"] exI [of _ "?ls ! (i + 1)"] exI [of _ "drop (i + 2) ?ls"]) simp
qed

lemma run_range:
  assumes "h \<in> set (rn_tables r)"
  shows "run_lo r \<le> stats_min_ukey (th_stats h)" and "stats_max_ukey (th_stats h) \<le> run_hi r"
  using assms by (simp_all add: run_lo_def run_hi_def)

lemma splice_in_place:
  assumes ls: "ls = xs @ [ns @ [u, b]]" and b: "run_sound ex P b" and u: "run_sound ex P u" and ne: "rn_tables u \<noteq> []"
  shows "in_place ls (pick_splice u b (length xs) n)"
proof -
  obtain h where h: "h \<in> set (rn_tables u)" using ne by (cases "rn_tables u") auto
  have "handle_sound ex P h" using u h by (simp add: tables_sound_def list_all_iff)
  then have "stats_min_ukey (th_stats h) \<le> stats_max_ukey (th_stats h)" using handle_ends(1) handle_range(2) by metis
  then have lh: "run_lo u \<le> run_hi u" using run_range [OF h] by (meson order_trans)
  note s = base_split [OF b lh]
  let ?l = "\<lambda>t. stats_max_ukey (th_stats t) < run_lo u"
  let ?r = "\<lambda>t. \<not> ?l t \<and> run_hi u < stats_min_ukey (th_stats t)"
  let ?m = "filter (\<lambda>t. \<not> ?l t \<and> \<not> ?r t) (rn_tables b)"
  have e: "b = run_of (rn_id b) (filter ?l (rn_tables b) @ ?m @ filter ?r (rn_tables b))"
    using s by (cases b) (simp add: run_of_def)
  have "tabs_below (filter ?l (rn_tables b)) (rn_tables u)" "tabs_below (rn_tables u) (filter ?r (rn_tables b))"
    using run_range [of _ u] unfolding tabs_below_def by (auto intro: less_le_trans le_less_trans)
  then show ?thesis unfolding in_place_def pick_splice_def Let_def
    by (simp, intro exI [of _ xs] exI [of _ ns] exI [of _ u] exI [of _ ?m]) (use ls e in \<open>simp add: run_of_def\<close>)
qed

text \<open>A picked job has its place; the id of a splice's run is new.\<close>

definition picked_ok :: "'m db \<Rightarrow> job \<Rightarrow> bool" where
  "picked_ok db job \<longleftrightarrow> in_place (vs_levels (db_version db)) job
     \<and> (case jb_kind job of Tier \<Rightarrow> True | BottomSplice _ _ _ n \<Rightarrow> fresh_run n db)"

lemma first_due_less: "first_due trigger v d = Some i \<Longrightarrow> i < d"
  unfolding first_due_def find_Some_iff by force

lemma pick_before_ok:
  assumes "pick_before db before = Some job"
  shows "picked_ok db job \<and> jb_kind job = Tier \<and> jb_level job < before"
proof -
  let ?v = "db_version db"
  obtain i where i: "first_due (level_trigger (db_opts db)) ?v (min (length (vs_levels ?v) - 1) before) = Some i" "job = pick_tier ?v i"
    using assms by (auto simp: pick_before_def Let_def)
  have "Suc i < length (vs_levels ?v)" "i < before" using first_due_less [OF i(1)] by linarith+
  then show ?thesis using tier_in_place [of i ?v] i(2) by (simp add: picked_ok_def pick_tier_def)
qed

lemma last_two: "2 \<le> length xs \<Longrightarrow> xs = take (length xs - 2) xs @ [xs ! (length xs - 2), xs ! (length xs - 1)]"
proof (induction xs rule: rev_induct)
  case (snoc x xs)
  then show ?case by (cases xs rule: rev_cases) (simp_all add: nth_append)
qed simp

lemma pick_ok:
  assumes s: "version_sound ex P (db_version db)" and ids: "runs_ok db" and ne: "vs_levels (db_version db) \<noteq> []"
    and p: "pick db force = (Some (Rewrite job), db')" and n: "db_next_file_id db' = db_next_file_id db \<or> db_next_file_id db < db_next_file_id db'"
  shows "picked_ok db' job \<and> (\<exists>n. db' = db\<lparr>db_next_file_id := n\<rparr>)"
proof -
  let ?v = "db_version db" and ?ls = "vs_levels (db_version db)"
  let ?deep = "length ?ls - 1"
  let ?bottom = "?ls ! ?deep"
  let ?due = "first_due (\<lambda>i. if force then 2 else level_trigger (db_opts db) i) ?v ?deep"
  show ?thesis
  proof (cases ?due)
    case (Some i)
    then have "job = pick_tier ?v i \<and> db' = db" using p unfolding pick_def Let_def by auto
    moreover have "Suc i < length ?ls" using first_due_less [OF Some] by linarith
    ultimately show ?thesis using tier_in_place [of i ?v] by (simp add: picked_ok_def pick_tier_def exI [of _ "db_next_file_id db"])
  next
    case None
    let ?n = "length ?bottom"
    have two: "2 \<le> ?n" and job: "job = pick_splice (?bottom ! (?n - 2)) (?bottom ! (?n - 1)) ?deep (db_next_file_id db)"
      and db': "db' = db\<lparr>db_next_file_id := db_next_file_id db + 1\<rparr>"
      using p None by (auto simp: pick_def Let_def alloc_file_id_def split: if_splits)
    have ls: "?ls = butlast ?ls @ [take (?n - 2) ?bottom @ [?bottom ! (?n - 2), ?bottom ! (?n - 1)]]"
      using ne last_two [OF two] by (metis append_butlast_last_id last_conv_nth)
    have "?bottom \<in> set ?ls" using ne by simp
    then have bs: "set ?bottom \<subseteq> set (concat ?ls)" by (metis in_set_conv_decomp concat_append concat.simps(2) set_append Un_upper1 sup.coboundedI2)
    have in_b: "?bottom ! (?n - 2) \<in> set ?bottom" "?bottom ! (?n - 1) \<in> set ?bottom" using two by simp_all
    then have "run_sound ex P (?bottom ! (?n - 2))" "run_sound ex P (?bottom ! (?n - 1))" "rn_tables (?bottom ! (?n - 2)) \<noteq> []"
      using s ids bs unfolding version_sound_def runs_ok_def runs_newest_first_def list_all_iff by blast+
    then have "in_place ?ls (pick_splice (?bottom ! (?n - 2)) (?bottom ! (?n - 1)) (length (butlast ?ls)) (db_next_file_id db))"
      using splice_in_place [OF ls] by blast
    then have "in_place (vs_levels (db_version db')) job" using job db' by simp
    moreover have "fresh_run (db_next_file_id db) db'"
      using n ids unfolding db' runs_ok_def fresh_run_def by (auto simp: inc_le)
    ultimately show ?thesis using job db' by (auto simp: picked_ok_def pick_splice_def Let_def)
  qed
qed

section \<open>The start\<close>

lemma inputs_layers:
  assumes p: "in_place (vs_levels (db_version db)) job" and vs: "version_sound ex P (db_version db)" and l: "layered (db_layers ex ents db)"
    and k: "list_all entries_kinds (db_layers ex ents db)"
  shows "list_all (run_sound ex P) (jb_inputs job)" and "list_all (run_sound ex P) (jb_older job)"
    and "layered (map (run_entries ex) (jb_inputs job))" and "list_all entries_kinds (map (run_entries ex) (jb_inputs job))"
proof -
  have lv: "layered (map (run_entries ex) (concat (vs_levels (db_version db))))"
    "list_all entries_kinds (map (run_entries ex) (concat (vs_levels (db_version db))))"
    using l k unfolding layers_split by (simp_all only: layered_append list_all_append)
  have all: "list_all (run_sound ex P) (jb_inputs job) \<and> list_all (run_sound ex P) (jb_older job)
    \<and> layered (map (run_entries ex) (jb_inputs job)) \<and> list_all entries_kinds (map (run_entries ex) (jb_inputs job))"
  proof (cases "jb_kind job")
    case Tier
    then obtain xs ns t zs where "vs_levels (db_version db) = xs @ (ns @ jb_inputs job) # t # zs" "jb_older job = t @ concat zs"
      using p by (auto simp: in_place_def)
    then show ?thesis using lv vs
      by (simp_all add: version_sound_def runs_newest_first_def layered_append)
  next
    case (BottomSplice b left right n)
    then obtain xs ns u mid where t: "vs_levels (db_version db) = xs @ [ns @ [u, run_of b (left @ mid @ right)]]"
      "jb_inputs job = [u, run_of b mid]" "jb_older job = []" using p by (auto simp: in_place_def)
    have "list_all (run_sound ex P) [u, run_of b (left @ mid @ right)]" using vs unfolding version_sound_def runs_newest_first_def t(1) by simp
    then have rs: "run_sound ex P u" "run_sound ex P (run_of b mid)" by (simp_all add: tables_sound_append)
    have lu: "layered [run_entries ex u, run_entries ex (run_of b (left @ mid @ right))]"
      and ku: "list_all entries_kinds [run_entries ex u, run_entries ex (run_of b (left @ mid @ right))]"
      using lv unfolding t(1) by (simp_all add: layered_append)
    have "layered [run_entries ex u, run_entries ex (run_of b mid)]"
      using lu by (auto simp: layered_def newer_layer_def entries_sorted_append)
    moreover have "entries_kinds (run_entries ex u)" "entries_kinds (run_entries ex (run_of b mid))"
      using ku by (simp_all add: entries_kinds_def)
    ultimately show ?thesis using rs t(2,3) by simp
  qed
  then show "list_all (run_sound ex P) (jb_inputs job)" "list_all (run_sound ex P) (jb_older job)"
    "layered (map (run_entries ex) (jb_inputs job))" "list_all entries_kinds (map (run_entries ex) (jb_inputs job))" by blast+
qed

lemma merge_start:
  assumes s: "list_all (run_sound ex P) rs" and l: "layered (map (run_entries ex) rs)" and c: "cache_holds P c"
  shows "\<exists>m. merge_seek_to_first (run_iter_ops ex) (merge_new (map (\<lambda>r. run_iter_of r c) rs) False) = Ok m
    \<and> merge_good ex P m (merge_entries (map (run_entries ex) rs))"
proof -
  let ?cs = "map (\<lambda>r. run_iter_of r c) rs" and ?m = "merge_new (map (\<lambda>r. run_iter_of r c) rs) False"
  have g: "list_all (ri_good ex P) ?cs"
    using s c by (auto simp: list_all_iff ri_good_def ri_core_def run_iter_of_def ri_seen_def)
  have ct: "map (ri_contents ex) ?cs = map (run_entries ex) rs"
    by (simp add: ri_contents_def ri_parts_def run_iter_of_def run_entries_def)
  have fw: "list_all (\<lambda>s. ri_forward ex s = []) ?cs" by (simp add: list_all_iff ri_forward_def run_iter_of_def)
  have inv: "list_all (\<lambda>s. \<not> it_valid (run_iter_ops ex) s) ?cs" using g fw rif.valid [of ex P] by (auto simp: list_all_iff)
  have kd: "keys_distinct (map (ri_contents ex) ?cs)" unfolding ct by (rule layered_distinct [OF l])
  have nil: "keys_distinct (map (ri_forward ex) ?cs)"
    using fw by (auto simp: keys_distinct_iff list_all_iff sorted_wrt_iff_nth_less)
  have "rif.merge_ok ex P False ?m"
    unfolding rif.merge_ok_def using g kd nil fw pick_none [OF inv] by (auto simp: merge_new_def merge_pick_def list_all_iff)
  moreover have "rif.merge_contents ex ?m = merge_entries (map (run_entries ex) rs)"
    unfolding rif.merge_contents_def using arg_cong [OF ct, of merge_entries] by (simp add: merge_new_def del: map_map)
  moreover note forward_iterator.seek_to_first [OF rif.merge_forward [of ex P] \<open>rif.merge_ok ex P False ?m\<close>]
  ultimately show ?thesis by (auto simp: merge_iter_ops_def merge_good_def elim!: movesE)
qed

lemma running_new_spec:
  assumes ok: "db_ok ex sk ents P db" and ids: "runs_ok db" and p: "picked_ok db job"
    and w: "writes_ok ex (db_opts db) (merge_entries (map (run_entries ex) (jb_inputs job)))"
    and n: "db_next_file_id db < db_next_file_id db + 1"
  shows "\<exists>j. running_new ex job db = (Ok j, db\<lparr>db_next_file_id := db_next_file_id db + 1\<rparr>) \<and> rj_job j = job \<and> rj_watermark j = db_watermark db
    \<and> pinned ex P (db\<lparr>db_next_file_id := db_next_file_id db + 1\<rparr>) j"
proof -
  let ?db = "db\<lparr>db_next_file_id := db_next_file_id db + 1\<rparr>" and ?es = "merge_entries (map (run_entries ex) (jb_inputs job))"
  have dd: "version_sound ex P (db_version db)" "layered (db_layers ex ents db)" "list_all entries_kinds (db_layers ex ents db)"
    "cache_holds P (db_cache db)" "in_place (vs_levels (db_version db)) job"
    using ok p unfolding db_ok_def view_sound_now picked_ok_def by blast+
  note il = inputs_layers [OF dd(5,1,2,3)]
  obtain m where m: "merge_seek_to_first (run_iter_ops ex) (merge_new (map (\<lambda>r. run_iter_of r (db_cache db)) (jb_inputs job)) False) = Ok m"
    "merge_good ex P m ?es" using merge_start [OF il(1,3) dd(4)] by blast
  let ?j = "\<lparr>rj_job = job, rj_watermark = db_watermark db, rj_merge = m, rj_run_id = db_next_file_id db, rj_writer = ([], None),
             rj_discard = [], rj_cur_ukey = [], rj_have_key = False, rj_kept_le_w = False\<rparr>"
  have r: "running_new ex job db = (Ok ?j, ?db)" using m(1) by (simp add: running_new_def alloc_file_id_def Let_def)
  have k: "list_all (\<lambda>e. \<exists>k. ikey_kind (fst e) = Ok k) ?es"
    using il(4) by (auto simp: list_all_iff entries_kinds_def merge_entries_def)
  have "job_at ex P (db_opts ?db) ?j [] [] ?es"
    using m(2) w k il(2) by (simp add: job_at_def key_state_def)
  moreover have "fresh_run (installed_id job (db_next_file_id db)) ?db"
  proof (cases "jb_kind job")
    case Tier
    then show ?thesis using ids n by (auto simp: installed_id_def fresh_run_def runs_ok_def)
  next
    case (BottomSplice a b c i)
    then show ?thesis using p n by (auto simp: installed_id_def fresh_run_def picked_ok_def intro: less_trans)
  qed
  ultimately have "pinned ex P ?db ?j" using dd(5) unfolding pinned_def
    by (intro conjI exI [of _ "[]"] exI [of _ ?es]) simp_all
  then show ?thesis using r by (intro exI [of _ ?j]) simp
qed

text \<open>
  C5: every rewrite that the picker chooses starts: its run ids are new, its inputs stand together
  in the levels of the version (in the middle of the bottom run for a splice, with no table of
  the bottom run that overlaps them left out), its watermark is the one of now, and what it will
  write is the merge of the inputs, of which it has written nothing.
\<close>

theorem compaction_starts_in_place:
  assumes "db_ok ex sk ents P db" and "mirrors db" and "runs_ok db"
    and "pick db force = (Some (Rewrite job), db1)" and "unat (db_next_file_id db) + 2 < 2 ^ 64"
    and "writes_ok ex (db_opts db) (merge_entries (map (run_entries ex) (jb_inputs job)))"
  shows "\<exists>j db2. running_new ex job db1 = (Ok j, db2) \<and> pinned ex P db2 j \<and> rj_job j = job \<and> rj_watermark j = db_watermark db
    \<and> db_ok ex sk ents P db2 \<and> stays ex ents P db db2 \<and> runs_ok db2 \<and> mirrors db2"
proof -
  let ?n = "db_next_file_id db"
  have up: "?n < ?n + 1" "?n + 1 < ?n + 2"
    using assms(5) by (simp_all add: word_less_nat_alt unat_word_ariths)
  have vs: "version_sound ex P (db_version db)" using assms(1) unfolding db_ok_def view_sound_now by blast
  have ne: "vs_levels (db_version db) \<noteq> []" using assms(2) by (simp add: mirrors_def)
  have n: "db_next_file_id db1 = ?n \<or> db_next_file_id db1 = ?n + 1"
    using assms(4) by (auto simp: pick_def Let_def alloc_file_id_def split: option.splits if_splits)
  then have le: "?n \<le> db_next_file_id db1" "db_next_file_id db1 < db_next_file_id db1 + 1" "db_next_file_id db1 = ?n \<or> ?n < db_next_file_id db1"
    using up by (auto simp: add.assoc)
  obtain k where d1: "db1 = db\<lparr>db_next_file_id := k\<rparr>" and pk: "picked_ok db1 job" using pick_ok [OF vs assms(3) ne assms(4) le(3)] by blast
  have q: "quiet db (db\<lparr>db_next_file_id := m\<rparr>)" for m
    by (rule quietI [where n = m and xs = "db_created db" and d = "db_dir db" and m = "db_manifest db" and v = "db_vlog db"]) simp_all
  have ids: "runs_ok (db\<lparr>db_next_file_id := m\<rparr>)" if "?n \<le> m" for m
    using assms(3) that by (auto simp: runs_ok_def intro: less_le_trans)
  have ok: "db_ok ex sk ents P (db\<lparr>db_next_file_id := m\<rparr>) \<and> stays ex ents P db (db\<lparr>db_next_file_id := m\<rparr>)" if "?n \<le> m" for m
    using quiet_ok [OF q [of m] assms(1)] that by simp
  have k: "?n \<le> k" "k < k + 1" using le(1,2) d1 by simp_all
  have w: "writes_ok ex (db_opts db1) (merge_entries (map (run_entries ex) (jb_inputs job)))" using assms(6) d1 by simp
  obtain j where j: "running_new ex job db1 = (Ok j, db1\<lparr>db_next_file_id := db_next_file_id db1 + 1\<rparr>)" "rj_job j = job"
    "rj_watermark j = db_watermark db1" "pinned ex P (db1\<lparr>db_next_file_id := db_next_file_id db1 + 1\<rparr>) j"
    using running_new_spec [of ex sk ents P db1 job] ok [OF k(1)] ids [OF k(1)] pk w le(2) unfolding d1 by auto
  have d2: "db1\<lparr>db_next_file_id := db_next_file_id db1 + 1\<rparr> = db\<lparr>db_next_file_id := k + 1\<rparr>" using d1 by simp
  have k1: "?n \<le> k + 1" using k by simp
  show ?thesis
  proof (intro exI conjI)
    show "running_new ex job db1 = (Ok j, db\<lparr>db_next_file_id := k + 1\<rparr>)" using j(1) d2 by simp
    show "pinned ex P (db\<lparr>db_next_file_id := k + 1\<rparr>) j" using j(4) d2 by simp
    show "rj_watermark j = db_watermark db" using j(3) d1 by (simp add: db_watermark_def)
    show "mirrors (db\<lparr>db_next_file_id := k + 1\<rparr>)" using assms(2) by (simp add: mirrors_def)
  qed (use j(2) ok [OF k1] ids [OF k1] in simp_all)
qed

section \<open>A slice, from start to end\<close>


text \<open>A store with one run in level 0, due at once.\<close>

definition sample_tier_db :: "table \<Rightarrow> sorted_entries db" where
  "sample_tier_db t =
     (let ls = [[run_of 1 [table_handle_new 7 0 t]], []] in
      sample_db\<lparr>db_mem := memtable_new se_empty 3, db_opts := options_default\<lparr>op_l0_compaction_trigger := 1\<rparr>, db_visible := 9,
        db_next_file_id := 8, db_version := (db_version sample_db)\<lparr>vs_levels := ls\<rparr>,
        db_manifest := \<lparr>ms_gen = 1, ms_data = sample_manifest\<lparr>md_levels := map (map run_meta_of) ls\<rparr>\<rparr>\<rparr>)"

definition sample_job :: "table \<Rightarrow> job" where
  "sample_job t = \<lparr>jb_level = 0, jb_target = 1, jb_inputs = [run_of 1 [table_handle_new 7 0 t]], jb_older = [], jb_kind = Tier\<rparr>"

lemma sample_tier_ok:
  assumes "handle_sound sample_codecs P (table_handle_new 7 0 t)" and "table_entries sample_codecs t = sample_entries"
  shows "db_ok sample_codecs list_skip_ops Rep_sorted_entries P (sample_tier_db t)"
    and "mirrors (sample_tier_db t)" and "runs_ok (sample_tier_db t)" and "creates_fresh (sample_tier_db t)"
    and "pick (sample_tier_db t) False = (Some (Rewrite (sample_job t)), sample_tier_db t)"
    and "writes_ok sample_codecs (db_opts (sample_tier_db t)) (merge_entries (map (run_entries sample_codecs) (jb_inputs (sample_job t))))"
proof -
  have e: "Rep_sorted_entries se_empty = []" by (simp add: se_empty_def Abs_sorted_entries_inverse)
  have r: "tables_entries sample_codecs [table_handle_new 7 0 t] = sample_entries" "tables_sound sample_codecs P [table_handle_new 7 0 t]"
    using assms by (simp_all add: tables_parts_def table_handle_new_def tables_sound_def)
  show "db_ok sample_codecs list_skip_ops Rep_sorted_entries P (sample_tier_db t)"
    using list_skip_ok empty_cache_holds [of P 1024] r
    by (simp add: db_ok_def view_sound_now db_layers_eq sample_tier_db_def sample_db_def e memtable_new_def version_layers_def version_sound_def
        runs_newest_first_def layered_def newer_layer_def below_def entries_kinds_def files_ok_def vlog_new_def vlog_handle_new_def
        max_seqno_val sample_entries_def key_simps Let_def)
  show "mirrors (sample_tier_db t)" "runs_ok (sample_tier_db t)" "creates_fresh (sample_tier_db t)"
    by (simp_all add: mirrors_def runs_ok_def creates_fresh_def sample_tier_db_def Let_def runs_newest_first_def sample_db_def)
  show "pick (sample_tier_db t) False = (Some (Rewrite (sample_job t)), sample_tier_db t)"
    by (simp add: pick_def Let_def first_due_def level_trigger_def sample_tier_db_def pick_tier_def sample_job_def)
  have m: "merge_entries (map (run_entries sample_codecs) (jb_inputs (sample_job t))) = sample_entries"
    using r(1) by (simp add: sample_job_def merge_entries_def sample_entries_def)
  have o: "opts_build sample_codecs (db_opts (sample_tier_db t)) = opts_build sample_codecs options_default"
    "built sample_codecs (db_opts (sample_tier_db t)) = built sample_codecs options_default"
    "op_target_file_size (db_opts (sample_tier_db t)) = op_target_file_size options_default"
    "op_bloom_bits_per_key (db_opts (sample_tier_db t)) = op_bloom_bits_per_key options_default"
    by (intro ext, simp add: opts_build_def built_def sample_tier_db_def Let_def)+
      (simp_all add: sample_tier_db_def Let_def)
  show "writes_ok sample_codecs (db_opts (sample_tier_db t)) (merge_entries (map (run_entries sample_codecs) (jb_inputs (sample_job t))))"
    unfolding m using sample_writes_ok
    by (simp add: writes_ok_def unsplit_def fits_table_def o)
qed

theorem compaction_starts_in_place_witness:
  "\<exists>t P j db2. table_entries sample_codecs t = sample_entries
     \<and> running_new sample_codecs (sample_job t) (sample_tier_db t) = (Ok j, db2) \<and> pinned sample_codecs P db2 j
     \<and> stays sample_codecs Rep_sorted_entries P (sample_tier_db t) db2"
proof -
  obtain t where t: "handle_sound sample_codecs (tables_hold sample_codecs [t]) (table_handle_new 7 0 t)"
    "table_entries sample_codecs t = sample_entries" using sample_table_run by blast
  have n: "unat (db_next_file_id (sample_tier_db t)) + 2 < 2 ^ 64" by (simp add: sample_tier_db_def Let_def)
  note s = sample_tier_ok [OF t]
  show ?thesis using compaction_starts_in_place [OF s(1-3,5) n s(6)] t(2) by blast
qed


end
