(* ===== verification/Txn.thy ===== *)
theory Txn
  imports DbIterator Group Snapshots
begin

text \<open>
  \<open>crates/fluent31/src/txn.rs\<close>: optimistic transactions. A transaction reads at a registered
  snapshot, buffers its writes, remembers the keys it locked, and commits after a check that no
  newer version of any of these keys exists. \<open>wait\<close> is what the background threads do to the
  store while a stalled writer is parked, \<open>queue\<close> is the commit queue (\<open>queue_alone\<close> is the
  committer that finds one entry in it).
\<close>

section \<open>The transaction\<close>

record txn =
  tx_snap :: seqno
  tx_registered :: bool
  tx_writes :: "(bytes \<times> bytes option) list"
  tx_locks :: "(bytes \<times> unit) list"
  tx_bytes :: nat
  tx_system :: bool

definition db_register_snapshot :: "'m db \<Rightarrow> seqno \<times> 'm db" where
  "db_register_snapshot db =
     (let (seq, s) = register_snapshot \<lparr>st_visible = db_visible db, st_snapshots = db_snapshots db\<rparr>
      in (seq, db\<lparr>db_snapshots := st_snapshots s\<rparr>))"

definition db_deregister_snapshot :: "seqno \<Rightarrow> 'm db \<Rightarrow> 'm db" where
  "db_deregister_snapshot seq db =
     db\<lparr>db_snapshots := st_snapshots (deregister_snapshot seq \<lparr>st_visible = db_visible db, st_snapshots = db_snapshots db\<rparr>)\<rparr>"

definition txn_new :: "'m db \<Rightarrow> txn \<times> 'm db" where
  "txn_new db =
     (let (snap, db) = db_register_snapshot db
      in (\<lparr>tx_snap = snap, tx_registered = True, tx_writes = [], tx_locks = [], tx_bytes = 0, tx_system = False\<rparr>, db))"

definition txn_mark_system :: "txn \<Rightarrow> txn" where
  "txn_mark_system tx = tx\<lparr>tx_system := True\<rparr>"

definition txn_drop :: "txn \<Rightarrow> 'm db \<Rightarrow> 'm db" where
  "txn_drop tx db = (if tx_registered tx then db_deregister_snapshot (tx_snap tx) db else db)"

definition txn_rollback :: "txn \<Rightarrow> 'm db \<Rightarrow> 'm db" where
  "txn_rollback tx db = txn_drop tx db"

section \<open>Buffered writes\<close>

definition track_bytes :: "options \<Rightarrow> nat \<Rightarrow> txn \<Rightarrow> unit res \<times> txn" where
  "track_bytes opts add tx =
     (let tx = tx\<lparr>tx_bytes := tx_bytes tx + add\<rparr>
      in if op_max_txn_write_bytes opts < tx_bytes tx
         then (Err (InvalidArgument ''transaction write set exceeds max_txn_write_bytes''), tx) else (Ok (), tx))"

definition txn_insert :: "bytes \<Rightarrow> bytes option \<Rightarrow> txn \<Rightarrow> txn" where
  "txn_insert key w tx = tx\<lparr>tx_writes := tm_put key w (tx_writes tx)\<rparr>"

definition txn_sys_delete :: "options \<Rightarrow> bytes \<Rightarrow> txn \<Rightarrow> unit res \<times> txn" where
  "txn_sys_delete opts key tx = sbind (track_bytes opts (length key) tx) (\<lambda>_ tx. (Ok (), txn_insert key None tx))"

definition txn_put :: "options \<Rightarrow> bytes \<Rightarrow> bytes \<Rightarrow> txn \<Rightarrow> unit res \<times> txn" where
  "txn_put opts key val tx =
     sbind (validate_user_key key, tx) (\<lambda>_ tx.
       if op_max_key_size opts < length key \<or> op_max_value_size opts < length val
       then (Err (InvalidArgument ''key or value too large''), tx)
       else sbind (track_bytes opts (length key + length val) tx) (\<lambda>_ tx. (Ok (), txn_insert key (Some val) tx)))"

definition txn_delete :: "options \<Rightarrow> bytes \<Rightarrow> txn \<Rightarrow> unit res \<times> txn" where
  "txn_delete opts key tx =
     sbind (validate_user_key key, tx) (\<lambda>_ tx.
       sbind (track_bytes opts (length key) tx) (\<lambda>_ tx. (Ok (), txn_insert key None tx)))"

definition txn_write_set_len :: "txn \<Rightarrow> nat" where
  "txn_write_set_len tx = length (tx_writes tx)"

section \<open>Reads\<close>

definition txn_get :: "codecs \<Rightarrow> 'm skip_ops \<Rightarrow> bytes \<Rightarrow> txn \<Rightarrow> 'm db \<Rightarrow> bytes option res \<times> 'm db" where
  "txn_get ex sk key tx db =
     sbind (validate_user_key key, db) (\<lambda>_ db.
       case map_of (tx_writes tx) key of
         Some w \<Rightarrow> (Ok w, db)
       | None \<Rightarrow> get_at_seq ex sk key (tx_snap tx) db)"

definition txn_get_for_update ::
    "codecs \<Rightarrow> 'm skip_ops \<Rightarrow> bytes \<Rightarrow> txn \<Rightarrow> 'm db \<Rightarrow> bytes option res \<times> txn \<times> 'm db" where
  "txn_get_for_update ex sk key tx db =
     sbind (validate_user_key key, (tx, db)) (\<lambda>_ (tx, db).
       let tx = tx\<lparr>tx_locks := tm_put key () (tx_locks tx)\<rparr>; (r, db) = txn_get ex sk key tx db
       in (r, tx, db))"

section \<open>The iterator with the overlay\<close>

definition iter_raw ::
    "codecs \<Rightarrow> 'm skip_ops \<Rightarrow> seqno option \<Rightarrow> bytes \<Rightarrow> bytes option \<Rightarrow> bool \<Rightarrow> 'm db \<Rightarrow> 'm db_iterator res" where
  "iter_raw ex sk seq lo hi reverse db =
     (let view = read_view_of db; seq = min (case seq of Some s \<Rightarrow> s | None \<Rightarrow> rv_visible view) (rv_visible view)
      in db_iterator_new ex sk view (db_cache db) seq lo hi reverse)"

definition clamp_lo :: "bytes option \<Rightarrow> bytes" where
  "clamp_lo lo = (case lo of Some l \<Rightarrow> if user_keyspace_start \<le> l then l else user_keyspace_start | None \<Rightarrow> user_keyspace_start)"

definition iter_at_seq ::
    "codecs \<Rightarrow> 'm skip_ops \<Rightarrow> seqno option \<Rightarrow> bytes option \<Rightarrow> bytes option \<Rightarrow> bool \<Rightarrow> 'm db \<Rightarrow> 'm db_iterator res" where
  "iter_at_seq ex sk seq lo hi reverse db = iter_raw ex sk seq (clamp_lo lo) hi reverse db"

record 's txn_iter =
  ti_base :: 's
  ti_peek :: "(bytes \<times> bytes) option"
  ti_overlay :: "(bytes \<times> bytes option) list"
  ti_reverse :: bool
  ti_done :: bool

definition overlay_range :: "bytes option \<Rightarrow> bytes option \<Rightarrow> (bytes \<times> bytes option) list \<Rightarrow> (bytes \<times> bytes option) list" where
  "overlay_range lo hi ws =
     filter (\<lambda>(k, _). (case lo of None \<Rightarrow> True | Some l \<Rightarrow> l \<le> k) \<and> (case hi of None \<Rightarrow> True | Some h \<Rightarrow> k < h)) ws"

definition txn_iter_new ::
    "codecs \<Rightarrow> 'm skip_ops \<Rightarrow> bytes option \<Rightarrow> bytes option \<Rightarrow> bool \<Rightarrow> txn \<Rightarrow> 'm db \<Rightarrow> 'm db_iterator txn_iter res" where
  "txn_iter_new ex sk lo hi reverse tx db =
     rbind (iter_at_seq ex sk (Some (tx_snap tx)) lo hi reverse db) (\<lambda>base.
       let overlay = overlay_range lo hi (tx_writes tx)
       in Ok \<lparr>ti_base = base, ti_peek = None, ti_overlay = (if reverse then rev overlay else overlay),
              ti_reverse = reverse, ti_done = False\<rparr>)"

text \<open>\<open>step\<close> is the base iterator's \<open>next\<close>; \<open>None\<close> is a call that does not return.\<close>

type_synonym 's pair_step = "'s \<Rightarrow> ((bytes \<times> bytes) res option \<times> 's) option"

definition fill_base :: "'s pair_step \<Rightarrow> 's txn_iter \<Rightarrow> (unit res \<times> 's txn_iter) option" where
  "fill_base step t =
     (if ti_peek t = None
      then (case step (ti_base t) of
              None \<Rightarrow> None
            | Some (None, s) \<Rightarrow> Some (Ok (), t\<lparr>ti_base := s\<rparr>)
            | Some (Some (Inr kv), s) \<Rightarrow> Some (Ok (), t\<lparr>ti_base := s, ti_peek := Some kv\<rparr>)
            | Some (Some (Inl e), s) \<Rightarrow> Some (Err e, t\<lparr>ti_base := s\<rparr>))
      else Some (Ok (), t))"

lemma fill_base_overlay: "fill_base step t = Some (r, t') \<Longrightarrow> ti_overlay t' = ti_overlay t"
  by (auto simp: fill_base_def split: if_splits option.splits sum.splits)

text \<open>Whether the overlay's front comes before, or shadows, what the base has ready.\<close>

definition use_overlay :: "bool \<Rightarrow> bytes \<Rightarrow> (bytes \<times> bytes) option \<Rightarrow> bool" where
  "use_overlay reverse ok peek = (case peek of None \<Rightarrow> True | Some (bk, _) \<Rightarrow> if reverse then bk \<le> ok else ok \<le> bk)"

definition drop_shadowed :: "bytes \<Rightarrow> (bytes \<times> bytes) option \<Rightarrow> (bytes \<times> bytes) option" where
  "drop_shadowed ok peek = (case peek of None \<Rightarrow> None | Some (bk, bv) \<Rightarrow> if bk = ok then None else Some (bk, bv))"

function txn_next :: "'s pair_step \<Rightarrow> 's txn_iter \<Rightarrow> ((bytes \<times> bytes) res option \<times> 's txn_iter) option" where
  "txn_next step t =
     (if ti_done t then Some (None, t)
      else (case fill_base step t of
          None \<Rightarrow> None
        | Some (Inl e, t) \<Rightarrow> Some (Some (Err e), t\<lparr>ti_done := True\<rparr>)
        | Some (Inr _, t) \<Rightarrow>
            (case ti_overlay t of
               [] \<Rightarrow> (case ti_peek t of
                   None \<Rightarrow> Some (None, t\<lparr>ti_done := True\<rparr>)
                 | Some kv \<Rightarrow> Some (Some (Ok kv), t\<lparr>ti_peek := None\<rparr>))
             | (ok, ov) # overlay \<Rightarrow>
                 if use_overlay (ti_reverse t) ok (ti_peek t)
                 then (case ov of
                     Some v \<Rightarrow> Some (Some (Ok (ok, v)), t\<lparr>ti_overlay := overlay, ti_peek := drop_shadowed ok (ti_peek t)\<rparr>)
                   | None \<Rightarrow> txn_next step (t\<lparr>ti_overlay := overlay, ti_peek := drop_shadowed ok (ti_peek t)\<rparr>))
                 else (case ti_peek t of
                     Some kv \<Rightarrow> Some (Some (Ok kv), t\<lparr>ti_peek := None\<rparr>)
                   | None \<Rightarrow> Some (Some (Err (Panic ''unwrap'')), t)))))"
  by pat_completeness auto
termination
  by (relation "measure (\<lambda>(step, t). length (ti_overlay t))") (auto dest!: fill_base_overlay)

declare txn_next.simps [simp del]

text \<open>The first \<open>n\<close> items a caller gets; \<open>None\<close> if a call does not return or hands out an error.\<close>

fun txn_take :: "'s pair_step \<Rightarrow> nat \<Rightarrow> 's txn_iter \<Rightarrow> (bytes \<times> bytes) list option" where
  "txn_take step 0 t = Some []"
| "txn_take step (Suc n) t =
     (case txn_next step t of
        None \<Rightarrow> None
      | Some (None, t) \<Rightarrow> Some []
      | Some (Some (Inl e), t) \<Rightarrow> None
      | Some (Some (Inr p), t) \<Rightarrow> map_option (\<lambda>ps. p # ps) (txn_take step n t))"

section \<open>Commit\<close>

definition write_op :: "bytes \<times> bytes option \<Rightarrow> batch_op" where
  "write_op w = (case w of (k, Some v) \<Rightarrow> OpPut k v | (k, None) \<Rightarrow> OpDelete k)"

definition txn_ops :: "txn \<Rightarrow> batch_op list" where
  "txn_ops tx = map write_op (tx_writes tx)"

text \<open>The keys to validate: the writes, then the locks.\<close>

definition txn_keys :: "txn \<Rightarrow> bytes list" where
  "txn_keys tx = map fst (tx_writes tx) @ map fst (tx_locks tx)"

fun txn_conflicted ::
    "codecs \<Rightarrow> 'm skip_ops \<Rightarrow> 'm read_view \<Rightarrow> seqno \<Rightarrow> bytes list \<Rightarrow> block_cache \<Rightarrow> bool res \<times> block_cache" where
  "txn_conflicted ex sk view snap [] = cres (Ok False)"
| "txn_conflicted ex sk view snap (key # keys) =
     cbind (view_latest ex sk view key) (\<lambda>l. case l of
        Some (seq, _) \<Rightarrow> if snap < seq then cres (Ok True) else txn_conflicted ex sk view snap keys
      | None \<Rightarrow> txn_conflicted ex sk view snap keys)"

definition txn_request :: "txn \<Rightarrow> bool \<Rightarrow> queued" where
  "txn_request tx capture =
     \<lparr>qe_ops = txn_ops tx, qe_bytes = tx_bytes tx, qe_validate = Some (tx_snap tx, txn_keys tx), qe_capture = capture\<rparr>"

definition wait_for_space :: "('m db \<Rightarrow> unit res \<times> 'm db) \<Rightarrow> 'm db \<Rightarrow> unit res \<times> 'm db" where
  "wait_for_space wait db = (if db_stalled db then wait db else (Ok (), db))"

definition commit_direct :: "codecs \<Rightarrow> 'm skip_ops \<Rightarrow> 'm \<Rightarrow> txn \<Rightarrow> bool \<Rightarrow> 'm db \<Rightarrow> unit res \<times> 'm db" where
  "commit_direct ex sk emp tx capture db =
     (let (r, c) = txn_conflicted ex sk (read_view_of db) (tx_snap tx) (txn_keys tx) (db_cache db)
      in sbind (r, db\<lparr>db_cache := c\<rparr>) (\<lambda>conflicted db.
           if conflicted then (Err Conflict, db)
           else if txn_ops tx \<noteq> [] then apply_locked (ex_crc ex) sk emp (txn_ops tx) capture db
           else (Ok (), db)))"

definition queue_alone :: "codecs \<Rightarrow> 'm skip_ops \<Rightarrow> 'm \<Rightarrow> queued \<Rightarrow> 'm db \<Rightarrow> unit res \<times> 'm db" where
  "queue_alone ex sk emp q db = (let (rs, db) = commit_chunk ex sk emp [q] db in (hd rs, db))"

definition txn_commit_body ::
    "codecs \<Rightarrow> 'm skip_ops \<Rightarrow> 'm \<Rightarrow> ('m db \<Rightarrow> unit res \<times> 'm db) \<Rightarrow> (queued \<Rightarrow> 'm db \<Rightarrow> unit res \<times> 'm db) \<Rightarrow>
     txn \<Rightarrow> 'm db \<Rightarrow> unit res \<times> 'm db" where
  "txn_commit_body ex sk emp wait queue tx db =
     (if tx_writes tx = [] \<and> tx_locks tx = [] then (Ok (), db)
      else sbind (check_bg_error db, db) (\<lambda>_ db.
           sbind (wait_for_space wait db) (\<lambda>_ db.
             let capture = \<not> tx_system tx
             in if op_sync (db_opts db) = Always then queue (txn_request tx capture) db
                else commit_direct ex sk emp tx capture db)))"

text \<open>\<open>commit\<close> consumes the transaction, whose drop releases the snapshot.\<close>

definition txn_commit ::
    "codecs \<Rightarrow> 'm skip_ops \<Rightarrow> 'm \<Rightarrow> ('m db \<Rightarrow> unit res \<times> 'm db) \<Rightarrow> (queued \<Rightarrow> 'm db \<Rightarrow> unit res \<times> 'm db) \<Rightarrow>
     txn \<Rightarrow> 'm db \<Rightarrow> unit res \<times> 'm db" where
  "txn_commit ex sk emp wait queue tx db =
     (let (r, db) = txn_commit_body ex sk emp wait queue tx db in (r, txn_drop tx db))"

end
