(* ===== verification/TxnIter.thy ===== *)
theory TxnIter
  imports Txn StoreMap
begin

text \<open>
  A transaction's reads: what it wrote itself over what its snapshot holds. The overlay iterator
  is proved against any base iterator that delivers a list, and then used on the database
  iterator.
\<close>

section \<open>The overlay on lists\<close>

definition emit :: "bytes \<Rightarrow> bytes option \<Rightarrow> (bytes \<times> bytes) list" where
  "emit k w = (case w of None \<Rightarrow> [] | Some v \<Rightarrow> [(k, v)])"

fun overlaid :: "bool \<Rightarrow> (bytes \<times> bytes option) list \<Rightarrow> (bytes \<times> bytes) list \<Rightarrow> (bytes \<times> bytes) list" where
  "overlaid r [] bs = bs"
| "overlaid r ((k, w) # os) [] = emit k w @ overlaid r os []"
| "overlaid r ((k, w) # os) ((bk, bv) # bs) =
     (if (if r then bk \<le> k else k \<le> bk)
      then emit k w @ overlaid r os (if bk = k then bs else (bk, bv) # bs)
      else (bk, bv) # overlaid r ((k, w) # os) bs)"

definition before :: "bool \<Rightarrow> bytes \<Rightarrow> bytes \<Rightarrow> bool" where
  "before r a b \<longleftrightarrow> (if r then b < a else a < b)"

definition dir_keys :: "bool \<Rightarrow> (bytes \<times> 'v) list \<Rightarrow> bool" where
  "dir_keys r m \<longleftrightarrow> sorted_wrt (before r) (map fst m)"

lemma dir_keys_Cons [simp]: "dir_keys r (e # m) \<longleftrightarrow> (\<forall>x \<in> set m. before r (fst e) (fst x)) \<and> dir_keys r m"
  by (simp add: dir_keys_def)

lemma dir_keys_Nil [simp]: "dir_keys r []"
  by (simp add: dir_keys_def)

lemma dir_keys_tm: "dir_keys False m \<longleftrightarrow> tm_keys_ok m" "dir_keys True m \<longleftrightarrow> tm_keys_ok (rev m)"
proof -
  have "before False = (<)" "before True = (\<lambda>a b. b < a)" by (intro ext, simp add: before_def)+
  then show "dir_keys False m \<longleftrightarrow> tm_keys_ok m" "dir_keys True m \<longleftrightarrow> tm_keys_ok (rev m)"
    by (simp_all add: dir_keys_def tm_keys_ok_def rev_map [symmetric] sorted_wrt_rev)
qed

lemma before_trans: "before r a b \<Longrightarrow> before r b c \<Longrightarrow> before r a c"
  by (auto simp: before_def split: if_splits)

lemma overlaid_set:
  "dir_keys r os \<Longrightarrow> dir_keys r bs \<Longrightarrow>
   set (overlaid r os bs) = {(k, v). (k, Some v) \<in> set os} \<union> {e \<in> set bs. fst e \<notin> fst ` set os} \<and> dir_keys r (overlaid r os bs)"
proof (induction r os bs rule: overlaid.induct)
  case (2 r k w os)
  have "before r k x" if "(x, v) \<in> set (overlaid r os [])" for x v
    using 2 that by force
  then show ?case using 2 by (auto simp: emit_def split: option.split)
next
  case (3 r k w os bk bv bs)
  show ?case
  proof (cases "if r then bk \<le> k else k \<le> bk")
    case True
    let ?bs = "if bk = k then bs else (bk, bv) # bs"
    have bs: "dir_keys r ?bs" and os: "dir_keys r os" using 3 by (simp_all split: if_split)
    note ih = 3(1) [OF True os bs]
    have kb: "before r k (fst x)" if "x \<in> set ?bs" for x
    proof (cases "bk = k")
      case False
      then have "before r k bk" using True by (auto simp: before_def split: if_splits)
      then show ?thesis using that False 3(4) before_trans by auto
    qed (use that 3(4) in auto)
    have ko: "before r k (fst x)" if "x \<in> set os" for x using 3(3) that by simp
    have m: "set (overlaid r os ?bs) = {(k, v). (k, Some v) \<in> set os} \<union> {e \<in> set ?bs. fst e \<notin> fst ` set os}"
      by (rule conjunct1 [OF ih])
    have all: "\<forall>x \<in> set (overlaid r os ?bs). before r k (fst x)"
      unfolding m
    proof
      fix x assume "x \<in> {(k, v). (k, Some v) \<in> set os} \<union> {e \<in> set ?bs. fst e \<notin> fst ` set os}"
      then consider "(fst x, Some (snd x)) \<in> set os" | "x \<in> set ?bs" by (cases x) (simp split del: if_split, blast)
      then show "before r k (fst x)"
      proof cases
        case 1
        from ko [OF this] show ?thesis by simp
      qed (rule kb)
    qed
    have nb: "k \<notin> fst ` set ?bs" "k \<notin> fst ` set os"
    proof -
      have "\<not> before r k k" by (simp add: before_def)
      then show "k \<notin> fst ` set ?bs" "k \<notin> fst ` set os"
        using kb ko \<open>\<not> before r k k\<close> by (intro notI; elim imageE; simp)+
    qed
    have e: "{e \<in> set ((bk, bv) # bs). fst e \<notin> fst ` set ((k, w) # os)} = {e \<in> set ?bs. fst e \<notin> fst ` set os}"
      using nb(1) by auto
    have "set (overlaid r ((k, w) # os) ((bk, bv) # bs)) = set (emit k w) \<union> set (overlaid r os ?bs)" using True by simp
    also have "\<dots> = {(q, v). (q, Some v) \<in> set ((k, w) # os)} \<union> {e \<in> set ?bs. fst e \<notin> fst ` set os}"
      unfolding m by (auto simp: emit_def split: option.splits)
    finally have "set (overlaid r ((k, w) # os) ((bk, bv) # bs)) = {(q, v). (q, Some v) \<in> set ((k, w) # os)}
      \<union> {e \<in> set ((bk, bv) # bs). fst e \<notin> fst ` set ((k, w) # os)}" unfolding e .
    moreover have "dir_keys r (overlaid r ((k, w) # os) ((bk, bv) # bs))"
    proof -
      have "overlaid r ((k, w) # os) ((bk, bv) # bs) = emit k w @ overlaid r os ?bs"
        unfolding overlaid.simps by (rule if_P [OF True])
      moreover have "dir_keys r (emit k w @ overlaid r os ?bs)"
        using all conjunct2 [OF ih] by (cases w) (simp_all add: emit_def split del: if_split)
      ultimately show ?thesis by simp
    qed
    ultimately show ?thesis by blast
  next
    case False
    have bs: "dir_keys r bs" using 3 by simp
    note ih = 3(2) [OF False 3(3) bs]
    have kb: "before r bk k" using False by (auto simp: before_def split: if_splits)
    then have ko: "\<forall>x \<in> set ((k, w) # os). before r bk (fst x)" using 3(3) before_trans by auto
    then have "bk \<notin> fst ` set ((k, w) # os)" by (force simp: before_def split: if_splits)
    moreover have "\<forall>x \<in> set (overlaid r ((k, w) # os) bs). before r bk (fst x)" using ih ko 3(4) by fastforce
    moreover have "(bk, b) \<notin> set os" for b using calculation(1) by (force simp: image_iff)
    ultimately show ?thesis using ih False by auto
  qed
qed auto

text \<open>The map a transaction sees: its own writes over \<open>m\<close>.\<close>

definition writes_over :: "(bytes \<times> bytes option) list \<Rightarrow> key_map \<Rightarrow> key_map" where
  "writes_over ws m k = (case map_of ws k of Some w \<Rightarrow> w | None \<Rightarrow> m k)"

lemma tm_set_eqI: "tm_keys_ok m \<Longrightarrow> tm_keys_ok m' \<Longrightarrow> set m = set m' \<Longrightarrow> m = m'"
  by (metis map_of_inject_set tm_eqI tm_keys_distinct)

lemma overlaid_map:
  assumes "tm_keys_ok ws" and "tm_keys_ok bs"
  shows "tm_keys_ok (overlaid False ws bs)" and "map_of (overlaid False ws bs) = writes_over ws (map_of bs)"
    and "overlaid True (rev ws) (rev bs) = rev (overlaid False ws bs)"
proof -
  note f = overlaid_set [of False ws bs, unfolded dir_keys_tm, OF assms]
  show ok: "tm_keys_ok (overlaid False ws bs)" using f by simp
  show "map_of (overlaid False ws bs) = writes_over ws (map_of bs)"
  proof
    fix k
    have "map_of (overlaid False ws bs) k = Some v \<longleftrightarrow> writes_over ws (map_of bs) k = Some v" for v
    proof -
      have "fst ` set ws = dom (map_of ws)" by (simp add: dom_map_of_conv_image_fst)
      then show ?thesis using f
        by (auto simp: tm_mem_map_of [OF ok, symmetric] writes_over_def tm_mem_map_of [OF assms(1)] tm_mem_map_of [OF assms(2)]
            split: option.splits)
    qed
    then show "map_of (overlaid False ws bs) k = writes_over ws (map_of bs) k" by (metis option.exhaust)
  qed
  have "dir_keys True (rev ws)" "dir_keys True (rev bs)" using assms by (simp_all add: dir_keys_tm)
  note g = overlaid_set [OF this]
  have "rev (overlaid True (rev ws) (rev bs)) = overlaid False ws bs"
    by (rule tm_set_eqI) (use f g ok in \<open>simp_all add: dir_keys_tm\<close>)
  then show "overlaid True (rev ws) (rev bs) = rev (overlaid False ws bs)" by (metis rev_rev_ident)
qed

section \<open>The iterator\<close>

text \<open>A base iterator that delivers a list of pairs, one a call, and then ends.\<close>

locale delivering =
  fixes step :: "'s pair_step" and delivers :: "'s \<Rightarrow> (bytes \<times> bytes) list \<Rightarrow> bool"
  assumes step: "delivers s xs \<Longrightarrow> \<exists>s'. step s = Some (map_option Ok (hd_opt xs), s') \<and> delivers s' (tl xs)"
begin

definition ti_holds :: "'s txn_iter \<Rightarrow> (bytes \<times> bytes) list \<Rightarrow> bool" where
  "ti_holds t bs \<longleftrightarrow> \<not> ti_done t \<and> (case ti_peek t of
      None \<Rightarrow> delivers (ti_base t) bs
    | Some kv \<Rightarrow> (\<exists>bs'. bs = kv # bs' \<and> delivers (ti_base t) bs'))"

lemma fill_base_spec:
  assumes "ti_holds t bs"
  shows "\<exists>t'. fill_base step t = Some (Ok (), t') \<and> ti_holds t' bs \<and> ti_peek t' = hd_opt bs
    \<and> ti_overlay t' = ti_overlay t \<and> ti_reverse t' = ti_reverse t"
proof (cases "ti_peek t")
  case None
  then have d: "delivers (ti_base t) bs" "\<not> ti_done t" using assms by (simp_all add: ti_holds_def)
  obtain s' where "step (ti_base t) = Some (map_option Ok (hd_opt bs), s')" "delivers s' (tl bs)" using step [OF d(1)] by blast
  then show ?thesis using None d(2) by (cases bs) (auto simp: fill_base_def ti_holds_def)
next
  case (Some kv)
  then show ?thesis using assms by (auto simp: fill_base_def ti_holds_def)
qed

text \<open>An iterator that has come to its end, or holds what is left of the overlaid list.\<close>

definition ti_left :: "bool \<Rightarrow> 's txn_iter \<Rightarrow> (bytes \<times> bytes) list \<Rightarrow> bool" where
  "ti_left r t xs \<longleftrightarrow> ti_reverse t = r \<and> (ti_done t \<and> xs = [] \<or> (\<exists>bs. ti_holds t bs \<and> xs = overlaid r (ti_overlay t) bs))"

lemma txn_next_holds:
  "ti_holds t bs \<Longrightarrow> \<exists>t'. txn_next step t = Some (map_option Ok (hd_opt (overlaid (ti_reverse t) (ti_overlay t) bs)), t')
    \<and> ti_left (ti_reverse t) t' (tl (overlaid (ti_reverse t) (ti_overlay t) bs))"
proof (induction "ti_overlay t" arbitrary: t bs)
  case Nil
  obtain t1 where f: "fill_base step t = Some (Ok (), t1)" "ti_holds t1 bs" "ti_peek t1 = hd_opt bs"
    "ti_overlay t1 = ti_overlay t" "ti_reverse t1 = ti_reverse t" using fill_base_spec [OF Nil(2)] by blast
  have "\<not> ti_done t" using Nil(2) by (simp add: ti_holds_def)
  then show ?case using f Nil(1) [symmetric]
    by (cases bs) (auto simp: txn_next.simps [of step t] ti_left_def ti_holds_def)
next
  case (Cons o' os)
  obtain k w where o: "o' = (k, w)" by (cases o')
  obtain t1 where f: "fill_base step t = Some (Ok (), t1)" "ti_holds t1 bs" "ti_peek t1 = hd_opt bs"
    "ti_overlay t1 = ti_overlay t" "ti_reverse t1 = ti_reverse t" using fill_base_spec [OF Cons.prems] by blast
  have nd: "\<not> ti_done t" using Cons.prems by (simp add: ti_holds_def)
  let ?r = "ti_reverse t"
  let ?t2 = "t1\<lparr>ti_overlay := os, ti_peek := drop_shadowed k (ti_peek t1)\<rparr>"
  let ?bs = "case bs of [] \<Rightarrow> [] | (bk, bv) # bs' \<Rightarrow> if bk = k then bs' else bs"
  have ov: "ti_overlay t1 = (k, w) # os" using f(4) Cons.hyps(2) o by simp
  have t2: "ti_holds ?t2 ?bs" using f(2,3) by (cases bs) (auto simp: ti_holds_def drop_shadowed_def)
  show ?case
  proof (cases "use_overlay ?r k (ti_peek t1)")
    case True
    then have e: "overlaid ?r ((k, w) # os) bs = emit k w @ overlaid ?r os ?bs"
      using f(3) by (cases bs) (auto simp: use_overlay_def)
    show ?thesis
    proof (cases w)
      case (Some v)
      then have "txn_next step t = Some (Some (Ok (k, v)), ?t2)"
        using nd f(1,5) ov True by (simp add: txn_next.simps [of step t])
      then show ?thesis using e Some t2 f(4,5) ov by (auto simp: emit_def ti_left_def)
    next
      case None
      then have "txn_next step t = txn_next step ?t2"
        using nd f(1,5) ov True by (simp add: txn_next.simps [of step t])
      moreover have "os = ti_overlay ?t2" "ti_reverse ?t2 = ?r" using f(5) by simp_all
      ultimately show ?thesis using Cons.hyps(1) [of ?t2, OF _ t2] e None f(4) ov by (simp add: emit_def)
    qed
  next
    case False
    then obtain bk bv bs' where bs: "bs = (bk, bv) # bs'" using f(3) by (cases bs) (auto simp: use_overlay_def)
    have "txn_next step t = Some (Some (Ok (bk, bv)), t1\<lparr>ti_peek := None\<rparr>)"
      using nd f(1,3,5) ov False bs by (simp add: txn_next.simps [of step t])
    moreover have "ti_holds (t1\<lparr>ti_peek := None\<rparr>) bs'" using f(2,3) bs by (simp add: ti_holds_def)
    moreover have "overlaid ?r ((k, w) # os) bs = (bk, bv) # overlaid ?r ((k, w) # os) bs'"
      using False bs f(3) by (auto simp: use_overlay_def)
    ultimately show ?thesis using f(4,5) ov by (auto simp: ti_left_def)
  qed
qed

lemma txn_take_left: "ti_left r t xs \<Longrightarrow> txn_take step n t = Some (take n xs)"
proof (induction n arbitrary: t xs)
  case (Suc n)
  have "\<exists>t'. txn_next step t = Some (map_option Ok (hd_opt xs), t') \<and> ti_left r t' (tl xs)"
  proof (cases "ti_done t")
    case True
    then show ?thesis using Suc.prems by (auto simp: ti_left_def ti_holds_def txn_next.simps)
  next
    case False
    then show ?thesis using Suc.prems txn_next_holds unfolding ti_left_def by blast
  qed
  then show ?case using Suc.IH by (cases xs) auto
qed simp

end

interpretation dbi: delivering "db_iterator_next ex sk ho"
  "\<lambda>s xs. order_ok ho \<and> (\<exists>vals. di_inv ex sk ents P s vals \<and> xs = di_ready s @ vals)" for ex sk ho ents P
proof
  fix s xs assume "order_ok ho \<and> (\<exists>vals. di_inv ex sk ents P s vals \<and> xs = di_ready s @ vals)"
  then obtain vals where v: "order_ok ho" "di_inv ex sk ents P s vals" "xs = di_ready s @ vals" by blast
  show "\<exists>s'. db_iterator_next ex sk ho s = Some (map_option Ok (hd_opt xs), s')
      \<and> (order_ok ho \<and> (\<exists>vals. di_inv ex sk ents P s' vals \<and> tl xs = di_ready s' @ vals))"
    using db_iterator_next_delivers [OF v(2,1)] v(1,3) by metis
qed

section \<open>What a scan of the store hands out\<close>

lemma remdups_adj_strict: "sorted xs \<Longrightarrow> sorted_wrt (<) (remdups_adj xs)"
proof (induction xs rule: remdups_adj.induct)
  case (3 x y xs)
  then show ?case by (cases "x = y") (auto simp: less_le)
qed simp_all

lemma map_filter_keys:
  assumes "sorted_wrt (<) ks" and "\<And>k x. f k = Some x \<Longrightarrow> fst x = k"
  shows "tm_keys_ok (List.map_filter f ks)
    \<and> map_of (List.map_filter f ks) k = (if k \<in> set ks then map_option snd (f k) else None)"
  using assms(1)
proof (induction ks)
  case (Cons q ks)
  have sub: "fst ` set (List.map_filter f ks) \<subseteq> set ks"
    using assms(2) by (force simp: List.map_filter_def)
  then have "map_of (List.map_filter f ks) q = None" using Cons.prems by (auto simp: map_of_eq_None_iff)
  moreover have "tm_keys_ok (x # List.map_filter f ks)" if "f q = Some x" for x
    using Cons sub assms(2) [OF that] by (auto simp: tm_keys_ok_def)
  ultimately show ?case using Cons assms(2) [of q] by (cases "f q") (force simp: List.map_filter_simps)+
qed (simp add: List.map_filter_def)

lemma lookup_at_filter: "lookup_at (filter (\<lambda>e. Q (ukey e)) es) k s = (if Q k then lookup_at es k s else None)"
  by (induction es) (auto simp: lookup_at_Cons is_version_def)

lemma range_scan_keys:
  assumes "entries_sorted es"
  shows "tm_keys_ok (range_scan es snap lo hi)
    \<and> map_of (range_scan es snap lo hi) k = (if in_range lo hi k then map_option snd (visible_put es snap k) else None)"
proof -
  let ?es = "filter (\<lambda>e. in_range lo hi (ukey e)) es"
  have "sorted (map ukey es)" using assms
    by (induction es) (auto simp: less_vkey_def vkey_of_def less_imp_le)
  then have "sorted (map ukey ?es)" by (rule sorted_filter)
  then have srt: "sorted_wrt (<) (remdups_adj (map ukey ?es))" by (rule remdups_adj_strict)
  have fk: "fst x = q" if "visible_put ?es snap q = Some x" for q x
    using that by (auto simp: visible_put_def split: option.splits if_splits)
  have vp: "visible_put ?es snap k = (if in_range lo hi k then visible_put es snap k else None)"
    by (simp add: visible_put_def lookup_at_filter)
  have "visible_put ?es snap k = None" if "k \<notin> set (map ukey ?es)"
  proof -
    have "ukey e \<noteq> k" if "e \<in> set ?es" for e
    proof
      assume "ukey e = k"
      moreover have "ukey e \<in> set (map ukey ?es)" using that unfolding set_map by (rule imageI)
      ultimately show False using \<open>k \<notin> set (map ukey ?es)\<close> by metis
    qed
    then have "lookup_at ?es k snap = None" unfolding lookup_at_None_iff is_version_def by blast
    then show ?thesis by (simp add: visible_put_def)
  qed
  then have nv: "map_option snd (visible_put ?es snap k) = None" if "k \<notin> set (remdups_adj (map ukey ?es))" using that by simp
  note mf = map_filter_keys [OF srt fk, where k = k]
  have "map_of (range_scan es snap lo hi) k = map_option snd (visible_put ?es snap k)"
    unfolding range_scan_def scan_list_def using mf nv by (metis (no_types))
  then show ?thesis using mf vp by (simp add: range_scan_def scan_list_def)
qed

lemma map_of_map_key: "map_of (map (\<lambda>(k, r). (k, f k)) xs) k = map_option (\<lambda>_. f k) (map_of xs k)"
  by (induction xs) auto

lemma value_at_stands:
  assumes "value_at (ex_crc ex) P (vs_vlogs vs) k repr v"
  shows "repr_stands (ex_crc ex) P vs (k, repr) (k, v)"
  using assms unfolding value_at_def
proof (elim disjE exE conjE)
  fix p h
  assume p: "decode_repr repr = Ok (Ptr p)" "map_of (vs_vlogs vs) (vp_file p) = Some h" "record_at (ex_crc ex) P h p k v"
  have r: "record_value_for (ex_crc ex) (encode_record (ex_crc ex) k v) k = Ok v"
    using p(3) record_value_for_encode record_ok_slices by (auto simp: record_at_def)
  have "file_read_exact_at (unat (vp_offset p)) (unat (vp_len p)) (vh_file h) = Ok (encode_record (ex_crc ex) k v)"
    using p(3) committed_read unfolding record_at_def by metis
  then show ?thesis using p r by (auto simp: repr_stands_def pointer_ok_def record_at_def)
qed (simp add: repr_stands_def)

lemma db_scan_values:
  assumes ok: "db_ok ex sk ents P db" and m: "db_holds ex ents P db s m" and s: "s \<le> db_visible db"
  shows "\<exists>vals. list_all2 (repr_stands (ex_crc ex) P (rv_version (read_view_of db)))
      (range_scan (view_entries ex ents (read_view_of db)) s lo hi) vals
    \<and> tm_keys_ok vals \<and> map_of vals = (\<lambda>k. if in_range lo hi k then m k else None)"
proof -
  let ?v = "read_view_of db"
  let ?es = "view_entries ex ents ?v"
  let ?scan = "range_scan ?es s lo hi"
  have v: "view_sound ex sk ents P ?v" using ok by (simp add: db_ok_def)
  note rk = range_scan_keys [OF view_entries_sorted [OF v], of s lo hi]
  have hit: "lookup_at ?es k s = first_hit (db_layers ex ents db) k s" for k
    using v first_hit_merge by (simp add: view_sound_def view_entries_def db_layers_def)
  have vl: "vs_vlogs (rv_version ?v) = vlogs_now db" by (simp add: read_view_of_def)
  have hs: "hit_stands (value_at (ex_crc ex) P (vlogs_now db)) k (lookup_at ?es k s) (m k)" for k
    using m by (simp add: db_holds_def layers_hold_def hit)
  have vp: "case visible_put ?es s k of None \<Rightarrow> m k = None
    | Some (k', repr) \<Rightarrow> k' = k \<and> (\<exists>v. m k = Some v \<and> value_at (ex_crc ex) P (vlogs_now db) k repr v)" for k
    using hs [of k] by (auto simp: visible_put_def hit_stands_def split: option.splits)
  let ?vals = "map (\<lambda>(k, repr). (k, the (m k))) ?scan"
  have in_scan: "in_range lo hi k \<and> (\<exists>v. m k = Some v \<and> value_at (ex_crc ex) P (vlogs_now db) k repr v)" if "(k, repr) \<in> set ?scan" for k repr
  proof -
    have "map_of ?scan k = Some repr" using rk that by (simp add: tm_mem_map_of)
    then show ?thesis using rk [of k] vp [of k] by (auto split: if_splits option.splits)
  qed
  have "list_all2 (repr_stands (ex_crc ex) P (rv_version ?v)) ?scan ?vals"
    unfolding list_all2_map2 list_all2_same
  proof
    fix x assume x: "x \<in> set ?scan"
    obtain k repr where k: "x = (k, repr)" by (cases x)
    obtain w where "m k = Some w" "value_at (ex_crc ex) P (vs_vlogs (rv_version ?v)) k repr w" using in_scan x k vl by auto
    then show "repr_stands (ex_crc ex) P (rv_version ?v) x (case x of (k, repr) \<Rightarrow> (k, the (m k)))"
      using value_at_stands k by simp
  qed
  moreover have "map fst ?vals = map fst ?scan" by (auto simp: case_prod_beta)
  then have "tm_keys_ok ?vals" using rk unfolding tm_keys_ok_def by (simp del: map_map)
  moreover have "map_of ?vals = (\<lambda>k. if in_range lo hi k then m k else None)"
  proof
    fix k
    have "map_of ?vals k = map_option (\<lambda>_. the (m k)) (map_of ?scan k)" by (rule map_of_map_key)
    then show "map_of ?vals k = (if in_range lo hi k then m k else None)"
      using rk [of k] vp [of k] by (auto split: option.splits)
  qed
  ultimately show ?thesis by blast
qed

section \<open>Reads of a transaction\<close>

text \<open>The write set and the lock set are ordered maps.\<close>

definition txn_ok :: "txn \<Rightarrow> bool" where
  "txn_ok tx \<longleftrightarrow> tm_keys_ok (tx_writes tx) \<and> tm_keys_ok (tx_locks tx)"

lemma map_of_filter_keys: "map_of (List.filter (\<lambda>(k, _). Q k) ws) k = (if Q k then map_of ws k else None)"
proof (induction ws)
  case (Cons a ws)
  then show ?case by (cases a) (auto split: if_splits)
qed simp

lemma overlay_range_map:
  assumes "tm_keys_ok ws"
  shows "tm_keys_ok (overlay_range lo hi ws)"
    and "map_of (overlay_range lo hi ws) k = (if (case lo of None \<Rightarrow> True | Some l \<Rightarrow> l \<le> k) \<and> (case hi of None \<Rightarrow> True | Some h \<Rightarrow> k < h)
      then map_of ws k else None)"
proof -
  show "tm_keys_ok (overlay_range lo hi ws)"
    using assms unfolding tm_keys_ok_def overlay_range_def sorted_wrt_map by (rule sorted_wrt_filter)
  show "map_of (overlay_range lo hi ws) k = (if (case lo of None \<Rightarrow> True | Some l \<Rightarrow> l \<le> k) \<and> (case hi of None \<Rightarrow> True | Some h \<Rightarrow> k < h)
      then map_of ws k else None)"
    unfolding overlay_range_def by (rule map_of_filter_keys)
qed

text \<open>
  C6: a transaction reads its own writes over its snapshot: a get returns the value it wrote, or
  no value for a key it deleted, and otherwise what the snapshot holds; and a scan hands out, in
  order, once each, exactly the pairs of that map whose key is in the range and in the user
  keyspace, in reverse the same pairs backwards. Every call returns.
\<close>

theorem txn_reads_own_writes:
  assumes "db_ok ex sk ents P db" and "db_holds ex ents P db (tx_snap tx) m" and "tx_snap tx \<le> db_visible db"
    and "txn_ok tx" and "order_ok ho" and "\<forall>k \<in> fst ` set (tx_writes tx). user_keyspace_start \<le> k"
    and "validate_user_key key = Ok ()"
  shows "fst (txn_get ex sk key tx db) = Ok (writes_over (tx_writes tx) m key)
    \<and> (\<exists>t out. txn_iter_new ex sk lo hi reverse tx db = Ok t
      \<and> txn_take (db_iterator_next ex sk ho) n t = Some (take n (if reverse then rev out else out))
      \<and> tm_keys_ok out
      \<and> map_of out = (\<lambda>k. if in_range (clamp_lo lo) hi k then writes_over (tx_writes tx) m k else None))"
proof
  show "fst (txn_get ex sk key tx db) = Ok (writes_over (tx_writes tx) m key)"
  proof (cases "map_of (tx_writes tx) key")
    case None
    have "db_holds ex ents P db (min (tx_snap tx) (db_visible db)) m" using assms(2,3) by (simp add: min_absorb1)
    from get_at_seq_holds [OF assms(1) this, of key] None show ?thesis
      by (auto simp: txn_get_def assms(7) writes_over_def)
  qed (simp add: txn_get_def assms(7) writes_over_def)
next
  let ?v = "read_view_of db" and ?lo = "clamp_lo lo" and ?ws = "overlay_range lo hi (tx_writes tx)"
  obtain vals where v: "list_all2 (repr_stands (ex_crc ex) P (rv_version ?v)) (range_scan (view_entries ex ents ?v) (tx_snap tx) ?lo hi) vals"
    "tm_keys_ok vals" "map_of vals = (\<lambda>k. if in_range ?lo hi k then m k else None)"
    using db_scan_values [OF assms(1-3)] by blast
  have vs: "view_sound ex sk ents P ?v" and ch: "cache_holds P (db_cache db)" using assms(1) by (simp_all add: db_ok_def)
  obtain s where s: "db_iterator_new ex sk ?v (db_cache db) (tx_snap tx) ?lo hi reverse = Ok s"
    "di_inv ex sk ents P s (if reverse then rev vals else vals)" "di_ready s = []"
    using db_iterator_starts [OF vs ch v(1), of reverse] by blast
  have mn: "min (tx_snap tx) (rv_visible ?v) = tx_snap tx" using assms(3) by (simp add: read_view_of_def min_absorb1)
  let ?t = "\<lparr>ti_base = s, ti_peek = None, ti_overlay = (if reverse then rev ?ws else ?ws), ti_reverse = reverse, ti_done = False\<rparr>"
  have t: "txn_iter_new ex sk lo hi reverse tx db = Ok ?t"
    using s(1) mn by (simp add: txn_iter_new_def iter_at_seq_def iter_raw_def Let_def)
  have wo: "tm_keys_ok (tx_writes tx)" using assms(4) by (simp add: txn_ok_def)
  note ow = overlay_range_map [OF wo, of lo hi]
  let ?out = "overlaid False ?ws vals"
  note om = overlaid_map [OF ow(1) v(2)]
  have "dbi.ti_holds ho ex sk ents P ?t (if reverse then rev vals else vals)"
    unfolding dbi.ti_holds_def using s(2,3) assms(5) by auto
  then have "dbi.ti_left ho ex sk ents P reverse ?t (if reverse then rev ?out else ?out)"
    unfolding dbi.ti_left_def using om(3) by (cases reverse) (auto intro!: exI [of _ "if reverse then rev vals else vals"])
  then have tk: "txn_take (db_iterator_next ex sk ho) n ?t = Some (take n (if reverse then rev ?out else ?out))"
    by (rule dbi.txn_take_left)
  have "map_of ?out = (\<lambda>k. if in_range ?lo hi k then writes_over (tx_writes tx) m k else None)"
  proof
    fix k
    have st: "user_keyspace_start \<le> k" if "map_of (tx_writes tx) k = Some w" for w
      using assms(6) that map_of_SomeD by force
    show "map_of ?out k = (if in_range ?lo hi k then writes_over (tx_writes tx) m k else None)"
      unfolding om(2) writes_over_def ow(2) v(3)
      by (cases "map_of (tx_writes tx) k") (auto simp: in_range_def clamp_lo_def dest: st split: option.splits)
  qed
  then show "\<exists>t out. txn_iter_new ex sk lo hi reverse tx db = Ok t
      \<and> txn_take (db_iterator_next ex sk ho) n t = Some (take n (if reverse then rev out else out)) \<and> tm_keys_ok out
      \<and> map_of out = (\<lambda>k. if in_range ?lo hi k then writes_over (tx_writes tx) m k else None)"
    using t tk om(1) by blast
qed

text \<open>A transaction on the sample store that has written one key and deleted another.\<close>

definition sample_txn :: txn where
  "sample_txn = \<lparr>tx_snap = 0, tx_registered = True, tx_writes = [([107], Some [5]), ([108], None)], tx_locks = [([109], ())],
     tx_bytes = 3, tx_system = False\<rparr>"

theorem txn_reads_own_writes_witness:
  "fst (txn_get sample_codecs list_skip_ops [107] sample_txn sample_db) = Ok (Some [5])
   \<and> (\<exists>t out. txn_iter_new sample_codecs list_skip_ops None None True sample_txn sample_db = Ok t
      \<and> txn_take (db_iterator_next sample_codecs list_skip_ops (\<lambda>gs. gs)) 5 t = Some (take 5 (rev out))
      \<and> map_of out [107] = Some [5] \<and> map_of out [108] = None)"
proof -
  have t: "txn_ok sample_txn" "tx_snap sample_txn \<le> db_visible sample_db" "order_ok (\<lambda>gs. gs)"
    "\<forall>k \<in> fst ` set (tx_writes sample_txn). user_keyspace_start \<le> k" "validate_user_key [107] = Ok ()"
    by (simp_all add: sample_txn_def txn_ok_def tm_keys_ok_def order_ok_def user_keyspace_start_def validate_user_key_Ok_iff)
  have r: "in_range (clamp_lo None) None [107]" by (simp add: in_range_def clamp_lo_def user_keyspace_start_def)
  have w: "writes_over (tx_writes sample_txn) (\<lambda>_. None) [107] = Some [5]" "writes_over (tx_writes sample_txn) (\<lambda>_. None) [108] = None"
    by (simp_all add: writes_over_def sample_txn_def)
  have r2: "in_range (clamp_lo None) None [108]" by (simp add: in_range_def clamp_lo_def user_keyspace_start_def)
  note c = txn_reads_own_writes [OF sample_db_ok sample_db_holds t(2,1,3,4,5), where ex = sample_codecs and lo = None and hi = None and reverse = True and n = 5, unfolded w]
  then obtain tt out where o: "txn_iter_new sample_codecs list_skip_ops None None True sample_txn sample_db = Ok tt"
    "txn_take (db_iterator_next sample_codecs list_skip_ops (\<lambda>gs. gs)) 5 tt = Some (take 5 (rev out))"
    "map_of out = (\<lambda>k. if in_range (clamp_lo None) None k then writes_over (tx_writes sample_txn) (\<lambda>_. None) k else None)"
    by auto
  have "map_of out [107] = Some [5]" "map_of out [108] = None" unfolding o(3) using r r2 w by simp_all
  with c o(1,2) show ?thesis by blast
qed

end
