(* ===== verification/TxnProofs.thy ===== *)
theory TxnProofs
  imports TxnIter GroupProofs
begin

text \<open>
  Transactions as a whole: what the buffered state is after any calls, and what a commit does to
  the store: it refuses a transaction one of whose keys has a newer version than its snapshot,
  and otherwise installs the buffered writes over the newest state at one point.
\<close>

section \<open>The buffered state\<close>

text \<open>The calls of a client that change the transaction.\<close>

datatype txn_call = CallPut bytes bytes | CallDelete bytes | CallGetForUpdate bytes

definition txn_do :: "codecs \<Rightarrow> 'm skip_ops \<Rightarrow> txn_call \<Rightarrow> txn \<times> 'm db \<Rightarrow> txn \<times> 'm db" where
  "txn_do ex sk c s = (case s of (tx, db) \<Rightarrow> (case c of
       CallPut key val \<Rightarrow> (snd (txn_put (db_opts db) key val tx), db)
     | CallDelete key \<Rightarrow> (snd (txn_delete (db_opts db) key tx), db)
     | CallGetForUpdate key \<Rightarrow> snd (txn_get_for_update ex sk key tx db)))"

definition write_cost :: "(bytes \<times> bytes option) list \<Rightarrow> nat" where
  "write_cost ws = (\<Sum>(k, w)\<leftarrow>ws. length k + (case w of Some v \<Rightarrow> length v | None \<Rightarrow> 0))"

lemma write_cost_Cons [simp]:
  "write_cost [] = 0" "write_cost ((k, w) # ws) = length k + (case w of Some v \<Rightarrow> length v | None \<Rightarrow> 0) + write_cost ws"
  by (simp_all add: write_cost_def)

lemma write_cost_put: "write_cost (tm_put k w ws) \<le> length k + (case w of Some v \<Rightarrow> length v | None \<Rightarrow> 0) + write_cost ws"
  by (induction k w ws rule: tm_put.induct) auto

definition buffer_ok :: "options \<Rightarrow> txn \<Rightarrow> bool" where
  "buffer_ok opts tx \<longleftrightarrow> txn_ok tx \<and> (\<forall>k \<in> set (txn_keys tx). user_keyspace_start \<le> k)
     \<and> write_cost (tx_writes tx) \<le> tx_bytes tx \<and> write_cost (tx_writes tx) \<le> op_max_txn_write_bytes opts
     \<and> (\<forall>(k, w) \<in> set (tx_writes tx). case w of Some v \<Rightarrow> length k \<le> op_max_key_size opts \<and> length v \<le> op_max_value_size opts | None \<Rightarrow> True)"

lemma set_tm_put: "set (tm_put k v m) \<subseteq> insert (k, v) (set m)"
  by (induction k v m rule: tm_put.induct) auto

lemma buffer_ok_insert:
  assumes "buffer_ok opts tx" and "user_keyspace_start \<le> k"
    and "length k + (case w of Some v \<Rightarrow> length v | None \<Rightarrow> 0) + tx_bytes tx \<le> op_max_txn_write_bytes opts"
    and "\<forall>v. w = Some v \<longrightarrow> length k \<le> op_max_key_size opts \<and> length v \<le> op_max_value_size opts"
  shows "buffer_ok opts (txn_insert k w (tx\<lparr>tx_bytes := tx_bytes tx + (length k + (case w of Some v \<Rightarrow> length v | None \<Rightarrow> 0))\<rparr>))"
proof -
  have c: "write_cost (tm_put k w (tx_writes tx)) \<le> length k + (case w of Some v \<Rightarrow> length v | None \<Rightarrow> 0) + write_cost (tx_writes tx)"
    by (rule write_cost_put)
  have "\<forall>(k, w) \<in> set (tm_put k w (tx_writes tx)). case w of Some v \<Rightarrow> length k \<le> op_max_key_size opts \<and> length v \<le> op_max_value_size opts | None \<Rightarrow> True"
    using assms(1,4) set_tm_put [of k w "tx_writes tx"] by (fastforce simp: buffer_ok_def split: option.splits)
  then show ?thesis using assms(1-3) c tm_put_keys [of k w "tx_writes tx"]
    by (auto simp: buffer_ok_def txn_insert_def txn_ok_def txn_keys_def)
qed

lemma buffer_ok_bytes: "buffer_ok opts tx \<Longrightarrow> tx_bytes tx \<le> n \<Longrightarrow> buffer_ok opts (tx\<lparr>tx_bytes := n\<rparr>)"
  by (simp add: buffer_ok_def txn_ok_def txn_keys_def)

lemma txn_put_buffer: "buffer_ok opts tx \<Longrightarrow> buffer_ok opts (snd (txn_put opts key val tx))"
  using buffer_ok_insert [of opts tx key "Some val"] buffer_ok_bytes [of opts tx]
  by (cases "validate_user_key key") (auto simp: txn_put_def sbind_def track_bytes_def Let_def ac_simps not_less validate_user_key_Ok_iff [symmetric])

lemma txn_delete_buffer: "buffer_ok opts tx \<Longrightarrow> buffer_ok opts (snd (txn_delete opts key tx))"
  using buffer_ok_insert [of opts tx key None] buffer_ok_bytes [of opts tx]
  by (cases "validate_user_key key") (auto simp: txn_delete_def sbind_def track_bytes_def Let_def ac_simps not_less validate_user_key_Ok_iff [symmetric])

lemma get_at_seq_opts: "db_opts (snd (get_at_seq ex sk k s db)) = db_opts db"
  by (auto simp: get_at_seq_def Let_def split: prod.splits sum.splits option.splits value_kind.splits)

lemma txn_get_for_update_buffer:
  assumes "buffer_ok opts tx"
  shows "buffer_ok opts (fst (snd (txn_get_for_update ex sk key tx db)))
    \<and> db_opts (snd (snd (txn_get_for_update ex sk key tx db))) = db_opts db"
proof (cases "validate_user_key key")
  case (Inr u)
  then have "user_keyspace_start \<le> key" using validate_user_key_Ok_iff by auto
  then have "buffer_ok opts (tx\<lparr>tx_locks := tm_put key () (tx_locks tx)\<rparr>)"
    using assms tm_put_keys [of key "()" "tx_locks tx"] by (auto simp: buffer_ok_def txn_ok_def txn_keys_def)
  then show ?thesis using Inr get_at_seq_opts [of ex sk key "tx_snap tx" db]
    by (auto simp: txn_get_for_update_def txn_get_def sbind_def Let_def split: prod.splits option.splits)
qed (use assms in \<open>simp add: txn_get_for_update_def sbind_def\<close>)

lemma txn_do_buffer:
  assumes "buffer_ok opts (fst s)" and "db_opts (snd s) = opts"
  shows "buffer_ok opts (fst (txn_do ex sk c s)) \<and> db_opts (snd (txn_do ex sk c s)) = opts"
proof -
  obtain tx d where s: "s = (tx, d)" by (cases s)
  note b = assms(1) [unfolded s fst_conv]
  show ?thesis using txn_put_buffer [OF b] txn_delete_buffer [OF b] txn_get_for_update_buffer [OF b, of ex sk _ d] s assms(2) b
    by (cases c) (simp_all add: txn_do_def)
qed


section \<open>Commit\<close>

text \<open>The events captured with a batch live in the system keyspace.\<close>

lemma system_key: "\<not> user_keyspace_start \<le> sys_prefix # k"
  by (simp add: user_keyspace_start_def sys_prefix_def)

lemma event_key_system: "\<not> user_keyspace_start \<le> sys_trigger_event_key name k" "\<not> user_keyspace_start \<le> sys_trigger_change_key name q"
  using system_key by (simp_all add: sys_trigger_event_key_def sys_trigger_change_key_def)

lemma capture_op_system:
  "(\<forall>k \<in> set (fst (capture_op cap q bop ds)). \<not> user_keyspace_start \<le> k)
   \<and> (\<forall>p \<in> set (snd (capture_op cap q bop ds)). \<not> user_keyspace_start \<le> op_key p)"
  by (induction ds) (auto simp: Let_def event_key_system split: prod.splits trigger_mode.splits)

lemma capture_loop_system:
  "(\<forall>k \<in> set (fst (capture_loop defs cap base i bops)). \<not> user_keyspace_start \<le> k)
   \<and> (\<forall>p \<in> set (snd (capture_loop defs cap base i bops)). \<not> user_keyspace_start \<le> op_key p)"
proof (induction bops arbitrary: i)
  case (Cons bop bops)
  show ?case using Cons.IH [of "Suc i"] capture_op_system [of cap "base + of_nat i" bop defs]
    by (auto simp: Let_def split: prod.splits)
qed simp

lemma capture_events_system: "p \<in> set (capture_events db bops base capture) \<Longrightarrow> \<not> user_keyspace_start \<le> op_key p"
  using capture_loop_system [of "db_defs db" "inline_cap_of (db_opts db)" base 0 bops]
  by (cases "capture_loop (db_defs db) (inline_cap_of (db_opts db)) base 0 bops")
    (auto simp: capture_events_def capture_ops_def Let_def split: if_splits)

lemma fold_op_on_other: "\<forall>p \<in> set bops. op_key p \<noteq> k \<Longrightarrow> fold op_on bops m k = m k"
proof (induction bops arbitrary: m)
  case (Cons p bops)
  then show ?case by (cases p) auto
qed simp

lemma fold_write_ops: "distinct (map fst ws) \<Longrightarrow> fold op_on (map write_op ws) m k = writes_over ws m k"
proof (induction ws arbitrary: m)
  case (Cons e ws)
  obtain q w where e: "e = (q, w)" by (cases e)
  have o: "op_on (write_op e) m = m(q := w)" by (cases w) (simp_all add: write_op_def e)
  show ?case
  proof (cases "k = q")
    case True
    then have "map_of ws k = None" using Cons.prems e by (simp add: map_of_eq_None_iff)
    then show ?thesis using Cons e o True by (simp add: writes_over_def)
  next
    case False
    then show ?thesis using Cons e o by (simp add: writes_over_def split: option.splits)
  qed
qed (simp add: writes_over_def)

lemma committed_user_keys:
  assumes "txn_ok tx" and "user_keyspace_start \<le> k"
  shows "fold op_on (batch_of db (txn_ops tx) capture) m k = writes_over (tx_writes tx) m k"
proof -
  have "fold op_on (capture_events db (txn_ops tx) (db_visible db + 1) capture) f k = f k" for f
    using capture_events_system assms(2) by (intro fold_op_on_other) blast
  moreover have "distinct (map fst (tx_writes tx))" using assms(1) tm_keys_distinct unfolding txn_ok_def by blast
  ultimately show ?thesis using fold_write_ops by (simp add: batch_of_def txn_ops_def)
qed

text \<open>The validation loop is the one of the queue with no earlier batches.\<close>

lemma txn_conflicted_keys: "txn_conflicted ex sk v snap keys c = conflict_keys ex sk v {} snap keys c"
  by (induction keys arbitrary: c) (auto simp: cbind_def cres_def split: prod.splits sum.splits option.splits)

lemma db_holds_unique:
  assumes "db_holds ex ents P db s m" and "db_holds ex ents P db t m0"
    and "first_hit (db_layers ex ents db) k s = first_hit (db_layers ex ents db) k t"
  shows "m k = m0 k"
proof -
  have u: "v = w" if "value_at (ex_crc ex) P (vlogs_now db) k repr v" "value_at (ex_crc ex) P (vlogs_now db) k repr w" for repr v w
    using value_at_stands [OF that(1)] value_at_stands [OF that(2)]
    by (auto simp: repr_stands_def pointer_ok_def)
  have h: "hit_stands (value_at (ex_crc ex) P (vlogs_now db)) k (first_hit (db_layers ex ents db) k t) (m k)"
    "hit_stands (value_at (ex_crc ex) P (vlogs_now db)) k (first_hit (db_layers ex ents db) k t) (m0 k)"
    using assms(1,2) unfolding db_holds_def layers_hold_def assms(3) [symmetric] by (blast, metis assms(3))
  show ?thesis
  proof (cases "first_hit (db_layers ex ents db) k t")
    case None
    then show ?thesis using h by (simp add: hit_stands_def)
  next
    case (Some e)
    then show ?thesis using h u by (fastforce simp: hit_stands_def)
  qed
qed

lemma newest_at_or_below:
  "lookup_at es k max_seqno = Some e \<Longrightarrow> ikey_seqno (fst e) \<le> s \<Longrightarrow> s \<le> max_seqno \<Longrightarrow> lookup_at es k s = Some e"
  by (induction es) (auto simp: lookup_at_Cons is_version_def split: if_splits intro: order_trans)

text \<open>A key that is not overwritten still has the value of the snapshot.\<close>

lemma untouched_key:
  assumes ok: "db_ok ex sk ents P db" and "db_holds ex ents P db (db_visible db) m" and "db_holds ex ents P db snap m0"
    and "snap \<le> db_visible db" and "\<not> overwritten ex ents (read_view_of db) snap k"
  shows "m k = m0 k"
proof (rule db_holds_unique [OF assms(2,3)])
  let ?es = "view_entries ex ents (read_view_of db)"
  have v: "view_sound ex sk ents P (read_view_of db)" and mx: "db_visible db \<le> max_seqno"
    using ok unfolding db_ok_def by (blast, blast intro: less_imp_le)
  have hit: "first_hit (db_layers ex ents db) k s = lookup_at ?es k s" for s
    using v first_hit_merge by (simp add: view_sound_def view_entries_def db_layers_def)
  have sm: "snap \<le> max_seqno" using assms(4) mx by (rule order_trans)
  show "first_hit (db_layers ex ents db) k (db_visible db) = first_hit (db_layers ex ents db) k snap"
  proof (cases "lookup_at ?es k max_seqno")
    case None
    then have "lookup_at ?es k s = None" if "s \<le> max_seqno" for s
      using that unfolding lookup_at_None_iff is_version_def by (meson order_trans)
    then show ?thesis using sm mx unfolding hit by simp
  next
    case (Some e)
    then have "ikey_seqno (fst e) \<le> snap" using assms(5) by (simp add: overwritten_def not_less)
    then show ?thesis unfolding hit using newest_at_or_below [OF Some] sm mx assms(4) by (auto intro: order_trans)
  qed
qed

lemma drop_frame:
  "db_ok ex sk ents P (txn_drop tx db) = db_ok ex sk ents P db" "db_holds ex ents P (txn_drop tx db) s m = db_holds ex ents P db s m"
  "db_visible (txn_drop tx db) = db_visible db" "db_version_now (txn_drop tx db) = db_version_now db"
  by (simp_all add: txn_drop_def db_deregister_snapshot_def db_ok_def db_holds_def db_layers_def read_view_of_def files_ok_def
      db_version_now_def)

lemma cache_frame:
  "db_ok ex sk ents P db \<Longrightarrow> cache_holds P c \<Longrightarrow> db_ok ex sk ents P (db\<lparr>db_cache := c\<rparr>)"
  "db_holds ex ents P (db\<lparr>db_cache := c\<rparr>) s m = db_holds ex ents P db s m"
  by (simp_all add: db_ok_def db_holds_def db_layers_def read_view_of_def files_ok_def db_version_now_def)

lemma commit_direct_spec:
  assumes ok: "db_ok ex sk ents P db" and bg: "db_bg_error db = None" and emp: "ents emp = []"
    and n: "unat (db_next_file_id db) + 2 < 2 ^ 64" and tx: "txn_ok tx"
    and a: "commit_direct ex sk emp tx capture db = (r, db')" and t: "cache_truth (ex_crc ex) P (vlogs_now db')"
    and m: "db_holds ex ents P db (db_visible db) m"
  shows "db_ok ex sk ents P db' \<and> ((\<exists>k \<in> set (txn_keys tx). overwritten ex ents (read_view_of db) (tx_snap tx) k) \<longrightarrow> r = Err Conflict)
    \<and> (r = Ok () \<longrightarrow> (\<forall>k \<in> set (txn_keys tx). \<not> overwritten ex ents (read_view_of db) (tx_snap tx) k))
    \<and> (r \<noteq> Ok () \<longrightarrow> db_visible db' = db_visible db)
    \<and> (\<forall>s x. s \<le> db_visible db \<and> db_holds ex ents P db s x \<longrightarrow> db_holds ex ents P db' s x)
    \<and> (r = Ok () \<longrightarrow> (\<exists>m'. db_holds ex ents P db' (db_visible db') m'
        \<and> (\<forall>k. user_keyspace_start \<le> k \<longrightarrow> m' k = writes_over (tx_writes tx) m k)))"
proof -
  have v: "view_sound ex sk ents P (read_view_of db)" "cache_holds P (db_cache db)" using ok by (simp_all add: db_ok_def)
  let ?bad = "\<exists>k \<in> set (txn_keys tx). overwritten ex ents (read_view_of db) (tx_snap tx) k"
  obtain c where c: "txn_conflicted ex sk (read_view_of db) (tx_snap tx) (txn_keys tx) (db_cache db) = (Ok ?bad, c)" "cache_holds P c"
    using conflict_keys_spec [OF v, of "{}" "tx_snap tx" "txn_keys tx"] unfolding txn_conflicted_keys by auto
  let ?d = "db\<lparr>db_cache := c\<rparr>"
  note ok' = cache_frame(1) [OF ok c(2)]
  have e: "commit_direct ex sk emp tx capture db =
      (if ?bad then (Err Conflict, ?d) else if txn_ops tx \<noteq> [] then apply_locked (ex_crc ex) sk emp (txn_ops tx) capture ?d else (Ok (), ?d))"
    unfolding commit_direct_def c(1) by (simp add: sbind_def)
  have "txn_ops tx = [] \<longleftrightarrow> tx_writes tx = []" by (simp add: txn_ops_def)
  then consider (bad) "?bad" "r = Err Conflict" "db' = ?d"
    | (locks) "\<not> ?bad" "tx_writes tx = []" "r = Ok ()" "db' = ?d"
    | (writes) "\<not> ?bad" "apply_locked (ex_crc ex) sk emp (txn_ops tx) capture ?d = (r, db')"
    using a unfolding e by (cases ?bad; cases "txn_ops tx = []") (simp_all del: bex_simps)
  then show ?thesis
  proof cases
    case bad
    then show ?thesis using ok' by (simp add: cache_frame(2))
  next
    case locks
    moreover have "writes_over [] m = m" by (simp add: fun_eq_iff writes_over_def)
    ultimately show ?thesis using ok' m by (auto simp: cache_frame(2))
  next
    case writes
    have b: "db_bg_error ?d = None" "unat (db_next_file_id ?d) + 2 < 2 ^ 64" using bg n by simp_all
    note r = apply_locked_refines [OF ok' b(1) emp b(2) writes(2) t]
    have h: "\<forall>s x. db_holds ex ents P db s x \<longrightarrow> (r \<noteq> Ok () \<longrightarrow> db_visible db' = db_visible db \<and> db_holds ex ents P db' s x)
       \<and> (r = Ok () \<and> s \<le> db_visible db \<longrightarrow> db_holds ex ents P db' s x)
       \<and> (r = Ok () \<and> s = db_visible db \<longrightarrow> db_holds ex ents P db' (db_visible db') (fold op_on (batch_of ?d (txn_ops tx) capture) x))"
      using r by (simp add: cache_frame(2))
    have "\<exists>m'. db_holds ex ents P db' (db_visible db') m' \<and> (\<forall>k. user_keyspace_start \<le> k \<longrightarrow> m' k = writes_over (tx_writes tx) m k)"
      if "r = Ok ()"
      using h m that committed_user_keys [OF tx] by blast
    then show ?thesis using r h m writes(1) by blast
  qed
qed


text \<open>The sample store without a sync per commit, and a transaction that writes one key.\<close>

definition relaxed_db :: "sorted_entries db" where
  "relaxed_db = sample_db\<lparr>db_opts := options_default\<lparr>op_sync := Never\<rparr>\<rparr>"

definition put_txn :: txn where
  "put_txn = \<lparr>tx_snap = 0, tx_registered = False, tx_writes = [([107], Some [5])], tx_locks = [([108], ())],
     tx_bytes = 2, tx_system = True\<rparr>"

lemma relaxed_db_ok: "db_ok ex list_skip_ops Rep_sorted_entries (\<lambda>_ _. False) relaxed_db"
  "db_holds ex Rep_sorted_entries P relaxed_db s (\<lambda>_. None)"
  using sample_db_ok [of ex] sample_db_holds [of ex P s]
  by (simp_all add: relaxed_db_def db_ok_def db_holds_def db_layers_def read_view_of_def files_ok_def db_version_now_def)

lemma relaxed_not_overwritten: "\<not> overwritten ex Rep_sorted_entries (read_view_of relaxed_db) 0 k"
proof -
  have e: "Rep_sorted_entries se_empty = []" by (simp add: se_empty_def Abs_sorted_entries_inverse)
  have "view_entries ex Rep_sorted_entries (read_view_of relaxed_db) = []"
    by (simp add: view_entries_def db_layers_def [symmetric] db_layers_eq relaxed_db_def sample_db_def e memtable_new_def version_layers_def
        runs_newest_first_def merge_entries_def)
  then show ?thesis by (simp add: overwritten_def lookup_at_def)
qed

lemma relaxed_apply:
  "\<exists>db'. apply_locked crc list_skip_ops se_empty [OpPut [107] [5]] False (relaxed_db\<lparr>db_cache := c\<rparr>) = (Ok (), db') \<and>
     vlogs_now db' = [(1, vlog_handle_new 1 (std_file_new []))]"
proof -
  define d where "d = relaxed_db\<lparr>db_cache := c\<rparr>"
  let ?es = "[\<lparr>ee_kind = Put, ee_key = [107], ee_repr = encode_inline [5]\<rparr>]"
  let ?f = "std_file_new []"
  let ?fr = "wal_frame crc (encode_batch 1 ?es)"
  let ?W = "?f\<lparr>sf_data := ?fr, sf_append_off := length ?fr\<rparr>"
  let ?d = "publish_batch list_skip_ops 1 ?es (d\<lparr>db_wal := ?W\<rparr>)"
  have len: "length (encode_batch 1 ?es) < wal_limit"
    using length_uvarint_le_10 [of 1] length_uvarint_le_10 [of 2]
    by (simp add: encode_batch_def encode_entries_concat enc_entry_bytes_def enc_len_prefixed_def codec_simps encode_inline_def wal_limit_def)
  have o: "op_value_threshold (db_opts d) = 4096" "op_sync (db_opts d) = Never"
    "db_vlog d = vlog_new (vlog_handle_new 1 ?f) 0" "db_wal d = ?f" "db_visible d = 0"
    "op_memtable_size (db_opts d) = push_bit 20 8" "op_vlog_file_size (db_opts d) = push_bit 20 128"
    "mt_bytes (db_mem d) = 0" "vs_vlogs (db_version d) = [(1, vlog_handle_new 1 ?f)]"
    by (simp_all add: d_def relaxed_db_def sample_db_def options_default_def memtable_new_def)
  have a: "file_append ?fr ?f = (Ok 0, ?W)"
    by (simp add: file_append_clean) (simp add: std_file_new_def)
  have eta: "d\<lparr>db_vlog := vlog_new (vlog_handle_new 1 ?f) 0\<rparr> = d" by (simp add: d_def relaxed_db_def sample_db_def)
  have "commit_entries crc list_skip_ops 1 [OpPut [107] [5]] d = (Ok (), ?d)"
    using len by (simp add: commit_entries_def o eta sync_payload_def append_log_def wal_append_record_def a sync_log_def
        not_le [symmetric] del: length_wal_frame)
  then have c: "commit_batch crc list_skip_ops [OpPut [107] [5]] False d = (Ok (), ?d)"
    by (simp add: commit_batch_def capture_events_def o max_seqno_val wal_limit_def)
  have "mt_bytes (db_mem ?d) < push_bit 20 8"
    by (simp add: publish_batch_def memtable_insert_def o encode_inline_def make_ikey_def entry_overhead_def)
  then have "rotate_after se_empty ?d = ?d"
    by (simp add: rotate_after_def rotate_full_def memtable_approximate_bytes_def publish_batch_def o vlog_new_def not_le [symmetric])
  moreover have "vlogs_now ?d = [(1, vlog_handle_new 1 ?f)]"
    by (simp add: publish_batch_def db_version_now_def o vlogs_share_def vlog_new_def vlog_handle_new_def)
  ultimately show ?thesis using c unfolding d_def [symmetric] by (simp add: apply_locked_def)
qed


end
