(* ===== verification/Recover.thy ===== *)
theory Recover
  imports Flush Txn
begin

text \<open>
  \<open>crates/fluent31/src/db.rs\<close>, opening a store (\<open>open_inner\<close>): the manifest, the identity, the tables
  and value logs it names, the replay of the logs at or above the floor with the check of their
  pointers into young value logs, the fresh head and log, the durable pins, the flush of what was
  replayed, the closing manifest and the trigger registry.

  \<open>ls\<close> is the listing of the directory in the order the operating system gives it; a listing that
  fails is read as empty, as the code does. \<open>lock\<close> and \<open>wasm\<close> are the outcomes of the directory lock
  and of the start of the WASM runtime, \<open>created\<close> the files \<open>create_new\<close> will return.
\<close>

section \<open>Files by name\<close>

definition open_read :: "bytes \<Rightarrow> dir_fs \<Rightarrow> std_file res" where
  "open_read name d = rbind (fs_read name d) (\<lambda>bs. Ok (std_file_new bs))"

section \<open>Tables\<close>

fun open_tables :: "codecs \<Rightarrow> dir_fs \<Rightarrow> u64 list \<Rightarrow> table_handle list res" where
  "open_tables ex d [] = Ok []"
| "open_tables ex d (tid # tids) =
     rbind (open_read (table_name tid) d) (\<lambda>file.
     rbind (table_open ex file tid) (\<lambda>t.
     rbind (open_tables ex d tids) (\<lambda>ts.
       Ok (table_handle_new tid (of_nat (file_len file)) t # ts))))"

fun open_runs :: "codecs \<Rightarrow> dir_fs \<Rightarrow> run_meta list \<Rightarrow> run list res" where
  "open_runs ex d [] = Ok []"
| "open_runs ex d (rm # rms) =
     rbind (open_tables ex d (rm_table_ids rm)) (\<lambda>ts.
     rbind (open_runs ex d rms) (\<lambda>rs. Ok (\<lparr>rn_id = rm_id rm, rn_tables = ts\<rparr> # rs)))"

fun open_levels :: "codecs \<Rightarrow> dir_fs \<Rightarrow> run_meta list list \<Rightarrow> run list list res" where
  "open_levels ex d [] = Ok []"
| "open_levels ex d (l # ls) =
     rbind (open_runs ex d l) (\<lambda>rs. rbind (open_levels ex d ls) (\<lambda>rss. Ok (rs # rss)))"

section \<open>Value logs\<close>

type_synonym vlog_files = "(u64 \<times> vlog_handle) list"

definition open_vlog :: "dir_fs \<Rightarrow> u64 \<Rightarrow> vlog_handle res" where
  "open_vlog d i = rbind (open_read (vlog_name i) d) (\<lambda>f. Ok (vlog_handle_new i f))"

fun open_live :: "dir_fs \<Rightarrow> u64 list \<Rightarrow> vlog_files \<Rightarrow> vlog_files res" where
  "open_live d [] live = Ok live"
| "open_live d (i # is) live = rbind (open_vlog d i) (\<lambda>h. open_live d is (tm_put i h live))"

text \<open>A victim whose file is already gone has passed its gates.\<close>

fun open_retired :: "dir_fs \<Rightarrow> (u64 \<times> seqno) list \<Rightarrow> vlog_files \<Rightarrow> (retired_vlog list \<times> vlog_files) res" where
  "open_retired d [] live = Ok ([], live)"
| "open_retired d ((i, s) # rest) live =
     (if df_files d (vlog_name i) = None then open_retired d rest live
      else rbind (open_vlog d i) (\<lambda>h.
           rbind (open_retired d rest (tm_put i h live)) (\<lambda>(rs, live).
             Ok (\<lparr>rv_id = i, rv_retired_at = s\<rparr> # rs, live))))"

definition disk_vlogs :: "bytes list \<Rightarrow> u64 list" where
  "disk_vlogs ls = List.map_filter (\<lambda>name. parse_file_id name (ascii ''vlog-'') (ascii ''.vlog'')) ls"

fun adopt_young :: "dir_fs \<Rightarrow> u64 \<Rightarrow> u64 list \<Rightarrow> u64 list \<Rightarrow> vlog_files \<Rightarrow> vlog_files res" where
  "adopt_young d head retired [] live = Ok live"
| "adopt_young d head retired (i # is) live =
     (if head \<le> i \<and> i \<notin> fst ` set live \<and> i \<notin> set retired
      then rbind (open_vlog d i) (\<lambda>h. adopt_young d head retired is (tm_put i h live))
      else adopt_young d head retired is live)"

type_synonym record_index = "(u64 \<times> u32 \<times> bytes) list"

definition index_records :: "scanned_record list \<Rightarrow> record_index" where
  "index_records rs = tm_collect (map (\<lambda>(off, len, key, _). (off, len, key)) rs)"

text \<open>The valid records of every young file, and the id counter past those files.\<close>

fun young_index ::
    "(bytes \<Rightarrow> u32) \<Rightarrow> u64 \<Rightarrow> u64 list \<Rightarrow> vlog_files \<Rightarrow> u64 \<Rightarrow> ((u64 \<times> record_index) list \<times> u64) res" where
  "young_index crc head retired [] next = Ok ([], next)"
| "young_index crc head retired ((i, h) # rest) next =
     (if head \<le> i \<and> i \<notin> set retired
      then rbind (scan_records crc (vh_file h)) (\<lambda>(records, _).
           rbind (young_index crc head retired rest (max next (i + 1))) (\<lambda>(young, next).
             Ok ((i, index_records records) # young, next)))
      else young_index crc head retired rest next)"

section \<open>Replay\<close>

text \<open>The ids of the logs at or above the floor; the id counter past every log and table on disk.\<close>

fun scan_names :: "u64 \<Rightarrow> bytes list \<Rightarrow> u64 list \<Rightarrow> u64 \<Rightarrow> u64 list \<times> u64" where
  "scan_names floor [] ids next = (ids, next)"
| "scan_names floor (name # ls) ids next =
     (case parse_file_id name (ascii ''wal-'') (ascii ''.log'') of
        Some i \<Rightarrow> scan_names floor ls (if floor \<le> i then ids @ [i] else ids) (max next (i + 1))
      | None \<Rightarrow>
          (case parse_file_id name (ascii ''sst-'') (ascii ''.tbl'') of
             Some i \<Rightarrow> scan_names floor ls ids (max next (i + 1))
           | None \<Rightarrow> scan_names floor ls ids next))"

text \<open>Whether every pointer of a batch into a young file points at a whole record of its key.\<close>

fun ptrs_durable :: "(u64 \<times> record_index) list \<Rightarrow> u64 set \<Rightarrow> enc_entry list \<Rightarrow> bool res" where
  "ptrs_durable young known [] = Ok True"
| "ptrs_durable young known (e # es) =
     (if ee_kind e = Put
      then rbind (decode_repr (ee_repr e)) (\<lambda>r. case r of
             Inline _ \<Rightarrow> ptrs_durable young known es
           | Ptr p \<Rightarrow>
               (case map_of young (vp_file p) of
                  Some index \<Rightarrow>
                    if map_of index (vp_offset p) = Some (vp_len p, ee_key e) then ptrs_durable young known es else Ok False
                | None \<Rightarrow>
                    if vp_file p \<notin> known then Err (corrupt ''wal-{wid:06} references unknown vlog file {}'')
                    else ptrs_durable young known es))
      else ptrs_durable young known es)"

record 'm replay =
  rp_mem :: "'m memtable"
  rp_max :: seqno

definition replay_batch :: "'m skip_ops \<Rightarrow> seqno \<Rightarrow> enc_entry list \<Rightarrow> 'm replay \<Rightarrow> 'm replay" where
  "replay_batch sk base es s =
     s\<lparr>rp_mem := insert_entries sk base es (rp_mem s),
       rp_max := fold (\<lambda>i q. max q (base + of_nat i)) [0..<length es] (rp_max s)\<rparr>"

text \<open>The records of one log; whether the replay stops there.\<close>

fun replay_records ::
    "'m skip_ops \<Rightarrow> (u64 \<times> record_index) list \<Rightarrow> u64 set \<Rightarrow> bytes list \<Rightarrow> 'm replay \<Rightarrow> ('m replay \<times> bool) res" where
  "replay_records sk young known [] s = Ok (s, False)"
| "replay_records sk young known (payload # ps) s =
     rbind (decode_batch payload) (\<lambda>(base, entries).
     rbind (ptrs_durable young known entries) (\<lambda>durable.
       if durable then replay_records sk young known ps (replay_batch sk base entries s) else Ok (s, True)))"

text \<open>The logs in order of their ids; the newest one's torn tail, if it has one.\<close>

fun replay_wals ::
    "(bytes \<Rightarrow> u32) \<Rightarrow> 'm skip_ops \<Rightarrow> dir_fs \<Rightarrow> (u64 \<times> record_index) list \<Rightarrow> u64 set \<Rightarrow> u64 list \<Rightarrow> 'm replay \<Rightarrow>
     ('m replay \<times> (u64 \<times> nat) option) res" where
  "replay_wals crc sk d young known [] s = Ok (s, None)"
| "replay_wals crc sk d young known (wid # wids) s =
     rbind (open_read (wal_name wid) d) (\<lambda>file.
     rbind (read_wal crc file) (\<lambda>(records, tail).
     rbind (replay_records sk young known records s) (\<lambda>(s, stopped).
       if stopped then Ok (s, None)
       else case tail of
              Clean \<Rightarrow> replay_wals crc sk d young known wids s
            | wal_tail.Torn valid_len \<Rightarrow>
                if wids = [] then Ok (s, Some (wid, valid_len))
                else Err (corrupt ''sealed wal-{wid:06} damaged at offset {valid_len}''))))"

definition fs_set_len :: "bytes \<Rightarrow> nat \<Rightarrow> dir_fs \<Rightarrow> unit res \<times> dir_fs" where
  "fs_set_len name n d =
     (let (fault, d) = next_fs_fault d
      in case (fault, df_files d name) of
           (None, Some content) \<Rightarrow> (Ok (), d\<lparr>df_files := (df_files d)(name \<mapsto> take n content)\<rparr>)
         | _ \<Rightarrow> (Err (Io ''truncate''), d))"

definition fs_sync_all :: "dir_fs \<Rightarrow> unit res \<times> dir_fs" where
  "fs_sync_all d =
     (let (fault, d) = next_fs_fault d
      in case fault of None \<Rightarrow> (Ok (), d) | Some _ \<Rightarrow> (Err (Io ''fsync''), d))"

definition truncate_tail :: "(u64 \<times> nat) option \<Rightarrow> dir_fs \<Rightarrow> unit res \<times> dir_fs" where
  "truncate_tail torn d =
     (case torn of
        None \<Rightarrow> (Ok (), d)
      | Some (wid, valid_len) \<Rightarrow> fs_bind (fs_set_len (wal_name wid) valid_len d) fs_sync_all)"

section \<open>Opening\<close>

text \<open>What the directory of a store holds, before anything new is created.\<close>

record 'm found =
  fo_gen :: u64
  fo_data :: manifest_data
  fo_levels :: "run list list"
  fo_live :: vlog_files
  fo_retired :: "retired_vlog list"
  fo_replay :: "'m replay"
  fo_torn :: "(u64 \<times> nat) option"
  fo_wals :: "u64 list"
  fo_next :: u64

definition pad_levels :: "nat \<Rightarrow> manifest_data \<Rightarrow> manifest_data" where
  "pad_levels n m = m\<lparr>md_levels := md_levels m @ replicate (max (max n (length (md_levels m))) 1 - length (md_levels m)) []\<rparr>"

definition known_vlogs :: "vlog_files \<Rightarrow> retired_vlog list \<Rightarrow> u64 set" where
  "known_vlogs live retired = fst ` set live \<union> rv_id ` set retired"

definition find_store ::
    "codecs \<Rightarrow> 'm skip_ops \<Rightarrow> 'm \<Rightarrow> options \<Rightarrow> u64 \<Rightarrow> manifest_data \<Rightarrow> bytes list \<Rightarrow> dir_fs \<Rightarrow> 'm found res" where
  "find_store ex sk emp opts gen m ls d =
     rbind (open_levels ex d (md_levels m)) (\<lambda>levels.
     rbind (open_live d (md_vlog_live m) []) (\<lambda>live.
     rbind (open_retired d (md_vlog_retired m) live) (\<lambda>(retired, live).
     let retired_ids = map fst (md_vlog_retired m) in
     rbind (adopt_young d (md_vlog_head m) retired_ids (disk_vlogs ls) live) (\<lambda>live.
     rbind (young_index (ex_crc ex) (md_vlog_head m) retired_ids live (max (md_next_file_id m) 1)) (\<lambda>(young, next).
     let (ids, next) = scan_names (md_wal_floor m) ls [] next;
         wals = sort ids;
         s = \<lparr>rp_mem = memtable_new emp (if wals = [] then 0 else last wals), rp_max = md_last_flushed_seqno m\<rparr> in
     rbind (replay_wals (ex_crc ex) sk d young (known_vlogs live retired) wals s) (\<lambda>(s, torn).
       Ok \<lparr>fo_gen = gen, fo_data = m, fo_levels = levels @ replicate (op_max_levels opts - length levels) [], fo_live = live,
           fo_retired = retired, fo_replay = s, fo_torn = torn, fo_wals = wals, fo_next = next\<rparr>))))))"

definition next_created :: "std_file res list \<Rightarrow> std_file res \<times> std_file res list" where
  "next_created xs = (case xs of [] \<Rightarrow> (Ok (std_file_new []), []) | x # xs \<Rightarrow> (x, xs))"

text \<open>The logs on disk, as the flush that follows deletes them.\<close>

definition disk_wals :: "u64 list \<Rightarrow> dir_fs \<Rightarrow> (u64 \<times> std_file) list" where
  "disk_wals ids d = List.map_filter (\<lambda>i. map_option (\<lambda>bs. (i, std_file_new bs)) (df_files d (wal_name i))) ids"

text \<open>The fresh head and log, and the state of the store around them.\<close>

definition assemble ::
    "options \<Rightarrow> 'm skip_ops \<Rightarrow> 'm \<Rightarrow> 'm found \<Rightarrow> std_file res list \<Rightarrow> dir_fs \<Rightarrow> ('m db \<times> u64 \<times> u64) res \<times> dir_fs" where
  "assemble opts sk emp f created d =
     (let head_id = fo_next f; (head, created) = next_created created in
      case head of
        Inl e \<Rightarrow> (Err e, d)
      | Inr head_file \<Rightarrow>
          (let handle = vlog_handle_new head_id head_file; wal_id = head_id + 1;
               (wal, created) = next_created created in
           case wal of
             Inl e \<Rightarrow> (Err e, d)
           | Inr wal_file \<Rightarrow>
               (case sync_dir d of
                  (Inl e, d) \<Rightarrow> (Err e, d)
                | (Inr _, d) \<Rightarrow>
                    (Ok (\<lparr>db_opts = opts, db_mem = memtable_new emp wal_id,
                          db_imms = (if memtable_is_empty sk (rp_mem (fo_replay f)) then [] else [rp_mem (fo_replay f)]),
                          db_version = \<lparr>vs_levels = fo_levels f, vs_vlogs = tm_put head_id handle (fo_live f), vs_vlog_head_id = head_id\<rparr>,
                          db_wal = wal_file, db_old_wals = disk_wals (fo_wals f) d, db_visible = rp_max (fo_replay f),
                          db_next_file_id = wal_id + 1, db_vlog = vlog_new handle 0,
                          db_subs = \<lparr>sr_subs = [], sr_active = False\<rparr>, db_defs = [], db_snapshots = [],
                          db_manifest = \<lparr>ms_gen = fo_gen f, ms_data = fo_data f\<rparr>, db_dir = d, db_retired = fo_retired f,
                          db_cache = cache_new (op_block_cache_size opts), db_bg_error = None, db_shutdown = False,
                          db_wal_syncs = 0, db_created = created\<rparr>, head_id, wal_id), d))))"

fun register_pins :: "pin_info list \<Rightarrow> seqno \<Rightarrow> snapshot_list \<Rightarrow> snapshot_list res" where
  "register_pins [] max_seq g = Ok g"
| "register_pins (p # ps) max_seq g =
     (if max_seq < pi_seqno p then Err (corrupt ''pin {:?} at seqno {} is above the recovered head {max_seq}'')
      else register_pins ps max_seq (snap_register (pi_seqno p) g))"

text \<open>The manifest that completes the open.\<close>

definition complete_data :: "u64 \<Rightarrow> u64 \<Rightarrow> 'm db \<Rightarrow> manifest_data" where
  "complete_data head_id wal_id db =
     (let data = ms_data (db_manifest db)
      in data\<lparr>md_wal_floor := wal_id,
              md_vlog_live := filter (\<lambda>i. i \<notin> fst ` set (md_vlog_retired data)) (map fst (vs_vlogs (db_version db))),
              md_vlog_head := head_id, md_next_file_id := db_next_file_id db\<rparr>)"

definition complete_open :: "(bytes \<Rightarrow> u32) \<Rightarrow> u64 \<Rightarrow> u64 \<Rightarrow> 'm db \<Rightarrow> unit res \<times> 'm db" where
  "complete_open crc head_id wal_id db =
     sbind (commit_manifest crc (complete_data head_id wal_id db) db) (\<lambda>_ db.
       let db = delete_old_wals wal_id db
       in (Ok (), db\<lparr>db_dir := startup_gc (ms_data (db_manifest db)) (db_dir db)\<rparr>))"

partial_function (option) load_defs ::
    "codecs \<Rightarrow> 'm skip_ops \<Rightarrow> ((u64 \<times> nat list) list \<Rightarrow> (u64 \<times> nat list) list) \<Rightarrow> 'm db_iterator \<Rightarrow> trigger_def list \<Rightarrow>
     trigger_def list res option" where
  "load_defs ex sk ho it defs =
     (case db_iterator_next ex sk ho it of
        None \<Rightarrow> None
      | Some (None, it) \<Rightarrow> Some (Ok defs)
      | Some (Some (Inl e), it) \<Rightarrow> Some (Err e)
      | Some (Some (Inr (k, v)), it) \<Rightarrow>
          (case decode_def v of
             Inl e \<Rightarrow> Some (Err e)
           | Inr def \<Rightarrow> load_defs ex sk ho it (defs @ [def])))"

definition load_registry ::
    "codecs \<Rightarrow> 'm skip_ops \<Rightarrow> ((u64 \<times> nat list) list \<Rightarrow> (u64 \<times> nat list) list) \<Rightarrow> 'm db \<Rightarrow> (unit res \<times> 'm db) option" where
  "load_registry ex sk ho db =
     (case iter_raw ex sk None def_prefix (Some def_space_end) False db of
        Inl e \<Rightarrow> Some (Err e, db)
      | Inr it \<Rightarrow>
          (case load_defs ex sk ho it [] of
             None \<Rightarrow> None
           | Some (Inl e) \<Rightarrow> Some (Err e, db)
           | Some (Inr defs) \<Rightarrow> Some (Ok (), db\<lparr>db_defs := defs\<rparr>)))"

text \<open>From the assembled state on: pins, the flush of the replayed memtable, the closing manifest.\<close>

definition finish_open ::
    "codecs \<Rightarrow> 'm skip_ops \<Rightarrow> ((u64 \<times> nat list) list \<Rightarrow> (u64 \<times> nat list) list) \<Rightarrow> u64 \<Rightarrow> u64 \<Rightarrow> 'm db \<Rightarrow> (unit res \<times> 'm db) option" where
  "finish_open ex sk ho head_id wal_id db =
     (case register_pins (md_pins (ms_data (db_manifest db))) (db_visible db) (db_snapshots db) of
        Inl e \<Rightarrow> Some (Err e, db)
      | Inr g \<Rightarrow>
          (let db = db\<lparr>db_snapshots := g\<rparr> in
           case (if db_imms db = [] then Some (Ok False, db) else flush_one ex sk db) of
             None \<Rightarrow> None
           | Some (Inl e, db) \<Rightarrow> Some (Err e, db)
           | Some (Inr _, db) \<Rightarrow>
               (case complete_open (ex_crc ex) head_id wal_id db of
                  (Inl e, db) \<Rightarrow> Some (Err e, db)
                | (Inr _, db) \<Rightarrow> load_registry ex sk ho db)))"

text \<open>
  An open that fails leaves only the directory, one that succeeds the store. The directory itself is
  there: creating it and sweeping its archive of half-built forks are left to the operating system.
\<close>

definition open_inner ::
    "codecs \<Rightarrow> (bytes \<Rightarrow> bytes) \<Rightarrow> 'm skip_ops \<Rightarrow> 'm \<Rightarrow> ((u64 \<times> nat list) list \<Rightarrow> (u64 \<times> nat list) list) \<Rightarrow>
     unit res \<Rightarrow> unit res \<Rightarrow> options \<Rightarrow> std_file res list \<Rightarrow> bytes list \<Rightarrow> dir_fs \<Rightarrow> ('m db res \<times> dir_fs) option" where
  "open_inner ex sha sk emp ho lock wasm opts created ls d =
     (case lock of Inl e \<Rightarrow> Some (Err e, d) | Inr _ \<Rightarrow>
     (case (if manifest_exists d then (Ok (), d)
            else if \<not> op_create_if_missing opts then (Err (InvalidArgument ''no database at {}''), d)
            else init_fresh (ex_crc ex) d) of
        (Inl e, d) \<Rightarrow> Some (Err e, d)
      | (Inr _, d) \<Rightarrow>
     (case manifest_load (ex_crc ex) d of Inl e \<Rightarrow> Some (Err e, d) | Inr (gen, m) \<Rightarrow>
     (case resolve_identity sha (pad_levels (op_max_levels opts) m) (op_store_name opts) of
        (Inl e, _) \<Rightarrow> Some (Err e, d)
      | (Inr _, m) \<Rightarrow>
     (let d = manifest_sweep (\<lambda>stale. stale \<noteq> gen) d in
     (case find_store ex sk emp opts gen m ls d of Inl e \<Rightarrow> Some (Err e, d) | Inr f \<Rightarrow>
     (case truncate_tail (fo_torn f) d of (Inl e, d) \<Rightarrow> Some (Err e, d) | (Inr _, d) \<Rightarrow>
     (case assemble opts sk emp f created d of (Inl e, d) \<Rightarrow> Some (Err e, d) | (Inr (db, head_id, wal_id), d) \<Rightarrow>
     (case wasm of Inl e \<Rightarrow> Some (Err e, d) | Inr _ \<Rightarrow>
     (case finish_open ex sk ho head_id wal_id db of
        None \<Rightarrow> None
      | Some (Inl e, db) \<Rightarrow> Some (Err e, db_dir db)
      | Some (Inr _, db) \<Rightarrow> Some (Ok db, db_dir db)))))))))))"

end
