(* ===== verification/RecoverLog.thy ===== *)
theory RecoverLog
  imports Recover StoreMap
begin

text \<open>
  What a crash leaves of the logs, and what the replay makes of it: a value log cut anywhere scans to
  the records before the cut, a pointer the index accepts is the value that was written, and the
  replay takes the longest prefix of the logged batches whose values are all there.
\<close>

section \<open>A value log cut anywhere\<close>

text \<open>A codec on a cut field fails, on a whole one it leaves the rest.\<close>

context codec
begin

lemma dec_cut:
  assumes "ok x" and "enc x @ us = reader_rest r @ zs"
  shows "(\<exists>e. dec r = Inl e) \<or> (\<exists>r'. dec r = Ok (x, r') \<and> us = reader_rest r' @ zs)"
proof (cases "length (reader_rest r) < length (enc x)")
  case True
  then obtain vs where "enc x = reader_rest r @ vs" "vs \<noteq> []" using assms(2) by (rule append_split_longer)
  then have "is_corruption (dec r)" using assms(1) dec_short by blast
  then show ?thesis by (cases "dec r") auto
next
  case False
  then obtain vs where vs: "reader_rest r = enc x @ vs" using assms(2) by (rule append_split_prefix)
  then obtain r' where "dec r = Ok (x, r')" "reader_rest r' = vs" using dec_enc_rest [OF assms(1)] by blast
  then show ?thesis using assms(2) vs by auto
qed

end

lemma scan_header_cut:
  assumes ok: "record_ok (k, v)" and e: "encode_record crc k v = rest @ zs" and z: "zs \<noteq> []"
  shows "scan_header rest = None"
proof -
  let ?a = "of_nat (length k) :: u64" and ?b = "of_nat (length v) :: u64"
  have f: "enc_u32 (crc (record_body k v)) @ uvarint ?a @ uvarint ?b @ k @ v = reader_rest (reader_new rest) @ zs"
    using e by (simp add: encode_record_body record_body_def)
  show ?thesis
  proof (cases "reader_u32 (reader_new rest)")
    case (Inr p)
    then obtain r1 where r1: "reader_u32 (reader_new rest) = Ok (crc (record_body k v), r1)" "uvarint ?a @ uvarint ?b @ k @ v = reader_rest r1 @ zs"
      using u32c.dec_cut [OF TrueI f] by auto
    show ?thesis
    proof (cases "reader_uvarint r1")
      case (Inr p)
      then obtain r2 where r2: "reader_uvarint r1 = Ok (?a, r2)" "uvarint ?b @ k @ v = reader_rest r2 @ zs"
        using uvarintc.dec_cut [OF TrueI r1(2)] by auto
      show ?thesis
      proof (cases "reader_uvarint r2")
        case (Inr p)
        then obtain r3 where r3: "reader_uvarint r2 = Ok (?b, r3)" "k @ v = reader_rest r3 @ zs"
          using uvarintc.dec_cut [OF TrueI r2(2)] by auto
        have u: "unat ?a = length k" "unat ?b = length v" using record_ok_slices [OF ok] by simp_all
        have "length k + length v = reader_remaining r3 + length zs"
          using arg_cong [OF r3(2), of length] by (simp add: reader_remaining_rest)
        moreover have "reader_remaining r3 \<le> length rest"
        proof -
          have "reader_remaining (reader_new rest) = 4 + reader_remaining r1"
            using r1(1) by (auto simp: reader_u32_def reader_bytes_def reader_remaining_def reader_new_def split: if_splits)
          moreover have "reader_remaining r2 \<le> reader_remaining r1" "reader_remaining r3 \<le> reader_remaining r2"
            using r2(1) r3(1) by (auto simp: reader_uvarint_def dest!: uvarint_loop_remaining)
          moreover have "reader_remaining (reader_new rest) = length rest" by (simp add: reader_remaining_rest)
          ultimately show ?thesis by linarith
        qed
        moreover have "length zs > 0" using z by simp
        ultimately have "\<not> length rest - reader_remaining r3 + length k + length v \<le> length rest" by linarith
        then show ?thesis using r1(1) r2(1) r3(1) u by (simp add: scan_header_def Let_def)
      qed (simp add: scan_header_def r1(1) r2(1))
    qed (simp add: scan_header_def r1(1))
  qed (simp add: scan_header_def)
qed

lemma vlog_bytes_take: "vlog_bytes crc rs = vlog_bytes crc (take k rs) @ vlog_bytes crc (drop k rs)"
  by (metis append_take_drop_id concat_append map_append)

text \<open>The records that fit before the cut, and no more, are found.\<close>

lemma scan_records_cut:
  assumes ok: "list_all record_ok rs"
  shows "\<exists>k. length (vlog_bytes crc (take k rs)) \<le> n \<and> (k < length rs \<longrightarrow> n < length (vlog_bytes crc (take (Suc k) rs)))
    \<and> scan_records crc (std_file_new (take n (vlog_bytes crc rs)))
      = Ok (scan_of crc 0 (take k rs), of_nat (length (vlog_bytes crc (take k rs))))"
proof -
  let ?len = "\<lambda>k. length (vlog_bytes crc (take k rs))"
  let ?buf = "take n (vlog_bytes crc rs)"
  have mono: "?len k \<le> ?len j" if "k \<le> j" for k j
  proof -
    have "take j rs = take k rs @ drop k (take j rs)" using that by (metis append_take_drop_id min.absorb1 take_take)
    then have "vlog_bytes crc (take j rs) = vlog_bytes crc (take k rs) @ vlog_bytes crc (drop k (take j rs))"
      by (metis concat_append map_append)
    then show ?thesis by simp
  qed
  define k where "k = (GREATEST k. k \<le> length rs \<and> ?len k \<le> n)"
  have k: "k \<le> length rs \<and> ?len k \<le> n"
    unfolding k_def by (rule GreatestI_nat [where k = 0 and b = "length rs"]) simp_all
  have out: "n < ?len (Suc k)" if "k < length rs"
    using Greatest_le_nat [of "\<lambda>k. k \<le> length rs \<and> ?len k \<le> n" "Suc k" "length rs"] that
    unfolding k_def by fastforce
  have okk: "list_all record_ok (take k rs)" using ok by (auto simp: list_all_iff dest: in_set_takeD)
  have buf: "?buf = vlog_bytes crc (take k rs) @ take (n - ?len k) (vlog_bytes crc (drop k rs))"
    using k by (subst vlog_bytes_take [of crc rs k]) simp
  have "parse_records_loop crc ?buf (?len k) = ([], ?len k)"
  proof (cases "k < length rs \<and> ?len k < n")
    case True
    obtain q w where p: "rs ! k = (q, w)" by (cases "rs ! k")
    have d: "drop k rs = (q, w) # drop (Suc k) rs" "take (Suc k) rs = take k rs @ [(q, w)]"
      using True p by (metis Cons_nth_drop_Suc, metis take_Suc_conv_app_nth)
    let ?rcd = "encode_record crc q w"
    have "n < ?len k + length ?rcd" using out True d(2) by simp
    then have m: "n - ?len k < length ?rcd" using True by linarith
    then have rest: "drop (?len k) ?buf = take (n - ?len k) ?rcd" using buf d(1) by simp
    have "record_ok (q, w)" using ok True p by (metis list_all_length)
    then have "scan_header (take (n - ?len k) ?rcd) = None" using m
      by (intro scan_header_cut [where zs = "drop (n - ?len k) ?rcd"]) simp_all
    moreover have "?len k < length ?buf" using buf True m d(1) by simp
    ultimately show ?thesis using rest by (subst parse_records_loop.simps) (simp add: Let_def)
  next
    case False
    then have "length ?buf = ?len k" using k mono [of k "length rs"] by auto
    then show ?thesis using parse_records_loop_end [of crc ?buf] by simp
  qed
  moreover have "parse_records_loop crc ?buf 0 = (let (out, fin) = parse_records_loop crc ?buf (?len k) in (scan_of crc 0 (take k rs) @ out, fin))"
    using parse_records_loop_records [OF okk, of "[]" 0 ?buf crc] buf by simp
  ultimately show ?thesis using k out by (intro exI [of _ k]) (simp add: scan_records_eq std_file_new_def)
qed

section \<open>Pointers the replay accepts\<close>

text \<open>
  \<open>W i\<close> are the records ever appended to value log \<open>i\<close>. A representation was written for a value: inline,
  or by the record at the pointer's place.
\<close>

type_synonym vlog_history = "u64 \<Rightarrow> (bytes \<times> bytes) list"

definition record_in :: "(bytes \<Rightarrow> u32) \<Rightarrow> (bytes \<times> bytes) list \<Rightarrow> value_ptr \<Rightarrow> bytes \<Rightarrow> bytes \<Rightarrow> bool" where
  "record_in crc rs p key v \<longleftrightarrow> (\<exists>rs1 rs2. rs = rs1 @ (key, v) # rs2 \<and> unat (vp_offset p) = length (vlog_bytes crc rs1)
     \<and> unat (vp_len p) = length (encode_record crc key v))"

definition written :: "(bytes \<Rightarrow> u32) \<Rightarrow> vlog_history \<Rightarrow> bytes \<Rightarrow> bytes \<Rightarrow> bytes \<Rightarrow> bool" where
  "written crc W key repr v \<longleftrightarrow> decode_repr repr = Ok (Inline v)
     \<or> (\<exists>p. decode_repr repr = Ok (Ptr p) \<and> record_in crc (W (vp_file p)) p key v)"

lemma scan_of_append:
  "scan_of crc pos (as @ bs) = scan_of crc pos as @ scan_of crc (pos + length (vlog_bytes crc as)) bs"
  by (induction as arbitrary: pos) (auto simp: add.assoc)

lemma scan_of_mem:
  "(off, len, key, n) \<in> set (scan_of crc pos rs) \<Longrightarrow> \<exists>rs1 w rs2. rs = rs1 @ (key, w) # rs2
     \<and> off = of_nat (pos + length (vlog_bytes crc rs1)) \<and> len = of_nat (length (encode_record crc key w))"
proof (induction rs arbitrary: pos)
  case (Cons r rs)
  obtain q w where r: "r = (q, w)" by (cases r)
  consider "off = of_nat pos" "len = of_nat (length (encode_record crc q w))" "key = q"
    | "(off, len, key, n) \<in> set (scan_of crc (pos + length (encode_record crc q w)) rs)"
    using Cons.prems r by auto
  then show ?case
  proof cases
    case 1
    then show ?thesis using r by (intro exI [of _ "[]"] exI [of _ w] exI [of _ rs]) simp
  next
    case 2
    from Cons.IH [OF 2] obtain rs1 x rs2 where h: "rs = rs1 @ (key, x) # rs2"
      "off = of_nat (pos + length (encode_record crc q w) + length (vlog_bytes crc rs1))" "len = of_nat (length (encode_record crc key x))"
      by blast
    then show ?thesis using r by (intro exI [of _ "(q, w) # rs1"] exI [of _ x] exI [of _ rs2]) (simp add: add.assoc)
  qed
qed simp

lemma index_mem:
  "map_of (index_records rs) off = Some (len, key) \<Longrightarrow> \<exists>n. (off, len, key, n) \<in> set rs"
proof -
  assume "map_of (index_records rs) off = Some (len, key)"
  then have "(off, len, key) \<in> set (rev (map (\<lambda>(off, len, key, _). (off, len, key)) rs))"
    unfolding index_records_def map_of_tm_collect by (rule map_of_SomeD)
  then show ?thesis by auto
qed

lemma vlog_bytes_longer: "us \<noteq> [] \<Longrightarrow> length (vlog_bytes crc (xs @ us)) \<noteq> length (vlog_bytes crc xs)"
proof (cases us)
  case (Cons u vs)
  obtain q w where q: "u = (q, w)" by (cases u)
  have "4 < length (encode_record crc q w)" by (rule length_encode_record)
  then have "encode_record crc q w \<noteq> []" by (cases "encode_record crc q w") simp_all
  then show ?thesis using Cons q by simp
qed simp

text \<open>What the index has at a place is the only record there can be.\<close>

lemma record_unique:
  assumes "as @ (k, v) # bs = cs @ (k', v') # ds" and l: "length (vlog_bytes crc as) = length (vlog_bytes crc cs)"
  shows "as = cs \<and> (k, v) = (k', v')"
proof -
  obtain us where "as = cs @ us \<and> us @ (k, v) # bs = (k', v') # ds \<or> as @ us = cs \<and> (k, v) # bs = us @ (k', v') # ds"
    using append_eq_append_conv2 [THEN iffD1, OF assms(1)] by (elim exE) (rule that)
  then show ?thesis
  proof (elim disjE conjE)
    assume a: "as = cs @ us" "us @ (k, v) # bs = (k', v') # ds"
    then have "us = []" using l vlog_bytes_longer [of us crc cs] by metis
    then show ?thesis using a by simp
  next
    assume a: "as @ us = cs" "(k, v) # bs = us @ (k', v') # ds"
    then have "us = []" using l vlog_bytes_longer [of us crc as] by metis
    then show ?thesis using a by simp
  qed
qed

lemma index_is_record:
  assumes ix: "map_of (index_records (scan_of crc 0 (take k rs))) (vp_offset p) = Some (vp_len p, key)"
    and rec: "record_in crc rs p key v" and small: "length (vlog_bytes crc rs) < 2 ^ 64"
  shows "record_in crc (take k rs) p key v"
proof -
  obtain n where "(vp_offset p, vp_len p, key, n) \<in> set (scan_of crc 0 (take k rs))" using index_mem [OF ix] by blast
  then obtain rs1 w rs2 where h: "take k rs = rs1 @ (key, w) # rs2" "vp_offset p = of_nat (length (vlog_bytes crc rs1))"
    "vp_len p = of_nat (length (encode_record crc key w))"
    using scan_of_mem [of "vp_offset p" "vp_len p" key n crc 0 "take k rs"] by auto
  obtain as bs where r: "rs = as @ (key, v) # bs" "unat (vp_offset p) = length (vlog_bytes crc as)"
    "unat (vp_len p) = length (encode_record crc key v)" using rec by (auto simp: record_in_def)
  have "length (vlog_bytes crc rs1) \<le> length (vlog_bytes crc rs)"
    using vlog_bytes_take [of crc rs k] h(1) by simp
  then have o: "length (vlog_bytes crc as) = length (vlog_bytes crc rs1)" using h(2) r(2) small by (simp add: unat_of_nat)
  have "rs = rs1 @ (key, w) # rs2 @ drop k rs" using h(1) by (metis append_Cons append_assoc append_take_drop_id)
  then have "as @ (key, v) # bs = rs1 @ (key, w) # rs2 @ drop k rs" by (rule trans [OF sym [OF r(1)]])
  then have "as = rs1 \<and> (key, v) = (key, w)" using o by (rule record_unique)
  then show ?thesis using h(1) r(2,3) by (auto simp: record_in_def)
qed

lemma map_of_rev_mem: "(k, y) \<in> set xs \<Longrightarrow> \<exists>z. map_of (rev xs) k = Some z"
  by (metis set_rev weak_map_of_SomeI)

text \<open>A record before the cut is in the index.\<close>

lemma record_is_indexed:
  assumes rec: "record_in crc rs p key v" and cut: "unat (vp_offset p) + unat (vp_len p) \<le> n"
    and k: "k < length rs \<Longrightarrow> n < length (vlog_bytes crc (take (Suc k) rs))" and small: "length (vlog_bytes crc rs) < 2 ^ 64"
  shows "map_of (index_records (scan_of crc 0 (take k rs))) (vp_offset p) = Some (vp_len p, key)"
proof -
  obtain as bs where r: "rs = as @ (key, v) # bs" "unat (vp_offset p) = length (vlog_bytes crc as)"
    "unat (vp_len p) = length (encode_record crc key v)" using rec by (auto simp: record_in_def)
  have "length as < k"
  proof (rule ccontr)
    assume "\<not> length as < k"
    then have kl: "k \<le> length as" "k < length rs" using r(1) by simp_all
    have "vlog_bytes crc (as @ [(key, v)]) = vlog_bytes crc (take (Suc k) rs) @ vlog_bytes crc (drop (Suc k) (as @ [(key, v)]))"
    proof -
      have "take (Suc k) (as @ [(key, v)]) = take (Suc k) rs" using kl r(1) by (cases "k = length as") simp_all
      then show ?thesis using vlog_bytes_take [of crc "as @ [(key, v)]" "Suc k"] by simp
    qed
    then have "length (vlog_bytes crc (take (Suc k) rs)) \<le> length (vlog_bytes crc (as @ [(key, v)]))" by simp
    then show False using k [OF kl(2)] cut r(2,3) by simp
  qed
  then obtain cs where t: "take k rs = as @ (key, v) # cs" using r(1) by (auto simp: take_Cons')
  have off: "vp_offset p = of_nat (length (vlog_bytes crc as))" "vp_len p = of_nat (length (encode_record crc key v))"
    using arg_cong [OF r(2), of "of_nat :: nat \<Rightarrow> u64"] arg_cong [OF r(3), of "of_nat :: nat \<Rightarrow> u32"] by simp_all
  let ?ix = "map (\<lambda>(off, len, key, _). (off, len, key)) (scan_of crc 0 (take k rs))"
  have mem: "(vp_offset p, vp_len p, key) \<in> set ?ix" unfolding t scan_of_append using off by auto
  obtain y where y: "map_of (index_records (scan_of crc 0 (take k rs))) (vp_offset p) = Some y"
    using map_of_rev_mem [OF mem] by (auto simp: index_records_def map_of_tm_collect)
  obtain len q where yq: "y = (len, q)" by (cases y)
  obtain n' where "(vp_offset p, len, q, n') \<in> set (scan_of crc 0 (take k rs))" using index_mem y yq by blast
  then obtain rs1 w rs2 where h: "take k rs = rs1 @ (q, w) # rs2" "vp_offset p = of_nat (length (vlog_bytes crc rs1))"
    "len = of_nat (length (encode_record crc q w))"
    using scan_of_mem [of "vp_offset p" len q n' crc 0 "take k rs"] by auto
  have "length (vlog_bytes crc rs1) \<le> length (vlog_bytes crc rs)" using vlog_bytes_take [of crc rs k] h(1) by simp
  then have "length (vlog_bytes crc as) = length (vlog_bytes crc rs1)" using h(2) r(2) small by (simp add: unat_of_nat)
  then have "as = rs1 \<and> (key, v) = (q, w)" using t h(1) by (intro record_unique [where bs = cs and ds = rs2]) simp_all
  then show ?thesis using y yq h(3) off(2) by simp
qed

section \<open>The replay\<close>

text \<open>Whether the index has every value of an entry that lies in a young file.\<close>

definition entry_there :: "(u64 \<times> record_index) list \<Rightarrow> enc_entry \<Rightarrow> bool" where
  "entry_there young e \<longleftrightarrow> (ee_kind e = Put \<longrightarrow> (case decode_repr (ee_repr e) of
     Inr (Ptr p) \<Rightarrow> (case map_of young (vp_file p) of
         Some index \<Rightarrow> map_of index (vp_offset p) = Some (vp_len p, ee_key e) | None \<Rightarrow> True)
   | _ \<Rightarrow> True))"

definition known_ptr :: "(u64 \<times> record_index) list \<Rightarrow> u64 set \<Rightarrow> enc_entry \<Rightarrow> bool" where
  "known_ptr young known e \<longleftrightarrow> (ee_kind e = Put \<longrightarrow> (case decode_repr (ee_repr e) of
     Inr (Ptr p) \<Rightarrow> vp_file p \<in> known | Inr (Inline _) \<Rightarrow> True | Inl _ \<Rightarrow> False))"

lemma ptrs_durable_spec:
  "\<forall>e \<in> set es. known_ptr young known e \<Longrightarrow> ptrs_durable young known es = Ok (\<forall>e \<in> set es. entry_there young e)"
proof (induction es)
  case (Cons e es)
  then show ?case
    by (auto simp: known_ptr_def entry_there_def split: sum.splits repr_ref.splits option.splits)
qed simp

text \<open>A logged batch: its first seqno, its operations and the entries they became.\<close>

type_synonym logged = "seqno \<times> batch_op list \<times> enc_entry list"

definition payload :: "logged \<Rightarrow> bytes" where "payload = (\<lambda>(base, bops, es). encode_batch base es)"
definition logged_entries :: "logged \<Rightarrow> enc_entry list" where "logged_entries = (\<lambda>(base, bops, es). es)"
definition logged_ops :: "logged \<Rightarrow> batch_op list" where "logged_ops = (\<lambda>(base, bops, es). bops)"

definition batch_there :: "(u64 \<times> record_index) list \<Rightarrow> logged \<Rightarrow> bool" where
  "batch_there young b \<longleftrightarrow> (\<forall>e \<in> set (logged_entries b). entry_there young e)"

definition logged_ok :: "(u64 \<times> record_index) list \<Rightarrow> u64 set \<Rightarrow> logged \<Rightarrow> bool" where
  "logged_ok young known b \<longleftrightarrow> batch_ok (fst b, logged_entries b) \<and> wal_payload_ok (payload b)
     \<and> (\<forall>e \<in> set (logged_entries b). known_ptr young known e)"

definition replay_logged :: "'m skip_ops \<Rightarrow> logged \<Rightarrow> 'm replay \<Rightarrow> 'm replay" where
  "replay_logged sk b = replay_batch sk (fst b) (logged_entries b)"

lemma decode_payload: "batch_ok (fst b, logged_entries b) \<Longrightarrow> decode_batch (payload b) = Ok (fst b, logged_entries b)"
  using codec.dec_new [OF codec_batch, of "(fst b, logged_entries b)"]
  by (cases b) (simp add: decode_batch_eq payload_def logged_entries_def)

lemma replay_records_spec:
  assumes "list_all (logged_ok young known) bs"
  shows "replay_records sk young known (map payload bs) s
    = Ok (fold (replay_logged sk) (takeWhile (batch_there young) bs) s, \<not> list_all (batch_there young) bs)"
  using assms
proof (induction bs arbitrary: s)
  case (Cons b bs)
  have "decode_batch (payload b) = Ok (fst b, logged_entries b)" using Cons.prems decode_payload by (simp add: logged_ok_def)
  moreover have "ptrs_durable young known (logged_entries b) = Ok (batch_there young b)"
    using Cons.prems ptrs_durable_spec by (simp add: logged_ok_def batch_there_def)
  ultimately show ?case using Cons by (simp add: replay_logged_def)
qed simp

text \<open>A log on disk, its records and its tail.\<close>

definition log_reads :: "(bytes \<Rightarrow> u32) \<Rightarrow> dir_fs \<Rightarrow> u64 \<Rightarrow> logged list \<Rightarrow> wal_tail \<Rightarrow> bool" where
  "log_reads crc d wid bs tail \<longleftrightarrow> (\<exists>content. df_files d (wal_name wid) = Some content
     \<and> read_wal crc (std_file_new content) = Ok (map payload bs, tail))"

lemma replay_wals_spec:
  assumes "list_all2 (\<lambda>i bs. log_reads crc d i bs Clean) ids bss" and "log_reads crc d wid bs tail"
    and "list_all (list_all (logged_ok young known)) (bss @ [bs])"
  shows "\<exists>torn. replay_wals crc sk d young known (ids @ [wid]) s
    = Ok (fold (replay_logged sk) (takeWhile (batch_there young) (concat (bss @ [bs]))) s, torn)"
  using assms
proof (induction ids bss arbitrary: s rule: list_all2_induct)
  case Nil
  obtain content where "df_files d (wal_name wid) = Some content" "read_wal crc (std_file_new content) = Ok (map payload bs, tail)"
    using Nil.prems(1) by (auto simp: log_reads_def)
  moreover have "list_all (logged_ok young known) bs" using Nil.prems(2) by simp
  ultimately show ?case using replay_records_spec [of young known bs sk s]
    by (cases tail) (simp_all add: open_read_def fs_read_def)
next
  case (Cons i ids bs' bss)
  obtain content where c: "df_files d (wal_name i) = Some content" "read_wal crc (std_file_new content) = Ok (map payload bs', Clean)"
    using Cons.hyps(1) by (auto simp: log_reads_def)
  have ok: "list_all (logged_ok young known) bs'" "list_all (list_all (logged_ok young known)) (bss @ [bs])"
    using Cons.prems(2) by simp_all
  note r = replay_records_spec [OF ok(1), of sk s]
  show ?case
  proof (cases "list_all (batch_there young) bs'")
    case True
    then have t: "takeWhile (batch_there young) bs' = bs'" by (simp add: list_all_iff takeWhile_eq_all_conv)
    have "takeWhile (batch_there young) (concat ((bs' # bss) @ [bs])) = bs' @ takeWhile (batch_there young) (concat (bss @ [bs]))"
      using True by (simp add: list_all_iff takeWhile_append2)
    moreover obtain torn where "replay_wals crc sk d young known (ids @ [wid]) (fold (replay_logged sk) bs' s)
        = Ok (fold (replay_logged sk) (takeWhile (batch_there young) (concat (bss @ [bs]))) (fold (replay_logged sk) bs' s), torn)"
      using Cons.IH [OF Cons.prems(1) ok(2)] by blast
    ultimately show ?thesis using c r True t by (simp add: open_read_def fs_read_def)
  next
    case False
    then obtain b where "b \<in> set bs'" "\<not> batch_there young b" by (auto simp: list_all_iff)
    then have "takeWhile (batch_there young) (concat ((bs' # bss) @ [bs])) = takeWhile (batch_there young) bs'"
      by (simp add: takeWhile_append1)
    then show ?thesis using c r False by (simp add: open_read_def fs_read_def)
  qed
qed

section \<open>What the replayed memtable stands for\<close>

fun follows :: "seqno \<Rightarrow> logged list \<Rightarrow> bool" where
  "follows q [] \<longleftrightarrow> True"
| "follows q (b # bs) \<longleftrightarrow> fst b = q \<and> follows (q + of_nat (length (logged_entries b))) bs"

definition logged_len :: "logged list \<Rightarrow> nat" where
  "logged_len bs = sum_list (map (\<lambda>b. length (logged_entries b)) bs)"

definition all_ops :: "logged list \<Rightarrow> batch_op list" where
  "all_ops bs = concat (map logged_ops bs)"

lemma logged_simps [simp]:
  "logged_len [] = 0" "logged_len (b # bs) = length (logged_entries b) + logged_len bs"
  "all_ops [] = []" "all_ops (b # bs) = logged_ops b @ all_ops bs"
  by (simp_all add: logged_len_def all_ops_def)

lemma unat_seq_add: "unat (q :: seqno) + n \<le> unat max_seqno \<Longrightarrow> unat (q + of_nat n) = unat q + n"
  by (simp add: unat_word_ariths unat_of_nat max_seqno_val)

lemma max_seq_entries:
  fixes q s :: seqno
  assumes "unat q = unat s + 1"
  shows "unat q + n \<le> unat max_seqno \<Longrightarrow> unat (fold (\<lambda>i t. max t (q + of_nat i)) [0..<n] s) = unat s + n"
proof (induction n)
  case (Suc n)
  have "unat (q + of_nat n) = unat q + n" using Suc.prems by (intro unat_seq_add) simp
  then show ?case using Suc assms by (simp add: max_def word_le_nat_alt)
qed simp

lemma replay_holds:
  assumes sk: "skip_ok sk ents" and "follows q bs"
    and "list_all (\<lambda>b. list_all2 (op_entry V) (logged_ops b) (logged_entries b)) bs"
    and "layered (ents (mt_map (rp_mem s)) # ess)" and "below q (ents (mt_map (rp_mem s)) # ess)"
    and "list_all entries_kinds (ents (mt_map (rp_mem s)) # ess)" and "unat q = unat (rp_max s) + 1"
    and "unat q + logged_len bs \<le> unat max_seqno"
  defines "s' \<equiv> fold (replay_logged sk) bs s"
  shows "layered (ents (mt_map (rp_mem s')) # ess) \<and> below (q + of_nat (logged_len bs)) (ents (mt_map (rp_mem s')) # ess)
    \<and> list_all entries_kinds (ents (mt_map (rp_mem s')) # ess) \<and> unat (rp_max s') = unat (rp_max s) + logged_len bs
    \<and> (\<forall>t m. layers_hold V (ents (mt_map (rp_mem s)) # ess) t m \<longrightarrow>
         (t < q \<longrightarrow> layers_hold V (ents (mt_map (rp_mem s')) # ess) t m) \<and>
         (q + of_nat (logged_len bs) \<le> t + 1 \<and> t < max_seqno \<longrightarrow> layers_hold V (ents (mt_map (rp_mem s')) # ess) t (fold op_on (all_ops bs) m)))"
  using assms(2-8) unfolding s'_def
proof (induction bs arbitrary: q s)
  case (Cons b bs)
  obtain base bops es where b: "b = (base, bops, es)" by (cases b)
  let ?s = "replay_logged sk b s"
  have le: "unat q + length es \<le> unat max_seqno" using Cons.prems(7) b by (simp add: logged_entries_def)
  have rm: "rp_mem ?s = insert_entries sk q es (rp_mem s)" "unat (rp_max ?s) = unat (rp_max s) + length es"
    using Cons.prems(1) b max_seq_entries [OF Cons.prems(6) le] by (simp_all add: replay_logged_def replay_batch_def logged_entries_def)
  have ops: "list_all2 (op_entry V) bops es" using Cons.prems(2) b by (simp add: logged_ops_def logged_entries_def)
  note h = layers_hold_entries [OF sk ops Cons.prems(3-5) le, folded rm(1)]
  have u: "unat (q + of_nat (length es)) = unat q + length es" using le by (rule unat_seq_add)
  have "follows (q + of_nat (length es)) bs" using Cons.prems(1) b by (simp add: logged_entries_def)
  moreover have "list_all (\<lambda>b. list_all2 (op_entry V) (logged_ops b) (logged_entries b)) bs" using Cons.prems(2) by simp
  moreover have "unat (q + of_nat (length es)) = unat (rp_max ?s) + 1" using u rm(2) Cons.prems(6) by simp
  moreover have "unat (q + of_nat (length es)) + logged_len bs \<le> unat max_seqno" using u Cons.prems(7) b by (simp add: logged_entries_def)
  ultimately have ih: "layered (ents (mt_map (rp_mem (fold (replay_logged sk) bs ?s))) # ess)
      \<and> below (q + of_nat (length es) + of_nat (logged_len bs)) (ents (mt_map (rp_mem (fold (replay_logged sk) bs ?s))) # ess)
      \<and> list_all entries_kinds (ents (mt_map (rp_mem (fold (replay_logged sk) bs ?s))) # ess)
      \<and> unat (rp_max (fold (replay_logged sk) bs ?s)) = unat (rp_max ?s) + logged_len bs
      \<and> (\<forall>t m. layers_hold V (ents (mt_map (rp_mem ?s)) # ess) t m \<longrightarrow>
         (t < q + of_nat (length es) \<longrightarrow> layers_hold V (ents (mt_map (rp_mem (fold (replay_logged sk) bs ?s))) # ess) t m) \<and>
         (q + of_nat (length es) + of_nat (logged_len bs) \<le> t + 1 \<and> t < max_seqno \<longrightarrow>
           layers_hold V (ents (mt_map (rp_mem (fold (replay_logged sk) bs ?s))) # ess) t (fold op_on (all_ops bs) m)))"
    using h by (intro Cons.IH) blast+
  have len: "logged_len (b # bs) = length es + logged_len bs" "all_ops (b # bs) = bops @ all_ops bs"
    by (simp_all add: b logged_entries_def logged_ops_def)
  have sum: "q + of_nat (logged_len (b # bs)) = q + of_nat (length es) + of_nat (logged_len bs)" unfolding len by simp
  have small: "unat (q + of_nat (length es) + of_nat (logged_len bs)) = unat q + length es + logged_len bs"
    using unat_seq_add [of "q + of_nat (length es)" "logged_len bs"] u Cons.prems(7) len by simp
  have mid: "q + of_nat (length es) \<le> t + 1" if "q + of_nat (length es) + of_nat (logged_len bs) \<le> t + 1" for t
    using that u small by (simp add: word_le_nat_alt)
  have old: "t < q + of_nat (length es)" if "t < q" for t using that u by (simp add: word_less_nat_alt)
  show ?case unfolding fold_simps sum len(2) fold_append comp_apply
  proof (intro conjI allI impI)
    fix t m assume m: "layers_hold V (ents (mt_map (rp_mem s)) # ess) t m"
    show "layers_hold V (ents (mt_map (rp_mem (fold (replay_logged sk) bs ?s))) # ess) t m" if "t < q"
      using h m that old ih by blast
    show "layers_hold V (ents (mt_map (rp_mem (fold (replay_logged sk) bs ?s))) # ess) t (fold op_on (all_ops bs) (fold op_on bops m))"
      if "q + of_nat (length es) + of_nat (logged_len bs) \<le> t + 1 \<and> t < max_seqno"
      using h m that mid ih by blast
  qed (use ih rm(2) len(1) in simp_all)
qed simp

end
