(* ===== verification/RecoverFound.thy ===== *)
theory RecoverFound
  imports RecoverLog
begin

text \<open>
  What opening finds in the directory a crash left: the value logs it opens, the index of the young
  ones, the logs it replays, and the map the tables and the replayed memtable stand for.
\<close>

section \<open>The value logs that are opened\<close>

definition handle_of :: "dir_fs \<Rightarrow> u64 \<Rightarrow> vlog_handle" where
  "handle_of d i = vlog_handle_new i (std_file_new (the (df_files d (vlog_name i))))"

lemma open_vlog_present: "df_files d (vlog_name i) \<noteq> None \<Longrightarrow> open_vlog d i = Ok (handle_of d i)"
  by (auto simp: open_vlog_def open_read_def fs_read_def handle_of_def)

text \<open>The files of a set of ids, all opened.\<close>

definition opened :: "dir_fs \<Rightarrow> u64 set \<Rightarrow> vlog_files \<Rightarrow> bool" where
  "opened d A live \<longleftrightarrow> tm_keys_ok live \<and> (\<forall>i. map_of live i = (if i \<in> A then Some (handle_of d i) else None))
     \<and> (\<forall>i \<in> A. df_files d (vlog_name i) \<noteq> None)"

lemma opened_keys: "opened d A live \<Longrightarrow> fst ` set live = A"
  unfolding opened_def by (metis (mono_tags, lifting) dom_map_of_conv_image_fst domIff option.distinct(1) set_eqI)

lemma opened_put: "opened d A live \<Longrightarrow> df_files d (vlog_name i) \<noteq> None \<Longrightarrow> opened d (insert i A) (tm_put i (handle_of d i) live)"
  by (simp add: opened_def)

lemma open_live_spec:
  "opened d A live \<Longrightarrow> \<forall>i \<in> set is. df_files d (vlog_name i) \<noteq> None \<Longrightarrow>
   \<exists>live'. open_live d is live = Ok live' \<and> opened d (A \<union> set is) live'"
proof (induction "is" arbitrary: A live)
  case (Cons i "is")
  obtain live' where "open_live d is (tm_put i (handle_of d i) live) = Ok live'" "opened d (insert i A \<union> set is) live'"
    using Cons.IH [OF opened_put [OF Cons.prems(1), of i]] Cons.prems(2) by auto
  then show ?case using Cons.prems(2) open_vlog_present by simp
qed simp

lemma open_retired_spec:
  "opened d A live \<Longrightarrow>
   \<exists>rs live'. open_retired d vs live = Ok (rs, live') \<and> opened d (A \<union> {i \<in> fst ` set vs. df_files d (vlog_name i) \<noteq> None}) live'
     \<and> rv_id ` set rs = {i \<in> fst ` set vs. df_files d (vlog_name i) \<noteq> None}"
proof (induction vs arbitrary: A live)
  case (Cons p vs)
  obtain i s where p: "p = (i, s)" by (cases p)
  show ?case
  proof (cases "df_files d (vlog_name i) = None")
    case True
    have "{j \<in> fst ` set (p # vs). df_files d (vlog_name j) \<noteq> None} = {j \<in> fst ` set vs. df_files d (vlog_name j) \<noteq> None}"
      using True p by auto
    then show ?thesis using Cons.IH [OF Cons.prems] True p by simp
  next
    case False
    have e: "{j \<in> fst ` set (p # vs). df_files d (vlog_name j) \<noteq> None} = insert i {j \<in> fst ` set vs. df_files d (vlog_name j) \<noteq> None}"
      using False p by auto
    obtain rs live' where h: "open_retired d vs (tm_put i (handle_of d i) live) = Ok (rs, live')"
      "opened d (insert i A \<union> {j \<in> fst ` set vs. df_files d (vlog_name j) \<noteq> None}) live'"
      "rv_id ` set rs = {j \<in> fst ` set vs. df_files d (vlog_name j) \<noteq> None}"
      using Cons.IH [OF opened_put [OF Cons.prems False]] by blast
    obtain c where "df_files d (vlog_name i) = Some c" using False by blast
    then show ?thesis unfolding e using h p open_vlog_present [OF False] by simp
  qed
qed simp

lemma adopt_young_spec:
  "opened d A live \<Longrightarrow> \<forall>i \<in> set is. df_files d (vlog_name i) \<noteq> None \<Longrightarrow>
   \<exists>live'. adopt_young d head retired is live = Ok live' \<and> opened d (A \<union> {i \<in> set is. head \<le> i \<and> i \<notin> set retired}) live'"
proof (induction "is" arbitrary: A live)
  case (Cons i "is")
  have k: "fst ` set live = A" by (rule opened_keys [OF Cons.prems(1)])
  have p: "df_files d (vlog_name i) \<noteq> None" "\<forall>i \<in> set is. df_files d (vlog_name i) \<noteq> None" using Cons.prems(2) by simp_all
  let ?B = "\<lambda>is. {i \<in> set is. head \<le> i \<and> i \<notin> set retired}"
  show ?case
  proof (cases "head \<le> i \<and> i \<notin> A \<and> i \<notin> set retired")
    case True
    have "A \<union> ?B (i # is) = insert i A \<union> ?B is" using True by auto
    then show ?thesis using Cons.IH [OF opened_put [OF Cons.prems(1) p(1)] p(2)] True k open_vlog_present [OF p(1)] by simp
  next
    case False
    then have "A \<union> ?B (i # is) = A \<union> ?B is" by auto
    then show ?thesis using Cons.IH [OF Cons.prems(1) p(2)] False k by auto
  qed
qed simp

text \<open>The index of the young files, and the id counter past them.\<close>

definition young :: "u64 \<Rightarrow> u64 list \<Rightarrow> u64 \<Rightarrow> bool" where
  "young head retired i \<longleftrightarrow> head \<le> i \<and> i \<notin> set retired"

definition records_of :: "(bytes \<Rightarrow> u32) \<Rightarrow> vlog_handle \<Rightarrow> scanned_record list" where
  "records_of crc h = fst (parse_records_loop crc (sf_data (vh_file h)) 0)"

lemma young_index_spec:
  "\<exists>ix next'. young_index crc head retired live next = Ok (ix, next') \<and> next \<le> next'
     \<and> (\<forall>i. map_of ix i = (case map_of live i of Some h \<Rightarrow> if young head retired i then Some (index_records (records_of crc h)) else None | None \<Rightarrow> None))
     \<and> (\<forall>i \<in> fst ` set live. young head retired i \<and> i \<noteq> - 1 \<longrightarrow> i < next')"
  if "distinct (map fst live)"
  using that
proof (induction live arbitrary: "next")
  case (Cons p live)
  obtain i h where p: "p = (i, h)" by (cases p)
  have nd: "map_of live i = None" "distinct (map fst live)" using Cons.prems p by (simp_all add: map_of_eq_None_iff)
  show ?case
  proof (cases "young head retired i")
    case True
    obtain ix n where h: "young_index crc head retired live (max next (i + 1)) = Ok (ix, n)" "max next (i + 1) \<le> n"
      "\<forall>i. map_of ix i = (case map_of live i of Some h \<Rightarrow> if young head retired i then Some (index_records (records_of crc h)) else None | None \<Rightarrow> None)"
      "\<forall>i \<in> fst ` set live. young head retired i \<and> i \<noteq> - 1 \<longrightarrow> i < n"
      using Cons.IH [OF nd(2)] by blast
    have "i < n" if "i \<noteq> - 1"
    proof -
      have "i < i + 1" using that by (rule word_less_succ)
      then show ?thesis using h(2) by (meson max.boundedE order_less_le_trans)
    qed
    then show ?thesis using h True p nd(1)
      by (auto simp: young_def scan_records_eq split_def Let_def records_of_def split: option.splits)
  next
    case False
    obtain ix n where h: "young_index crc head retired live next = Ok (ix, n)" "next \<le> n"
      "\<forall>i. map_of ix i = (case map_of live i of Some h \<Rightarrow> if young head retired i then Some (index_records (records_of crc h)) else None | None \<Rightarrow> None)"
      "\<forall>i \<in> fst ` set live. young head retired i \<and> i \<noteq> - 1 \<longrightarrow> i < n"
      using Cons.IH [OF nd(2)] by blast
    have "map_of ix j = (case map_of (p # live) j of Some h \<Rightarrow> if young head retired j then Some (index_records (records_of crc h)) else None | None \<Rightarrow> None)" for j
      using h(3) [rule_format, of j] p nd(1) False by (cases "j = i") simp_all
    moreover have "young_index crc head retired (p # live) next = Ok (ix, n)" using h(1) False p by (auto simp: young_def)
    ultimately show ?thesis using h(2,4) p False by (intro exI [of _ ix] exI [of _ n]) simp
  qed
qed simp

section \<open>The directory a crash leaves\<close>

text \<open>
  The ids the manifest or the head makes part of the store and whose files are there; the ids of the
  logs at or above the floor.
\<close>

definition vlog_ids :: "manifest_data \<Rightarrow> dir_fs \<Rightarrow> u64 set" where
  "vlog_ids m d = {i. df_files d (vlog_name i) \<noteq> None \<and> (i \<in> set (md_vlog_live m) \<or> i \<in> fst ` set (md_vlog_retired m) \<or> md_vlog_head m \<le> i)}"

definition listed :: "bytes list \<Rightarrow> dir_fs \<Rightarrow> bool" where
  "listed ls d \<longleftrightarrow> distinct ls \<and> set ls = {name. df_files d name \<noteq> None}
     \<and> (\<forall>name \<in> set ls. \<forall>i. (parse_file_id name (ascii ''wal-'') (ascii ''.log'') = Some i \<longrightarrow> name = wal_name i)
        \<and> (parse_file_id name (ascii ''vlog-'') (ascii ''.vlog'') = Some i \<longrightarrow> name = vlog_name i))"

lemma set_map_filter: "i \<in> set (List.map_filter f xs) \<longleftrightarrow> (\<exists>x \<in> set xs. f x = Some i)"
  by (induction xs) (auto simp: List.map_filter_simps split: option.splits)

lemma listed_names:
  assumes "listed ls d"
  shows "(\<exists>name \<in> set ls. parse_file_id name (ascii ''wal-'') (ascii ''.log'') = Some i) \<longleftrightarrow> df_files d (wal_name i) \<noteq> None"
    and "(\<exists>name \<in> set ls. parse_file_id name (ascii ''vlog-'') (ascii ''.vlog'') = Some i) \<longleftrightarrow> df_files d (vlog_name i) \<noteq> None"
proof -
  have m: "name \<in> set ls \<longleftrightarrow> df_files d name \<noteq> None" for name using assms by (simp add: listed_def)
  have w: "name = wal_name i" if "name \<in> set ls" "parse_file_id name (ascii ''wal-'') (ascii ''.log'') = Some i" for name
    using assms that unfolding listed_def by blast
  have v: "name = vlog_name i" if "name \<in> set ls" "parse_file_id name (ascii ''vlog-'') (ascii ''.vlog'') = Some i" for name
    using assms that unfolding listed_def by blast
  show "(\<exists>name \<in> set ls. parse_file_id name (ascii ''wal-'') (ascii ''.log'') = Some i) \<longleftrightarrow> df_files d (wal_name i) \<noteq> None"
    using w m [of "wal_name i"] parse_file_names(1) [of i] by (intro iffI) blast+
  show "(\<exists>name \<in> set ls. parse_file_id name (ascii ''vlog-'') (ascii ''.vlog'') = Some i) \<longleftrightarrow> df_files d (vlog_name i) \<noteq> None"
    using v m [of "vlog_name i"] parse_file_names(3) [of i] by (intro iffI) blast+
qed

lemma disk_vlogs_listed: "listed ls d \<Longrightarrow> set (disk_vlogs ls) = {i. df_files d (vlog_name i) \<noteq> None}"
  using listed_names(2) [of ls d] by (simp add: set_eq_iff disk_vlogs_def set_map_filter)

lemma scan_names_spec:
  "\<exists>next'. scan_names floor ls ids next = (ids @ filter (\<lambda>i. floor \<le> i) (List.map_filter (\<lambda>name. parse_file_id name (ascii ''wal-'') (ascii ''.log'')) ls), next')
     \<and> next \<le> next'"
proof (induction ls arbitrary: ids "next")
  case (Cons name ls)
  consider (wal) i where "parse_file_id name (ascii ''wal-'') (ascii ''.log'') = Some i"
    | (tbl) i where "parse_file_id name (ascii ''wal-'') (ascii ''.log'') = None" "parse_file_id name (ascii ''sst-'') (ascii ''.tbl'') = Some i"
    | (none) "parse_file_id name (ascii ''wal-'') (ascii ''.log'') = None" "parse_file_id name (ascii ''sst-'') (ascii ''.tbl'') = None"
    by (cases "parse_file_id name (ascii ''wal-'') (ascii ''.log'')"; cases "parse_file_id name (ascii ''sst-'') (ascii ''.tbl'')") auto
  then show ?case
  proof cases
    case wal
    then show ?thesis using Cons.IH [of "if floor \<le> i then ids @ [i] else ids" "max next (i + 1)"]
      by (auto simp: List.map_filter_simps)
  next
    case tbl
    then show ?thesis using Cons.IH [of ids "max next (i + 1)"] by (auto simp: List.map_filter_simps)
  next
    case none
    then show ?thesis using Cons.IH [of ids "next"] by (auto simp: List.map_filter_simps)
  qed
qed (simp add: List.map_filter_simps)

lemma wal_ids_listed:
  assumes l: "listed ls d" and w: "sorted wids" "distinct wids" "set wids = {i. floor \<le> i \<and> df_files d (wal_name i) \<noteq> None}"
  shows "sort (filter (\<lambda>i. floor \<le> i) (List.map_filter (\<lambda>name. parse_file_id name (ascii ''wal-'') (ascii ''.log'')) ls)) = wids"
proof -
  let ?f = "\<lambda>name. parse_file_id name (ascii ''wal-'') (ascii ''.log'')"
  have inj: "a = b" if "a \<in> set ls" "b \<in> set ls" "?f a = Some i" "?f b = Some i" for a b i
    using l that unfolding listed_def by metis
  have d: "distinct (List.map_filter ?f xs)" if "distinct xs" "set xs \<subseteq> set ls" for xs
    using that
  proof (induction xs)
    case (Cons x xs)
    have ih: "distinct (List.map_filter ?f xs)" using Cons by simp
    show ?case
    proof (cases "?f x")
      case (Some i)
      have "i \<notin> set (List.map_filter ?f xs)"
      proof
        assume "i \<in> set (List.map_filter ?f xs)"
        then obtain y where y: "y \<in> set xs" "?f y = Some i" unfolding set_map_filter by blast
        then have "x = y" using inj [of x y i] Some Cons.prems(2) by auto
        then show False using y(1) Cons.prems(1) by simp
      qed
      then show ?thesis using ih Some by (simp add: List.map_filter_simps)
    qed (use ih in \<open>simp add: List.map_filter_simps\<close>)
  qed (simp add: List.map_filter_simps)
  have "distinct (filter (\<lambda>i. floor \<le> i) (List.map_filter ?f ls))" using d [of ls] l by (simp add: listed_def)
  moreover have "set (filter (\<lambda>i. floor \<le> i) (List.map_filter ?f ls)) = set wids"
    unfolding w(3) set_filter using listed_names(1) [OF l] by (auto simp: set_map_filter)
  ultimately show ?thesis using w(1,2) by (intro sorted_distinct_set_unique) simp_all
qed

definition wal_ids_of :: "manifest_data \<Rightarrow> dir_fs \<Rightarrow> u64 list" where
  "wal_ids_of m d = sorted_list_of_set {i. md_wal_floor m \<le> i \<and> df_files d (wal_name i) \<noteq> None}"

abbreviation young_in :: "manifest_data \<Rightarrow> u64 \<Rightarrow> bool" where
  "young_in m \<equiv> young (md_vlog_head m) (map fst (md_vlog_retired m))"

text \<open>
  A logged batch: its record is a whole batch payload, each entry stands for its operation by what was written
  to the value logs, and a pointer is into a file of the store that is young or all on disk.
\<close>

definition logged_written ::
    "(bytes \<Rightarrow> u32) \<Rightarrow> manifest_data \<Rightarrow> dir_fs \<Rightarrow> vlog_history \<Rightarrow> (u64 \<Rightarrow> nat) \<Rightarrow> logged \<Rightarrow> bool" where
  "logged_written crc m d W vcut b \<longleftrightarrow> batch_ok (fst b, logged_entries b) \<and> wal_payload_ok (payload b)
     \<and> list_all2 (op_entry (written crc W)) (logged_ops b) (logged_entries b)
     \<and> (\<forall>e \<in> set (logged_entries b). \<forall>p. ee_kind e = Put \<and> decode_repr (ee_repr e) = Ok (Ptr p) \<longrightarrow>
          vp_file p \<in> vlog_ids m d \<and> (young_in m (vp_file p) \<or> length (vlog_bytes crc (W (vp_file p))) \<le> vcut (vp_file p)))"

text \<open>
  What a crash leaves: every value log cut at \<open>vcut\<close>, the logs at or above the floor with the batches
  \<open>bss\<close>, whole but for the newest, which is cut at \<open>n\<close>.
\<close>

definition crash_image ::
    "(bytes \<Rightarrow> u32) \<Rightarrow> manifest_data \<Rightarrow> bytes list \<Rightarrow> dir_fs \<Rightarrow> vlog_history \<Rightarrow> (u64 \<Rightarrow> nat) \<Rightarrow> logged list list \<Rightarrow> nat \<Rightarrow> bool" where
  "crash_image crc m ls d W vcut bss n \<longleftrightarrow>
     listed ls d \<and> (\<forall>i \<in> set (md_vlog_live m). df_files d (vlog_name i) \<noteq> None)
     \<and> (\<forall>i c. df_files d (vlog_name i) = Some c \<longrightarrow> c = take (vcut i) (vlog_bytes crc (W i)) \<and> list_all record_ok (W i)
          \<and> length (vlog_bytes crc (W i)) < 2 ^ 64)
     \<and> length bss = length (wal_ids_of m d)
     \<and> (\<forall>j < length bss. df_files d (wal_name (wal_ids_of m d ! j)) = Some (let frames = wal_frames crc (map payload (bss ! j))
          in if Suc j < length bss then frames else take n frames))
     \<and> (\<forall>b \<in> set (concat bss). logged_written crc m d W vcut b)"

lemma wal_ids_of_spec:
  "sorted (wal_ids_of m d)" "distinct (wal_ids_of m d)"
  "set (wal_ids_of m d) = {i. md_wal_floor m \<le> i \<and> df_files d (wal_name i) \<noteq> None}"
  by (simp_all add: wal_ids_of_def)

section \<open>Values on disk\<close>

lemma record_in_bytes:
  assumes "record_in crc rs p key v"
  shows "\<exists>pre post. vlog_bytes crc rs = pre @ encode_record crc key v @ post \<and> unat (vp_offset p) = length pre
    \<and> unat (vp_len p) = length (encode_record crc key v)"
  using assms unfolding record_in_def by (elim exE conjE) (simp, blast)

lemma record_in_ok: "record_in crc rs p key v \<Longrightarrow> list_all record_ok rs \<Longrightarrow> record_ok (key, v)"
  by (auto simp: record_in_def)

lemma value_on_disk:
  assumes im: "crash_image crc m ls d W vcut bss n" and op: "opened d (vlog_ids m d) live" and t: "cache_truth crc P live"
    and dec: "decode_repr repr = Ok (Ptr p)" and i: "vp_file p \<in> vlog_ids m d"
    and w: "record_in crc (W (vp_file p)) p key v"
    and there: "if young_in m (vp_file p) then map_of (index_records (records_of crc (handle_of d (vp_file p)))) (vp_offset p) = Some (vp_len p, key)
      else length (vlog_bytes crc (W (vp_file p))) \<le> vcut (vp_file p)"
  shows "value_at crc P live key repr v"
proof -
  let ?i = "vp_file p" and ?rs = "W (vp_file p)"
  obtain c where c: "df_files d (vlog_name ?i) = Some c" using i by (auto simp: vlog_ids_def)
  then have cw: "c = take (vcut ?i) (vlog_bytes crc ?rs)" "list_all record_ok ?rs" "length (vlog_bytes crc ?rs) < 2 ^ 64"
    using im unfolding crash_image_def by blast+
  have h: "handle_of d ?i = vlog_handle_new ?i (std_file_new c)" using c by (simp add: handle_of_def)
  obtain pre post where pp: "c = pre @ encode_record crc key v @ post" "unat (vp_offset p) = length pre"
    "unat (vp_len p) = length (encode_record crc key v)"
  proof (cases "young_in m ?i")
    case True
    obtain k where k: "length (vlog_bytes crc (take k ?rs)) \<le> vcut ?i"
      "scan_records crc (std_file_new (take (vcut ?i) (vlog_bytes crc ?rs))) = Ok (scan_of crc 0 (take k ?rs), of_nat (length (vlog_bytes crc (take k ?rs))))"
      using scan_records_cut [OF cw(2), of crc "vcut ?i"] by blast
    have "records_of crc (handle_of d ?i) = scan_of crc 0 (take k ?rs)"
      using k(2) cw(1) h by (auto simp: records_of_def vlog_handle_new_def scan_records_eq split: prod.splits)
    then have "record_in crc (take k ?rs) p key v" using index_is_record [OF _ w cw(3)] there True by simp
    from record_in_bytes [OF this] obtain pre post where r: "vlog_bytes crc (take k ?rs) = pre @ encode_record crc key v @ post"
      "unat (vp_offset p) = length pre" "unat (vp_len p) = length (encode_record crc key v)" by blast
    have "c = vlog_bytes crc (take k ?rs) @ take (vcut ?i - length (vlog_bytes crc (take k ?rs))) (vlog_bytes crc (drop k ?rs))"
      unfolding cw(1) using k(1) by (subst vlog_bytes_take [of crc ?rs k]) simp
    then show thesis using r by (intro that) simp_all
  next
    case False
    then have "c = vlog_bytes crc ?rs" using cw(1) there by simp
    then show thesis using record_in_bytes [OF w] that by blast
  qed
  have m: "map_of live ?i = Some (handle_of d ?i)" using op i by (simp add: opened_def)
  have ro: "record_ok (key, v)" using record_in_ok [OF w cw(2)] .
  have "vp_offset p = of_nat (length pre)" using arg_cong [OF pp(2), of "of_nat :: nat \<Rightarrow> u64"] by simp
  moreover have "\<forall>bs. P (?i, of_nat (length pre)) bs \<longleftrightarrow> bs = encode_record crc key v"
    using t m ro pp(1) h unfolding cache_truth_def by (simp add: vlog_handle_new_def)
  ultimately have "record_at crc P (handle_of d ?i) p key v"
    unfolding record_at_def using h ro pp by (auto simp: vlog_handle_new_def)
  then show ?thesis using dec m by (auto simp: value_at_def)
qed

text \<open>The index of the young files that was built for what was opened.\<close>

definition indexed :: "(bytes \<Rightarrow> u32) \<Rightarrow> manifest_data \<Rightarrow> dir_fs \<Rightarrow> (u64 \<times> record_index) list \<Rightarrow> bool" where
  "indexed crc m d ix \<longleftrightarrow> (\<forall>i. map_of ix i =
     (if i \<in> vlog_ids m d \<and> young_in m i then Some (index_records (records_of crc (handle_of d i))) else None))"

lemma there_op_entry:
  assumes im: "crash_image crc m ls d W vcut bss n" and op: "opened d (vlog_ids m d) live" and t: "cache_truth crc P live"
    and ix: "indexed crc m d ix" and b: "logged_written crc m d W vcut b" and there: "batch_there ix b"
  shows "list_all2 (op_entry (value_at crc P live)) (logged_ops b) (logged_entries b)"
proof -
  have l: "list_all2 (op_entry (written crc W)) (logged_ops b) (logged_entries b)" using b by (simp add: logged_written_def)
  show ?thesis
  proof (rule list.rel_mono_strong [OF l])
    fix bop e assume "bop \<in> set (logged_ops b)" and e: "e \<in> set (logged_entries b)" and oe: "op_entry (written crc W) bop e"
    show "op_entry (value_at crc P live) bop e"
    proof (cases bop)
      case (OpPut key v)
      then have k: "ee_key e = key" "ee_kind e = Put" "written crc W key (ee_repr e) v" using oe by (simp_all add: op_entry_def)
      have "value_at crc P live key (ee_repr e) v"
        using k(3) unfolding written_def
      proof (elim disjE exE conjE)
        fix p assume p: "decode_repr (ee_repr e) = Ok (Ptr p)" "record_in crc (W (vp_file p)) p key v"
        have f: "vp_file p \<in> vlog_ids m d" "young_in m (vp_file p) \<or> length (vlog_bytes crc (W (vp_file p))) \<le> vcut (vp_file p)"
          using b e k(2) p(1) unfolding logged_written_def by blast+
        have "entry_there ix e" using there e by (simp add: batch_there_def)
        then have "young_in m (vp_file p) \<Longrightarrow> map_of (index_records (records_of crc (handle_of d (vp_file p)))) (vp_offset p) = Some (vp_len p, key)"
          using ix f(1) k p(1) by (simp add: entry_there_def indexed_def)
        then show ?thesis using f by (intro value_on_disk [OF im op t p(1) f(1) p(2)]) auto
      qed (simp add: value_at_def)
      then show ?thesis using oe k OpPut by (simp add: op_entry_def)
    next
      case (OpDelete key)
      then show ?thesis using oe by (simp add: op_entry_def)
    qed
  qed
qed

lemma logged_written_ok:
  assumes b: "logged_written crc m d W vcut b" and known: "vlog_ids m d \<subseteq> known"
  shows "logged_ok ix known b"
proof -
  have "known_ptr ix known e" if e: "e \<in> set (logged_entries b)" for e
  proof (cases "ee_kind e = Put")
    case True
    obtain bop where "op_entry (written crc W) bop e"
      using b e unfolding logged_written_def list_all2_conv_all_nth by (metis in_set_conv_nth)
    then have "\<exists>key v. written crc W key (ee_repr e) v" using True by (cases bop) (auto simp: op_entry_def)
    then obtain r where r: "decode_repr (ee_repr e) = Ok r" by (auto simp: written_def)
    have "vp_file p \<in> known" if "r = Ptr p" for p using b e True r that known unfolding logged_written_def by blast
    then show ?thesis using r by (simp add: known_ptr_def split: repr_ref.splits)
  qed (simp add: known_ptr_def)
  then show ?thesis using b by (simp add: logged_ok_def logged_written_def)
qed

text \<open>A batch whose values all lie before the cut is taken.\<close>

definition values_before :: "(u64 \<Rightarrow> nat) \<Rightarrow> logged \<Rightarrow> bool" where
  "values_before vcut b \<longleftrightarrow> (\<forall>e \<in> set (logged_entries b). \<forall>p. ee_kind e = Put \<and> decode_repr (ee_repr e) = Ok (Ptr p) \<longrightarrow>
     unat (vp_offset p) + unat (vp_len p) \<le> vcut (vp_file p))"

lemma before_is_there:
  assumes im: "crash_image crc m ls d W vcut bss n" and ix: "indexed crc m d ix" and b: "logged_written crc m d W vcut b"
    and v: "values_before vcut b"
  shows "batch_there ix b"
  unfolding batch_there_def
proof
  fix e assume e: "e \<in> set (logged_entries b)"
  obtain bop where oe: "op_entry (written crc W) bop e"
    using b e unfolding logged_written_def list_all2_conv_all_nth by (metis in_set_conv_nth)
  have "map_of index (vp_offset p) = Some (vp_len p, ee_key e)"
    if k: "ee_kind e = Put" and p: "decode_repr (ee_repr e) = Ok (Ptr p)" and i: "map_of ix (vp_file p) = Some index" for p index
  proof -
    let ?i = "vp_file p"
    have y: "?i \<in> vlog_ids m d" "index = index_records (records_of crc (handle_of d ?i))"
      using i ix unfolding indexed_def by (auto split: if_splits)
    obtain c where c: "df_files d (vlog_name ?i) = Some c" using y(1) by (auto simp: vlog_ids_def)
    then have cw: "c = take (vcut ?i) (vlog_bytes crc (W ?i))" "list_all record_ok (W ?i)" "length (vlog_bytes crc (W ?i)) < 2 ^ 64"
      using im unfolding crash_image_def by blast+
    obtain v where "written crc W (ee_key e) (ee_repr e) v" using oe k by (cases bop) (auto simp: op_entry_def)
    then have r: "record_in crc (W ?i) p (ee_key e) v" using p by (simp add: written_def)
    obtain j where j: "j < length (W ?i) \<longrightarrow> vcut ?i < length (vlog_bytes crc (take (Suc j) (W ?i)))"
      "scan_records crc (std_file_new (take (vcut ?i) (vlog_bytes crc (W ?i)))) = Ok (scan_of crc 0 (take j (W ?i)), of_nat (length (vlog_bytes crc (take j (W ?i)))))"
      using scan_records_cut [OF cw(2), of crc "vcut ?i"] by blast
    have "records_of crc (handle_of d ?i) = scan_of crc 0 (take j (W ?i))"
      using j(2) cw(1) c by (auto simp: records_of_def handle_of_def vlog_handle_new_def scan_records_eq split: prod.splits)
    moreover have "unat (vp_offset p) + unat (vp_len p) \<le> vcut ?i" using v e k p unfolding values_before_def by blast
    ultimately show ?thesis using record_is_indexed [OF r _ _ cw(3)] j(1) y(2) by simp
  qed
  then show "entry_there ix e" by (auto simp: entry_there_def split: sum.splits repr_ref.splits option.splits)
qed

section \<open>What opening finds\<close>

text \<open>
  The batches whose log records are whole: all of the sealed logs, and of the newest one those before its cut.
\<close>

definition whole_upto :: "(bytes \<Rightarrow> u32) \<Rightarrow> logged list \<Rightarrow> nat \<Rightarrow> nat \<Rightarrow> bool" where
  "whole_upto crc bs n k \<longleftrightarrow> k \<le> length bs \<and> length (wal_frames crc (map payload (take k bs))) \<le> n
     \<and> (k < length bs \<longrightarrow> n < length (wal_frames crc (map payload (take (Suc k) bs))))"

lemma image_logs:
  assumes im: "crash_image crc m ls d W vcut bss n" and ne: "bss \<noteq> []"
  shows "\<exists>k tail. list_all2 (\<lambda>i bs. log_reads crc d i bs Clean) (butlast (wal_ids_of m d)) (butlast bss)
    \<and> log_reads crc d (last (wal_ids_of m d)) (take k (last bss)) tail \<and> whole_upto crc (last bss) n k"
proof -
  let ?ids = "wal_ids_of m d"
  have len: "length bss = length ?ids" and files: "\<And>j. j < length bss \<Longrightarrow> df_files d (wal_name (?ids ! j)) =
      Some (let frames = wal_frames crc (map payload (bss ! j)) in if Suc j < length bss then frames else take n frames)"
    using im unfolding crash_image_def by blast+
  have ok: "list_all wal_payload_ok (map payload bs)" if "bs \<in> set bss" for bs
    using im that unfolding crash_image_def logged_written_def list_all_iff by auto
  have idne: "?ids \<noteq> []" using ne len by auto
  have "list_all2 (\<lambda>i bs. log_reads crc d i bs Clean) (butlast ?ids) (butlast bss)"
    unfolding list_all2_conv_all_nth
  proof (intro conjI allI impI)
    fix j assume j: "j < length (butlast ?ids)"
    then have j': "j < length bss" "Suc j < length bss" using len by simp_all
    have "read_wal crc (std_file_new (wal_frames crc (map payload (bss ! j)))) = Ok (map payload (bss ! j), Clean)"
      using read_wal_frames [OF ok [OF nth_mem [OF j'(1)]], of "[]" 0 _ crc "[]"] read_wal_end [of crc "wal_frames crc (map payload (bss ! j))"]
      by (simp add: read_wal_eq std_file_new_def)
    then show "log_reads crc d (butlast ?ids ! j) (butlast bss ! j) Clean"
      using files [OF j'(1)] j j' len by (simp add: log_reads_def nth_butlast Let_def)
  qed (use len in simp)
  moreover have "\<exists>k tail. log_reads crc d (last ?ids) (take k (last bss)) tail \<and> whole_upto crc (last bss) n k"
  proof -
    let ?fr = "wal_frames crc (map payload (last bss))" and ?n = "min n (length (wal_frames crc (map payload (last bss))))"
    obtain k where k: "k \<le> length (last bss)" "length (wal_frames crc (take k (map payload (last bss)))) \<le> ?n"
      "k < length (last bss) \<longrightarrow> ?n < length (wal_frames crc (take (Suc k) (map payload (last bss))))"
      "\<exists>tail. read_wal crc (std_file_new (take ?n ?fr)) = Ok (take k (map payload (last bss)), tail)"
      using read_wal_cut [OF ok [OF last_in_set [OF ne]], of ?n crc] by (auto simp: Let_def)
    have lst: "last ?ids = ?ids ! (length bss - 1)" "last bss = bss ! (length bss - 1)" "length bss - 1 < length bss"
      using ne idne len by (simp_all add: last_conv_nth)
    have "df_files d (wal_name (last ?ids)) = Some (take n ?fr)" using files [OF lst(3)] lst ne by (simp add: Let_def)
    moreover have "take ?n ?fr = take n ?fr" by (simp add: min_def)
    ultimately obtain tail where "log_reads crc d (last ?ids) (take k (last bss)) tail"
      using k(4) by (auto simp: log_reads_def take_map)
    moreover have "n < length (wal_frames crc (map payload (take (Suc k) (last bss))))" if "k < length (last bss)"
    proof -
      have "?n < length (wal_frames crc (map payload (take (Suc k) (last bss))))" using k(3) that by (simp add: take_map)
      moreover have "length (wal_frames crc (map payload (take (Suc k) (last bss)))) \<le> length ?fr"
        by (subst (2) append_take_drop_id [of "Suc k" "last bss", symmetric]) (simp del: append_take_drop_id)
      ultimately show ?thesis by linarith
    qed
    ultimately show ?thesis using k(1,2) by (intro exI [of _ k] exI [of _ tail]) (simp add: whole_upto_def take_map)
  qed
  ultimately show ?thesis by blast
qed

text \<open>The batches the replay takes.\<close>

definition on_disk_batches :: "logged list list \<Rightarrow> nat \<Rightarrow> logged list" where
  "on_disk_batches bss k = (if bss = [] then [] else concat (butlast bss) @ take k (last bss))"

lemma on_disk_prefix: "\<exists>rest. concat bss = on_disk_batches bss k @ rest"
proof (cases bss rule: rev_cases)
  case (snoc as bs)
  then show ?thesis by (intro exI [of _ "drop k bs"]) (simp add: on_disk_batches_def)
qed (simp add: on_disk_batches_def)

lemma find_store_spec:
  assumes im: "crash_image (ex_crc ex) m ls d W vcut bss n" and lv: "open_levels ex d (md_levels m) = Ok levels"
  shows "\<exists>f k ix. find_store ex sk emp opts gen m ls d = Ok f \<and> fo_gen f = gen \<and> fo_data f = m
    \<and> fo_levels f = levels @ replicate (op_max_levels opts - length levels) [] \<and> opened d (vlog_ids m d) (fo_live f)
    \<and> indexed (ex_crc ex) m d ix \<and> (bss \<noteq> [] \<longrightarrow> whole_upto (ex_crc ex) (last bss) n k)
    \<and> fo_replay f = fold (replay_logged sk) (takeWhile (batch_there ix) (on_disk_batches bss k))
         \<lparr>rp_mem = memtable_new emp (if bss = [] then 0 else last (wal_ids_of m d)), rp_max = md_last_flushed_seqno m\<rparr>
    \<and> fo_wals f = wal_ids_of m d \<and> max (md_next_file_id m) 1 \<le> fo_next f
    \<and> (\<forall>i \<in> vlog_ids m d. young_in m i \<and> i \<noteq> - 1 \<longrightarrow> i < fo_next f)"
proof -
  let ?crc = "ex_crc ex" and ?ret = "map fst (md_vlog_retired m)"
  have ls: "listed ls d" and pres: "\<forall>i \<in> set (md_vlog_live m). df_files d (vlog_name i) \<noteq> None"
    and len: "length bss = length (wal_ids_of m d)" and lw: "\<forall>b \<in> set (concat bss). logged_written ?crc m d W vcut b"
    using im unfolding crash_image_def by blast+
  have "opened d {} []" by (simp add: opened_def)
  from open_live_spec [OF this pres] obtain l1 where l1: "open_live d (md_vlog_live m) [] = Ok l1" "opened d (set (md_vlog_live m)) l1"
    by auto
  let ?R = "{i \<in> fst ` set (md_vlog_retired m). df_files d (vlog_name i) \<noteq> None}"
  obtain rs l2 where l2: "open_retired d (md_vlog_retired m) l1 = Ok (rs, l2)" "opened d (set (md_vlog_live m) \<union> ?R) l2" "rv_id ` set rs = ?R"
    using open_retired_spec [OF l1(2)] by blast
  have dv: "\<forall>i \<in> set (disk_vlogs ls). df_files d (vlog_name i) \<noteq> None" using disk_vlogs_listed [OF ls] by simp
  obtain l3 where l3: "adopt_young d (md_vlog_head m) ?ret (disk_vlogs ls) l2 = Ok l3"
    "opened d (set (md_vlog_live m) \<union> ?R \<union> {i \<in> set (disk_vlogs ls). md_vlog_head m \<le> i \<and> i \<notin> set ?ret}) l3"
    using adopt_young_spec [OF l2(2) dv] by blast
  have "set (md_vlog_live m) \<union> ?R \<union> {i \<in> set (disk_vlogs ls). md_vlog_head m \<le> i \<and> i \<notin> set ?ret} = vlog_ids m d"
    using pres disk_vlogs_listed [OF ls] by (auto simp: vlog_ids_def)
  then have op: "opened d (vlog_ids m d) l3" using l3(2) by simp
  then have keys: "fst ` set l3 = vlog_ids m d" "distinct (map fst l3)"
    using opened_keys [OF op] tm_keys_distinct op unfolding opened_def by blast+
  obtain ix n1 where ix: "young_index ?crc (md_vlog_head m) ?ret l3 (max (md_next_file_id m) 1) = Ok (ix, n1)" "max (md_next_file_id m) 1 \<le> n1"
    "\<forall>i. map_of ix i = (case map_of l3 i of Some h \<Rightarrow> if young_in m i then Some (index_records (records_of ?crc h)) else None | None \<Rightarrow> None)"
    "\<forall>i \<in> fst ` set l3. young_in m i \<and> i \<noteq> - 1 \<longrightarrow> i < n1"
    using young_index_spec [OF keys(2)] by blast
  have ind: "indexed ?crc m d ix" using ix(3) op by (simp add: indexed_def opened_def)
  obtain n2 where n2: "scan_names (md_wal_floor m) ls [] n1 = (filter (\<lambda>i. md_wal_floor m \<le> i)
      (List.map_filter (\<lambda>name. parse_file_id name (ascii ''wal-'') (ascii ''.log'')) ls), n2)" "n1 \<le> n2"
    using scan_names_spec [of "md_wal_floor m" ls "[]" n1] by auto
  have wids: "sort (filter (\<lambda>i. md_wal_floor m \<le> i) (List.map_filter (\<lambda>name. parse_file_id name (ascii ''wal-'') (ascii ''.log'')) ls)) = wal_ids_of m d"
    by (rule wal_ids_listed [OF ls wal_ids_of_spec])
  let ?s = "\<lparr>rp_mem = memtable_new emp (if bss = [] then 0 else last (wal_ids_of m d)), rp_max = md_last_flushed_seqno m\<rparr>"
  have emp: "wal_ids_of m d = [] \<longleftrightarrow> bss = []" using len by auto
  have kn: "vlog_ids m d \<subseteq> known_vlogs l3 rs" using keys(1) by (simp add: known_vlogs_def)
  obtain k torn where rp: "replay_wals ?crc sk d ix (known_vlogs l3 rs) (wal_ids_of m d) ?s
      = Ok (fold (replay_logged sk) (takeWhile (batch_there ix) (on_disk_batches bss k)) ?s, torn)"
    "bss \<noteq> [] \<longrightarrow> whole_upto ?crc (last bss) n k"
  proof (cases "bss = []")
    case True
    then show thesis using emp that by (simp add: on_disk_batches_def)
  next
    case False
    obtain k tail where k: "list_all2 (\<lambda>i bs. log_reads ?crc d i bs Clean) (butlast (wal_ids_of m d)) (butlast bss)"
      "log_reads ?crc d (last (wal_ids_of m d)) (take k (last bss)) tail" "whole_upto ?crc (last bss) n k"
      using image_logs [OF im False] by blast
    have ok: "logged_ok ix (known_vlogs l3 rs) b" if "b \<in> set (concat bss)" for b
      using lw that logged_written_ok [OF _ kn] by blast
    have "b \<in> set (concat bss)" if "b \<in> set bs" "bs \<in> set (butlast bss @ [take k (last bss)])" for b bs
      using that False in_set_butlastD [of bs bss] last_in_set [OF False] by (auto dest: in_set_takeD)
    then have "list_all (list_all (logged_ok ix (known_vlogs l3 rs))) (butlast bss @ [take k (last bss)])"
      using ok unfolding list_all_iff by blast
    from replay_wals_spec [OF k(1,2) this] obtain torn where "replay_wals ?crc sk d ix (known_vlogs l3 rs) (butlast (wal_ids_of m d) @ [last (wal_ids_of m d)]) ?s
        = Ok (fold (replay_logged sk) (takeWhile (batch_there ix) (concat (butlast bss @ [take k (last bss)]))) ?s, torn)" by blast
    moreover have "butlast (wal_ids_of m d) @ [last (wal_ids_of m d)] = wal_ids_of m d" using False emp by simp
    ultimately show thesis using False k(3) by (intro that) (simp_all add: on_disk_batches_def)
  qed
  have "find_store ex sk emp opts gen m ls d = Ok \<lparr>fo_gen = gen, fo_data = m, fo_levels = levels @ replicate (op_max_levels opts - length levels) [],
      fo_live = l3, fo_retired = rs, fo_replay = fold (replay_logged sk) (takeWhile (batch_there ix) (on_disk_batches bss k)) ?s, fo_torn = torn,
      fo_wals = wal_ids_of m d, fo_next = n2\<rparr>"
    using lv l1(1) l2(1) l3(1) ix(1) n2(1) wids rp(1) emp
    by (simp add: find_store_def Let_def split del: if_split cong del: if_weak_cong)
  moreover have "max (md_next_file_id m) 1 \<le> n2" using ix(2) n2(2) by (rule order_trans)
  moreover have "\<forall>i \<in> vlog_ids m d. young_in m i \<and> i \<noteq> - 1 \<longrightarrow> i < n2" using ix(4) keys(1) n2(2) by (auto intro: order_less_le_trans)
  ultimately show ?thesis using op ind rp(2) by (intro exI conjI) (assumption | simp)+
qed

end
