(* ===== verification/RecoverProofs.thy ===== *)
theory RecoverProofs
  imports RecoverFound FlushProofs TxnIter
begin

text \<open>
  Opening the directory a crash left. The store that is opened is sound, and its newest state is
  the state of the tables with a prefix of the logged batches applied: all of those whose records
  and values lie before the cuts.
\<close>

section \<open>Ids\<close>

text \<open>Every id that the manifest or the directory names is below \<open>B\<close>.\<close>

definition ids_below :: "u64 \<Rightarrow> manifest_data \<Rightarrow> bytes list \<Rightarrow> bool" where
  "ids_below B m ls \<longleftrightarrow> 1 \<le> B \<and> md_next_file_id m \<le> B \<and> md_wal_floor m \<le> md_next_file_id m
     \<and> (\<forall>i \<in> set (md_vlog_live m) \<union> fst ` set (md_vlog_retired m). i < md_next_file_id m)
     \<and> (\<forall>name \<in> set ls. \<forall>i. parse_file_id name (ascii ''wal-'') (ascii ''.log'') = Some i
          \<or> parse_file_id name (ascii ''sst-'') (ascii ''.tbl'') = Some i \<or> parse_file_id name (ascii ''vlog-'') (ascii ''.vlog'') = Some i \<longrightarrow> i < B)"

lemma succ_le_bound: "(i :: u64) < B \<Longrightarrow> i + 1 \<le> B \<and> i < i + 1"
  using word_less_succ [of i] by (metis inc_le word_order.extremum_strict)

lemma young_index_bound:
  "young_index crc head retired live next = Ok (ix, next') \<Longrightarrow> next \<le> B \<Longrightarrow> \<forall>i \<in> fst ` set live. i < B \<Longrightarrow> next' \<le> B"
proof (induction live arbitrary: "next" ix next')
  case (Cons p live)
  obtain i h where p: "p = (i, h)" by (cases p)
  have "i + 1 \<le> B" using succ_le_bound [of i B] Cons.prems(3) p by simp
  then show ?case using Cons p by (auto simp: rbind_Inr_conv split: if_splits)
qed simp

lemma scan_names_bound:
  assumes "\<forall>name \<in> set ls. \<forall>i. parse_file_id name (ascii ''wal-'') (ascii ''.log'') = Some i
      \<or> parse_file_id name (ascii ''sst-'') (ascii ''.tbl'') = Some i \<longrightarrow> i < B"
    and "next \<le> B" and "\<forall>i \<in> set ids. i < next" and "scan_names floor ls ids next = (ids', next')"
  shows "next' \<le> B \<and> next \<le> next' \<and> (\<forall>i \<in> set ids'. i < next')"
  using assms
proof (induction ls arbitrary: ids "next")
  case (Cons name ls)
  consider (wal) i where "parse_file_id name (ascii ''wal-'') (ascii ''.log'') = Some i"
    | (tbl) i where "parse_file_id name (ascii ''wal-'') (ascii ''.log'') = None" "parse_file_id name (ascii ''sst-'') (ascii ''.tbl'') = Some i"
    | (none) "parse_file_id name (ascii ''wal-'') (ascii ''.log'') = None" "parse_file_id name (ascii ''sst-'') (ascii ''.tbl'') = None"
    by (cases "parse_file_id name (ascii ''wal-'') (ascii ''.log'')"; cases "parse_file_id name (ascii ''sst-'') (ascii ''.tbl'')") auto
  then show ?case
  proof cases
    case wal
    then have i: "i + 1 \<le> B" "i < i + 1" using Cons.prems(1) succ_le_bound [of i B] by auto
    have "\<forall>j \<in> set (if floor \<le> i then ids @ [i] else ids). j < max next (i + 1)"
      using Cons.prems(3) i(2) by (auto simp: less_max_iff_disj)
    from Cons.IH [OF _ _ this] show ?thesis using Cons.prems i(1) wal by auto
  next
    case tbl
    then have i: "i + 1 \<le> B" using Cons.prems(1) succ_le_bound [of i B] by auto
    have "\<forall>j \<in> set ids. j < max next (i + 1)" using Cons.prems(3) by (auto simp: less_max_iff_disj)
    from Cons.IH [OF _ _ this] show ?thesis using Cons.prems i(1) tbl by auto
  next
    case none
    then show ?thesis using Cons by auto
  qed
qed simp

lemma find_store_ids:
  assumes f: "find_store ex sk emp opts gen m ls d = Ok f" and b: "ids_below B m ls" and k: "\<forall>i \<in> fst ` set (fo_live f). i < B"
  shows "fo_next f \<le> B \<and> (\<forall>i \<in> set (fo_wals f). i < fo_next f)"
proof -
  obtain live ix n1 where y: "young_index (ex_crc ex) (md_vlog_head m) (map fst (md_vlog_retired m)) live (max (md_next_file_id m) 1) = Ok (ix, n1)"
    "fo_next f = snd (scan_names (md_wal_floor m) ls [] n1)" "fo_wals f = sort (fst (scan_names (md_wal_floor m) ls [] n1))" "fo_live f = live"
    using f by (auto simp: find_store_def rbind_Inr_conv Let_def case_prod_beta)
  have "n1 \<le> B" using young_index_bound [OF y(1)] b k y(4) by (simp add: ids_below_def)
  moreover have "\<forall>name \<in> set ls. \<forall>i. parse_file_id name (ascii ''wal-'') (ascii ''.log'') = Some i
      \<or> parse_file_id name (ascii ''sst-'') (ascii ''.tbl'') = Some i \<longrightarrow> i < B"
    using b unfolding ids_below_def by blast
  ultimately show ?thesis using scan_names_bound [OF _ _ _ prod.collapse [symmetric], of ls B n1 "[]"] y(2,3) by auto
qed

text \<open>The value logs of the store, as a table.\<close>

definition vlog_table :: "manifest_data \<Rightarrow> dir_fs \<Rightarrow> vlog_files" where
  "vlog_table m d = map (\<lambda>i. (i, handle_of d i)) (sorted_list_of_set (vlog_ids m d))"

lemma map_of_vlog_table: "map_of (vlog_table m d) i = (if i \<in> vlog_ids m d then Some (handle_of d i) else None)"
  by (simp add: vlog_table_def map_of_map_restrict restrict_map_def)

lemma opened_vlog_table: "opened d (vlog_ids m d) live \<Longrightarrow> map_of live = map_of (vlog_table m d)"
  by (simp add: opened_def fun_eq_iff map_of_vlog_table)

lemma value_at_cong: "map_of vs = map_of vs' \<Longrightarrow> value_at crc P vs = value_at crc P vs'"
  by (simp add: value_at_def fun_eq_iff)

lemma cache_truth_cong: "map_of vs = map_of vs' \<Longrightarrow> cache_truth crc P vs = cache_truth crc P vs'"
  by (simp add: cache_truth_def)

lemma vlog_ids_bound:
  assumes l: "listed ls d" and b: "ids_below B m ls" and i: "i \<in> vlog_ids m d"
  shows "i < B" and "young_in m i \<or> i < md_next_file_id m"
proof -
  have "df_files d (vlog_name i) \<noteq> None" using i by (simp add: vlog_ids_def)
  then have "vlog_name i \<in> set ls" using l unfolding listed_def by blast
  moreover have "\<forall>name \<in> set ls. \<forall>i. parse_file_id name (ascii ''wal-'') (ascii ''.log'') = Some i
      \<or> parse_file_id name (ascii ''sst-'') (ascii ''.tbl'') = Some i \<or> parse_file_id name (ascii ''vlog-'') (ascii ''.vlog'') = Some i \<longrightarrow> i < B"
    using b unfolding ids_below_def by (elim conjE)
  ultimately show "i < B" using parse_file_names(3) [of i] by metis
  have "i < md_next_file_id m" if "i \<in> set (md_vlog_live m) \<union> fst ` set (md_vlog_retired m)" using that b unfolding ids_below_def by blast
  moreover have "young_in m i" if "i \<notin> fst ` set (md_vlog_retired m)" "md_vlog_head m \<le> i" using that by (simp add: young_def)
  moreover have "i \<in> set (md_vlog_live m) \<or> i \<in> fst ` set (md_vlog_retired m) \<or> md_vlog_head m \<le> i" using i unfolding vlog_ids_def by blast
  ultimately show "young_in m i \<or> i < md_next_file_id m" by blast
qed

section \<open>The replayed memtable\<close>

lemma length_put_entry: "length (put_entry ik v es) \<le> Suc (length es)"
proof (induction es)
  case (Cons e es)
  then show ?case using length_dropWhile_le [of "\<lambda>e. cmp_ikey (fst e) ik \<noteq> Greater" es] by (auto simp: put_entry_def after_key_def)
qed (simp add: put_entry_def after_key_def)

lemma insert_entries_wal: "mt_wal_id (insert_entries sk base es mem) = mt_wal_id mem"
  by (induction es arbitrary: base mem) (simp_all add: memtable_insert_def)

lemma insert_entries_length:
  "skip_ok sk ents \<Longrightarrow> length (ents (mt_map (insert_entries sk base es mem))) \<le> length (ents (mt_map mem)) + length es"
proof (induction es arbitrary: base mem)
  case (Cons e es)
  let ?mem = "memtable_insert sk (make_ikey (ee_key e) base (ee_kind e)) (ee_repr e) mem"
  have "length (ents (mt_map ?mem)) \<le> Suc (length (ents (mt_map mem)))"
    using Cons.prems length_put_entry by (simp add: skip_ok_def memtable_insert_def)
  then show ?case using Cons.IH [OF Cons.prems, of "base + 1" ?mem] by simp
qed simp

lemma replay_mem:
  "mt_wal_id (rp_mem (fold (replay_logged sk) bs s)) = mt_wal_id (rp_mem s)"
  by (induction bs arbitrary: s) (simp_all add: replay_logged_def replay_batch_def insert_entries_wal)

lemma replay_length:
  "skip_ok sk ents \<Longrightarrow> length (ents (mt_map (rp_mem (fold (replay_logged sk) bs s)))) \<le> length (ents (mt_map (rp_mem s))) + logged_len bs"
proof (induction bs arbitrary: s)
  case (Cons b bs)
  have "length (ents (mt_map (rp_mem (replay_logged sk b s)))) \<le> length (ents (mt_map (rp_mem s))) + length (logged_entries b)"
    using insert_entries_length [OF Cons.prems] by (simp add: replay_logged_def replay_batch_def)
  then show ?case using Cons.IH [OF Cons.prems, of "replay_logged sk b s"] by simp
qed simp

lemma follows_append: "follows q (as @ bs) \<Longrightarrow> follows q as"
  by (induction as arbitrary: q) simp_all

lemma logged_len_append: "logged_len (as @ bs) = logged_len as + logged_len bs"
  by (simp add: logged_len_def)

lemma logged_len_take: "logged_len (take k bs) \<le> logged_len bs"
  by (metis append_take_drop_id le_add1 logged_len_append)

text \<open>The prefix of the logged batches that opening takes.\<close>

definition taken :: "(u64 \<times> record_index) list \<Rightarrow> logged list list \<Rightarrow> nat \<Rightarrow> nat" where
  "taken ix bss k = length (takeWhile (batch_there ix) (on_disk_batches bss k))"

lemma taken_prefix: "takeWhile (batch_there ix) (on_disk_batches bss k) = take (taken ix bss k) (concat bss)"
proof -
  obtain rest where r: "concat bss = on_disk_batches bss k @ rest" using on_disk_prefix by blast
  have "takeWhile (batch_there ix) xs = take (length (takeWhile (batch_there ix) xs)) xs" for xs by (rule takeWhile_eq_take)
  moreover have "take (taken ix bss k) (concat bss) = take (taken ix bss k) (on_disk_batches bss k)"
    unfolding r taken_def using length_takeWhile_le [of "batch_there ix" "on_disk_batches bss k"] by simp
  ultimately show ?thesis unfolding taken_def by metis
qed

text \<open>
  The first \<open>i\<close> batches are durable: their records lie before the cut of the newest log, their values before
  the cuts of the value logs.
\<close>

definition durable :: "(bytes \<Rightarrow> u32) \<Rightarrow> (u64 \<Rightarrow> nat) \<Rightarrow> logged list list \<Rightarrow> nat \<Rightarrow> nat \<Rightarrow> bool" where
  "durable crc vcut bss n i \<longleftrightarrow> i \<le> length (concat bss) \<and> (\<forall>b \<in> set (take i (concat bss)). values_before vcut b)
     \<and> (bss \<noteq> [] \<longrightarrow> length (wal_frames crc (map payload (take (i - length (concat (butlast bss))) (last bss)))) \<le> n)"

lemma durable_taken:
  assumes im: "crash_image crc m ls d W vcut bss n" and ix: "indexed crc m d ix" and du: "durable crc vcut bss n i"
    and k: "bss \<noteq> [] \<longrightarrow> whole_upto crc (last bss) n k"
  shows "i \<le> taken ix bss k"
proof (cases "bss = []")
  case True
  then show ?thesis using du by (simp add: durable_def)
next
  case False
  let ?a = "concat (butlast bss)"
  have c: "concat bss = ?a @ last bss" using False by (metis append_butlast_last_id concat_append concat.simps append_Nil2)
  have wu: "k \<le> length (last bss)" "k < length (last bss) \<longrightarrow> n < length (wal_frames crc (map payload (take (Suc k) (last bss))))"
    using k False by (simp_all add: whole_upto_def)
  have ik: "i \<le> length ?a + k"
  proof (rule ccontr)
    assume "\<not> i \<le> length ?a + k"
    then have g: "Suc k \<le> i - length ?a" by simp
    have "i \<le> length (concat bss)" using du unfolding durable_def by (elim conjE)
    then have le: "i - length ?a \<le> length (last bss)" unfolding c length_append by linarith
    have "length (wal_frames crc (map payload (take (Suc k) (last bss)))) \<le> length (wal_frames crc (map payload (take (i - length ?a) (last bss))))"
    proof -
      have "take (i - length ?a) (last bss) = take (Suc k) (last bss) @ take (i - length ?a - Suc k) (drop (Suc k) (last bss))"
        using g by (metis le_add_diff_inverse take_add)
      then show ?thesis by simp
    qed
    then have "n < length (wal_frames crc (map payload (take (i - length ?a) (last bss))))" using wu g le by simp
    then show False using du False by (simp add: durable_def)
  qed
  have od: "on_disk_batches bss k = take (length ?a + k) (concat bss)" using False c by (simp add: on_disk_batches_def)
  then have pre: "take i (on_disk_batches bss k) = take i (concat bss)" using ik by (simp add: min_def)
  have "batch_there ix b" if "b \<in> set (take i (concat bss))" for b
  proof -
    have "logged_written crc m d W vcut b" using im in_set_takeD [OF that] unfolding crash_image_def by blast
    then show ?thesis using before_is_there [OF im ix] du that by (simp add: durable_def)
  qed
  then have "takeWhile (batch_there ix) (on_disk_batches bss k) = take i (concat bss) @ takeWhile (batch_there ix) (drop i (on_disk_batches bss k))"
    using takeWhile_append2 [of "take i (on_disk_batches bss k)" "batch_there ix" "drop i (on_disk_batches bss k)"] unfolding pre [symmetric]
    by (simp only: append_take_drop_id)
  moreover have "length (take i (concat bss)) = i" using du by (simp add: durable_def)
  ultimately show ?thesis by (simp add: taken_def)
qed

section \<open>The image of a store\<close>

text \<open>
  What a crash leaves of a store: the logs and value logs of a crash image, tables that open and
  hold in their layers the map \<open>mp\<close> up to the flushed seqno, logged batches that follow it.
\<close>

definition table_layers :: "codecs \<Rightarrow> run list list \<Rightarrow> entry list list" where
  "table_layers ex levels = map (run_entries ex) (concat levels)"

definition tables_ok :: "codecs \<Rightarrow> (cache_key \<Rightarrow> bytes \<Rightarrow> bool) \<Rightarrow> seqno \<Rightarrow> run list list \<Rightarrow> bool" where
  "tables_ok ex P q levels \<longleftrightarrow> list_all (run_sound ex P) (concat levels) \<and> layered (table_layers ex levels)
     \<and> list_all entries_kinds (table_layers ex levels) \<and> below (q + 1) (table_layers ex levels)"

definition store_image ::
    "codecs \<Rightarrow> (cache_key \<Rightarrow> bytes \<Rightarrow> bool) \<Rightarrow> manifest_data \<Rightarrow> bytes list \<Rightarrow> dir_fs \<Rightarrow> vlog_history \<Rightarrow> (u64 \<Rightarrow> nat) \<Rightarrow>
     logged list list \<Rightarrow> nat \<Rightarrow> run list list \<Rightarrow> u64 \<Rightarrow> bool" where
  "store_image ex P m ls d W vcut bss n levels B \<longleftrightarrow> crash_image (ex_crc ex) m ls d W vcut bss n
     \<and> ids_below B m ls \<and> unat B + 4 + logged_len (concat bss) < 2 ^ 64
     \<and> cache_truth (ex_crc ex) P (vlog_table m d)
     \<and> open_levels ex d (md_levels m) = Ok levels \<and> tables_ok ex P (md_last_flushed_seqno m) levels
     \<and> follows (md_last_flushed_seqno m + 1) (concat bss)
     \<and> unat (md_last_flushed_seqno m) + 1 + logged_len (concat bss) \<le> unat max_seqno"

lemma replayed:
  fixes sk :: "'m skip_ops" and k :: nat and w :: u64
  assumes sk: "skip_ok sk ents" and emp: "ents emp = []" and si: "store_image ex P m ls d W vcut bss n levels B"
    and op: "opened d (vlog_ids m d) live" and ix: "indexed (ex_crc ex) m d ix"
  defines "bs \<equiv> take (taken ix bss k) (concat bss)"
  defines "s' \<equiv> fold (replay_logged sk) bs \<lparr>rp_mem = memtable_new emp w, rp_max = md_last_flushed_seqno m\<rparr>"
  defines "ess \<equiv> ents (mt_map (rp_mem s')) # table_layers ex levels"
  shows "layered ess" "below (rp_max s' + 1) ess" "list_all entries_kinds ess"
    and "unat (rp_max s') = unat (md_last_flushed_seqno m) + logged_len bs" "rp_max s' < max_seqno"
    and "\<And>t mp. layers_hold (value_at (ex_crc ex) P live) (table_layers ex levels) t mp \<Longrightarrow> t \<le> md_last_flushed_seqno m \<Longrightarrow>
      layers_hold (value_at (ex_crc ex) P live) ess t mp"
    and "\<And>mp. layers_hold (value_at (ex_crc ex) P live) (table_layers ex levels) (md_last_flushed_seqno m) mp \<Longrightarrow>
      layers_hold (value_at (ex_crc ex) P live) ess (rp_max s') (fold op_on (all_ops bs) mp)"
proof -
  let ?F = "md_last_flushed_seqno m" and ?V = "value_at (ex_crc ex) P live" and ?T = "table_layers ex levels"
  let ?s = "\<lparr>rp_mem = memtable_new emp w, rp_max = ?F\<rparr>"
  have im: "crash_image (ex_crc ex) m ls d W vcut bss n" and t: "cache_truth (ex_crc ex) P live" and to: "tables_ok ex P ?F levels"
    and fl: "follows (?F + 1) (concat bss)" and len: "unat ?F + 1 + logged_len (concat bss) \<le> unat max_seqno"
    using si cache_truth_cong [OF opened_vlog_table [OF op]] by (simp_all add: store_image_def)
  have cb: "concat bss = bs @ drop (taken ix bss k) (concat bss)" by (simp add: bs_def)
  have f: "follows (?F + 1) bs" using fl cb by (metis follows_append)
  have lb: "logged_len bs \<le> logged_len (concat bss)" by (subst cb) (simp add: logged_len_append)
  have oe: "list_all (\<lambda>b. list_all2 (op_entry ?V) (logged_ops b) (logged_entries b)) bs"
    unfolding list_all_iff
  proof
    fix b assume b: "b \<in> set bs"
    then have "b \<in> set (concat bss)" using in_set_takeD unfolding bs_def by fast
    then have lw: "logged_written (ex_crc ex) m d W vcut b" using im unfolding crash_image_def by blast
    have "batch_there ix b" using b set_takeWhileD [of b "batch_there ix" "on_disk_batches bss k"] unfolding bs_def taken_prefix [symmetric] by blast
    then show "list_all2 (op_entry ?V) (logged_ops b) (logged_entries b)" by (rule there_op_entry [OF im op t ix lw])
  qed
  have F: "?F < max_seqno" "unat (?F + 1) = unat ?F + 1" using len unat_seq_succ [of ?F] by (auto simp: word_less_nat_alt)
  have e0: "ents (mt_map (rp_mem ?s)) = []" using emp by (simp add: memtable_new_def)
  have l0: "layered ([] # ?T)" "below (?F + 1) ([] # ?T)" "list_all entries_kinds ([] # ?T)"
    using to by (simp_all add: tables_ok_def layered_Cons newer_layer_def below_def entries_kinds_def)
  have cap: "unat (?F + 1) + logged_len bs \<le> unat max_seqno" using F(2) lb len by simp
  have "unat (?F + 1) = unat (rp_max ?s) + 1" using F(2) by simp
  note rh = replay_holds [OF sk f oe, of ?s ?T, unfolded e0, OF l0 this cap, folded s'_def]
  show u: "unat (rp_max s') = unat ?F + logged_len bs" using rh by simp
  show m: "rp_max s' < max_seqno" using u lb len by (simp add: word_less_nat_alt)
  have e: "rp_max s' + 1 = ?F + 1 + of_nat (logged_len bs)"
    using u cap F(2) unat_seq_succ [OF m] unat_seq_add [OF cap] by (simp add: word_unat_eq_iff)
  show "layered ess" "list_all entries_kinds ess" using rh by (simp_all add: ess_def)
  show "below (rp_max s' + 1) ess" unfolding e ess_def using rh by blast
  have hit0: "layers_hold ?V ([] # ?T) t mp = layers_hold ?V ?T t mp" for t mp by (simp add: layers_hold_def)
  show "layers_hold ?V ess t mp" if "layers_hold ?V ?T t mp" "t \<le> ?F" for t mp
    using rh that hit0 less_seq_succ [OF F(1)] unfolding ess_def by blast
  show "layers_hold ?V ess (rp_max s') (fold op_on (all_ops bs) mp)" if "layers_hold ?V ?T ?F mp" for mp
  proof -
    have "first_hit ?T k' ?F = first_hit ?T k' (rp_max s')" for k'
      by (rule first_hit_below [of "?F + 1"]) (use to u F m in \<open>simp_all add: tables_ok_def word_le_nat_alt unat_seq_succ\<close>)
    then have "layers_hold ?V ?T (rp_max s') mp" using that by (simp add: layers_hold_def)
    then show ?thesis using rh hit0 e m unfolding ess_def by (metis order_refl)
  qed
qed

section \<open>The assembled store\<close>

text \<open>The store holds what opening promises: the newest state of the taken batches, and the old ones of the tables.\<close>

definition recovered ::
    "codecs \<Rightarrow> ('m \<Rightarrow> entry list) \<Rightarrow> (cache_key \<Rightarrow> bytes \<Rightarrow> bool) \<Rightarrow> manifest_data \<Rightarrow> dir_fs \<Rightarrow> run list list \<Rightarrow> logged list \<Rightarrow> 'm db \<Rightarrow> bool" where
  "recovered ex ents P m d levels bs db \<longleftrightarrow>
     unat (db_visible db) = unat (md_last_flushed_seqno m) + logged_len bs
     \<and> (\<forall>t mp. layers_hold (value_at (ex_crc ex) P (vlog_table m d)) (table_layers ex levels) t mp \<and> t \<le> md_last_flushed_seqno m \<longrightarrow>
          db_holds ex ents P db t mp)
     \<and> (\<forall>mp. layers_hold (value_at (ex_crc ex) P (vlog_table m d)) (table_layers ex levels) (md_last_flushed_seqno m) mp \<longrightarrow>
          db_holds ex ents P db (db_visible db) (fold op_on (all_ops bs) mp))"

lemma layers_hold_skip: "layers_hold V (es # [] # ess) t m = layers_hold V (es # ess) t m" "layers_hold V ([] # ess) t m = layers_hold V ess t m"
  by (simp_all add: layers_hold_def split: option.split)

lemma next_created_fresh:
  "\<forall>x \<in> set xs. \<exists>f. x = Ok f \<and> fresh_file f \<Longrightarrow> \<exists>f ys. next_created xs = (Ok f, ys) \<and> fresh_file f \<and> set ys \<subseteq> set xs"
  by (cases xs) (auto simp: next_created_def fresh_file_def std_file_new_def file_clean_def)

lemma fresh_file_facts: "fresh_file f \<Longrightarrow> file_wf f \<and> file_committed f = []"
  by (simp add: fresh_file_def file_clean_def file_wf_def file_committed_def)

lemma open_tables_ids: "open_tables ex d tids = Ok ts \<Longrightarrow> map th_id ts = tids"
  by (induction tids arbitrary: ts) (auto simp: rbind_Inr_conv table_handle_new_def)

lemma open_levels_meta: "open_levels ex d lss = Ok levels \<Longrightarrow> map (map run_meta_of) levels = lss"
proof (induction lss arbitrary: levels)
  case (Cons l lss)
  have "map run_meta_of rs = l" if "open_runs ex d l = Ok rs" for rs
    using that
  proof (induction l arbitrary: rs)
    case (Cons rm l)
    then show ?case by (auto simp: rbind_Inr_conv run_meta_of_def dest: open_tables_ids)
  qed simp
  then show ?case using Cons by (auto simp: rbind_Inr_conv)
qed simp

text \<open>What was found, as \<open>find_store_spec\<close> tells it.\<close>

definition found_as ::
    "codecs \<Rightarrow> 'm skip_ops \<Rightarrow> 'm \<Rightarrow> options \<Rightarrow> u64 \<Rightarrow> manifest_data \<Rightarrow> dir_fs \<Rightarrow> logged list list \<Rightarrow> run list list \<Rightarrow> u64 \<Rightarrow> logged list \<Rightarrow> 'm found \<Rightarrow> bool" where
  "found_as ex sk emp opts gen m d bss levels B bs f \<longleftrightarrow> fo_gen f = gen \<and> fo_data f = m
    \<and> fo_levels f = levels @ replicate (op_max_levels opts - length levels) [] \<and> opened d (vlog_ids m d) (fo_live f)
    \<and> fo_replay f = fold (replay_logged sk) bs \<lparr>rp_mem = memtable_new emp (if bss = [] then 0 else last (wal_ids_of m d)), rp_max = md_last_flushed_seqno m\<rparr>
    \<and> (\<forall>i \<in> vlog_ids m d. i < fo_next f) \<and> fo_next f \<le> B \<and> md_wal_floor m \<le> fo_next f
    \<and> (bs \<noteq> [] \<longrightarrow> last (wal_ids_of m d) < fo_next f \<and> md_wal_floor m \<le> last (wal_ids_of m d))"

lemma fresh_vlog_extends:
  assumes "tm_keys_ok live" and "\<forall>i \<in> fst ` set live. i < n" and "map_of live = map_of vs"
  shows "vlogs_extend vs (vlogs_share (vlog_handle_new n g) (tm_put n (vlog_handle_new n g) live))"
  unfolding vlogs_extend_def
proof (intro allI impI)
  fix i h assume "map_of vs i = Some h"
  then have i: "map_of live i = Some h" by (simp add: assms(3))
  have "i \<in> fst ` set live" using map_of_SomeD [OF i] by (rule rev_image_eqI) simp
  then have "i < n" using assms(2) by blast
  then have ne: "i \<noteq> n" by blast
  have "vh_id (vlog_handle_new n g) = n" by (simp add: vlog_handle_new_def)
  then have "map_of (vlogs_share (vlog_handle_new n g) (tm_put n (vlog_handle_new n g) live)) i = Some h"
    unfolding map_of_share map_of_tm_put [OF assms(1)] using i ne by simp
  then show "\<exists>h' post. map_of (vlogs_share (vlog_handle_new n g) (tm_put n (vlog_handle_new n g) live)) i = Some h' \<and> vh_id h' = vh_id h
     \<and> (file_wf (vh_file h) \<longrightarrow> file_wf (vh_file h')) \<and> file_committed (vh_file h') = file_committed (vh_file h) @ post"
    by (intro exI [of _ h] exI [of _ "[]"]) simp
qed

lemma assembled:
  fixes sk :: "'m skip_ops" and k :: nat
  assumes sk: "skip_ok sk ents" and emp: "ents emp = []" and si: "store_image ex P m ls d W vcut bss n levels B"
    and ix: "indexed (ex_crc ex) m d ix" and fo: "found_as ex sk emp opts gen m d bss levels B (take (taken ix bss k) (concat bss)) f"
    and as: "assemble opts sk emp f created d2 = (Ok (db, h, w), d3)"
    and cr: "\<forall>x \<in> set created. \<exists>f. x = Ok f \<and> fresh_file f"
    and lv: "op_max_levels opts \<le> length (md_levels m)" "md_levels m \<noteq> []"
  shows "db_ok ex sk ents P db \<and> recovered ex ents P m d levels (take (taken ix bss k) (concat bss)) db \<and> mirrors db \<and> wal_ids_ok db
    \<and> creates_fresh db \<and> unat (db_next_file_id db) \<le> unat B + 2 \<and> db_opts db = opts
    \<and> (db_imms db = [] \<or> db_imms db = [rp_mem (fo_replay f)]) \<and> db_dir db = d3 \<and> md_pins (ms_data (db_manifest db)) = md_pins m
    \<and> vs_levels (db_version db) = levels \<and> sf_faults (vh_file (vl_handle (db_vlog db))) = []"
proof -
  let ?bs = "take (taken ix bss k) (concat bss)" and ?n = "fo_next f" and ?mem = "rp_mem (fo_replay f)"
  have f: "fo_data f = m" "fo_gen f = gen" "opened d (vlog_ids m d) (fo_live f)" "?n \<le> B" "md_wal_floor m \<le> ?n" "\<forall>i \<in> vlog_ids m d. i < ?n"
    "fo_replay f = fold (replay_logged sk) ?bs \<lparr>rp_mem = memtable_new emp (if bss = [] then 0 else last (wal_ids_of m d)), rp_max = md_last_flushed_seqno m\<rparr>"
    "?bs \<noteq> [] \<Longrightarrow> last (wal_ids_of m d) < ?n \<and> md_wal_floor m \<le> last (wal_ids_of m d)"
    using fo unfolding found_as_def by blast+
  have olv: "open_levels ex d (md_levels m) = Ok levels" and to: "tables_ok ex P (md_last_flushed_seqno m) levels"
    and B: "unat B + 4 + logged_len (concat bss) < 2 ^ 64" using si by (simp_all add: store_image_def)
  note meta = open_levels_meta [OF olv]
  have len: "length levels = length (md_levels m)" using arg_cong [OF meta, of length] by simp
  then have fl: "fo_levels f = levels" using fo lv(1) by (simp add: found_as_def)
  note rp = replayed [OF sk emp si f(3) ix, where k = k and w = "if bss = [] then 0 else last (wal_ids_of m d)", folded f(7)]
  obtain hf c1 where hf: "next_created created = (Ok hf, c1)" "fresh_file hf" "set c1 \<subseteq> set created" using next_created_fresh [OF cr] by blast
  obtain wf c2 where wf: "next_created c1 = (Ok wf, c2)" "fresh_file wf" "set c2 \<subseteq> set c1" using next_created_fresh [of c1] cr hf(3) by blast
  let ?h = "vlog_handle_new ?n hf" and ?imms = "if memtable_is_empty sk ?mem then [] else [?mem]"
  have db: "db = \<lparr>db_opts = opts, db_mem = memtable_new emp (?n + 1), db_imms = ?imms,
      db_version = \<lparr>vs_levels = levels, vs_vlogs = tm_put ?n ?h (fo_live f), vs_vlog_head_id = ?n\<rparr>,
      db_wal = wf, db_old_wals = disk_wals (fo_wals f) d3, db_visible = rp_max (fo_replay f), db_next_file_id = ?n + 1 + 1, db_vlog = vlog_new ?h 0,
      db_subs = \<lparr>sr_subs = [], sr_active = False\<rparr>, db_defs = [], db_snapshots = [], db_manifest = \<lparr>ms_gen = gen, ms_data = m\<rparr>, db_dir = d3,
      db_retired = fo_retired f, db_cache = cache_new (op_block_cache_size opts), db_bg_error = None, db_shutdown = False, db_wal_syncs = 0, db_created = c2\<rparr>"
    using as hf(1) wf(1) fl f(1,2) by (auto simp: assemble_def Let_def split: prod.splits sum.splits)
  have e: "ents (mt_map (memtable_new emp i)) = []" for i using emp by (simp add: memtable_new_def)
  have em: "memtable_is_empty sk ?mem \<longleftrightarrow> ents (mt_map ?mem) = []" using sk by (simp add: skip_ok_def memtable_is_empty_def)
  have un: "unat (?n + 2) = unat ?n + 2" "unat (?n + 1) = unat ?n + 1"
    using B f(4) by (simp_all add: word_le_nat_alt unat_word_ariths)
  have lay: "db_layers ex ents db = [] # (if ents (mt_map ?mem) = [] then [] else [ents (mt_map ?mem)]) @ table_layers ex levels"
    by (simp add: db_layers_eq db e em version_layers_def runs_newest_first_def table_layers_def)
  have hit: "layers_hold V (db_layers ex ents db) t mp = layers_hold V (ents (mt_map ?mem) # table_layers ex levels) t mp" for V t mp
    unfolding lay by (auto simp: layers_hold_skip)
  have vs: "vs_vlogs (db_version db) = tm_put ?n ?h (fo_live f)" "vlogs_now db = vlogs_share ?h (tm_put ?n ?h (fo_live f))"
    by (simp_all add: db db_version_now_def vlog_new_def)
  have lk: "tm_keys_ok (fo_live f)" "\<forall>i \<in> fst ` set (fo_live f). i < ?n" using f(3,6) opened_keys [OF f(3)] by (simp_all add: opened_def)
  have ext: "vlogs_extend (vlog_table m d) (vlogs_now db)" unfolding vs by (rule fresh_vlog_extends [OF lk opened_vlog_table [OF f(3)]])
  have "value_at (ex_crc ex) P (fo_live f) = value_at (ex_crc ex) P (vlog_table m d)" by (rule value_at_cong [OF opened_vlog_table [OF f(3)]])
  note rp = rp [unfolded this]
  have up: "layers_hold (value_at (ex_crc ex) P (vlogs_now db)) ess t mp" if "layers_hold (value_at (ex_crc ex) P (vlog_table m d)) ess t mp" for ess t mp
    by (rule layers_hold_mono [OF value_at_extend [OF ext] that])
  have fld: "db_visible db = rp_max (fo_replay f)" "db_mem db = memtable_new emp (?n + 1)" "db_imms db = ?imms"
    "vs_levels (db_version db) = levels" "db_wal db = wf" "db_next_file_id db = ?n + 2" "db_vlog db = vlog_new ?h 0"
    "ms_data (db_manifest db) = m" "db_cache db = cache_new (op_block_cache_size opts)" "db_bg_error db = None" "db_created db = c2" "db_opts db = opts"
    by (simp_all add: db)
  have rec: "recovered ex ents P m d levels ?bs db"
    unfolding recovered_def db_holds_def hit fld(1) using rp(4,6,7) up by blast
  have c2: "set c2 \<subseteq> set created" using wf(3) hf(3) by blast
  have ok: "db_ok ex sk ents P db"
    unfolding db_ok_def
  proof (intro conjI)
    have "layered (db_layers ex ents db)" "list_all entries_kinds (db_layers ex ents db)"
      using rp(1,3) to unfolding lay by (auto simp: layered_Cons newer_layer_def tables_ok_def entries_kinds_def)
    then show "view_sound ex sk ents P (read_view_of db)"
      using sk to by (simp add: view_sound_now version_sound_def runs_newest_first_def fld tables_ok_def)
    show "below (db_visible db + 1) (db_layers ex ents db)" using rp(2) unfolding lay fld(1) by (auto simp: below_def)
    show "db_visible db < max_seqno" using rp(5) by (simp add: fld)
    show "files_ok db" using fresh_file_facts [OF wf(2)] fresh_file_facts [OF hf(2)] by (simp add: files_ok_def fld vlog_new_def vlog_handle_new_def)
    show "cache_holds P (db_cache db)" by (simp add: fld empty_cache_holds)
    show "\<forall>f. Ok f \<in> set (db_created db) \<longrightarrow> file_wf f"
      using cr c2 fresh_file_facts unfolding fld by (metis in_mono sum.inject(2))
    show "db_bg_error db = None \<longrightarrow> map_of (vs_vlogs (db_version db)) (head_id db) \<noteq> None"
      using lk(1) by (simp add: vs fld vlog_new_def vlog_handle_new_def)
    have "?n < ?n + 2" using un by (simp add: word_less_nat_alt)
    moreover have "vh_id g = i \<and> i < ?n" if "map_of (fo_live f) i = Some g" for i g
      using that f(3,6) by (auto simp: opened_def handle_of_def vlog_handle_new_def split: if_splits)
    ultimately show "\<forall>i h. map_of (vs_vlogs (db_version db)) i = Some h \<longrightarrow> vh_id h = i \<and> i < db_next_file_id db"
      unfolding vs fld using lk(1) by (auto simp: vlog_handle_new_def split: if_splits dest: less_trans)
  qed
  have wid: "mt_wal_id ?mem < ?n + 1 \<and> md_wal_floor m \<le> mt_wal_id ?mem" if "ents (mt_map ?mem) \<noteq> []"
  proof -
    have "?bs \<noteq> []"
    proof
      assume b: "?bs = []"
      show False using that unfolding f(7) b by (simp add: e)
    qed
    then have "bss \<noteq> []" and l: "last (wal_ids_of m d) < ?n" "md_wal_floor m \<le> last (wal_ids_of m d)" using f(8) by auto
    then have "mt_wal_id ?mem = last (wal_ids_of m d)" unfolding f(7) replay_mem by (simp add: memtable_new_def)
    then show ?thesis using l un(2) by (simp add: word_less_nat_alt word_le_nat_alt)
  qed
  have "md_wal_floor m \<le> ?n + 1" using f(5) un(2) by (simp add: word_le_nat_alt)
  then have "wal_ids_ok db" using wid unfolding wal_ids_ok_def fld em by (auto simp: memtable_new_def)
  moreover have "mirrors db" using lv(2) meta len by (auto simp: mirrors_def fld)
  moreover have "creates_fresh db" using cr c2 unfolding creates_fresh_def fld by blast
  moreover have "unat (db_next_file_id db) \<le> unat B + 2" using un f(4) by (simp add: fld word_le_nat_alt)
  moreover have "db_dir db = d3" "sf_faults (vh_file (vl_handle (db_vlog db))) = []"
    using hf(2) by (simp_all add: db vlog_new_def vlog_handle_new_def fresh_file_def file_clean_def)
  ultimately show ?thesis using rec ok by (simp add: fld)
qed

section \<open>The rest of the open\<close>

text \<open>Steps that change nothing of what a reader uses.\<close>

definition same_reads :: "'m db \<Rightarrow> 'm db \<Rightarrow> bool" where
  "same_reads db db' \<longleftrightarrow> db_version db' = db_version db \<and> db_visible db' = db_visible db \<and> db_cache db' = db_cache db
     \<and> db_bg_error db' = db_bg_error db \<and> db_wal db' = db_wal db \<and> db_vlog db' = db_vlog db \<and> db_created db' = db_created db
     \<and> db_mem db' = db_mem db \<and> db_imms db' = db_imms db \<and> db_next_file_id db' = db_next_file_id db"

lemma same_reads_ok:
  assumes "same_reads db db'" and ok: "db_ok ex sk ents P db"
  shows "db_ok ex sk ents P db'" and "stays ex ents P db db'"
proof -
  have f: "db_version db' = db_version db" "db_visible db' = db_visible db" "db_cache db' = db_cache db" "db_bg_error db' = db_bg_error db"
    "db_wal db' = db_wal db" "db_vlog db' = db_vlog db" "db_created db' = db_created db" "db_mem db' = db_mem db" "db_imms db' = db_imms db"
    "db_next_file_id db' = db_next_file_id db" using assms(1) by (simp_all add: same_reads_def)
  have v: "read_view_of db' = read_view_of db" "db_layers ex ents db' = db_layers ex ents db" "vlogs_now db' = vlogs_now db"
    by (simp_all add: read_view_of_def db_version_now_def db_layers_def f)
  show "db_ok ex sk ents P db'" using ok by (simp add: db_ok_def v f files_ok_def)
  show "stays ex ents P db db'" by (simp add: stays_def db_holds_def v f)
qed

lemma load_defs_returns:
  assumes ho: "order_ok ho"
  shows "di_inv ex sk ents P it vals \<Longrightarrow> \<exists>r. load_defs ex sk ho it defs = Some r
    \<and> (\<forall>ds. r = Ok ds \<longrightarrow> (\<exists>ds'. ds = defs @ ds' \<and> map (\<lambda>(k, v). decode_def v) (di_ready it @ vals) = map Ok ds'))
    \<and> (\<forall>e. r = Err e \<longrightarrow> (\<exists>(k, v) \<in> set (di_ready it @ vals). decode_def v = Err e))"
proof (induction "di_ready it @ vals" arbitrary: it vals defs)
  case Nil
  then obtain it' where "db_iterator_next ex sk ho it = Some (None, it')" using db_iterator_next_delivers [OF Nil.prems ho] by auto
  then show ?case using Nil.hyps [symmetric] by (subst load_defs.simps) simp
next
  case (Cons p ps)
  obtain k v where p: "p = (k, v)" by (cases p)
  obtain it' vals' where n: "db_iterator_next ex sk ho it = Some (Some (Ok (k, v)), it')" "di_inv ex sk ents P it' vals'" "ps = di_ready it' @ vals'"
    using db_iterator_next_delivers [OF Cons.prems ho] Cons.hyps(2) [symmetric] p by auto
  show ?case
  proof (cases "decode_def v")
    case (Inl e)
    have "(k, v) \<in> set (di_ready it @ vals)" using Cons.hyps(2) p by (metis list.set_intros(1))
    then show ?thesis using n(1) Inl by (subst load_defs.simps) (auto intro: bexI [of _ "(k, v)"])
  next
    case (Inr def)
    obtain r where r: "load_defs ex sk ho it' (defs @ [def]) = Some r"
      "\<forall>ds. r = Ok ds \<longrightarrow> (\<exists>ds'. ds = (defs @ [def]) @ ds' \<and> map (\<lambda>(k, v). decode_def v) (di_ready it' @ vals') = map Ok ds')"
      "\<forall>e. r = Err e \<longrightarrow> (\<exists>(k, v) \<in> set (di_ready it' @ vals'). decode_def v = Err e)"
      using Cons.hyps(1) [OF n(3,2)] by blast
    have "load_defs ex sk ho it defs = Some r" using n(1) Inr r(1) by (subst load_defs.simps) simp
    moreover have "di_ready it @ vals = (k, v) # di_ready it' @ vals'" using Cons.hyps(2) p n(3) by simp
    ultimately show ?thesis using r(2,3) Inr by (intro exI [of _ r] conjI allI impI) (auto intro: exI [of _ "def # _"])
  qed
qed

text \<open>The registry is what the newest state maps the definition keys to.\<close>

definition registry_of :: "key_map \<Rightarrow> trigger_def list \<Rightarrow> bool" where
  "registry_of m defs \<longleftrightarrow> (\<exists>rows. tm_keys_ok rows \<and> map_of rows = (\<lambda>k. if in_range def_prefix (Some def_space_end) k then m k else None)
     \<and> map (\<lambda>(k, v). decode_def v) rows = map Ok defs)"

definition defs_decode :: "key_map \<Rightarrow> bool" where
  "defs_decode m \<longleftrightarrow> (\<forall>k v. in_range def_prefix (Some def_space_end) k \<and> m k = Some v \<longrightarrow> (\<exists>def. decode_def v = Ok def))"

lemma load_registry_spec:
  assumes ok: "db_ok ex sk ents P db" and ho: "order_ok ho" and m: "db_holds ex ents P db (db_visible db) m"
  shows "\<exists>r db'. load_registry ex sk ho db = Some (r, db') \<and> same_reads db db' \<and> (r = Ok () \<longrightarrow> registry_of m (db_defs db'))
    \<and> (defs_decode m \<longrightarrow> r = Ok ())"
proof -
  have v: "view_sound ex sk ents P (read_view_of db)" and c: "cache_holds P (db_cache db)" using ok by (simp_all add: db_ok_def)
  obtain vals where vals: "list_all2 (repr_stands (ex_crc ex) P (rv_version (read_view_of db)))
      (range_scan (view_entries ex ents (read_view_of db)) (db_visible db) def_prefix (Some def_space_end)) vals"
    "tm_keys_ok vals" "map_of vals = (\<lambda>k. if in_range def_prefix (Some def_space_end) k then m k else None)"
    using db_scan_values [OF ok m order_refl] by blast
  obtain it where it: "iter_raw ex sk None def_prefix (Some def_space_end) False db = Ok it" "di_inv ex sk ents P it vals" "di_ready it = []"
    using db_iterator_starts [OF v c vals(1), of False] by (auto simp: iter_raw_def Let_def read_view_of_def)
  obtain r where r: "load_defs ex sk ho it [] = Some r"
    "\<forall>ds. r = Ok ds \<longrightarrow> map (\<lambda>(k, v). decode_def v) vals = map Ok ds"
    "\<forall>e. r = Err e \<longrightarrow> (\<exists>(k, v) \<in> set vals. decode_def v = Err e)"
    using load_defs_returns [OF ho it(2), of "[]"] it(3) by auto
  show ?thesis
  proof (cases r)
    case (Inl e)
    then obtain k v where kv: "(k, v) \<in> set vals" "decode_def v = Err e" using r(3) by blast
    have "map_of vals k = Some v" using kv(1) vals(2) by (simp add: tm_mem_map_of)
    then have "in_range def_prefix (Some def_space_end) k \<and> m k = Some v" using vals(3) by (simp split: if_splits)
    then have "\<not> defs_decode m" using kv(2) unfolding defs_decode_def by fastforce
    then show ?thesis using it(1) r(1) Inl by (simp add: load_registry_def same_reads_def)
  next
    case (Inr ds)
    then have "registry_of m ds" using r(2) vals(2,3) unfolding registry_of_def by blast
    then show ?thesis using it(1) r(1) Inr by (simp add: load_registry_def same_reads_def)
  qed
qed

lemma complete_open_spec:
  assumes c: "complete_open crc h w db = (r, db')" and ok: "db_ok ex sk ents P db"
  shows "db_ok ex sk ents P db' \<and> stays ex ents P db db' \<and> db_imms db' = db_imms db \<and> mt_wal_id (db_mem db') = mt_wal_id (db_mem db)
    \<and> (r = Ok () \<longrightarrow> md_wal_floor (ms_data (db_manifest db')) = w) \<and> (df_faults (db_dir db) = [] \<longrightarrow> r = Ok ())"
proof -
  obtain x d where x: "commit_manifest crc (complete_data h w db) db = (x, d)" by (cases "commit_manifest crc (complete_data h w db) db")
  note cm = commit_manifest_spec [OF x] and calm = commit_manifest_calm [OF _ x]
  have q: "quiet db d" and n: "db_next_file_id db \<le> db_next_file_id d" using cm by simp_all
  note qo = quiet_ok [OF q ok n]
  have im: "db_imms d = db_imms db" "db_mem d = db_mem db" by (rule quiet_fields [OF q])+
  show ?thesis
  proof (cases x)
    case (Inl e)
    then show ?thesis using c x qo im calm by (auto simp: complete_open_def)
  next
    case (Inr u)
    then have e: "r = Ok ()" "db' = (delete_old_wals w d)\<lparr>db_dir := startup_gc (ms_data (db_manifest d)) (db_dir d)\<rparr>"
      using c x by (simp_all add: complete_open_def Let_def delete_old_wals_def)
    have s: "same_reads d db'" by (simp add: same_reads_def e(2) delete_old_wals_def)
    have "stays ex ents P db db'" by (rule stays_trans [OF qo(2) same_reads_ok(2) [OF s qo(1)]])
    moreover have "md_wal_floor (ms_data (db_manifest db')) = w" using cm Inr by (simp add: e(2) delete_old_wals_def complete_data_def Let_def)
    ultimately show ?thesis using same_reads_ok(1) [OF s qo(1)] im s e(1) by (simp add: same_reads_def)
  qed
qed

text \<open>What the store looks like after the flush of what was replayed.\<close>

lemma open_flush_spec:
  assumes ok: "db_ok ex sk ents P db" and m: "mirrors db" and w: "wal_ids_ok db" and c: "creates_fresh db"
    and wr: "db_imms db \<noteq> [] \<Longrightarrow> writes_ok ex (db_opts db) (ents (mt_map (last (db_imms db))))"
    and n: "unat (db_next_file_id db) + flush_ids ents db < 2 ^ 64"
    and P: "\<forall>x db'. flush_one ex sk db = Some (x, db') \<longrightarrow> runs_on ex P db'" and one: "length (db_imms db) \<le> 1"
  shows "\<exists>x db'. (if db_imms db = [] then Some (Ok False, db) else flush_one ex sk db) = Some (x, db')
    \<and> db_ok ex sk ents P db' \<and> stays ex ents P db db' \<and> ((\<exists>b. x = Ok b) \<longrightarrow> db_imms db' = [])
    \<and> (df_faults (db_dir db) = [] \<and> sf_faults (vh_file (vl_handle (db_vlog db))) = [] \<longrightarrow> (\<exists>b. x = Ok b) \<and> df_faults (db_dir db') = [])"
proof (cases "db_imms db = []")
  case True
  then show ?thesis using ok by (auto simp: stays_refl)
next
  case False
  then have b: "butlast (db_imms db) = []" using one by (cases "db_imms db") auto
  have sk: "skip_ok sk ents" using ok unfolding db_ok_def view_sound_now by blast
  obtain x db' where f: "flush_one ex sk db = Some (x, db')"
    and k: "runs_on ex P db' \<and> db_next_file_id db \<le> db_next_file_id db' \<longrightarrow> db_ok ex sk ents P db' \<and> stays ex ents P db db'
      \<and> (x = Ok (db_imms db \<noteq> []) \<and> db_imms db' = butlast (db_imms db)
       \<or> (\<exists>e. x = Err e) \<and> db_imms db' = db_imms db \<and> db_version db' = db_version db)"
    using flush_one_spec [OF ok m w c wr] by blast
  have "db_ok ex sk ents P db' \<and> stays ex ents P db db'
      \<and> (x = Ok (db_imms db \<noteq> []) \<and> db_imms db' = butlast (db_imms db)
       \<or> (\<exists>e. x = Err e) \<and> db_imms db' = db_imms db \<and> db_version db' = db_version db)"
    using k P f flush_one_ids [OF sk f n] by blast
  then show ?thesis using f False b flush_one_calm [OF sk c wr _ _ f] by (intro exI [of _ x] exI [of _ db']) auto
qed

lemma finish_open_spec:
  assumes ok: "db_ok ex sk ents P db" and mi: "mirrors db" and wi: "wal_ids_ok db" and c: "creates_fresh db" and ho: "order_ok ho"
    and wr: "db_imms db \<noteq> [] \<Longrightarrow> writes_ok ex (db_opts db) (ents (mt_map (last (db_imms db))))"
    and n: "unat (db_next_file_id db) + flush_ids ents db < 2 ^ 64" and one: "length (db_imms db) \<le> 1"
    and P: "\<forall>g x db'. register_pins (md_pins (ms_data (db_manifest db))) (db_visible db) (db_snapshots db) = Ok g
        \<and> flush_one ex sk (db\<lparr>db_snapshots := g\<rparr>) = Some (x, db') \<longrightarrow> runs_on ex P db'"
    and m: "db_holds ex ents P db (db_visible db) mp"
  shows "\<exists>r db'. finish_open ex sk ho h w db = Some (r, db') \<and> (r = Ok () \<longrightarrow> db_ok ex sk ents P db' \<and> stays ex ents P db db'
    \<and> db_imms db' = [] \<and> registry_of mp (db_defs db'))
    \<and> (df_faults (db_dir db) = [] \<and> sf_faults (vh_file (vl_handle (db_vlog db))) = [] \<and> defs_decode mp
       \<and> (\<forall>p \<in> set (md_pins (ms_data (db_manifest db))). pi_seqno p \<le> db_visible db) \<longrightarrow> r = Ok ())"
proof (cases "register_pins (md_pins (ms_data (db_manifest db))) (db_visible db) (db_snapshots db)")
  case (Inl e)
  have "register_pins ps q g \<noteq> Err e" if "\<forall>p \<in> set ps. pi_seqno p \<le> q" for ps q g
    using that by (induction ps arbitrary: g) auto
  then have "\<not> (\<forall>p \<in> set (md_pins (ms_data (db_manifest db))). pi_seqno p \<le> db_visible db)" using Inl by blast
  then show ?thesis using Inl by (simp add: finish_open_def)
next
  case (Inr g)
  define d where "d = db\<lparr>db_snapshots := g\<rparr>"
  have s: "same_reads db d" by (simp add: same_reads_def d_def)
  note so = same_reads_ok [OF s ok]
  have f: "mirrors d" "wal_ids_ok d" "creates_fresh d" "flush_ids ents d = flush_ids ents db" "db_imms d = db_imms db" "db_opts d = db_opts db"
    "db_next_file_id d = db_next_file_id db" "db_dir d = db_dir db" "db_vlog d = db_vlog db"
    using mi wi c by (simp_all add: d_def mirrors_def wal_ids_ok_def creates_fresh_def flush_ids_def)
  have Pd: "\<forall>x db'. flush_one ex sk d = Some (x, db') \<longrightarrow> runs_on ex P db'" using P Inr unfolding d_def by blast
  obtain x d1 where x: "(if db_imms d = [] then Some (Ok False, d) else flush_one ex sk d) = Some (x, d1)"
    "db_ok ex sk ents P d1" "stays ex ents P d d1" "(\<exists>b. x = Ok b) \<longrightarrow> db_imms d1 = []"
    "df_faults (db_dir db) = [] \<and> sf_faults (vh_file (vl_handle (db_vlog db))) = [] \<longrightarrow> (\<exists>b. x = Ok b) \<and> df_faults (db_dir d1) = []"
    using open_flush_spec [OF so(1) f(1-3), unfolded f(4-9), OF wr n Pd one] unfolding f by blast
  have fin: "finish_open ex sk ho h w db = (case x of Inl e \<Rightarrow> Some (Err e, d1) | Inr _ \<Rightarrow>
      (case complete_open (ex_crc ex) h w d1 of (Inl e, db) \<Rightarrow> Some (Err e, db) | (Inr _, db) \<Rightarrow> load_registry ex sk ho db))"
    using Inr x(1) by (simp add: finish_open_def Let_def d_def [symmetric] split: sum.split)
  show ?thesis
  proof (cases x)
    case (Inl e)
    then show ?thesis using fin x(5) by auto
  next
    case (Inr b)
    obtain y d2 where y: "complete_open (ex_crc ex) h w d1 = (y, d2)" by (cases "complete_open (ex_crc ex) h w d1")
    note co = complete_open_spec [OF y x(2)]
    have st: "stays ex ents P db d2" using stays_trans [OF stays_trans [OF so(2) x(3)]] co by blast
    then have "db_holds ex ents P d2 (db_visible d2) mp" using m by (simp add: stays_def)
    then obtain r d3 where l: "load_registry ex sk ho d2 = Some (r, d3)" "same_reads d2 d3" "r = Ok () \<longrightarrow> registry_of mp (db_defs d3)"
      "defs_decode mp \<longrightarrow> r = Ok ()"
      using load_registry_spec [OF _ ho] co by blast
    have "db_ok ex sk ents P d3 \<and> stays ex ents P db d3 \<and> db_imms d3 = []"
      using same_reads_ok [OF l(2)] co stays_trans [OF st] x(4) Inr l(2) by (auto simp: same_reads_def)
    moreover have "df_faults (db_dir db) = [] \<and> sf_faults (vh_file (vl_handle (db_vlog db))) = [] \<longrightarrow> y = Ok ()" using co x(5) by blast
    ultimately show ?thesis using fin Inr y l(1,3,4) by (cases y) auto
  qed
qed

section \<open>Opening what a crash left\<close>

lemma found_from_image:
  assumes si: "store_image ex P m ls d W vcut bss n levels B"
  shows "\<exists>f k ix. find_store ex sk emp opts gen m ls d = Ok f \<and> indexed (ex_crc ex) m d ix \<and> (bss \<noteq> [] \<longrightarrow> whole_upto (ex_crc ex) (last bss) n k)
    \<and> found_as ex sk emp opts gen m d bss levels B (take (taken ix bss k) (concat bss)) f"
proof -
  have im: "crash_image (ex_crc ex) m ls d W vcut bss n" and ids: "ids_below B m ls" and lv: "open_levels ex d (md_levels m) = Ok levels"
    using si by (simp_all add: store_image_def)
  obtain f k ix where f: "find_store ex sk emp opts gen m ls d = Ok f" "fo_gen f = gen" "fo_data f = m"
    "fo_levels f = levels @ replicate (op_max_levels opts - length levels) []" "opened d (vlog_ids m d) (fo_live f)"
    "indexed (ex_crc ex) m d ix" "bss \<noteq> [] \<longrightarrow> whole_upto (ex_crc ex) (last bss) n k"
    "fo_replay f = fold (replay_logged sk) (takeWhile (batch_there ix) (on_disk_batches bss k))
         \<lparr>rp_mem = memtable_new emp (if bss = [] then 0 else last (wal_ids_of m d)), rp_max = md_last_flushed_seqno m\<rparr>"
    "fo_wals f = wal_ids_of m d" "max (md_next_file_id m) 1 \<le> fo_next f" "\<forall>i \<in> vlog_ids m d. young_in m i \<and> i \<noteq> - 1 \<longrightarrow> i < fo_next f"
    using find_store_spec [OF im lv, of sk emp opts gen] by (elim exE conjE) (rule that; assumption)
  have ls: "listed ls d" and len: "length bss = length (wal_ids_of m d)" using im unfolding crash_image_def by blast+
  have keys: "fst ` set (fo_live f) = vlog_ids m d" by (rule opened_keys [OF f(5)])
  have vb: "i < B" "young_in m i \<or> i < md_next_file_id m" if "i \<in> vlog_ids m d" for i using vlog_ids_bound [OF ls ids that] by blast+
  have "\<forall>i \<in> fst ` set (fo_live f). i < B" using vb(1) keys by blast
  note nx = find_store_ids [OF f(1) ids this, unfolded f(9)]
  have mn: "md_next_file_id m \<le> fo_next f" using f(10) by simp
  have all: "i < fo_next f" if "i \<in> vlog_ids m d" for i
  proof -
    have "i \<noteq> - 1" using vb(1) [OF that] word_order.extremum_strict [of B] by blast
    then show ?thesis using vb(2) [OF that] f(11) that mn by (auto intro: order_less_le_trans)
  qed
  have fl: "md_wal_floor m \<le> fo_next f" using ids mn by (auto simp: ids_below_def)
  have wl: "last (wal_ids_of m d) < fo_next f \<and> md_wal_floor m \<le> last (wal_ids_of m d)" if "bss \<noteq> []"
  proof -
    have "wal_ids_of m d \<noteq> []" using that len by auto
    then have "last (wal_ids_of m d) \<in> set (wal_ids_of m d)" by (rule last_in_set)
    then show ?thesis using nx unfolding wal_ids_of_spec(3) by blast
  qed
  have "found_as ex sk emp opts gen m d bss levels B (take (taken ix bss k) (concat bss)) f"
    unfolding found_as_def taken_prefix [symmetric]
  proof (intro conjI ballI impI)
    show "fo_next f \<le> B" using nx by blast
    show "i < fo_next f" if "i \<in> vlog_ids m d" for i by (rule all [OF that])
    assume "takeWhile (batch_there ix) (on_disk_batches bss k) \<noteq> []"
    then have "bss \<noteq> []" by (auto simp: on_disk_batches_def)
    then show "last (wal_ids_of m d) < fo_next f" "md_wal_floor m \<le> last (wal_ids_of m d)" using wl by blast+
  qed (fact f fl)+
  then show ?thesis using f(1,6,7) by blast
qed

lemma replay_wals_torn:
  "replay_wals crc sk d ix known wids s = Ok (s', Some (w, n)) \<Longrightarrow> df_files d (wal_name w) \<noteq> None"
proof (induction wids arbitrary: s)
  case (Cons wid wids)
  then show ?case by (auto simp: rbind_Inr_conv open_read_def fs_read_def split: if_splits wal_tail.splits option.splits)
qed simp

lemma truncate_tail_calm:
  assumes f: "find_store ex sk emp opts gen m ls d = Ok f" and c: "df_faults d = []"
  shows "\<exists>d'. truncate_tail (fo_torn f) d = (Ok (), d') \<and> df_faults d' = []"
proof (cases "fo_torn f")
  case (Some p)
  obtain w n where p: "p = (w, n)" by (cases p)
  have "\<exists>ix known wids s s'. replay_wals (ex_crc ex) sk d ix known wids s = Ok (s', fo_torn f)"
    using f by (force simp: find_store_def rbind_Inr_conv Let_def case_prod_beta)
  then obtain c where "df_files d (wal_name w) = Some c" using replay_wals_torn Some p by (metis not_None_eq)
  then show ?thesis using Some p c by (simp add: truncate_tail_def fs_set_len_def fs_sync_all_def next_fs_fault_def fs_bind_def)
qed (use c in \<open>simp add: truncate_tail_def\<close>)

lemma assemble_returns:
  assumes cr: "\<forall>x \<in> set created. \<exists>f. x = Ok f \<and> fresh_file f"
  shows "(\<exists>e d'. assemble opts sk emp f created d = (Err e, d') \<and> df_faults d \<noteq> [])
    \<or> (\<exists>db h w d'. assemble opts sk emp f created d = (Ok (db, h, w), d') \<and> (df_faults d = [] \<longrightarrow> df_faults d' = []))"
proof -
  obtain hf c1 where hf: "next_created created = (Ok hf, c1)" "set c1 \<subseteq> set created" using next_created_fresh [OF cr] by blast
  obtain wf c2 where wf: "next_created c1 = (Ok wf, c2)" using next_created_fresh [of c1] cr hf(2) by blast
  show ?thesis
    using hf(1) wf by (cases "df_faults d") (auto simp: assemble_def Let_def sync_dir_def next_fs_fault_def split: option.splits)
qed

lemma pad_levels_length: "max n 1 \<le> length (md_levels (pad_levels n m))"
  by (simp add: pad_levels_def)

lemma resolve_identity_levels: "resolve_identity sha m name = (r, m') \<Longrightarrow> md_levels m' = md_levels m"
  by (auto simp: resolve_identity_def Let_def split: sum.splits option.splits if_splits)

lemma stays_recovered: "stays ex ents P a b \<Longrightarrow> recovered ex ents P m d levels bs a \<Longrightarrow> recovered ex ents P m d levels bs b"
  unfolding stays_def recovered_def by metis

text \<open>From the found store on.\<close>

lemma open_from_found:
  fixes sk :: "'m skip_ops" and k :: nat
  assumes sk: "skip_ok sk ents" and emp: "ents emp = []" and ho: "order_ok ho" and si: "store_image ex P m ls d W vcut bss n levels B"
    and ix: "indexed (ex_crc ex) m d ix" and fo: "found_as ex sk emp opts gen m d bss levels B (take (taken ix bss k) (concat bss)) f"
    and as: "assemble opts sk emp f created d2 = (Ok (db, h, w), d3)"
    and cr: "\<forall>x \<in> set created. \<exists>f. x = Ok f \<and> fresh_file f"
    and lv: "op_max_levels opts \<le> length (md_levels m)" "md_levels m \<noteq> []"
    and wr: "writes_ok ex opts (ents (mt_map (rp_mem (fo_replay f))))"
    and base: "layers_hold (value_at (ex_crc ex) P (vlog_table m d)) (table_layers ex levels) (md_last_flushed_seqno m) mp"
    and P: "\<forall>g x db'. register_pins (md_pins (ms_data (db_manifest db))) (db_visible db) (db_snapshots db) = Ok g
        \<and> flush_one ex sk (db\<lparr>db_snapshots := g\<rparr>) = Some (x, db') \<longrightarrow> runs_on ex P db'"
  defines "bs \<equiv> take (taken ix bss k) (concat bss)"
  shows "\<exists>r db'. finish_open ex sk ho h w db = Some (r, db')
    \<and> (r = Ok () \<longrightarrow> db_ok ex sk ents P db' \<and> recovered ex ents P m d levels bs db' \<and> db_imms db' = []
        \<and> registry_of (fold op_on (all_ops bs) mp) (db_defs db'))
    \<and> (df_faults d3 = [] \<and> defs_decode (fold op_on (all_ops bs) mp) \<and> (\<forall>p \<in> set (md_pins m). pi_seqno p \<le> md_last_flushed_seqno m) \<longrightarrow> r = Ok ())"
proof -
  note a = assembled [OF sk emp si ix fo as cr lv, folded bs_def]
  have ok: "db_ok ex sk ents P db" "mirrors db" "wal_ids_ok db" "creates_fresh db" and rec: "recovered ex ents P m d levels bs db"
    and o: "db_opts db = opts" "db_imms db = [] \<or> db_imms db = [rp_mem (fo_replay f)]" "db_dir db = d3"
      "md_pins (ms_data (db_manifest db)) = md_pins m" "sf_faults (vh_file (vl_handle (db_vlog db))) = []"
      "unat (db_next_file_id db) \<le> unat B + 2" using a by blast+
  have wr': "writes_ok ex (db_opts db) (ents (mt_map (last (db_imms db))))" if "db_imms db \<noteq> []" using wr o(1,2) that by auto
  have one: "length (db_imms db) \<le> 1" using o(2) by auto
  have fr: "fo_replay f = fold (replay_logged sk) bs \<lparr>rp_mem = memtable_new emp (if bss = [] then 0 else last (wal_ids_of m d)), rp_max = md_last_flushed_seqno m\<rparr>"
    using fo unfolding found_as_def bs_def by blast
  have "length (ents (mt_map (rp_mem (fo_replay f)))) \<le> logged_len bs"
    using replay_length [OF sk, of bs] emp unfolding fr by (metis add.left_neutral list.size(3) memtable.select_convs(1) memtable_new_def replay.select_convs(1))
  moreover have "logged_len bs \<le> logged_len (concat bss)"
    unfolding bs_def by (rule logged_len_take)
  ultimately have ids: "unat (db_next_file_id db) + flush_ids ents db < 2 ^ 64"
    using o(2,6) si by (auto simp: store_image_def flush_ids_def)
  have hold: "db_holds ex ents P db (db_visible db) (fold op_on (all_ops bs) mp)" using rec base unfolding recovered_def by blast
  have vis: "md_last_flushed_seqno m \<le> db_visible db" using rec by (simp add: recovered_def word_le_nat_alt)
  obtain r db' where f: "finish_open ex sk ho h w db = Some (r, db')"
    "r = Ok () \<longrightarrow> db_ok ex sk ents P db' \<and> stays ex ents P db db' \<and> db_imms db' = [] \<and> registry_of (fold op_on (all_ops bs) mp) (db_defs db')"
    "df_faults (db_dir db) = [] \<and> sf_faults (vh_file (vl_handle (db_vlog db))) = [] \<and> defs_decode (fold op_on (all_ops bs) mp)
       \<and> (\<forall>p \<in> set (md_pins (ms_data (db_manifest db))). pi_seqno p \<le> db_visible db) \<longrightarrow> r = Ok ()"
    using finish_open_spec [OF ok ho wr' ids one P hold, of h w] by blast
  have "recovered ex ents P m d levels bs db'" if "r = Ok ()" using stays_recovered [OF _ rec] f(2) that by blast
  then show ?thesis using f vis unfolding o by (intro exI [of _ r] exI [of _ db']) (auto intro: order_trans)
qed

end
