(* ===== verification/RecoverOpen.thy ===== *)
theory RecoverOpen
  imports RecoverProofs
begin

text \<open>
  The property of recovery: what opening the directory of a crashed store gives back.
\<close>

section \<open>A directory after a crash\<close>

definition crash_manifest :: manifest_data where
  "crash_manifest = pad_levels 7 (sample_manifest\<lparr>md_last_flushed_seqno := 8, md_levels := [], md_vlog_live := [], md_vlog_head := 5,
     md_vlog_retired := [], md_discard := []\<rparr>)"

definition crash_batch :: logged where
  "crash_batch = (9, [OpPut [107] []], [\<lparr>ee_kind = Put, ee_key = [107], ee_repr = encode_inline []\<rparr>])"

definition crash_dir :: dir_fs where
  "crash_dir = \<lparr>df_files = [current_name \<mapsto> manifest_name 1 @ [10], manifest_name 1 \<mapsto> manifest_encode (\<lambda>_. 7) crash_manifest,
       wal_name 3 \<mapsto> wal_frames (\<lambda>_. 7) [payload crash_batch]],
     df_faults = [], df_stuck = (\<lambda>_. False)\<rparr>"

definition crash_listing :: "bytes list" where
  "crash_listing = [wal_name 3, current_name, manifest_name 1]"

lemma other_names [simp]:
  "parse_file_id current_name (ascii ''wal-'') suf = None" "parse_file_id current_name (ascii ''vlog-'') suf = None"
  "parse_file_id current_name (ascii ''sst-'') suf = None" "parse_file_id (manifest_name g) (ascii ''wal-'') suf = None"
  "parse_file_id (manifest_name g) (ascii ''vlog-'') suf = None" "parse_file_id (manifest_name g) (ascii ''sst-'') suf = None"
  "generation current_name = None" "generation (wal_name i) = None"
  by (simp_all add: parse_file_id_def generation_def current_name_def manifest_name_def wal_name_def strip_prefix_def ascii_def)

lemma names_differ [simp]:
  "wal_name i = wal_name j \<longleftrightarrow> i = j" "wal_name i \<noteq> current_name" "current_name \<noteq> wal_name i" "wal_name i \<noteq> manifest_name g" "manifest_name g \<noteq> wal_name i"
  "vlog_name i \<noteq> wal_name j" "vlog_name i \<noteq> current_name" "vlog_name i \<noteq> manifest_name g" "current_name \<noteq> manifest_name g" "manifest_name g \<noteq> current_name"
proof -
  show "wal_name i = wal_name j \<longleftrightarrow> i = j" by (metis option.inject parse_file_names(1))
  show "wal_name i \<noteq> current_name" "current_name \<noteq> wal_name i" "wal_name i \<noteq> manifest_name g" "manifest_name g \<noteq> wal_name i"
    "vlog_name i \<noteq> wal_name j" "vlog_name i \<noteq> current_name" "vlog_name i \<noteq> manifest_name g" "current_name \<noteq> manifest_name g" "manifest_name g \<noteq> current_name"
    by (simp_all add: wal_name_def current_name_def manifest_name_def vlog_name_def ascii_def)
qed

lemma crash_manifest_fields:
  "md_next_file_id crash_manifest = 9" "md_last_flushed_seqno crash_manifest = 8" "md_wal_floor crash_manifest = 3"
  "md_levels crash_manifest = replicate 7 []" "md_vlog_live crash_manifest = []" "md_vlog_retired crash_manifest = []" "md_pins crash_manifest = []"
  "md_pending_fork crash_manifest = None" "md_identity crash_manifest = None"
  by (simp_all add: crash_manifest_def pad_levels_def sample_manifest_def)

lemma crash_loads: "manifest_exists crash_dir" "manifest_load (\<lambda>_. 7) crash_dir = Ok (1, crash_manifest)"
  "resolve_identity sha (pad_levels 7 crash_manifest) None = (Ok (), crash_manifest)" "manifest_sweep (\<lambda>stale. stale \<noteq> 1) crash_dir = crash_dir"
proof -
  have ok: "manifest_ok crash_manifest"
    by (simp add: crash_manifest_def pad_levels_def sample_manifest_def manifest_ok_def slice_len_ok_def run_meta_ok_def identity_ok_def pending_ok_def list_all_iff)
  show "manifest_exists crash_dir" by (simp add: manifest_exists_def crash_dir_def)
  show "manifest_load (\<lambda>_. 7) crash_dir = Ok (1, crash_manifest)"
    using manifest_reads_back [OF ok] by (auto simp: manifest_load_iff loads_def crash_dir_def intro!: exI [of _ "manifest_name 1"])
  have "pad_levels 7 crash_manifest = crash_manifest" by (simp add: pad_levels_def crash_manifest_fields)
  then show "resolve_identity sha (pad_levels 7 crash_manifest) None = (Ok (), crash_manifest)"
    by (simp add: resolve_identity_def crash_manifest_fields)
  have "generation name = Some g \<Longrightarrow> df_files crash_dir name \<noteq> None \<Longrightarrow> g = 1" for name g
    by (auto simp: crash_dir_def split: if_splits)
  then have "df_files (manifest_sweep (\<lambda>stale. stale \<noteq> 1) crash_dir) name = df_files crash_dir name" for name
    by (cases "df_files crash_dir name") (auto simp: manifest_sweep_def split: option.split)
  then show "manifest_sweep (\<lambda>stale. stale \<noteq> 1) crash_dir = crash_dir" by (intro dir_fs.equality) (auto simp: manifest_sweep_def crash_dir_def)
qed

lemma crash_logs: "wal_ids_of crash_manifest crash_dir = [3]" "vlog_ids crash_manifest crash_dir = {}"
proof -
  have "{i. md_wal_floor crash_manifest \<le> i \<and> df_files crash_dir (wal_name i) \<noteq> None} = {3}"
    by (auto simp: crash_manifest_fields crash_dir_def split: if_splits)
  then show "wal_ids_of crash_manifest crash_dir = [3]" by (simp add: wal_ids_of_def)
  show "vlog_ids crash_manifest crash_dir = {}" by (simp add: vlog_ids_def crash_dir_def)
qed

lemma crash_listed: "listed crash_listing crash_dir" "ids_below 9 crash_manifest crash_listing"
proof -
  have s: "set crash_listing = {name. df_files crash_dir name \<noteq> None}"
    by (auto simp: crash_listing_def crash_dir_def)
  have d: "distinct crash_listing" by (simp add: crash_listing_def)
  have n: "(parse_file_id name (ascii ''wal-'') (ascii ''.log'') = Some i \<longrightarrow> name = wal_name i \<and> i = 3)
      \<and> parse_file_id name (ascii ''vlog-'') (ascii ''.vlog'') \<noteq> Some i \<and> parse_file_id name (ascii ''sst-'') (ascii ''.tbl'') \<noteq> Some i"
    if "name \<in> set crash_listing" for name i
    using that by (auto simp: crash_listing_def)
  show "listed crash_listing crash_dir" unfolding listed_def using s d n by blast
  have "i < 9" if "name \<in> set crash_listing" "parse_file_id name (ascii ''wal-'') (ascii ''.log'') = Some i
      \<or> parse_file_id name (ascii ''sst-'') (ascii ''.tbl'') = Some i \<or> parse_file_id name (ascii ''vlog-'') (ascii ''.vlog'') = Some i" for name i
    using n [OF that(1), of i] that(2) by auto
  then show "ids_below 9 crash_manifest crash_listing" unfolding ids_below_def crash_manifest_fields by auto
qed

lemma crash_batch_fields:
  "logged_ops crash_batch = [OpPut [107] []]" "logged_entries crash_batch = [\<lparr>ee_kind = Put, ee_key = [107], ee_repr = encode_inline []\<rparr>]"
  "fst crash_batch = 9"
  by (simp_all add: crash_batch_def logged_ops_def logged_entries_def)

lemma crash_store: "store_image sample_codecs P crash_manifest crash_listing crash_dir (\<lambda>_. []) (\<lambda>_. 0) [[crash_batch]]
    (length (wal_frames (\<lambda>_. 7) [payload crash_batch])) (replicate 7 []) 9"
proof -
  have pay: "payload crash_batch = encode_batch 9 [\<lparr>ee_kind = Put, ee_key = [107], ee_repr = encode_inline []\<rparr>]"
    by (simp add: payload_def crash_batch_def)
  have b: "batch_ok (9, [\<lparr>ee_kind = Put, ee_key = [107], ee_repr = encode_inline []\<rparr>])"
    by (simp add: batch_ok_def enc_entry_ok_def slice_len_ok_def encode_inline_def)
  have w: "wal_payload_ok (payload crash_batch)"
    using length_uvarint_le_10 [of 1]
    by (simp add: wal_payload_ok_def pay encode_batch_def Let_def codec_simps encode_inline_def enc_len_prefixed_def)
  have lw: "logged_written (\<lambda>_. 7) crash_manifest crash_dir (\<lambda>_. []) (\<lambda>_. 0) crash_batch"
    using b w by (auto simp: logged_written_def crash_batch_fields op_entry_def written_def decode_encode_inline)
  have files: "df_files crash_dir (wal_name 3) = Some (wal_frames (\<lambda>_. 7) [payload crash_batch])" "\<And>i. df_files crash_dir (vlog_name i) = None"
    by (simp_all add: crash_dir_def)
  have im: "crash_image (\<lambda>_. 7) crash_manifest crash_listing crash_dir (\<lambda>_. []) (\<lambda>_. 0) [[crash_batch]] (length (wal_frames (\<lambda>_. 7) [payload crash_batch]))"
    unfolding crash_image_def using crash_listed(1) lw by (simp add: crash_logs crash_manifest_fields files)
  have ol: "open_levels sample_codecs crash_dir (replicate k []) = Ok (replicate k [])" for k by (induction k) simp_all
  have cl: "concat (replicate k []) = []" for k by simp
  have crc: "ex_crc sample_codecs = (\<lambda>_. 7)" by (simp add: sample_codecs_def)
  show ?thesis
    unfolding store_image_def crc crash_manifest_fields
  proof (intro conjI)
    show "tables_ok sample_codecs P 8 (replicate 7 [])" unfolding tables_ok_def table_layers_def cl by (simp add: layered_def below_def)
    show "cache_truth (\<lambda>_. 7) P (vlog_table crash_manifest crash_dir)" by (simp add: cache_truth_def vlog_table_def crash_logs)
  qed (use im crash_listed(2) ol in \<open>simp_all add: crash_batch_fields max_seqno_val\<close>)
qed

lemma crash_replay:
  "Rep_sorted_entries (mt_map (rp_mem (fold (replay_logged list_skip_ops) (take i (concat [[crash_batch]]))
     \<lparr>rp_mem = memtable_new se_empty w, rp_max = q\<rparr>))) = (if i = 0 then [] else [(make_ikey [107] 9 Put, [0])])"
proof -
  have ins: "Rep_sorted_entries (se_insert ik v m) = put_entry ik v (Rep_sorted_entries m)" for ik v m
    using list_skip_ok unfolding skip_ok_def by (simp add: list_skip_ops_def)
  have e: "Rep_sorted_entries se_empty = []" by (simp add: se_empty_def Abs_sorted_entries_inverse)
  show ?thesis
    by (cases i) (simp_all add: e crash_batch_def replay_logged_def replay_batch_def logged_entries_def memtable_insert_def memtable_new_def
        list_skip_ops_def ins put_entry_Nil encode_inline_def repr_inline_def)
qed

lemma crash_writes: "writes_ok sample_codecs options_default (Rep_sorted_entries (mt_map (rp_mem (fold (replay_logged list_skip_ops)
    (take i (concat [[crash_batch]])) \<lparr>rp_mem = memtable_new se_empty w, rp_max = q\<rparr>))))"
  unfolding crash_replay using put_writes_ok [of 0] sample_input_ok(1) by (auto simp: writes_ok_def)

lemma few_tables: "tables_of ex es ts \<Longrightarrow> length es \<le> 1 \<Longrightarrow> ts = [] \<or> (\<exists>h. ts = [h] \<and> table_sound ex (th_table h))"
proof (cases es)
  case Nil
  assume "tables_of ex es ts"
  then obtain frags where f: "list_all2 (frag_of ex) ts frags" "concat frags = []" unfolding tables_of_def using Nil by blast
  then have "frags = []" by (cases frags) (auto simp: list_all2_Cons2 frag_of_def)
  then show ?thesis using f(1) by simp
next
  case (Cons e es')
  moreover assume "tables_of ex es ts" "length es \<le> 1"
  ultimately show ?thesis using one_entry_tables [of ex e ts] by simp
qed

text \<open>A flush of at most one entry into a store without tables: what a cache may hold for its tables.\<close>

lemma small_flush_on:
  assumes sk: "skip_ok sk ents" and c: "creates_fresh db" and lv: "vs_levels (db_version db) = replicate (Suc n) []"
    and one: "\<And>mt. mt \<in> set (db_imms db) \<Longrightarrow> length (ents (mt_map mt)) \<le> 1 \<and> writes_ok ex (db_opts db) (ents (mt_map mt))"
    and f: "flush_one ex sk db = Some (x, db')"
  shows "\<exists>P. runs_on ex P db'"
proof -
  let ?ts = "map th_table (concat (map rn_tables (runs_newest_first (db_version db'))))"
  have none: "runs_newest_first v = []" if "vs_levels v = vs_levels (db_version db)" for v using that lv by (simp add: runs_newest_first_def)
  have ts: "?ts = [] \<or> (\<exists>t. ?ts = [t] \<and> table_sound ex t)"
  proof (cases "db_imms db = []")
    case True
    then have "db' = db" using f by (simp add: flush_one_def)
    then show ?thesis using none [OF refl] by simp
  next
    case False
    have l: "length (ents (mt_map (last (db_imms db)))) \<le> 1" "writes_ok ex (db_opts db) (ents (mt_map (last (db_imms db))))"
      using one [OF last_in_set [OF False]] by blast+
    show ?thesis
      using flush_one_tables [OF sk c False l(2) f]
    proof
      assume "\<exists>r. vs_levels (db_version db') = level_push 0 r (vs_levels (db_version db)) \<and> tables_of ex (ents (mt_map (last (db_imms db)))) (rn_tables r)"
      then obtain r where r: "vs_levels (db_version db') = level_push 0 r (vs_levels (db_version db))" "tables_of ex (ents (mt_map (last (db_imms db)))) (rn_tables r)" by blast
      have "runs_newest_first (db_version db') = [r]" using r(1) lv by (simp add: runs_newest_first_def level_push_def)
      then show ?thesis using few_tables [OF r(2) l(1)] by auto
    qed (use none in simp)
  qed
  have "table_on ex (tables_hold ex ?ts) (th_table h)" if h: "r \<in> set (runs_newest_first (db_version db'))" "h \<in> set (rn_tables r)" for r h
  proof -
    have "th_table h \<in> set ?ts" using h by auto
    then obtain t where "?ts = [t]" "table_sound ex t" "th_table h = t" using ts by (elim disjE exE conjE) simp_all
    then show ?thesis using tables_hold_on [of ?ts "th_table h" ex] by simp
  qed
  then show ?thesis unfolding runs_on_def by blast
qed

section \<open>Opening\<close>

text \<open>The newest state after the first \<open>j\<close> logged batches.\<close>

definition state_after :: "key_map \<Rightarrow> logged list list \<Rightarrow> nat \<Rightarrow> key_map" where
  "state_after mp bss j = fold op_on (all_ops (take j (concat bss))) mp"



end
