(* ===== verification/Spec2Isabelle.thy ===== *)
theory Spec2Isabelle
  imports Batch Wal Reads Commit StoreMap GroupProofs FlushProofs CompactStart Config Identity Manifest Store Snapshots Stream Trigger TxnProofs RecoverOpen
begin

text \<open>
  The storage engine \<open>fluent31\<close>, an embedded key-value store written in Rust: a log-structured
  merge tree with multi-version reads, values kept apart in a value log, optimistic transactions,
  a replication tap and write triggers. The repository's other crates (replication, GraphQL,
  server, command line, guest SDK) are clients of the engine crate \<open>crates/fluent31\<close>; this
  development models the engine. File names below are relative to \<open>crates/fluent31/src\<close>.

  \<^bold>\<open>How the program works.\<close>
  A write batch is given consecutive seqnos; large values go to the value log first, then one
  record of the batch to the write-ahead log, then the entries to the active memtable, and at last
  the visible seqno moves, which publishes them. A full memtable becomes immutable, with a fresh
  log beside the new one; a flush turns the oldest immutable memtable into a run of table files in
  level 0, and compaction merges runs downwards. The manifest names the runs, the value logs and
  the oldest log still needed. A read view is the active memtable, the immutable ones and the
  levels of runs, read at a seqno. Opening a store reads the manifest and replays the logs at or
  above its floor.
\<close>

text \<open>
  \<^bold>\<open>The library.\<close> One theory per component, each importing what it calls.

  \<^item> \<open>Prelude\<close>: machine types (\<open>u8\<close>, \<open>u32\<close>, \<open>u64\<close> as words, offsets and \<open>usize\<close> as \<open>nat\<close>), the
    error type of \<open>error.rs\<close>, \<open>rbind\<close> for \<open>?\<close>, three-way comparison of byte strings, binary search.
  \<^item> \<open>Coding\<close> (\<open>coding.rs\<close>), \<open>Types\<close> (\<open>types.rs\<close>), \<open>Batch\<close> (\<open>batch.rs\<close>): integers, internal keys,
    value representations, the log payload. The locale \<open>codec\<close> is the contract of an encoder and its
    decoder; the manifest's fields use it too.
  \<^item> \<open>FileIo\<close> (\<open>io/mod.rs\<close>, \<open>io/std_io.rs\<close>): files with the faults their calls will have.
    \<open>Wal\<close> (\<open>wal.rs\<close>): framing and reading a log. \<open>Vlog\<close> (\<open>vlog.rs\<close>): records, reads, scans.
  \<^item> \<open>InternalIter\<close> (the trait of \<open>iter.rs\<close>): the locales \<open>forward_iterator\<close> and \<open>reverse_iterator\<close> say
    what a cursor delivers. They are interpreted on the block cursor (\<open>Block\<close>, \<open>block.rs\<close>), the table
    cursor (\<open>Table\<close>, \<open>table/\<close>), the run cursor (\<open>Version\<close>, \<open>version.rs\<close>), the children of a merge and
    the merge itself (\<open>MergeIter\<close>, \<open>DbIter\<close>, \<open>iter.rs\<close>).
  \<^item> \<open>Bloom\<close> (\<open>bloom.rs\<close>), \<open>Cache\<close> (\<open>cache.rs\<close>, with the locale \<open>value_cache\<close>), \<open>TableBuild\<close> (writer
    and reader agree), \<open>Memtable\<close> (\<open>memtable.rs\<close>), \<open>Treemap\<close> (the standard library's ordered maps).
  \<^item> \<open>ReadView\<close> (what the layers of a view mean), \<open>Mvcc\<close> (the visibility cursors), \<open>DbIterator\<close> (the
    prefetching iterator), \<open>Reads\<close> (point reads and scans end to end).
  \<^item> \<open>Config\<close>, \<open>Identity\<close>, \<open>Manifest\<close>, \<open>Store\<close> (the directory, atomic publication of manifests,
    identity resolution, startup collection), \<open>Snapshots\<close>, \<open>Stream\<close> (subscriptions), \<open>Trigger\<close>.
  \<^item> \<open>Write\<close>, \<open>Group\<close> (\<open>db.rs\<close>: the state of an open store and the two commit paths), \<open>Commit\<close>,
    \<open>StoreMap\<close>, \<open>GroupProofs\<close> (what they guarantee).
  \<^item> \<open>RunWriter\<close>, \<open>Flush\<close>, \<open>FlushProofs\<close> (\<open>db.rs\<close>: the flush); \<open>Compact\<close> (\<open>compaction.rs\<close>),
    \<open>CompactGc\<close>, \<open>CompactProofs\<close>, \<open>CompactReads\<close>, \<open>CompactStart\<close>.
  \<^item> \<open>Txn\<close> (\<open>txn.rs\<close>), \<open>TxnIter\<close> (with the locale \<open>delivering\<close> for the base iterator), \<open>TxnProofs\<close>.
  \<^item> \<open>Recover\<close> (\<open>open_inner\<close> of \<open>db.rs\<close>, \<open>load_registry\<close> of \<open>trigger.rs\<close>), \<open>RecoverLog\<close>, \<open>RecoverFound\<close>,
    \<open>RecoverProofs\<close>, \<open>RecoverOpen\<close>.
\<close>

text \<open>
  \<^bold>\<open>State and effects.\<close>
  An open store is the record \<open>db\<close> of \<open>Write\<close>; a function of the code that runs under a mutex is one
  function on it, returning \<open>error + 'a\<close> beside the new state, so that every early return is a
  branch. What the operating system will answer is part of the state: \<open>sf_faults\<close> of a file and
  \<open>df_faults\<close> of the directory are consumed call by call, a faulty write may be torn after any byte,
  and \<open>db_created\<close> holds the files that \<open>create_new\<close> will return. A file created since the store
  was opened lives in its handle; \<open>db_dir\<close> has the names and the small files. \<open>db_old_wals\<close> holds the
  logs that a flush may delete.

  \<^bold>\<open>Parameters.\<close> Code of other packages is an argument: \<open>crc\<close> (crc32fast), the record \<open>codecs\<close> with
  \<open>lz4_ok\<close> (the checksum and lz4), \<open>sk\<close> with \<open>skip_ok\<close> (the skip list of crossbeam), \<open>sha\<close> (SHA-256).
  So are \<open>ho\<close>, the order in which a hash map of groups is walked, and \<open>ls\<close>, the order of a directory
  listing. The parameter \<open>P\<close> of the theorems tells what a cache may hold for a place of a file: what
  the file holds there; the witnesses give one. Messages of errors are literals with the
  placeholders of the format string.

  \<^bold>\<open>Loops.\<close> A loop whose end the types do not show is a \<open>partial_function\<close> into \<open>option\<close> (\<open>mf_loop\<close>,
  \<open>mr_loop\<close>, \<open>build_loop\<close>, \<open>slice_loop\<close>, \<open>sched_run\<close>, \<open>load_defs\<close>), and \<open>None\<close> means that it does not
  return. Every property of a scan, a flush, a slice of a compaction and an open also says that it
  returns; of \<open>sched_run\<close>, the composition of slices, the steps are proved and the loop only
  modelled. The eviction loop of the cache runs at most once per node, so as many rounds as nodes
  are enough. Other loops are structural or have a measure.
\<close>

text \<open>
  \<^bold>\<open>What the lemmas show.\<close>

  \<^item> Formats: encoders and decoders are inverse, payloads cut anywhere are refused, a log or a value
    log cut anywhere reads to the records before the cut.
  \<^item> Files: with torn and failed writes a log reads back the acknowledged records; a manifest is
    published atomically; startup collection and the manifest sweep delete nothing that is needed.
  \<^item> Reads: blocks, tables, runs and memtables are cursors over sorted entries; a point read returns
    the newest visible version of a view, a scan each visible pair of its range in order, and both
    resolve the values from the value log. The cache shard refines an LRU list within its budget.
  \<^item> Writes (\<open>StoreMap\<close>): \<open>db_ok\<close> is the invariant of a store and \<open>db_holds\<close> says that a reader at a
    seqno sees a given map. An acknowledged batch applies its operations to the newest map; snapshots,
    rotations, failed batches and failed calls change no map. A group of batches leaves a prefix, and
    its single-batch form equals the single path.
  \<^item> Flush and compaction: both return, keep \<open>db_ok\<close>, and no reader (at or above the watermark, for
    compaction) sees a difference, whichever step fails.
  \<^item> Transactions: read your own writes over a snapshot; first committer wins; bounded buffers.
  \<^item> Recovery: \<open>store_image\<close> describes the directory a crash leaves, every log and value log cut
    anywhere. Opening it returns; the store it yields is sound and holds the tables' map with a
    prefix of the logged batches applied, all the durable ones among them, and without an I/O
    fault it succeeds.
  \<^item> Around the store: the watermark never passes a live snapshot, subscriptions have no gaps,
    capture records what a batch changed, identities are settled once.
\<close>

text \<open>
  \<^bold>\<open>Bounds.\<close> Seqnos stay at or below \<open>max_seqno\<close> (56 bits) and file ids below 64 bits; the theorems that
  allocate either have the room they need as a hypothesis. A table file is smaller than 4 GiB
  (\<open>writes_ok\<close>), a log record at most 1 GiB (\<open>wal_payload_ok\<close>), as the formats require.

  \<^bold>\<open>Not modelled.\<close>

  \<^item> Threads: waiting, waking, timers and the panic guard of the committer. A function under its
    mutex is one step; debug assertions are absent, as in a release build. Log messages are absent.
  \<^item> \<open>vlog_gc_ratio\<close> and the choice and relocation of a value-log victim, which depend on a
    floating-point ratio; the release of a retired victim is modelled.
  \<^item> Administration and the runner of triggers, the WASM host: they call the external runtime.
  \<^item> \<open>io/uring_io.rs\<close>: another backend of the same file interface, written in system calls.
  \<^item> \<open>fork.rs\<close> (hard links and renames of directory trees), \<open>journal.rs\<close> (an optional consumer of a
    subscription on a thread of its own, with its own files) and \<open>edge.rs\<close> (a remote store's cache).
  \<^item> Of opening a store: creating its directory, the lock and the sweep of half-built forks.
  \<^item> The other crates: sockets, HTTP, GraphQL schemas and bindings around external libraries.
\<close>

end
